(* ===== verification/Prelude.thy ===== *)
theory Prelude
  imports Main "HOL-Library.Word" "HOL-Library.List_Lexorder"
begin

text \<open>
  Shared vocabulary of the development: bytes and byte strings, slices of buffers and their
  in-place replacement (Rust's \<open>&buf[off..off + n]\<close> and \<open>copy_from_slice\<close>),
  little-endian fields (\<open>to_le_bytes\<close>, \<open>from_le_bytes\<close>), results with errors and the
  \<open>?\<close> operator, and ordered maps (\<open>BTreeMap\<close>).

  Integers. A byte is an 8-bit word. Unsigned integers of the source (\<open>u16\<close>, \<open>u32\<close>,
  \<open>u64\<close>, \<open>usize\<close>) are \<open>nat\<close>; a cast \<open>as u16\<close> and the storage of a value in a
  field of \<open>w\<close> bytes truncate modulo \<open>256 ^ w\<close>, which \<open>to_le\<close> writes out.
  Byte strings are compared lexicographically on unsigned bytes, as Rust compares slices.
\<close>

named_theorems buf_simps \<open>lengths and reads of slices and splices\<close>
named_theorems le_simps \<open>little-endian fields\<close>
named_theorems res_simps \<open>results and the question-mark operator\<close>

type_synonym u8 = "8 word"
type_synonym u32 = "32 word"
type_synonym bytes = "u8 list"

section \<open>Slices of a buffer\<close>

definition bslice :: "'a list \<Rightarrow> nat \<Rightarrow> nat \<Rightarrow> 'a list" where
  "bslice b off n = take n (drop off b)"

definition bsplice :: "'a list \<Rightarrow> nat \<Rightarrow> 'a list \<Rightarrow> 'a list" where
  "bsplice b off xs = take off b @ xs @ drop (off + length xs) b"

lemma length_bslice [buf_simps]: "length (bslice b off n) = min n (length b - off)"
  by (simp add: bslice_def min.commute)

lemma length_bsplice [buf_simps]:
  "off + length xs \<le> length b \<Longrightarrow> length (bsplice b off xs) = length b"
  by (simp add: bsplice_def)

lemma bslice_full [simp]: "bslice b 0 (length b) = b"
  by (simp add: bslice_def)

lemma bslice_0 [simp]: "bslice b off 0 = []"
  by (simp add: bslice_def)

lemma bsplice_Nil [simp]: "bsplice b off [] = b"
  by (simp add: bsplice_def)

lemma nth_bslice:
  "i < n \<Longrightarrow> off + i < length b \<Longrightarrow> bslice b off n ! i = b ! (off + i)"
  by (simp add: bslice_def)

lemma nth_bsplice:
  assumes "off + length xs \<le> length b" "i < length b"
  shows "bsplice b off xs ! i =
    (if off \<le> i \<and> i < off + length xs then xs ! (i - off) else b ! i)"
  using assms by (auto simp: bsplice_def nth_append)

lemma bslice_bsplice_same [buf_simps]:
  "off + length xs \<le> length b \<Longrightarrow> bslice (bsplice b off xs) off (length xs) = xs"
  by (simp add: bslice_def bsplice_def)

lemma bslice_bsplice_before:
  assumes "o1 + n \<le> off" "off + length xs \<le> length b"
  shows "bslice (bsplice b off xs) o1 n = bslice b o1 n"
  using assms by (intro nth_equalityI) (auto simp: nth_bslice nth_bsplice length_bslice length_bsplice)

lemma bslice_bsplice_after:
  assumes "off + length xs \<le> o1" "off + length xs \<le> length b"
  shows "bslice (bsplice b off xs) o1 n = bslice b o1 n"
  using assms by (intro nth_equalityI) (auto simp: nth_bslice nth_bsplice length_bslice length_bsplice)

lemma bslice_bsplice_disjoint [buf_simps]:
  assumes "o1 + n \<le> off \<or> off + length xs \<le> o1" "off + length xs \<le> length b"
  shows "bslice (bsplice b off xs) o1 n = bslice b o1 n"
  using assms bslice_bsplice_before bslice_bsplice_after by blast

lemma bslice_bsplice_inside:
  assumes "off \<le> o1" "o1 + n \<le> off + length xs" "off + length xs \<le> length b"
  shows "bslice (bsplice b off xs) o1 n = bslice xs (o1 - off) n"
  using assms by (intro nth_equalityI) (auto simp: nth_bslice nth_bsplice length_bslice length_bsplice)

lemma bslice_bslice: "i + n \<le> m \<Longrightarrow> bslice (bslice b off m) i n = bslice b (off + i) n"
  by (simp add: bslice_def drop_take add.commute min_def)

lemma bslice_append_left: "off + n \<le> length xs \<Longrightarrow> bslice (xs @ ys) off n = bslice xs off n"
  by (simp add: bslice_def)

lemma bslice_append_right: "length xs \<le> off \<Longrightarrow> bslice (xs @ ys) off n = bslice ys (off - length xs) n"
  by (simp add: bslice_def)

lemma bsplice_overwrite:
  "length xs = length ys \<Longrightarrow> off + length xs \<le> length b \<Longrightarrow>
   bsplice (bsplice b off xs) off ys = bsplice b off ys"
  by (simp add: bsplice_def)

lemma bsplice_same:
  "off + n \<le> length b \<Longrightarrow> bsplice b off (bslice b off n) = b"
  by (simp add: bsplice_def bslice_def) (metis add.commute append_take_drop_id drop_drop)

section \<open>Little-endian fields\<close>

fun to_le :: "nat \<Rightarrow> nat \<Rightarrow> bytes" where
  "to_le 0 n = []"
| "to_le (Suc k) n = of_nat (n mod 256) # to_le k (n div 256)"

fun from_le :: "bytes \<Rightarrow> nat" where
  "from_le [] = 0"
| "from_le (b # bs) = unat b + 256 * from_le bs"

lemma length_to_le [simp, le_simps]: "length (to_le k n) = k"
  by (induction k arbitrary: n) auto

lemma unat_u8_less: "unat (b::u8) < 256"
  using unsigned_less [of b] by simp

lemma from_le_bound: "from_le bs < 256 ^ length bs"
proof (induction bs)
  case Nil
  then show ?case by simp
next
  case (Cons b bs)
  with unat_u8_less [of b] show ?case by simp
qed

lemma from_le_to_le [le_simps]: "from_le (to_le k n) = n mod 256 ^ k"
proof (induction k arbitrary: n)
  case 0
  then show ?case by simp
next
  case (Suc k)
  have "unat (of_nat (n mod 256) :: u8) = n mod 256"
    by (simp add: unat_of_nat)
  then show ?case
    using Suc.IH [of "n div 256"] by (simp add: mod_mult2_eq)
qed

lemma to_le_from_le: "to_le (length bs) (from_le bs) = bs"
proof (induction bs)
  case Nil
  then show ?case by simp
next
  case (Cons b bs)
  have "(unat b + 256 * from_le bs) div 256 = from_le bs"
    using unat_u8_less [of b] by simp
  with Cons unat_u8_less [of b] show ?case by simp
qed

lemma to_le_inj: "to_le k a = to_le k b \<Longrightarrow> a < 256 ^ k \<Longrightarrow> b < 256 ^ k \<Longrightarrow> a = b"
  by (metis from_le_to_le mod_less)

definition read_le :: "bytes \<Rightarrow> nat \<Rightarrow> nat \<Rightarrow> nat" where
  "read_le b off w = from_le (bslice b off w)"

definition write_le :: "bytes \<Rightarrow> nat \<Rightarrow> nat \<Rightarrow> nat \<Rightarrow> bytes" where
  "write_le b off w v = bsplice b off (to_le w v)"

lemma length_write_le [buf_simps]: "off + w \<le> length b \<Longrightarrow> length (write_le b off w v) = length b"
  by (simp add: write_le_def length_bsplice)

lemma read_write_le_same [buf_simps]:
  "off + w \<le> length b \<Longrightarrow> read_le (write_le b off w v) off w = v mod 256 ^ w"
  using bslice_bsplice_same [of off "to_le w v" b] by (simp add: read_le_def write_le_def le_simps)

lemma read_write_le_other [buf_simps]:
  "o1 + n \<le> off \<or> off + w \<le> o1 \<Longrightarrow> off + w \<le> length b \<Longrightarrow>
   read_le (write_le b off w v) o1 n = read_le b o1 n"
  by (simp add: read_le_def write_le_def bslice_bsplice_disjoint)

lemma bslice_write_le_other [buf_simps]:
  "o1 + n \<le> off \<or> off + w \<le> o1 \<Longrightarrow> off + w \<le> length b \<Longrightarrow>
   bslice (write_le b off w v) o1 n = bslice b o1 n"
  by (simp add: write_le_def bslice_bsplice_disjoint)

lemma read_le_bsplice_other [buf_simps]:
  "o1 + n \<le> off \<or> off + length xs \<le> o1 \<Longrightarrow> off + length xs \<le> length b \<Longrightarrow>
   read_le (bsplice b off xs) o1 n = read_le b o1 n"
  by (simp add: read_le_def bslice_bsplice_disjoint)

lemma read_le_bound: "read_le b off w < 256 ^ w"
proof -
  have "from_le (bslice b off w) < 256 ^ length (bslice b off w)" by (rule from_le_bound)
  also have "\<dots> \<le> 256 ^ w" by (simp add: length_bslice power_increasing)
  finally show ?thesis by (simp add: read_le_def)
qed

section \<open>Lexicographic order\<close>

lemma Cons_between:
  fixes x :: "'a::linorder"
  shows "x # p \<le> k \<and> k < x # q \<longleftrightarrow> (\<exists>k'. k = x # k' \<and> p \<le> k' \<and> k' < q)"
  by (cases k) auto

lemma between_append:
  fixes a :: "'a::linorder list"
  shows "a @ p \<le> k \<and> k < a @ q \<longleftrightarrow> (\<exists>k'. k = a @ k' \<and> p \<le> k' \<and> k' < q)"
proof (induction a arbitrary: k)
  case (Cons x a)
  then show ?case by (auto simp: Cons_between)
qed simp

text \<open>The strings from one string up to its successor \<open>a @ [0]\<close> are that string alone.\<close>

lemma up_to_successor:
  fixes a :: bytes
  shows "a \<le> k \<and> k < a @ [0] \<longleftrightarrow> k = a"
proof -
  have "k' < [0] \<longleftrightarrow> k' = []" for k' :: bytes by (cases k') auto
  then show ?thesis using between_append [of a "[]" k "[0]"] by auto
qed

end
