(* ===== verification/Errors.thy ===== *)
theory Errors
  imports Prelude
begin

text \<open>
  The error taxonomy of \<open>error.rs\<close>: the \<open>Error\<close> enum, its stable status codes, and
  \<open>Result\<close> with the question-mark operator. The message strings that some variants carry
  are diagnostics and are left out; every variant is kept. \<open>Panic\<close> is added for the
  executions in which the Rust code panics (an out-of-range index, an arithmetic underflow);
  it is what the FFI layer reports as the status of the same name. \<open>Diverge\<close> stands for an
  execution that never returns, so it reaches no caller.
\<close>

datatype error =
    Io
  | Corruption
  | NotFound
  | InvalidArgument
  | Conflict
  | TxnNotFound nat
  | Full
  | Serialization
  | Closed
  | Aborted
  | Busy
  | Panic
  | Diverge

datatype phoenix_status =
    StOk | StError | StInvalidArgument | StNotFound | StCorruption | StIo | StConflict
  | StPanic | StTxnNotFound | StFull | StAborted | StBusy

fun status_code :: "phoenix_status \<Rightarrow> int" where
  "status_code StOk = 0"
| "status_code StError = -1"
| "status_code StInvalidArgument = -2"
| "status_code StNotFound = -3"
| "status_code StCorruption = -4"
| "status_code StIo = -5"
| "status_code StConflict = -6"
| "status_code StPanic = -7"
| "status_code StTxnNotFound = -8"
| "status_code StFull = -9"
| "status_code StAborted = -10"
| "status_code StBusy = -11"

fun status :: "error \<Rightarrow> phoenix_status" where
  "status Io = StIo"
| "status Corruption = StCorruption"
| "status NotFound = StNotFound"
| "status InvalidArgument = StInvalidArgument"
| "status Conflict = StConflict"
| "status (TxnNotFound _) = StTxnNotFound"
| "status Full = StFull"
| "status Serialization = StCorruption"
| "status Closed = StInvalidArgument"
| "status Aborted = StAborted"
| "status Busy = StBusy"
| "status Panic = StPanic"
| "status Diverge = StError"

type_synonym 'a res = "error + 'a"

section \<open>The question-mark operator\<close>

definition rbind :: "'a res \<Rightarrow> ('a \<Rightarrow> 'b res) \<Rightarrow> 'b res" where
  "rbind m f = (case m of Inl e \<Rightarrow> Inl e | Inr x \<Rightarrow> f x)"

definition rguard :: "bool \<Rightarrow> error \<Rightarrow> unit res" where
  "rguard b e = (if b then Inr () else Inl e)"

fun rmap :: "('a \<Rightarrow> 'b res) \<Rightarrow> 'a list \<Rightarrow> 'b list res" where
  "rmap f [] = Inr []"
| "rmap f (x # xs) = rbind (f x) (\<lambda>y. rbind (rmap f xs) (\<lambda>ys. Inr (y # ys)))"

lemma rbind_simps [simp, res_simps]:
  "rbind (Inl e) f = Inl e"
  "rbind (Inr x) f = f x"
  by (simp_all add: rbind_def)

lemma rguard_simps [simp, res_simps]:
  "rguard True e = Inr ()"
  "rguard False e = Inl e"
  by (simp_all add: rguard_def)

lemma rbind_Inr_iff [res_simps]: "rbind m f = Inr y \<longleftrightarrow> (\<exists>x. m = Inr x \<and> f x = Inr y)"
  by (cases m) auto

lemma rbind_Inl_iff:
  "rbind m f = Inl e \<longleftrightarrow> m = Inl e \<or> (\<exists>x. m = Inr x \<and> f x = Inl e)"
  by (cases m) auto

lemma rguard_Inr_iff [res_simps]: "rguard b e = Inr u \<longleftrightarrow> b"
  by (simp add: rguard_def)

lemma rguard_Inl_iff [res_simps]: "rguard b e = Inl e' \<longleftrightarrow> \<not> b \<and> e' = e"
  by (auto simp: rguard_def)

lemma rbind_assoc: "rbind (rbind m f) g = rbind m (\<lambda>x. rbind (f x) g)"
  by (cases m) auto

lemma rbind_cong [fundef_cong]:
  "m = m' \<Longrightarrow> (\<And>x. m' = Inr x \<Longrightarrow> f x = f' x) \<Longrightarrow> rbind m f = rbind m' f'"
  by (cases m') auto

lemma rmap_Inr:
  "(\<And>x. x \<in> set xs \<Longrightarrow> f x = Inr (g x)) \<Longrightarrow> rmap f xs = Inr (map g xs)"
  by (induction xs) auto

lemma rmap_length: "rmap f xs = Inr ys \<Longrightarrow> length ys = length xs"
  by (induction xs arbitrary: ys) (auto simp: res_simps)

lemma rmap_nth: "rmap f xs = Inr ys \<Longrightarrow> i < length xs \<Longrightarrow> f (xs ! i) = Inr (ys ! i)"
proof (induction xs arbitrary: ys i)
  case Nil
  then show ?case by simp
next
  case (Cons x xs)
  then show ?case by (cases i) (auto simp: res_simps)
qed

section \<open>Fallible operations on a state\<close>

text \<open>
  A method with \<open>&mut self\<close> that returns a \<open>Result\<close> may change its object and then
  fail; the changes stay. Such a method is a function from a state to a result and a state.
\<close>

type_synonym ('s, 'a) sres = "'s \<Rightarrow> 'a res \<times> 's"

definition sret :: "'a \<Rightarrow> ('s, 'a) sres" where
  "sret x s = (Inr x, s)"

definition serr :: "error \<Rightarrow> ('s, 'a) sres" where
  "serr e s = (Inl e, s)"

definition sbind :: "('s, 'a) sres \<Rightarrow> ('a \<Rightarrow> ('s, 'b) sres) \<Rightarrow> ('s, 'b) sres" where
  "sbind m f s = (case m s of (Inl e, s') \<Rightarrow> (Inl e, s') | (Inr x, s') \<Rightarrow> f x s')"

definition sget :: "('s, 's) sres" where
  "sget s = (Inr s, s)"

definition smod :: "('s \<Rightarrow> 's) \<Rightarrow> ('s, unit) sres" where
  "smod f s = (Inr (), f s)"

definition slift :: "'a res \<Rightarrow> ('s, 'a) sres" where
  "slift r s = (r, s)"

fun smapM :: "('a \<Rightarrow> ('s, unit) sres) \<Rightarrow> 'a list \<Rightarrow> ('s, unit) sres" where
  "smapM f [] = sret ()"
| "smapM f (x # xs) = sbind (f x) (\<lambda>_. smapM f xs)"

lemma s_simps [simp, res_simps]:
  "sret x s = (Inr x, s)" "serr e s = (Inl e, s)" "sget s = (Inr s, s)" "smod g s = (Inr (), g s)"
  "slift r s = (r, s)"
  by (simp_all add: sret_def serr_def sget_def smod_def slift_def)

lemma sbind_simps [simp]:
  "m s = (Inr x, s') \<Longrightarrow> sbind m f s = f x s'"
  "m s = (Inl e, s') \<Longrightarrow> sbind m f s = (Inl e, s')"
  by (simp_all add: sbind_def)

lemma sbind_Inr_iff [res_simps]:
  "sbind m f s = (Inr y, t) \<longleftrightarrow> (\<exists>x s'. m s = (Inr x, s') \<and> f x s' = (Inr y, t))"
  by (auto simp: sbind_def split: prod.splits sum.splits)

lemma sbind_Inl_iff:
  "sbind m f s = (Inl e, t) \<longleftrightarrow>
     m s = (Inl e, t) \<or> (\<exists>x s'. m s = (Inr x, s') \<and> f x s' = (Inl e, t))"
  by (auto simp: sbind_def split: prod.splits sum.splits)

lemma sbind_cong [fundef_cong]:
  "m = m' \<Longrightarrow> s = s' \<Longrightarrow> (\<And>x t. m' s' = (Inr x, t) \<Longrightarrow> f x t = f' x t) \<Longrightarrow> sbind m f s = sbind m' f' s'"
  by (auto simp: sbind_def split: prod.splits sum.splits)

lemma sbind_assoc: "sbind (sbind m f) g = sbind m (\<lambda>x. sbind (f x) g)"
  by (rule ext) (simp add: sbind_def split: prod.splits sum.splits)

section \<open>Status codes\<close>

lemma status_code_le_0: "status_code s \<le> 0"
  by (cases s) auto

lemma inj_status_code: "inj status_code"
proof (rule injI)
  fix s t assume "status_code s = status_code t"
  then show "s = t" by (cases s; cases t) auto
qed

end
