(* ===== verification/Security.thy ===== *)
theory Security
  imports Errors
begin

unbundle bit_operations_syntax

text \<open>
  The primitives of \<open>security/mod.rs\<close>: branch-free comparisons on words, the length checks
  of the FFI boundary, the validation of a C pointer/length pair, and the handle tag. The
  comparisons keep the bit tricks of the source at their machine widths; the lemmas show that
  they decide equality.
\<close>

definition MAX_KEY_LEN :: nat where
  "MAX_KEY_LEN = 1024 * 1024"

definition MAX_VALUE_LEN :: nat where
  "MAX_VALUE_LEN = 10 * 1024 * 1024"

definition ct_is_zero_u8 :: "u8 \<Rightarrow> bool" where
  "ct_is_zero_u8 value =
     (let v = (ucast value :: u32);
          folded = drop_bit 31 (v OR - v)
      in folded XOR 1 = 1)"

definition ct_eq :: "bytes \<Rightarrow> bytes \<Rightarrow> bool" where
  "ct_eq a b =
     (if length a \<noteq> length b then False
      else ct_is_zero_u8 (fold (\<lambda>(x, y) diff. diff OR (x XOR y)) (zip a b) 0))"

definition ct_eq_u64 :: "64 word \<Rightarrow> 64 word \<Rightarrow> bool" where
  "ct_eq_u64 a b =
     (let diff = a XOR b;
          folded = drop_bit 63 (diff OR - diff)
      in folded XOR 1 = 1)"

definition validate_key_len :: "nat \<Rightarrow> unit res" where
  "validate_key_len len =
     (if len = 0 then Inl InvalidArgument
      else if len > MAX_KEY_LEN then Inl InvalidArgument
      else Inr ())"

definition validate_value_len :: "nat \<Rightarrow> unit res" where
  "validate_value_len len =
     (if len > MAX_VALUE_LEN then Inl InvalidArgument else Inr ())"

text \<open>
  A C pointer is its 64-bit address. The result is the address range that is read: \<open>None\<close>
  for the empty slice, which dereferences nothing.
\<close>

definition slice_from_parts :: "64 word \<Rightarrow> nat \<Rightarrow> nat \<Rightarrow> (nat \<times> nat) option res" where
  "slice_from_parts ptr len limit =
     (if len > limit then Inl InvalidArgument
      else if len = 0 then Inr None
      else if ptr = 0 then Inl InvalidArgument
      else if unat ptr + len \<ge> 2 ^ 64 then Inl InvalidArgument
      else Inr (Some (unat ptr, len)))"

definition HANDLE_MAGIC :: "64 word" where
  "HANDLE_MAGIC = 0x50484E5844420001"

definition handle_new :: "64 word" where
  "handle_new = HANDLE_MAGIC"

definition handle_is_valid :: "64 word \<Rightarrow> bool" where
  "handle_is_valid tag = ct_eq_u64 tag HANDLE_MAGIC"

definition handle_poison :: "64 word \<Rightarrow> 64 word" where
  "handle_poison tag = 0xDEADBEEFDEADBEEF"

section \<open>The bit tricks decide equality\<close>

text \<open>The top bit of \<open>x OR - x\<close> is set exactly when \<open>x\<close> is not zero.\<close>

lemma xor_eq_zero_iff: "(a::'a::len word) XOR b = 0 \<longleftrightarrow> a = b"
  by (auto simp: bit_eq_iff bit_xor_iff)

lemma or_eq_zero_iff: "(a::'a::len word) OR b = 0 \<longleftrightarrow> a = 0 \<and> b = 0"
  by (auto simp: bit_eq_iff bit_or_iff)

lemma top_bit_unat:
  fixes x :: "'a::len word"
  shows "bit x (LENGTH('a) - Suc 0) \<longleftrightarrow> 2 ^ (LENGTH('a) - Suc 0) \<le> unat x"
proof -
  let ?h = "(2::nat) ^ (LENGTH('a) - Suc 0)"
  have lt: "unat x < 2 * ?h"
    using unsigned_less [of x] by (simp flip: power_Suc)
  have "bit x (LENGTH('a) - Suc 0) \<longleftrightarrow> bit (unat x) (LENGTH('a) - Suc 0)"
    by (simp add: bit_unsigned_iff)
  also have "\<dots> \<longleftrightarrow> odd (unat x div ?h)" by (simp add: bit_iff_odd)
  also have "\<dots> \<longleftrightarrow> ?h \<le> unat x"
  proof (cases "?h \<le> unat x")
    case True
    have "unat x div ?h = 1" by (rule div_nat_eqI) (use True lt in simp_all)
    with True show ?thesis by simp
  qed simp
  finally show ?thesis .
qed

lemma unat_uminus:
  fixes x :: "'a::len word"
  assumes "x \<noteq> 0"
  shows "unat (- x) = 2 ^ LENGTH('a) - unat x"
proof -
  have pos: "0 < unat x" "unat x < 2 ^ LENGTH('a)"
    using assms unsigned_less [of x] by (simp_all add: unat_gt_0)
  have "of_nat (2 ^ LENGTH('a) - unat x) = (of_nat (2 ^ LENGTH('a)) - of_nat (unat x) :: 'a word)"
    by (rule of_nat_diff) (rule less_imp_le [OF pos(2)])
  then have "- x = of_nat (2 ^ LENGTH('a) - unat x)" by simp
  moreover have "2 ^ LENGTH('a) - unat x < 2 ^ LENGTH('a)" using pos by simp
  ultimately show ?thesis by (simp add: unat_of_nat take_bit_nat_eq_self)
qed

lemma top_bit_nonzero:
  fixes x :: "'a::len word"
  shows "bit (x OR - x) (LENGTH('a) - Suc 0) \<longleftrightarrow> x \<noteq> 0"
proof (cases "x = 0")
  case False
  have "(2::nat) ^ LENGTH('a) = 2 * 2 ^ (LENGTH('a) - Suc 0)" by (simp flip: power_Suc)
  then have "2 ^ (LENGTH('a) - Suc 0) \<le> unat x \<or> 2 ^ (LENGTH('a) - Suc 0) \<le> unat (- x)"
    unfolding unat_uminus [OF False] by linarith
  then have "bit x (LENGTH('a) - Suc 0) \<or> bit (- x) (LENGTH('a) - Suc 0)"
    by (simp only: top_bit_unat)
  then show ?thesis using False by (simp add: bit_or_iff)
qed simp

lemma fold_top_bit:
  fixes x :: "'a::len word"
  shows "drop_bit (LENGTH('a) - Suc 0) (x OR - x) = of_bool (x \<noteq> 0)"
proof (rule bit_eqI)
  fix n assume "possible_bit TYPE('a word) n"
  show "bit (drop_bit (LENGTH('a) - Suc 0) (x OR - x)) n = bit (of_bool (x \<noteq> 0) :: 'a word) n"
  proof (cases n)
    case 0
    then show ?thesis
      unfolding bit_drop_bit_eq by (simp add: top_bit_nonzero bit_of_bool_iff)
  next
    case (Suc m)
    then have "\<not> bit (x OR - x) (LENGTH('a) - Suc 0 + n)"
      using bit_imp_le_length [of "x OR - x" "LENGTH('a) - Suc 0 + n"] by auto
    with Suc show ?thesis
      unfolding bit_drop_bit_eq by (simp add: bit_of_bool_iff)
  qed
qed

lemma ct_is_zero_u8_iff [simp]: "ct_is_zero_u8 v \<longleftrightarrow> v = 0"
proof -
  have "unat (ucast v :: u32) = unat v" using unat_u8_less [of v] by (simp add: unsigned_ucast_eq take_bit_nat_eq_self)
  then have "(ucast v :: u32) = 0 \<longleftrightarrow> v = 0" by (metis unat_0 unat_eq_zero)
  moreover have "drop_bit 31 ((ucast v :: u32) OR - ucast v) = of_bool ((ucast v :: u32) \<noteq> 0)"
    using fold_top_bit [of "ucast v :: u32"] by simp
  ultimately show ?thesis unfolding ct_is_zero_u8_def Let_def by (simp only:) simp
qed

lemma ct_eq_u64_iff [simp]: "ct_eq_u64 a b \<longleftrightarrow> a = b"
proof -
  have "drop_bit 63 ((a XOR b) OR - (a XOR b)) = of_bool (a XOR b \<noteq> 0)"
    using fold_top_bit [of "a XOR b"] by simp
  then show ?thesis unfolding ct_eq_u64_def Let_def by (simp only: xor_eq_zero_iff) simp
qed

lemma fold_diff_zero:
  "length a = length b \<Longrightarrow>
   fold (\<lambda>(x, y) diff. diff OR (x XOR y)) (zip a b) (d::u8) = 0 \<longleftrightarrow> d = 0 \<and> a = b"
proof (induction a b arbitrary: d rule: list_induct2)
  case Nil
  then show ?case by simp
next
  case (Cons x xs y ys)
  have "fold (\<lambda>(x, y) diff. diff OR (x XOR y)) (zip xs ys) (d OR (x XOR y)) = 0 \<longleftrightarrow>
      (d OR (x XOR y)) = 0 \<and> xs = ys"
    by (rule Cons.IH)
  then show ?case by (simp only: zip_Cons_Cons fold_simps prod.case or_eq_zero_iff xor_eq_zero_iff) auto
qed

lemma ct_eq_iff: "ct_eq a b \<longleftrightarrow> a = b"
  by (auto simp: ct_eq_def fold_diff_zero)

lemma validate_key_len_iff: "validate_key_len n = Inr () \<longleftrightarrow> 0 < n \<and> n \<le> MAX_KEY_LEN"
  by (auto simp: validate_key_len_def)

lemma validate_value_len_iff: "validate_value_len n = Inr () \<longleftrightarrow> n \<le> MAX_VALUE_LEN"
  by (auto simp: validate_value_len_def)

lemma slice_from_parts_in_bounds:
  "slice_from_parts ptr len limit = Inr (Some (a, n)) \<Longrightarrow>
     a = unat ptr \<and> n = len \<and> ptr \<noteq> 0 \<and> len \<le> limit \<and> a + n < 2 ^ 64"
  by (auto simp: slice_from_parts_def split: if_splits)

lemma poisoned_handle_invalid: "\<not> handle_is_valid (handle_poison tag)"
  by (simp add: handle_is_valid_def handle_poison_def HANDLE_MAGIC_def)

section \<open>Properties of the boundary checks\<close>

text \<open>C39. The constant-time comparison decides equality of byte strings, and its folded
  difference never loses a byte: it is true exactly for equal inputs.\<close>

theorem ct_eq_decides: "ct_eq a b \<longleftrightarrow> a = b"
  by (rule ct_eq_iff)

text \<open>C40. A pointer/length pair that \<open>slice_from_parts\<close> turns into a readable range is
  non-null, within the limit, and does not wrap around the address space; an empty slice reads
  nothing whatever the pointer.\<close>

theorem slice_from_parts_safe:
  "(\<forall>a n. slice_from_parts ptr len limit = Inr (Some (a, n)) \<longrightarrow>
      a = unat ptr \<and> n = len \<and> ptr \<noteq> 0 \<and> 0 < n \<and> len \<le> limit \<and> a + n < 2 ^ 64) \<and>
   (slice_from_parts ptr 0 limit = Inr None)"
  by (auto simp: slice_from_parts_def split: if_splits)

theorem slice_from_parts_safe_witness:
  "slice_from_parts 0x1000 16 MAX_KEY_LEN = Inr (Some (0x1000, 16)) \<and> (0x1000::nat) + 16 < 2 ^ 64"
proof -
  have "slice_from_parts 0x1000 16 MAX_KEY_LEN = Inr (Some (0x1000, 16))"
    by (simp add: slice_from_parts_def MAX_KEY_LEN_def)
  then show ?thesis using slice_from_parts_safe [of "0x1000" 16 MAX_KEY_LEN] by simp
qed

end
