(* ===== verification/OrdMap.thy ===== *)
theory OrdMap
  imports Errors
begin

text \<open>
  Ordered maps. The source keeps \<open>BTreeMap\<close>s (version chains, staged writes, live
  snapshots, memtables) and iterates them in ascending key order. The model is an
  association list kept strictly ascending by key. The locale \<open>ordered_map\<close> states what
  clients rely on; the list operations are interpreted as an instance of it.
\<close>

section \<open>Strictly ascending association lists\<close>

type_synonym ('k, 'v) bmap = "('k \<times> 'v) list"

definition bm_ok :: "('k::linorder, 'v) bmap \<Rightarrow> bool" where
  "bm_ok m = sorted_wrt (<) (map fst m)"

fun bm_get :: "('k, 'v) bmap \<Rightarrow> 'k \<Rightarrow> 'v option" where
  "bm_get [] k = None"
| "bm_get ((k', v) # m) k = (if k = k' then Some v else bm_get m k)"

fun bm_put :: "'k::linorder \<Rightarrow> 'v \<Rightarrow> ('k, 'v) bmap \<Rightarrow> ('k, 'v) bmap" where
  "bm_put k v [] = [(k, v)]"
| "bm_put k v ((k', v') # m) =
     (if k < k' then (k, v) # (k', v') # m
      else if k = k' then (k, v) # m
      else (k', v') # bm_put k v m)"

definition bm_del :: "'k \<Rightarrow> ('k, 'v) bmap \<Rightarrow> ('k, 'v) bmap" where
  "bm_del k m = filter (\<lambda>e. fst e \<noteq> k) m"

lemma bm_ok_simps [simp]:
  "bm_ok []"
  "bm_ok ((k, v) # m) \<longleftrightarrow> (\<forall>k' \<in> set (map fst m). k < k') \<and> bm_ok m"
  by (auto simp: bm_ok_def)

lemma bm_get_map_of: "bm_get m k = map_of m k"
  by (induction m k rule: bm_get.induct) auto

lemma bm_get_None_iff: "bm_get m k = None \<longleftrightarrow> k \<notin> fst ` set m"
  by (simp add: bm_get_map_of map_of_eq_None_iff)

lemma bm_get_Some_iff: "bm_ok m \<Longrightarrow> bm_get m k = Some v \<longleftrightarrow> (k, v) \<in> set m"
  by (simp add: bm_get_map_of bm_ok_def strict_sorted_iff)

lemma bm_get_set: "bm_get m k = Some v \<Longrightarrow> (k, v) \<in> set m"
  by (simp add: bm_get_map_of map_of_SomeD)

lemma keys_bm_put [simp]: "fst ` set (bm_put k v m) = insert k (fst ` set m)"
  by (induction k v m rule: bm_put.induct) auto

lemma bm_put_ok [simp]: "bm_ok m \<Longrightarrow> bm_ok (bm_put k v m)"
proof (induction k v m rule: bm_put.induct)
  case (1 k v)
  then show ?case by simp
next
  case (2 k v k' v' m)
  have "fst ` set (bm_put k v m) = insert k (fst ` set m)" by simp
  with 2 show ?case by (auto simp flip: image_iff dest: less_trans)
qed

lemma bm_get_put [simp]: "bm_get (bm_put k v m) k' = (if k' = k then Some v else bm_get m k')"
  by (induction k v m rule: bm_put.induct) auto

lemma bm_del_ok [simp]: "bm_ok m \<Longrightarrow> bm_ok (bm_del k m)"
  by (induction m) (auto simp: bm_del_def)

lemma bm_get_del [simp]: "bm_get (bm_del k m) k' = (if k' = k then None else bm_get m k')"
  by (induction m) (auto simp: bm_del_def)

lemma keys_bm_del [simp]: "fst ` set (bm_del k m) = fst ` set m - {k}"
  by (auto simp: bm_del_def image_iff)

lemma set_bm_put: "bm_ok m \<Longrightarrow> set (bm_put k v m) = insert (k, v) {e \<in> set m. fst e \<noteq> k}"
proof (induction k v m rule: bm_put.induct)
  case (1 k v)
  then show ?case by simp
next
  case (2 k v k' v' m)
  then show ?case by (auto dest: less_imp_neq)
qed

lemma bm_ok_filter: "bm_ok m \<Longrightarrow> bm_ok (filter P m)"
  by (induction m) auto

lemma bm_ext:
  assumes "bm_ok m" "bm_ok m'" "\<And>k. bm_get m k = bm_get m' k"
  shows "m = m'"
proof (rule map_sorted_distinct_set_unique [where f = fst])
  have "(k, v) \<in> set m \<longleftrightarrow> (k, v) \<in> set m'" for k v
    using assms(3) bm_get_Some_iff [OF assms(1), of k v] bm_get_Some_iff [OF assms(2), of k v]
    by simp
  then show eq: "set m = set m'" by auto
  have "distinct (map fst m)" using assms(1) by (simp add: bm_ok_def strict_sorted_iff)
  then show "inj_on fst (set m \<union> set m')" by (simp add: eq [symmetric] distinct_map)
qed (use assms(1,2) in \<open>simp_all add: bm_ok_def strict_sorted_iff\<close>)

text \<open>How many entries satisfy a predicate after replacing or removing one.\<close>

lemma bm_count_put:
  assumes "bm_ok m" "bm_get m k = Some v"
  shows "length (filter P (bm_put k v' m)) + of_bool (P (k, v)) =
     length (filter P m) + of_bool (P (k, v'))"
  using assms by (induction k v' m rule: bm_put.induct) (force split: if_splits dest: bm_get_set)+

lemma bm_del_absent: "k \<notin> fst ` set m \<Longrightarrow> bm_del k m = m"
  by (auto simp: bm_del_def filter_id_conv image_iff)

lemma bm_count_del:
  assumes "bm_ok m" "bm_get m k = Some v"
  shows "length (filter P (bm_del k m)) + of_bool (P (k, v)) = length (filter P m)"
  using assms
proof (induction m)
  case (Cons e m)
  obtain k' v' where e: "e = (k', v')" by (cases e)
  show ?case
  proof (cases "k = k'")
    case True
    with Cons.prems have "k \<notin> fst ` set m" "v' = v" by (auto simp: e)
    then have "filter P (bm_del k m) = filter P m" by (simp add: bm_del_absent)
    with True \<open>v' = v\<close> show ?thesis by (simp add: e bm_del_def)
  qed (use Cons in \<open>auto simp: e bm_del_def\<close>)
qed simp

lemma bm_del_put: "bm_ok m \<Longrightarrow> bm_del k (bm_put k v m) = bm_del k m"
  by (rule bm_ext) auto

text \<open>Recomputing or dropping the value of each key, in order.\<close>

definition bm_select :: "('k \<Rightarrow> 'v option) \<Rightarrow> ('k, 'u) bmap \<Rightarrow> ('k, 'v) bmap" where
  "bm_select f m = List.map_filter (\<lambda>e. map_option (Pair (fst e)) (f (fst e))) m"

lemma bm_select_simps [simp]:
  "bm_select f [] = []"
  "bm_select f ((k, u) # m) = (case f k of None \<Rightarrow> bm_select f m | Some v \<Rightarrow> (k, v) # bm_select f m)"
  by (auto simp: bm_select_def map_filter_simps split: option.splits)

lemma bm_select_keys: "k \<in> fst ` set (bm_select f m) \<Longrightarrow> k \<in> fst ` set m"
proof (induction m)
  case (Cons e m)
  then show ?case by (cases e) (simp split: option.splits, blast+)
qed simp

lemma bm_select_ok: "bm_ok m \<Longrightarrow> bm_ok (bm_select f m)"
proof (induction m)
  case (Cons e m)
  then show ?case using bm_select_keys [of _ f m]
    by (cases e) (simp split: option.splits, metis imageE imageI)
qed simp

lemma bm_select_get: "bm_get (bm_select f m) k = (if k \<in> fst ` set m then f k else None)"
proof (induction m)
  case (Cons e m)
  obtain a u where e: "e = (a, u)" by (cases e)
  show ?case by (cases "k = a"; cases "f a") (use Cons in \<open>simp_all add: e\<close>)
qed simp

section \<open>The contract of an ordered map\<close>

locale ordered_map =
  fixes empty :: "'m"
    and get :: "'m \<Rightarrow> 'k::linorder \<Rightarrow> 'v option"
    and put :: "'k \<Rightarrow> 'v \<Rightarrow> 'm \<Rightarrow> 'm"
    and del :: "'k \<Rightarrow> 'm \<Rightarrow> 'm"
    and entries :: "'m \<Rightarrow> ('k \<times> 'v) list"
    and ok :: "'m \<Rightarrow> bool"
  assumes get_empty: "get empty k = None"
    and get_put: "ok m \<Longrightarrow> get (put k v m) k' = (if k' = k then Some v else get m k')"
    and get_del: "ok m \<Longrightarrow> get (del k m) k' = (if k' = k then None else get m k')"
    and ok_empty: "ok empty"
    and ok_put: "ok m \<Longrightarrow> ok (put k v m)"
    and ok_del: "ok m \<Longrightarrow> ok (del k m)"
    and entries_ascending: "ok m \<Longrightarrow> sorted_wrt (<) (map fst (entries m))"
    and entries_get: "ok m \<Longrightarrow> (k, v) \<in> set (entries m) \<longleftrightarrow> get m k = Some v"
begin

lemma put_all_ok: "ok m \<Longrightarrow> ok (fold (\<lambda>(k, v). put k v) kvs m)"
  by (induction kvs arbitrary: m) (auto simp: ok_put)

lemma put_all_get:
  "ok m \<Longrightarrow> get (fold (\<lambda>(k, v). put k v) kvs m) k =
     (case map_of (rev kvs) k of Some v \<Rightarrow> Some v | None \<Rightarrow> get m k)"
proof (induction kvs arbitrary: m)
  case Nil
  then show ?case by simp
next
  case (Cons e kvs)
  obtain a b where e: "e = (a, b)" by (cases e)
  have "get (fold (\<lambda>(k, v). put k v) kvs (put a b m)) k =
      (case map_of (rev kvs) k of Some v \<Rightarrow> Some v | None \<Rightarrow> get (put a b m) k)"
    using Cons.prems by (intro Cons.IH ok_put)
  with Cons.prems show ?case
    by (simp add: e get_put map_add_def split: option.splits)
qed

lemma entries_unique:
  assumes "ok m" "sorted_wrt (<) (map fst kvs)"
    and "\<And>k v. (k, v) \<in> set kvs \<longleftrightarrow> get m k = Some v"
  shows "entries m = kvs"
proof (rule map_sorted_distinct_set_unique [where f = fst])
  show eq: "set (entries m) = set kvs"
    using assms(3) entries_get [OF assms(1)] by auto
  have "distinct (map fst kvs)" using assms(2) by (simp add: strict_sorted_iff)
  then show "inj_on fst (set (entries m) \<union> set kvs)" by (simp add: eq distinct_map)
qed (use assms(2) entries_ascending [OF assms(1)] in \<open>simp_all add: strict_sorted_iff\<close>)

lemma put_put_same: "ok m \<Longrightarrow> entries (put k v (put k v' m)) = entries (put k v m)"
  by (rule entries_unique) (auto simp: ok_put get_put entries_get entries_ascending)

lemma entries_put_new_last:
  assumes "ok m" "\<And>k'. k' \<in> fst ` set (entries m) \<Longrightarrow> k' < k"
  shows "entries (put k v m) = entries m @ [(k, v)]"
proof (rule entries_unique)
  show "ok (put k v m)" using assms(1) by (rule ok_put)
  show "sorted_wrt (<) (map fst (entries m @ [(k, v)]))"
    using assms(2) entries_ascending [OF assms(1)] by (auto simp: sorted_wrt_append)
next
  fix k' v'
  have "(k, v') \<notin> set (entries m)" for v' using assms(2) by force
  then show "(k', v') \<in> set (entries m @ [(k, v)]) \<longleftrightarrow> get (put k v m) k' = Some v'"
    using assms(1) by (auto simp: get_put entries_get)
qed

end

interpretation bm: ordered_map "[]" bm_get bm_put bm_del "\<lambda>m. m" bm_ok
  by unfold_locales (auto simp: bm_get_Some_iff bm_ok_def [symmetric])

lemma bm_get_filter_key: "bm_get (filter (\<lambda>e. P (fst e)) m) k = (if P k then bm_get m k else None)"
  by (induction m) auto

lemma bm_put_all:
  assumes "bm_ok kvs" "bm_ok m"
  shows "bm_ok (fold (\<lambda>(k, v). bm_put k v) kvs m)"
    and "bm_get (fold (\<lambda>(k, v). bm_put k v) kvs m) k =
      (case bm_get kvs k of Some v \<Rightarrow> Some v | None \<Rightarrow> bm_get m k)"
proof -
  show "bm_ok (fold (\<lambda>(k, v). bm_put k v) kvs m)" using assms(2) by (rule bm.put_all_ok)
  have "map_of (rev kvs) k = map_of kvs k"
    using assms(1) by (intro fun_cong [of "map_of (rev kvs)"] map_of_inject_set [THEN iffD2])
      (simp_all add: bm_ok_def strict_sorted_iff rev_map [symmetric])
  then show "bm_get (fold (\<lambda>(k, v). bm_put k v) kvs m) k =
      (case bm_get kvs k of Some v \<Rightarrow> Some v | None \<Rightarrow> bm_get m k)"
    using bm.put_all_get [OF assms(2), of kvs k] by (simp add: bm_get_map_of)
qed

end
