(* ===== verification/Page.thy ===== *)
theory Page
  imports Security OrdMap
begin

text \<open>
  The 4 KiB slotted page of \<open>page.rs\<close> and the buffer recycler of \<open>page_pool.rs\<close>. A
  page is its buffer of \<open>PAGE_SIZE\<close> bytes; header fields, the slot directory and the cell
  heap are read from and written to that buffer exactly where the source does. The checksum
  function is the one of the \<open>crc32fast\<close> crate and is a parameter (\<open>crc\<close>). Accesses
  that would panic in Rust (an index past the buffer, a subtraction below zero) yield
  \<open>Inl Panic\<close>.
\<close>

named_theorems page_consts \<open>layout constants\<close>

section \<open>Layout constants\<close>

definition PAGE_SIZE :: nat where [page_consts]: "PAGE_SIZE = 4096"
definition PAGE_HEADER_SIZE :: nat where [page_consts]: "PAGE_HEADER_SIZE = 32"
definition SLOT_SIZE :: nat where [page_consts]: "SLOT_SIZE = 4"
definition SENTINEL :: nat where [page_consts]: "SENTINEL = 4294967295"
definition MAX_KEY_SIZE :: nat where [page_consts]: "MAX_KEY_SIZE = 1024"
definition MAX_INLINE_VALUE :: nat where [page_consts]: "MAX_INLINE_VALUE = 1024"
definition OVERFLOW_PAYLOAD :: nat where
  [page_consts]: "OVERFLOW_PAYLOAD = PAGE_SIZE - PAGE_HEADER_SIZE - 8"
definition USABLE_SPACE :: nat where
  [page_consts]: "USABLE_SPACE = PAGE_SIZE - PAGE_HEADER_SIZE"

definition OFF_CRC :: nat where [page_consts]: "OFF_CRC = 0"
definition OFF_PAGE_ID :: nat where [page_consts]: "OFF_PAGE_ID = 4"
definition OFF_PARENT :: nat where [page_consts]: "OFF_PARENT = 8"
definition OFF_EXTRA :: nat where [page_consts]: "OFF_EXTRA = 12"
definition OFF_NUM_KEYS :: nat where [page_consts]: "OFF_NUM_KEYS = 16"
definition OFF_CELL_START :: nat where [page_consts]: "OFF_CELL_START = 18"
definition OFF_PAGE_TYPE :: nat where [page_consts]: "OFF_PAGE_TYPE = 20"
definition OFF_IS_LEAF :: nat where [page_consts]: "OFF_IS_LEAF = 21"
definition OFF_FLAGS :: nat where [page_consts]: "OFF_FLAGS = 22"
definition OFF_LSN :: nat where [page_consts]: "OFF_LSN = 24"

section \<open>Page kinds and decoded cells\<close>

datatype page_type = Free | Internal | Leaf | Overflow | Meta

fun page_type_code :: "page_type \<Rightarrow> nat" where
  "page_type_code Free = 0"
| "page_type_code Internal = 1"
| "page_type_code Leaf = 2"
| "page_type_code Overflow = 3"
| "page_type_code Meta = 4"

definition page_type_from_u8 :: "nat \<Rightarrow> page_type res" where
  "page_type_from_u8 v =
     (if v = 0 then Inr Free
      else if v = 1 then Inr Internal
      else if v = 2 then Inr Leaf
      else if v = 3 then Inr Overflow
      else if v = 4 then Inr Meta
      else Inl Corruption)"

record leaf_cell =
  lc_key :: bytes
  lc_value :: bytes
  lc_total_len :: nat
  lc_overflow :: "nat option"

record meta_data =
  md_version :: nat
  md_root :: nat
  md_free_list :: nat
  md_page_count :: nat
  md_tree_ts :: nat
  md_next_txn_id :: nat
  md_last_lsn :: nat

definition META_MAGIC :: nat where
  "META_MAGIC = 0x50484F454E495844"

definition META_VERSION :: nat where
  "META_VERSION = 1"

definition meta_default :: meta_data where
  "meta_default =
     \<lparr>md_version = META_VERSION, md_root = 1, md_free_list = SENTINEL, md_page_count = 2,
      md_tree_ts = 0, md_next_txn_id = 1, md_last_lsn = 0\<rparr>"

type_synonym page = bytes

section \<open>Header accessors\<close>

definition page_id :: "page \<Rightarrow> nat" where "page_id p = read_le p OFF_PAGE_ID 4"
definition set_page_id :: "page \<Rightarrow> nat \<Rightarrow> page" where
  "set_page_id p v = write_le p OFF_PAGE_ID 4 v"
definition parent :: "page \<Rightarrow> nat" where "parent p = read_le p OFF_PARENT 4"
definition set_parent :: "page \<Rightarrow> nat \<Rightarrow> page" where
  "set_parent p v = write_le p OFF_PARENT 4 v"
definition extra :: "page \<Rightarrow> nat" where "extra p = read_le p OFF_EXTRA 4"
definition set_extra :: "page \<Rightarrow> nat \<Rightarrow> page" where
  "set_extra p v = write_le p OFF_EXTRA 4 v"
definition num_keys :: "page \<Rightarrow> nat" where "num_keys p = read_le p OFF_NUM_KEYS 2"
definition set_num_keys :: "page \<Rightarrow> nat \<Rightarrow> page" where
  "set_num_keys p v = write_le p OFF_NUM_KEYS 2 v"
definition cell_start :: "page \<Rightarrow> nat" where "cell_start p = read_le p OFF_CELL_START 2"
definition set_cell_start :: "page \<Rightarrow> nat \<Rightarrow> page" where
  "set_cell_start p v = write_le p OFF_CELL_START 2 v"
definition page_type :: "page \<Rightarrow> page_type res" where
  "page_type p = page_type_from_u8 (read_le p OFF_PAGE_TYPE 1)"
definition set_page_type :: "page \<Rightarrow> page_type \<Rightarrow> page" where
  "set_page_type p t =
     write_le (write_le p OFF_PAGE_TYPE 1 (page_type_code t)) OFF_IS_LEAF 1
       (if t = Leaf then 1 else 0)"
definition is_leaf :: "page \<Rightarrow> bool" where "is_leaf p \<longleftrightarrow> read_le p OFF_IS_LEAF 1 = 1"
definition flags :: "page \<Rightarrow> nat" where "flags p = read_le p OFF_FLAGS 2"
definition set_flags :: "page \<Rightarrow> nat \<Rightarrow> page" where
  "set_flags p v = write_le p OFF_FLAGS 2 v"
definition lsn :: "page \<Rightarrow> nat" where "lsn p = read_le p OFF_LSN 8"
definition set_lsn :: "page \<Rightarrow> nat \<Rightarrow> page" where
  "set_lsn p v = write_le p OFF_LSN 8 v"

section \<open>The buffer pool and new pages\<close>

definition pool_acquire :: "bytes list \<Rightarrow> bytes \<times> bytes list" where
  "pool_acquire pool =
     (if pool = [] then (replicate PAGE_SIZE 0, []) else (last pool, butlast pool))"

definition pool_release :: "bytes list \<Rightarrow> bytes \<Rightarrow> bytes list" where
  "pool_release pool buf = (if length pool < 16384 then pool @ [buf] else pool)"

text \<open>\<open>buf\<close> is the buffer the pool handed out, or a zeroed one.\<close>

definition page_new :: "bytes \<Rightarrow> nat \<Rightarrow> page_type \<Rightarrow> page" where
  "page_new buf pid ty =
     (let p = set_page_id buf pid;
          p = set_parent p SENTINEL;
          p = set_extra p SENTINEL;
          p = set_num_keys p 0;
          p = set_cell_start p PAGE_SIZE;
          p = set_page_type p ty
      in set_lsn p 0)"

section \<open>Integrity\<close>

definition compute_crc :: "(bytes \<Rightarrow> u32) \<Rightarrow> page \<Rightarrow> nat" where
  "compute_crc crc p = unat (crc (drop 4 p))"

definition finalize :: "(bytes \<Rightarrow> u32) \<Rightarrow> page \<Rightarrow> page" where
  "finalize crc p = write_le p OFF_CRC 4 (compute_crc crc p)"

definition stored_crc :: "page \<Rightarrow> nat" where
  "stored_crc p = read_le p OFF_CRC 4"

definition verify :: "(bytes \<Rightarrow> u32) \<Rightarrow> page \<Rightarrow> unit res" where
  "verify crc p = rguard (stored_crc p = compute_crc crc p) Corruption"

definition slot :: "page \<Rightarrow> nat \<Rightarrow> (nat \<times> nat) res" where
  "slot p index =
     (if index \<ge> num_keys p then Inl Corruption
      else
        let base = PAGE_HEADER_SIZE + index * SLOT_SIZE in
        if base + SLOT_SIZE > PAGE_SIZE then Inl Panic
        else
          let off = read_le p base 2; len = read_le p (base + 2) 2 in
          if off < PAGE_HEADER_SIZE \<or> off + len > PAGE_SIZE then Inl Corruption
          else Inr (off, len))"

definition set_slot :: "page \<Rightarrow> nat \<Rightarrow> nat \<Rightarrow> nat \<Rightarrow> page" where
  "set_slot p index off len =
     (let base = PAGE_HEADER_SIZE + index * SLOT_SIZE
      in write_le (write_le p base 2 off) (base + 2) 2 len)"

definition validate_structure :: "page \<Rightarrow> unit res" where
  "validate_structure p =
     rbind (page_type p) (\<lambda>ty.
       if ty = Overflow \<or> ty = Meta \<or> ty = Free then Inr ()
       else
         let n = num_keys p; cs = cell_start p in
         if \<not> (PAGE_HEADER_SIZE \<le> cs \<and> cs \<le> PAGE_SIZE) then Inl Corruption
         else if PAGE_HEADER_SIZE + n * SLOT_SIZE > cs then Inl Corruption
         else
           rbind (rmap (\<lambda>i.
               rbind (slot p i) (\<lambda>(off, len).
                 if off < cs \<or> off + len > PAGE_SIZE then Inl Corruption else Inr ()))
             [0..<n]) (\<lambda>_. Inr ()))"

definition from_bytes :: "(bytes \<Rightarrow> u32) \<Rightarrow> bytes \<Rightarrow> page res" where
  "from_bytes crc bs =
     (if length bs \<noteq> PAGE_SIZE then Inl Corruption
      else rbind (verify crc bs) (\<lambda>_. rbind (validate_structure bs) (\<lambda>_. Inr bs)))"

section \<open>Cells\<close>

definition cell :: "page \<Rightarrow> nat \<Rightarrow> bytes res" where
  "cell p index = rbind (slot p index) (\<lambda>(off, len). Inr (bslice p off len))"

definition free_space :: "page \<Rightarrow> nat" where
  "free_space p = cell_start p - (PAGE_HEADER_SIZE + num_keys p * SLOT_SIZE)"

text \<open>\<open>buf.copy_within(from..to, dest)\<close>.\<close>

definition copy_within :: "bytes \<Rightarrow> nat \<Rightarrow> nat \<Rightarrow> nat \<Rightarrow> bytes" where
  "copy_within b from to dest = bsplice b dest (bslice b from (to - from))"

fun compact_loop :: "page \<Rightarrow> nat \<Rightarrow> nat \<Rightarrow> bytes list \<Rightarrow> (page \<times> nat) res" where
  "compact_loop p i cursor [] = Inr (p, cursor)"
| "compact_loop p i cursor (c # cs) =
     (if cursor < length c then Inl Panic
      else
        let cursor' = cursor - length c;
            p' = set_slot (bsplice p cursor' c) i cursor' (length c)
        in compact_loop p' (Suc i) cursor' cs)"

definition compact :: "page \<Rightarrow> page res" where
  "compact p =
     rbind (rmap (cell p) [0..<num_keys p]) (\<lambda>cs.
       rbind (compact_loop p 0 PAGE_SIZE cs) (\<lambda>(p', cursor).
         Inr (set_cell_start p' cursor)))"

definition insert_cell_at :: "page \<Rightarrow> nat \<Rightarrow> bytes \<Rightarrow> page res" where
  "insert_cell_at p index c =
     (let n = num_keys p in
      if index > n then Inl InvalidArgument
      else
        rbind
          (if length c + SLOT_SIZE > free_space p
           then rbind (compact p) (\<lambda>p'.
                  if length c + SLOT_SIZE > free_space p' then Inl Full else Inr p')
           else Inr p)
          (\<lambda>p.
             if cell_start p > PAGE_SIZE then Inl Panic
             else
               let new_start = cell_start p - length c;
                   p = bsplice p new_start c;
                   p = set_cell_start p new_start;
                   from = PAGE_HEADER_SIZE + index * SLOT_SIZE;
                   to = PAGE_HEADER_SIZE + n * SLOT_SIZE;
                   p = copy_within p from to (from + SLOT_SIZE);
                   p = set_slot p index new_start (length c)
               in Inr (set_num_keys p (n + 1))))"

definition remove_cell_at :: "page \<Rightarrow> nat \<Rightarrow> page res" where
  "remove_cell_at p index =
     (let n = num_keys p in
      if index \<ge> n then Inl InvalidArgument
      else
        let from = PAGE_HEADER_SIZE + (index + 1) * SLOT_SIZE;
            to = PAGE_HEADER_SIZE + n * SLOT_SIZE
        in if to > PAGE_SIZE then Inl Panic
           else
             Inr (set_num_keys
                    (copy_within p from to (PAGE_HEADER_SIZE + index * SLOT_SIZE)) (n - 1)))"

definition replace_cell_at :: "page \<Rightarrow> nat \<Rightarrow> bytes \<Rightarrow> page res" where
  "replace_cell_at p index c =
     rbind (slot p index) (\<lambda>(off, len).
       if length c = len then Inr (bsplice p off c)
       else rbind (remove_cell_at p index) (\<lambda>p'. insert_cell_at p' index c))"

definition clear_cells :: "page \<Rightarrow> page" where
  "clear_cells p = set_cell_start (set_num_keys p 0) PAGE_SIZE"

section \<open>Leaf cells\<close>

definition encode_leaf_cell :: "bytes \<Rightarrow> bytes \<Rightarrow> nat \<Rightarrow> nat option \<Rightarrow> bytes" where
  "encode_leaf_cell key value total_len overflow =
     to_le 2 (length key) @ [if overflow \<noteq> None then 1 else 0] @ [0] @ to_le 4 total_len @ key @
     (case overflow of Some pid \<Rightarrow> to_le 4 pid | None \<Rightarrow> value)"

definition decode_leaf_cell :: "bytes \<Rightarrow> leaf_cell res" where
  "decode_leaf_cell c =
     (if length c < 8 then Inl Corruption
      else
        let key_len = read_le c 0 2;
            has_overflow = (read_le c 2 1 mod 2 = 1);
            total_len = read_le c 4 4
        in
        if 8 + key_len > length c then Inl Corruption
        else
          let key = bslice c 8 key_len; payload = drop (8 + key_len) c in
          if has_overflow then
            if length payload < 4 then Inl Corruption
            else Inr \<lparr>lc_key = key, lc_value = [], lc_total_len = total_len,
                      lc_overflow = Some (read_le payload 0 4)\<rparr>
          else if length payload \<noteq> total_len then Inl Corruption
          else Inr \<lparr>lc_key = key, lc_value = payload, lc_total_len = total_len,
                    lc_overflow = None\<rparr>)"

definition leaf_cell_at :: "page \<Rightarrow> nat \<Rightarrow> leaf_cell res" where
  "leaf_cell_at p index = rbind (cell p index) decode_leaf_cell"

definition decode_cell_key :: "bool \<Rightarrow> bytes \<Rightarrow> bytes res" where
  "decode_cell_key leaf c =
     (let hdr = (if leaf then 8 else 6) in
      if length c < hdr then Inl Corruption
      else
        let key_len = read_le c 0 2 in
        if hdr + key_len > length c then Inl Corruption else Inr (bslice c hdr key_len))"

definition cell_key :: "page \<Rightarrow> nat \<Rightarrow> bytes res" where
  "cell_key p index =
     rbind (slot p index) (\<lambda>(off, len). decode_cell_key (is_leaf p) (bslice p off len))"

section \<open>Internal cells\<close>

definition encode_internal_cell :: "bytes \<Rightarrow> nat \<Rightarrow> bytes" where
  "encode_internal_cell key child = to_le 2 (length key) @ to_le 4 child @ key"

definition internal_child :: "page \<Rightarrow> nat \<Rightarrow> nat res" where
  "internal_child p index =
     rbind (cell p index) (\<lambda>c. if length c < 6 then Inl Corruption else Inr (read_le c 2 4))"

definition set_internal_child :: "page \<Rightarrow> nat \<Rightarrow> nat \<Rightarrow> page res" where
  "set_internal_child p index child =
     rbind (slot p index) (\<lambda>(off, len).
       if len < 6 then Inl Corruption else Inr (write_le p (off + 2) 4 child))"

section \<open>Binary search\<close>

datatype search_result = Found nat | Missing nat

function search_loop :: "page \<Rightarrow> bytes \<Rightarrow> nat \<Rightarrow> nat \<Rightarrow> search_result res" where
  "search_loop p key lo hi =
     (if lo < hi then
        let mid = (lo + hi) div 2 in
        rbind (cell_key p mid) (\<lambda>k.
          if k < key then search_loop p key (mid + 1) hi
          else if key < k then search_loop p key lo mid
          else Inr (Found mid))
      else Inr (Missing lo))"
  by pat_completeness auto
termination
  by (relation "measure (\<lambda>(p, key, lo, hi). hi - lo)") auto

declare search_loop.simps [simp del]

definition search :: "page \<Rightarrow> bytes \<Rightarrow> search_result res" where
  "search p key = search_loop p key 0 (num_keys p)"

section \<open>Overflow and meta pages\<close>

definition write_overflow :: "page \<Rightarrow> bytes \<Rightarrow> nat \<Rightarrow> page res" where
  "write_overflow p payload next =
     (if length payload > OVERFLOW_PAYLOAD then Inl Full
      else
        let p = set_page_type p Overflow;
            p = set_extra p next;
            base = PAGE_HEADER_SIZE;
            p = write_le p base 4 (length payload);
            p = write_le p (base + 4) 4 0
        in Inr (bsplice p (base + 8) payload))"

definition read_overflow :: "page \<Rightarrow> bytes res" where
  "read_overflow p =
     rbind (page_type p) (\<lambda>ty.
       if ty \<noteq> Overflow then Inl Corruption
       else
         let base = PAGE_HEADER_SIZE; len = read_le p base 4 in
         if len > OVERFLOW_PAYLOAD then Inl Corruption
         else Inr (bslice p (base + 8) len))"

definition write_meta :: "page \<Rightarrow> meta_data \<Rightarrow> page" where
  "write_meta p m =
     (let p = set_page_type p Meta;
          b = PAGE_HEADER_SIZE;
          p = write_le p b 8 META_MAGIC;
          p = write_le p (b + 8) 4 (md_version m);
          p = write_le p (b + 12) 4 PAGE_SIZE;
          p = write_le p (b + 16) 4 (md_root m);
          p = write_le p (b + 20) 4 (md_free_list m);
          p = write_le p (b + 24) 4 (md_page_count m);
          p = write_le p (b + 28) 8 (md_tree_ts m);
          p = write_le p (b + 36) 8 (md_next_txn_id m)
      in write_le p (b + 44) 8 (md_last_lsn m))"

definition read_meta :: "page \<Rightarrow> meta_data res" where
  "read_meta p =
     rbind (page_type p) (\<lambda>ty.
       if ty \<noteq> Meta then Inl Corruption
       else
         let b = PAGE_HEADER_SIZE; magic = read_le p b 8 in
         if \<not> ct_eq_u64 (of_nat magic) (of_nat META_MAGIC) then Inl Corruption
         else if read_le p (b + 12) 4 \<noteq> PAGE_SIZE then Inl Corruption
         else
           Inr \<lparr>md_version = read_le p (b + 8) 4,
                md_root = read_le p (b + 16) 4,
                md_free_list = read_le p (b + 20) 4,
                md_page_count = read_le p (b + 24) 4,
                md_tree_ts = read_le p (b + 28) 8,
                md_next_txn_id = read_le p (b + 36) 8,
                md_last_lsn = read_le p (b + 44) 8\<rparr>)"

end
