(* ===== verification/Page_Props.thy ===== *)
theory Page_Props
  imports Page
begin

text \<open>
  Correctness of the slotted page. \<open>cells\<close> is the abstract content of a page (the cell
  byte strings in slot order) and \<open>page_wf\<close> its invariant. Every operation that edits the
  slot directory refines the corresponding list operation on \<open>cells\<close>, keeps the invariant
  and leaves the rest of the header alone; a page that passed \<open>validate_structure\<close> is
  read without panics.
\<close>

section \<open>The abstract view\<close>

definition slot_off :: "page \<Rightarrow> nat \<Rightarrow> nat" where
  "slot_off p i = read_le p (PAGE_HEADER_SIZE + i * SLOT_SIZE) 2"

definition slot_len :: "page \<Rightarrow> nat \<Rightarrow> nat" where
  "slot_len p i = read_le p (PAGE_HEADER_SIZE + i * SLOT_SIZE + 2) 2"

definition cell_bytes :: "page \<Rightarrow> nat \<Rightarrow> bytes" where
  "cell_bytes p i = bslice p (slot_off p i) (slot_len p i)"

definition cells :: "page \<Rightarrow> bytes list" where
  "cells p = map (cell_bytes p) [0..<num_keys p]"

definition live_bytes :: "page \<Rightarrow> nat" where
  "live_bytes p = sum_list (map length (cells p))"

text \<open>Slots and live cells together, which is what a compacted page occupies.\<close>

definition used_bytes :: "page \<Rightarrow> nat" where
  "used_bytes p = num_keys p * SLOT_SIZE + live_bytes p"

definition slots_ok :: "page \<Rightarrow> bool" where
  "slots_ok p \<longleftrightarrow>
     length p = PAGE_SIZE \<and>
     PAGE_HEADER_SIZE + num_keys p * SLOT_SIZE \<le> cell_start p \<and> cell_start p \<le> PAGE_SIZE \<and>
     (\<forall>i < num_keys p. cell_start p \<le> slot_off p i \<and> slot_off p i + slot_len p i \<le> PAGE_SIZE)"

definition page_wf :: "page \<Rightarrow> bool" where
  "page_wf p \<longleftrightarrow> slots_ok p \<and> live_bytes p \<le> PAGE_SIZE - cell_start p"

text \<open>The header fields that cell operations leave alone.\<close>

definition header_rest :: "page \<Rightarrow> nat \<times> nat \<times> nat \<times> nat \<times> nat \<times> nat \<times> nat" where
  "header_rest p = (page_id p, parent p, extra p, read_le p OFF_PAGE_TYPE 1,
     read_le p OFF_IS_LEAF 1, flags p, lsn p)"

lemma header_restD:
  assumes "header_rest p = header_rest q"
  shows "page_id p = page_id q" "parent p = parent q" "extra p = extra q"
    "page_type p = page_type q" "is_leaf p = is_leaf q" "flags p = flags q" "lsn p = lsn q"
  using assms by (auto simp: header_rest_def page_type_def is_leaf_def)

lemma length_cells [simp]: "length (cells p) = num_keys p"
  by (simp add: cells_def)

lemma nth_cells [simp]: "i < num_keys p \<Longrightarrow> cells p ! i = cell_bytes p i"
  by (simp add: cells_def)

lemma length_cell_bytes:
  "slots_ok p \<Longrightarrow> i < num_keys p \<Longrightarrow> length (cell_bytes p i) = slot_len p i"
  by (auto simp: slots_ok_def cell_bytes_def length_bslice)

lemma slot_ok:
  "slots_ok p \<Longrightarrow> i < num_keys p \<Longrightarrow> slot p i = Inr (slot_off p i, slot_len p i)"
  unfolding slots_ok_def slot_def slot_off_def slot_len_def Let_def page_consts
  by (auto dest!: spec [of _ i])

lemma cell_ok: "slots_ok p \<Longrightarrow> i < num_keys p \<Longrightarrow> cell p i = Inr (cell_bytes p i)"
  by (simp add: cell_def slot_ok cell_bytes_def)

lemma rmap_cell: "slots_ok p \<Longrightarrow> rmap (cell p) [0..<num_keys p] = Inr (cells p)"
  unfolding cells_def by (rule rmap_Inr) (simp add: cell_ok)

lemma num_keys_set_num_keys:
  "length p = 4096 \<Longrightarrow> num_keys (set_num_keys p v) = v mod 65536"
  by (simp add: num_keys_def set_num_keys_def read_write_le_same page_consts)

lemma cell_start_set_cell_start:
  "length p = 4096 \<Longrightarrow> cell_start (set_cell_start p v) = v mod 65536"
  by (simp add: cell_start_def set_cell_start_def read_write_le_same page_consts)

section \<open>Edits of the slot directory\<close>

lemma length_copy_within:
  "dest + (to - from) \<le> length b \<Longrightarrow> to \<le> length b \<Longrightarrow> length (copy_within b from to dest) = length b"
  by (simp add: copy_within_def length_bsplice length_bslice)

lemma bslice_copy_within_other:
  "o1 + n \<le> dest \<or> dest + (to - from) \<le> o1 \<Longrightarrow> dest + (to - from) \<le> length b \<Longrightarrow> to \<le> length b \<Longrightarrow>
   bslice (copy_within b from to dest) o1 n = bslice b o1 n"
  unfolding copy_within_def
  by (rule bslice_bsplice_disjoint) (auto simp: length_bslice)

lemma bslice_copy_within_moved:
  assumes "dest \<le> o1" "o1 + n \<le> dest + (to - from)" "dest + (to - from) \<le> length b" "to \<le> length b"
  shows "bslice (copy_within b from to dest) o1 n = bslice b (from + (o1 - dest)) n"
proof -
  have len: "length (bslice b from (to - from)) = to - from"
    using assms by (auto simp: length_bslice)
  show ?thesis
    unfolding copy_within_def using assms
    by (subst bslice_bsplice_inside) (auto simp: len bslice_bslice)
qed

lemma read_le_copy_within_other [buf_simps]:
  "o1 + n \<le> dest \<or> dest + (to - from) \<le> o1 \<Longrightarrow> dest + (to - from) \<le> length b \<Longrightarrow> to \<le> length b \<Longrightarrow>
   read_le (copy_within b from to dest) o1 n = read_le b o1 n"
  by (simp add: read_le_def bslice_copy_within_other)

lemma read_le_copy_within_moved:
  "dest \<le> o1 \<Longrightarrow> o1 + n \<le> dest + (to - from) \<Longrightarrow> dest + (to - from) \<le> length b \<Longrightarrow> to \<le> length b \<Longrightarrow>
   read_le (copy_within b from to dest) o1 n = read_le b (from + (o1 - dest)) n"
  by (simp add: read_le_def bslice_copy_within_moved)

lemma length_set_slot:
  "PAGE_HEADER_SIZE + i * SLOT_SIZE + SLOT_SIZE \<le> length p \<Longrightarrow> length (set_slot p i off len) = length p"
  by (simp add: set_slot_def Let_def length_write_le page_consts)

lemma read_le_set_slot_other:
  assumes "PAGE_HEADER_SIZE + i * SLOT_SIZE + SLOT_SIZE \<le> length p"
    "o1 + n \<le> PAGE_HEADER_SIZE + i * SLOT_SIZE \<or> PAGE_HEADER_SIZE + i * SLOT_SIZE + SLOT_SIZE \<le> o1"
  shows "read_le (set_slot p i off len) o1 n = read_le p o1 n"
  using assms unfolding set_slot_def Let_def page_consts
  by (subst read_write_le_other; (simp add: length_write_le)?; (subst read_write_le_other)?; linarith?; simp)

lemma bslice_set_slot_other:
  assumes "PAGE_HEADER_SIZE + i * SLOT_SIZE + SLOT_SIZE \<le> length p"
    "o1 + n \<le> PAGE_HEADER_SIZE + i * SLOT_SIZE \<or> PAGE_HEADER_SIZE + i * SLOT_SIZE + SLOT_SIZE \<le> o1"
  shows "bslice (set_slot p i off len) o1 n = bslice p o1 n"
  using assms unfolding set_slot_def Let_def page_consts
  by (subst bslice_write_le_other; (simp add: length_write_le)?; (subst bslice_write_le_other)?; linarith?; simp)

lemma slot_off_set_slot:
  assumes "PAGE_HEADER_SIZE + i * SLOT_SIZE + SLOT_SIZE \<le> length p"
  shows "slot_off (set_slot p i off len) j = (if j = i then off mod 65536 else slot_off p j)"
proof (cases "j = i")
  case True
  then show ?thesis
    using assms unfolding slot_off_def set_slot_def Let_def page_consts
    by (simp add: read_write_le_other read_write_le_same length_write_le)
next
  case False
  then have "j * 4 + 4 \<le> i * 4 \<or> i * 4 + 4 \<le> j * 4" by linarith
  with False assms show ?thesis
    unfolding slot_off_def by (subst read_le_set_slot_other) (auto simp: page_consts)
qed

lemma slot_len_set_slot:
  assumes "PAGE_HEADER_SIZE + i * SLOT_SIZE + SLOT_SIZE \<le> length p"
  shows "slot_len (set_slot p i off len) j = (if j = i then len mod 65536 else slot_len p j)"
proof (cases "j = i")
  case True
  then show ?thesis
    using assms unfolding slot_len_def set_slot_def Let_def page_consts
    by (simp add: read_write_le_same length_write_le)
next
  case False
  then have "j * 4 + 4 \<le> i * 4 \<or> i * 4 + 4 \<le> j * 4" by linarith
  with False assms show ?thesis
    unfolding slot_len_def by (subst read_le_set_slot_other) (auto simp: page_consts)
qed


section \<open>Inserting into the slot directory\<close>

text \<open>The five writes of \<open>insert_cell_at\<close>, one buffer per write.\<close>

definition ins_start :: "page \<Rightarrow> bytes \<Rightarrow> nat" where
  "ins_start p c = cell_start p - length c"

definition ins1 :: "page \<Rightarrow> bytes \<Rightarrow> page" where
  "ins1 p c = bsplice p (ins_start p c) c"

definition ins2 :: "page \<Rightarrow> bytes \<Rightarrow> page" where
  "ins2 p c = set_cell_start (ins1 p c) (ins_start p c)"

definition ins3 :: "page \<Rightarrow> nat \<Rightarrow> bytes \<Rightarrow> page" where
  "ins3 p i c =
     copy_within (ins2 p c) (PAGE_HEADER_SIZE + i * SLOT_SIZE)
       (PAGE_HEADER_SIZE + num_keys p * SLOT_SIZE) (PAGE_HEADER_SIZE + i * SLOT_SIZE + SLOT_SIZE)"

definition ins4 :: "page \<Rightarrow> nat \<Rightarrow> bytes \<Rightarrow> page" where
  "ins4 p i c = set_slot (ins3 p i c) i (ins_start p c) (length c)"

definition insert_raw :: "page \<Rightarrow> nat \<Rightarrow> bytes \<Rightarrow> page" where
  "insert_raw p i c = set_num_keys (ins4 p i c) (num_keys p + 1)"

definition insert_room :: "page \<Rightarrow> nat \<Rightarrow> bytes \<Rightarrow> bool" where
  "insert_room p i c \<longleftrightarrow>
     slots_ok p \<and> i \<le> num_keys p \<and> length c + SLOT_SIZE \<le> free_space p"

lemma ins_bounds:
  assumes "insert_room p i c"
  shows "length p = 4096" "cell_start p \<le> 4096" "36 + num_keys p * 4 \<le> ins_start p c"
    "length c \<le> cell_start p" "i * 4 \<le> num_keys p * 4" "ins_start p c + length c = cell_start p"
  using assms by (auto simp: insert_room_def slots_ok_def free_space_def ins_start_def page_consts)

lemma ins_lens:
  assumes "insert_room p i c"
  shows "length (ins1 p c) = 4096" "length (ins2 p c) = 4096" "length (ins3 p i c) = 4096"
    "length (ins4 p i c) = 4096"
proof -
  note b = ins_bounds [OF assms]
  show 1: "length (ins1 p c) = 4096" using b by (simp add: ins1_def length_bsplice)
  then show 2: "length (ins2 p c) = 4096"
    by (simp add: ins2_def set_cell_start_def length_write_le page_consts)
  then show 3: "length (ins3 p i c) = 4096"
    unfolding ins3_def using b by (subst length_copy_within) (auto simp: page_consts)
  then show "length (ins4 p i c) = 4096"
    unfolding ins4_def using b by (subst length_set_slot) (auto simp: page_consts)
qed

lemma length_insert_raw: "insert_room p i c \<Longrightarrow> length (insert_raw p i c) = 4096"
  using ins_lens by (simp add: insert_raw_def set_num_keys_def length_write_le page_consts)

text \<open>Reads outside the new slot, the moved slots and the two counters see the heap write only.\<close>

lemma bslice_insert_raw:
  assumes room: "insert_room p i c"
    and "o1 + n \<le> 16 \<or> 20 \<le> o1 \<and> o1 + n \<le> 32 + i * 4 \<or> 36 + num_keys p * 4 \<le> o1"
  shows "bslice (insert_raw p i c) o1 n = bslice (ins1 p c) o1 n"
proof -
  note facts = assms(2) ins_lens [OF room] ins_bounds [OF room]
  have "bslice (insert_raw p i c) o1 n = bslice (ins4 p i c) o1 n"
    unfolding insert_raw_def set_num_keys_def
    by (rule bslice_write_le_other) (use facts in \<open>auto simp: page_consts\<close>)
  also have "\<dots> = bslice (ins3 p i c) o1 n"
    unfolding ins4_def
    by (rule bslice_set_slot_other) (use facts in \<open>auto simp: page_consts\<close>)
  also have "\<dots> = bslice (ins2 p c) o1 n"
    unfolding ins3_def
    by (rule bslice_copy_within_other) (use facts in \<open>auto simp: page_consts\<close>)
  also have "\<dots> = bslice (ins1 p c) o1 n"
    unfolding ins2_def set_cell_start_def
    by (rule bslice_write_le_other) (use facts in \<open>auto simp: page_consts\<close>)
  finally show ?thesis .
qed

lemma bslice_insert_raw_low:
  assumes room: "insert_room p i c" and "o1 + n \<le> 16 \<or> 20 \<le> o1 \<and> o1 + n \<le> 32 + i * 4"
  shows "bslice (insert_raw p i c) o1 n = bslice p o1 n"
proof -
  have "bslice (insert_raw p i c) o1 n = bslice (ins1 p c) o1 n"
    by (rule bslice_insert_raw [OF room]) (use assms in auto)
  also have "\<dots> = bslice p o1 n"
    unfolding ins1_def
    by (rule bslice_bsplice_before) (use assms ins_bounds [OF room] in auto)
  finally show ?thesis .
qed

lemma bslice_insert_raw_heap:
  assumes room: "insert_room p i c" and "cell_start p \<le> o1"
  shows "bslice (insert_raw p i c) o1 n = bslice p o1 n"
proof -
  have "bslice (insert_raw p i c) o1 n = bslice (ins1 p c) o1 n"
    by (rule bslice_insert_raw [OF room]) (use assms ins_bounds [OF room] in auto)
  also have "\<dots> = bslice p o1 n"
    unfolding ins1_def
    by (rule bslice_bsplice_after) (use assms ins_bounds [OF room] in auto)
  finally show ?thesis .
qed

lemma bslice_insert_raw_new:
  assumes room: "insert_room p i c"
  shows "bslice (insert_raw p i c) (ins_start p c) (length c) = c"
proof -
  have "bslice (insert_raw p i c) (ins_start p c) (length c) = bslice (ins1 p c) (ins_start p c) (length c)"
    by (rule bslice_insert_raw [OF room]) (use ins_bounds [OF room] in auto)
  then show ?thesis using ins_bounds [OF room] by (simp add: ins1_def bslice_bsplice_same)
qed

lemma num_keys_insert_raw:
  assumes room: "insert_room p i c"
  shows "num_keys (insert_raw p i c) = num_keys p + 1"
proof -
  have "num_keys p < 1024" using ins_bounds [OF room] by linarith
  then show ?thesis
    using ins_lens [OF room] by (simp add: insert_raw_def num_keys_set_num_keys)
qed

lemma cell_start_insert_raw:
  assumes room: "insert_room p i c"
  shows "cell_start (insert_raw p i c) = ins_start p c"
proof -
  note facts = ins_lens [OF room] ins_bounds [OF room]
  have "cell_start (insert_raw p i c) = cell_start (ins4 p i c)"
    unfolding insert_raw_def set_num_keys_def cell_start_def
    by (rule read_write_le_other) (use facts in \<open>auto simp: page_consts\<close>)
  also have "\<dots> = cell_start (ins3 p i c)"
    unfolding cell_start_def ins4_def
    by (rule read_le_set_slot_other) (use facts in \<open>auto simp: page_consts\<close>)
  also have "\<dots> = cell_start (ins2 p c)"
    unfolding cell_start_def ins3_def
    by (rule read_le_copy_within_other) (use facts in \<open>auto simp: page_consts\<close>)
  also have "\<dots> = ins_start p c"
    unfolding cell_start_def ins2_def set_cell_start_def
    by (subst read_write_le_same) (use facts in \<open>auto simp: page_consts\<close>)
  finally show ?thesis .
qed

lemma header_insert_raw: "insert_room p i c \<Longrightarrow> header_rest (insert_raw p i c) = header_rest p"
  unfolding header_rest_def page_id_def parent_def extra_def flags_def lsn_def read_le_def page_consts
  by (simp add: bslice_insert_raw_low)

lemma slot_insert_raw_moved:
  assumes room: "insert_room p i c" and "i < j" "j \<le> num_keys p" "k \<le> 2"
  shows "read_le (insert_raw p i c) (32 + j * 4 + k) 2 = read_le p (32 + (j - 1) * 4 + k) 2"
proof -
  have j: "i * 4 + 4 \<le> j * 4" "j * 4 \<le> num_keys p * 4" "(j - 1) * 4 + 4 = j * 4" using assms by auto
  note facts = ins_lens [OF room] ins_bounds [OF room] j \<open>k \<le> 2\<close>
  have "read_le (insert_raw p i c) (32 + j * 4 + k) 2 = read_le (ins4 p i c) (32 + j * 4 + k) 2"
    unfolding insert_raw_def set_num_keys_def
    by (rule read_write_le_other) (use facts in \<open>auto simp: page_consts\<close>)
  also have "\<dots> = read_le (ins3 p i c) (32 + j * 4 + k) 2"
    unfolding ins4_def
    by (rule read_le_set_slot_other) (use facts in \<open>auto simp: page_consts\<close>)
  also have "\<dots> = read_le (ins2 p c) (32 + i * 4 + (32 + j * 4 + k - (32 + i * 4 + 4))) 2"
    unfolding ins3_def page_consts
    by (rule read_le_copy_within_moved) (use facts in \<open>auto simp: page_consts\<close>)
  also have "32 + i * 4 + (32 + j * 4 + k - (32 + i * 4 + 4)) = 32 + (j - 1) * 4 + k"
    using j by linarith
  also have "read_le (ins2 p c) (32 + (j - 1) * 4 + k) 2 = read_le (ins1 p c) (32 + (j - 1) * 4 + k) 2"
    unfolding ins2_def set_cell_start_def
    by (rule read_write_le_other) (use facts in \<open>auto simp: page_consts\<close>)
  also have "\<dots> = read_le p (32 + (j - 1) * 4 + k) 2"
    unfolding ins1_def by (rule read_le_bsplice_other) (use facts in auto)
  finally show ?thesis .
qed

lemma slot_insert_raw_low:
  assumes "insert_room p i c" "j < i"
  shows "slot_off (insert_raw p i c) j = slot_off p j" "slot_len (insert_raw p i c) j = slot_len p j"
proof -
  have "j * 4 + 4 \<le> i * 4" using assms(2) by simp
  then show "slot_off (insert_raw p i c) j = slot_off p j" "slot_len (insert_raw p i c) j = slot_len p j"
    using assms(1)
    by (auto simp: slot_off_def slot_len_def read_le_def bslice_insert_raw_low page_consts)
qed

lemma slot_insert_raw_at:
  assumes room: "insert_room p i c"
  shows "slot_off (insert_raw p i c) i = ins_start p c" "slot_len (insert_raw p i c) i = length c"
proof -
  note facts = ins_lens [OF room] ins_bounds [OF room]
  have fit: "PAGE_HEADER_SIZE + i * SLOT_SIZE + SLOT_SIZE \<le> length (ins3 p i c)"
    using facts by (simp add: page_consts)
  have "slot_off (insert_raw p i c) i = slot_off (ins4 p i c) i"
    "slot_len (insert_raw p i c) i = slot_len (ins4 p i c) i"
    unfolding insert_raw_def set_num_keys_def slot_off_def slot_len_def
    by (rule read_write_le_other; use facts in \<open>auto simp: page_consts\<close>)+
  with facts show "slot_off (insert_raw p i c) i = ins_start p c" "slot_len (insert_raw p i c) i = length c"
    by (simp_all add: ins4_def slot_off_set_slot [OF fit] slot_len_set_slot [OF fit])
qed

lemma slot_insert_raw_high:
  assumes "insert_room p i c" "i < j" "j \<le> num_keys p"
  shows "slot_off (insert_raw p i c) j = slot_off p (j - 1)"
    "slot_len (insert_raw p i c) j = slot_len p (j - 1)"
  using slot_insert_raw_moved [OF assms, of 0] slot_insert_raw_moved [OF assms, of 2]
  by (simp_all add: slot_off_def slot_len_def page_consts)

section \<open>Refinement of the cell operations\<close>

lemma sum_list_take_drop: "sum_list (take i xs) + sum_list (drop i xs) = sum_list (xs::nat list)"
  by (metis append_take_drop_id sum_list_append)

lemma insert_raw_wf:
  assumes "page_wf p" and room: "insert_room p i c"
  shows "cells (insert_raw p i c) = take i (cells p) @ c # drop i (cells p)"
    and "page_wf (insert_raw p i c)"
proof -
  let ?q = "insert_raw p i c"
  have ok: "slots_ok p" and live: "live_bytes p \<le> PAGE_SIZE - cell_start p"
    using assms(1) by (auto simp: page_wf_def)
  have il: "i \<le> num_keys p" using room by (simp add: insert_room_def)
  have heap: "cell_start p \<le> slot_off p j" "slot_off p j + slot_len p j \<le> PAGE_SIZE"
    if "j < num_keys p" for j
    using ok that by (auto simp: slots_ok_def)
  have lo: "cell_bytes ?q j = cell_bytes p j" if "j < i" for j
    using that il heap [of j] slot_insert_raw_low [OF room that]
    by (simp add: cell_bytes_def bslice_insert_raw_heap [OF room])
  have at: "cell_bytes ?q i = c"
    using slot_insert_raw_at [OF room] bslice_insert_raw_new [OF room] by (simp add: cell_bytes_def)
  have hi: "cell_bytes ?q j = cell_bytes p (j - 1)" if "i < j" "j \<le> num_keys p" for j
    using that heap [of "j - 1"] slot_insert_raw_high [OF room that]
    by (simp add: cell_bytes_def bslice_insert_raw_heap [OF room])
  show eq: "cells ?q = take i (cells p) @ c # drop i (cells p)"
  proof (rule nth_equalityI)
    show "length (cells ?q) = length (take i (cells p) @ c # drop i (cells p))"
      using il by (simp add: num_keys_insert_raw [OF room])
  next
    fix j assume "j < length (cells ?q)"
    then have j: "j \<le> num_keys p" by (simp add: num_keys_insert_raw [OF room])
    then show "cells ?q ! j = (take i (cells p) @ c # drop i (cells p)) ! j"
      using il by (cases "j < i"; cases "j = i")
        (auto simp: num_keys_insert_raw [OF room] nth_append lo at hi nth_Cons')
  qed
  note b = ins_bounds [OF room] cell_start_insert_raw [OF room]
  have "cell_start ?q \<le> slot_off ?q j \<and> slot_off ?q j + slot_len ?q j \<le> PAGE_SIZE"
    if "j < num_keys ?q" for j
  proof -
    from that have j: "j \<le> num_keys p" by (simp add: num_keys_insert_raw [OF room])
    consider "j < i" | "j = i" | "i < j" "j - 1 < num_keys p" using j by linarith
    then show ?thesis
    proof cases
      case 1
      with b il heap [of j] slot_insert_raw_low [OF room 1] show ?thesis by simp
    next
      case 2
      with b slot_insert_raw_at [OF room] show ?thesis by (simp add: page_consts)
    next
      case 3
      with b heap [of "j - 1"] slot_insert_raw_high [OF room 3(1) j] show ?thesis by simp
    qed
  qed
  then have "slots_ok ?q"
    using b by (simp add: slots_ok_def length_insert_raw [OF room] num_keys_insert_raw [OF room] page_consts)
  moreover have "live_bytes ?q = live_bytes p + length c"
    unfolding live_bytes_def eq
    using sum_list_take_drop [of i "map length (cells p)"] by (simp add: take_map drop_map)
  ultimately show "page_wf ?q"
    using live ins_bounds [OF room]
    by (simp add: page_wf_def cell_start_insert_raw [OF room] page_consts)
qed

text \<open>
  \<open>compacted p p' i cursor cs\<close>: the cells \<open>cs\<close> were laid out below \<open>cursor\<close> and
  entered in slots \<open>i\<close> onwards; everything below slot \<open>i\<close> and from \<open>cursor\<close> on is as
  in \<open>p\<close>.
\<close>

definition compacted :: "page \<Rightarrow> page \<Rightarrow> nat \<Rightarrow> nat \<Rightarrow> bytes list \<Rightarrow> bool" where
  "compacted p p' i cursor cs \<longleftrightarrow>
     length p' = 4096 \<and>
     (\<forall>o1 n. o1 + n \<le> 32 + i * 4 \<or> cursor \<le> o1 \<longrightarrow> bslice p' o1 n = bslice p o1 n) \<and>
     (\<forall>k < length cs. slot_len p' (i + k) = length (cs ! k) \<and>
        cursor - sum_list (map length cs) \<le> slot_off p' (i + k) \<and>
        slot_off p' (i + k) + length (cs ! k) \<le> cursor \<and> cell_bytes p' (i + k) = cs ! k)"

lemma compact_loop_ok:
  assumes "length p = 4096" "cursor \<le> 4096"
    and "32 + (i + length cs) * 4 + sum_list (map length cs) \<le> cursor"
  shows "\<exists>p'. compact_loop p i cursor cs = Inr (p', cursor - sum_list (map length cs)) \<and>
     compacted p p' i cursor cs"
  using assms
proof (induction cs arbitrary: p i cursor)
  case Nil
  then show ?case by (simp add: compacted_def)
next
  case (Cons c cs)
  let ?cur = "cursor - length c"
  let ?q1 = "bsplice p ?cur c"
  let ?q = "set_slot ?q1 i ?cur (length c)"
  have fits: "length c \<le> cursor" using Cons.prems by simp
  have l1: "length ?q1 = 4096" using Cons.prems fits by (simp add: length_bsplice)
  have fit: "PAGE_HEADER_SIZE + i * SLOT_SIZE + SLOT_SIZE \<le> length ?q1"
    using l1 Cons.prems by (simp add: page_consts)
  have lq: "length ?q = 4096" using l1 length_set_slot [OF fit] by simp
  have "\<exists>p'. compact_loop ?q (Suc i) ?cur cs = Inr (p', ?cur - sum_list (map length cs)) \<and>
      compacted ?q p' (Suc i) ?cur cs"
    by (rule Cons.IH) (use lq Cons.prems in auto)
  then obtain p' where p': "compact_loop ?q (Suc i) ?cur cs = Inr (p', ?cur - sum_list (map length cs))"
    and comp: "compacted ?q p' (Suc i) ?cur cs" by blast
  then have frame: "\<And>o1 n. o1 + n \<le> 32 + Suc i * 4 \<or> ?cur \<le> o1 \<Longrightarrow> bslice p' o1 n = bslice ?q o1 n"
    and rest: "\<And>k. k < length cs \<Longrightarrow> slot_len p' (Suc i + k) = length (cs ! k) \<and>
        ?cur - sum_list (map length cs) \<le> slot_off p' (Suc i + k) \<and>
        slot_off p' (Suc i + k) + length (cs ! k) \<le> ?cur \<and> cell_bytes p' (Suc i + k) = cs ! k"
    and len': "length p' = 4096"
    unfolding compacted_def by blast+
  have run: "compact_loop p i cursor (c # cs) = Inr (p', cursor - sum_list (map length (c # cs)))"
    using p' fits by (simp add: Let_def)
  have heap: "bslice p' o1 n = bslice p o1 n" if "o1 + n \<le> 32 + i * 4 \<or> cursor \<le> o1" for o1 n
  proof -
    have "bslice p' o1 n = bslice ?q o1 n" by (rule frame) (use that Cons.prems in auto)
    also have "\<dots> = bslice ?q1 o1 n"
      by (rule bslice_set_slot_other [OF fit]) (use that Cons.prems in \<open>auto simp: page_consts\<close>)
    also have "\<dots> = bslice p o1 n"
      by (rule bslice_bsplice_disjoint) (use that Cons.prems fits in auto)
    finally show ?thesis .
  qed
  have s0: "slot_off p' i = ?cur" "slot_len p' i = length c"
    using frame [of "32 + i * 4" 2] frame [of "34 + i * 4" 2] Cons.prems
      slot_off_set_slot [OF fit, of ?cur "length c" i] slot_len_set_slot [OF fit, of ?cur "length c" i]
    by (simp_all add: slot_off_def slot_len_def read_le_def page_consts)
  have "bslice p' ?cur (length c) = bslice ?q ?cur (length c)" by (rule frame) simp
  also have "\<dots> = bslice ?q1 ?cur (length c)"
    by (rule bslice_set_slot_other [OF fit]) (use Cons.prems in \<open>auto simp: page_consts\<close>)
  also have "\<dots> = c" using Cons.prems fits by (simp add: bslice_bsplice_same)
  finally have c0: "cell_bytes p' i = c" by (simp add: cell_bytes_def s0)
  have "slot_len p' (i + k) = length ((c # cs) ! k) \<and>
        cursor - sum_list (map length (c # cs)) \<le> slot_off p' (i + k) \<and>
        slot_off p' (i + k) + length ((c # cs) ! k) \<le> cursor \<and> cell_bytes p' (i + k) = (c # cs) ! k"
    if "k < length (c # cs)" for k
    using that s0 c0 fits rest [of "k - 1"] by (cases k) auto
  with len' heap have "compacted p p' i cursor (c # cs)" unfolding compacted_def by blast
  with run show ?case by blast
qed

lemma compact_wf:
  assumes "page_wf p"
  shows "\<exists>q. compact p = Inr q \<and> page_wf q \<and> cells q = cells p \<and> num_keys q = num_keys p \<and>
     header_rest q = header_rest p \<and> cell_start q = PAGE_SIZE - live_bytes p"
proof -
  have ok: "slots_ok p" and live: "live_bytes p \<le> PAGE_SIZE - cell_start p"
    using assms by (auto simp: page_wf_def)
  then have len: "length p = 4096" and dir: "32 + num_keys p * 4 + live_bytes p \<le> 4096"
    by (auto simp: slots_ok_def page_consts)
  obtain p' where run: "compact_loop p 0 4096 (cells p) = Inr (p', 4096 - live_bytes p)"
    and len': "length p' = 4096"
    and frame: "\<And>o1 n. o1 + n \<le> 32 \<Longrightarrow> bslice p' o1 n = bslice p o1 n"
    and sl: "\<And>k. k < num_keys p \<Longrightarrow> slot_len p' k = length (cell_bytes p k) \<and>
       4096 - live_bytes p \<le> slot_off p' k \<and> slot_off p' k + length (cell_bytes p k) \<le> 4096 \<and>
       cell_bytes p' k = cell_bytes p k"
    using compact_loop_ok [of p 4096 0 "cells p"] len dir
    by (auto simp: compacted_def live_bytes_def [symmetric])
  define q where "q = set_cell_start p' (4096 - live_bytes p)"
  have run': "compact p = Inr q"
    using run by (simp add: compact_def rmap_cell [OF ok] q_def page_consts)
  have lq: "length q = 4096" by (simp add: q_def set_cell_start_def length_write_le len' page_consts)
  have hi: "bslice q o1 n = bslice p' o1 n" if "o1 + n \<le> 18 \<or> 20 \<le> o1" for o1 n
    unfolding q_def set_cell_start_def
    by (rule bslice_write_le_other) (use that len' in \<open>auto simp: page_consts\<close>)
  have nk: "num_keys q = num_keys p"
    by (simp add: num_keys_def read_le_def hi frame page_consts)
  have cs: "cell_start q = 4096 - live_bytes p"
    by (simp add: q_def cell_start_set_cell_start len')
  have so: "slot_off q k = slot_off p' k" "slot_len q k = slot_len p' k" for k
    by (simp_all add: slot_off_def slot_len_def read_le_def hi page_consts)
  have cb: "cell_bytes q k = cell_bytes p k" if "k < num_keys p" for k
  proof -
    have "20 \<le> slot_off p' k" using sl [OF that] dir by linarith
    then have "cell_bytes q k = cell_bytes p' k" by (simp add: cell_bytes_def so hi)
    with sl [OF that] show ?thesis by simp
  qed
  have ceq: "cells q = cells p" by (simp add: cells_def nk cb)
  have "slots_ok q"
    using sl so dir lq by (auto simp: slots_ok_def nk cs page_consts)
  then have "page_wf q" using dir by (simp add: page_wf_def live_bytes_def ceq cs page_consts)
  moreover have "header_rest q = header_rest p"
    by (simp add: header_rest_def page_id_def parent_def extra_def flags_def lsn_def read_le_def
        hi frame page_consts)
  ultimately show ?thesis using run' nk ceq cs by (auto simp: page_consts)
qed

lemma free_space_le: "page_wf p \<Longrightarrow> used_bytes p + free_space p \<le> USABLE_SPACE"
  by (auto simp: page_wf_def slots_ok_def free_space_def used_bytes_def page_consts)

lemma insert_cell_at_room:
  assumes "insert_room p i c"
  shows "insert_cell_at p i c = Inr (insert_raw p i c)"
  using assms unfolding insert_room_def slots_ok_def
  by (simp add: insert_cell_at_def Let_def insert_raw_def ins4_def ins3_def ins2_def ins1_def
      ins_start_def)

lemma used_bytes_cells: "used_bytes p = sum_list (map (\<lambda>c. length c + SLOT_SIZE) (cells p))"
  by (simp add: used_bytes_def live_bytes_def sum_list_addf sum_list_triv flip: length_cells)

lemma insert_cell_at_spec:
  assumes wf: "page_wf p" and i: "i \<le> num_keys p"
  shows "if used_bytes p + length c + SLOT_SIZE \<le> USABLE_SPACE
     then \<exists>q. insert_cell_at p i c = Inr q \<and> page_wf q \<and>
       cells q = take i (cells p) @ c # drop i (cells p) \<and> header_rest q = header_rest p
     else insert_cell_at p i c = Inl Full"
proof (cases "length c + SLOT_SIZE \<le> free_space p")
  case True
  with wf i have room: "insert_room p i c" by (simp add: insert_room_def page_wf_def)
  have "used_bytes p + length c + SLOT_SIZE \<le> USABLE_SPACE"
    using free_space_le [OF wf] True by simp
  then show ?thesis
    using insert_raw_wf [OF wf room] header_insert_raw [OF room] insert_cell_at_room [OF room] by auto
next
  case False
  obtain q where q: "compact p = Inr q" "page_wf q" "cells q = cells p" "num_keys q = num_keys p"
    "header_rest q = header_rest p" "cell_start q = PAGE_SIZE - live_bytes p"
    using compact_wf [OF wf] by blast
  have fs: "free_space q = USABLE_SPACE - used_bytes p"
    using q by (simp add: free_space_def used_bytes_def page_consts)
  have via: "insert_cell_at p i c =
      (if length c + SLOT_SIZE > free_space q then Inl Full else insert_cell_at q i c)"
    using False i q by (simp add: insert_cell_at_def Let_def)
  show ?thesis
  proof (cases "length c + SLOT_SIZE \<le> free_space q")
    case True
    with q i have room: "insert_room q i c" by (simp add: insert_room_def page_wf_def)
    have "used_bytes p + length c + SLOT_SIZE \<le> USABLE_SPACE"
      using True free_space_le [OF q(2)] by (simp add: fs page_consts used_bytes_cells q)
    then show ?thesis
      using via True insert_raw_wf [OF q(2) room] header_insert_raw [OF room]
        insert_cell_at_room [OF room] q by auto
  next
    case 2: False
    then have "\<not> used_bytes p + length c + SLOT_SIZE \<le> USABLE_SPACE" by (simp add: fs page_consts)
    with via 2 show ?thesis by simp
  qed
qed

lemma insert_cell_at_ok:
  assumes "page_wf p" "i \<le> num_keys p" "used_bytes p + length c + SLOT_SIZE \<le> USABLE_SPACE"
  obtains q where "insert_cell_at p i c = Inr q" "page_wf q"
    "cells q = take i (cells p) @ c # drop i (cells p)" "header_rest q = header_rest p"
  using insert_cell_at_spec [OF assms(1,2), of c] assms(3) by auto

section \<open>Removing, replacing and clearing cells\<close>

lemma remove_cell_at_spec:
  assumes wf: "page_wf p" and i: "i < num_keys p"
  shows "\<exists>q. remove_cell_at p i = Inr q \<and> page_wf q \<and>
     cells q = take i (cells p) @ drop (Suc i) (cells p) \<and> header_rest q = header_rest p"
proof -
  let ?n = "num_keys p"
  define m where "m = copy_within p (36 + i * 4) (32 + ?n * 4) (32 + i * 4)"
  define q where "q = set_num_keys m (?n - 1)"
  have ok: "slots_ok p" and live: "live_bytes p \<le> PAGE_SIZE - cell_start p"
    using wf by (auto simp: page_wf_def)
  then have len: "length p = 4096" and dir: "32 + ?n * 4 \<le> cell_start p" "cell_start p \<le> 4096"
    by (auto simp: slots_ok_def page_consts)
  have i4: "i * 4 + 4 \<le> ?n * 4" using i by simp
  have run: "remove_cell_at p i = Inr q"
    using i dir by (simp add: remove_cell_at_def Let_def q_def m_def page_consts)
  have lm: "length m = 4096" unfolding m_def using len dir i4 by (subst length_copy_within) auto
  have lq: "length q = 4096" by (simp add: q_def set_num_keys_def length_write_le lm page_consts)
  have nk: "num_keys q = ?n - 1"
    unfolding q_def using dir by (subst num_keys_set_num_keys [OF lm]) simp
  have fm: "bslice q o1 n = bslice m o1 n" if "o1 + n \<le> 16 \<or> 18 \<le> o1" for o1 n
    unfolding q_def set_num_keys_def
    by (rule bslice_write_le_other) (use that lm in \<open>auto simp: page_consts\<close>)
  have fp: "bslice m o1 n = bslice p o1 n" if "o1 + n \<le> 32 + i * 4 \<or> 32 + ?n * 4 \<le> o1 + 4" for o1 n
    unfolding m_def by (rule bslice_copy_within_other) (use that len dir i4 in auto)
  have lo: "slot_off q j = slot_off p j" "slot_len q j = slot_len p j" if "j < i" for j
  proof -
    have "j * 4 + 4 \<le> i * 4" using that by simp
    then show "slot_off q j = slot_off p j" "slot_len q j = slot_len p j"
      by (simp_all add: slot_off_def slot_len_def read_le_def fm fp page_consts)
  qed
  have mv: "bslice m (32 + j * 4 + k) 2 = bslice p (32 + Suc j * 4 + k) 2"
    if "i \<le> j" "Suc j < ?n" "k \<le> 2" for j k
  proof -
    have "i * 4 \<le> j * 4" "Suc j * 4 + 4 \<le> ?n * 4" using that by auto
    then show ?thesis
      unfolding m_def using that len dir i4
      by (subst bslice_copy_within_moved) (auto simp: algebra_simps)
  qed
  have hi: "slot_off q j = slot_off p (Suc j)" "slot_len q j = slot_len p (Suc j)"
    if "i \<le> j" "Suc j < ?n" for j
    using mv [OF that, of 0] mv [OF that, of 2]
    by (simp_all add: slot_off_def slot_len_def read_le_def fm page_consts add.commute)
  have cs: "cell_start q = cell_start p"
    by (simp add: cell_start_def read_le_def fm fp page_consts)
  have heap: "cell_start p \<le> slot_off p j" "slot_off p j + slot_len p j \<le> 4096" if "j < ?n" for j
    using ok that by (auto simp: slots_ok_def page_consts)
  have cb: "cell_bytes q j = cell_bytes p (if j < i then j else Suc j)" if "Suc j < ?n" for j
  proof -
    have o: "32 + ?n * 4 \<le> slot_off p (if j < i then j else Suc j)"
      using heap [of "if j < i then j else Suc j"] that dir by auto
    show ?thesis using lo hi that o i4 by (auto simp: cell_bytes_def fm fp)
  qed
  have ceq: "cells q = take i (cells p) @ drop (Suc i) (cells p)"
    by (rule nth_equalityI) (use i cb in \<open>auto simp: nk nth_append min_def\<close>)
  have "cell_start p \<le> slot_off q j \<and> slot_off q j + slot_len q j \<le> 4096" if "Suc j < ?n" for j
    using that lo [of j] hi [of j] heap [of j] heap [of "Suc j"] by (cases "j < i") auto
  then have "slots_ok q"
    using lq dir i by (auto simp: slots_ok_def nk cs page_consts)
  moreover have "live_bytes q \<le> live_bytes p"
    using sum_list_take_drop [of i "map length (cells p)"]
      sum_list_take_drop [of "Suc i" "map length (cells p)"]
    unfolding live_bytes_def ceq
    by (simp add: take_map drop_map take_Suc_conv_app_nth i)
  ultimately have "page_wf q" using live by (simp add: page_wf_def cs)
  moreover have "header_rest q = header_rest p"
    by (simp add: header_rest_def page_id_def parent_def extra_def flags_def lsn_def read_le_def
        fm fp page_consts)
  ultimately show ?thesis using run ceq by blast
qed

end
