(* ===== verification/Page_Access.thy ===== *)
theory Page_Access
  imports Page_Props
begin

text \<open>
  Reading pages: what validation and the checksum guarantee, binary search, the encodings of
  leaf and internal cells, overflow links and the meta block, and fresh pages.
\<close>

section \<open>Fresh and cleared pages\<close>

lemma length_page_new: "length buf = 4096 \<Longrightarrow> length (page_new buf pid ty) = 4096"
  by (simp add: page_new_def Let_def set_page_id_def set_parent_def set_extra_def set_num_keys_def
      set_cell_start_def set_page_type_def set_lsn_def length_write_le page_consts)

lemma page_new_fields:
  assumes "length buf = 4096"
  shows "page_id (page_new buf pid ty) = pid mod 4294967296"
    "parent (page_new buf pid ty) = SENTINEL"
    "extra (page_new buf pid ty) = SENTINEL"
    "num_keys (page_new buf pid ty) = 0"
    "cell_start (page_new buf pid ty) = PAGE_SIZE"
    "page_type (page_new buf pid ty) = Inr ty"
    "is_leaf (page_new buf pid ty) = (ty = Leaf)"
    "lsn (page_new buf pid ty) = 0"
    "flags (page_new buf pid ty) = flags buf"
  using assms
  by (simp_all add: page_new_def Let_def page_id_def parent_def extra_def num_keys_def cell_start_def
      page_type_def is_leaf_def lsn_def flags_def set_page_id_def set_parent_def set_extra_def
      set_num_keys_def set_cell_start_def set_page_type_def set_lsn_def page_type_from_u8_def
      read_write_le_other read_write_le_same length_write_le page_consts split: page_type.splits)
    (cases ty; simp add: page_type_from_u8_def)+

lemma page_new_wf:
  assumes "length buf = 4096"
  shows "page_wf (page_new buf pid ty)" "cells (page_new buf pid ty) = []"
  using page_new_fields [OF assms, of pid ty] length_page_new [OF assms, of pid ty]
  by (simp_all add: page_wf_def slots_ok_def live_bytes_def cells_def page_consts)

lemma clear_cells_wf:
  assumes "length p = 4096"
  shows "page_wf (clear_cells p)" "cells (clear_cells p) = []"
    "header_rest (clear_cells p) = header_rest p"
proof -
  let ?q = "set_num_keys p 0"
  have l: "length ?q = 4096" using assms by (simp add: set_num_keys_def length_write_le page_consts)
  have n: "num_keys (clear_cells p) = 0"
    unfolding clear_cells_def set_cell_start_def num_keys_def
    using l assms num_keys_set_num_keys [OF assms, of 0]
    by (simp add: read_write_le_other num_keys_def page_consts)
  have c: "cell_start (clear_cells p) = 4096"
    unfolding clear_cells_def by (simp add: cell_start_set_cell_start l page_consts)
  have "length (clear_cells p) = 4096"
    unfolding clear_cells_def set_cell_start_def by (simp add: length_write_le l page_consts)
  with n c show "page_wf (clear_cells p)" "cells (clear_cells p) = []"
    by (simp_all add: page_wf_def slots_ok_def live_bytes_def cells_def page_consts)
  show "header_rest (clear_cells p) = header_rest p"
    using assms l
    by (simp add: header_rest_def clear_cells_def set_cell_start_def set_num_keys_def page_id_def
        parent_def extra_def flags_def lsn_def read_write_le_other length_write_le page_consts)
qed

section \<open>Validation\<close>

lemma validate_structure_slots:
  assumes "length p = PAGE_SIZE" "validate_structure p = Inr ()"
    and "page_type p = Inr ty" "ty = Leaf \<or> ty = Internal"
  shows "slots_ok p"
proof -
  let ?n = "num_keys p"
  let ?f = "\<lambda>i. rbind (slot p i) (\<lambda>(off, len).
      if off < cell_start p \<or> off + len > PAGE_SIZE then Inl Corruption else Inr ())"
  have nt: "\<not> (ty = Overflow \<or> ty = Meta \<or> ty = Free)" using assms(4) by auto
  have b: "PAGE_HEADER_SIZE \<le> cell_start p \<and> cell_start p \<le> PAGE_SIZE"
    using assms(2) nt by (simp add: validate_structure_def assms(3) Let_def split: if_splits)
  then have d: "PAGE_HEADER_SIZE + ?n * SLOT_SIZE \<le> cell_start p"
    using assms(2) nt by (simp add: validate_structure_def assms(3) Let_def not_less split: if_splits)
  have "rbind (rmap ?f [0..<?n]) (\<lambda>_. Inr ()) = Inr ()"
    using assms(2) nt b d by (simp add: validate_structure_def assms(3) Let_def not_less)
  then obtain ys where all: "rmap ?f [0..<?n] = Inr ys" by (auto simp: rbind_Inr_iff)
  have "cell_start p \<le> slot_off p i \<and> slot_off p i + slot_len p i \<le> PAGE_SIZE" if "i < ?n" for i
  proof -
    have "?f i = Inr (ys ! i)" using rmap_nth [OF all, of i] that by simp
    then show ?thesis
      by (auto simp: res_simps slot_def slot_off_def slot_len_def Let_def split: if_splits)
  qed
  with assms(1) b d show ?thesis by (simp add: slots_ok_def)
qed

lemma from_bytes_accepts:
  "from_bytes crc bs = Inr p \<Longrightarrow>
     p = bs \<and> length p = PAGE_SIZE \<and> stored_crc p = compute_crc crc p \<and> validate_structure p = Inr ()"
  by (auto simp: from_bytes_def verify_def res_simps split: if_splits)

lemma from_bytes_slots:
  assumes "from_bytes crc bs = Inr p" "page_type p = Inr Leaf \<or> page_type p = Inr Internal"
  shows "slots_ok p"
  using from_bytes_accepts [OF assms(1)] assms(2) validate_structure_slots by blast

lemma accessors_no_panic:
  assumes "slots_ok p"
  shows "slot p i \<noteq> Inl Panic" "cell p i \<noteq> Inl Panic" "cell_key p i \<noteq> Inl Panic"
    "leaf_cell_at p i \<noteq> Inl Panic" "internal_child p i \<noteq> Inl Panic"
proof -
  show s: "slot p i \<noteq> Inl Panic"
  proof (cases "i < num_keys p")
    case True
    with slot_ok [OF assms] show ?thesis by simp
  qed (simp add: slot_def)
  then show "cell p i \<noteq> Inl Panic" by (auto simp: cell_def rbind_Inl_iff)
  with s show "cell_key p i \<noteq> Inl Panic" "leaf_cell_at p i \<noteq> Inl Panic" "internal_child p i \<noteq> Inl Panic"
    by (auto simp: cell_key_def decode_cell_key_def leaf_cell_at_def decode_leaf_cell_def
        internal_child_def rbind_Inl_iff Let_def split: if_splits)
qed

lemma search_no_panic:
  assumes "slots_ok p"
  shows "search p key \<noteq> Inl Panic"
proof -
  have "search_loop p key lo hi \<noteq> Inl Panic" for lo hi
  proof (induction "hi - lo" arbitrary: lo hi rule: less_induct)
    case less
    let ?mid = "(lo + hi) div 2"
    show ?case
    proof (cases "lo < hi")
      case True
      then have "hi - (?mid + 1) < hi - lo" "?mid - lo < hi - lo" by auto
      then have "search_loop p key (?mid + 1) hi \<noteq> Inl Panic" "search_loop p key lo ?mid \<noteq> Inl Panic"
        using less by blast+
      with True accessors_no_panic(3) [OF assms, of ?mid] show ?thesis
        by (subst search_loop.simps) (auto simp: Let_def rbind_Inl_iff)
    qed (simp add: search_loop.simps)
  qed
  then show ?thesis by (simp add: search_def)
qed

section \<open>Binary search\<close>

text \<open>\<open>keys_are p ks\<close>: the keys of the cells of \<open>p\<close>, in slot order.\<close>

definition keys_are :: "page \<Rightarrow> bytes list \<Rightarrow> bool" where
  "keys_are p ks \<longleftrightarrow> length ks = num_keys p \<and> (\<forall>i < num_keys p. cell_key p i = Inr (ks ! i))"

definition position :: "bytes list \<Rightarrow> bytes \<Rightarrow> nat" where
  "position ks key = length (takeWhile (\<lambda>k. k < key) ks)"

lemma position_eqI:
  assumes "i \<le> length ks" "\<And>j. j < i \<Longrightarrow> ks ! j < key" "i < length ks \<Longrightarrow> key \<le> ks ! i"
  shows "position ks key = i"
proof -
  have "takeWhile (\<lambda>k. k < key) ks = take i ks"
    by (rule takeWhile_eq_take_P_nth) (use assms in \<open>auto simp: not_less\<close>)
  with assms(1) show ?thesis by (simp add: position_def)
qed

lemma position_le: "position ks key \<le> length ks"
  by (simp add: position_def length_takeWhile_le)

lemma search_loop_spec:
  assumes "keys_are p ks" "sorted_wrt (<) ks" "lo \<le> hi" "hi \<le> length ks"
    and "\<And>j. j < lo \<Longrightarrow> ks ! j < key" "\<And>j. hi \<le> j \<Longrightarrow> j < length ks \<Longrightarrow> key < ks ! j"
  shows "search_loop p key lo hi =
     Inr (let i = position ks key in if i < length ks \<and> ks ! i = key then Found i else Missing i)"
  using assms(3-6)
proof (induction "hi - lo" arbitrary: lo hi rule: less_induct)
  case less
  let ?mid = "(lo + hi) div 2"
  show ?case
  proof (cases "lo < hi")
    case False
    then have eq: "lo = hi" using less.prems by simp
    have "position ks key = lo"
      by (rule position_eqI) (use less.prems eq in \<open>auto simp: less_imp_le\<close>)
    moreover have "lo < length ks \<Longrightarrow> key < ks ! lo" using less.prems(4) eq by simp
    ultimately show ?thesis using False by (subst search_loop.simps) (auto simp: Let_def)
  next
    case True
    then have m: "?mid < length ks" "lo \<le> ?mid" "?mid < hi" using less.prems by auto
    have key: "cell_key p ?mid = Inr (ks ! ?mid)" using assms(1) m by (simp add: keys_are_def)
    have ord: "ks ! a < ks ! b" if "a < b" "b < length ks" for a b
      using assms(2) that by (simp add: sorted_wrt_iff_nth_less)
    consider "ks ! ?mid < key" | "key < ks ! ?mid" | "ks ! ?mid = key" by fastforce
    then show ?thesis
    proof cases
      case 1
      have below: "ks ! j < key" if "j < ?mid + 1" for j
        using that ord [of j ?mid] m 1 by (cases "j = ?mid") (auto dest: less_trans)
      have "search_loop p key (?mid + 1) hi =
          Inr (let i = position ks key in if i < length ks \<and> ks ! i = key then Found i else Missing i)"
        by (rule less.hyps) (use m less.prems below in auto)
      with True key 1 show ?thesis by (subst search_loop.simps) (simp add: Let_def)
    next
      case 2
      have above: "key < ks ! j" if "?mid \<le> j" "j < length ks" for j
        using that ord [of ?mid j] 2 by (cases "j = ?mid") (auto dest: less_trans)
      have "search_loop p key lo ?mid =
          Inr (let i = position ks key in if i < length ks \<and> ks ! i = key then Found i else Missing i)"
        by (rule less.hyps) (use m less.prems above in auto)
      with True key 2 show ?thesis by (subst search_loop.simps) (auto simp: Let_def)
    next
      case 3
      have "position ks key = ?mid"
        by (rule position_eqI) (use m 3 ord in auto)
      with True key 3 m show ?thesis by (subst search_loop.simps) (simp add: Let_def)
    qed
  qed
qed

lemma search_spec:
  assumes "keys_are p ks" "sorted_wrt (<) ks"
  shows "search p key =
     Inr (let i = position ks key in if i < length ks \<and> ks ! i = key then Found i else Missing i)"
  unfolding search_def
  by (rule search_loop_spec) (use assms in \<open>auto simp: keys_are_def\<close>)

section \<open>Encodings of cells\<close>

lemma read_le_append:
  "off + w \<le> length xs \<Longrightarrow> read_le (xs @ ys) off w = read_le xs off w"
  by (simp add: read_le_def bslice_append_left)

lemma read_le_skip: "length xs \<le> off \<Longrightarrow> read_le (xs @ ys) off w = read_le ys (off - length xs) w"
  by (simp add: read_le_def bslice_append_right)

lemma read_le_to_le: "read_le (to_le w v @ ys) 0 w = v mod 256 ^ w"
  by (simp add: read_le_def bslice_def le_simps)

lemma leaf_header:
  fixes key payload :: bytes and fl :: u8 and kl tlen :: nat
  defines "c \<equiv> to_le 2 kl @ [fl] @ [0] @ to_le 4 tlen @ key @ payload"
  shows "length c = 8 + length key + length payload"
    "read_le c 0 2 = kl mod 65536" "read_le c 2 1 = unat fl" "read_le c 4 4 = tlen mod 4294967296"
    "kl = length key \<Longrightarrow> bslice c 8 kl = key" "kl = length key \<Longrightarrow> drop (8 + kl) c = payload"
proof -
  show "length c = 8 + length key + length payload" by (simp add: c_def)
  show "read_le c 0 2 = kl mod 65536"
    using read_le_to_le [of 2 kl] by (simp add: c_def)
  show "read_le c 2 1 = unat fl"
    by (simp add: c_def read_le_skip) (simp add: read_le_def bslice_def)
  have "c = (to_le 2 kl @ [fl] @ [0]) @ to_le 4 tlen @ key @ payload" by (simp add: c_def)
  then show "read_le c 4 4 = tlen mod 4294967296"
    using read_le_to_le [of 4 tlen "key @ payload"]
      read_le_skip [of "to_le 2 kl @ [fl] @ [0]" 4 "to_le 4 tlen @ key @ payload" 4] by simp
  have c8: "c = (to_le 2 kl @ [fl] @ [0] @ to_le 4 tlen) @ key @ payload" by (simp add: c_def)
  show "kl = length key \<Longrightarrow> bslice c 8 kl = key"
    unfolding c8 by (subst bslice_append_right) (simp_all add: bslice_def)
  show "kl = length key \<Longrightarrow> drop (8 + kl) c = payload"
    unfolding c8 by (subst drop_append) simp
qed

lemma encode_leaf_cell_shape:
  "encode_leaf_cell key value tlen ov =
     to_le 2 (length key) @ [if ov \<noteq> None then 1 else 0] @ [0] @ to_le 4 tlen @ key @
     (case ov of Some pid \<Rightarrow> to_le 4 pid | None \<Rightarrow> value)"
  by (simp add: encode_leaf_cell_def)

lemma length_encode_leaf_cell:
  "length (encode_leaf_cell key value tlen ov) =
     8 + length key + (case ov of Some pid \<Rightarrow> 4 | None \<Rightarrow> length value)"
  by (simp add: encode_leaf_cell_def split: option.splits)

lemma leaf_cell_roundtrip:
  assumes "length key < 65536" "tlen < 4294967296"
    and "case ov of Some pid \<Rightarrow> pid < 4294967296 | None \<Rightarrow> tlen = length value"
  shows "decode_leaf_cell (encode_leaf_cell key value tlen ov) =
     Inr \<lparr>lc_key = key, lc_value = (if ov = None then value else []), lc_total_len = tlen, lc_overflow = ov\<rparr>"
proof (cases ov)
  case None
  have f: "(if ov \<noteq> None then 1 else 0) = (0::u8)" using None by simp
  note h = leaf_header [where kl = "length key" and fl = 0 and tlen = tlen and key = key and payload = "value"]
  show ?thesis
    unfolding encode_leaf_cell_shape f decode_leaf_cell_def
    using assms None h by (simp add: Let_def)
next
  case (Some pid)
  have f: "(if ov \<noteq> None then 1 else 0) = (1::u8)" using Some by simp
  note h = leaf_header [where kl = "length key" and fl = 1 and tlen = tlen and key = key and payload = "to_le 4 pid"]
  have "read_le (to_le 4 pid) 0 4 = pid"
    using read_le_to_le [of 4 pid "[]"] assms(3) Some by simp
  then show ?thesis
    unfolding encode_leaf_cell_shape f decode_leaf_cell_def
    using assms Some h by (simp add: Let_def)
qed

lemma leaf_key_roundtrip:
  assumes "length key < 65536"
  shows "decode_cell_key True (encode_leaf_cell key value tlen ov) = Inr key"
  using assms leaf_header [where kl = "length key" and fl = "if ov \<noteq> None then 1 else 0" and
      tlen = tlen and key = key and payload = "case ov of Some pid \<Rightarrow> to_le 4 pid | None \<Rightarrow> value"]
  unfolding encode_leaf_cell_shape decode_cell_key_def by (simp add: Let_def)

lemma internal_cell_roundtrip:
  assumes "length key < 65536" "child < 4294967296"
  shows "decode_cell_key False (encode_internal_cell key child) = Inr key"
    "read_le (encode_internal_cell key child) 2 4 = child"
    "length (encode_internal_cell key child) = 6 + length key"
proof -
  show "length (encode_internal_cell key child) = 6 + length key"
    by (simp add: encode_internal_cell_def)
  show "read_le (encode_internal_cell key child) 2 4 = child"
    using assms(2) read_le_to_le [of 4 child key]
    by (simp add: encode_internal_cell_def read_le_skip)
  have "read_le (encode_internal_cell key child) 0 2 = length key"
    using assms(1) read_le_to_le [of 2 "length key"] by (simp add: encode_internal_cell_def)
  moreover have "bslice (encode_internal_cell key child) 6 (length key) = key"
    by (simp add: encode_internal_cell_def bslice_def)
  ultimately show "decode_cell_key False (encode_internal_cell key child) = Inr key"
    by (simp add: decode_cell_key_def Let_def encode_internal_cell_def)
qed

section \<open>Overflow links and the meta block\<close>

lemma overflow_roundtrip:
  assumes "length p = 4096" "length payload \<le> OVERFLOW_PAYLOAD"
  shows "\<exists>q. write_overflow p payload nxt = Inr q \<and> length q = 4096 \<and> read_overflow q = Inr payload \<and>
     extra q = nxt mod 4294967296 \<and> page_type q = Inr Overflow \<and> page_id q = page_id p"
proof -
  define q1 where "q1 = set_extra (set_page_type p Overflow) nxt"
  define q2 where "q2 = write_le (write_le q1 32 4 (length payload)) 36 4 0"
  define q where "q = bsplice q2 40 payload"
  have pl: "length payload \<le> 4056" using assms(2) by (simp add: page_consts)
  have l1: "length q1 = 4096"
    by (simp add: q1_def set_extra_def set_page_type_def length_write_le assms(1) page_consts)
  have l2: "length q2 = 4096" by (simp add: q2_def length_write_le l1)
  have lq: "length q = 4096" using pl l2 by (simp add: q_def length_bsplice)
  have w: "write_overflow p payload nxt = Inr q"
    using assms(2) by (simp add: write_overflow_def Let_def q_def q2_def q1_def page_consts)
  have hd: "read_le q o1 n = read_le q1 o1 n" if "o1 + n \<le> 32" for o1 n
    using that pl l2 l1
    by (simp add: q_def q2_def read_le_bsplice_other read_write_le_other length_write_le)
  have ty: "page_type q = Inr Overflow"
    by (simp add: page_type_def hd q1_def set_extra_def set_page_type_def read_write_le_other
        read_write_le_same length_write_le assms(1) page_type_from_u8_def page_consts)
  have ex: "extra q = nxt mod 4294967296"
    by (simp add: extra_def hd q1_def set_extra_def set_page_type_def read_write_le_same
        length_write_le assms(1) page_consts)
  have pid: "page_id q = page_id p"
    by (simp add: page_id_def hd q1_def set_extra_def set_page_type_def read_write_le_other
        length_write_le assms(1) page_consts)
  have "read_le q 32 4 = length payload"
    using pl l1 l2 by (simp add: q_def q2_def read_le_bsplice_other read_write_le_other
        read_write_le_same length_write_le)
  moreover have "bslice q 40 (length payload) = payload"
    using pl l2 by (simp add: q_def bslice_bsplice_same)
  ultimately have "read_overflow q = Inr payload"
    using pl by (simp add: read_overflow_def ty Let_def page_consts)
  with w lq ty ex pid show ?thesis by blast
qed

definition meta_in_range :: "meta_data \<Rightarrow> bool" where
  "meta_in_range m \<longleftrightarrow>
     md_version m < 2 ^ 32 \<and> md_root m < 2 ^ 32 \<and> md_free_list m < 2 ^ 32 \<and>
     md_page_count m < 2 ^ 32 \<and> md_tree_ts m < 2 ^ 64 \<and> md_next_txn_id m < 2 ^ 64 \<and>
     md_last_lsn m < 2 ^ 64"

lemma length_write_meta: "length p = 4096 \<Longrightarrow> length (write_meta p m) = 4096"
  by (simp add: write_meta_def Let_def set_page_type_def length_write_le page_consts)

lemma write_meta_header:
  assumes "length p = 4096"
  shows "page_type (write_meta p m) = Inr Meta" "page_id (write_meta p m) = page_id p"
  using assms
  by (simp_all add: write_meta_def Let_def page_type_def page_id_def set_page_type_def
      read_write_le_other read_write_le_same length_write_le page_type_from_u8_def page_consts)

lemma meta_roundtrip:
  assumes "length p = 4096" "meta_in_range m"
  shows "read_meta (write_meta p m) = Inr m"
proof -
  have ty: "page_type (write_meta p m) = Inr Meta" using write_meta_header [OF assms(1)] by simp
  have mg: "read_le (write_meta p m) 32 8 = META_MAGIC"
    by (simp add: write_meta_def Let_def set_page_type_def read_write_le_other read_write_le_same
        length_write_le assms(1) META_MAGIC_def page_consts)
  have sz: "read_le (write_meta p m) 44 4 = 4096"
    by (simp add: write_meta_def Let_def set_page_type_def read_write_le_other read_write_le_same
        length_write_le assms(1) page_consts)
  have fields: "read_le (write_meta p m) 40 4 = md_version m"
    "read_le (write_meta p m) 48 4 = md_root m"
    "read_le (write_meta p m) 52 4 = md_free_list m"
    "read_le (write_meta p m) 56 4 = md_page_count m"
    "read_le (write_meta p m) 60 8 = md_tree_ts m"
    "read_le (write_meta p m) 68 8 = md_next_txn_id m"
    "read_le (write_meta p m) 76 8 = md_last_lsn m"
    using assms(2)
    by (simp_all add: write_meta_def Let_def set_page_type_def read_write_le_other read_write_le_same
        length_write_le assms(1) meta_in_range_def page_consts)
  show ?thesis by (simp add: read_meta_def ty mg sz fields Let_def page_consts)
qed

section \<open>Checksums\<close>

lemma length_finalize: "length p = 4096 \<Longrightarrow> length (finalize crc p) = 4096"
  by (simp add: finalize_def length_write_le page_consts)

lemma drop_finalize: "length p = 4096 \<Longrightarrow> drop 4 (finalize crc p) = drop 4 p"
  by (simp add: finalize_def write_le_def bsplice_def page_consts)

lemma read_le_finalize:
  "length p = 4096 \<Longrightarrow> 4 \<le> o1 \<Longrightarrow> read_le (finalize crc p) o1 n = read_le p o1 n"
  by (simp add: finalize_def read_write_le_other page_consts)

lemma verify_finalize:
  assumes "length p = 4096"
  shows "verify crc (finalize crc p) = Inr ()"
proof -
  have "compute_crc crc p < 4294967296"
    using unsigned_less [of "crc (drop 4 p)"] by (simp add: compute_crc_def)
  then have "stored_crc (finalize crc p) = compute_crc crc p"
    using assms by (simp add: stored_crc_def finalize_def read_write_le_same page_consts)
  then show ?thesis
    by (simp add: verify_def compute_crc_def drop_finalize [OF assms])
qed

lemma finalize_same_fields:
  assumes "length p = 4096"
  shows "header_rest (finalize crc p) = header_rest p" "num_keys (finalize crc p) = num_keys p"
    "cell_start (finalize crc p) = cell_start p" "slot_off (finalize crc p) i = slot_off p i"
    "slot_len (finalize crc p) i = slot_len p i"
  using assms
  by (simp_all add: header_rest_def page_id_def parent_def extra_def flags_def lsn_def num_keys_def
      cell_start_def slot_off_def slot_len_def read_le_finalize page_consts)

lemma slot_finalize: "length p = 4096 \<Longrightarrow> slot (finalize crc p) i = slot p i"
  by (simp add: slot_def Let_def finalize_same_fields read_le_finalize page_consts)

lemma validate_finalize:
  assumes "length p = 4096"
  shows "validate_structure (finalize crc p) = validate_structure p"
  using finalize_same_fields [OF assms, of crc] header_restD(4) [OF finalize_same_fields(1) [OF assms, of crc]]
  by (simp add: validate_structure_def slot_finalize [OF assms] Let_def cong: if_cong)

lemma slots_ok_validate:
  assumes "slots_ok p" "page_type p = Inr ty"
  shows "validate_structure p = Inr ()"
proof -
  have "rmap (\<lambda>i. rbind (slot p i) (\<lambda>(off, len).
      if off < cell_start p \<or> off + len > PAGE_SIZE then Inl Corruption else Inr ())) [0..<num_keys p]
      = Inr (map (\<lambda>_. ()) [0..<num_keys p])"
    by (rule rmap_Inr) (use assms(1) in \<open>auto simp: slot_ok slots_ok_def not_less\<close>)
  with assms show ?thesis
    by (auto simp: validate_structure_def Let_def slots_ok_def page_consts)
qed

lemma from_bytes_finalize:
  assumes "slots_ok p" "page_type p = Inr ty"
  shows "from_bytes crc (finalize crc p) = Inr (finalize crc p)"
proof -
  have l: "length p = 4096" using assms(1) by (simp add: slots_ok_def page_consts)
  then show ?thesis
    using slots_ok_validate [OF assms]
    by (simp add: from_bytes_def length_finalize verify_finalize validate_finalize page_consts)
qed

section \<open>Properties of the page\<close>

text \<open>The fresh leaf used in the examples below.\<close>

definition example_leaf :: page where
  "example_leaf = page_new (replicate 4096 0) 7 Leaf"

lemma example_leaf_facts:
  "page_wf example_leaf" "cells example_leaf = []" "num_keys example_leaf = 0"
  "used_bytes example_leaf = 0" "page_type example_leaf = Inr Leaf"
  by (simp_all add: example_leaf_def page_new_wf page_new_fields used_bytes_cells)

text \<open>C26. \<open>insert_cell_at\<close> on a well-formed page and a slot index in range: if the slots and
  live cells plus the new cell and its slot fit in the usable space, the cell list grows by the
  cell at that index, whether or not a compaction was needed, and the page stays well-formed with
  the rest of its header unchanged; otherwise it fails with \<open>Full\<close>.\<close>

theorem insert_cell_refines:
  assumes "page_wf p" "i \<le> num_keys p"
  shows "if used_bytes p + length c + SLOT_SIZE \<le> USABLE_SPACE
     then \<exists>q. insert_cell_at p i c = Inr q \<and> page_wf q \<and>
       cells q = take i (cells p) @ c # drop i (cells p) \<and> header_rest q = header_rest p
     else insert_cell_at p i c = Inl Full"
  using assms by (rule insert_cell_at_spec)

theorem insert_cell_refines_witness:
  "\<exists>q. insert_cell_at example_leaf 0 [1, 2, 3] = Inr q \<and> page_wf q \<and> cells q = [[1, 2, 3]] \<and>
     header_rest q = header_rest example_leaf"
  using insert_cell_refines [of example_leaf 0 "[1, 2, 3]"]
  by (simp add: example_leaf_facts page_consts)

text \<open>\<open>remove_cell_at\<close> on a well-formed page removes exactly the cell at the index and
  keeps the page well-formed; an index out of range is refused with \<open>InvalidArgument\<close>.\<close>

lemma remove_cell_refines:
  assumes "page_wf p"
  shows "if i < num_keys p
     then \<exists>q. remove_cell_at p i = Inr q \<and> page_wf q \<and>
       cells q = take i (cells p) @ drop (Suc i) (cells p) \<and> header_rest q = header_rest p
     else remove_cell_at p i = Inl InvalidArgument"
  using remove_cell_at_spec [OF assms, of i] by (simp add: remove_cell_at_def)

text \<open>\<open>compact\<close> succeeds on every well-formed page, keeps the cells and their order, and
  makes all free bytes contiguous: the free space is the usable space minus slots and live cells.\<close>

lemma compact_reclaims:
  assumes "page_wf p"
  shows "\<exists>q. compact p = Inr q \<and> page_wf q \<and> cells q = cells p \<and> header_rest q = header_rest p \<and>
     free_space q = USABLE_SPACE - used_bytes p"
proof -
  obtain q where q: "compact p = Inr q" "page_wf q" "cells q = cells p" "num_keys q = num_keys p"
      "header_rest q = header_rest p" "cell_start q = PAGE_SIZE - live_bytes p"
    using compact_wf [OF assms] by blast
  have "free_space q = USABLE_SPACE - used_bytes p"
    by (simp add: free_space_def q used_bytes_def page_consts)
  then show ?thesis using q by blast
qed

text \<open>C27. Binary search over the cells of a page whose keys are strictly ascending returns the
  index of the key if it is there, and otherwise the index at which it belongs.\<close>

theorem search_finds_position:
  assumes "keys_are p ks" "sorted_wrt (<) ks"
  shows "search p key =
     Inr (let i = position ks key in if i < length ks \<and> ks ! i = key then Found i else Missing i)"
  using assms by (rule search_spec)

theorem search_finds_position_witness: "search example_leaf [5] = Inr (Missing 0)"
  using search_finds_position [of example_leaf "[]" "[5]"]
  by (simp add: keys_are_def example_leaf_facts position_def)



text \<open>A page whose slot directory is in order and that is sealed with \<open>finalize\<close> is
  accepted back by \<open>from_bytes\<close>; every field and cell reads as before the seal.\<close>

lemma sealed_page_roundtrip:
  assumes "slots_ok p" "page_type p = Inr ty"
  shows "from_bytes crc (finalize crc p) = Inr (finalize crc p) \<and>
     header_rest (finalize crc p) = header_rest p \<and> (\<forall>i. cell (finalize crc p) i = cell p i)"
proof -
  have len: "length p = 4096" using assms(1) by (simp add: slots_ok_def page_consts)
  have "cell (finalize crc p) i = cell p i" for i
  proof (cases "i < num_keys p")
    case True
    have "slot_off p i \<ge> 4" using assms(1) True by (auto simp: slots_ok_def page_consts)
    then have "bslice (finalize crc p) (slot_off p i) (slot_len p i) = bslice p (slot_off p i) (slot_len p i)"
      using len by (simp add: finalize_def page_consts buf_simps)
    then show ?thesis
      using slot_ok [OF assms(1) True] by (simp add: cell_def slot_finalize [OF len])
  next
    case False
    then have "slot p i = Inl Corruption" by (simp add: slot_def)
    then show ?thesis by (simp add: cell_def slot_finalize [OF len])
  qed
  then show ?thesis using from_bytes_finalize [OF assms] finalize_same_fields(1) [OF len] by blast
qed

text \<open>A leaf cell decodes to what was encoded: the key, the inline value or the overflow
  head, and the value length.\<close>

lemma leaf_cell_encoding_roundtrip:
  assumes "length key < 65536" "tlen < 4294967296"
    and "case ov of Some pid \<Rightarrow> pid < 4294967296 | None \<Rightarrow> tlen = length val"
  shows "decode_leaf_cell (encode_leaf_cell key val tlen ov) =
     Inr \<lparr>lc_key = key, lc_value = (if ov = None then val else []), lc_total_len = tlen, lc_overflow = ov\<rparr>"
  using assms by (rule leaf_cell_roundtrip)

text \<open>The meta block: whatever buffer it is written over, every field that fits its width
  reads back.\<close>

lemma meta_block_roundtrip:
  assumes "length p = 4096" "meta_in_range m"
  shows "read_meta (write_meta p m) = Inr m"
  using assms by (rule meta_roundtrip)

end
