(* ===== verification/Frames.thy ===== *)
theory Frames
  imports Errors
begin

text \<open>
  Append-only logs of framed records. \<open>scan_frames\<close> is the recovery loop that reads frames
  until the first one that does not decode. The locale \<open>frame_log\<close> states the contract
  between an encoder and a decoder of single frames, and proves once what the loop does on a
  complete log, on a log with garbage behind it, and on a log cut off at an arbitrary byte.
\<close>

text \<open>\<open>dec bs\<close> decodes the frame at the start of \<open>bs\<close> and reports its size in bytes.\<close>

function scan_frames :: "(bytes \<Rightarrow> ('r \<times> nat) option) \<Rightarrow> bytes \<Rightarrow> 'r list \<times> nat" where
  "scan_frames dec bs =
     (case dec bs of
        None \<Rightarrow> ([], 0)
      | Some (r, n) \<Rightarrow>
          if n = 0 \<or> length bs < n then ([], 0)
          else let (rs, m) = scan_frames dec (drop n bs) in (r # rs, n + m))"
  by pat_completeness auto
termination
  by (relation "measure (\<lambda>(dec, bs). length bs)") auto

declare scan_frames.simps [simp del]

lemma scan_frames_None: "dec bs = None \<Longrightarrow> scan_frames dec bs = ([], 0)"
  by (subst scan_frames.simps) simp

lemma scan_frames_bytes: "snd (scan_frames dec bs) \<le> length bs"
proof (induction dec bs rule: scan_frames.induct)
  case (1 dec bs)
  show ?case
  proof (cases "dec bs")
    case (Some rn)
    then obtain r n where rn: "dec bs = Some (r, n)" by (cases rn) auto
    then show ?thesis
      using "1.IH" [OF rn refl]
      by (subst scan_frames.simps) (auto simp: Let_def split: prod.splits)
  qed (simp add: scan_frames_None)
qed

locale frame_log =
  fixes enc :: "'r \<Rightarrow> bytes"
    and dec :: "bytes \<Rightarrow> ('r \<times> nat) option"
    and ok :: "'r \<Rightarrow> bool"
  assumes enc_nonempty: "ok r \<Longrightarrow> enc r \<noteq> []"
    and dec_enc: "ok r \<Longrightarrow> dec (enc r @ rest) = Some (r, length (enc r))"
    and dec_short: "ok r \<Longrightarrow> n < length (enc r) \<Longrightarrow> dec (take n (enc r)) = None"
begin

definition log_of :: "'r list \<Rightarrow> bytes" where
  "log_of rs = concat (map enc rs)"

lemma log_of_simps [simp]: "log_of [] = []" "log_of (r # rs) = enc r @ log_of rs"
  by (simp_all add: log_of_def)

lemma log_of_append: "log_of (rs @ rs') = log_of rs @ log_of rs'"
  by (simp add: log_of_def)

lemma scan_step:
  "ok r \<Longrightarrow> scan_frames dec (enc r @ bs) =
     (let (rs, m) = scan_frames dec bs in (r # rs, length (enc r) + m))"
  using enc_nonempty by (subst scan_frames.simps) (simp add: dec_enc Let_def)

lemma scan_log_append:
  "\<forall>r \<in> set rs. ok r \<Longrightarrow> scan_frames dec (log_of rs @ bs) =
     (rs @ fst (scan_frames dec bs), length (log_of rs) + snd (scan_frames dec bs))"
  by (induction rs) (auto simp: scan_step Let_def split: prod.splits)

lemma scan_log: "\<forall>r \<in> set rs. ok r \<Longrightarrow> dec bs = None \<Longrightarrow>
    scan_frames dec (log_of rs @ bs) = (rs, length (log_of rs))"
  by (simp add: scan_log_append scan_frames_None)

text \<open>A log cut off at any byte yields the records whose frames are complete.\<close>

lemma scan_log_cut:
  assumes "\<forall>r \<in> set rs. ok r"
  obtains k where "k \<le> length rs"
    "scan_frames dec (take n (log_of rs)) = (take k rs, length (log_of (take k rs)))"
    "\<And>j. j \<le> length rs \<Longrightarrow> length (log_of (take j rs)) \<le> n \<Longrightarrow> j \<le> k"
  using assms
proof (induction rs arbitrary: n thesis)
  case Nil
  have "dec [] = None \<or> (\<exists>p. dec [] = Some p)" by (cases "dec []") auto
  then have "scan_frames dec [] = ([], 0)"
    by (subst scan_frames.simps) (auto split: option.splits)
  then show ?case by (intro Nil(1) [of 0]) auto
next
  case (Cons r rs)
  then have r: "ok r" and rs: "\<forall>r \<in> set rs. ok r" by auto
  show ?case
  proof (cases "length (enc r) \<le> n")
    case True
    obtain k where k: "k \<le> length rs"
      "scan_frames dec (take (n - length (enc r)) (log_of rs)) = (take k rs, length (log_of (take k rs)))"
      "\<And>j. j \<le> length rs \<Longrightarrow> length (log_of (take j rs)) \<le> n - length (enc r) \<Longrightarrow> j \<le> k"
      using Cons.IH [OF _ rs] by blast
    have "scan_frames dec (take n (log_of (r # rs))) =
        (take (Suc k) (r # rs), length (log_of (take (Suc k) (r # rs))))"
      using True k(2) by (simp add: scan_step [OF r])
    moreover have "j \<le> Suc k" if "j \<le> length (r # rs)" "length (log_of (take j (r # rs))) \<le> n" for j
      using that True k(3) [of "j - 1"] by (cases j) auto
    ultimately show ?thesis using k(1) by (intro Cons.prems(1) [of "Suc k"]) auto
  next
    case False
    then have "dec (take n (log_of (r # rs))) = None" using dec_short [OF r] by simp
    moreover have "j = 0" if "length (log_of (take j (r # rs))) \<le> n" for j
      using that False by (cases j) auto
    ultimately show ?thesis
      by (intro Cons.prems(1) [of 0]) (auto simp: scan_frames_None)
  qed
qed

end

end
