(* ===== verification/Wal.thy ===== *)
theory Wal
  imports Frames OrdMap
begin

text \<open>
  The write-ahead log of \<open>wal.rs\<close>. The checksum (\<open>crc32fast\<close>) and the record encoding
  (\<open>bincode\<close>) are library code and are parameters: \<open>crc\<close>, \<open>ser\<close>, \<open>deser\<close>. The log
  file is the bytes handed to the operating system (\<open>w_disk\<close>) followed by the bytes still in
  the \<open>BufWriter\<close> (\<open>w_buf\<close>). Every operating-system call consumes one entry of
  \<open>w_io\<close>, the outcomes the environment has in store: \<open>Some k\<close> makes the call fail, a write
  after \<open>k\<close> bytes; \<open>None\<close>, and an exhausted list, make it succeed.
\<close>

definition MAX_RECORD_BYTES :: nat where
  "MAX_RECORD_BYTES = 64 * 1024 * 1024"

datatype wal_record =
    Begin nat
  | Insert nat bytes bytes
  | Delete nat bytes
  | Commit nat nat
  | Rollback nat
  | Checkpoint nat

type_synonym logged_write = "bytes \<times> bytes option"

record retained_commit =
  rc_txn_id :: nat
  rc_commit_ts :: nat
  rc_writes :: "logged_write list"

fun record_txn_id :: "wal_record \<Rightarrow> nat option" where
  "record_txn_id (Begin t) = Some t"
| "record_txn_id (Insert t _ _) = Some t"
| "record_txn_id (Delete t _) = Some t"
| "record_txn_id (Commit t _) = Some t"
| "record_txn_id (Rollback t) = Some t"
| "record_txn_id (Checkpoint _) = None"

datatype recovered_op = RInsert bytes bytes | RDelete bytes

record recovery =
  r_committed :: "(nat \<times> recovered_op list) list"
  r_max_txn_id :: nat
  r_max_commit_ts :: nat
  r_truncated_bytes :: nat
  r_valid_bytes :: nat
  r_checkpoint_ts :: "nat option"

definition recovery_default :: recovery where
  "recovery_default =
     \<lparr>r_committed = [], r_max_txn_id = 0, r_max_commit_ts = 0, r_truncated_bytes = 0,
      r_valid_bytes = 0, r_checkpoint_ts = None\<rparr>"

record wal =
  w_disk :: bytes
  w_buf :: bytes
  w_open :: bool
  w_bytes_written :: nat
  w_lsn :: nat
  w_syncs :: nat
  w_appended :: nat
  w_io :: "nat option list"

type_synonym 'a wal_op = "(wal, 'a) sres"

section \<open>Operating-system calls\<close>

definition io_next :: "wal \<Rightarrow> nat option \<times> wal" where
  "io_next w = (case w_io w of [] \<Rightarrow> (None, w) | x # xs \<Rightarrow> (x, w\<lparr>w_io := xs\<rparr>))"

definition os_call :: "unit wal_op" where
  "os_call w = (case io_next w of (None, w') \<Rightarrow> (Inr (), w') | (Some _, w') \<Rightarrow> (Inl Io, w'))"

definition wal_writer :: "unit wal_op" where
  "wal_writer w = (if w_open w then (Inr (), w) else (Inl Closed, w))"

definition buf_write :: "bytes \<Rightarrow> unit wal_op" where
  "buf_write bs w =
     (case io_next w of
        (None, w') \<Rightarrow> (Inr (), w'\<lparr>w_buf := w_buf w' @ bs\<rparr>)
      | (Some k, w') \<Rightarrow> (Inl Io, w'\<lparr>w_buf := w_buf w' @ take k bs\<rparr>))"

definition buf_flush :: "unit wal_op" where
  "buf_flush =
     sbind os_call (\<lambda>_. smod (\<lambda>w. w\<lparr>w_disk := w_disk w @ w_buf w, w_buf := []\<rparr>))"

section \<open>Opening\<close>

definition wal_open :: "bytes \<Rightarrow> nat option list \<Rightarrow> wal" where
  "wal_open file io =
     \<lparr>w_disk = file, w_buf = [], w_open = True, w_bytes_written = length file, w_lsn = 0,
      w_syncs = 0, w_appended = 0, w_io = io\<rparr>"

definition wal_open_truncated :: "bytes \<Rightarrow> nat option list \<Rightarrow> nat \<Rightarrow> unit res \<times> wal" where
  "wal_open_truncated file io valid_bytes =
     (let w = wal_open file io in
      if w_bytes_written w > valid_bytes then
        sbind wal_writer (\<lambda>_. sbind buf_flush (\<lambda>_.
        sbind os_call (\<lambda>_. sbind (smod (\<lambda>w. w\<lparr>w_disk := take valid_bytes (w_disk w)\<rparr>)) (\<lambda>_.
        sbind os_call (\<lambda>_. sbind os_call (\<lambda>_.
        smod (\<lambda>w. w\<lparr>w_bytes_written := valid_bytes\<rparr>))))))) w
      else (Inr (), w))"

definition wal_set_lsn :: "nat \<Rightarrow> wal \<Rightarrow> wal" where
  "wal_set_lsn n w = w\<lparr>w_lsn := max (w_lsn w) n\<rparr>"

section \<open>Appending\<close>

definition append_payload :: "(bytes \<Rightarrow> u32) \<Rightarrow> bytes \<Rightarrow> nat wal_op" where
  "append_payload crc payload =
     (if length payload > MAX_RECORD_BYTES then serr Full
      else
        sbind wal_writer (\<lambda>_.
        sbind (buf_write (to_le 4 (length payload))) (\<lambda>_.
        sbind (buf_write (to_le 4 (unat (crc payload)))) (\<lambda>_.
        sbind (buf_write payload) (\<lambda>_.
        sbind (smod (\<lambda>w.
            let framed = 8 + length payload
            in w\<lparr>w_bytes_written := w_bytes_written w + framed,
                w_appended := w_appended w + framed, w_lsn := w_lsn w + 1\<rparr>)) (\<lambda>_.
        sbind sget (\<lambda>w. sret (w_lsn w))))))))"

definition wal_append ::
  "(bytes \<Rightarrow> u32) \<Rightarrow> (wal_record \<Rightarrow> bytes res) \<Rightarrow> wal_record \<Rightarrow> nat wal_op" where
  "wal_append crc ser r = sbind (slift (ser r)) (append_payload crc)"

definition wal_sync :: "unit wal_op" where
  "wal_sync =
     sbind wal_writer (\<lambda>_. sbind buf_flush (\<lambda>_. sbind os_call (\<lambda>_.
     smod (\<lambda>w. w\<lparr>w_syncs := w_syncs w + 1\<rparr>))))"

definition wal_commit ::
  "(bytes \<Rightarrow> u32) \<Rightarrow> (wal_record \<Rightarrow> bytes res) \<Rightarrow> nat \<Rightarrow> nat \<Rightarrow> nat wal_op" where
  "wal_commit crc ser txn_id commit_ts =
     sbind (wal_append crc ser (Commit txn_id commit_ts)) (\<lambda>n.
     sbind wal_sync (\<lambda>_. sret n))"

fun write_record :: "nat \<Rightarrow> logged_write \<Rightarrow> wal_record" where
  "write_record txn_id (key, Some v) = Insert txn_id key v"
| "write_record txn_id (key, None) = Delete txn_id key"

definition log_commit ::
  "(bytes \<Rightarrow> u32) \<Rightarrow> (wal_record \<Rightarrow> bytes res) \<Rightarrow> nat \<Rightarrow> nat \<Rightarrow> logged_write list \<Rightarrow> bool \<Rightarrow> nat wal_op" where
  "log_commit crc ser txn_id commit_ts writes sync =
     sbind (smapM (\<lambda>kv. sbind (wal_append crc ser (write_record txn_id kv)) (\<lambda>_. sret ())) writes) (\<lambda>_.
     sbind (wal_append crc ser (Commit txn_id commit_ts)) (\<lambda>n.
     sbind (if sync then wal_sync else sbind wal_writer (\<lambda>_. buf_flush)) (\<lambda>_.
     sret n)))"

section \<open>Rewriting the log\<close>

text \<open>
  The log that \<open>reset\<close> builds in a temporary file, as a fresh \<open>Wal\<close> value that shares the
  environment's outcomes.
\<close>

definition build_fresh ::
  "(bytes \<Rightarrow> u32) \<Rightarrow> (wal_record \<Rightarrow> bytes res) \<Rightarrow> nat \<Rightarrow> retained_commit list \<Rightarrow> unit wal_op" where
  "build_fresh crc ser tree_ts retained =
     sbind (wal_append crc ser (Checkpoint tree_ts)) (\<lambda>_.
     sbind (smapM (\<lambda>c.
         sbind (log_commit crc ser (rc_txn_id c) (rc_commit_ts c) (rc_writes c) False) (\<lambda>_. sret ()))
       retained) (\<lambda>_.
     wal_sync))"

definition reset_swap :: "bytes \<Rightarrow> nat \<Rightarrow> nat \<Rightarrow> nat \<Rightarrow> unit wal_op" where
  "reset_swap fresh_disk fresh_lsn fresh_syncs fresh_appended w =
     (let w = w\<lparr>w_open := False, w_buf := []\<rparr>;
          (renamed, w) = os_call w;
          w = (case renamed of Inr _ \<Rightarrow> w\<lparr>w_disk := fresh_disk\<rparr> | Inl _ \<Rightarrow> w)
      in case os_call w of
           (Inl e, w) \<Rightarrow> (Inl e, w)
         | (Inr _, w) \<Rightarrow>
             let w = w\<lparr>w_open := True, w_bytes_written := length (w_disk w)\<rparr>
             in (case renamed of
                   Inl _ \<Rightarrow> (Inl Io, w)
                 | Inr _ \<Rightarrow>
                     (Inr (), w\<lparr>w_lsn := fresh_lsn, w_syncs := w_syncs w + fresh_syncs,
                        w_appended := w_appended w + fresh_appended\<rparr>)))"

definition wal_reset ::
  "(bytes \<Rightarrow> u32) \<Rightarrow> (wal_record \<Rightarrow> bytes res) \<Rightarrow> nat \<Rightarrow> retained_commit list \<Rightarrow> unit wal_op" where
  "wal_reset crc ser tree_ts retained =
     sbind wal_writer (\<lambda>_. sbind buf_flush (\<lambda>_.
     if retained = [] then
       sbind os_call (\<lambda>_. sbind (smod (\<lambda>w. w\<lparr>w_disk := []\<rparr>)) (\<lambda>_.
       sbind os_call (\<lambda>_. sbind os_call (\<lambda>_.
       sbind (smod (\<lambda>w. w\<lparr>w_bytes_written := 0\<rparr>)) (\<lambda>_.
       sbind (wal_append crc ser (Checkpoint tree_ts)) (\<lambda>_.
       wal_sync))))))
     else
       sbind os_call (\<lambda>_ w.
         let fresh = \<lparr>w_disk = [], w_buf = [], w_open = True, w_bytes_written = 0, w_lsn = w_lsn w,
                      w_syncs = 0, w_appended = 0, w_io = w_io w\<rparr>;
             (built, fresh) = build_fresh crc ser tree_ts retained fresh;
             w = w\<lparr>w_io := w_io fresh\<rparr>
         in case built of
              Inl e \<Rightarrow> (Inl e, w)
            | Inr _ \<Rightarrow>
                reset_swap (w_disk fresh) (w_lsn fresh) (w_syncs fresh) (w_appended fresh) w)))"

definition wal_checkpoint ::
  "(bytes \<Rightarrow> u32) \<Rightarrow> (wal_record \<Rightarrow> bytes res) \<Rightarrow> nat \<Rightarrow> unit wal_op" where
  "wal_checkpoint crc ser tree_ts = wal_reset crc ser tree_ts []"

section \<open>Recovery\<close>

definition wal_unframe ::
  "(bytes \<Rightarrow> u32) \<Rightarrow> (bytes \<Rightarrow> wal_record option) \<Rightarrow> bytes \<Rightarrow> (wal_record \<times> nat) option" where
  "wal_unframe crc deser bs =
     (if length bs < 8 then None
      else
        let len = read_le bs 0 4; sum = read_le bs 4 4 in
        if len = 0 \<or> len > MAX_RECORD_BYTES then None
        else if 8 + len > length bs then None
        else
          let payload = bslice bs 8 len in
          if unat (crc payload) \<noteq> sum then None
          else (case deser payload of None \<Rightarrow> None | Some r \<Rightarrow> Some (r, 8 + len)))"

text \<open>The first pass: which transactions committed, and when.\<close>

record pass1 =
  p1_commits :: "(nat, nat) bmap"
  p1_rolled_back :: "nat list"
  p1_max_commit_ts :: nat
  p1_checkpoint :: "nat option"
  p1_max_txn_id :: nat

definition pass1_init :: pass1 where
  "pass1_init =
     \<lparr>p1_commits = [], p1_rolled_back = [], p1_max_commit_ts = 0, p1_checkpoint = None,
      p1_max_txn_id = 0\<rparr>"

definition pass1_step :: "wal_record \<Rightarrow> pass1 \<Rightarrow> pass1" where
  "pass1_step r st =
     (let st = (case r of
            Commit t ts \<Rightarrow>
              st\<lparr>p1_commits := bm_put t ts (p1_commits st),
                 p1_max_commit_ts := max (p1_max_commit_ts st) ts\<rparr>
          | Rollback t \<Rightarrow> st\<lparr>p1_rolled_back := t # p1_rolled_back st\<rparr>
          | Checkpoint ts \<Rightarrow>
              st\<lparr>p1_checkpoint :=
                Some (case p1_checkpoint st of None \<Rightarrow> ts | Some t \<Rightarrow> max t ts)\<rparr>
          | _ \<Rightarrow> st)
      in case record_txn_id r of
           Some t \<Rightarrow> st\<lparr>p1_max_txn_id := max (p1_max_txn_id st) t\<rparr>
         | None \<Rightarrow> st)"

definition push_op ::
  "nat \<Rightarrow> recovered_op \<Rightarrow> (nat, recovered_op list) bmap \<Rightarrow> (nat, recovered_op list) bmap" where
  "push_op t x m =
     bm_put t ((case bm_get m t of None \<Rightarrow> [] | Some xs \<Rightarrow> xs) @ [x]) m"

text \<open>The second pass: the operations of committed transactions, in log order.\<close>

definition pass2_step ::
  "pass1 \<Rightarrow> wal_record \<Rightarrow> (nat, recovered_op list) bmap \<Rightarrow> (nat, recovered_op list) bmap" where
  "pass2_step st r m =
     (let live = (\<lambda>t. bm_get (p1_commits st) t \<noteq> None \<and> t \<notin> set (p1_rolled_back st)) in
      case r of
        Insert t k v \<Rightarrow> if live t then push_op t (RInsert k v) m else m
      | Delete t k \<Rightarrow> if live t then push_op t (RDelete k) m else m
      | _ \<Rightarrow> m)"

text \<open>
  \<open>hash_order\<close> is the order in which the \<open>HashMap\<close> of transactions is iterated, which Rust
  leaves unspecified. The final sort is stable, by commit timestamp.
\<close>

definition recover_records ::
  "((nat \<times> recovered_op list) list \<Rightarrow> (nat \<times> recovered_op list) list) \<Rightarrow>
     wal_record list \<Rightarrow> pass1 \<times> (nat \<times> recovered_op list) list" where
  "recover_records hash_order records =
     (let st = fold pass1_step records pass1_init;
          per_txn = fold (pass2_step st) records [];
          committed = List.map_filter (\<lambda>(t, xs).
            case bm_get (p1_commits st) t of None \<Rightarrow> None | Some ts \<Rightarrow> Some (ts, xs))
            (hash_order per_txn)
      in (st, sort_key fst committed))"

definition wal_recover ::
  "(bytes \<Rightarrow> u32) \<Rightarrow> (bytes \<Rightarrow> wal_record option) \<Rightarrow>
     ((nat \<times> recovered_op list) list \<Rightarrow> (nat \<times> recovered_op list) list) \<Rightarrow>
     bytes option \<Rightarrow> recovery" where
  "wal_recover crc deser hash_order file =
     (case file of
        None \<Rightarrow> recovery_default
      | Some bs \<Rightarrow>
          if length bs = 0 then recovery_default
          else
            let (records, good) = scan_frames (wal_unframe crc deser) bs;
                (st, committed) = recover_records hash_order records
            in \<lparr>r_committed = committed, r_max_txn_id = p1_max_txn_id st,
                r_max_commit_ts = p1_max_commit_ts st, r_truncated_bytes = length bs - good,
                r_valid_bytes = good, r_checkpoint_ts = p1_checkpoint st\<rparr>)"

end
