(* ===== verification/Wal_Props.thy ===== *)
theory Wal_Props
  imports Wal "HOL-Library.Multiset"
begin

text \<open>
  Correctness of the log. Its frames satisfy the \<open>frame_log\<close> contract, so recovery after a
  crash that cut the file at any byte sees the records of the complete frames. The two
  passes of recovery then return, for every transaction with a \<open>Commit\<close> and no
  \<open>Rollback\<close>, all its writes in log order, ordered by commit timestamp.
\<close>

section \<open>Frames\<close>

definition wal_frame :: "(bytes \<Rightarrow> u32) \<Rightarrow> (wal_record \<Rightarrow> bytes res) \<Rightarrow> wal_record \<Rightarrow> bytes" where
  "wal_frame crc ser r =
     (case ser r of
        Inl _ \<Rightarrow> []
      | Inr b \<Rightarrow> to_le 4 (length b) @ to_le 4 (unat (crc b)) @ b)"

definition wal_record_ok ::
  "(wal_record \<Rightarrow> bytes res) \<Rightarrow> (bytes \<Rightarrow> wal_record option) \<Rightarrow> wal_record \<Rightarrow> bool" where
  "wal_record_ok ser deser r \<longleftrightarrow>
     (case ser r of
        Inl _ \<Rightarrow> False
      | Inr b \<Rightarrow> b \<noteq> [] \<and> length b \<le> MAX_RECORD_BYTES \<and> deser b = Some r)"

lemma frame_fields:
  assumes "length b \<le> MAX_RECORD_BYTES"
  shows "read_le (to_le 4 (length b) @ to_le 4 (unat (crc b :: u32)) @ b @ rest) 0 4 = length b"
    "read_le (to_le 4 (length b) @ to_le 4 (unat (crc b)) @ b @ rest) 4 4 = unat (crc b)"
    "bslice (to_le 4 (length b) @ to_le 4 (unat (crc b)) @ b @ rest) 8 (length b) = b"
proof -
  have "length b < 256 ^ 4" using assms by (simp add: MAX_RECORD_BYTES_def)
  then show "read_le (to_le 4 (length b) @ to_le 4 (unat (crc b :: u32)) @ b @ rest) 0 4 = length b"
    by (simp add: read_le_def bslice_def le_simps)
  have "unat (crc b) < 256 ^ 4" using unsigned_less [of "crc b"] by simp
  then show "read_le (to_le 4 (length b) @ to_le 4 (unat (crc b)) @ b @ rest) 4 4 = unat (crc b)"
    by (simp add: read_le_def bslice_def le_simps)
  show "bslice (to_le 4 (length b) @ to_le 4 (unat (crc b)) @ b @ rest) 8 (length b) = b"
    by (simp add: bslice_def)
qed

lemma unframe_frame:
  assumes "wal_record_ok ser deser r"
  shows "wal_unframe crc deser (wal_frame crc ser r @ rest) = Some (r, length (wal_frame crc ser r))"
proof -
  obtain b where b: "ser r = Inr b" "b \<noteq> []" "length b \<le> MAX_RECORD_BYTES" "deser b = Some r"
    using assms by (auto simp: wal_record_ok_def split: sum.splits)
  note f = frame_fields [OF b(3), of crc rest]
  show ?thesis
    using b f by (simp add: wal_unframe_def wal_frame_def Let_def)
qed

lemma unframe_short:
  assumes "wal_record_ok ser deser r" "n < length (wal_frame crc ser r)"
  shows "wal_unframe crc deser (take n (wal_frame crc ser r)) = None"
proof -
  obtain b where b: "ser r = Inr b" "b \<noteq> []" "length b \<le> MAX_RECORD_BYTES" "deser b = Some r"
    using assms by (auto simp: wal_record_ok_def split: sum.splits)
  show ?thesis
  proof (cases "n < 8")
    case False
    have n: "n < 8 + length b" using assms(2) b(1) by (simp add: wal_frame_def)
    have "take n (wal_frame crc ser r) =
        to_le 4 (length b) @ to_le 4 (unat (crc b)) @ take (n - 8) b"
      using False b(1) by (simp add: wal_frame_def)
    moreover have "length b < 256 ^ 4" using b(3) by (simp add: MAX_RECORD_BYTES_def)
    then have "read_le (to_le 4 (length b) @ to_le 4 (unat (crc b)) @ take (n - 8) b) 0 4 = length b"
      by (simp add: read_le_def bslice_def le_simps)
    ultimately show ?thesis using n False by (simp add: wal_unframe_def Let_def)
  qed (simp add: wal_unframe_def min_def)
qed

interpretation wal_log: frame_log "wal_frame crc ser" "wal_unframe crc deser" "wal_record_ok ser deser"
  for crc ser deser
proof
  fix r assume "wal_record_ok ser deser r"
  then show "wal_frame crc ser r \<noteq> []"
    by (auto simp: wal_record_ok_def wal_frame_def split: sum.splits)
qed (rule unframe_frame unframe_short; assumption)+

section \<open>Appending\<close>

definition log_bytes :: "wal \<Rightarrow> bytes" where
  "log_bytes w = w_disk w @ w_buf w"

lemma io_next_frame:
  "io_next w = (x, w') \<Longrightarrow> w_disk w' = w_disk w \<and> w_buf w' = w_buf w \<and> w_open w' = w_open w"
  by (auto simp: io_next_def split: list.splits)

lemma os_call_log: "os_call w = (r, w') \<Longrightarrow> log_bytes w' = log_bytes w \<and> w_buf w' = w_buf w"
  by (auto simp: os_call_def log_bytes_def dest!: io_next_frame split: prod.splits option.splits)

lemma wal_writer_log: "wal_writer w = (r, w') \<Longrightarrow> w' = w"
  by (auto simp: wal_writer_def split: if_splits)

lemma buf_write_ok: "buf_write bs w = (Inr u, w') \<Longrightarrow> log_bytes w' = log_bytes w @ bs"
  by (auto simp: buf_write_def log_bytes_def dest!: io_next_frame split: prod.splits option.splits)

lemma buf_flush_ok: "buf_flush w = (Inr u, w') \<Longrightarrow> log_bytes w' = log_bytes w \<and> w_buf w' = []"
  by (auto simp: buf_flush_def res_simps log_bytes_def dest!: os_call_log)

lemma append_payload_ok:
  "append_payload crc b w = (Inr n, w') \<Longrightarrow>
     log_bytes w' = log_bytes w @ to_le 4 (length b) @ to_le 4 (unat (crc b)) @ b"
  by (auto simp: append_payload_def res_simps Let_def log_bytes_def [of "w_lsn_update _ _"]
      dest!: buf_write_ok wal_writer_log split: if_splits)
    (simp add: log_bytes_def)

lemma wal_append_ok:
  "wal_append crc ser r w = (Inr n, w') \<Longrightarrow> log_bytes w' = log_bytes w @ wal_frame crc ser r"
  by (auto simp: wal_append_def res_simps wal_frame_def dest!: append_payload_ok)

lemma wal_sync_ok: "wal_sync w = (Inr u, w') \<Longrightarrow> log_bytes w' = log_bytes w \<and> w_buf w' = []"
  by (auto simp: wal_sync_def res_simps log_bytes_def dest!: wal_writer_log buf_flush_ok os_call_log)

definition commit_records :: "nat \<Rightarrow> nat \<Rightarrow> logged_write list \<Rightarrow> wal_record list" where
  "commit_records t ts ws = map (write_record t) ws @ [Commit t ts]"

lemma smapM_append_ok:
  "smapM (\<lambda>kv. sbind (wal_append crc ser (write_record t kv)) (\<lambda>_. sret ())) ws w = (Inr u, w') \<Longrightarrow>
     log_bytes w' = log_bytes w @ concat (map (wal_frame crc ser) (map (write_record t) ws))"
proof (induction ws arbitrary: w)
  case Nil
  then show ?case by simp
next
  case (Cons kv ws)
  then show ?case by (auto simp: res_simps dest!: wal_append_ok)
qed

lemma log_commit_ok:
  assumes "log_commit crc ser t ts ws sync w = (Inr n, w')"
  shows "log_bytes w' = log_bytes w @ concat (map (wal_frame crc ser) (commit_records t ts ws))"
    and "w_buf w' = []"
proof -
  from assms have "log_bytes w' = log_bytes w @ concat (map (wal_frame crc ser) (commit_records t ts ws))
      \<and> w_buf w' = []"
    by (auto simp: log_commit_def res_simps commit_records_def split: if_splits
        dest!: smapM_append_ok wal_append_ok wal_sync_ok wal_writer_log buf_flush_ok)
  then show "log_bytes w' = log_bytes w @ concat (map (wal_frame crc ser) (commit_records t ts ws))"
    and "w_buf w' = []" by auto
qed

section \<open>What the two passes compute\<close>

fun commit_of :: "wal_record list \<Rightarrow> nat \<Rightarrow> nat option" where
  "commit_of [] t = None"
| "commit_of (r # rs) t =
     (case commit_of rs t of
        Some ts \<Rightarrow> Some ts
      | None \<Rightarrow> (case r of Commit t' ts \<Rightarrow> if t' = t then Some ts else None | _ \<Rightarrow> None))"

fun ops_of :: "nat \<Rightarrow> wal_record list \<Rightarrow> recovered_op list" where
  "ops_of t [] = []"
| "ops_of t (Insert t' k v # rs) = (if t' = t then RInsert k v # ops_of t rs else ops_of t rs)"
| "ops_of t (Delete t' k # rs) = (if t' = t then RDelete k # ops_of t rs else ops_of t rs)"
| "ops_of t (r # rs) = ops_of t rs"

lemma ops_of_append: "ops_of t (xs @ ys) = ops_of t xs @ ops_of t ys"
  by (induction t xs rule: ops_of.induct) auto

lemma commit_of_append:
  "commit_of (xs @ ys) t = (case commit_of ys t of Some ts \<Rightarrow> Some ts | None \<Rightarrow> commit_of xs t)"
  by (induction xs) (auto split: option.splits)

lemma pass1_step_fields:
  "bm_get (p1_commits (pass1_step r st)) t =
     (case r of Commit t' ts \<Rightarrow> if t = t' then Some ts else bm_get (p1_commits st) t
      | _ \<Rightarrow> bm_get (p1_commits st) t)"
  "set (p1_rolled_back (pass1_step r st)) =
     (case r of Rollback t' \<Rightarrow> {t'} | _ \<Rightarrow> {}) \<union> set (p1_rolled_back st)"
  by (cases r; simp add: pass1_step_def Let_def split: option.splits)+

lemma pass1_commits:
  "bm_get (p1_commits (fold pass1_step rs st)) t =
     (case commit_of rs t of Some ts \<Rightarrow> Some ts | None \<Rightarrow> bm_get (p1_commits st) t)"
proof (induction rs arbitrary: st)
  case Nil
  then show ?case by simp
next
  case (Cons r rs)
  show ?case
    by (simp add: Cons.IH pass1_step_fields split: option.splits wal_record.splits)
qed

lemma pass1_rolled_back:
  "t \<in> set (p1_rolled_back (fold pass1_step rs st)) \<longleftrightarrow>
     Rollback t \<in> set rs \<or> t \<in> set (p1_rolled_back st)"
  by (induction rs arbitrary: st) (auto simp: pass1_step_fields split: wal_record.splits)

definition live_txn :: "wal_record list \<Rightarrow> nat \<Rightarrow> bool" where
  "live_txn rs t \<longleftrightarrow> commit_of rs t \<noteq> None \<and> Rollback t \<notin> set rs"

lemma push_op_get:
  "bm_get (push_op t x m) t' =
     (if t' = t then Some ((case bm_get m t of None \<Rightarrow> [] | Some xs \<Rightarrow> xs) @ [x]) else bm_get m t')"
  by (simp add: push_op_def)

lemma push_op_ok: "bm_ok m \<Longrightarrow> bm_ok (push_op t x m)"
  by (simp add: push_op_def)

lemma pass2_fold:
  fixes st :: pass1
  defines "live \<equiv> \<lambda>t. bm_get (p1_commits st) t \<noteq> None \<and> t \<notin> set (p1_rolled_back st)"
  assumes "bm_ok m" "\<And>t xs. bm_get m t = Some xs \<Longrightarrow> xs \<noteq> []"
  shows "bm_ok (fold (pass2_step st) rs m) \<and>
     bm_get (fold (pass2_step st) rs m) t =
       (let xs = (case bm_get m t of None \<Rightarrow> [] | Some ys \<Rightarrow> ys) @ (if live t then ops_of t rs else [])
        in if xs = [] then None else Some xs)"
  using assms(2,3)
proof (induction rs arbitrary: m)
  case Nil
  then show ?case by (auto split: option.splits)
next
  case (Cons r rs)
  have ok: "bm_ok (pass2_step st r m)"
    using Cons.prems(1) by (auto simp: pass2_step_def Let_def push_op_ok split: wal_record.splits)
  have ne: "bm_get (pass2_step st r m) t = Some xs \<Longrightarrow> xs \<noteq> []" for t xs
    using Cons.prems(2)
    by (auto simp: pass2_step_def Let_def push_op_get split: wal_record.splits if_splits)
  show ?case
    using Cons.IH [OF ok ne]
    by (cases r)
      (auto simp: pass2_step_def Let_def push_op_get live_def split: option.splits)
qed

definition per_txn :: "wal_record list \<Rightarrow> (nat, recovered_op list) bmap" where
  "per_txn rs = fold (pass2_step (fold pass1_step rs pass1_init)) rs []"

lemma per_txn_ok: "bm_ok (per_txn rs)"
  unfolding per_txn_def using pass2_fold [of "[]"] by simp

lemma per_txn_get:
  "bm_get (per_txn rs) t = (if live_txn rs t \<and> ops_of t rs \<noteq> [] then Some (ops_of t rs) else None)"
proof -
  let ?st = "fold pass1_step rs pass1_init"
  have "(bm_get (p1_commits ?st) t \<noteq> None \<and> t \<notin> set (p1_rolled_back ?st)) = live_txn rs t"
    by (simp add: pass1_commits pass1_rolled_back pass1_init_def live_txn_def split: option.splits)
  then show ?thesis
    unfolding per_txn_def using pass2_fold [of "[]" ?st rs t] by (auto simp: Let_def)
qed

text \<open>Replay entry of a transaction: its commit timestamp with its operations.\<close>

definition replay_entry :: "wal_record list \<Rightarrow> nat \<times> recovered_op list \<Rightarrow> nat \<times> recovered_op list" where
  "replay_entry rs e = (the (commit_of rs (fst e)), snd e)"

lemma recover_records_eq:
  assumes "mset (hash_order (per_txn rs)) = mset (per_txn rs)"
  shows "snd (recover_records hash_order rs) = sort_key fst (map (replay_entry rs) (hash_order (per_txn rs)))"
proof -
  let ?st = "fold pass1_step rs pass1_init"
  let ?f = "\<lambda>(t, xs). case bm_get (p1_commits ?st) t of None \<Rightarrow> None | Some ts \<Rightarrow> Some (ts, xs)"
  have "List.map_filter ?f (hash_order (per_txn rs)) = map (replay_entry rs) (hash_order (per_txn rs))"
  proof -
    have f: "?f e = Some (replay_entry rs e)" if "e \<in> set (hash_order (per_txn rs))" for e
    proof -
      obtain t xs where e: "e = (t, xs)" by (cases e)
      have "e \<in> set (per_txn rs)" using that assms by (metis set_mset_mset)
      then have "bm_get (per_txn rs) t = Some xs" by (simp add: e bm_get_Some_iff [OF per_txn_ok])
      then have "commit_of rs t \<noteq> None" by (auto simp: per_txn_get live_txn_def split: if_splits)
      then show ?thesis
        by (auto simp: e replay_entry_def pass1_commits pass1_init_def)
    qed
    then have "List.map_filter ?f ys = map (replay_entry rs) ys"
      if "set ys \<subseteq> set (hash_order (per_txn rs))" for ys
      using that by (induction ys) (auto simp: map_filter_simps)
    then show ?thesis by simp
  qed
  then show ?thesis by (simp add: recover_records_def Let_def per_txn_def)
qed

lemma recover_records_set:
  assumes "mset (hash_order (per_txn rs)) = mset (per_txn rs)"
  shows "(ts, xs) \<in> set (snd (recover_records hash_order rs)) \<longleftrightarrow>
     (\<exists>t. commit_of rs t = Some ts \<and> Rollback t \<notin> set rs \<and> xs = ops_of t rs \<and> xs \<noteq> [])"
proof -
  have "set (hash_order (per_txn rs)) = set (per_txn rs)" using assms by (metis set_mset_mset)
  then have "(ts, xs) \<in> set (snd (recover_records hash_order rs)) \<longleftrightarrow>
      (\<exists>t. bm_get (per_txn rs) t = Some xs \<and> ts = the (commit_of rs t))"
    by (auto simp: recover_records_eq [of hash_order rs, OF assms] replay_entry_def image_iff
        bm_get_Some_iff [OF per_txn_ok]) force
  then show ?thesis by (auto simp: per_txn_get live_txn_def split: if_splits)
qed

lemma recover_records_sorted:
  "mset (hash_order (per_txn rs)) = mset (per_txn rs) \<Longrightarrow>
     sorted (map fst (snd (recover_records hash_order rs)))"
  by (simp add: recover_records_eq)

section \<open>Logs written by \<open>log_commit\<close>\<close>

type_synonym logged_txn = "nat \<times> nat \<times> logged_write list"

fun op_of_write :: "logged_write \<Rightarrow> recovered_op" where
  "op_of_write (k, Some v) = RInsert k v"
| "op_of_write (k, None) = RDelete k"

definition txn_records :: "logged_txn list \<Rightarrow> wal_record list" where
  "txn_records T = concat (map (\<lambda>(t, ts, ws). commit_records t ts ws) T)"

definition txn_entry :: "logged_txn \<Rightarrow> nat \<times> recovered_op list" where
  "txn_entry e = (case e of (t, ts, ws) \<Rightarrow> (ts, map op_of_write ws))"

lemma txn_records_simps [simp]:
  "txn_records [] = []"
  "txn_records ((t, ts, ws) # T) = commit_records t ts ws @ txn_records T"
  by (simp_all add: txn_records_def)

lemma txn_records_append: "txn_records (T @ T') = txn_records T @ txn_records T'"
  by (simp add: txn_records_def)

lemma writes_ops: "ops_of t (map (write_record t') ws) = (if t = t' then map op_of_write ws else [])"
proof (induction ws)
  case (Cons kv ws)
  then show ?case by (cases "(t', kv)" rule: write_record.cases) auto
qed simp

lemma writes_commit: "commit_of (map (write_record t') ws) t = None"
proof (induction ws)
  case (Cons kv ws)
  then show ?case by (cases "(t', kv)" rule: write_record.cases) auto
qed simp

lemma write_record_not_rollback: "write_record t' kv \<noteq> Rollback t"
  by (cases "(t', kv)" rule: write_record.cases) auto

lemma writes_no_rollback: "Rollback t \<notin> set (map (write_record t') ws)"
  by (auto dest: sym simp: write_record_not_rollback)

lemma commit_records_view:
  "ops_of t (commit_records t' ts ws) = (if t = t' then map op_of_write ws else [])"
  "commit_of (commit_records t' ts ws) t = (if t = t' then Some ts else None)"
  "Rollback t \<notin> set (commit_records t' ts ws)"
  using writes_no_rollback [of t t' ws]
  by (auto simp: commit_records_def ops_of_append writes_ops commit_of_append writes_commit)

lemma txn_records_none:
  "t \<notin> fst ` set T \<Longrightarrow> ops_of t (txn_records T) = [] \<and> commit_of (txn_records T) t = None"
  by (induction T) (auto simp: ops_of_append commit_of_append commit_records_view)

lemma txn_records_view:
  "distinct (map fst T) \<Longrightarrow> (t, ts, ws) \<in> set T \<Longrightarrow>
     ops_of t (txn_records T) = map op_of_write ws \<and> commit_of (txn_records T) t = Some ts"
proof (induction T)
  case (Cons e T)
  obtain t' ts' ws' where e: "e = (t', ts', ws')" by (cases e)
  show ?case
  proof (cases "t = t'")
    case True
    with Cons.prems have "ts = ts'" "ws = ws'" "t' \<notin> fst ` set T" by (auto simp: e) (force+)
    with True show ?thesis
      using txn_records_none [of t' T]
      by (simp add: e ops_of_append commit_of_append commit_records_view)
  next
    case False
    with Cons show ?thesis
      by (simp add: e ops_of_append commit_of_append commit_records_view)
  qed
qed simp

lemma txn_records_no_rollback: "Rollback t \<notin> set (txn_records T)"
  by (induction T) (auto simp: commit_records_view)

lemma alist_mset_eq:
  assumes "distinct (map fst xs)" "distinct (map fst ys)" "map_of xs = map_of ys"
  shows "mset xs = mset ys"
proof -
  have "set xs = set ys" using assms by (simp add: map_of_inject_set)
  moreover have "distinct xs" "distinct ys" using assms(1,2) by (simp_all add: distinct_map)
  ultimately show ?thesis by (simp add: set_eq_iff_mset_eq_distinct)
qed

lemma sort_key_unique:
  assumes "mset xs = mset ys" "sorted (map f ys)" "distinct (map f ys)"
  shows "sort_key f xs = ys"
proof (rule map_sorted_distinct_set_unique [where f = f])
  show eq: "set (sort_key f xs) = set ys" using assms(1) by (metis set_mset_mset set_sort)
  show "inj_on f (set (sort_key f xs) \<union> set ys)" using assms(3) by (simp only: eq) (simp add: distinct_map)
  have "mset (map f (sort_key f xs)) = mset (map f ys)" by (simp add: assms(1))
  then show "distinct (map f (sort_key f xs))" using assms(3) mset_eq_imp_distinct_iff by blast
qed (use assms in auto)

text \<open>
  A log that holds the transactions \<open>T\<close> completely and then some writes of one more
  transaction replays exactly \<open>T\<close>, in commit order.
\<close>

lemma recover_txns:
  assumes "distinct (map fst T)" "sorted_wrt (<) (map (fst \<circ> snd) T)" "\<forall>(t, ts, ws) \<in> set T. ws \<noteq> []"
    and "u \<notin> fst ` set T" "\<And>xs. mset (hash_order xs) = mset xs"
  shows "snd (recover_records hash_order (txn_records T @ map (write_record u) part)) = map txn_entry T"
proof -
  let ?rs = "txn_records T @ map (write_record u) part"
  have ops: "ops_of t ?rs = map op_of_write ws" "commit_of ?rs t = Some ts" if "(t, ts, ws) \<in> set T" for t ts ws
    using txn_records_view [OF assms(1) that] assms(4) that
    by (auto simp: ops_of_append commit_of_append writes_ops writes_commit image_iff)
  have none: "commit_of ?rs t = None" if "t \<notin> fst ` set T" for t
    using txn_records_none [OF that] by (simp add: commit_of_append writes_commit)
  have nrb: "Rollback t \<notin> set ?rs" for t
    using txn_records_no_rollback writes_no_rollback by auto
  have keys: "map fst (map (\<lambda>(t, ts, ws). (t, map op_of_write ws)) T) = map fst T" by (induction T) auto
  have get: "bm_get (per_txn ?rs) t = map_of (map (\<lambda>(t, ts, ws). (t, map op_of_write ws)) T) t" for t
  proof (cases "t \<in> fst ` set T")
    case True
    then obtain ts ws where m: "(t, ts, ws) \<in> set T" by force
    then have "ws \<noteq> []" using assms(3) by auto
    moreover have "map_of (map (\<lambda>(t, ts, ws). (t, map op_of_write ws)) T) t = Some (map op_of_write ws)"
    proof (rule map_of_is_SomeI)
      show "distinct (map fst (map (\<lambda>(t, ts, ws). (t, map op_of_write ws)) T))"
        by (simp only: keys assms(1))
      show "(t, map op_of_write ws) \<in> set (map (\<lambda>(t, ts, ws). (t, map op_of_write ws)) T)"
        using m by force
    qed
    ultimately show ?thesis using ops [OF m] nrb by (simp add: per_txn_get live_txn_def)
  next
    case False
    then have "map_of (map (\<lambda>(t, ts, ws). (t, map op_of_write ws)) T) t = None"
      by (auto simp: map_of_eq_None_iff image_iff)
    with none [OF False] show ?thesis by (simp add: per_txn_get live_txn_def)
  qed
  have "map_of (per_txn ?rs) = map_of (map (\<lambda>(t, ts, ws). (t, map op_of_write ws)) T)"
    using get by (simp add: bm_get_map_of fun_eq_iff)
  moreover have "distinct (map fst (per_txn ?rs))"
    using per_txn_ok [of ?rs] by (simp add: bm_ok_def strict_sorted_iff)
  moreover have "distinct (map fst (map (\<lambda>(t, ts, ws). (t, map op_of_write ws)) T))"
    by (simp only: keys assms(1))
  ultimately have "mset (per_txn ?rs) = mset (map (\<lambda>(t, ts, ws). (t, map op_of_write ws)) T)"
    by (rule alist_mset_eq [rotated -1])
  then have "mset (map (replay_entry ?rs) (hash_order (per_txn ?rs))) =
      mset (map (replay_entry ?rs) (map (\<lambda>(t, ts, ws). (t, map op_of_write ws)) T))"
    by (simp only: mset_map assms(5))
  also have "map (replay_entry ?rs) (map (\<lambda>(t, ts, ws). (t, map op_of_write ws)) T) = map txn_entry T"
    using ops by (auto simp: replay_entry_def txn_entry_def)
  finally have eq: "mset (map (replay_entry ?rs) (hash_order (per_txn ?rs))) = mset (map txn_entry T)" .
  have fsts: "map fst (map txn_entry T) = map (fst \<circ> snd) T" by (auto simp: txn_entry_def)
  have "sort_key fst (map (replay_entry ?rs) (hash_order (per_txn ?rs))) = map txn_entry T"
  proof (rule sort_key_unique [OF eq])
    show "sorted (map fst (map txn_entry T))" "distinct (map fst (map txn_entry T))"
      unfolding fsts using assms(2) by (simp_all only: strict_sorted_iff)
  qed
  then show ?thesis by (simp add: recover_records_eq [of hash_order ?rs, OF assms(5)])
qed

section \<open>Crash recovery\<close>

text \<open>A prefix of the records is some complete transactions and some writes of the next one.\<close>

lemma take_txn_records:
  "\<exists>m u part. m \<le> length T \<and> take k (txn_records T) = txn_records (take m T) @ map (write_record u) part \<and>
     (part = [] \<or> (m < length T \<and> u = fst (T ! m))) \<and>
     (\<forall>j \<le> length T. length (txn_records (take j T)) \<le> k \<longrightarrow> j \<le> m)"
proof (induction T arbitrary: k)
  case Nil
  show ?case by (rule exI [of _ 0], rule exI [of _ 0], rule exI [of _ "[]"]) simp
next
  case (Cons e T)
  obtain t ts ws where e: "e = (t, ts, ws)" by (cases e)
  show ?case
  proof (cases "length ws < k")
    case True
    let ?k = "k - length (commit_records t ts ws)"
    obtain m u part where IH: "m \<le> length T"
      "take ?k (txn_records T) = txn_records (take m T) @ map (write_record u) part"
      "part = [] \<or> (m < length T \<and> u = fst (T ! m))"
      "\<forall>j \<le> length T. length (txn_records (take j T)) \<le> ?k \<longrightarrow> j \<le> m"
      using Cons.IH [of ?k] by blast
    have "j \<le> Suc m" if "j \<le> length (e # T)" "length (txn_records (take j (e # T))) \<le> k" for j
      using that IH(4) by (cases j) (auto simp: e)
    moreover have "take k (txn_records (e # T)) = txn_records (take (Suc m) (e # T)) @ map (write_record u) part"
      using True IH(2) by (simp add: e commit_records_def take_Cons')
    ultimately show ?thesis
      using IH(1,3) by (intro exI [of _ "Suc m"] exI [of _ u] exI [of _ part]) auto
  next
    case False
    have "j = 0" if "length (txn_records (take j (e # T))) \<le> k" for j
      using that False by (cases j) (auto simp: e commit_records_def)
    moreover have "take k (txn_records (e # T)) = map (write_record t) (take k ws)"
      using False by (simp add: e commit_records_def take_map)
    ultimately show ?thesis
      by (intro exI [of _ 0] exI [of _ t] exI [of _ "take k ws"]) (auto simp: e)
  qed
qed

lemma recover_cut:
  assumes "distinct (map fst T)" "sorted_wrt (<) (map (fst \<circ> snd) T)" "\<forall>(t, ts, ws) \<in> set T. ws \<noteq> []"
    and ok: "\<forall>r \<in> set (txn_records T). wal_record_ok ser deser r"
    and perm: "\<And>xs. mset (hash_order xs) = mset xs"
  shows "\<exists>m \<le> length T.
     r_committed (wal_recover crc deser hash_order
       (Some (take n (concat (map (wal_frame crc ser) (txn_records T)))))) = map txn_entry (take m T) \<and>
     (\<forall>j \<le> length T.
        length (concat (map (wal_frame crc ser) (txn_records (take j T)))) \<le> n \<longrightarrow> j \<le> m)"
proof -
  let ?rs = "txn_records T"
  let ?log = "wal_log.log_of crc ser"
  have logdef: "concat (map (wal_frame crc ser) xs) = ?log xs" for xs by (simp add: wal_log.log_of_def)
  obtain k where k: "k \<le> length ?rs"
    "scan_frames (wal_unframe crc deser) (take n (?log ?rs)) = (take k ?rs, length (?log (take k ?rs)))"
    "\<And>j. j \<le> length ?rs \<Longrightarrow> length (?log (take j ?rs)) \<le> n \<Longrightarrow> j \<le> k"
    using wal_log.scan_log_cut [OF ok, where crc = crc and n = n] by blast
  obtain m u part where m: "m \<le> length T"
    "take k ?rs = txn_records (take m T) @ map (write_record u) part"
    "part = [] \<or> (m < length T \<and> u = fst (T ! m))"
    "\<forall>j \<le> length T. length (txn_records (take j T)) \<le> k \<longrightarrow> j \<le> m"
    using take_txn_records [of T k] by blast
  define v where "v = (if part = [] then Suc (Max (insert 0 (fst ` set T))) else u)"
  have wr: "map (write_record u) part = map (write_record v) part" by (simp add: v_def)
  have v: "v \<notin> fst ` set (take m T)"
  proof (cases "part = []")
    case True
    have "x < v" if "x \<in> fst ` set T" for x
      using that True by (simp add: v_def less_Suc_eq_le)
    then show ?thesis by (meson image_mono less_irrefl set_take_subset subsetD)
  next
    case False
    with m(3) have "m < length T" "v = fst (T ! m)" by (auto simp: v_def)
    moreover have "fst (T ! m) \<notin> set (take m (map fst T))"
      using assms(1) \<open>m < length T\<close>
      by (metis distinct_take id_take_nth_drop length_map not_distinct_conv_prefix nth_map
          append_take_drop_id distinct_append disjoint_iff hd_drop_conv_nth list.set_sel(1) drop_eq_Nil not_le)
    ultimately show ?thesis by (simp add: take_map flip: set_map)
  qed
  have rec: "snd (recover_records hash_order (take k ?rs)) = map txn_entry (take m T)"
    unfolding m(2) wr
  proof (rule recover_txns)
    show "distinct (map fst (take m T))" using assms(1) by (simp add: take_map [symmetric] distinct_take)
    show "sorted_wrt (<) (map (fst \<circ> snd) (take m T))"
      using assms(2) by (simp add: take_map [symmetric] sorted_wrt_take)
    show "\<forall>(t, ts, ws) \<in> set (take m T). ws \<noteq> []" using assms(3) by (auto dest: in_set_takeD)
  qed (use v perm in auto)
  have "r_committed (wal_recover crc deser hash_order (Some (take n (?log ?rs)))) = map txn_entry (take m T)"
  proof (cases "length (take n (?log ?rs)) = 0")
    case True
    then have "scan_frames (wal_unframe crc deser) (take n (?log ?rs)) = ([], 0)"
      by (simp add: scan_frames_None wal_unframe_def)
    then have "take k ?rs = []" using k(2) by simp
    then have "map txn_entry (take m T) = snd (recover_records hash_order [])" using rec by (simp only:)
    also have "\<dots> = []" using perm [of "[]"] by (simp add: recover_records_eq per_txn_def)
    finally show ?thesis using True by (simp add: wal_recover_def recovery_default_def)
  next
    case False
    with rec show ?thesis
      by (simp only: wal_recover_def option.case if_False k(2) Let_def split_beta fst_conv snd_conv
          recovery.select_convs)
  qed
  moreover have "j \<le> m" if j: "j \<le> length T" "length (?log (txn_records (take j T))) \<le> n" for j
  proof -
    have pre: "txn_records (take j T) = take (length (txn_records (take j T))) ?rs"
      by (metis append_eq_conv_conj append_take_drop_id txn_records_append)
    moreover have "length (txn_records (take j T)) \<le> length ?rs"
      using pre by (metis length_take min.cobounded1)
    ultimately have "length (txn_records (take j T)) \<le> k" using k(3) j(2) by metis
    with m(4) j(1) show ?thesis by blast
  qed
  ultimately show ?thesis using m(1) unfolding logdef by blast
qed

section \<open>Properties of the log\<close>

text \<open>A record encoding and a checksum that know the few records of the examples.\<close>

definition example_records :: "wal_record list" where
  "example_records = [Insert 3 [7] [8], Commit 3 5, Delete 4 [7], Commit 4 6, Rollback 4]"

definition example_ser :: "wal_record \<Rightarrow> bytes res" where
  "example_ser r =
     (case filter (\<lambda>i. example_records ! i = r) [0..<5] of
        [] \<Rightarrow> Inl Serialization
      | i # _ \<Rightarrow> Inr [of_nat i + 10])"

definition example_deser :: "bytes \<Rightarrow> wal_record option" where
  "example_deser bs =
     (case bs of [b] \<Rightarrow> if 10 \<le> b \<and> b < 15 then Some (example_records ! (unat b - 10)) else None | _ \<Rightarrow> None)"

definition example_crc :: "bytes \<Rightarrow> u32" where
  "example_crc bs = (case bs of [] \<Rightarrow> 0 | b # _ \<Rightarrow> ucast b + 1)"

definition example_txns :: "logged_txn list" where
  "example_txns = [(3, 5, [([7], Some [8])]), (4, 6, [([7], None)])]"

lemma example_ser_simps [simp]:
  "example_ser (Insert 3 [7] [8]) = Inr [10]" "example_ser (Commit 3 5) = Inr [11]"
  "example_ser (Delete 4 [7]) = Inr [12]" "example_ser (Commit 4 6) = Inr [13]"
  by (simp_all add: example_ser_def example_records_def upt_rec numeral_eq_Suc)

lemma example_deser_simps [simp]:
  "example_deser [10] = Some (Insert 3 [7] [8])" "example_deser [11] = Some (Commit 3 5)"
  "example_deser [12] = Some (Delete 4 [7])" "example_deser [13] = Some (Commit 4 6)"
  by (simp_all add: example_deser_def example_records_def)

lemma to_le_4:
  "to_le 4 n = [of_nat (n mod 256), of_nat (n div 256 mod 256), of_nat (n div 65536 mod 256),
     of_nat (n div 16777216 mod 256)]"
proof -
  have "to_le (Suc (Suc (Suc (Suc 0)))) n = [of_nat (n mod 256), of_nat (n div 256 mod 256),
      of_nat (n div 65536 mod 256), of_nat (n div 16777216 mod 256)]"
    by (simp only: to_le.simps div_mult2_eq [symmetric]) simp
  moreover have "Suc (Suc (Suc (Suc 0))) = 4" by simp
  ultimately show ?thesis by (simp only:)
qed

lemma example_txns_ok:
  "distinct (map fst example_txns)" "sorted_wrt (<) (map (fst \<circ> snd) example_txns)"
  "\<forall>(t, ts, ws) \<in> set example_txns. ws \<noteq> []"
  "\<forall>r \<in> set (txn_records example_txns). wal_record_ok example_ser example_deser r"
  by (simp_all add: example_txns_def commit_records_def wal_record_ok_def MAX_RECORD_BYTES_def)

text \<open>C2. Crash recovery. Let the log hold the complete transactions \<open>T\<close>, in commit order.
  If a crash cuts the file at any byte \<open>n\<close>, recovery replays a prefix of \<open>T\<close>, complete
  transactions only, and that prefix has every transaction whose frames lie before the cut. The
  record encoding round-trips and the hash map of transactions is iterated in any order.\<close>

theorem recovery_after_cut:
  assumes "distinct (map fst T)" "sorted_wrt (<) (map (fst \<circ> snd) T)" "\<forall>(t, ts, ws) \<in> set T. ws \<noteq> []"
    and "\<forall>r \<in> set (txn_records T). wal_record_ok ser deser r"
    and "\<And>xs. mset (hash_order xs) = mset xs"
  shows "\<exists>m \<le> length T.
     r_committed (wal_recover crc deser hash_order
       (Some (take n (concat (map (wal_frame crc ser) (txn_records T)))))) = map txn_entry (take m T) \<and>
     (\<forall>j \<le> length T.
        length (concat (map (wal_frame crc ser) (txn_records (take j T)))) \<le> n \<longrightarrow> j \<le> m)"
  using assms by (rule recover_cut)

theorem recovery_after_cut_witness:
  "\<exists>m \<le> 2. r_committed (wal_recover example_crc example_deser rev
       (Some (take 30 (concat (map (wal_frame example_crc example_ser) (txn_records example_txns)))))) =
     map txn_entry (take m example_txns) \<and> 1 \<le> m"
proof -
  have "length (concat (map (wal_frame example_crc example_ser) (txn_records (take 1 example_txns)))) \<le> 30"
    by (simp add: example_txns_def commit_records_def wal_frame_def)
  moreover have "length example_txns = 2" by (simp add: example_txns_def)
  ultimately show ?thesis
    using recovery_after_cut [OF example_txns_ok, of rev example_crc 30] by fastforce
qed

text \<open>C25. A successful \<open>log_commit\<close> is durable in the log: if the log held the complete
  transactions \<open>T\<close>, recovery of the file afterwards replays \<open>T\<close> and then exactly the writes
  of the new transaction, in their order, under its commit timestamp.\<close>

theorem log_commit_recovered:
  assumes "log_commit crc ser t ts ws sync w = (Inr n, w')"
    and "log_bytes w = concat (map (wal_frame crc ser) (txn_records T))"
    and "distinct (map fst (T @ [(t, ts, ws)]))" "sorted_wrt (<) (map (fst \<circ> snd) (T @ [(t, ts, ws)]))"
    and "\<forall>(t, ts, ws) \<in> set (T @ [(t, ts, ws)]). ws \<noteq> []"
    and "\<forall>r \<in> set (txn_records (T @ [(t, ts, ws)])). wal_record_ok ser deser r"
    and "\<And>xs. mset (hash_order xs) = mset xs"
  shows "r_committed (wal_recover crc deser hash_order (Some (w_disk w'))) =
     map txn_entry T @ [(ts, map op_of_write ws)]"
proof -
  define T' where "T' = T @ [(t, ts, ws)]"
  have disk: "w_disk w' = concat (map (wal_frame crc ser) (txn_records T'))"
    using log_commit_ok [OF assms(1)] assms(2) by (simp add: log_bytes_def T'_def txn_records_append)
  obtain m where m: "m \<le> length T'" "r_committed (wal_recover crc deser hash_order (Some (w_disk w'))) =
      map txn_entry (take m T')" "length T' \<le> m"
    using recover_cut [OF assms(3-6) assms(7), where crc = crc and n = "length (w_disk w')"]
    unfolding T'_def [symmetric] disk by auto
  then show ?thesis by (simp add: T'_def txn_entry_def)
qed

theorem log_commit_recovered_witness:
  "r_committed (wal_recover example_crc example_deser id
     (Some (w_disk (snd (log_commit example_crc example_ser 3 5 [([7], Some [8])] True (wal_open [] [])))))) =
   [(5, [RInsert [7] [8]])]"
proof -
  obtain n w' where run: "log_commit example_crc example_ser 3 5 [([7], Some [8])] True (wal_open [] []) = (Inr n, w')"
    by (simp add: log_commit_def wal_append_def append_payload_def wal_sync_def buf_write_def buf_flush_def
        os_call_def io_next_def wal_writer_def wal_open_def sbind_def MAX_RECORD_BYTES_def)
  show ?thesis
    using log_commit_recovered [OF run, of "[]" example_deser id]
    unfolding run by (simp add: wal_open_def log_bytes_def commit_records_def wal_record_ok_def MAX_RECORD_BYTES_def)
qed

text \<open>C29. What recovery returns on any sequence of records: one entry for every transaction
  with a \<open>Commit\<close>, no \<open>Rollback\<close> and at least one write, holding all its writes in log
  order under its last commit timestamp, and the entries are in commit order.\<close>

theorem recovery_is_exact:
  assumes "\<And>xs. mset (hash_order xs) = mset xs"
  shows "((ts, xs) \<in> set (snd (recover_records hash_order rs)) \<longleftrightarrow>
     (\<exists>t. commit_of rs t = Some ts \<and> Rollback t \<notin> set rs \<and> xs = ops_of t rs \<and> xs \<noteq> [])) \<and>
     sorted (map fst (snd (recover_records hash_order rs)))"
  using recover_records_set [of hash_order rs ts xs] recover_records_sorted [of hash_order rs] assms by blast

theorem recovery_is_exact_witness:
  "(5, [RInsert [7] [8]]) \<in> set (snd (recover_records rev [Insert 3 [7] [8], Commit 3 5, Insert 4 [9] [9]]))"
  using recovery_is_exact [of rev 5 "[RInsert [7] [8]]" "[Insert 3 [7] [8], Commit 3 5, Insert 4 [9] [9]]"]
  by (auto intro!: exI [of _ "3::nat"])


end
