(* ===== verification/Txn.thy ===== *)
theory Txn
  imports Wal
begin

text \<open>
  The multi-version store and transaction registry of \<open>txn.rs\<close>. The \<open>BTreeMap\<close>s are the
  ordered maps of \<open>OrdMap\<close>; the \<open>HashMap\<close> of live transactions is never iterated, so an
  ordered map serves for it too. Timestamps and transaction ids are 64-bit counters in the
  source that start at 1 and grow by one per transaction; they are natural numbers here.
  \<open>merge_into_tree\<close> receives the tree's \<open>insert\<close> and \<open>delete\<close> as arguments, fallible
  operations on the tree's own state.
\<close>

section \<open>Data\<close>

datatype txn_state = TxnActive | TxnCommitted | TxnAborted

record version =
  v_commit_ts :: nat
  v_value :: "bytes option"

datatype txn_write = Put bytes | Del

fun as_value :: "txn_write \<Rightarrow> bytes option" where
  "as_value (Put v) = Some v"
| "as_value Del = None"

record transaction =
  t_id :: nat
  t_snapshot :: nat
  t_state :: txn_state
  t_writes :: "(bytes, txn_write) bmap"
  t_read_only :: bool

definition transaction_new :: "nat \<Rightarrow> nat \<Rightarrow> bool \<Rightarrow> transaction" where
  "transaction_new i snapshot read_only =
     \<lparr>t_id = i, t_snapshot = snapshot, t_state = TxnActive, t_writes = [], t_read_only = read_only\<rparr>"

definition write_count :: "transaction \<Rightarrow> nat" where
  "write_count t = length (t_writes t)"

type_synonym overlay_entry = "bytes \<times> bytes option"

record version_store =
  vs_chains :: "(bytes, version list) bmap"
  vs_next_ts :: nat
  vs_next_txn_id :: nat
  vs_active :: "(nat, transaction) bmap"
  vs_live_snapshots :: "(nat, nat) bmap"

definition store_new :: "nat \<Rightarrow> nat \<Rightarrow> version_store" where
  "store_new next_ts next_txn_id =
     \<lparr>vs_chains = [], vs_next_ts = max next_ts 1, vs_next_txn_id = max next_txn_id 1,
      vs_active = [], vs_live_snapshots = []\<rparr>"

definition current_ts :: "version_store \<Rightarrow> nat" where
  "current_ts s = vs_next_ts s - 1"

definition next_commit_ts :: "version_store \<Rightarrow> nat" where
  "next_commit_ts s = vs_next_ts s"

definition peek_txn_id :: "version_store \<Rightarrow> nat" where
  "peek_txn_id s = vs_next_txn_id s"

definition active_count :: "version_store \<Rightarrow> nat" where
  "active_count s = length (vs_active s)"

definition pending_keys :: "version_store \<Rightarrow> nat" where
  "pending_keys s = length (vs_chains s)"

section \<open>Transactions\<close>

definition txn_begin :: "bool \<Rightarrow> version_store \<Rightarrow> nat \<times> version_store" where
  "txn_begin read_only s =
     (let i = vs_next_txn_id s;
          s = s\<lparr>vs_next_txn_id := i + 1\<rparr>;
          snapshot = current_ts s;
          count = (case bm_get (vs_live_snapshots s) snapshot of None \<Rightarrow> 0 | Some c \<Rightarrow> c);
          s = s\<lparr>vs_live_snapshots := bm_put snapshot (count + 1) (vs_live_snapshots s)\<rparr>
      in (i, s\<lparr>vs_active := bm_put i (transaction_new i snapshot read_only) (vs_active s)\<rparr>))"

definition txn_get :: "version_store \<Rightarrow> nat \<Rightarrow> transaction res" where
  "txn_get s i =
     (case bm_get (vs_active s) i of
        Some t \<Rightarrow> if t_state t = TxnActive then Inr t else Inl (TxnNotFound i)
      | None \<Rightarrow> Inl (TxnNotFound i))"

definition check_writable :: "version_store \<Rightarrow> nat \<Rightarrow> unit res" where
  "check_writable s i =
     rbind (txn_get s i) (\<lambda>t. if t_read_only t then Inl InvalidArgument else Inr ())"

definition stage :: "nat \<Rightarrow> bytes \<Rightarrow> txn_write \<Rightarrow> (version_store, unit) sres" where
  "stage i key w s =
     (case txn_get s i of
        Inl e \<Rightarrow> (Inl e, s)
      | Inr t \<Rightarrow>
          if t_read_only t then (Inl InvalidArgument, s)
          else (Inr (), s\<lparr>vs_active :=
                  bm_put i (t\<lparr>t_writes := bm_put key w (t_writes t)\<rparr>) (vs_active s)\<rparr>))"

definition visible :: "version_store \<Rightarrow> bytes \<Rightarrow> nat \<Rightarrow> bytes option option" where
  "visible s key snapshot =
     (case bm_get (vs_chains s) key of
        None \<Rightarrow> None
      | Some chain \<Rightarrow>
          map_option v_value (List.find (\<lambda>v. v_commit_ts v \<le> snapshot) (rev chain)))"

definition txn_read :: "version_store \<Rightarrow> nat \<Rightarrow> bytes \<Rightarrow> bytes option option res" where
  "txn_read s i key =
     rbind (txn_get s i) (\<lambda>t.
       case bm_get (t_writes t) key of
         Some w \<Rightarrow> Inr (Some (as_value w))
       | None \<Rightarrow> Inr (visible s key (t_snapshot t)))"

definition conflicts_at :: "version_store \<Rightarrow> nat \<Rightarrow> bytes \<Rightarrow> bool" where
  "conflicts_at s snapshot key =
     (case bm_get (vs_chains s) key of
        None \<Rightarrow> False
      | Some chain \<Rightarrow> chain \<noteq> [] \<and> v_commit_ts (last chain) > snapshot)"

definition detect_conflict :: "version_store \<Rightarrow> nat \<Rightarrow> unit res" where
  "detect_conflict s i =
     rbind (txn_get s i) (\<lambda>t.
       if list_ex (\<lambda>e. conflicts_at s (t_snapshot t) (fst e)) (t_writes t) then Inl Conflict
       else Inr ())"

definition release_snapshot :: "nat \<Rightarrow> version_store \<Rightarrow> version_store" where
  "release_snapshot snapshot s =
     (case bm_get (vs_live_snapshots s) snapshot of
        None \<Rightarrow> s
      | Some count \<Rightarrow>
          if count - 1 = 0 then s\<lparr>vs_live_snapshots := bm_del snapshot (vs_live_snapshots s)\<rparr>
          else s\<lparr>vs_live_snapshots := bm_put snapshot (count - 1) (vs_live_snapshots s)\<rparr>)"

definition push_version ::
  "bytes \<Rightarrow> version \<Rightarrow> (bytes, version list) bmap \<Rightarrow> (bytes, version list) bmap" where
  "push_version key v m =
     bm_put key ((case bm_get m key of None \<Rightarrow> [] | Some chain \<Rightarrow> chain) @ [v]) m"

definition txn_commit :: "nat \<Rightarrow> (version_store, nat) sres" where
  "txn_commit i s =
     (case detect_conflict s i of
        Inl e \<Rightarrow> (Inl e, s)
      | Inr _ \<Rightarrow>
          let commit_ts = vs_next_ts s;
              s = s\<lparr>vs_next_ts := commit_ts + 1\<rparr>
          in case txn_get s i of
               Inl e \<Rightarrow> (Inl e, s)
             | Inr t \<Rightarrow>
                 let s = s\<lparr>vs_active :=
                           bm_put i (t\<lparr>t_writes := [], t_state := TxnCommitted\<rparr>) (vs_active s)\<rparr>;
                     s = s\<lparr>vs_chains := fold (\<lambda>(key, w).
                           push_version key \<lparr>v_commit_ts = commit_ts, v_value = as_value w\<rparr>)
                           (t_writes t) (vs_chains s)\<rparr>;
                     s = release_snapshot (t_snapshot t) s
                 in (Inr commit_ts, s\<lparr>vs_active := bm_del i (vs_active s)\<rparr>))"

definition txn_rollback :: "nat \<Rightarrow> (version_store, unit) sres" where
  "txn_rollback i s =
     (case txn_get s i of
        Inl e \<Rightarrow> (Inl e, s)
      | Inr t \<Rightarrow>
          let s = s\<lparr>vs_active :=
                    bm_put i (t\<lparr>t_state := TxnAborted, t_writes := []\<rparr>) (vs_active s)\<rparr>;
              s = release_snapshot (t_snapshot t) s
          in (Inr (), s\<lparr>vs_active := bm_del i (vs_active s)\<rparr>))"

section \<open>Merging into the tree\<close>

definition merge_watermark :: "version_store \<Rightarrow> nat" where
  "merge_watermark s =
     (case vs_live_snapshots s of [] \<Rightarrow> current_ts s | (snapshot, _) # _ \<Rightarrow> snapshot)"

text \<open>\<open>Iterator::rposition\<close>: the index of the last element that satisfies a predicate.\<close>

definition rposition :: "('a \<Rightarrow> bool) \<Rightarrow> 'a list \<Rightarrow> nat option" where
  "rposition P xs =
     (case filter (\<lambda>i. P (xs ! i)) [0..<length xs] of [] \<Rightarrow> None | js \<Rightarrow> Some (last js))"

definition merge_one ::
  "(bytes \<Rightarrow> bytes \<Rightarrow> ('p, unit) sres) \<Rightarrow> (bytes \<Rightarrow> ('p, unit) sres) \<Rightarrow> bytes \<Rightarrow> bytes option \<Rightarrow>
     ('p, unit) sres" where
  "merge_one ins del key val p =
     (case val of
        Some v \<Rightarrow> ins key v p
      | None \<Rightarrow>
          (case del key p of
             (Inr _, p') \<Rightarrow> (Inr (), p')
           | (Inl NotFound, p') \<Rightarrow> (Inr (), p')
           | (Inl e, p') \<Rightarrow> (Inl e, p')))"

fun merge_chains ::
  "(bytes \<Rightarrow> bytes \<Rightarrow> ('p, unit) sres) \<Rightarrow> (bytes \<Rightarrow> ('p, unit) sres) \<Rightarrow> nat \<Rightarrow>
     (bytes \<times> version list) list \<Rightarrow> ('p, (bytes \<times> nat) list) sres" where
  "merge_chains ins del watermark [] = sret []"
| "merge_chains ins del watermark ((key, chain) # rest) =
     (case rposition (\<lambda>v. v_commit_ts v \<le> watermark) chain of
        None \<Rightarrow> merge_chains ins del watermark rest
      | Some idx \<Rightarrow>
          sbind (merge_one ins del key (v_value (chain ! idx))) (\<lambda>_.
          sbind (merge_chains ins del watermark rest) (\<lambda>merged.
          sret ((key, idx) # merged))))"

definition drain_chain ::
  "bytes \<times> nat \<Rightarrow> (bytes, version list) bmap \<Rightarrow> (bytes, version list) bmap" where
  "drain_chain ki m =
     (case bm_get m (fst ki) of
        None \<Rightarrow> m
      | Some chain \<Rightarrow>
          let chain' = drop (Suc (snd ki)) chain in
          if chain' = [] then bm_del (fst ki) m else bm_put (fst ki) chain' m)"

definition merge_into_tree ::
  "(bytes \<Rightarrow> bytes \<Rightarrow> ('p, unit) sres) \<Rightarrow> (bytes \<Rightarrow> ('p, unit) sres) \<Rightarrow> nat \<Rightarrow>
     version_store \<Rightarrow> 'p \<Rightarrow> nat res \<times> version_store \<times> 'p" where
  "merge_into_tree ins del watermark s p =
     (case merge_chains ins del watermark (vs_chains s) p of
        (Inl e, p') \<Rightarrow> (Inl e, s, p')
      | (Inr merged, p') \<Rightarrow>
          (Inr (length merged), s\<lparr>vs_chains := fold drain_chain merged (vs_chains s)\<rparr>, p'))"

section \<open>What a checkpoint keeps, and replay\<close>

definition group_version ::
  "bytes \<Rightarrow> version \<Rightarrow> (nat, overlay_entry list) bmap \<Rightarrow> (nat, overlay_entry list) bmap" where
  "group_version key v m =
     bm_put (v_commit_ts v)
       ((case bm_get m (v_commit_ts v) of None \<Rightarrow> [] | Some ws \<Rightarrow> ws) @ [(key, v_value v)]) m"

definition by_commit_ts ::
  "nat \<Rightarrow> (bytes, version list) bmap \<Rightarrow> (nat, overlay_entry list) bmap" where
  "by_commit_ts watermark cs =
     fold (\<lambda>(key, chain) m.
       fold (group_version key) (filter (\<lambda>v. v_commit_ts v > watermark) chain) m) cs []"

definition retained_commits :: "nat \<Rightarrow> version_store \<Rightarrow> retained_commit list \<times> version_store" where
  "retained_commits watermark s =
     (let groups = by_commit_ts watermark (vs_chains s);
          first = vs_next_txn_id s
      in (map (\<lambda>(j, ts, ws). \<lparr>rc_txn_id = first + j, rc_commit_ts = ts, rc_writes = ws\<rparr>)
            (zip [0..<length groups] groups),
          s\<lparr>vs_next_txn_id := first + length groups\<rparr>))"

definition apply_recovered ::
  "nat \<Rightarrow> bytes \<Rightarrow> bytes option \<Rightarrow> version_store \<Rightarrow> version_store" where
  "apply_recovered commit_ts key val s =
     (let chain = (case bm_get (vs_chains s) key of None \<Rightarrow> [] | Some c \<Rightarrow> c);
          at = length (takeWhile (\<lambda>v. v_commit_ts v \<le> commit_ts) chain);
          chain' = take at chain @ \<lparr>v_commit_ts = commit_ts, v_value = val\<rparr> # drop at chain;
          s = s\<lparr>vs_chains := bm_put key chain' (vs_chains s)\<rparr>
      in if commit_ts \<ge> vs_next_ts s then s\<lparr>vs_next_ts := commit_ts + 1\<rparr> else s)"

definition observe_txn_id :: "nat \<Rightarrow> version_store \<Rightarrow> version_store" where
  "observe_txn_id i s = (if i \<ge> vs_next_txn_id s then s\<lparr>vs_next_txn_id := i + 1\<rparr> else s)"

section \<open>Overlays for scans\<close>

datatype 'a bound = Unbounded | Included 'a | Excluded 'a

fun above :: "'a::linorder bound \<Rightarrow> 'a \<Rightarrow> bool" where
  "above Unbounded k = True"
| "above (Included b) k = (b \<le> k)"
| "above (Excluded b) k = (b < k)"

fun below :: "'a::linorder bound \<Rightarrow> 'a \<Rightarrow> bool" where
  "below Unbounded k = True"
| "below (Included b) k = (k \<le> b)"
| "below (Excluded b) k = (k < b)"

text \<open>
  \<open>BTreeMap::range\<close> is documented to panic when the start lies behind the end, and when both
  bounds exclude the same key.
\<close>

fun range_panics :: "'a::linorder bound \<Rightarrow> 'a bound \<Rightarrow> bool" where
  "range_panics (Included a) (Included b) = (b < a)"
| "range_panics (Included a) (Excluded b) = (b < a)"
| "range_panics (Excluded a) (Included b) = (b < a)"
| "range_panics (Excluded a) (Excluded b) = (b \<le> a)"
| "range_panics _ _ = False"

definition bm_range :: "'k::linorder bound \<Rightarrow> 'k bound \<Rightarrow> ('k, 'v) bmap \<Rightarrow> ('k, 'v) bmap res" where
  "bm_range lo hi m =
     (if range_panics lo hi then Inl Panic
      else Inr (filter (\<lambda>e. above lo (fst e) \<and> below hi (fst e)) m))"

definition overlay ::
  "version_store \<Rightarrow> nat \<Rightarrow> bytes bound \<Rightarrow> bytes bound \<Rightarrow> overlay_entry list res" where
  "overlay s snapshot lo hi =
     rbind (bm_range lo hi (vs_chains s)) (\<lambda>m.
       Inr (List.map_filter (\<lambda>(key, chain).
         map_option (\<lambda>v. (key, v_value v))
           (List.find (\<lambda>v. v_commit_ts v \<le> snapshot) (rev chain))) m))"

definition keys_with_versions :: "version_store \<Rightarrow> nat \<Rightarrow> overlay_entry list res" where
  "keys_with_versions s snapshot = overlay s snapshot Unbounded Unbounded"

definition txn_overlay ::
  "version_store \<Rightarrow> nat \<Rightarrow> bytes bound \<Rightarrow> bytes bound \<Rightarrow> overlay_entry list res" where
  "txn_overlay s i lo hi =
     rbind (txn_get s i) (\<lambda>t.
     rbind (overlay s (t_snapshot t) lo hi) (\<lambda>committed.
       if t_writes t = [] then Inr committed
       else
         let merged = fold (\<lambda>(k, v). bm_put k v) committed [] in
         rbind (bm_range lo hi (t_writes t)) (\<lambda>ws.
           Inr (fold (\<lambda>(k, w). bm_put k (as_value w)) ws merged))))"

end
