(* ===== verification/Txn_Props.thy ===== *)
theory Txn_Props
  imports Txn
begin

text \<open>
  Snapshot isolation. The abstract state of the store is the list of commits in commit
  order, each with its write set; \<open>state_at\<close> is the database as of a timestamp. The relation
  \<open>si_rel\<close> ties the version chains, the tree and the transaction registry to a history,
  every operation of the store preserves it, and what transactions read, which commits are
  refused and what a merge may drop follow from it.
\<close>

section \<open>Histories\<close>

type_synonym history = "(nat \<times> overlay_entry list) list"

type_synonym db_state = "bytes \<Rightarrow> bytes option"

definition apply_commit :: "nat \<times> overlay_entry list \<Rightarrow> db_state \<Rightarrow> db_state" where
  "apply_commit c db = (\<lambda>k. case map_of (snd c) k of Some v \<Rightarrow> v | None \<Rightarrow> db k)"

definition state_at :: "db_state \<Rightarrow> history \<Rightarrow> nat \<Rightarrow> db_state" where
  "state_at base h n = fold apply_commit (filter (\<lambda>c. fst c \<le> n) h) base"

definition versions_of :: "bytes \<Rightarrow> history \<Rightarrow> version list" where
  "versions_of k h =
     List.map_filter (\<lambda>c. map_option (\<lambda>v. \<lparr>v_commit_ts = fst c, v_value = v\<rparr>) (map_of (snd c) k)) h"

lemma versions_of_simps [simp]:
  "versions_of k [] = []"
  "versions_of k (c # h) =
     (case map_of (snd c) k of None \<Rightarrow> [] | Some v \<Rightarrow> [\<lparr>v_commit_ts = fst c, v_value = v\<rparr>])
       @ versions_of k h"
  by (auto simp: versions_of_def map_filter_simps split: option.splits)

lemma versions_of_append: "versions_of k (h @ h') = versions_of k h @ versions_of k h'"
  by (induction h) auto

lemma versions_of_filter:
  "versions_of k (filter (\<lambda>c. P (fst c)) h) = filter (\<lambda>v. P (v_commit_ts v)) (versions_of k h)"
  by (induction h) (auto split: option.splits)

lemma versions_of_ts: "v \<in> set (versions_of k h) \<Longrightarrow> v_commit_ts v \<in> fst ` set h"
  by (induction h) (auto split: option.splits)

lemma versions_of_ex:
  "(\<exists>v \<in> set (versions_of k h). P (v_commit_ts v)) \<longleftrightarrow> (\<exists>c \<in> set h. k \<in> fst ` set (snd c) \<and> P (fst c))"
proof (induction h)
  case (Cons c h)
  have "k \<in> fst ` set (snd c) \<longleftrightarrow> map_of (snd c) k \<noteq> None" by (simp add: map_of_eq_None_iff)
  with Cons show ?case by (auto split: option.splits)
qed simp

lemma versions_of_sorted:
  "sorted_wrt (<) (map fst h) \<Longrightarrow> sorted_wrt (<) (map v_commit_ts (versions_of k h))"
  by (induction h) (auto simp: sorted_wrt_append dest!: versions_of_ts split: option.splits)

lemma fold_apply_commit:
  "fold apply_commit h base k =
     (case versions_of k h of [] \<Rightarrow> base k | vs \<Rightarrow> v_value (last vs))"
proof (induction h rule: rev_induct)
  case (snoc c h)
  then show ?case
    by (auto simp: versions_of_append apply_commit_def split: option.splits list.splits)
qed simp

lemma find_rev_last:
  "List.find P (rev xs) = (case filter P xs of [] \<Rightarrow> None | ys \<Rightarrow> Some (last ys))"
  by (induction xs rule: rev_induct) (auto split: list.splits)

lemma sorted_split:
  fixes h :: "(nat \<times> 'a) list"
  assumes "sorted_wrt (<) (map fst h)"
  shows "filter (\<lambda>c. fst c \<le> a) h @ filter (\<lambda>c. a < fst c) h = h"
  using assms
proof (induction h)
  case (Cons c h)
  show ?case
  proof (cases "fst c \<le> a")
    case False
    then have "filter (\<lambda>c. fst c \<le> a) h = []" "filter (\<lambda>c. a < fst c) h = h"
      using Cons.prems by (auto simp: filter_empty_conv filter_id_conv)
    with False show ?thesis by auto
  qed (use Cons in auto)
qed simp

lemma sorted_filter_fst: "sorted_wrt (<) (map fst h) \<Longrightarrow> sorted_wrt (<) (map fst (filter P h))"
  for h :: "(nat \<times> 'a) list"
  by (induction h) auto

lemma state_at_split:
  assumes "sorted_wrt (<) (map fst h)" "a \<le> n"
  shows "state_at base h n k =
     (case filter (\<lambda>v. v_commit_ts v \<le> n) (versions_of k (filter (\<lambda>c. a < fst c) h)) of
        [] \<Rightarrow> state_at base h a k
      | vs \<Rightarrow> v_value (last vs))"
proof -
  let ?lo = "filter (\<lambda>c. fst c \<le> a) h" and ?hi = "filter (\<lambda>c. a < fst c) h"
  have "filter (\<lambda>c. fst c \<le> n) h = filter (\<lambda>c. fst c \<le> n) (?lo @ ?hi)"
    using sorted_split [OF assms(1), of a] by simp
  also have "\<dots> = ?lo @ filter (\<lambda>c. fst c \<le> n) ?hi"
    using assms(2) by (auto simp: filter_id_conv intro!: filter_cong)
  finally have "state_at base h n = fold apply_commit (filter (\<lambda>c. fst c \<le> n) ?hi) (state_at base h a)"
    by (simp add: state_at_def)
  then show ?thesis
    by (simp only: fold_apply_commit versions_of_filter [where P = "\<lambda>ts. ts \<le> n"])
qed

lemma state_at_append:
  "\<forall>c \<in> set h'. n < fst c \<Longrightarrow> state_at base (h @ h') n = state_at base h n"
proof -
  assume "\<forall>c \<in> set h'. n < fst c"
  then have "filter (\<lambda>c. fst c \<le> n) h' = []" by (auto simp: filter_empty_conv)
  then show ?thesis by (simp add: state_at_def)
qed

section \<open>The store and its history\<close>

definition txns_ok :: "version_store \<Rightarrow> bool" where
  "txns_ok s \<longleftrightarrow>
     0 < vs_next_ts s \<and> bm_ok (vs_active s) \<and> bm_ok (vs_live_snapshots s) \<and>
     (\<forall>(i, t) \<in> set (vs_active s).
        t_id t = i \<and> t_state t = TxnActive \<and> i < vs_next_txn_id s \<and> t_snapshot t < vs_next_ts s \<and>
        bm_ok (t_writes t)) \<and>
     (\<forall>n. bm_get (vs_live_snapshots s) n =
        (case length (filter (\<lambda>e. t_snapshot (snd e) = n) (vs_active s)) of 0 \<Rightarrow> None | c \<Rightarrow> Some c))"

definition chains_of :: "history \<Rightarrow> version_store \<Rightarrow> bool" where
  "chains_of h s \<longleftrightarrow>
     bm_ok (vs_chains s) \<and>
     (\<forall>k. bm_get (vs_chains s) k = (case versions_of k h of [] \<Rightarrow> None | vs \<Rightarrow> Some vs))"

definition si_rel :: "db_state \<Rightarrow> history \<Rightarrow> nat \<Rightarrow> db_state \<Rightarrow> version_store \<Rightarrow> bool" where
  "si_rel base h tree_ts tree s \<longleftrightarrow>
     sorted_wrt (<) (map fst h) \<and> (\<forall>c \<in> set h. fst c < vs_next_ts s \<and> bm_ok (snd c)) \<and>
     tree_ts < vs_next_ts s \<and>
     chains_of (filter (\<lambda>c. tree_ts < fst c) h) s \<and> tree = state_at base h tree_ts \<and>
     txns_ok s \<and> (\<forall>(i, t) \<in> set (vs_active s). tree_ts \<le> t_snapshot t)"

lemma txns_okD:
  assumes "txns_ok s" "txn_get s i = Inr t"
  shows "bm_get (vs_active s) i = Some t" "t_state t = TxnActive" "i < vs_next_txn_id s"
    "t_snapshot t < vs_next_ts s" "bm_ok (t_writes t)" "t_id t = i" "(i, t) \<in> set (vs_active s)"
proof -
  show get: "bm_get (vs_active s) i = Some t"
    using assms(2) by (auto simp: txn_get_def split: option.splits if_splits)
  then show mem: "(i, t) \<in> set (vs_active s)" by (rule bm_get_set)
  with assms(1) show "t_state t = TxnActive" "i < vs_next_txn_id s"
    "t_snapshot t < vs_next_ts s" "bm_ok (t_writes t)" "t_id t = i"
    by (auto simp: txns_ok_def)
qed

lemma txn_get_active: "txns_ok s \<Longrightarrow> bm_get (vs_active s) i = Some t \<Longrightarrow> txn_get s i = Inr t"
  by (auto simp: txn_get_def txns_ok_def dest: bm_get_set)

lemma txn_get_missing: "bm_get (vs_active s) i = None \<Longrightarrow> txn_get s i = Inl (TxnNotFound i)"
  by (simp add: txn_get_def)

section \<open>Reads\<close>

text \<open>What the engine returns for a key at a snapshot: the chain first, then the tree.\<close>

definition read_through :: "db_state \<Rightarrow> bytes option option \<Rightarrow> bytes \<Rightarrow> bytes option" where
  "read_through tree r k = (case r of Some v \<Rightarrow> v | None \<Rightarrow> tree k)"

lemma visible_chains:
  "chains_of h s \<Longrightarrow> visible s k n =
     (case filter (\<lambda>v. v_commit_ts v \<le> n) (versions_of k h) of [] \<Rightarrow> None | vs \<Rightarrow> Some (v_value (last vs)))"
proof -
  assume "chains_of h s"
  then have "bm_get (vs_chains s) k = (case versions_of k h of [] \<Rightarrow> None | vs \<Rightarrow> Some vs)"
    by (simp add: chains_of_def)
  then show ?thesis
    by (cases "versions_of k h") (auto simp: visible_def find_rev_last simp del: rev.simps split: list.splits)
qed

lemma visible_state_at:
  assumes "si_rel base h tree_ts tree s" "tree_ts \<le> n"
  shows "read_through tree (visible s k n) k = state_at base h n k"
proof -
  have "chains_of (filter (\<lambda>c. tree_ts < fst c) h) s" "tree = state_at base h tree_ts"
    "sorted_wrt (<) (map fst h)" using assms(1) by (simp_all add: si_rel_def)
  then show ?thesis
    using state_at_split [OF _ assms(2), of h base k]
    by (simp add: visible_chains read_through_def split: list.splits)
qed

lemma txn_read_state:
  assumes "si_rel base h tree_ts tree s" "txn_get s i = Inr t"
  shows "\<exists>r. txn_read s i k = Inr r \<and> read_through tree r k =
     (case bm_get (t_writes t) k of Some w \<Rightarrow> as_value w | None \<Rightarrow> state_at base h (t_snapshot t) k)"
proof -
  have "tree_ts \<le> t_snapshot t"
    using assms txns_okD(7) [OF _ assms(2)] by (auto simp: si_rel_def)
  from visible_state_at [OF assms(1) this, of k] show ?thesis
    by (auto simp: txn_read_def assms(2) read_through_def split: option.splits)
qed

section \<open>Every operation keeps the registry in order\<close>

lemma release_snapshot_fields [simp]:
  "vs_chains (release_snapshot n s) = vs_chains s" "vs_next_ts (release_snapshot n s) = vs_next_ts s"
  "vs_next_txn_id (release_snapshot n s) = vs_next_txn_id s"
  "vs_active (release_snapshot n s) = vs_active s"
  by (simp_all add: release_snapshot_def split: option.splits)

lemma close_txns_ok:
  assumes "txns_ok s" "txn_get s i = Inr t" "vs_live_snapshots s' = vs_live_snapshots s"
    "vs_next_txn_id s' = vs_next_txn_id s" "vs_next_ts s \<le> vs_next_ts s'"
  shows "txns_ok (release_snapshot (t_snapshot t) s'\<lparr>vs_active := bm_del i (vs_active s)\<rparr>)"
proof -
  let ?n = "t_snapshot t"
  let ?cnt = "\<lambda>m n. length (filter (\<lambda>e. t_snapshot (snd e) = n) m)"
  have ok: "bm_ok (vs_active s)" "bm_ok (vs_live_snapshots s)"
    and live: "\<And>n. bm_get (vs_live_snapshots s) n = (case ?cnt (vs_active s) n of 0 \<Rightarrow> None | c \<Rightarrow> Some c)"
    using assms(1) by (auto simp: txns_ok_def)
  have cnt: "?cnt (bm_del i (vs_active s)) n + of_bool (?n = n) = ?cnt (vs_active s) n" for n
    using bm_count_del [OF ok(1) txns_okD(1) [OF assms(1,2)], of "\<lambda>e. t_snapshot (snd e) = n"] by simp
  have "bm_get (vs_live_snapshots (release_snapshot ?n s')) n =
      (case ?cnt (bm_del i (vs_active s)) n of 0 \<Rightarrow> None | c \<Rightarrow> Some c)" for n
    using cnt [of n] live [of n] live [of ?n] cnt [of ?n]
    by (auto simp: release_snapshot_def assms(3) split: nat.splits option.splits)
  moreover have "bm_ok (vs_live_snapshots (release_snapshot ?n s'))"
    using ok(2) by (simp add: release_snapshot_def assms(3) split: option.splits)
  moreover have "set (bm_del i (vs_active s)) \<subseteq> set (vs_active s)" by (auto simp: bm_del_def)
  ultimately show ?thesis
    using assms(1,4,5) ok(1) unfolding txns_ok_def by fastforce
qed

lemma begin_txns_ok:
  assumes "txns_ok s" "txn_begin ro s = (i, s')"
  shows "txns_ok s'"
    and "vs_active s' = vs_active s @ [(i, transaction_new i (current_ts s) ro)]"
    and "vs_chains s' = vs_chains s" "vs_next_ts s' = vs_next_ts s" "i = vs_next_txn_id s"
    and "vs_next_txn_id s' = Suc i"
proof -
  let ?t = "transaction_new i (current_ts s) ro"
  show i: "i = vs_next_txn_id s" using assms(2) by (auto simp: txn_begin_def Let_def)
  have ok: "bm_ok (vs_active s)" and lt: "\<And>j. j \<in> fst ` set (vs_active s) \<Longrightarrow> j < i"
    using assms(1) by (auto simp: txns_ok_def i)
  have ct: "current_ts (s\<lparr>vs_next_txn_id := n\<rparr>) = current_ts s" for n by (simp add: current_ts_def)
  show act: "vs_active s' = vs_active s @ [(i, ?t)]"
    using assms(2) bm.entries_put_new_last [OF ok lt, of ?t]
    by (auto simp: txn_begin_def Let_def i ct)
  show f: "vs_chains s' = vs_chains s" "vs_next_ts s' = vs_next_ts s" "vs_next_txn_id s' = Suc i"
    using assms(2) by (auto simp: txn_begin_def Let_def i)
  have live: "vs_live_snapshots s' = bm_put (current_ts s)
      ((case bm_get (vs_live_snapshots s) (current_ts s) of None \<Rightarrow> 0 | Some c \<Rightarrow> c) + 1) (vs_live_snapshots s)"
    using assms(2) by (auto simp: txn_begin_def Let_def ct)
  have "bm_ok (vs_active s @ [(i, ?t)])"
    using ok lt by (auto simp: bm_ok_def sorted_wrt_append)
  moreover have "current_ts s < vs_next_ts s" using assms(1) by (simp add: txns_ok_def current_ts_def)
  ultimately show "txns_ok s'"
    using assms(1) unfolding txns_ok_def act f live
    by (auto simp: transaction_new_def i split: nat.splits option.splits)
qed

lemma stage_ok:
  assumes "txns_ok s" "stage i key w s = (Inr u, s')"
  obtains t where "txn_get s i = Inr t" "\<not> t_read_only t" "txns_ok s'"
    "vs_active s' = bm_put i (t\<lparr>t_writes := bm_put key w (t_writes t)\<rparr>) (vs_active s)"
    "vs_chains s' = vs_chains s" "vs_next_ts s' = vs_next_ts s" "vs_next_txn_id s' = vs_next_txn_id s"
proof -
  obtain t where t: "txn_get s i = Inr t" "\<not> t_read_only t"
    "s' = s\<lparr>vs_active := bm_put i (t\<lparr>t_writes := bm_put key w (t_writes t)\<rparr>) (vs_active s)\<rparr>"
    using assms(2) by (auto simp: stage_def split: sum.splits if_splits)
  note d = txns_okD [OF assms(1) t(1)]
  have ok: "bm_ok (vs_active s)" using assms(1) by (simp add: txns_ok_def)
  let ?t = "t\<lparr>t_writes := bm_put key w (t_writes t)\<rparr>"
  have "length (filter (\<lambda>e. t_snapshot (snd e) = n) (bm_put i ?t (vs_active s))) =
      length (filter (\<lambda>e. t_snapshot (snd e) = n) (vs_active s))" for n
    using bm_count_put [OF ok d(1), of "\<lambda>e. t_snapshot (snd e) = n" ?t] by simp
  moreover have "\<forall>(j, t') \<in> set (bm_put i ?t (vs_active s)).
      t_id t' = j \<and> t_state t' = TxnActive \<and> j < vs_next_txn_id s \<and> t_snapshot t' < vs_next_ts s \<and>
      bm_ok (t_writes t')"
    using assms(1) d by (auto simp: set_bm_put [OF ok] txns_ok_def)
  ultimately have "txns_ok s'" using assms(1) unfolding t(3) by (simp add: txns_ok_def)
  with t show thesis by (intro that [of t]) auto
qed

section \<open>Commit and rollback\<close>

definition write_set :: "transaction \<Rightarrow> overlay_entry list" where
  "write_set t = map (\<lambda>e. (fst e, as_value (snd e))) (t_writes t)"

definition conflicting :: "history \<Rightarrow> transaction \<Rightarrow> bool" where
  "conflicting h t \<longleftrightarrow>
     (\<exists>c \<in> set h. t_snapshot t < fst c \<and> fst ` set (snd c) \<inter> fst ` set (t_writes t) \<noteq> {})"

lemma map_of_map_value: "map_of (map (\<lambda>e. (fst e, f (snd e))) xs) k = map_option f (map_of xs k)"
  by (induction xs) auto

lemma write_set_get: "map_of (write_set t) k = map_option as_value (bm_get (t_writes t) k)"
  by (simp add: write_set_def bm_get_map_of map_of_map_value)

lemma write_set_ok: "bm_ok (t_writes t) \<Longrightarrow> bm_ok (write_set t)"
  by (simp add: bm_ok_def write_set_def comp_def)

lemma sorted_last_max:
  fixes xs :: "'a list"
  assumes "sorted_wrt (<) (map f xs)" "xs \<noteq> []"
  shows "(n < f (last xs)) = (\<exists>x \<in> set xs. n < (f x :: nat))"
  using assms
proof (induction xs rule: rev_induct)
  case (snoc x xs)
  then show ?case by (auto simp: sorted_wrt_append)
qed simp

lemma conflicts_at_chains:
  assumes "sorted_wrt (<) (map fst h)" "chains_of h s"
  shows "conflicts_at s n k \<longleftrightarrow> (\<exists>c \<in> set h. k \<in> fst ` set (snd c) \<and> n < fst c)"
proof -
  have "conflicts_at s n k \<longleftrightarrow> versions_of k h \<noteq> [] \<and> n < v_commit_ts (last (versions_of k h))"
    using assms(2) by (auto simp: conflicts_at_def chains_of_def split: list.splits)
  also have "\<dots> \<longleftrightarrow> (\<exists>v \<in> set (versions_of k h). n < v_commit_ts v)"
    using sorted_last_max [OF versions_of_sorted [OF assms(1)], of k n]
    by (cases "versions_of k h = []") auto
  finally show ?thesis by (simp add: versions_of_ex)
qed

lemma detect_conflict_iff:
  assumes "si_rel base h tree_ts tree s" "txn_get s i = Inr t"
  shows "detect_conflict s i = (if conflicting h t then Inl Conflict else Inr ())"
proof -
  let ?h = "filter (\<lambda>c. tree_ts < fst c) h"
  have h: "sorted_wrt (<) (map fst ?h)" "chains_of ?h s" and le: "tree_ts \<le> t_snapshot t"
    using assms(1) txns_okD(7) [OF _ assms(2)] by (auto simp: si_rel_def sorted_filter_fst)
  have "conflicts_at s (t_snapshot t) k \<longleftrightarrow>
      (\<exists>c \<in> set h. k \<in> fst ` set (snd c) \<and> t_snapshot t < fst c)" for k
    unfolding conflicts_at_chains [OF h] set_filter using le by (blast dest: le_less_trans)
  then have "list_ex (\<lambda>e. conflicts_at s (t_snapshot t) (fst e)) (t_writes t) = conflicting h t"
    unfolding conflicting_def list_ex_iff by (simp add: disjoint_iff image_iff) metis
  then show ?thesis by (simp add: detect_conflict_def assms(2))
qed

lemma push_all_ok: "bm_ok m \<Longrightarrow> bm_ok (fold (\<lambda>(k, w). push_version k (f w)) ws m)"
  by (induction ws arbitrary: m) (auto simp: push_version_def)

lemma push_all_get:
  assumes "distinct (map fst ws)"
  shows "bm_get (fold (\<lambda>(k, w). push_version k (f w)) ws m) k =
     (case map_of ws k of
        None \<Rightarrow> bm_get m k
      | Some w \<Rightarrow> Some ((case bm_get m k of None \<Rightarrow> [] | Some c \<Rightarrow> c) @ [f w]))"
  using assms
proof (induction ws arbitrary: m)
  case (Cons e ws)
  obtain k' w' where e: "e = (k', w')" by (cases e)
  have "map_of ws k' = None" using Cons.prems by (simp add: e map_of_eq_None_iff)
  with Cons show ?case by (auto simp: e push_version_def split: option.splits)
qed simp

lemma chains_of_commit:
  fixes ws :: "(bytes \<times> txn_write) list" and ts :: nat
  assumes "chains_of h s" "distinct (map fst ws)"
  defines "m \<equiv> fold (\<lambda>(key, w). push_version key \<lparr>v_commit_ts = ts, v_value = as_value w\<rparr>) ws (vs_chains s)"
  shows "chains_of (h @ [(ts, map (\<lambda>e. (fst e, as_value (snd e))) ws)]) (s\<lparr>vs_chains := m\<rparr>)"
proof -
  have "bm_ok m" using assms(1) by (simp add: m_def chains_of_def push_all_ok)
  moreover have "bm_get m k = (case versions_of k (h @ [(ts, map (\<lambda>e. (fst e, as_value (snd e))) ws)]) of
      [] \<Rightarrow> None | vs \<Rightarrow> Some vs)" for k
    using assms(1)
    by (simp add: m_def push_all_get [OF assms(2)] chains_of_def versions_of_append map_of_map_value
        split: option.splits list.splits)
  ultimately show ?thesis by (simp add: chains_of_def)
qed

lemma commit_result:
  assumes "si_rel base h tree_ts tree s" "txn_get s i = Inr t"
  shows "if conflicting h t then txn_commit i s = (Inl Conflict, s)
     else \<exists>s'. txn_commit i s = (Inr (vs_next_ts s), s') \<and>
       si_rel base (h @ [(vs_next_ts s, write_set t)]) tree_ts tree s' \<and>
       vs_active s' = bm_del i (vs_active s) \<and> vs_next_ts s' = Suc (vs_next_ts s) \<and>
       vs_next_txn_id s' = vs_next_txn_id s"
proof (cases "conflicting h t")
  case True
  with detect_conflict_iff [OF assms] show ?thesis by (simp add: txn_commit_def)
next
  case False
  let ?ts = "vs_next_ts s"
  let ?s1 = "s\<lparr>vs_next_ts := Suc ?ts\<rparr>"
  let ?push = "fold (\<lambda>(key, w). push_version key \<lparr>v_commit_ts = ?ts, v_value = as_value w\<rparr>) (t_writes t) (vs_chains s)"
  let ?s2 = "?s1\<lparr>vs_active := bm_put i (t\<lparr>t_writes := [], t_state := TxnCommitted\<rparr>) (vs_active s),
      vs_chains := ?push\<rparr>"
  let ?s' = "release_snapshot (t_snapshot t) ?s2\<lparr>vs_active := bm_del i (vs_active s)\<rparr>"
  have rel: "sorted_wrt (<) (map fst h)" "\<forall>c \<in> set h. fst c < ?ts \<and> bm_ok (snd c)" "tree_ts < ?ts"
    "chains_of (filter (\<lambda>c. tree_ts < fst c) h) s" "tree = state_at base h tree_ts" "txns_ok s"
    "\<forall>(i, t) \<in> set (vs_active s). tree_ts \<le> t_snapshot t"
    using assms(1) by (auto simp: si_rel_def)
  have act: "bm_ok (vs_active s)" using rel(6) by (simp add: txns_ok_def)
  have run: "txn_commit i s = (Inr ?ts, ?s')"
    using False detect_conflict_iff [OF assms] assms(2)
    by (simp add: txn_commit_def Let_def txn_get_def bm_del_put [OF act])
  have "distinct (map fst (t_writes t))"
    using txns_okD(5) [OF rel(6) assms(2)] by (simp add: bm_ok_def strict_sorted_iff)
  then have ch: "chains_of (filter (\<lambda>c. tree_ts < fst c) (h @ [(?ts, write_set t)])) ?s'"
    using chains_of_commit [OF rel(4), of "t_writes t" ?ts] rel(3) by (simp add: chains_of_def write_set_def)
  have "txns_ok ?s'" using close_txns_ok [OF rel(6) assms(2), of ?s2] by simp
  moreover have "set (bm_del i (vs_active s)) \<subseteq> set (vs_active s)" by (auto simp: bm_del_def)
  moreover have "state_at base (h @ [(?ts, write_set t)]) tree_ts = state_at base h tree_ts"
    using rel(3) by (intro state_at_append) simp
  moreover have "bm_ok (write_set t)" using txns_okD(5) [OF rel(6) assms(2)] by (rule write_set_ok)
  ultimately have "si_rel base (h @ [(?ts, write_set t)]) tree_ts tree ?s'"
    using rel ch by (fastforce simp: si_rel_def sorted_wrt_append)
  with False run show ?thesis by auto
qed

lemma rollback_result:
  assumes "si_rel base h tree_ts tree s" "txn_get s i = Inr t"
  shows "\<exists>s'. txn_rollback i s = (Inr (), s') \<and> si_rel base h tree_ts tree s' \<and>
     vs_active s' = bm_del i (vs_active s) \<and> vs_chains s' = vs_chains s \<and>
     vs_next_ts s' = vs_next_ts s \<and> vs_next_txn_id s' = vs_next_txn_id s"
proof -
  have ok: "txns_ok s" using assms(1) by (simp add: si_rel_def)
  let ?s1 = "s\<lparr>vs_active := bm_put i (t\<lparr>t_state := TxnAborted, t_writes := []\<rparr>) (vs_active s)\<rparr>"
  let ?s' = "release_snapshot (t_snapshot t) ?s1\<lparr>vs_active := bm_del i (vs_active s)\<rparr>"
  have "txn_rollback i s = (Inr (), ?s')"
    using ok by (simp add: txn_rollback_def assms(2) Let_def txns_ok_def bm_del_put)
  moreover have "txns_ok ?s'" using close_txns_ok [OF ok assms(2), of ?s1] by simp
  moreover have "set (bm_del i (vs_active s)) \<subseteq> set (vs_active s)" by (auto simp: bm_del_def)
  ultimately show ?thesis
    using assms(1) by (fastforce simp: si_rel_def chains_of_def)
qed

lemma begin_si_rel:
  assumes "si_rel base h tree_ts tree s" "txn_begin ro s = (i, s')"
  shows "si_rel base h tree_ts tree s'"
proof -
  have "txns_ok s" using assms(1) by (simp add: si_rel_def)
  note b = begin_txns_ok [OF this assms(2)]
  show ?thesis
    using assms(1) b by (auto simp: si_rel_def chains_of_def transaction_new_def current_ts_def)
qed

lemma stage_si_rel:
  assumes "si_rel base h tree_ts tree s" "stage i key w s = (Inr u, s')"
  shows "si_rel base h tree_ts tree s'"
proof -
  have ok: "txns_ok s" using assms(1) by (simp add: si_rel_def)
  obtain t where t: "txn_get s i = Inr t" "txns_ok s'"
    "vs_active s' = bm_put i (t\<lparr>t_writes := bm_put key w (t_writes t)\<rparr>) (vs_active s)"
    "vs_chains s' = vs_chains s" "vs_next_ts s' = vs_next_ts s" "vs_next_txn_id s' = vs_next_txn_id s"
    using stage_ok [OF ok assms(2)] by metis
  have "bm_ok (vs_active s)" using ok by (simp add: txns_ok_def)
  then show ?thesis
    using assms(1) t txns_okD(7) [OF ok t(1)]
    by (auto simp: si_rel_def chains_of_def set_bm_put)
qed

section \<open>The merge watermark\<close>

lemma watermark_le_snapshots:
  assumes "txns_ok s" "(i, t) \<in> set (vs_active s)"
  shows "merge_watermark s \<le> t_snapshot t"
proof -
  have ok: "bm_ok (vs_live_snapshots s)"
    and live: "bm_get (vs_live_snapshots s) (t_snapshot t) =
      (case length (filter (\<lambda>e. t_snapshot (snd e) = t_snapshot t) (vs_active s)) of 0 \<Rightarrow> None | c \<Rightarrow> Some c)"
    using assms(1) by (auto simp: txns_ok_def)
  have "filter (\<lambda>e. t_snapshot (snd e) = t_snapshot t) (vs_active s) \<noteq> []"
    using assms(2) by (force simp: filter_empty_conv)
  then have "bm_get (vs_live_snapshots s) (t_snapshot t) \<noteq> None" unfolding live by (auto split: nat.splits)
  then have "t_snapshot t \<in> fst ` set (vs_live_snapshots s)" by (simp add: bm_get_None_iff)
  with ok show ?thesis
    by (cases "vs_live_snapshots s") (force simp: merge_watermark_def)+
qed

lemma watermark_is_snapshot:
  assumes "txns_ok s" "vs_active s \<noteq> []"
  shows "\<exists>(i, t) \<in> set (vs_active s). t_snapshot t = merge_watermark s"
proof -
  obtain i t where "(i, t) \<in> set (vs_active s)" using assms(2) by (cases "vs_active s") auto
  then have "filter (\<lambda>e. t_snapshot (snd e) = t_snapshot t) (vs_active s) \<noteq> []"
    by (force simp: filter_empty_conv)
  then have "bm_get (vs_live_snapshots s) (t_snapshot t) \<noteq> None"
    using assms(1) by (auto simp: txns_ok_def split: nat.splits)
  then obtain n c rest where l: "vs_live_snapshots s = (n, c) # rest"
    by (cases "vs_live_snapshots s") auto
  then have "bm_get (vs_live_snapshots s) n = Some c" by simp
  then have "filter (\<lambda>e. t_snapshot (snd e) = n) (vs_active s) \<noteq> []"
    using assms(1) by (auto simp: txns_ok_def)
  then show ?thesis by (auto simp: merge_watermark_def l filter_empty_conv)
qed

lemma watermark_bounds:
  assumes "si_rel base h tree_ts tree s"
  shows "tree_ts \<le> merge_watermark s" "merge_watermark s < vs_next_ts s"
proof -
  have ok: "txns_ok s" using assms by (simp add: si_rel_def)
  have "tree_ts \<le> merge_watermark s \<and> merge_watermark s < vs_next_ts s"
  proof (cases "vs_active s = []")
    case True
    have "vs_live_snapshots s = []"
    proof (cases "vs_live_snapshots s")
      case (Cons e rest)
      obtain n c where "e = (n, c)" by (cases e)
      then have "bm_get (vs_live_snapshots s) n = Some c" by (simp add: Cons)
      then show ?thesis using ok True by (simp add: txns_ok_def)
    qed
    with assms show ?thesis by (auto simp: merge_watermark_def current_ts_def si_rel_def)
  next
    case False
    obtain i t where "(i, t) \<in> set (vs_active s)" "t_snapshot t = merge_watermark s"
      using watermark_is_snapshot [OF ok False] by auto
    with assms ok show ?thesis by (auto simp: si_rel_def txns_ok_def)
  qed
  then show "tree_ts \<le> merge_watermark s" "merge_watermark s < vs_next_ts s" by auto
qed

section \<open>Merging\<close>

lemma rposition_split:
  assumes "\<forall>x \<in> set ys. P x" "\<forall>x \<in> set zs. \<not> P x"
  shows "rposition P (ys @ zs) = (if ys = [] then None else Some (length ys - 1))"
proof -
  have "filter (\<lambda>i. P ((ys @ zs) ! i)) [0..<length (ys @ zs)] = [0..<length ys]"
  proof -
    have "[0..<length (ys @ zs)] = [0..<length ys] @ [length ys..<length (ys @ zs)]"
      using upt_add_eq_append [of 0 "length ys" "length zs"] by simp
    moreover have "filter (\<lambda>i. P ((ys @ zs) ! i)) [0..<length ys] = [0..<length ys]"
      using assms(1) by (auto simp: filter_id_conv nth_append)
    moreover have "filter (\<lambda>i. P ((ys @ zs) ! i)) [length ys..<length (ys @ zs)] = []"
      using assms(2) by (auto simp: filter_empty_conv nth_append)
    ultimately show ?thesis by (simp only: filter_append append_Nil2)
  qed
  then have "rposition P (ys @ zs) = (case [0..<length ys] of [] \<Rightarrow> None | js \<Rightarrow> Some (last js))"
    by (simp only: rposition_def)
  also have "\<dots> = (if ys = [] then None else Some (length ys - 1))"
    by (simp add: list.case_eq_if)
  finally show ?thesis .
qed

lemma sorted_versions_split:
  assumes "sorted_wrt (<) (map v_commit_ts c)"
  shows "filter (\<lambda>v. v_commit_ts v \<le> w) c @ filter (\<lambda>v. w < v_commit_ts v) c = c"
  using assms
proof (induction c)
  case (Cons v c)
  show ?case
  proof (cases "v_commit_ts v \<le> w")
    case False
    then have "filter (\<lambda>v. v_commit_ts v \<le> w) c = []" "filter (\<lambda>v. w < v_commit_ts v) c = c"
      using Cons.prems by (auto simp: filter_empty_conv filter_id_conv)
    with False show ?thesis by auto
  qed (use Cons in auto)
qed simp

lemma merge_point:
  fixes w :: nat
  assumes "sorted_wrt (<) (map v_commit_ts c)"
  defines "lo \<equiv> filter (\<lambda>v. v_commit_ts v \<le> w) c"
  shows "rposition (\<lambda>v. v_commit_ts v \<le> w) c = (if lo = [] then None else Some (length lo - 1))"
    and "lo \<noteq> [] \<Longrightarrow> c ! (length lo - 1) = last lo"
    and "lo \<noteq> [] \<Longrightarrow> drop (Suc (length lo - 1)) c = filter (\<lambda>v. w < v_commit_ts v) c"
proof -
  have c: "c = lo @ filter (\<lambda>v. w < v_commit_ts v) c"
    using sorted_versions_split [OF assms(1), of w] by (simp add: lo_def)
  show "rposition (\<lambda>v. v_commit_ts v \<le> w) c = (if lo = [] then None else Some (length lo - 1))"
    by (subst c, rule rposition_split) (auto simp: lo_def)
  show "lo \<noteq> [] \<Longrightarrow> c ! (length lo - 1) = last lo"
    by (subst c) (simp add: nth_append last_conv_nth)
  show "lo \<noteq> [] \<Longrightarrow> drop (Suc (length lo - 1)) c = filter (\<lambda>v. w < v_commit_ts v) c"
    by (subst c) simp
qed

definition merge_list :: "nat \<Rightarrow> (bytes \<times> version list) list \<Rightarrow> (bytes \<times> nat) list" where
  "merge_list w m = List.map_filter (\<lambda>e.
     let lo = filter (\<lambda>v. v_commit_ts v \<le> w) (snd e) in if lo = [] then None else Some (fst e, length lo - 1)) m"

lemma drain_all_get:
  assumes "distinct (map fst m)" "\<forall>e \<in> set m. sorted_wrt (<) (map v_commit_ts (snd e)) \<and> snd e \<noteq> []"
    and "\<forall>e \<in> set m. bm_get m0 (fst e) = Some (snd e)" "bm_ok m0"
  shows "bm_ok (fold drain_chain (merge_list w m) m0) \<and>
     bm_get (fold drain_chain (merge_list w m) m0) k =
       (if k \<in> fst ` set m
        then (case filter (\<lambda>v. w < v_commit_ts v) (the (bm_get m0 k)) of [] \<Rightarrow> None | c \<Rightarrow> Some c)
        else bm_get m0 k)"
  using assms
proof (induction m arbitrary: m0)
  case (Cons e m)
  obtain k0 c0 where e: "e = (k0, c0)" by (cases e)
  have c0: "sorted_wrt (<) (map v_commit_ts c0)" "c0 \<noteq> []" "bm_get m0 k0 = Some c0" and nin: "k0 \<notin> fst ` set m"
    using Cons.prems by (auto simp: e)
  let ?lo = "filter (\<lambda>v. v_commit_ts v \<le> w) c0" and ?hi = "filter (\<lambda>v. w < v_commit_ts v) c0"
  define m1 where "m1 = (if ?lo = [] then m0 else drain_chain (k0, length ?lo - 1) m0)"
  have m1_ok: "bm_ok m1" using Cons.prems(4) by (simp add: m1_def drain_chain_def Let_def split: option.splits)
  have m1_get: "bm_get m1 k = (if k = k0 then (case ?hi of [] \<Rightarrow> None | c \<Rightarrow> Some c) else bm_get m0 k)" for k
  proof (cases "?lo = []")
    case True
    then have "?hi = c0" using sorted_versions_split [OF c0(1), of w] by simp
    with True c0 show ?thesis by (auto simp: m1_def split: list.splits)
  next
    case False
    with merge_point(3) [OF c0(1), of w] c0(3) show ?thesis
      by (auto simp: m1_def drain_chain_def Let_def split: list.splits)
  qed
  have "\<forall>e \<in> set m. bm_get m1 (fst e) = Some (snd e)"
    using Cons.prems(3) nin by (auto simp: m1_get image_iff)
  then have "bm_ok (fold drain_chain (merge_list w m) m1) \<and>
     bm_get (fold drain_chain (merge_list w m) m1) k =
       (if k \<in> fst ` set m
        then (case filter (\<lambda>v. w < v_commit_ts v) (the (bm_get m1 k)) of [] \<Rightarrow> None | c \<Rightarrow> Some c)
        else bm_get m1 k)"
    using Cons.prems m1_ok by (intro Cons.IH) auto
  moreover have "fold drain_chain (merge_list w (e # m)) m0 = fold drain_chain (merge_list w m) m1"
    by (simp add: merge_list_def map_filter_simps e m1_def Let_def)
  ultimately show ?case using nin c0(3) by (auto simp: m1_get e)
qed (simp add: merge_list_def map_filter_simps)

text \<open>
  What the merge needs of the tree: a successful \<open>insert\<close> or \<open>delete\<close> changes the content
  at that key and nothing else, and \<open>NotFound\<close> means the key was absent.
\<close>

locale tree_ops =
  fixes ins :: "bytes \<Rightarrow> bytes \<Rightarrow> ('p, unit) sres"
    and del :: "bytes \<Rightarrow> ('p, unit) sres"
    and content :: "'p \<Rightarrow> db_state"
    and ok :: "'p \<Rightarrow> bool"
  assumes ins_ok: "ok p \<Longrightarrow> ins k v p = (Inr u, p') \<Longrightarrow> ok p' \<and> content p' = (content p)(k := Some v)"
    and del_ok: "ok p \<Longrightarrow> del k p = (Inr u, p') \<Longrightarrow> ok p' \<and> content p' = (content p)(k := None)"
    and del_missing: "ok p \<Longrightarrow> del k p = (Inl NotFound, p') \<Longrightarrow>
      ok p' \<and> content p k = None \<and> content p' = content p"
begin

lemma merge_one_ok:
  assumes "ok p" "merge_one ins del k val p = (Inr u, p')"
  shows "ok p' \<and> content p' = (content p)(k := val)"
proof (cases val)
  case (Some v)
  with assms ins_ok show ?thesis by (auto simp: merge_one_def)
next
  case None
  with assms(2) consider "del k p = (Inr (), p')" | "del k p = (Inl NotFound, p')"
    by (auto simp: merge_one_def split: prod.splits sum.splits error.splits)
  then show ?thesis
  proof cases
    case 1
    with assms(1) None del_ok show ?thesis by auto
  next
    case 2
    with del_missing [OF assms(1) 2] None show ?thesis by (auto simp: fun_upd_idem)
  qed
qed

lemma merge_chains_ok:
  assumes "ok p" "distinct (map fst m)" "\<forall>e \<in> set m. sorted_wrt (<) (map v_commit_ts (snd e))"
    and "merge_chains ins del w m p = (Inr merged, p')"
  shows "ok p' \<and> merged = merge_list w m \<and>
     content p' k = (case map_of m k of
        None \<Rightarrow> content p k
      | Some c \<Rightarrow> (case filter (\<lambda>v. v_commit_ts v \<le> w) c of [] \<Rightarrow> content p k | vs \<Rightarrow> v_value (last vs)))"
  using assms
proof (induction m arbitrary: p merged)
  case Nil
  then show ?case by (simp add: merge_list_def map_filter_simps)
next
  case (Cons e m)
  obtain k0 c0 where e: "e = (k0, c0)" by (cases e)
  let ?lo = "filter (\<lambda>v. v_commit_ts v \<le> w) c0"
  have c0: "sorted_wrt (<) (map v_commit_ts c0)" and nin: "map_of m k0 = None"
    using Cons.prems by (auto simp: e map_of_eq_None_iff)
  note mp = merge_point [OF c0, of w]
  show ?case
  proof (cases "?lo = []")
    case True
    then have "merge_chains ins del w m p = (Inr merged, p')" using Cons.prems(4) mp(1) by (simp add: e)
    with Cons.IH [OF Cons.prems(1) _ _ this] Cons.prems(2,3) True nin show ?thesis
      by (auto simp: e merge_list_def map_filter_simps Let_def)
  next
    case False
    then obtain p1 merged1 where
      one: "merge_one ins del k0 (v_value (last ?lo)) p = (Inr (), p1)" and
      rest: "merge_chains ins del w m p1 = (Inr merged1, p')" and merged: "merged = (k0, length ?lo - 1) # merged1"
      using Cons.prems(4) mp(1,2) by (auto simp: e res_simps)
    from merge_one_ok [OF Cons.prems(1) one]
    have p1: "ok p1" "content p1 = (content p)(k0 := v_value (last ?lo))" by auto
    from Cons.IH [OF p1(1) _ _ rest] Cons.prems(2,3) False nin show ?thesis
      by (auto simp: e merged p1(2) merge_list_def map_filter_simps Let_def split: list.splits option.splits)
  qed
qed

lemma merge_si_rel:
  assumes rel: "si_rel base h tree_ts (content p) s" and "ok p"
    and w: "tree_ts \<le> w" "w < vs_next_ts s" "\<forall>(i, t) \<in> set (vs_active s). w \<le> t_snapshot t"
    and run: "merge_into_tree ins del w s p = (Inr n, s', p')"
  shows "ok p' \<and> si_rel base h w (content p') s'"
proof -
  let ?h = "filter (\<lambda>c. tree_ts < fst c) h"
  let ?m = "vs_chains s"
  have h: "sorted_wrt (<) (map fst h)" "sorted_wrt (<) (map fst ?h)" and ch: "chains_of ?h s"
    using rel by (auto simp: si_rel_def sorted_filter_fst)
  have mok: "bm_ok ?m" and get: "\<And>k. bm_get ?m k = (case versions_of k ?h of [] \<Rightarrow> None | vs \<Rightarrow> Some vs)"
    using ch by (auto simp: chains_of_def)
  have dist: "distinct (map fst ?m)" using mok by (simp add: bm_ok_def strict_sorted_iff)
  have mem: "bm_get ?m (fst e) = Some (snd e)" if "e \<in> set ?m" for e
    using that bm_get_Some_iff [OF mok] by simp
  have chain: "sorted_wrt (<) (map v_commit_ts (snd e)) \<and> snd e \<noteq> []" if "e \<in> set ?m" for e
  proof -
    have "snd e = versions_of (fst e) ?h \<and> snd e \<noteq> []"
      using mem [OF that] get [of "fst e"] by (auto split: list.splits)
    then show ?thesis using versions_of_sorted [OF h(2), of "fst e"] by metis
  qed
  obtain merged where mc: "merge_chains ins del w ?m p = (Inr merged, p')"
    and s': "s' = s\<lparr>vs_chains := fold drain_chain merged ?m\<rparr>"
    using run by (auto simp: merge_into_tree_def split: prod.splits sum.splits)
  have res: "ok p' \<and> merged = merge_list w ?m \<and> content p' k = (case map_of ?m k of
        None \<Rightarrow> content p k
      | Some c \<Rightarrow> (case filter (\<lambda>v. v_commit_ts v \<le> w) c of [] \<Rightarrow> content p k | vs \<Rightarrow> v_value (last vs)))" for k
    using chain by (intro merge_chains_ok [OF assms(2) dist _ mc]) auto
  have "content p' k = state_at base h w k" for k
    using res [of k] get [of k] state_at_split [OF h(1) w(1), of base k] rel
    by (auto simp: si_rel_def bm_get_map_of split: list.splits)
  moreover have "chains_of (filter (\<lambda>c. w < fst c) h) s'"
  proof -
    have hi: "filter (\<lambda>v. w < v_commit_ts v) (versions_of k ?h) = versions_of k (filter (\<lambda>c. w < fst c) h)" for k
    proof -
      have "filter (\<lambda>c. w < fst c) ?h = filter (\<lambda>c. w < fst c) h"
        using w(1) by (auto intro: filter_cong)
      then show ?thesis by (metis versions_of_filter [where P = "\<lambda>ts. w < ts"])
    qed
    have "bm_ok (fold drain_chain merged ?m)" and
      d: "bm_get (fold drain_chain merged ?m) k =
       (if k \<in> fst ` set ?m then (case filter (\<lambda>v. w < v_commit_ts v) (the (bm_get ?m k)) of [] \<Rightarrow> None | c \<Rightarrow> Some c)
        else bm_get ?m k)" for k
      using drain_all_get [OF dist, of ?m w] chain mem mok res by auto
    moreover have "bm_get (fold drain_chain merged ?m) k =
        (case versions_of k (filter (\<lambda>c. w < fst c) h) of [] \<Rightarrow> None | vs \<Rightarrow> Some vs)" for k
    proof (cases "bm_get ?m k")
      case None
      then have "versions_of k ?h = []" using get [of k] by (simp split: list.splits)
      then have "versions_of k (filter (\<lambda>c. w < fst c) h) = []" using hi [of k] by simp
      with None d [of k] show ?thesis by (simp add: bm_get_None_iff)
    next
      case (Some c)
      then have "c = versions_of k ?h" using get [of k] by (simp split: list.splits)
      moreover have "k \<in> fst ` set ?m" using Some bm_get_None_iff [of ?m k] by auto
      ultimately show ?thesis using Some d [of k] hi [of k] by simp
    qed
    ultimately show ?thesis by (simp add: chains_of_def s')
  qed
  ultimately show ?thesis
    using rel w res by (auto simp: si_rel_def s' txns_ok_def)
qed

end

section \<open>What a checkpoint retains\<close>

definition ts_entries :: "nat \<Rightarrow> (bytes, version list) bmap \<Rightarrow> overlay_entry list" where
  "ts_entries ts m =
     concat (map (\<lambda>e. map (\<lambda>v. (fst e, v_value v)) (filter (\<lambda>v. v_commit_ts v = ts) (snd e))) m)"

definition push_group :: "'v list option \<Rightarrow> 'v list \<Rightarrow> 'v list option" where
  "push_group old new =
     (let ys = (case old of None \<Rightarrow> [] | Some xs \<Rightarrow> xs) @ new in if ys = [] then None else Some ys)"

lemma push_group_twice:
  "push_group (push_group old xs) ys = push_group old (xs @ ys)"
  by (auto simp: push_group_def Let_def split: option.splits)

lemma push_group_ne: "push_group old xs \<noteq> Some []"
  by (auto simp: push_group_def Let_def split: list.splits)

lemma group_fold:
  assumes "bm_ok m" "bm_get m ts \<noteq> Some []"
  shows "bm_ok (fold (group_version key) c m) \<and>
     bm_get (fold (group_version key) c m) ts =
       push_group (bm_get m ts) (map (\<lambda>v. (key, v_value v)) (filter (\<lambda>v. v_commit_ts v = ts) c))"
  using assms
proof (induction c arbitrary: m)
  case Nil
  then show ?case by (auto simp: push_group_def Let_def split: option.splits list.splits)
next
  case (Cons v c)
  have "bm_ok (group_version key v m)" "bm_get (group_version key v m) ts \<noteq> Some []"
    using Cons.prems by (simp_all add: group_version_def)
  from Cons.IH [OF this] show ?case
    by (auto simp: group_version_def push_group_def Let_def)
qed

lemma group_all:
  assumes "bm_ok m" "bm_get m ts \<noteq> Some []"
  shows "bm_ok (fold (\<lambda>(key, c) m. fold (group_version key) (filter (\<lambda>v. v_commit_ts v > w) c) m) cs m) \<and>
     bm_get (fold (\<lambda>(key, c) m. fold (group_version key) (filter (\<lambda>v. v_commit_ts v > w) c) m) cs m) ts =
       push_group (bm_get m ts) (if w < ts then ts_entries ts cs else [])"
  using assms
proof (induction cs arbitrary: m)
  case Nil
  then show ?case by (auto simp: push_group_def Let_def ts_entries_def split: option.splits list.splits)
next
  case (Cons e cs)
  obtain key c where e: "e = (key, c)" by (cases e)
  let ?c = "filter (\<lambda>v. v_commit_ts v > w) c"
  note g = group_fold [OF Cons.prems, of key ?c]
  have "bm_get (fold (group_version key) ?c m) ts \<noteq> Some []"
    unfolding conjunct2 [OF g] by (rule push_group_ne)
  note IH = Cons.IH [OF conjunct1 [OF g] this]
  have "filter (\<lambda>v. v_commit_ts v = ts) ?c = (if w < ts then filter (\<lambda>v. v_commit_ts v = ts) c else [])"
    by (auto intro: filter_cong simp: filter_empty_conv)
  then show ?case
    using IH unfolding conjunct2 [OF g] push_group_twice by (simp add: e ts_entries_def)
qed

lemma versions_at_ts:
  assumes "sorted_wrt (<) (map fst h)" "(ts, ws) \<in> set h"
  shows "filter (\<lambda>v. v_commit_ts v = ts) (versions_of k h) =
     (case map_of ws k of None \<Rightarrow> [] | Some v \<Rightarrow> [\<lparr>v_commit_ts = ts, v_value = v\<rparr>])"
proof -
  have "filter (\<lambda>c. fst c = ts) h = [(ts, ws)]"
    using assms by (induction h) (force simp: filter_empty_conv)+
  then show ?thesis
    using versions_of_filter [where P = "\<lambda>n. n = ts" and h = h and k = k] by (auto split: option.splits)
qed

lemma ts_entries_eq:
  assumes "sorted_wrt (<) (map fst h)" "chains_of h s" "(ts, ws) \<in> set h" "bm_ok ws"
  shows "ts_entries ts (vs_chains s) = ws"
proof -
  have mok: "bm_ok (vs_chains s)" using assms(2) by (simp add: chains_of_def)
  have get: "snd e = versions_of (fst e) h" if "e \<in> set (vs_chains s)" for e
    using that assms(2) bm_get_Some_iff [OF mok, of "fst e" "snd e"]
    by (auto simp: chains_of_def split: list.splits)
  have "ts_entries ts m = bm_select (map_of ws) m" if "set m \<subseteq> set (vs_chains s)" for m
    using that
  proof (induction m)
    case (Cons e m)
    then have "filter (\<lambda>v. v_commit_ts v = ts) (snd e) =
        (case map_of ws (fst e) of None \<Rightarrow> [] | Some v \<Rightarrow> [\<lparr>v_commit_ts = ts, v_value = v\<rparr>])"
      using get [of e] versions_at_ts [OF assms(1,3), of "fst e"] by simp
    with Cons show ?case by (cases e) (auto simp: ts_entries_def split: option.splits)
  qed (simp add: ts_entries_def)
  then have form: "ts_entries ts (vs_chains s) = bm_select (map_of ws) (vs_chains s)" by simp
  have "k \<in> fst ` set (vs_chains s)" if k: "map_of ws k = Some v" for k v
  proof -
    have "\<exists>v \<in> set (versions_of k h). v_commit_ts v = ts"
      using assms(3) map_of_SomeD [OF k] unfolding versions_of_ex [where P = "\<lambda>n. n = ts"]
      by (intro bexI [of _ "(ts, ws)"]) force+
    then have "bm_get (vs_chains s) k \<noteq> None" using assms(2) by (auto simp: chains_of_def split: list.splits)
    then show ?thesis by (simp add: bm_get_None_iff)
  qed
  then have "bm_get (ts_entries ts (vs_chains s)) k = bm_get ws k" for k
    unfolding form bm_select_get by (cases "map_of ws k") (auto simp: bm_get_map_of)
  then show ?thesis
    using assms(4) bm_select_ok [OF mok] by (intro bm_ext) (simp_all add: form)
qed

lemma ts_entries_none:
  assumes "chains_of h s" "ts \<notin> fst ` set h"
  shows "ts_entries ts (vs_chains s) = []"
proof -
  have mok: "bm_ok (vs_chains s)" using assms(1) by (simp add: chains_of_def)
  have "v_commit_ts v \<noteq> ts" if "e \<in> set (vs_chains s)" "v \<in> set (snd e)" for e v
  proof -
    have "snd e = versions_of (fst e) h"
      using that(1) assms(1) bm_get_Some_iff [OF mok, of "fst e" "snd e"]
      by (auto simp: chains_of_def split: list.splits)
    with that(2) versions_of_ts assms(2) show ?thesis by metis
  qed
  then show ?thesis by (auto simp: ts_entries_def filter_empty_conv)
qed

lemma by_commit_ts_eq:
  assumes h: "sorted_wrt (<) (map fst h)" "chains_of h s" "\<forall>c \<in> set h. bm_ok (snd c)"
  shows "by_commit_ts w (vs_chains s) = filter (\<lambda>c. w < fst c \<and> snd c \<noteq> []) h"
proof (rule bm_ext)
  let ?r = "filter (\<lambda>c. w < fst c \<and> snd c \<noteq> []) h"
  note g = group_all [of "[]" _ w "vs_chains s", simplified, folded by_commit_ts_def]
  show "bm_ok (by_commit_ts w (vs_chains s))" using g by blast
  show rok: "bm_ok ?r" using sorted_filter_fst [OF h(1)] by (simp add: bm_ok_def)
  fix ts
  have get: "bm_get (by_commit_ts w (vs_chains s)) ts =
      push_group None (if w < ts then ts_entries ts (vs_chains s) else [])" using g by blast
  show "bm_get (by_commit_ts w (vs_chains s)) ts = bm_get ?r ts"
  proof (cases "\<exists>ws. (ts, ws) \<in> set h")
    case True
    then obtain ws where ws: "(ts, ws) \<in> set h" by blast
    have uniq: "ws' = ws" if "(ts, ws') \<in> set h" for ws'
      using h(1) that ws by (auto simp: strict_sorted_iff dest: eq_key_imp_eq_value)
    have "ts_entries ts (vs_chains s) = ws" using ts_entries_eq [OF h(1,2) ws] h(3) ws by auto
    moreover have "bm_get ?r ts = (if w < ts \<and> ws \<noteq> [] then Some ws else None)"
    proof (cases "w < ts \<and> ws \<noteq> []")
      case True
      then have "(ts, ws) \<in> set ?r" using ws by simp
      then have "bm_get ?r ts = Some ws" by (simp only: bm_get_Some_iff [OF rok])
      with True show ?thesis by simp
    next
      case False
      then have "ts \<notin> fst ` set ?r" using uniq by force
      then have "bm_get ?r ts = None" by (simp only: bm_get_None_iff not_False_eq_True)
      with False show ?thesis by simp
    qed
    ultimately show ?thesis by (simp add: get push_group_def Let_def split: list.splits)
  next
    case False
    then have "ts_entries ts (vs_chains s) = []" using ts_entries_none [OF h(2)] by force
    moreover have "bm_get ?r ts = None" using False by (auto simp: bm_get_None_iff)
    ultimately show ?thesis by (simp add: get push_group_def Let_def)
  qed
qed

lemma retained_commits_eq:
  assumes "si_rel base h w tree s" "retained_commits w s = (rs, s')"
  shows "map (\<lambda>c. (rc_commit_ts c, rc_writes c)) rs = filter (\<lambda>c. w < fst c \<and> snd c \<noteq> []) h"
    and "map rc_txn_id rs = [vs_next_txn_id s..<vs_next_txn_id s']"
    and "si_rel base h w tree s'"
proof -
  let ?h = "filter (\<lambda>c. w < fst c) h"
  have h: "sorted_wrt (<) (map fst ?h)" "chains_of ?h s" "\<forall>c \<in> set ?h. bm_ok (snd c)"
    using assms(1) by (auto simp: si_rel_def sorted_filter_fst)
  define g where "g = by_commit_ts w (vs_chains s)"
  have g: "g = filter (\<lambda>c. w < fst c \<and> snd c \<noteq> []) h"
    using by_commit_ts_eq [OF h] unfolding g_def by (auto intro: filter_cong)
  have rs: "rs = map (\<lambda>(j, ts, ws). \<lparr>rc_txn_id = vs_next_txn_id s + j, rc_commit_ts = ts, rc_writes = ws\<rparr>)
      (zip [0..<length g] g)" and s': "s' = s\<lparr>vs_next_txn_id := vs_next_txn_id s + length g\<rparr>"
    using assms(2) by (auto simp: retained_commits_def Let_def g_def)
  show "map (\<lambda>c. (rc_commit_ts c, rc_writes c)) rs = filter (\<lambda>c. w < fst c \<and> snd c \<noteq> []) h"
    unfolding g [symmetric] rs by (rule nth_equalityI) (auto split: prod.splits)
  show "map rc_txn_id rs = [vs_next_txn_id s..<vs_next_txn_id s']"
    unfolding rs s' by (rule nth_equalityI) (auto split: prod.splits)
  show "si_rel base h w tree s'"
    using assms(1) unfolding s' by (fastforce simp: si_rel_def txns_ok_def chains_of_def)
qed

section \<open>Replay\<close>

definition replay_commit :: "nat \<times> overlay_entry list \<Rightarrow> version_store \<Rightarrow> version_store" where
  "replay_commit c s = fold (\<lambda>(k, v). apply_recovered (fst c) k v) (snd c) s"

lemma apply_recovered_append:
  assumes "\<forall>v \<in> set (case bm_get (vs_chains s) k of None \<Rightarrow> [] | Some c \<Rightarrow> c). v_commit_ts v \<le> ts"
  shows "apply_recovered ts k val s =
     s\<lparr>vs_chains := push_version k \<lparr>v_commit_ts = ts, v_value = val\<rparr> (vs_chains s),
       vs_next_ts := max (vs_next_ts s) (Suc ts)\<rparr>"
proof -
  define c where "c = (case bm_get (vs_chains s) k of None \<Rightarrow> [] | Some c \<Rightarrow> c)"
  have tw: "takeWhile (\<lambda>v. v_commit_ts v \<le> ts) c = c"
    using assms by (simp add: takeWhile_eq_all_conv c_def)
  show ?thesis
    unfolding apply_recovered_def push_version_def Let_def c_def [symmetric] tw
    by (rule version_store.equality) auto
qed

lemma replay_writes:
  assumes "bm_ok (vs_chains s)" "\<forall>e \<in> set (vs_chains s). \<forall>v \<in> set (snd e). v_commit_ts v \<le> ts"
  shows "fold (\<lambda>(k, v). apply_recovered ts k v) ws s =
     s\<lparr>vs_chains := fold (\<lambda>(k, v). push_version k \<lparr>v_commit_ts = ts, v_value = v\<rparr>) ws (vs_chains s),
       vs_next_ts := (if ws = [] then vs_next_ts s else max (vs_next_ts s) (Suc ts))\<rparr>"
  using assms
proof (induction ws arbitrary: s)
  case (Cons e ws)
  obtain k val where e: "e = (k, val)" by (cases e)
  let ?m = "push_version k \<lparr>v_commit_ts = ts, v_value = val\<rparr> (vs_chains s)"
  have le: "\<forall>v \<in> set (case bm_get (vs_chains s) k of None \<Rightarrow> [] | Some c \<Rightarrow> c). v_commit_ts v \<le> ts"
    using Cons.prems(2) bm_get_set [of "vs_chains s" k]
    by (cases "bm_get (vs_chains s) k") (simp, fastforce)
  have "bm_ok ?m" "\<forall>e \<in> set ?m. \<forall>v \<in> set (snd e). v_commit_ts v \<le> ts"
    using Cons.prems le by (auto simp: push_version_def set_bm_put split: option.splits)
  then show ?case
    using Cons.IH [of "s\<lparr>vs_chains := ?m, vs_next_ts := max (vs_next_ts s) (Suc ts)\<rparr>"]
    by (simp add: e apply_recovered_append [OF le])
qed simp

lemma chains_of_replay:
  assumes "chains_of h s" "distinct (map fst ws)" "\<forall>c \<in> set h. fst c \<le> ts"
  shows "chains_of (h @ [(ts, ws)]) (replay_commit (ts, ws) s)"
    and "vs_next_ts (replay_commit (ts, ws) s) = (if ws = [] then vs_next_ts s else max (vs_next_ts s) (Suc ts))"
    and "vs_active (replay_commit (ts, ws) s) = vs_active s"
    and "vs_live_snapshots (replay_commit (ts, ws) s) = vs_live_snapshots s"
    and "vs_next_txn_id (replay_commit (ts, ws) s) = vs_next_txn_id s"
proof -
  have mok: "bm_ok (vs_chains s)" using assms(1) by (simp add: chains_of_def)
  have le: "\<forall>e \<in> set (vs_chains s). \<forall>v \<in> set (snd e). v_commit_ts v \<le> ts"
  proof (intro ballI)
    fix e v assume "e \<in> set (vs_chains s)" "v \<in> set (snd e)"
    then have "v \<in> set (versions_of (fst e) h)"
      using assms(1) bm_get_Some_iff [OF mok, of "fst e" "snd e"]
      by (auto simp: chains_of_def split: list.splits)
    then show "v_commit_ts v \<le> ts" using versions_of_ts assms(3) by fastforce
  qed
  note r = replay_writes [OF mok le, of ws]
  let ?push = "fold (\<lambda>(k, v). push_version k \<lparr>v_commit_ts = ts, v_value = v\<rparr>) ws (vs_chains s)"
  have "bm_get ?push k = (case versions_of k (h @ [(ts, ws)]) of [] \<Rightarrow> None | vs \<Rightarrow> Some vs)" for k
    using assms(1)
    by (simp add: push_all_get [OF assms(2), of "\<lambda>v. \<lparr>v_commit_ts = ts, v_value = v\<rparr>"] chains_of_def
        versions_of_append split: option.splits list.splits)
  then show "chains_of (h @ [(ts, ws)]) (replay_commit (ts, ws) s)"
    using push_all_ok [OF mok, of "\<lambda>v. \<lparr>v_commit_ts = ts, v_value = v\<rparr>"] by (simp add: chains_of_def replay_commit_def r)
  show "vs_next_ts (replay_commit (ts, ws) s) = (if ws = [] then vs_next_ts s else max (vs_next_ts s) (Suc ts))"
    "vs_active (replay_commit (ts, ws) s) = vs_active s"
    "vs_live_snapshots (replay_commit (ts, ws) s) = vs_live_snapshots s"
    "vs_next_txn_id (replay_commit (ts, ws) s) = vs_next_txn_id s"
    by (simp_all add: replay_commit_def r)
qed

end
