(* ===== verification/Isolation.thy ===== *)
theory Isolation
  imports Txn_Props
begin

text \<open>
  Whole executions of the version store: any interleaving of \<open>begin\<close>, \<open>stage\<close>,
  \<open>commit\<close>, \<open>rollback\<close> and merges, as a run labelled with its events. What a transaction
  reads is determined by the commits that precede its \<open>begin\<close> in the run; a commit is
  refused exactly when a commit after its \<open>begin\<close> wrote one of its keys.
\<close>

section \<open>Overlays\<close>

lemma visible_select:
  assumes "bm_ok m" "set m \<subseteq> set (vs_chains s)" "bm_ok (vs_chains s)"
  shows "List.map_filter (\<lambda>(key, chain). map_option (\<lambda>v. (key, v_value v))
       (List.find (\<lambda>v. v_commit_ts v \<le> n) (rev chain))) m = bm_select (\<lambda>k. visible s k n) m"
  using assms
proof (induction m)
  case (Cons e m)
  obtain k c where e: "e = (k, c)" by (cases e)
  have "bm_get (vs_chains s) k = Some c"
    using Cons.prems(2) by (simp add: e bm_get_Some_iff [OF Cons.prems(3)])
  with Cons show ?case by (auto simp: e map_filter_simps visible_def split: option.splits)
qed (simp add: map_filter_simps)

lemma overlay_eq:
  assumes "bm_ok (vs_chains s)"
  shows "overlay s n lo hi =
     (if range_panics lo hi then Inl Panic
      else Inr (bm_select (\<lambda>k. visible s k n) (filter (\<lambda>e. above lo (fst e) \<and> below hi (fst e)) (vs_chains s))))"
  using visible_select [OF bm_ok_filter [OF assms] _ assms] by (auto simp: overlay_def bm_range_def)

lemma overlay_spec:
  assumes "bm_ok (vs_chains s)" "overlay s n lo hi = Inr out"
  shows "bm_ok out" "bm_get out k = (if above lo k \<and> below hi k then visible s k n else None)"
proof -
  let ?m = "filter (\<lambda>e. above lo (fst e) \<and> below hi (fst e)) (vs_chains s)"
  have out: "out = bm_select (\<lambda>k. visible s k n) ?m"
    using assms(2) by (simp add: overlay_eq [OF assms(1)] split: if_splits)
  then show "bm_ok out" using bm_ok_filter [OF assms(1)] by (simp add: bm_select_ok)
  show "bm_get out k = (if above lo k \<and> below hi k then visible s k n else None)"
  proof (cases "k \<in> fst ` set (vs_chains s)")
    case True
    then have "k \<in> fst ` set ?m \<longleftrightarrow> above lo k \<and> below hi k" by auto
    then show ?thesis by (simp only: out bm_select_get)
  next
    case False
    then have "k \<notin> fst ` set ?m" by auto
    moreover have "visible s k n = None"
      using False by (simp add: visible_def bm_get_None_iff [symmetric])
    ultimately show ?thesis by (simp only: out bm_select_get if_False if_cancel)
  qed
qed

lemma txn_overlay_spec:
  assumes "txns_ok s" "bm_ok (vs_chains s)" "txn_get s i = Inr t" "txn_overlay s i lo hi = Inr out"
  shows "bm_ok out"
    and "bm_get out k =
     (if above lo k \<and> below hi k
      then (case bm_get (t_writes t) k of Some w \<Rightarrow> Some (as_value w) | None \<Rightarrow> visible s k (t_snapshot t))
      else None)"
proof -
  obtain committed where ov: "overlay s (t_snapshot t) lo hi = Inr committed"
    using assms(3,4) by (auto simp: txn_overlay_def res_simps)
  note c = overlay_spec [OF assms(2) ov]
  have wok: "bm_ok (t_writes t)" using txns_okD(5) [OF assms(1,3)] .
  let ?ws = "filter (\<lambda>e. above lo (fst e) \<and> below hi (fst e)) (t_writes t)"
  have wget: "bm_get ?ws k = (if above lo k \<and> below hi k then bm_get (t_writes t) k else None)" for k
    by (rule bm_get_filter_key)
  let ?vs = "map (\<lambda>e. (fst e, as_value (snd e))) ?ws"
  let ?merged = "fold (\<lambda>(k, v). bm_put k v) committed []"
  have "bm_ok ?ws" using bm_ok_filter [OF wok] .
  then have vok: "bm_ok ?vs" by (simp add: bm_ok_def comp_def)
  note m = bm_put_all [OF c(1) bm_ok_simps(1)]
  note o = bm_put_all [OF vok m(1)]
  have vget: "bm_get ?vs k = map_option as_value (bm_get ?ws k)" for k
    by (simp add: bm_get_map_of map_of_map_value)
  have eq: "(\<lambda>(k, w). bm_put k (as_value w)) = (\<lambda>e. (\<lambda>(k, v). bm_put k v) (fst e, as_value (snd e)))"
    by auto
  have out: "out = (if t_writes t = [] then committed else fold (\<lambda>(k, v). bm_put k v) ?vs ?merged)"
    using assms(3,4) ov
    by (auto simp: txn_overlay_def Let_def bm_range_def fold_map comp_def eq split: if_splits)
  show "bm_ok out" using c(1) o(1) by (simp add: out)
  show "bm_get out k =
     (if above lo k \<and> below hi k
      then (case bm_get (t_writes t) k of Some w \<Rightarrow> Some (as_value w) | None \<Rightarrow> visible s k (t_snapshot t))
      else None)"
  proof (cases "t_writes t = []")
    case True
    then show ?thesis using c(2) by (simp add: out)
  next
    case False
    then have "bm_get out k = (case bm_get ?vs k of Some v \<Rightarrow> Some v | None \<Rightarrow> bm_get committed k)"
      by (simp only: out if_False o(2) m(2)) (simp split: option.splits)
    then show ?thesis by (simp add: vget wget c(2) split: option.splits)
  qed
qed

lemma conflicting_split:
  assumes "\<forall>c \<in> set a. fst c \<le> t_snapshot t" "\<forall>c \<in> set b. t_snapshot t < fst c"
  shows "conflicting (a @ b) t \<longleftrightarrow> (\<exists>c \<in> set b. fst ` set (snd c) \<inter> fst ` set (t_writes t) \<noteq> {})"
proof -
  have "\<not> (\<exists>c \<in> set a. t_snapshot t < fst c \<and> fst ` set (snd c) \<inter> fst ` set (t_writes t) \<noteq> {})"
    using assms(1) by (blast dest: leD)
  with assms(2) show ?thesis unfolding conflicting_def set_append bex_Un by blast
qed

section \<open>Runs\<close>

datatype event =
    Begun nat
  | Staged nat bytes txn_write
  | Committed nat nat "overlay_entry list"
  | RolledBack nat
  | Merged nat

inductive store_run ::
  "(bytes \<Rightarrow> bytes \<Rightarrow> ('p, unit) sres) \<Rightarrow> (bytes \<Rightarrow> ('p, unit) sres) \<Rightarrow> version_store \<times> 'p \<Rightarrow>
     event list \<Rightarrow> version_store \<times> 'p \<Rightarrow> bool"
  for ins del st0 where
  run_init: "store_run ins del st0 [] st0"
| run_begin: "store_run ins del st0 tr (s, p) \<Longrightarrow> txn_begin ro s = (i, s') \<Longrightarrow>
     store_run ins del st0 (tr @ [Begun i]) (s', p)"
| run_stage: "store_run ins del st0 tr (s, p) \<Longrightarrow> stage i k w s = (Inr (), s') \<Longrightarrow>
     store_run ins del st0 (tr @ [Staged i k w]) (s', p)"
| run_commit: "store_run ins del st0 tr (s, p) \<Longrightarrow> txn_get s i = Inr t \<Longrightarrow>
     txn_commit i s = (Inr ts, s') \<Longrightarrow>
     store_run ins del st0 (tr @ [Committed i ts (write_set t)]) (s', p)"
| run_rollback: "store_run ins del st0 tr (s, p) \<Longrightarrow> txn_rollback i s = (Inr (), s') \<Longrightarrow>
     store_run ins del st0 (tr @ [RolledBack i]) (s', p)"
| run_merge: "store_run ins del st0 tr (s, p) \<Longrightarrow>
     merge_into_tree ins del (merge_watermark s) s p = (Inr n, s', p') \<Longrightarrow>
     store_run ins del st0 (tr @ [Merged n]) (s', p')"

fun commits :: "event list \<Rightarrow> history" where
  "commits [] = []"
| "commits (Committed i ts ws # tr) = (ts, ws) # commits tr"
| "commits (ev # tr) = commits tr"

lemma commits_append: "commits (tr @ tr') = commits tr @ commits tr'"
  by (induction tr rule: commits.induct) auto

text \<open>Where the live transactions of a state began in the run that led to it.\<close>

definition began_at :: "history \<Rightarrow> event list \<Rightarrow> nat \<Rightarrow> transaction \<Rightarrow> bool" where
  "began_at h0 tr i t \<longleftrightarrow>
     (\<exists>tr1 tr2. tr = tr1 @ Begun i # tr2 \<and> Begun i \<notin> set tr1 \<union> set tr2 \<and>
        (\<forall>c \<in> set (h0 @ commits tr1). fst c \<le> t_snapshot t) \<and> (\<forall>c \<in> set (commits tr2). t_snapshot t < fst c))"

definition run_inv :: "db_state \<Rightarrow> history \<Rightarrow> event list \<Rightarrow> nat \<Rightarrow> db_state \<Rightarrow> version_store \<Rightarrow> bool" where
  "run_inv base h0 tr tree_ts tree s \<longleftrightarrow>
     si_rel base (h0 @ commits tr) tree_ts tree s \<and>
     (\<forall>i. Begun i \<in> set tr \<longrightarrow> i < vs_next_txn_id s) \<and>
     (\<forall>(i, t) \<in> set (vs_active s). began_at h0 tr i t)"

lemma began_at_quiet:
  "began_at h0 tr i t \<Longrightarrow> commits [ev] = [] \<Longrightarrow> ev \<noteq> Begun i \<Longrightarrow> t_snapshot t' = t_snapshot t \<Longrightarrow>
     began_at h0 (tr @ [ev]) i t'"
  unfolding began_at_def
  by (elim exE, rule_tac x = tr1 in exI, rule_tac x = "tr2 @ [ev]" in exI) (auto simp: commits_append)

lemma began_at_commit:
  assumes "began_at h0 tr i t" "t_snapshot t < ts"
  shows "began_at h0 (tr @ [Committed j ts ws]) i t"
  using assms unfolding began_at_def
  by (elim exE, rule_tac x = tr1 in exI, rule_tac x = "tr2 @ [Committed j ts ws]" in exI)
    (auto simp: commits_append)

lemma run_inv_quiet:
  assumes "run_inv base h0 tr tree_ts tree s" "si_rel base (h0 @ commits tr) tree_ts' tree' s'"
    and "commits [ev] = []" "\<And>i. ev \<noteq> Begun i" "vs_next_txn_id s' = vs_next_txn_id s"
    and "\<And>i t'. (i, t') \<in> set (vs_active s') \<Longrightarrow> \<exists>t. (i, t) \<in> set (vs_active s) \<and> t_snapshot t' = t_snapshot t"
  shows "run_inv base h0 (tr @ [ev]) tree_ts' tree' s'"
  unfolding run_inv_def
proof (intro conjI ballI, goal_cases)
  case 1
  with assms(2,3) show ?case by (simp add: commits_append)
next
  case 2
  with assms(1,4,5) show ?case by (auto simp: run_inv_def)
next
  case (3 e)
  obtain i t' where e: "e = (i, t')" by (cases e)
  then obtain t where t: "(i, t) \<in> set (vs_active s)" "t_snapshot t' = t_snapshot t"
    using assms(6) 3 by blast
  then have "began_at h0 tr i t" using assms(1) by (auto simp: run_inv_def)
  with began_at_quiet [OF _ assms(3,4) t(2)] show ?case by (simp add: e)
qed

lemma run_inv_begin:
  assumes "run_inv base h0 tr tree_ts tree s" "txn_begin ro s = (i, s')"
  shows "run_inv base h0 (tr @ [Begun i]) tree_ts tree s'"
proof -
  have rel: "si_rel base (h0 @ commits tr) tree_ts tree s" and ok: "txns_ok s"
    using assms(1) by (auto simp: run_inv_def si_rel_def)
  note b = begin_txns_ok [OF ok assms(2)]
  have fresh: "Begun i \<notin> set tr" using assms(1) b(5) by (auto simp: run_inv_def)
  have old: "began_at h0 (tr @ [Begun i]) j t" if "(j, t) \<in> set (vs_active s)" for j t
  proof (rule began_at_quiet)
    show "began_at h0 tr j t" using assms(1) that by (auto simp: run_inv_def)
    show "Begun i \<noteq> Begun j" using ok that b(5) by (auto simp: txns_ok_def)
  qed auto
  have "\<forall>c \<in> set (h0 @ commits tr). fst c < vs_next_ts s" using rel unfolding si_rel_def by blast
  then have "\<forall>c \<in> set (h0 @ commits tr). fst c \<le> current_ts s" 
    unfolding current_ts_def by (intro ballI) (drule (1) bspec, simp)
  then have new: "began_at h0 (tr @ [Begun i]) i (transaction_new i (current_ts s) ro)"
    unfolding began_at_def using fresh
    by (intro exI [of _ tr] exI [of _ "[]"]) (simp add: transaction_new_def)
  show ?thesis
    using begin_si_rel [OF rel assms(2)] assms(1) b old new
    by (auto simp: run_inv_def commits_append less_Suc_eq)
qed

lemma run_inv_commit:
  assumes "run_inv base h0 tr tree_ts tree s" "txn_get s i = Inr t" "txn_commit i s = (Inr ts, s')"
  shows "run_inv base h0 (tr @ [Committed i ts (write_set t)]) tree_ts tree s'"
proof -
  have rel: "si_rel base (h0 @ commits tr) tree_ts tree s" and ok: "txns_ok s"
    using assms(1) by (auto simp: run_inv_def si_rel_def)
  have c: "ts = vs_next_ts s" "si_rel base ((h0 @ commits tr) @ [(ts, write_set t)]) tree_ts tree s'"
    "vs_active s' = bm_del i (vs_active s)" "vs_next_txn_id s' = vs_next_txn_id s"
    using commit_result [OF rel assms(2)] assms(3) by (auto split: if_splits)
  have "set (vs_active s') \<subseteq> set (vs_active s)" by (auto simp: c(3) bm_del_def)
  moreover have "t_snapshot t' < ts" if "(j, t') \<in> set (vs_active s)" for j t'
    using ok that by (auto simp: txns_ok_def c(1))
  ultimately show ?thesis
    using assms(1) c(2,4) by (auto simp: run_inv_def commits_append intro!: began_at_commit)
qed

context tree_ops
begin

lemma run_keeps_inv:
  assumes "store_run ins del (s0, p0) tr st" "ok p0" "si_rel base h0 ts0 (content p0) s0" "vs_active s0 = []"
  shows "\<exists>tree_ts. run_inv base h0 tr tree_ts (content (snd st)) (fst st) \<and> ok (snd st)"
  using assms(1)
proof induction
  case run_init
  then show ?case using assms by (auto simp: run_inv_def)
next
  case (run_begin tr s p ro i s')
  then show ?case by (auto intro: run_inv_begin)
next
  case (run_stage tr s p i k w s')
  then obtain tts where inv: "run_inv base h0 tr tts (content p) s" "ok p" by auto
  then have rel: "si_rel base (h0 @ commits tr) tts (content p) s" and tok: "txns_ok s"
    by (auto simp: run_inv_def si_rel_def)
  obtain t where t: "txn_get s i = Inr t" "vs_next_txn_id s' = vs_next_txn_id s"
    "vs_active s' = bm_put i (t\<lparr>t_writes := bm_put k w (t_writes t)\<rparr>) (vs_active s)"
    using stage_ok [OF tok run_stage(2)] by metis
  have "bm_ok (vs_active s)" using tok by (simp add: txns_ok_def)
  then have "\<exists>t1. (j, t1) \<in> set (vs_active s) \<and> t_snapshot t' = t_snapshot t1"
    if "(j, t') \<in> set (vs_active s')" for j t'
    using that txns_okD(7) [OF tok t(1)] by (auto simp: t(3) set_bm_put)
  then have "run_inv base h0 (tr @ [Staged i k w]) tts (content p) s'"
    using t(2) by (intro run_inv_quiet [OF inv(1) stage_si_rel [OF rel run_stage(2)]]) auto
  with inv(2) show ?case by auto
next
  case (run_commit tr s p i t ts s')
  then show ?case by (auto intro: run_inv_commit)
next
  case (run_rollback tr s p i s')
  then obtain tts where inv: "run_inv base h0 tr tts (content p) s" "ok p" by auto
  then have rel: "si_rel base (h0 @ commits tr) tts (content p) s" by (simp add: run_inv_def)
  obtain t where t: "txn_get s i = Inr t"
    using run_rollback(2) by (cases "txn_get s i") (auto simp: txn_rollback_def)
  have r: "si_rel base (h0 @ commits tr) tts (content p) s'" "vs_active s' = bm_del i (vs_active s)"
    "vs_next_txn_id s' = vs_next_txn_id s"
    using rollback_result [OF rel t] run_rollback(2) by auto
  have "\<exists>t1. (j, t1) \<in> set (vs_active s) \<and> t_snapshot t' = t_snapshot t1"
    if "(j, t') \<in> set (vs_active s')" for j t'
    using that by (auto simp: r(2) bm_del_def)
  then have "run_inv base h0 (tr @ [RolledBack i]) tts (content p) s'"
    using r(3) by (intro run_inv_quiet [OF inv(1) r(1)]) auto
  with inv(2) show ?case by auto
next
  case (run_merge tr s p n s' p')
  then obtain tts where inv: "run_inv base h0 tr tts (content p) s" "ok p" by auto
  then have rel: "si_rel base (h0 @ commits tr) tts (content p) s" and tok: "txns_ok s"
    by (auto simp: run_inv_def si_rel_def)
  have m: "ok p'" "si_rel base (h0 @ commits tr) (merge_watermark s) (content p') s'"
    using merge_si_rel [OF rel inv(2) watermark_bounds [OF rel] _ run_merge(2)] watermark_le_snapshots [OF tok]
    by blast+
  have s': "vs_active s' = vs_active s" "vs_next_txn_id s' = vs_next_txn_id s"
    using run_merge(2) by (auto simp: merge_into_tree_def split: prod.splits sum.splits)
  then have "run_inv base h0 (tr @ [Merged n]) (merge_watermark s) (content p') s'"
    by (intro run_inv_quiet [OF inv(1) m(2)]) auto
  with m(1) show ?case by auto
qed

text \<open>
  A live transaction reads its own writes over the database as the commits before its
  \<open>begin\<close> left it, wherever the versions are kept.
\<close>

lemma run_reads:
  assumes "store_run ins del (s0, p0) tr (s, p)" "ok p0" "si_rel base h0 ts0 (content p0) s0" "vs_active s0 = []"
    and "txn_get s i = Inr t"
  obtains tr1 tr2 r where "tr = tr1 @ Begun i # tr2" "Begun i \<notin> set tr1 \<union> set tr2" "txn_read s i k = Inr r"
    "read_through (content p) r k =
      (case bm_get (t_writes t) k of Some w \<Rightarrow> as_value w | None \<Rightarrow> fold apply_commit (h0 @ commits tr1) base k)"
    "txn_commit i s = (Inl Conflict, s) \<longleftrightarrow>
      (\<exists>c \<in> set (commits tr2). fst ` set (snd c) \<inter> fst ` set (t_writes t) \<noteq> {})"
proof -
  obtain tts where inv: "run_inv base h0 tr tts (content p) s"
    using run_keeps_inv [OF assms(1-4)] by auto
  then have rel: "si_rel base (h0 @ commits tr) tts (content p) s" and tok: "txns_ok s"
    by (auto simp: run_inv_def si_rel_def)
  have "began_at h0 tr i t" using inv txns_okD(7) [OF tok assms(5)] by (auto simp: run_inv_def)
  then obtain tr1 tr2 where tr: "tr = tr1 @ Begun i # tr2" "Begun i \<notin> set tr1 \<union> set tr2"
    and lo: "\<forall>c \<in> set (h0 @ commits tr1). fst c \<le> t_snapshot t" and hi: "\<forall>c \<in> set (commits tr2). t_snapshot t < fst c"
    unfolding began_at_def by blast
  have com: "h0 @ commits tr = (h0 @ commits tr1) @ commits tr2" by (simp add: tr(1) commits_append)
  have "filter (\<lambda>c. fst c \<le> t_snapshot t) (h0 @ commits tr1) = h0 @ commits tr1"
    using lo by (simp only: filter_id_conv)
  then have "state_at base (h0 @ commits tr) (t_snapshot t) = fold apply_commit (h0 @ commits tr1) base"
    unfolding com state_at_append [OF hi] by (simp only: state_at_def)
  note st = this
  obtain r where
    "txn_read s i k = Inr r" "read_through (content p) r k =
      (case bm_get (t_writes t) k of Some w \<Rightarrow> as_value w | None \<Rightarrow> fold apply_commit (h0 @ commits tr1) base k)"
    using txn_read_state [OF rel assms(5), of k] unfolding st by blast
  moreover have "conflicting (h0 @ commits tr) t \<longleftrightarrow>
      (\<exists>c \<in> set (commits tr2). fst ` set (snd c) \<inter> fst ` set (t_writes t) \<noteq> {})"
    unfolding com by (rule conflicting_split [OF lo hi])
  then have "txn_commit i s = (Inl Conflict, s) \<longleftrightarrow>
      (\<exists>c \<in> set (commits tr2). fst ` set (snd c) \<inter> fst ` set (t_writes t) \<noteq> {})"
    using commit_result [OF rel assms(5)] by (auto split: if_splits)
  ultimately show thesis using tr that by blast
qed

end

section \<open>Properties of transactions\<close>

text \<open>A new store over an empty tree, and the store with one transaction begun.\<close>

lemma store_new_rel: "si_rel (\<lambda>_. None) [] 0 (\<lambda>_. None) (store_new 1 1)"
  by (simp add: si_rel_def store_new_def chains_of_def txns_ok_def state_at_def)

lemma begun_rel:
  "si_rel (\<lambda>_. None) [] 0 (\<lambda>_. None) (snd (txn_begin False (store_new 1 1)))"
  "txn_get (snd (txn_begin False (store_new 1 1))) 1 = Inr (transaction_new 1 0 False)"
  using begin_si_rel [OF store_new_rel, of False]
  by (simp_all add: txn_begin_def txn_get_def store_new_def transaction_new_def current_ts_def Let_def)

text \<open>Snapshot reads. A live transaction reads, for every key, its own staged write if it
  has one and otherwise the database as of its snapshot, whatever was committed or merged into
  the tree since.\<close>

lemma snapshot_read:
  assumes "si_rel base h tree_ts tree s" "txn_get s i = Inr t"
  shows "\<exists>r. txn_read s i k = Inr r \<and> read_through tree r k =
     (case bm_get (t_writes t) k of Some w \<Rightarrow> as_value w | None \<Rightarrow> state_at base h (t_snapshot t) k)"
  using assms by (rule txn_read_state)

text \<open>C24. First committer wins. A commit is refused with \<open>Conflict\<close>, leaving the store as it
  was, exactly when a commit newer than the transaction's snapshot wrote one of its keys;
  otherwise it takes the next timestamp and the store then represents the history extended by its
  write set.\<close>

theorem first_committer_wins:
  assumes "si_rel base h tree_ts tree s" "txn_get s i = Inr t"
  shows "if conflicting h t then txn_commit i s = (Inl Conflict, s)
     else \<exists>s'. txn_commit i s = (Inr (vs_next_ts s), s') \<and>
       si_rel base (h @ [(vs_next_ts s, write_set t)]) tree_ts tree s' \<and>
       vs_active s' = bm_del i (vs_active s) \<and> vs_next_ts s' = Suc (vs_next_ts s) \<and>
       vs_next_txn_id s' = vs_next_txn_id s"
  using assms by (rule commit_result)

theorem first_committer_wins_witness:
  "\<exists>s'. txn_commit 1 (snd (txn_begin False (store_new 1 1))) = (Inr 1, s') \<and> vs_active s' = []"
proof -
  have "vs_next_ts (snd (txn_begin False (store_new 1 1))) = 1"
    "bm_del 1 (vs_active (snd (txn_begin False (store_new 1 1)))) = []"
    by (simp_all add: txn_begin_def store_new_def bm_del_def Let_def)
  then show ?thesis
    using first_committer_wins [OF begun_rel] by (auto simp: conflicting_def)
qed

text \<open>Rolling back discards the staged writes and nothing else: the store still represents
  the same history, and neither timestamps nor ids are consumed.\<close>

lemma rollback_discards:
  assumes "si_rel base h tree_ts tree s" "txn_get s i = Inr t"
  shows "\<exists>s'. txn_rollback i s = (Inr (), s') \<and> si_rel base h tree_ts tree s' \<and>
     vs_active s' = bm_del i (vs_active s) \<and> vs_chains s' = vs_chains s \<and>
     vs_next_ts s' = vs_next_ts s \<and> vs_next_txn_id s' = vs_next_txn_id s"
  using assms by (rule rollback_result)

text \<open>C31. The merge watermark never passes a live snapshot, is at least the timestamp of the
  tree and below the next timestamp, and with live transactions it is the oldest live snapshot.\<close>

theorem merge_watermark_is_oldest:
  assumes "si_rel base h tree_ts tree s"
  shows "tree_ts \<le> merge_watermark s \<and> merge_watermark s < vs_next_ts s \<and>
     (\<forall>(i, t) \<in> set (vs_active s). merge_watermark s \<le> t_snapshot t) \<and>
     (vs_active s \<noteq> [] \<longrightarrow> (\<exists>(i, t) \<in> set (vs_active s). t_snapshot t = merge_watermark s))"
proof -
  have ok: "txns_ok s" using assms by (simp add: si_rel_def)
  have "\<forall>(i, t) \<in> set (vs_active s). merge_watermark s \<le> t_snapshot t"
    using watermark_le_snapshots [OF ok] by blast
  then show ?thesis
    using watermark_bounds [OF assms] watermark_is_snapshot [OF ok] by blast
qed

theorem merge_watermark_is_oldest_witness: "merge_watermark (snd (txn_begin False (store_new 1 1))) = 0"
  using merge_watermark_is_oldest [OF begun_rel(1)]
  by (simp add: txn_begin_def store_new_def current_ts_def transaction_new_def Let_def)

text \<open>C30. What a checkpoint keeps in the log: the commits newer than the tree, whole, in commit
  order, under fresh transaction ids; no other commit is kept and none is lost.\<close>

theorem checkpoint_retains_newer:
  assumes "si_rel base h w tree s" "retained_commits w s = (rs, s')"
  shows "map (\<lambda>c. (rc_commit_ts c, rc_writes c)) rs = filter (\<lambda>c. w < fst c \<and> snd c \<noteq> []) h \<and>
     map rc_txn_id rs = [vs_next_txn_id s..<vs_next_txn_id s'] \<and> si_rel base h w tree s'"
  using retained_commits_eq [OF assms] by blast

theorem checkpoint_retains_newer_witness:
  "fst (retained_commits 0 (store_new 1 1)) = []"
  using checkpoint_retains_newer [OF store_new_rel, of "fst (retained_commits 0 (store_new 1 1))"
      "snd (retained_commits 0 (store_new 1 1))"] by simp

text \<open>The overlay a scan of a transaction merges over the tree: in key order, for each key of
  the range the transaction's own write, else the version of its snapshot, and no other key.\<close>

lemma scan_overlay_is_snapshot:
  assumes "txns_ok s" "bm_ok (vs_chains s)" "txn_get s i = Inr t" "txn_overlay s i lo hi = Inr out"
  shows "bm_ok out \<and> bm_get out k =
     (if above lo k \<and> below hi k
      then (case bm_get (t_writes t) k of Some w \<Rightarrow> Some (as_value w) | None \<Rightarrow> visible s k (t_snapshot t))
      else None)"
  using txn_overlay_spec [OF assms] by blast

end
