(* ===== verification/Pager.thy ===== *)
theory Pager
  imports Page_Access
begin

text \<open>
  The page store of \<open>pager.rs\<close>, with the positional file I/O of \<open>fsutil.rs\<close>, the
  mapping of \<open>mmap.rs\<close> and the flush journal. A \<open>disk\<close> is the database file and its
  journal as the operating system holds them. Every operating-system call consumes one
  outcome of \<open>d_io\<close>: \<open>Some k\<close> makes it fail, a write after \<open>k\<close> bytes; since a failed
  call ends the operation at once, the disk it leaves is also the disk after a crash at
  that call. The mapping is shared with the file, so it is only its length. The clean-page
  cache is the \<open>lru\<close> crate's: most recently used first, bounded by a capacity.
\<close>

section \<open>The disk\<close>

record disk =
  d_file :: bytes
  d_journal :: "bytes option"
  d_io :: "nat option list"

type_synonym 'a disk_op = "(disk, 'a) sres"

definition dio_next :: "disk \<Rightarrow> nat option \<times> disk" where
  "dio_next d = (case d_io d of [] \<Rightarrow> (None, d) | x # xs \<Rightarrow> (x, d\<lparr>d_io := xs\<rparr>))"

definition disk_call :: "unit disk_op" where
  "disk_call d = (case dio_next d of (None, d') \<Rightarrow> (Inr (), d') | (Some _, d') \<Rightarrow> (Inl Io, d'))"

text \<open>\<open>File::set_len\<close>, and a positional write, which fills a gap behind the end with zeros.\<close>

definition resize :: "nat \<Rightarrow> bytes \<Rightarrow> bytes" where
  "resize n f = take n f @ replicate (n - length f) 0"

definition file_write :: "nat \<Rightarrow> bytes \<Rightarrow> bytes \<Rightarrow> bytes" where
  "file_write off bs f =
     (if bs = [] then f else bsplice (resize (max (length f) (off + length bs)) f) off bs)"

definition write_at :: "bytes \<Rightarrow> nat \<Rightarrow> unit disk_op" where
  "write_at bs off d =
     (case dio_next d of
        (None, d') \<Rightarrow> (Inr (), d'\<lparr>d_file := file_write off bs (d_file d')\<rparr>)
      | (Some k, d') \<Rightarrow> (Inl Io, d'\<lparr>d_file := file_write off (take k bs) (d_file d')\<rparr>))"

definition file_set_len :: "nat \<Rightarrow> unit disk_op" where
  "file_set_len n = sbind disk_call (\<lambda>_. smod (\<lambda>d. d\<lparr>d_file := resize n (d_file d)\<rparr>))"

definition journal_append :: "bytes \<Rightarrow> unit disk_op" where
  "journal_append bs d =
     (case dio_next d of
        (None, d') \<Rightarrow> (Inr (), d'\<lparr>d_journal := map_option (\<lambda>j. j @ bs) (d_journal d')\<rparr>)
      | (Some k, d') \<Rightarrow> (Inl Io, d'\<lparr>d_journal := map_option (\<lambda>j. j @ take k bs) (d_journal d')\<rparr>))"

definition journal_create :: "unit disk_op" where
  "journal_create = sbind disk_call (\<lambda>_. smod (\<lambda>d. d\<lparr>d_journal := Some []\<rparr>))"

section \<open>The flush journal\<close>

definition JOURNAL_MAGIC :: nat where "JOURNAL_MAGIC = 0x5048584A524E4C31"
definition JOURNAL_END :: nat where "JOURNAL_END = 0x4A454E44"
definition JOURNAL_VERSION :: nat where "JOURNAL_VERSION = 1"
definition JOURNAL_HEADER :: nat where "JOURNAL_HEADER = 32"
definition JOURNAL_ENTRY :: nat where "JOURNAL_ENTRY = 8 + PAGE_SIZE"
definition JOURNAL_TRAILER :: nat where "JOURNAL_TRAILER = 8"

lemmas journal_consts = JOURNAL_HEADER_def JOURNAL_ENTRY_def JOURNAL_TRAILER_def

definition journal_header :: "nat \<Rightarrow> nat \<Rightarrow> bytes" where
  "journal_header count target_pages =
     to_le 8 JOURNAL_MAGIC @ to_le 4 JOURNAL_VERSION @ to_le 4 count @ to_le 4 target_pages @
     replicate 12 0"

definition journal_entry :: "nat \<Rightarrow> bytes \<Rightarrow> bytes" where
  "journal_entry pid body = to_le 4 pid @ replicate 4 0 @ body"

definition journal_trailer :: "nat \<Rightarrow> bytes" where
  "journal_trailer s = to_le 4 s @ to_le 4 JOURNAL_END"

text \<open>The pieces of a journal, in the order they are written; \<open>entries\<close> are page ids and images.\<close>

definition journal_pieces :: "(bytes \<Rightarrow> u32) \<Rightarrow> (nat \<times> bytes) list \<Rightarrow> nat \<Rightarrow> bytes list" where
  "journal_pieces crc entries target_pages =
     (let body = journal_header (length entries) target_pages # map (\<lambda>(i, b). journal_entry i b) entries
      in body @ [journal_trailer (unat (crc (concat body)))])"

definition write_journal :: "(bytes \<Rightarrow> u32) \<Rightarrow> (nat \<times> bytes) list \<Rightarrow> nat \<Rightarrow> unit disk_op" where
  "write_journal crc entries target_pages =
     sbind journal_create (\<lambda>_.
     sbind (smapM journal_append (journal_pieces crc entries target_pages)) (\<lambda>_.
     disk_call))"

definition clear_journal :: "unit disk_op" where
  "clear_journal =
     sbind disk_call (\<lambda>_.
     sbind disk_call (\<lambda>_.
     sbind (smod (\<lambda>d. d\<lparr>d_journal := map_option (\<lambda>_. []) (d_journal d)\<rparr>)) (\<lambda>_.
     disk_call)))"

definition validate_journal :: "(bytes \<Rightarrow> u32) \<Rightarrow> bytes \<Rightarrow> (nat \<times> nat) option" where
  "validate_journal crc j =
     (let len = length j in
      if len < JOURNAL_HEADER + JOURNAL_TRAILER then None
      else
        let magic = read_le j 0 8; vers = read_le j 8 4;
            count = read_le j 12 4; target_pages = read_le j 16 4
        in
        if magic \<noteq> JOURNAL_MAGIC \<or> vers \<noteq> JOURNAL_VERSION then None
        else if len \<noteq> JOURNAL_HEADER + JOURNAL_TRAILER + count * JOURNAL_ENTRY then None
        else
          let stored = read_le j (len - JOURNAL_TRAILER) 4;
              ending = read_le j (len - JOURNAL_TRAILER + 4) 4
          in
          if ending \<noteq> JOURNAL_END \<or> stored \<noteq> unat (crc (take (len - JOURNAL_TRAILER) j)) then None
          else Some (target_pages, count))"

definition replay_entry_at :: "bytes \<Rightarrow> nat \<Rightarrow> nat \<Rightarrow> unit disk_op" where
  "replay_entry_at j target_pages i =
     sbind disk_call (\<lambda>_.
       let entry = bslice j (JOURNAL_HEADER + i * JOURNAL_ENTRY) JOURNAL_ENTRY;
           pid = read_le entry 0 4
       in if pid \<ge> target_pages then serr Corruption
          else write_at (drop 8 entry) (pid * PAGE_SIZE))"

definition recover_journal :: "(bytes \<Rightarrow> u32) \<Rightarrow> unit disk_op" where
  "recover_journal crc d =
     (case d_journal d of
        None \<Rightarrow> (Inr (), d)
      | Some j \<Rightarrow>
          sbind disk_call (\<lambda>_.
            if j = [] then sret ()
            else
              sbind disk_call (\<lambda>_.
              sbind
                (case validate_journal crc j of
                   None \<Rightarrow> sret ()
                 | Some (target_pages, count) \<Rightarrow>
                     sbind (\<lambda>d. if length (d_file d) \<noteq> target_pages * PAGE_SIZE
                                 then file_set_len (target_pages * PAGE_SIZE) d else (Inr (), d)) (\<lambda>_.
                     sbind (smapM (replay_entry_at j target_pages) [0..<count]) (\<lambda>_.
                     disk_call)))
                (\<lambda>_.
              sbind disk_call (\<lambda>_.
              sbind (smod (\<lambda>d. d\<lparr>d_journal := Some []\<rparr>)) (\<lambda>_.
              disk_call))))) d)"

section \<open>The pager\<close>

record pager =
  pg_disk :: disk
  pg_map_len :: nat
  pg_file_pages :: nat
  pg_cache :: "(nat \<times> page) list"
  pg_capacity :: nat
  pg_dirty :: "(nat, page) bmap"
  pg_meta :: meta_data
  pg_meta_dirty :: bool
  pg_pool :: "bytes list"
  pg_hits :: nat
  pg_misses :: nat

type_synonym 'a pager_op = "(pager, 'a) sres"

definition GROW_CHUNK :: nat where "GROW_CHUNK = 32"

definition on_disk :: "'a disk_op \<Rightarrow> 'a pager_op" where
  "on_disk m p = (case m (pg_disk p) of (r, d) \<Rightarrow> (r, p\<lparr>pg_disk := d\<rparr>))"

fun lru_find :: "nat \<Rightarrow> (nat \<times> page) list \<Rightarrow> page option" where
  "lru_find i [] = None"
| "lru_find i ((j, q) # c) = (if i = j then Some q else lru_find i c)"

definition lru_pop :: "nat \<Rightarrow> (nat \<times> page) list \<Rightarrow> (nat \<times> page) list" where
  "lru_pop i c = filter (\<lambda>e. fst e \<noteq> i) c"

definition lru_put :: "nat \<Rightarrow> nat \<Rightarrow> page \<Rightarrow> (nat \<times> page) list \<Rightarrow> (nat \<times> page) list" where
  "lru_put cap i q c = take cap ((i, q) # lru_pop i c)"

definition page_from_pool :: "nat \<Rightarrow> page_type \<Rightarrow> page pager_op" where
  "page_from_pool pid ty p =
     (let (buf, pool) = pool_acquire (pg_pool p) in (Inr (page_new buf pid ty), p\<lparr>pg_pool := pool\<rparr>))"

definition set_meta :: "meta_data \<Rightarrow> pager \<Rightarrow> pager" where
  "set_meta m p = (if m \<noteq> pg_meta p then p\<lparr>pg_meta := m, pg_meta_dirty := True\<rparr> else p)"

definition refresh_map :: "unit pager_op" where
  "refresh_map =
     sbind (on_disk disk_call) (\<lambda>_. sbind (on_disk disk_call) (\<lambda>_.
     smod (\<lambda>p. let len = length (d_file (pg_disk p))
                in p\<lparr>pg_map_len := len, pg_file_pages := len div PAGE_SIZE\<rparr>)))"

definition ensure_file_pages :: "nat \<Rightarrow> unit pager_op" where
  "ensure_file_pages pages p =
     (if pages \<le> pg_file_pages p then (Inr (), p)
      else
        let target = max pages (pg_file_pages p + GROW_CHUNK) in
        sbind (on_disk (file_set_len (target * PAGE_SIZE))) (\<lambda>_.
        sbind (smod (\<lambda>p. p\<lparr>pg_file_pages := target\<rparr>)) (\<lambda>_.
        refresh_map)) p)"

text \<open>A page decoded from the file, through the mapping or past it.\<close>

definition load_page :: "(bytes \<Rightarrow> u32) \<Rightarrow> nat \<Rightarrow> page pager_op" where
  "load_page crc pid p =
     (let offset = pid * PAGE_SIZE in
      if offset + PAGE_SIZE \<le> pg_map_len p
      then (from_bytes crc (bslice (d_file (pg_disk p)) offset PAGE_SIZE), p)
      else
        sbind (on_disk disk_call) (\<lambda>_ p.
          if offset + PAGE_SIZE > length (d_file (pg_disk p)) then (Inl Corruption, p)
          else
            sbind (on_disk disk_call) (\<lambda>_ p.
              (from_bytes crc (bslice (d_file (pg_disk p)) offset PAGE_SIZE), p)) p) p)"

definition read_page :: "(bytes \<Rightarrow> u32) \<Rightarrow> nat \<Rightarrow> page pager_op" where
  "read_page crc pid p =
     (case bm_get (pg_dirty p) pid of
        Some q \<Rightarrow> (Inr q, p\<lparr>pg_hits := pg_hits p + 1\<rparr>)
      | None \<Rightarrow>
          (case lru_find pid (pg_cache p) of
             Some q \<Rightarrow>
               (Inr q, p\<lparr>pg_cache := (pid, q) # lru_pop pid (pg_cache p), pg_hits := pg_hits p + 1\<rparr>)
           | None \<Rightarrow>
               sbind (load_page crc pid) (\<lambda>q.
                 if page_id q \<noteq> pid then serr Corruption
                 else
                   sbind (smod (\<lambda>p. p\<lparr>pg_cache := lru_put (pg_capacity p) pid q (pg_cache p)\<rparr>))
                     (\<lambda>_. sret q)) (p\<lparr>pg_misses := pg_misses p + 1\<rparr>)))"

definition write_page :: "page \<Rightarrow> pager \<Rightarrow> pager" where
  "write_page q p =
     (let pid = page_id q
      in p\<lparr>pg_cache := lru_pop pid (pg_cache p), pg_dirty := bm_put pid q (pg_dirty p)\<rparr>)"

definition allocate_page :: "(bytes \<Rightarrow> u32) \<Rightarrow> page_type \<Rightarrow> page pager_op" where
  "allocate_page crc ty p =
     (if md_free_list (pg_meta p) \<noteq> SENTINEL then
        let pid = md_free_list (pg_meta p) in
        sbind (read_page crc pid) (\<lambda>recycled.
        sbind (slift (page_type recycled)) (\<lambda>rty.
          if rty \<noteq> Free then serr Corruption
          else
            sbind (smod (\<lambda>p. p\<lparr>pg_meta := (pg_meta p)\<lparr>md_free_list := extra recycled\<rparr>,
                              pg_meta_dirty := True\<rparr>)) (\<lambda>_.
            sbind (page_from_pool pid ty) (\<lambda>q.
            sbind (smod (write_page q)) (\<lambda>_. sret q))))) p
      else
        let pid = md_page_count (pg_meta p) in
        if pid = SENTINEL then (Inl Full, p)
        else
          sbind (smod (\<lambda>p. p\<lparr>pg_meta := (pg_meta p)\<lparr>md_page_count := pid + 1\<rparr>,
                            pg_meta_dirty := True\<rparr>)) (\<lambda>_.
          sbind (ensure_file_pages (pid + 1)) (\<lambda>_.
          sbind (page_from_pool pid ty) (\<lambda>q.
          sbind (smod (write_page q)) (\<lambda>_. sret q)))) p)"

definition free_page :: "nat \<Rightarrow> unit pager_op" where
  "free_page pid p =
     (if pid = 0 then (Inl InvalidArgument, p)
      else if pid \<ge> md_page_count (pg_meta p) then (Inl Corruption, p)
      else
        sbind (page_from_pool pid Free) (\<lambda>q p.
          let q = set_extra q (md_free_list (pg_meta p));
              p = p\<lparr>pg_meta := (pg_meta p)\<lparr>md_free_list := pid\<rparr>, pg_meta_dirty := True\<rparr>
          in (Inr (), write_page q p)) p)"

definition dirty_count :: "pager \<Rightarrow> nat" where
  "dirty_count p = length (pg_dirty p)"

section \<open>Flushing\<close>

definition flush_pages :: "(bytes \<Rightarrow> u32) \<Rightarrow> bytes \<Rightarrow> pager \<Rightarrow> page list" where
  "flush_pages crc buf p =
     map (finalize crc)
       (sort_key page_id (map snd (pg_dirty p) @ [write_meta (page_new buf 0 Meta) (pg_meta p)]))"

definition flush :: "(bytes \<Rightarrow> u32) \<Rightarrow> unit pager_op" where
  "flush crc p =
     (if pg_dirty p = [] \<and> \<not> pg_meta_dirty p then (Inr (), p)
      else
        let (buf, pool) = pool_acquire (pg_pool p);
            pages = flush_pages crc buf p;
            p = p\<lparr>pg_pool := pool\<rparr>;
            max_id = (if pages = [] then 0 else page_id (last pages));
            target_pages = max (pg_file_pages p) (max_id + 1)
        in
        sbind (on_disk (write_journal crc (map (\<lambda>q. (page_id q, q)) pages) target_pages)) (\<lambda>_.
        sbind (ensure_file_pages target_pages) (\<lambda>_.
        sbind (on_disk (smapM (\<lambda>q. write_at q (page_id q * PAGE_SIZE)) pages)) (\<lambda>_.
        sbind (on_disk disk_call) (\<lambda>_.
        sbind (on_disk clear_journal) (\<lambda>_.
        smod (\<lambda>p. p\<lparr>pg_dirty := [], pg_meta_dirty := False,
               pg_cache := fold (\<lambda>q. lru_put (pg_capacity p) (page_id q) q) pages (pg_cache p)\<rparr>)))))) p)"

definition discard_dirty :: "meta_data \<Rightarrow> pager \<Rightarrow> pager" where
  "discard_dirty m p =
     p\<lparr>pg_dirty := [], pg_meta_dirty := (m \<noteq> pg_meta p \<or> pg_meta_dirty p), pg_meta := m\<rparr>"

section \<open>Opening and restoring\<close>

definition pager_new :: "disk \<Rightarrow> nat \<Rightarrow> pager" where
  "pager_new d cache_pages =
     \<lparr>pg_disk = d, pg_map_len = 0, pg_file_pages = length (d_file d) div PAGE_SIZE,
      pg_cache = [], pg_capacity = max cache_pages 16, pg_dirty = [], pg_meta = meta_default,
      pg_meta_dirty = False, pg_pool = [], pg_hits = 0, pg_misses = 0\<rparr>"

definition initialize :: "(bytes \<Rightarrow> u32) \<Rightarrow> unit pager_op" where
  "initialize crc =
     sbind (ensure_file_pages 2) (\<lambda>_.
     let m = meta_default in
     sbind (page_from_pool 0 Meta) (\<lambda>q.
     sbind (on_disk (write_at (finalize crc (write_meta q m)) 0)) (\<lambda>_.
     sbind (page_from_pool (md_root m) Leaf) (\<lambda>root.
     sbind (on_disk (write_at (finalize crc (set_extra root SENTINEL)) (md_root m * PAGE_SIZE))) (\<lambda>_.
     sbind (on_disk disk_call) (\<lambda>_.
     sbind (smod (\<lambda>p. p\<lparr>pg_meta := m\<rparr>)) (\<lambda>_.
     refresh_map)))))))"

text \<open>\<open>busy\<close> says whether another handle holds the lock on the file.\<close>

definition pager_open :: "(bytes \<Rightarrow> u32) \<Rightarrow> nat \<Rightarrow> bool \<Rightarrow> disk \<Rightarrow> unit res \<times> pager" where
  "pager_open crc cache_pages busy d =
     (case sbind disk_call (\<lambda>_. if busy then serr Busy else recover_journal crc) d of
        (Inl e, d) \<Rightarrow> (Inl e, pager_new d cache_pages)
      | (Inr _, d) \<Rightarrow>
          sbind (on_disk disk_call) (\<lambda>_ p.
            if length (d_file (pg_disk p)) = 0 then initialize crc p
            else if length (d_file (pg_disk p)) mod PAGE_SIZE \<noteq> 0 then (Inl Corruption, p)
            else
              sbind refresh_map (\<lambda>_.
              sbind (read_page crc 0) (\<lambda>q.
              sbind (slift (read_meta q)) (\<lambda>m.
              sbind (smod (\<lambda>p. p\<lparr>pg_meta := m\<rparr>)) (\<lambda>_ p.
                if md_page_count m > pg_file_pages p then (Inl Corruption, p)
                else (Inr (), p))))) p) (pager_new d cache_pages))"

definition src_page :: "(bytes \<Rightarrow> u32) \<Rightarrow> bytes \<Rightarrow> nat \<Rightarrow> unit pager_op" where
  "src_page crc src i =
     sbind (on_disk disk_call) (\<lambda>_.
       if (i + 1) * PAGE_SIZE > length src then serr Io
       else slift (rbind (from_bytes crc (bslice src (i * PAGE_SIZE) PAGE_SIZE)) (\<lambda>_. Inr ())))"

text \<open>
  \<open>src\<close> is the content of the backup file, \<open>same\<close> whether its path is the database's own.
\<close>

definition replace_contents :: "(bytes \<Rightarrow> u32) \<Rightarrow> bool \<Rightarrow> bytes \<Rightarrow> unit pager_op" where
  "replace_contents crc same src =
     (if same then serr InvalidArgument
      else
        sbind (on_disk disk_call) (\<lambda>_.
        if length src = 0 \<or> length src mod PAGE_SIZE \<noteq> 0 then serr Corruption
        else
          let pages = length src div PAGE_SIZE in
          if pages \<ge> 4294967296 then serr Full
          else
            sbind (on_disk disk_call) (\<lambda>_.
            sbind (slift (rbind (from_bytes crc (bslice src 0 PAGE_SIZE)) read_meta)) (\<lambda>m.
            if md_page_count m > pages \<or> md_root m \<ge> md_page_count m then serr Corruption
            else
              sbind (smapM (src_page crc src) [1..<md_page_count m]) (\<lambda>_.
              sbind (on_disk (write_journal crc
                  (map (\<lambda>i. (i, bslice src (i * PAGE_SIZE) PAGE_SIZE)) [0..<pages]) pages)) (\<lambda>_.
              sbind (smod (\<lambda>p. p\<lparr>pg_map_len := 0, pg_dirty := [], pg_cache := []\<rparr>)) (\<lambda>_ p.
                case on_disk (recover_journal crc) p of
                  (applied, p) \<Rightarrow>
                    sbind refresh_map (\<lambda>_.
                    sbind (slift applied) (\<lambda>_.
                    sbind (read_page crc 0) (\<lambda>q.
                    sbind (slift (read_meta q)) (\<lambda>m.
                    smod (\<lambda>p. p\<lparr>pg_meta := m, pg_meta_dirty := False\<rparr>))))) p)))))))"

section \<open>Overflow chains\<close>

function chunks :: "nat \<Rightarrow> bytes \<Rightarrow> bytes list" where
  "chunks n bs = (if bs = [] \<or> n = 0 then [] else take n bs # chunks n (drop n bs))"
  by pat_completeness auto
termination
  by (relation "measure (\<lambda>(n, bs). length bs)") auto

declare chunks.simps [simp del]

fun write_chain :: "(bytes \<Rightarrow> u32) \<Rightarrow> bytes list \<Rightarrow> nat \<Rightarrow> nat pager_op" where
  "write_chain crc [] nxt = sret nxt"
| "write_chain crc (c # cs) nxt =
     sbind (allocate_page crc Overflow) (\<lambda>q.
     sbind (slift (write_overflow q c nxt)) (\<lambda>q.
     sbind (smod (write_page q)) (\<lambda>_.
     write_chain crc cs (page_id q))))"

definition write_overflow_chain :: "(bytes \<Rightarrow> u32) \<Rightarrow> bytes \<Rightarrow> nat pager_op" where
  "write_overflow_chain crc val = write_chain crc (rev (chunks OVERFLOW_PAYLOAD val)) SENTINEL"

text \<open>\<open>links\<close> is the number of links that may still be followed.\<close>

fun read_chain :: "(bytes \<Rightarrow> u32) \<Rightarrow> nat \<Rightarrow> nat \<Rightarrow> nat \<Rightarrow> bytes \<Rightarrow> bytes pager_op" where
  "read_chain crc total_len links cursor out =
     (if cursor = SENTINEL then
        (if length out \<noteq> total_len then serr Corruption else sret out)
      else
        (case links of
           0 \<Rightarrow> serr Corruption
         | Suc links' \<Rightarrow>
             sbind (read_page crc cursor) (\<lambda>q.
             sbind (slift (read_overflow q)) (\<lambda>bs.
               if length out + length bs > total_len then serr Corruption
               else read_chain crc total_len links' (extra q) (out @ bs)))))"

declare read_chain.simps [simp del]

definition read_overflow_chain :: "(bytes \<Rightarrow> u32) \<Rightarrow> nat \<Rightarrow> nat \<Rightarrow> bytes pager_op" where
  "read_overflow_chain crc head total_len p =
     (let max_links = total_len div OVERFLOW_PAYLOAD + 2 in
      if max_links > md_page_count (pg_meta p) then (Inl Corruption, p)
      else read_chain crc total_len max_links head [] p)"

fun free_chain :: "(bytes \<Rightarrow> u32) \<Rightarrow> nat \<Rightarrow> nat \<Rightarrow> unit pager_op" where
  "free_chain crc links cursor =
     (if cursor = SENTINEL then sret ()
      else
        (case links of
           0 \<Rightarrow> serr Corruption
         | Suc links' \<Rightarrow>
             sbind (read_page crc cursor) (\<lambda>q.
             sbind (slift (page_type q)) (\<lambda>ty.
               if ty \<noteq> Overflow then serr Corruption
               else
                 sbind (free_page cursor) (\<lambda>_. free_chain crc links' (extra q))))))"

declare free_chain.simps [simp del]

definition free_overflow_chain :: "(bytes \<Rightarrow> u32) \<Rightarrow> nat \<Rightarrow> unit pager_op" where
  "free_overflow_chain crc head p = free_chain crc (md_page_count (pg_meta p)) head p"

end
