(* ===== verification/Pager_Props.thy ===== *)
theory Pager_Props
  imports Pager
begin

text \<open>
  The pager as a store of pages. \<open>pview\<close> is the page a caller gets for an id, wherever its
  bytes are (staged, cached, in the file); \<open>pager_ok\<close> is the coherence of the three tiers.
  Reads do not change the view, writes change it at one id, allocation and freeing maintain
  the free list, and a flush moves the staged pages to the file without changing the view.
\<close>

section \<open>The disk\<close>

lemma dio_next_frame:
  "dio_next d = (x, d') \<Longrightarrow> d_file d' = d_file d \<and> d_journal d' = d_journal d"
  by (auto simp: dio_next_def split: list.splits)

lemma disk_call_frame:
  "disk_call d = (r, d') \<Longrightarrow> d_file d' = d_file d \<and> d_journal d' = d_journal d"
  by (auto simp: disk_call_def dest!: dio_next_frame split: prod.splits option.splits)

lemma on_disk_result:
  "on_disk m p = (r, p') \<longleftrightarrow> (\<exists>d. m (pg_disk p) = (r, d) \<and> p' = p\<lparr>pg_disk := d\<rparr>)"
  by (auto simp: on_disk_def split: prod.splits)

lemma length_resize [simp]: "length (resize n f) = n"
  by (simp add: resize_def)

lemma bslice_resize: "off + n \<le> length f \<Longrightarrow> off + n \<le> m \<Longrightarrow> bslice (resize m f) off n = bslice f off n"
  by (simp add: bslice_def resize_def drop_take min_def)

lemma bslice_resize_new:
  assumes "length f \<le> off" "off + n \<le> m"
  shows "bslice (resize m f) off n = replicate n 0"
proof -
  have "take m f = f" using assms by simp
  then show ?thesis using assms by (simp add: bslice_def resize_def)
qed

lemma length_file_write: "bs \<noteq> [] \<Longrightarrow> length (file_write off bs f) = max (length f) (off + length bs)"
  by (simp add: file_write_def length_bsplice)

section \<open>Pages in the file\<close>

definition file_page :: "(bytes \<Rightarrow> u32) \<Rightarrow> bytes \<Rightarrow> nat \<Rightarrow> page option" where
  "file_page crc f i =
     (if (i + 1) * PAGE_SIZE \<le> length f then
        (case from_bytes crc (bslice f (i * PAGE_SIZE) PAGE_SIZE) of
           Inl _ \<Rightarrow> None
         | Inr q \<Rightarrow> if page_id q = i then Some q else None)
      else None)"

lemma file_page_Some:
  assumes "file_page crc f i = Some q"
  shows "length q = 4096" "page_id q = i" "q = bslice f (i * PAGE_SIZE) PAGE_SIZE" "(i + 1) * PAGE_SIZE \<le> length f"
    "from_bytes crc q = Inr q"
proof -
  from assms have *: "(i + 1) * PAGE_SIZE \<le> length f" "page_id q = i"
    and fb: "from_bytes crc (bslice f (i * PAGE_SIZE) PAGE_SIZE) = Inr q"
    by (auto simp: file_page_def split: if_splits sum.splits)
  then show "page_id q = i" "(i + 1) * PAGE_SIZE \<le> length f" by auto
  from from_bytes_accepts [OF fb] show "length q = 4096" "q = bslice f (i * PAGE_SIZE) PAGE_SIZE"
    by (auto simp: page_consts)
  with fb show "from_bytes crc q = Inr q" by simp
qed

lemma zero_page_id: "page_id (replicate 4096 0) = 0"
  by (simp add: page_id_def read_le_def bslice_def page_consts numeral_eq_Suc)

lemma file_page_resize:
  assumes "length f mod PAGE_SIZE = 0" "length f \<le> n" "0 < length f"
  shows "file_page crc (resize n f) i = file_page crc f i"
proof (cases "(i + 1) * PAGE_SIZE \<le> length f")
  case True
  then have "bslice (resize n f) (i * PAGE_SIZE) PAGE_SIZE = bslice f (i * PAGE_SIZE) PAGE_SIZE"
    using assms(2) by (intro bslice_resize) auto
  with True assms(2) show ?thesis by (simp add: file_page_def)
next
  case False
  obtain m where m: "length f = m * PAGE_SIZE" using assms(1) by (metis div_mult_mod_eq add_0_right)
  have "m \<le> i" "0 < i" using False assms(3) by (auto simp: m page_consts)
  then have "length f \<le> i * PAGE_SIZE" by (simp add: m page_consts)
  then have "bslice (resize n f) (i * PAGE_SIZE) PAGE_SIZE = replicate 4096 0" if "(i + 1) * PAGE_SIZE \<le> n"
    using that bslice_resize_new [of f "i * PAGE_SIZE" 4096 n] by (simp add: page_consts)
  moreover have "page_id q \<noteq> i" if "from_bytes crc (replicate 4096 0) = Inr q" for q
    using from_bytes_accepts [OF that] zero_page_id \<open>0 < i\<close> by auto
  ultimately show ?thesis using False by (auto simp: file_page_def split: sum.splits)
qed

section \<open>The view and its invariant\<close>

definition pview :: "(bytes \<Rightarrow> u32) \<Rightarrow> pager \<Rightarrow> nat \<Rightarrow> page option" where
  "pview crc p i =
     (case bm_get (pg_dirty p) i of Some q \<Rightarrow> Some q | None \<Rightarrow> file_page crc (d_file (pg_disk p)) i)"

definition pager_ok :: "(bytes \<Rightarrow> u32) \<Rightarrow> pager \<Rightarrow> bool" where
  "pager_ok crc p \<longleftrightarrow>
     bm_ok (pg_dirty p) \<and> (\<forall>(i, q) \<in> set (pg_dirty p). page_id q = i \<and> length q = 4096) \<and>
     (\<forall>(i, q) \<in> set (pg_cache p). bm_get (pg_dirty p) i = None \<and> file_page crc (d_file (pg_disk p)) i = Some q) \<and>
     0 < length (d_file (pg_disk p)) \<and> pg_file_pages p * PAGE_SIZE = length (d_file (pg_disk p)) \<and>
     pg_map_len p \<le> length (d_file (pg_disk p)) \<and> (\<forall>b \<in> set (pg_pool p). length b = 4096) \<and>
     meta_in_range (pg_meta p)"

text \<open>What every operation below keeps: the invariant, and nothing of the view but what it says.\<close>

definition same_view :: "(bytes \<Rightarrow> u32) \<Rightarrow> pager \<Rightarrow> pager \<Rightarrow> bool" where
  "same_view crc p p' \<longleftrightarrow>
     pager_ok crc p' \<and> pview crc p' = pview crc p \<and> pg_meta p' = pg_meta p \<and> pg_dirty p' = pg_dirty p"

lemma pview_cong:
  "pg_dirty p' = pg_dirty p \<Longrightarrow> d_file (pg_disk p') = d_file (pg_disk p) \<Longrightarrow> pview crc p' = pview crc p"
  by (simp add: pview_def fun_eq_iff split: option.splits)

text \<open>Changes of the cache, the counters and the outcome list only.\<close>

lemma same_viewI:
  assumes "pager_ok crc p" "pg_dirty p' = pg_dirty p" "d_file (pg_disk p') = d_file (pg_disk p)"
    "pg_file_pages p' = pg_file_pages p" "pg_map_len p' = pg_map_len p" "pg_pool p' = pg_pool p"
    "pg_meta p' = pg_meta p"
    and "\<And>i q. (i, q) \<in> set (pg_cache p') \<Longrightarrow> (i, q) \<in> set (pg_cache p) \<or>
      (bm_get (pg_dirty p) i = None \<and> file_page crc (d_file (pg_disk p)) i = Some q)"
  shows "same_view crc p p'"
  using assms pview_cong [OF assms(2,3), of crc] by (fastforce simp: same_view_def pager_ok_def)

lemma pview_fields:
  assumes "pager_ok crc p" "pview crc p i = Some q"
  shows "length q = 4096" "page_id q = i"
proof -
  have "length q = 4096 \<and> page_id q = i"
  proof (cases "bm_get (pg_dirty p) i")
    case None
    with assms(2) have "file_page crc (d_file (pg_disk p)) i = Some q" by (simp add: pview_def)
    with file_page_Some show ?thesis by blast
  next
    case (Some q')
    with assms have "(i, q) \<in> set (pg_dirty p)" by (auto simp: pview_def dest: bm_get_set)
    with assms(1) show ?thesis by (auto simp: pager_ok_def)
  qed
  then show "length q = 4096" "page_id q = i" by auto
qed

lemma lru_find_set: "lru_find i c = Some q \<Longrightarrow> (i, q) \<in> set c"
  by (induction i c rule: lru_find.induct) (auto split: if_splits)

lemma set_lru_pop: "set (lru_pop i c) \<subseteq> set c" "(j, q) \<in> set (lru_pop i c) \<Longrightarrow> j \<noteq> i"
  by (auto simp: lru_pop_def)

lemma set_lru_put: "set (lru_put cap i q c) \<subseteq> insert (i, q) (set (lru_pop i c))"
  unfolding lru_put_def by (metis list.set(2) set_take_subset)

lemma load_page_ok:
  assumes "pager_ok crc p" "load_page crc i p = (r, p')"
  shows "\<exists>d. p' = p\<lparr>pg_disk := d\<rparr> \<and> d_file d = d_file (pg_disk p) \<and>
     (\<forall>q. r = Inr q \<longrightarrow> (i + 1) * PAGE_SIZE \<le> length (d_file d) \<and>
        from_bytes crc (bslice (d_file d) (i * PAGE_SIZE) PAGE_SIZE) = Inr q)"
proof (cases "i * PAGE_SIZE + PAGE_SIZE \<le> pg_map_len p")
  case True
  with assms show ?thesis
    by (intro exI [of _ "pg_disk p"]) (auto simp: load_page_def pager_ok_def)
next
  case False
  with assms(2) show ?thesis
    by (auto simp: load_page_def sbind_def on_disk_def Let_def dest!: disk_call_frame
        split: prod.splits sum.splits if_splits)
qed

lemma read_page_ok:
  assumes ok: "pager_ok crc p" and run: "read_page crc i p = (r, p')"
  shows "same_view crc p p'" and "r = Inr q \<Longrightarrow> pview crc p i = Some q"
proof -
  have "same_view crc p p' \<and> (r = Inr q \<longrightarrow> pview crc p i = Some q)"
  proof (cases "bm_get (pg_dirty p) i")
    case (Some q')
    with run have "r = Inr q'" "p' = p\<lparr>pg_hits := pg_hits p + 1\<rparr>" by (auto simp: read_page_def)
    with Some same_viewI [OF ok, of p'] show ?thesis by (simp add: pview_def)
  next
    case None
    note dirty = None
    show ?thesis
    proof (cases "lru_find i (pg_cache p)")
      case (Some q')
      then have mem: "(i, q') \<in> set (pg_cache p)" by (rule lru_find_set)
      then have "file_page crc (d_file (pg_disk p)) i = Some q'" using ok by (auto simp: pager_ok_def)
      moreover have "r = Inr q'" "p' = p\<lparr>pg_cache := (i, q') # lru_pop i (pg_cache p), pg_hits := pg_hits p + 1\<rparr>"
        using run dirty Some by (auto simp: read_page_def)
      moreover from this have "same_view crc p p'"
        using mem set_lru_pop(1) [of i "pg_cache p"] by (intro same_viewI [OF ok]) auto
      ultimately show ?thesis using dirty by (auto simp: pview_def)
    next
      case None
      let ?p0 = "p\<lparr>pg_misses := pg_misses p + 1\<rparr>"
      have ok0: "pager_ok crc ?p0" using ok by (simp add: pager_ok_def)
      obtain r1 p1 where l: "load_page crc i ?p0 = (r1, p1)" by (cases "load_page crc i ?p0")
      obtain d where d: "p1 = ?p0\<lparr>pg_disk := d\<rparr>" "d_file d = d_file (pg_disk p)"
        "\<And>q. r1 = Inr q \<Longrightarrow> (i + 1) * PAGE_SIZE \<le> length (d_file d) \<and>
          from_bytes crc (bslice (d_file d) (i * PAGE_SIZE) PAGE_SIZE) = Inr q"
        using load_page_ok [OF ok0 l] by auto
      have p1: "same_view crc p p1"
        by (rule same_viewI [OF ok]) (auto simp: d)
      show ?thesis
      proof (cases "\<exists>q1. r1 = Inr q1 \<and> page_id q1 = i")
        case False
        then have "p' = p1 \<and> (\<forall>q. r \<noteq> Inr q)"
          using run dirty None l by (auto simp: read_page_def sbind_def split: sum.splits if_splits)
        with p1 show ?thesis by auto
      next
        case True
        then obtain q1 where q1: "r1 = Inr q1" "page_id q1 = i" by blast
        then have fp: "file_page crc (d_file (pg_disk p)) i = Some q1" using d(2,3) by (simp add: file_page_def)
        have "r = Inr q1" "p' = p1\<lparr>pg_cache := lru_put (pg_capacity p1) i q1 (pg_cache p1)\<rparr>"
          using run dirty None l q1 by (auto simp: read_page_def)
        moreover from this have "same_view crc p p'"
          using fp dirty set_lru_put [of "pg_capacity p1" i q1 "pg_cache p1"] set_lru_pop(1) [of i "pg_cache p1"]
          by (intro same_viewI [OF ok]) (auto simp: d)
        ultimately show ?thesis using fp dirty by (auto simp: pview_def)
      qed
    qed
  qed
  then show "same_view crc p p'" "r = Inr q \<Longrightarrow> pview crc p i = Some q" by auto
qed

lemma write_page_ok:
  assumes "pager_ok crc p" "length q = 4096"
  shows "pager_ok crc (write_page q p)" "pview crc (write_page q p) = (pview crc p)(page_id q := Some q)"
    "pg_meta (write_page q p) = pg_meta p" "fst ` set (pg_dirty (write_page q p)) = insert (page_id q) (fst ` set (pg_dirty p))"
proof -
  show "pager_ok crc (write_page q p)"
    using assms set_lru_pop(1) [of "page_id q" "pg_cache p"] set_lru_pop(2) [of _ _ "page_id q" "pg_cache p"]
    by (fastforce simp: pager_ok_def write_page_def Let_def set_bm_put)
  show "pview crc (write_page q p) = (pview crc p)(page_id q := Some q)" "pg_meta (write_page q p) = pg_meta p"
    "fst ` set (pg_dirty (write_page q p)) = insert (page_id q) (fst ` set (pg_dirty p))"
    by (auto simp: write_page_def Let_def pview_def fun_eq_iff split: option.splits)
qed

section \<open>Growing, allocating and freeing\<close>

lemma page_from_pool_ok:
  assumes "pager_ok crc p" "page_from_pool pid ty p = (r, p')"
  obtains buf where "r = Inr (page_new buf pid ty)" "length buf = 4096" "same_view crc p p'"
proof -
  obtain buf pool where b: "pool_acquire (pg_pool p) = (buf, pool)" by (cases "pool_acquire (pg_pool p)")
  then have r: "r = Inr (page_new buf pid ty)" and p': "p' = p\<lparr>pg_pool := pool\<rparr>"
    using assms(2) by (auto simp: page_from_pool_def)
  have pool: "\<forall>x \<in> set (pg_pool p). length x = 4096" using assms(1) by (simp add: pager_ok_def)
  have "set pool \<subseteq> set (pg_pool p)" and "length buf = 4096"
    using b pool by (auto simp: pool_acquire_def page_consts split: if_splits dest: in_set_butlastD)
  moreover from this have "same_view crc p p'"
    using assms(1) pview_cong [of p' p crc] pool unfolding p' by (auto simp: same_view_def pager_ok_def)
  ultimately show thesis using that r by blast
qed

lemma refresh_map_ok:
  assumes "pager_ok crc p" "refresh_map p = (r, p')"
  shows "same_view crc p p'"
proof -
  have len: "length (d_file (pg_disk p)) = pg_file_pages p * PAGE_SIZE" using assms(1) by (simp add: pager_ok_def)
  from assms(2) have "pg_dirty p' = pg_dirty p \<and> d_file (pg_disk p') = d_file (pg_disk p) \<and> pg_cache p' = pg_cache p \<and>
     pg_pool p' = pg_pool p \<and> pg_meta p' = pg_meta p \<and> pg_file_pages p' = pg_file_pages p \<and>
     pg_map_len p' \<le> length (d_file (pg_disk p'))"
    using len assms(1)
    by (auto simp: refresh_map_def sbind_def on_disk_def Let_def pager_ok_def page_consts dest!: disk_call_frame
        split: prod.splits sum.splits)
  then show ?thesis
    using assms(1) pview_cong [of p' p crc] by (auto simp: same_view_def pager_ok_def)
qed

lemma set_len_result:
  "on_disk disk_call p = (Inl e, p1) \<Longrightarrow> on_disk (file_set_len n) p = (Inl e, p1)"
  "on_disk disk_call p = (Inr u, p1) \<Longrightarrow>
     on_disk (file_set_len n) p = (Inr (), p1\<lparr>pg_disk := (pg_disk p1)\<lparr>d_file := resize n (d_file (pg_disk p1))\<rparr>\<rparr>)"
  by (auto simp: on_disk_def file_set_len_def sbind_def split: prod.splits)

lemma ensure_file_pages_ok:
  assumes ok: "pager_ok crc p" and run: "ensure_file_pages n p = (r, p')"
  shows "same_view crc p p'"
proof (cases "n \<le> pg_file_pages p")
  case True
  with run ok show ?thesis by (simp add: ensure_file_pages_def same_view_def)
next
  case False
  let ?t = "max n (pg_file_pages p + GROW_CHUNK)"
  obtain r1 p1 where c: "on_disk disk_call p = (r1, p1)" by (cases "on_disk disk_call p")
  then obtain d where p1: "p1 = p\<lparr>pg_disk := d\<rparr>" "d_file d = d_file (pg_disk p)"
    by (auto simp: on_disk_result dest!: disk_call_frame)
  have v1: "same_view crc p p1" by (rule same_viewI [OF ok]) (auto simp: p1)
  show ?thesis
  proof (cases r1)
    case (Inl e)
    then have "p' = p1"
      using run False set_len_result(1) [of p e p1] c by (simp add: ensure_file_pages_def Let_def)
    with v1 show ?thesis by simp
  next
    case (Inr u)
    let ?p2 = "p1\<lparr>pg_disk := d\<lparr>d_file := resize (?t * PAGE_SIZE) (d_file d)\<rparr>, pg_file_pages := ?t\<rparr>"
    have len: "length (d_file d) = pg_file_pages p * PAGE_SIZE" "0 < length (d_file d)" "pg_map_len p \<le> length (d_file d)"
      using ok by (auto simp: pager_ok_def p1(2))
    have le: "length (d_file d) \<le> ?t * PAGE_SIZE" unfolding len(1) by (simp add: page_consts)
    have fp: "file_page crc (resize (?t * PAGE_SIZE) (d_file d)) i = file_page crc (d_file d) i" for i
      by (rule file_page_resize [OF _ le len(2)]) (simp add: len(1))
    have run2: "refresh_map ?p2 = (r, p')"
      using run False set_len_result(2) [of p u p1] c Inr by (simp add: ensure_file_pages_def Let_def p1(1))
    have ok2: "pager_ok crc ?p2"
      using v1 fp len(2) le_trans [OF len(3) le]
      by (auto simp: same_view_def pager_ok_def p1(1) GROW_CHUNK_def PAGE_SIZE_def)
    have "pview crc ?p2 = pview crc p1"
      using fp by (auto simp: pview_def fun_eq_iff p1(1) split: option.splits)
    then show ?thesis using refresh_map_ok [OF ok2 run2] v1 by (auto simp: same_view_def p1)
  qed
qed

lemma extra_bound: "extra q < 2 ^ 32"
  using read_le_bound [of q OFF_EXTRA 4] by (simp add: extra_def)

lemma page_id_bound: "page_id q < 2 ^ 32"
  using read_le_bound [of q OFF_PAGE_ID 4] by (simp add: page_id_def)

definition alloc_result ::
  "(bytes \<Rightarrow> u32) \<Rightarrow> page_type \<Rightarrow> pager \<Rightarrow> page \<Rightarrow> pager \<Rightarrow> bool" where
  "alloc_result crc ty p q p' \<longleftrightarrow>
     pager_ok crc p' \<and> (\<exists>buf. length buf = 4096 \<and> q = page_new buf (page_id q) ty) \<and>
     pview crc p' = (pview crc p)(page_id q := Some q) \<and>
     fst ` set (pg_dirty p') = insert (page_id q) (fst ` set (pg_dirty p)) \<and>
     (if md_free_list (pg_meta p) = SENTINEL
      then page_id q = md_page_count (pg_meta p) \<and> page_id q \<noteq> SENTINEL \<and>
        pg_meta p' = (pg_meta p)\<lparr>md_page_count := page_id q + 1\<rparr>
      else page_id q = md_free_list (pg_meta p) \<and>
        (\<exists>old. pview crc p (page_id q) = Some old \<and> page_type old = Inr Free \<and>
           pg_meta p' = (pg_meta p)\<lparr>md_free_list := extra old\<rparr>))"

lemma set_meta_field_ok:
  assumes "pager_ok crc p" "meta_in_range m"
  shows "pager_ok crc (p\<lparr>pg_meta := m, pg_meta_dirty := b\<rparr>)"
    "pview crc (p\<lparr>pg_meta := m, pg_meta_dirty := b\<rparr>) = pview crc p"
  using assms by (auto simp: pager_ok_def pview_def fun_eq_iff split: option.splits)

lemma fresh_page_ok:
  assumes "pager_ok crc p" "pid < 2 ^ 32"
    "sbind (page_from_pool pid ty) (\<lambda>q. sbind (smod (write_page q)) (\<lambda>_. sret q)) p = (Inr q, p')"
  obtains buf where "length buf = 4096" "q = page_new buf pid ty" "page_id q = pid" "pager_ok crc p'"
    "pview crc p' = (pview crc p)(pid := Some q)" "pg_meta p' = pg_meta p"
    "fst ` set (pg_dirty p') = insert pid (fst ` set (pg_dirty p))"
proof -
  obtain q1 p1 where f: "page_from_pool pid ty p = (Inr q1, p1)" "q1 = q" "p' = write_page q p1"
    using assms(3) by (auto simp: res_simps)
  obtain buf where b: "q = page_new buf pid ty" "length buf = 4096" "same_view crc p p1"
    using page_from_pool_ok [OF assms(1) f(1)] f(2) by blast
  have pid: "page_id q = pid" using page_new_fields(1) [OF b(2), of pid ty] assms(2) b(1) by simp
  have "length q = 4096" using length_page_new b by simp
  with b(3) write_page_ok [of crc p1 q] pid that [OF b(2,1) pid] show thesis
    by (simp add: same_view_def f(3))
qed

lemma allocate_page_ok:
  assumes ok: "pager_ok crc p" and run: "allocate_page crc ty p = (Inr q, p')"
  shows "alloc_result crc ty p q p'"
proof (cases "md_free_list (pg_meta p) = SENTINEL")
  case True
  let ?pid = "md_page_count (pg_meta p)"
  let ?p0 = "p\<lparr>pg_meta := (pg_meta p)\<lparr>md_page_count := ?pid + 1\<rparr>, pg_meta_dirty := True\<rparr>"
  have pid: "?pid \<noteq> SENTINEL" using run True by (auto simp: allocate_page_def Let_def split: if_splits)
  have rng: "meta_in_range (pg_meta p)" using ok by (simp add: pager_ok_def)
  then have lt: "?pid < 2 ^ 32" "?pid + 1 < 2 ^ 32" using pid by (auto simp: meta_in_range_def page_consts)
  have m: "meta_in_range ((pg_meta p)\<lparr>md_page_count := ?pid + 1\<rparr>)"
    using rng lt by (simp add: meta_in_range_def)
  note ok0 = set_meta_field_ok [OF ok m, of True]
  obtain u p1 where e: "ensure_file_pages (?pid + 1) ?p0 = (Inr u, p1)"
    and rest: "sbind (page_from_pool ?pid ty) (\<lambda>q. sbind (smod (write_page q)) (\<lambda>_. sret q)) p1 = (Inr q, p')"
    using run True pid by (auto simp: allocate_page_def Let_def sbind_Inr_iff)
  have v: "same_view crc ?p0 p1" using ensure_file_pages_ok [OF ok0(1) e] .
  then have "pager_ok crc p1" "pview crc p1 = pview crc p" "pg_meta p1 = pg_meta ?p0" "pg_dirty p1 = pg_dirty p"
    using ok0(2) by (auto simp: same_view_def)
  note p1 = this
  obtain buf where "length buf = 4096" "q = page_new buf ?pid ty" "page_id q = ?pid" "pager_ok crc p'"
    "pview crc p' = (pview crc p)(?pid := Some q)" "pg_meta p' = (pg_meta p)\<lparr>md_page_count := ?pid + 1\<rparr>"
    "fst ` set (pg_dirty p') = insert ?pid (fst ` set (pg_dirty p))"
    using fresh_page_ok [OF p1(1) lt(1) rest] p1(2-4) by auto
  with True pid show ?thesis by (auto simp: alloc_result_def)
next
  case False
  let ?pid = "md_free_list (pg_meta p)"
  obtain old p1 where r: "read_page crc ?pid p = (Inr old, p1)" and ty: "page_type old = Inr Free"
    and rest: "sbind (page_from_pool ?pid ty) (\<lambda>q. sbind (smod (write_page q)) (\<lambda>_. sret q))
      (p1\<lparr>pg_meta := (pg_meta p1)\<lparr>md_free_list := extra old\<rparr>, pg_meta_dirty := True\<rparr>) = (Inr q, p')"
    using run False by (auto simp: allocate_page_def Let_def sbind_Inr_iff split: if_splits)
  have v: "same_view crc p p1" "pview crc p ?pid = Some old" using read_page_ok [OF ok r] by auto
  have rng: "meta_in_range (pg_meta p)" using ok by (simp add: pager_ok_def)
  then have lt: "?pid < 2 ^ 32" by (simp add: meta_in_range_def)
  have "meta_in_range ((pg_meta p1)\<lparr>md_free_list := extra old\<rparr>)"
    using rng v(1) extra_bound [of old] by (simp add: meta_in_range_def same_view_def)
  note ok2 = set_meta_field_ok [OF _ this, of crc p1 True]
  have p1: "pager_ok crc p1" "pview crc p1 = pview crc p" "pg_meta p1 = pg_meta p" "pg_dirty p1 = pg_dirty p" using v(1) by (auto simp: same_view_def)
  obtain buf where "length buf = 4096" "q = page_new buf ?pid ty" "page_id q = ?pid" "pager_ok crc p'"
    "pview crc p' = (pview crc p)(?pid := Some q)" "pg_meta p' = (pg_meta p)\<lparr>md_free_list := extra old\<rparr>"
    "fst ` set (pg_dirty p') = insert ?pid (fst ` set (pg_dirty p))"
    using fresh_page_ok [OF ok2(1) [OF p1(1)] lt rest] ok2(2) [OF p1(1)] p1 by auto
  with False v(2) ty show ?thesis by (auto simp: alloc_result_def)
qed

lemma free_page_ok:
  assumes ok: "pager_ok crc p" and run: "free_page pid p = (Inr u, p')" and pid: "pid < 2 ^ 32"
  obtains q where "pid \<noteq> 0" "pid < md_page_count (pg_meta p)" "pager_ok crc p'"
    "pview crc p' = (pview crc p)(pid := Some q)" "page_type q = Inr Free" "\<not> is_leaf q" "num_keys q = 0"
    "extra q = md_free_list (pg_meta p)" "pg_meta p' = (pg_meta p)\<lparr>md_free_list := pid\<rparr>"
    "fst ` set (pg_dirty p') = insert pid (fst ` set (pg_dirty p))"
proof -
  obtain q0 p1 where c: "pid \<noteq> 0" "pid < md_page_count (pg_meta p)" and
    f: "page_from_pool pid Free p = (Inr q0, p1)" and
    p': "p' = write_page (set_extra q0 (md_free_list (pg_meta p1)))
       (p1\<lparr>pg_meta := (pg_meta p1)\<lparr>md_free_list := pid\<rparr>, pg_meta_dirty := True\<rparr>)"
    using run by (auto simp: free_page_def sbind_Inr_iff Let_def split: if_splits)
  obtain buf where b: "q0 = page_new buf pid Free" "length buf = 4096" "same_view crc p p1"
    using page_from_pool_ok [OF ok f] by blast
  let ?q = "set_extra q0 (md_free_list (pg_meta p1))"
  have rng: "meta_in_range (pg_meta p)" using ok by (simp add: pager_ok_def)
  then have fl: "md_free_list (pg_meta p) < 2 ^ 32" by (simp add: meta_in_range_def)
  have l0: "length q0 = 4096" using b length_page_new by simp
  have l: "length ?q = 4096" using l0 by (simp add: set_extra_def length_write_le page_consts)
  have pg: "page_id ?q = pid" "page_type ?q = Inr Free" "\<not> is_leaf ?q" "num_keys ?q = 0" "extra ?q = md_free_list (pg_meta p1)"
    using page_new_fields [OF b(2), of pid Free] l0 pid fl b(3)
    by (simp_all add: set_extra_def page_id_def page_type_def is_leaf_def num_keys_def extra_def b(1) [symmetric]
        read_write_le_other read_write_le_same page_consts same_view_def)
  have "meta_in_range ((pg_meta p1)\<lparr>md_free_list := pid\<rparr>)"
    using rng pid b(3) by (simp add: meta_in_range_def same_view_def)
  note ok2 = set_meta_field_ok [OF _ this, of crc p1 True]
  have p1: "pager_ok crc p1" "pview crc p1 = pview crc p" "pg_meta p1 = pg_meta p" "pg_dirty p1 = pg_dirty p" using b(3) by (auto simp: same_view_def)
  note w = write_page_ok [OF ok2(1) [OF p1(1)] l]
  show thesis
    by (rule that [of ?q]) (use c w ok2(2) [OF p1(1)] p1 pg in \<open>auto simp: p'\<close>)
qed

section \<open>Properties of the page store\<close>

text \<open>A pager over a file of two zeroed pages, with staged metadata.\<close>

definition example_pager :: pager where
  "example_pager =
     \<lparr>pg_disk = \<lparr>d_file = replicate 8192 0, d_journal = None, d_io = []\<rparr>, pg_map_len = 0, pg_file_pages = 2,
      pg_cache = [], pg_capacity = 16, pg_dirty = [], pg_meta = meta_default, pg_meta_dirty = True,
      pg_pool = [], pg_hits = 0, pg_misses = 0\<rparr>"

lemma example_pager_ok: "pager_ok crc example_pager"
  by (simp add: pager_ok_def example_pager_def meta_in_range_def meta_default_def META_VERSION_def page_consts)

text \<open>Reading a page changes no page of the store, in any I/O outcome, and a page that is
  returned is the one staged, cached or stored in the file under that id. Writing changes the page
  with that id and no other, and a read after it returns what was written.\<close>

lemma read_write_page_laws:
  assumes "pager_ok crc p"
  shows "same_view crc p (snd (read_page crc i p)) \<and>
     (\<forall>q. fst (read_page crc i p) = Inr q \<longrightarrow> pview crc p i = Some q) \<and>
     (\<forall>q. length q = 4096 \<longrightarrow> pager_ok crc (write_page q p) \<and>
        pview crc (write_page q p) = (pview crc p)(page_id q := Some q) \<and>
        fst (read_page crc (page_id q) (write_page q p)) = Inr q)"
proof (intro conjI allI impI)
  show "same_view crc p (snd (read_page crc i p))"
    using read_page_ok(1) [OF assms, of i] by (metis prod.collapse)
  show "fst (read_page crc i p) = Inr q \<Longrightarrow> pview crc p i = Some q" for q
    using read_page_ok(2) [OF assms, of i] by (metis prod.collapse)
  show "pager_ok crc (write_page q p)" "pview crc (write_page q p) = (pview crc p)(page_id q := Some q)"
    "fst (read_page crc (page_id q) (write_page q p)) = Inr q" if "length q = 4096" for q
    using write_page_ok [OF assms that] by (simp_all add: read_page_def write_page_def Let_def)
qed

text \<open>Allocation hands out the head of the free list if there is one and a page behind the
  last one otherwise; it changes no other page and only the field of the metadata that says so.\<close>

lemma allocation_is_fresh:
  assumes "pager_ok crc p" "allocate_page crc ty p = (Inr q, p')"
  shows "alloc_result crc ty p q p'"
  using assms by (rule allocate_page_ok)

end
