(* ===== verification/Journal.thy ===== *)
theory Journal
  imports Pager_Props
begin

text \<open>
  Crash atomicity of the flush. A journal that was cut off while it was written is not
  accepted, so recovery leaves the file alone; a complete journal rewrites every page of the
  flush, so recovery reaches the flushed file from whatever state the in-place writes left.
  Files are compared byte by byte (\<open>fbyte\<close>), ignoring zero padding behind the last page.
\<close>

section \<open>Bytes of a file\<close>

definition fbyte :: "bytes \<Rightarrow> nat \<Rightarrow> u8" where
  "fbyte f x = (if x < length f then f ! x else 0)"

lemma fbyte_resize [simp]: "fbyte (resize n f) x = (if x < n then fbyte f x else 0)"
  by (auto simp: fbyte_def resize_def nth_append min_def)

lemma fbyte_grow: "length f \<le> n \<Longrightarrow> fbyte (resize n f) x = fbyte f x"
  unfolding fbyte_resize by (simp add: fbyte_def)

lemma fbyte_bsplice:
  "off + length bs \<le> length f \<Longrightarrow>
     fbyte (bsplice f off bs) x = (if off \<le> x \<and> x < off + length bs then bs ! (x - off) else fbyte f x)"
  by (auto simp: fbyte_def length_bsplice nth_bsplice)

lemma fbyte_file_write:
  "fbyte (file_write off bs f) x = (if off \<le> x \<and> x < off + length bs then bs ! (x - off) else fbyte f x)"
proof (cases "bs = []")
  case False
  let ?n = "max (length f) (off + length bs)"
  have "fbyte (bsplice (resize ?n f) off bs) x =
      (if off \<le> x \<and> x < off + length bs then bs ! (x - off) else fbyte (resize ?n f) x)"
    by (rule fbyte_bsplice) simp
  also have "fbyte (resize ?n f) x = fbyte f x" by (rule fbyte_grow) simp
  finally show ?thesis using False by (simp add: file_write_def)
qed (auto simp: file_write_def)

section \<open>The bytes of a journal\<close>

definition journal_bytes :: "(bytes \<Rightarrow> u32) \<Rightarrow> (nat \<times> bytes) list \<Rightarrow> nat \<Rightarrow> bytes" where
  "journal_bytes crc es t = concat (journal_pieces crc es t)"

definition entries_ok :: "(nat \<times> bytes) list \<Rightarrow> nat \<Rightarrow> bool" where
  "entries_ok es t \<longleftrightarrow>
     (\<forall>(i, b) \<in> set es. i < t \<and> length b = 4096) \<and> length es < 2 ^ 32 \<and> t < 2 ^ 32"

lemma length_journal_header [simp]: "length (journal_header n t) = 32"
  by (simp add: journal_header_def)

lemma length_journal_entry: "length (journal_entry i b) = 8 + length b"
  by (simp add: journal_entry_def)

definition journal_body :: "(nat \<times> bytes) list \<Rightarrow> nat \<Rightarrow> bytes" where
  "journal_body es t = journal_header (length es) t @ concat (map (\<lambda>(i, b). journal_entry i b) es)"

lemma journal_bytes_body:
  "journal_bytes crc es t = journal_body es t @ journal_trailer (unat (crc (journal_body es t)))"
  by (simp add: journal_bytes_def journal_pieces_def journal_body_def Let_def)

lemma length_entries:
  "\<forall>(i, b) \<in> set es. length b = 4096 \<Longrightarrow>
     length (concat (map (\<lambda>(i, b). journal_entry i b) es)) = length es * 4104"
  by (induction es) (auto simp: length_journal_entry)

lemma length_journal_body: "entries_ok es t \<Longrightarrow> length (journal_body es t) = 32 + length es * 4104"
  using length_entries [of es] by (auto simp: journal_body_def entries_ok_def)

lemma header_fields:
  assumes "n < 2 ^ 32" "t < 2 ^ 32"
  shows "read_le (journal_header n t @ r) 0 8 = JOURNAL_MAGIC" "read_le (journal_header n t @ r) 8 4 = JOURNAL_VERSION"
    "read_le (journal_header n t @ r) 12 4 = n" "read_le (journal_header n t @ r) 16 4 = t"
proof -
  show "read_le (journal_header n t @ r) 0 8 = JOURNAL_MAGIC"
    using read_le_to_le [of 8 JOURNAL_MAGIC] by (simp add: journal_header_def JOURNAL_MAGIC_def)
  show "read_le (journal_header n t @ r) 8 4 = JOURNAL_VERSION"
    using read_le_to_le [of 4 JOURNAL_VERSION]
    by (simp add: journal_header_def read_le_skip JOURNAL_VERSION_def)
  show "read_le (journal_header n t @ r) 12 4 = n"
    using read_le_to_le [of 4 n] assms(1) by (simp add: journal_header_def read_le_skip)
  show "read_le (journal_header n t @ r) 16 4 = t"
    using read_le_to_le [of 4 t] assms(2) by (simp add: journal_header_def read_le_skip)
qed

lemma validate_complete:
  assumes "entries_ok es t"
  shows "validate_journal crc (journal_bytes crc es t) = Some (t, length es)"
proof -
  let ?b = "journal_body es t"
  let ?s = "unat (crc ?b)"
  have s: "?s < 2 ^ 32" using unsigned_less [of "crc ?b"] by simp
  have hd: "journal_bytes crc es t = journal_header (length es) t @
      concat (map (\<lambda>(i, b). journal_entry i b) es) @ journal_trailer ?s"
    by (simp add: journal_bytes_body journal_body_def)
  have n: "length es < 2 ^ 32" "t < 2 ^ 32" using assms by (auto simp: entries_ok_def)
  note f = header_fields [OF n, of "concat (map (\<lambda>(i, b). journal_entry i b) es) @ journal_trailer ?s", folded hd]
  have len: "length (journal_bytes crc es t) = 40 + length es * 4104"
    by (simp add: journal_bytes_body length_journal_body [OF assms] journal_trailer_def)
  have lb: "length ?b = 32 + length es * 4104" by (rule length_journal_body [OF assms])
  have "read_le (journal_bytes crc es t) (32 + length es * 4104) 4 = ?s"
    using read_le_to_le [of 4 ?s] s by (simp add: journal_bytes_body read_le_skip lb journal_trailer_def)
  moreover have "read_le (journal_bytes crc es t) (36 + length es * 4104) 4 = JOURNAL_END"
    using read_le_to_le [of 4 JOURNAL_END "[]"]
    by (simp add: journal_bytes_body read_le_skip lb journal_trailer_def JOURNAL_END_def)
  moreover have "take (32 + length es * 4104) (journal_bytes crc es t) = ?b"
    by (simp add: journal_bytes_body lb)
  ultimately show ?thesis
    using f len by (simp add: validate_journal_def Let_def journal_consts page_consts)
qed

lemma validate_cut:
  assumes "entries_ok es t" "n < length (journal_bytes crc es t)"
  shows "validate_journal crc (take n (journal_bytes crc es t)) = None"
proof (cases "n < 40")
  case False
  let ?r = "concat (map (\<lambda>(i, b). journal_entry i b) es) @ journal_trailer (unat (crc (journal_body es t)))"
  have hd: "take n (journal_bytes crc es t) = journal_header (length es) t @ take (n - 32) ?r"
    using False by (simp add: journal_bytes_body journal_body_def)
  have nb: "length es < 2 ^ 32" "t < 2 ^ 32" using assms(1) by (auto simp: entries_ok_def)
  note f = header_fields [OF nb, of "take (n - 32) ?r", folded hd]
  have "length (journal_bytes crc es t) = 40 + length es * 4104"
    by (simp add: journal_bytes_body length_journal_body [OF assms(1)] journal_trailer_def)
  then show ?thesis using f assms(2) by (simp add: validate_journal_def Let_def journal_consts page_consts)
qed (use assms(2) in \<open>simp add: validate_journal_def Let_def journal_consts min_def\<close>)

section \<open>Replaying a complete journal\<close>

definition apply_entries :: "(nat \<times> bytes) list \<Rightarrow> bytes \<Rightarrow> bytes" where
  "apply_entries es f = fold (\<lambda>(i, b). file_write (i * 4096) b) es f"

lemma entry_at:
  assumes "entries_ok es t" "k < length es"
  shows "bslice (journal_bytes crc es t) (32 + k * 4104) 4104 = journal_entry (fst (es ! k)) (snd (es ! k))"
proof -
  let ?e = "\<lambda>(i, b). journal_entry i b"
  have b: "\<forall>(i, b) \<in> set es. length b = 4096" using assms(1) by (auto simp: entries_ok_def)
  have split: "es = take k es @ es ! k # drop (Suc k) es" using assms(2) by (simp add: id_take_nth_drop)
  have "length (concat (map ?e (take k es))) = k * 4104"
    using length_entries [of "take k es"] b assms(2) by (auto dest!: in_set_takeD)
  moreover have "length (?e (es ! k)) = 4104"
    using b nth_mem [OF assms(2)] by (auto simp: length_journal_entry split: prod.splits)
  moreover have "concat (map ?e es) = concat (map ?e (take k es)) @ ?e (es ! k) @ concat (map ?e (drop (Suc k) es))"
    by (subst split) simp
  ultimately show ?thesis
    by (simp add: journal_bytes_body journal_body_def bslice_def split_beta)
qed

lemma replay_entry_at_ok:
  assumes "entries_ok es t" "k < length es" "d_io d = []"
  shows "replay_entry_at (journal_bytes crc es t) t k d =
     (Inr (), d\<lparr>d_file := file_write (fst (es ! k) * 4096) (snd (es ! k)) (d_file d)\<rparr>)"
proof -
  obtain i b where e: "es ! k = (i, b)" by (cases "es ! k")
  then have i: "i < t" "t < 2 ^ 32" using assms(1) nth_mem [OF assms(2)] by (auto simp: entries_ok_def)
  have "read_le (journal_entry i b) 0 4 = i"
    using read_le_to_le [of 4 i] i by (simp add: journal_entry_def)
  moreover have "drop 8 (journal_entry i b) = b" by (simp add: journal_entry_def)
  ultimately show ?thesis
    using entry_at [OF assms(1,2), of crc] i assms(3)
    by (simp add: replay_entry_at_def journal_consts page_consts e sbind_def disk_call_def dio_next_def
        write_at_def Let_def)
qed

lemma replay_all:
  assumes "entries_ok es t" "d_io d = []" "n \<le> length es"
  shows "smapM (replay_entry_at (journal_bytes crc es t) t) [n..<length es] d =
     (Inr (), d\<lparr>d_file := apply_entries (drop n es) (d_file d)\<rparr>)"
  using assms(2,3)
proof (induction "length es - n" arbitrary: n d)
  case 0
  then show ?case by (simp add: apply_entries_def)
next
  case (Suc m)
  then have n: "n < length es" by simp
  let ?d = "d\<lparr>d_file := file_write (fst (es ! n) * 4096) (snd (es ! n)) (d_file d)\<rparr>"
  have "smapM (replay_entry_at (journal_bytes crc es t) t) [Suc n..<length es] ?d =
      (Inr (), ?d\<lparr>d_file := apply_entries (drop (Suc n) es) (d_file ?d)\<rparr>)"
    using Suc n by (intro Suc.hyps(1)) auto
  moreover have "[n..<length es] = n # [Suc n..<length es]" using n by (rule upt_conv_Cons)
  moreover have "drop n es = es ! n # drop (Suc n) es" using n by (rule Cons_nth_drop_Suc [symmetric])
  ultimately show ?case
    using replay_entry_at_ok [OF assms(1) n Suc.prems(1), of crc]
    by (simp add: apply_entries_def split_beta)
qed

lemma recover_complete:
  assumes "entries_ok es t" "d_io d = []" "d_journal d = Some (journal_bytes crc es t)"
  shows "recover_journal crc d =
     (Inr (), d\<lparr>d_file := apply_entries es (if length (d_file d) = t * 4096 then d_file d else resize (t * 4096) (d_file d)),
                d_journal := Some []\<rparr>)"
proof -
  have "0 < length (journal_bytes crc es t)" by (simp add: journal_bytes_body journal_trailer_def)
  then have "journal_bytes crc es t \<noteq> []" by auto
  moreover have "smapM (replay_entry_at (journal_bytes crc es t) t) [0..<length es] d' =
      (Inr (), d'\<lparr>d_file := apply_entries es (d_file d')\<rparr>)" if "d_io d' = []" for d'
    using replay_all [OF assms(1) that, of 0 crc] by simp
  ultimately show ?thesis
    using assms(2,3)
    by (simp add: recover_journal_def validate_complete [OF assms(1)] sbind_def disk_call_def dio_next_def
        file_set_len_def page_consts)
qed

lemma recover_none:
  assumes "d_io d = []" "d_journal d = Some j" "validate_journal crc j = None"
  shows "\<exists>d'. recover_journal crc d = (Inr (), d') \<and> d_file d' = d_file d"
  using assms by (simp add: recover_journal_def sbind_def disk_call_def dio_next_def)

section \<open>Writing the journal\<close>

lemma journal_append_cases:
  assumes "journal_append bs d = (r, d')" "d_journal d = Some j"
  shows "d_file d' = d_file d"
    and "(r = Inr () \<and> d_journal d' = Some (j @ bs)) \<or>
      (\<exists>e n. r = Inl e \<and> d_journal d' = Some (j @ take n bs))"
  using assms by (auto simp: journal_append_def dest!: dio_next_frame split: prod.splits option.splits)

lemma append_pieces_cases:
  assumes "smapM journal_append ps d = (r, d')" "d_journal d = Some j"
  shows "d_file d' = d_file d \<and> ((r = Inr () \<and> d_journal d' = Some (j @ concat ps)) \<or>
      (\<exists>e n. r = Inl e \<and> d_journal d' = Some (j @ take n (concat ps))))"
  using assms
proof (induction ps arbitrary: d j)
  case (Cons b ps)
  obtain r1 d1 where 1: "journal_append b d = (r1, d1)" by (cases "journal_append b d")
  note c = journal_append_cases [OF 1 Cons.prems(2)]
  show ?case
  proof (cases r1)
    case (Inl e)
    with c obtain n where "d_journal d1 = Some (j @ take n b)" by auto
    then have "d_journal d1 = Some (j @ take (min n (length b)) (concat (b # ps)))"
      by (simp add: min_def)
    moreover have "r = Inl e" "d' = d1" using Inl 1 Cons.prems(1) by (simp_all add: sbind_def)
    ultimately show ?thesis using c(1) by blast
  next
    case (Inr u)
    with c have j: "d_journal d1 = Some (j @ b)" by auto
    have "smapM journal_append ps d1 = (r, d')" using Cons.prems(1) 1 Inr by (simp add: sbind_def)
    from Cons.IH [OF this j] c(1) show ?thesis
      by (auto intro: exI [of _ "length b + n" for n])
  qed
qed simp

lemma write_journal_cases:
  assumes "write_journal crc es t d = (r, d')"
  shows "d_file d' = d_file d \<and>
     ((r = Inr () \<and> d_journal d' = Some (journal_bytes crc es t)) \<or>
      (\<exists>e. r = Inl e \<and> (d_journal d' = d_journal d \<or> (\<exists>n. d_journal d' = Some (take n (journal_bytes crc es t))))))"
proof -
  obtain r1 d1 where 1: "journal_create d = (r1, d1)" by (cases "journal_create d")
  then have d1: "d_file d1 = d_file d" "r1 = Inr () \<and> d_journal d1 = Some [] \<or> (\<exists>e. r1 = Inl e) \<and> d_journal d1 = d_journal d"
    by (auto simp: journal_create_def sbind_def dest!: disk_call_frame split: prod.splits sum.splits)
  show ?thesis
  proof (cases r1)
    case (Inl e)
    with d1 1 assms show ?thesis by (auto simp: write_journal_def)
  next
    case (Inr u)
    then have j1: "d_journal d1 = Some []" using d1 by auto
    obtain r2 d2 where 2: "smapM journal_append (journal_pieces crc es t) d1 = (r2, d2)"
      by (cases "smapM journal_append (journal_pieces crc es t) d1")
    note c = append_pieces_cases [OF 2 j1, simplified, folded journal_bytes_def]
    show ?thesis
    proof (cases r2)
      case (Inl e)
      then have "r = Inl e" "d' = d2" using 1 2 Inr assms by (simp_all add: write_journal_def sbind_def)
      with Inl c d1(1) show ?thesis by auto
    next
      case (Inr v)
      then have "disk_call d2 = (r, d')"
        using 1 2 \<open>r1 = Inr u\<close> assms by (simp add: write_journal_def sbind_def)
      moreover from this have "d_file d' = d_file d2" "d_journal d' = d_journal d2" using disk_call_frame by auto
      moreover have "d_journal d2 = Some (journal_bytes crc es t)" using c Inr by auto
      ultimately show ?thesis using c d1(1) by (cases r) (auto intro: exI [of _ "length (journal_bytes crc es t)"])
    qed
  qed
qed

section \<open>Writing in place\<close>

definition agree :: "nat set \<Rightarrow> bytes \<Rightarrow> bytes \<Rightarrow> bool" where
  "agree ids f f' \<longleftrightarrow> (\<forall>x. x div 4096 \<notin> ids \<longrightarrow> fbyte f' x = fbyte f x)"

lemma agree_refl: "agree ids f f"
  by (simp add: agree_def)

lemma agree_write:
  assumes "agree ids f g" "i \<in> ids" "length b \<le> 4096"
  shows "agree ids f (file_write (i * 4096) b g)"
  unfolding agree_def
proof (intro allI impI)
  fix x assume x: "x div 4096 \<notin> ids"
  have "\<not> (i * 4096 \<le> x \<and> x < i * 4096 + length b)"
  proof
    assume "i * 4096 \<le> x \<and> x < i * 4096 + length b"
    then have "x div 4096 = i" using assms(3) by (intro div_nat_eqI) auto
    with x assms(2) show False by simp
  qed
  with assms(1) x show "fbyte (file_write (i * 4096) b g) x = fbyte f x"
    unfolding fbyte_file_write agree_def by auto
qed

lemma apply_agree:
  assumes "\<forall>(i, b) \<in> set es. length b = 4096" "x div 4096 \<in> fst ` set es \<or> fbyte g x = fbyte f x"
  shows "fbyte (apply_entries es g) x = fbyte (apply_entries es f) x"
  using assms
proof (induction es arbitrary: f g)
  case Nil
  then show ?case by (simp add: apply_entries_def)
next
  case (Cons e es)
  obtain i b where e: "e = (i, b)" by (cases e)
  have len: "length b = 4096" using Cons.prems(1) by (auto simp: e)
  have "x div 4096 \<in> fst ` set es \<or> fbyte (file_write (i * 4096) b g) x = fbyte (file_write (i * 4096) b f) x"
  proof (cases "x div 4096 = i")
    case True
    then have "i * 4096 \<le> x" "x < i * 4096 + 4096"
      using div_mult_mod_eq [of x 4096] mod_less_divisor [of 4096 x] by linarith+
    then show ?thesis by (simp add: fbyte_file_write len)
  next
    case False
    with Cons.prems(2) show ?thesis by (auto simp: fbyte_file_write e)
  qed
  with Cons.IH Cons.prems(1) show ?case by (simp add: apply_entries_def e)
qed

lemma write_pages_cases:
  assumes "smapM (\<lambda>(i, b). write_at b (i * 4096)) es d = (r, d')"
    "agree ids f (d_file d)" "fst ` set es \<subseteq> ids" "\<forall>(i, b) \<in> set es. length b = 4096"
  shows "d_journal d' = d_journal d \<and> agree ids f (d_file d') \<and>
     (r = Inr () \<longrightarrow> d_file d' = apply_entries es (d_file d))"
  using assms
proof (induction es arbitrary: d)
  case Nil
  then show ?case by (auto simp: apply_entries_def)
next
  case (Cons e es)
  obtain i b where e: "e = (i, b)" by (cases e)
  have b: "length b = 4096" "i \<in> ids" using Cons.prems by (auto simp: e)
  obtain r1 d1 where 1: "write_at b (i * 4096) d = (r1, d1)" by (cases "write_at b (i * 4096) d")
  have w: "d_journal d1 = d_journal d \<and> agree ids f (d_file d1) \<and> (r1 = Inr () \<longrightarrow> d_file d1 = file_write (i * 4096) b (d_file d))"
    using 1 b Cons.prems(2)
    by (auto simp: write_at_def dest!: dio_next_frame split: prod.splits option.splits intro!: agree_write)
  show ?case
  proof (cases r1)
    case (Inl err)
    with 1 w Cons.prems(1) show ?thesis by (auto simp: e sbind_def)
  next
    case (Inr u)
    then have "smapM (\<lambda>(i, b). write_at b (i * 4096)) es d1 = (r, d')" using 1 Cons.prems(1) by (simp add: e sbind_def)
    from Cons.IH [OF this] w Cons.prems Inr show ?thesis by (auto simp: e apply_entries_def)
  qed
qed

section \<open>The flush\<close>

lemma ensure_file_pages_bytes:
  assumes "ensure_file_pages n p = (r, p')" "pg_file_pages p * PAGE_SIZE = length (d_file (pg_disk p))"
  shows "d_journal (pg_disk p') = d_journal (pg_disk p) \<and>
     (\<forall>x. fbyte (d_file (pg_disk p')) x = fbyte (d_file (pg_disk p)) x)"
proof (cases "n \<le> pg_file_pages p")
  case True
  with assms show ?thesis by (simp add: ensure_file_pages_def)
next
  case False
  let ?t = "max n (pg_file_pages p + GROW_CHUNK)"
  have grow: "length (d_file (pg_disk p)) \<le> ?t * PAGE_SIZE" unfolding assms(2) [symmetric] by (intro mult_le_mono1) simp
  obtain r1 p1 where c: "on_disk disk_call p = (r1, p1)" by (cases "on_disk disk_call p")
  then have p1: "d_file (pg_disk p1) = d_file (pg_disk p)" "d_journal (pg_disk p1) = d_journal (pg_disk p)"
    by (auto simp: on_disk_result dest!: disk_call_frame)
  show ?thesis
  proof (cases r1)
    case (Inl e)
    then have "p' = p1"
      using assms(1) False set_len_result(1) [of p e p1] c by (simp add: ensure_file_pages_def Let_def)
    with p1 show ?thesis by simp
  next
    case (Inr u)
    let ?d = "(pg_disk p1)\<lparr>d_file := resize (?t * PAGE_SIZE) (d_file (pg_disk p1))\<rparr>"
    have "refresh_map (p1\<lparr>pg_disk := ?d, pg_file_pages := ?t\<rparr>) = (r, p')"
      using assms(1) False set_len_result(2) [of p u p1] c Inr by (simp add: ensure_file_pages_def Let_def)
    then have "d_file (pg_disk p') = d_file ?d" "d_journal (pg_disk p') = d_journal ?d"
      by (auto simp: refresh_map_def sbind_def on_disk_def Let_def dest!: disk_call_frame
          split: prod.splits sum.splits)
    then show ?thesis using p1 fbyte_grow [OF grow] by simp
  qed
qed

text \<open>The states the disk can be in while a flush of \<open>es\<close> over the file \<open>f\<close> is under way.\<close>

definition flush_state :: "(bytes \<Rightarrow> u32) \<Rightarrow> (nat \<times> bytes) list \<Rightarrow> nat \<Rightarrow> bytes \<Rightarrow> disk \<Rightarrow> bool" where
  "flush_state crc es t f d \<longleftrightarrow>
     (d_file d = f \<and> (d_journal d = None \<or> (\<exists>n. d_journal d = Some (take n (journal_bytes crc es t))))) \<or>
     (agree (fst ` set es) f (d_file d) \<and> d_journal d = Some (journal_bytes crc es t)) \<or>
     ((\<forall>x. fbyte (d_file d) x = fbyte (apply_entries es f) x) \<and> d_journal d = Some [])"

lemma clear_journal_cases:
  assumes "clear_journal d = (r, d')" "d_journal d = Some j"
  shows "d_file d' = d_file d \<and> (d_journal d' = Some j \<or> d_journal d' = Some []) \<and> (r = Inr () \<longrightarrow> d_journal d' = Some [])"
  using assms
  by (auto simp: clear_journal_def sbind_def dest!: disk_call_frame split: prod.splits sum.splits)

text \<open>The disk part of a flush once the pages are chosen.\<close>

lemma flush_steps:
  assumes run: "sbind (on_disk (write_journal crc es t)) (\<lambda>_.
      sbind (ensure_file_pages t) (\<lambda>_.
      sbind (on_disk (smapM (\<lambda>(i, b). write_at b (i * 4096)) es)) (\<lambda>_.
      sbind (on_disk disk_call) (\<lambda>_.
      sbind (on_disk clear_journal) (\<lambda>_. smod g))))) p = (r, p')"
    and g: "\<And>p. pg_disk (g p) = pg_disk p"
    and es: "entries_ok es t" and clean: "d_journal (pg_disk p) = None \<or> d_journal (pg_disk p) = Some []"
    and len: "pg_file_pages p * PAGE_SIZE = length (d_file (pg_disk p))"
  shows "flush_state crc es t (d_file (pg_disk p)) (pg_disk p') \<and>
     (r = Inr () \<longrightarrow> d_journal (pg_disk p') = Some [] \<and>
        (\<forall>x. fbyte (d_file (pg_disk p')) x = fbyte (apply_entries es (d_file (pg_disk p))) x))"
proof -
  let ?f = "d_file (pg_disk p)" and ?J = "journal_bytes crc es t" and ?ids = "fst ` set es"
  have b: "\<forall>(i, b) \<in> set es. length b = 4096" using es by (auto simp: entries_ok_def)
  obtain r1 d1 where 1: "write_journal crc es t (pg_disk p) = (r1, d1)" by (cases "write_journal crc es t (pg_disk p)")
  note w = write_journal_cases [OF 1]
  let ?p1 = "p\<lparr>pg_disk := d1\<rparr>"
  show ?thesis
  proof (cases r1)
    case (Inl e)
    then have "p' = ?p1" "r = Inl e" using run 1 by (simp_all add: sbind_def on_disk_def)
    moreover have "d_journal d1 = None \<or> (\<exists>n. d_journal d1 = Some (take n ?J))"
      using w Inl clean by (metis Inl_Inr_False take0)
    ultimately show ?thesis using w by (simp add: flush_state_def)
  next
    case (Inr u)
    then have j1: "d_journal d1 = Some ?J" and f1: "d_file d1 = ?f" using w by auto
    obtain r2 p2 where 2: "ensure_file_pages t ?p1 = (r2, p2)" by (cases "ensure_file_pages t ?p1")
    have e2: "d_journal (pg_disk p2) = Some ?J" "\<And>x. fbyte (d_file (pg_disk p2)) x = fbyte ?f x"
      using ensure_file_pages_bytes [OF 2] len j1 f1 by auto
    then have a2: "agree ?ids ?f (d_file (pg_disk p2))" by (simp add: agree_def)
    show ?thesis
    proof (cases r2)
      case (Inl e)
      then have "p' = p2" "r = Inl e" using run 1 2 \<open>r1 = Inr u\<close> by (simp_all add: sbind_def on_disk_def)
      with e2(1) a2 show ?thesis by (simp add: flush_state_def)
    next
      case (Inr u2)
      obtain r3 d3 where 3: "smapM (\<lambda>(i, b). write_at b (i * 4096)) es (pg_disk p2) = (r3, d3)"
        by (cases "smapM (\<lambda>(i, b). write_at b (i * 4096)) es (pg_disk p2)")
      note w3 = write_pages_cases [OF 3 a2 order_refl b]
      let ?p3 = "p2\<lparr>pg_disk := d3\<rparr>"
      have new: "fbyte (d_file d3) x = fbyte (apply_entries es ?f) x" if "r3 = Inr ()" for x
        using w3 that apply_agree [OF b, of x "d_file (pg_disk p2)" ?f] e2(2) by simp
      show ?thesis
      proof (cases r3)
        case (Inl e)
        then have "p' = ?p3" "r = Inl e"
          using run 1 2 3 \<open>r1 = Inr u\<close> \<open>r2 = Inr u2\<close> by (simp_all add: sbind_def on_disk_def)
        with w3 e2(1) show ?thesis by (simp add: flush_state_def)
      next
        case (Inr u3)
        obtain r4 d4 where 4: "disk_call d3 = (r4, d4)" by (cases "disk_call d3")
        have d4: "d_file d4 = d_file d3" "d_journal d4 = Some ?J" using disk_call_frame [OF 4] w3 e2(1) by auto
        obtain r5 d5 where 5: "clear_journal d4 = (r5, d5)" by (cases "clear_journal d4")
        note c = clear_journal_cases [OF 5 d4(2)]
        have "(\<exists>e. r = Inl e) \<and> pg_disk p' = d4 \<or> (r = Inr () \<longrightarrow> r5 = Inr ()) \<and> pg_disk p' = d5"
          using run 1 2 3 4 5 \<open>r1 = Inr u\<close> \<open>r2 = Inr u2\<close> Inr g
          by (cases r4; cases r5) (auto simp: sbind_def on_disk_def)
        then show ?thesis
        proof (elim disjE conjE)
          assume "\<exists>e. r = Inl e" "pg_disk p' = d4"
          with d4 w3 e2(1) show ?thesis by (auto simp: flush_state_def)
        next
          assume "r = Inr () \<longrightarrow> r5 = Inr ()" "pg_disk p' = d5"
          with c d4 w3 new Inr show ?thesis by (auto simp: flush_state_def)
        qed
      qed
    qed
  qed
qed

lemma flush_state_recovers:
  assumes "flush_state crc es t f d" "entries_ok es t" "length f \<le> t * 4096"
  shows "\<exists>d'. recover_journal crc (d\<lparr>d_io := []\<rparr>) = (Inr (), d') \<and>
     ((\<forall>x. fbyte (d_file d') x = fbyte f x) \<or> (\<forall>x. fbyte (d_file d') x = fbyte (apply_entries es f) x))"
proof -
  let ?d = "d\<lparr>d_io := []\<rparr>" and ?J = "journal_bytes crc es t"
  have b: "\<forall>(i, b) \<in> set es. length b = 4096" using assms(2) by (auto simp: entries_ok_def)
  have mid: ?thesis if a: "agree (fst ` set es) f (d_file d)" and j: "d_journal d = Some ?J"
  proof -
    let ?g = "if length (d_file d) = t * 4096 then d_file d else resize (t * 4096) (d_file d)"
    have "fbyte (apply_entries es ?g) x = fbyte (apply_entries es f) x" for x
    proof (rule apply_agree [OF b])
      show "x div 4096 \<in> fst ` set es \<or> fbyte ?g x = fbyte f x"
        using a assms(3) by (auto simp: agree_def) (auto simp: fbyte_def)
    qed
    then show ?thesis using recover_complete [OF assms(2), of ?d crc] j by auto
  qed
  consider "d_file d = f" "d_journal d = None" | n where "d_file d = f" "d_journal d = Some (take n ?J)"
    | "agree (fst ` set es) f (d_file d)" "d_journal d = Some ?J"
    | "\<forall>x. fbyte (d_file d) x = fbyte (apply_entries es f) x" "d_journal d = Some []"
    using assms(1) by (auto simp: flush_state_def)
  then show ?thesis
  proof cases
    case 1
    then show ?thesis by (simp add: recover_journal_def)
  next
    case (2 n)
    show ?thesis
    proof (cases "n < length ?J")
      case True
      with recover_none [of ?d "take n ?J" crc] validate_cut [OF assms(2) True] 2 show ?thesis by auto
    next
      case False
      with 2 mid show ?thesis by (simp add: agree_refl)
    qed
  next
    case 3
    with mid show ?thesis by blast
  next
    case 4
    then show ?thesis by (simp add: recover_journal_def sbind_def disk_call_def dio_next_def)
  qed
qed

section \<open>The pages of a flush\<close>

definition flush_entries :: "(bytes \<Rightarrow> u32) \<Rightarrow> pager \<Rightarrow> (nat \<times> bytes) list" where
  "flush_entries crc p =
     map (\<lambda>q. (page_id q, q)) (flush_pages crc (fst (pool_acquire (pg_pool p))) p)"

definition flush_target :: "(bytes \<Rightarrow> u32) \<Rightarrow> pager \<Rightarrow> nat" where
  "flush_target crc p = max (pg_file_pages p) (fst (last (flush_entries crc p)) + 1)"

text \<open>Page ids and counts stay within the 32-bit fields of the journal.\<close>

definition staged_ok :: "pager \<Rightarrow> bool" where
  "staged_ok p \<longleftrightarrow>
     (\<forall>(i, q) \<in> set (pg_dirty p). 0 < i \<and> i < SENTINEL) \<and> length (pg_dirty p) < SENTINEL \<and>
     pg_file_pages p < 2 ^ 32"

lemma page_id_finalize: "length q = 4096 \<Longrightarrow> page_id (finalize crc q) = page_id q"
  using finalize_same_fields(1) header_restD(1) by blast

lemma acquired_buffer: "pager_ok crc p \<Longrightarrow> length (fst (pool_acquire (pg_pool p))) = 4096"
  by (auto simp: pager_ok_def pool_acquire_def page_consts)

lemma meta_page_fields:
  assumes "length buf = 4096"
  shows "length (write_meta (page_new buf 0 Meta) m) = 4096" "page_id (write_meta (page_new buf 0 Meta) m) = 0"
  using assms length_write_meta write_meta_header(2) length_page_new page_new_fields(1) [OF assms, of 0 Meta]
  by simp_all

lemma flush_pages_fields:
  assumes "pager_ok crc p" "staged_ok p" "q \<in> set (flush_pages crc (fst (pool_acquire (pg_pool p))) p)"
  shows "length q = 4096" "page_id q < SENTINEL"
proof -
  let ?buf = "fst (pool_acquire (pg_pool p))"
  obtain q0 where q0: "q = finalize crc q0" "q0 \<in> set (map snd (pg_dirty p) @ [write_meta (page_new ?buf 0 Meta) (pg_meta p)])"
    using assms(3) by (auto simp: flush_pages_def)
  have "length q0 = 4096 \<and> page_id q0 < SENTINEL"
    using q0(2) assms(1,2) meta_page_fields [OF acquired_buffer [OF assms(1)]]
    by (fastforce simp: pager_ok_def staged_ok_def page_consts)
  then show "length q = 4096" "page_id q < SENTINEL" by (simp_all add: q0(1) length_finalize page_id_finalize)
qed

lemma flush_pages_sorted:
  assumes "pager_ok crc p" "staged_ok p"
  shows "sorted (map page_id (flush_pages crc (fst (pool_acquire (pg_pool p))) p))"
proof -
  let ?buf = "fst (pool_acquire (pg_pool p))"
  let ?ps = "sort_key page_id (map snd (pg_dirty p) @ [write_meta (page_new ?buf 0 Meta) (pg_meta p)])"
  have "length q = 4096" if "q \<in> set ?ps" for q
    using that assms(1) meta_page_fields [OF acquired_buffer [OF assms(1)]] by (auto simp: pager_ok_def)
  then have "map page_id (map (finalize crc) ?ps) = map page_id ?ps" by (simp add: page_id_finalize)
  then show ?thesis unfolding flush_pages_def by (simp only: sorted_sort_key)
qed

lemma flush_entries_nonempty: "flush_entries crc p \<noteq> []"
  by (simp add: flush_entries_def flush_pages_def) (metis length_0_conv length_sort length_append_singleton nat.distinct(1))

lemma flush_entries_ok:
  assumes "pager_ok crc p" "staged_ok p"
  shows "entries_ok (flush_entries crc p) (flush_target crc p)"
proof -
  let ?qs = "flush_pages crc (fst (pool_acquire (pg_pool p))) p"
  note f = flush_pages_fields [OF assms]
  have ne: "?qs \<noteq> []" using flush_entries_nonempty [of crc p] by (simp add: flush_entries_def)
  have lst: "fst (last (flush_entries crc p)) = page_id (last ?qs)" using ne by (simp add: flush_entries_def last_map)
  have "page_id q \<le> page_id (last ?qs)" if q: "q \<in> set ?qs" for q
  proof -
    have "page_id q \<in> set (map page_id ?qs)" using q by simp
    then have "page_id q \<le> last (map page_id ?qs)"
      using flush_pages_sorted [OF assms] by (metis in_set_conv_decomp last.simps last_appendR list.discI sorted_append
          sorted_simps(2) last_in_set order_refl)
    then show ?thesis using ne by (simp add: last_map)
  qed
  moreover have "page_id (last ?qs) < SENTINEL" using ne f(2) by simp
  moreover have "length ?qs < 2 ^ 32"
    using assms(2) by (simp add: flush_pages_def staged_ok_def page_consts)
  ultimately have le: "\<forall>q \<in> set ?qs. page_id q < page_id (last ?qs) + 1" "page_id (last ?qs) + 1 < 2 ^ 32"
    and len: "length ?qs < 2 ^ 32"
    by (auto simp: less_Suc_eq_le page_consts)
  have t: "flush_target crc p = max (pg_file_pages p) (page_id (last ?qs) + 1)"
    by (simp only: flush_target_def lst)
  have "flush_target crc p < 2 ^ 32" using le(2) assms(2) by (simp add: t staged_ok_def)
  moreover have "\<forall>q \<in> set ?qs. page_id q < flush_target crc p"
    using le(1) by (metis max.strict_coboundedI2 t)
  ultimately show ?thesis using f(1) len by (auto simp: entries_ok_def flush_entries_def)
qed

lemma smapM_map: "smapM f (map g xs) = smapM (\<lambda>x. f (g x)) xs"
  by (induction xs) simp_all

lemma flush_unfold:
  assumes "\<not> (pg_dirty p = [] \<and> \<not> pg_meta_dirty p)"
  shows "\<exists>g. flush crc p = sbind (on_disk (write_journal crc (flush_entries crc p) (flush_target crc p))) (\<lambda>_.
      sbind (ensure_file_pages (flush_target crc p)) (\<lambda>_.
      sbind (on_disk (smapM (\<lambda>(i, b). write_at b (i * 4096)) (flush_entries crc p))) (\<lambda>_.
      sbind (on_disk disk_call) (\<lambda>_.
      sbind (on_disk clear_journal) (\<lambda>_. smod g))))) (p\<lparr>pg_pool := snd (pool_acquire (pg_pool p))\<rparr>) \<and>
      (\<forall>p. pg_disk (g p) = pg_disk p)"
proof -
  let ?qs = "flush_pages crc (fst (pool_acquire (pg_pool p))) p"
  have ne: "?qs \<noteq> []" using flush_entries_nonempty [of crc p] by (simp add: flush_entries_def)
  have t: "flush_target crc p = max (pg_file_pages p) (page_id (last ?qs) + 1)"
    using ne by (simp add: flush_target_def flush_entries_def last_map)
  have w: "smapM (\<lambda>(i, b). write_at b (i * 4096)) (flush_entries crc p) =
      smapM (\<lambda>q. write_at q (page_id q * PAGE_SIZE)) ?qs"
    by (simp add: flush_entries_def smapM_map PAGE_SIZE_def)
  show ?thesis
    unfolding t w
    by (rule exI [of _ "\<lambda>p. p\<lparr>pg_dirty := [], pg_meta_dirty := False,
        pg_cache := fold (\<lambda>q. lru_put (pg_capacity p) (page_id q) q) ?qs (pg_cache p)\<rparr>"])
      (use ne in \<open>simp add: flush_def if_not_P [OF assms] Let_def split_beta flush_entries_def\<close>)
qed

lemma flush_disk:
  assumes "pager_ok crc p" "staged_ok p" "d_journal (pg_disk p) = None \<or> d_journal (pg_disk p) = Some []"
    and "flush crc p = (r, p')" and staged: "\<not> (pg_dirty p = [] \<and> \<not> pg_meta_dirty p)"
  shows "flush_state crc (flush_entries crc p) (flush_target crc p) (d_file (pg_disk p)) (pg_disk p') \<and>
     (r = Inr () \<longrightarrow> d_journal (pg_disk p') = Some [] \<and>
        (\<forall>x. fbyte (d_file (pg_disk p')) x = fbyte (apply_entries (flush_entries crc p) (d_file (pg_disk p))) x))"
proof -
  let ?p0 = "p\<lparr>pg_pool := snd (pool_acquire (pg_pool p))\<rparr>"
  obtain g where g: "flush crc p = sbind (on_disk (write_journal crc (flush_entries crc p) (flush_target crc p))) (\<lambda>_.
      sbind (ensure_file_pages (flush_target crc p)) (\<lambda>_.
      sbind (on_disk (smapM (\<lambda>(i, b). write_at b (i * 4096)) (flush_entries crc p))) (\<lambda>_.
      sbind (on_disk disk_call) (\<lambda>_.
      sbind (on_disk clear_journal) (\<lambda>_. smod g))))) ?p0" "\<And>p. pg_disk (g p) = pg_disk p"
    using flush_unfold [OF staged, of crc] by blast
  have len: "pg_file_pages ?p0 * PAGE_SIZE = length (d_file (pg_disk ?p0))" using assms(1) by (simp add: pager_ok_def)
  have d0: "pg_disk ?p0 = pg_disk p" by simp
  from flush_steps [OF trans [OF g(1) [symmetric] assms(4)] g(2) flush_entries_ok [OF assms(1,2)] _ len] assms(3)
  show ?thesis unfolding d0 by blast
qed

lemma flush_crash:
  assumes "pager_ok crc p" "staged_ok p" "d_journal (pg_disk p) = None \<or> d_journal (pg_disk p) = Some []"
    and "flush crc p = (r, p')"
  shows "\<exists>d'. recover_journal crc ((pg_disk p')\<lparr>d_io := []\<rparr>) = (Inr (), d') \<and>
     ((\<forall>x. fbyte (d_file d') x = fbyte (d_file (pg_disk p)) x) \<or>
      (\<forall>x. fbyte (d_file d') x = fbyte (apply_entries (flush_entries crc p) (d_file (pg_disk p))) x))"
proof (cases "pg_dirty p = [] \<and> \<not> pg_meta_dirty p")
  case True
  with assms(3,4) show ?thesis
    by (auto simp: flush_def recover_journal_def sbind_def disk_call_def dio_next_def)
next
  case False
  have "length (d_file (pg_disk p)) \<le> flush_target crc p * 4096"
    using assms(1) by (simp add: pager_ok_def flush_target_def page_consts)
      (metis max.cobounded1 mult.commute mult_le_mono2)
  with flush_state_recovers [OF _ flush_entries_ok [OF assms(1,2)]] flush_disk [OF assms False]
  show ?thesis by blast
qed

section \<open>Properties of the flush\<close>

text \<open>C1. Crash atomicity of the flush. Whatever outcome each operating-system call of a flush
  has, the disk it leaves, which is also the disk after a crash at that call, recovers to one of
  two files: the file before the flush, or that file with every staged page and the metadata
  page written.\<close>

theorem flush_is_crash_atomic:
  assumes "pager_ok crc p" "staged_ok p" "d_journal (pg_disk p) = None \<or> d_journal (pg_disk p) = Some []"
    and "flush crc p = (r, p')"
  shows "\<exists>d'. recover_journal crc ((pg_disk p')\<lparr>d_io := []\<rparr>) = (Inr (), d') \<and>
     ((\<forall>x. fbyte (d_file d') x = fbyte (d_file (pg_disk p)) x) \<or>
      (\<forall>x. fbyte (d_file d') x = fbyte (apply_entries (flush_entries crc p) (d_file (pg_disk p))) x))"
  using assms by (rule flush_crash)

theorem flush_is_crash_atomic_witness:
  "\<exists>d'. recover_journal (\<lambda>_. 0) ((pg_disk (snd (flush (\<lambda>_. 0) example_pager)))\<lparr>d_io := []\<rparr>) = (Inr (), d') \<and>
     ((\<forall>x. fbyte (d_file d') x = fbyte (d_file (pg_disk example_pager)) x) \<or>
      (\<forall>x. fbyte (d_file d') x =
        fbyte (apply_entries (flush_entries (\<lambda>_. 0) example_pager) (d_file (pg_disk example_pager))) x))"
proof -
  have "staged_ok example_pager" "d_journal (pg_disk example_pager) = None"
    by (simp_all add: staged_ok_def example_pager_def page_consts)
  then show ?thesis
    using flush_is_crash_atomic [OF example_pager_ok _ _ surjective_pairing] by blast
qed

text \<open>A flush that reports success has written every staged page and the metadata page to the
  file and left an empty journal, so recovery on the next open does nothing.\<close>

lemma flush_success_is_durable:
  assumes "pager_ok crc p" "staged_ok p" "d_journal (pg_disk p) = None \<or> d_journal (pg_disk p) = Some []"
    and "flush crc p = (Inr (), p')" "\<not> (pg_dirty p = [] \<and> \<not> pg_meta_dirty p)"
  shows "d_journal (pg_disk p') = Some [] \<and>
     (\<forall>x. fbyte (d_file (pg_disk p')) x = fbyte (apply_entries (flush_entries crc p) (d_file (pg_disk p))) x)"
  using flush_disk [OF assms] by simp

lemma smapM_journal_runs:
  "d_io d = [] \<Longrightarrow> \<exists>d'. smapM journal_append ps d = (Inr (), d') \<and> d_io d' = []"
  by (induction ps arbitrary: d) (auto simp: sbind_def journal_append_def dio_next_def)

lemma smapM_write_runs:
  "d_io d = [] \<Longrightarrow> \<exists>d'. smapM (\<lambda>(i, b). write_at b (i * 4096)) es d = (Inr (), d') \<and> d_io d' = []"
  by (induction es arbitrary: d) (auto simp: sbind_def write_at_def dio_next_def)

lemma ensure_runs:
  assumes "d_io (pg_disk p) = []"
  shows "\<exists>p'. ensure_file_pages n p = (Inr (), p') \<and> d_io (pg_disk p') = []"
proof (cases "n \<le> pg_file_pages p")
  case False
  then show ?thesis
    using assms by (simp add: ensure_file_pages_def Let_def sbind_def on_disk_def file_set_len_def disk_call_def
        dio_next_def refresh_map_def)
qed (use assms in \<open>simp add: ensure_file_pages_def\<close>)

text \<open>With every outcome a success, the flush succeeds.\<close>

lemma flush_runs:
  assumes "d_io (pg_disk p) = []"
  shows "\<exists>p'. flush crc p = (Inr (), p')"
proof (cases "pg_dirty p = [] \<and> \<not> pg_meta_dirty p")
  case True
  then show ?thesis by (simp add: flush_def)
next
  case False
  then obtain g where g: "flush crc p = sbind (on_disk (write_journal crc (flush_entries crc p) (flush_target crc p))) (\<lambda>_.
      sbind (ensure_file_pages (flush_target crc p)) (\<lambda>_.
      sbind (on_disk (smapM (\<lambda>(i, b). write_at b (i * 4096)) (flush_entries crc p))) (\<lambda>_.
      sbind (on_disk disk_call) (\<lambda>_.
      sbind (on_disk clear_journal) (\<lambda>_. smod g))))) (p\<lparr>pg_pool := snd (pool_acquire (pg_pool p))\<rparr>)"
    using flush_unfold by blast
  define p0 where "p0 = p\<lparr>pg_pool := snd (pool_acquire (pg_pool p))\<rparr>"
  have "d_io (pg_disk p0) = []" using assms by (simp add: p0_def)
  moreover have "\<exists>d'. write_journal crc es t d = (Inr (), d') \<and> d_io d' = []" if "d_io d = []" for es t d
    using that smapM_journal_runs [of "d\<lparr>d_journal := Some []\<rparr>" "journal_pieces crc es t"]
    by (auto simp: write_journal_def journal_create_def sbind_def disk_call_def dio_next_def)
  ultimately obtain p1 where p1: "on_disk (write_journal crc (flush_entries crc p) (flush_target crc p)) p0 = (Inr (), p1)"
      "d_io (pg_disk p1) = []"
    unfolding on_disk_result by (metis (no_types, lifting) pager.select_convs(1) pager.surjective pager.update_convs(1))
  obtain p2 where p2: "ensure_file_pages (flush_target crc p) p1 = (Inr (), p2)" "d_io (pg_disk p2) = []"
    using ensure_runs [OF p1(2)] by blast
  obtain p3 where p3: "on_disk (smapM (\<lambda>(i, b). write_at b (i * 4096)) (flush_entries crc p)) p2 = (Inr (), p3)"
      "d_io (pg_disk p3) = []"
    using smapM_write_runs [OF p2(2), of "flush_entries crc p"]
    unfolding on_disk_result by (metis (no_types, lifting) pager.select_convs(1) pager.surjective pager.update_convs(1))
  show ?thesis
    unfolding g p0_def [symmetric] using p1 p2 p3
    by (simp add: sbind_def on_disk_def disk_call_def dio_next_def clear_journal_def)
qed

end
