(* ===== verification/Heap.thy ===== *)
theory Heap
  imports Pager_Props
begin

text \<open>
  The pages of the store as a heap with an allocator, and a weakest-precondition calculus for
  operations on the pager. \<open>wp m Q R p\<close> says of a run of \<open>m\<close> from \<open>p\<close>: a result satisfies
  \<open>Q\<close>, an error satisfies \<open>R\<close> unless the environment caused it (\<open>fails\<close>: an
  operating-system call failed, or the 32-bit page ids are used up). \<open>heap_ok crc p A\<close>: the
  free list is a proper list of free pages, and \<open>A\<close> is the set of page ids that no one owns
  (free pages and the ids behind the last page).
\<close>

section \<open>Weakest preconditions\<close>

definition quiet :: "pager \<Rightarrow> bool" where
  "quiet p \<longleftrightarrow> d_io (pg_disk p) = []"

definition fails :: "pager \<Rightarrow> error \<Rightarrow> pager \<Rightarrow> bool" where
  "fails p e p' \<longleftrightarrow> (e = Io \<and> \<not> quiet p) \<or> (e = Full \<and> md_page_count (pg_meta p') = SENTINEL)"

definition wp :: "'a pager_op \<Rightarrow> ('a \<Rightarrow> pager \<Rightarrow> bool) \<Rightarrow> (error \<Rightarrow> pager \<Rightarrow> bool) \<Rightarrow> pager \<Rightarrow> bool" where
  "wp m Q R p \<longleftrightarrow>
     (case m p of
        (Inl e, p') \<Rightarrow> (quiet p \<longrightarrow> quiet p') \<and> (fails p e p' \<or> R e p')
      | (Inr x, p') \<Rightarrow> (quiet p \<longrightarrow> quiet p') \<and> Q x p')"

lemma wp_cases:
  assumes "wp m Q R p" "m p = (r, p')"
  obtains (ok) x where "r = Inr x" "Q x p'" "quiet p \<longrightarrow> quiet p'"
    | (err) e where "r = Inl e" "fails p e p' \<or> R e p'" "quiet p \<longrightarrow> quiet p'"
  using assms by (cases r) (auto simp: wp_def)

lemma wp_Inr: "wp m Q R p \<Longrightarrow> m p = (Inr x, p') \<Longrightarrow> Q x p' \<and> (quiet p \<longrightarrow> quiet p')"
  by (simp add: wp_def)

lemma wp_conseq:
  assumes "wp m Q R p" "\<And>x p'. Q x p' \<Longrightarrow> Q' x p'" "\<And>e p'. R e p' \<Longrightarrow> R' e p'"
  shows "wp m Q' R' p"
  using assms by (auto simp: wp_def split: prod.splits sum.splits)

lemma wp_sret [intro!]: "Q x p \<Longrightarrow> wp (sret x) Q R p"
  by (simp add: wp_def)

lemma wp_serr [intro!]: "R e p \<Longrightarrow> wp (serr e) Q R p"
  by (simp add: wp_def)

lemma wp_slift: "r = Inr x \<Longrightarrow> Q x p \<Longrightarrow> wp (slift r) Q R p"
  by (simp add: wp_def)

lemma wp_smod: "Q () (f p) \<Longrightarrow> pg_disk (f p) = pg_disk p \<Longrightarrow> wp (smod f) Q R p"
  by (simp add: wp_def quiet_def)

lemma wp_sbind:
  assumes "wp m (\<lambda>x p'. wp (f x) Q R p') R p"
  shows "wp (sbind m f) Q R p"
proof (cases "m p")
  case (Pair r p1)
  from assms Pair show ?thesis
  proof (cases rule: wp_cases)
    case (ok x)
    then have "sbind m f p = f x p1" using Pair by simp
    then show ?thesis using ok(2,3) by (auto simp: wp_def fails_def split: prod.splits sum.splits)
  next
    case (err e)
    then show ?thesis using Pair by (auto simp: wp_def)
  qed
qed

lemma wp_sbind_slift: "r = Inr x \<Longrightarrow> wp (f x) Q R p \<Longrightarrow> wp (sbind (slift r) f) Q R p"
  by (rule wp_sbind) (rule wp_slift)

lemma wp_sbind_smod:
  "wp (f ()) Q R (g p) \<Longrightarrow> pg_disk (g p) = pg_disk p \<Longrightarrow> wp (sbind (smod g) f) Q R p"
  by (rule wp_sbind) (rule wp_smod)

lemma wp_sbind_sret: "wp (f x) Q R p \<Longrightarrow> wp (sbind (sret x) f) Q R p"
  by (rule wp_sbind) (rule wp_sret)

text \<open>Running one operation and continuing from what it guarantees.\<close>

lemma wp_step:
  assumes "wp m Q' R p" "\<And>x p'. Q' x p' \<Longrightarrow> wp (f x) Q R p'"
  shows "wp (sbind m f) Q R p"
  using assms by (blast intro: wp_sbind wp_conseq)

lemma wp_if: "(b \<Longrightarrow> wp m Q R p) \<Longrightarrow> (\<not> b \<Longrightarrow> wp n Q R p) \<Longrightarrow> wp (if b then m else n) Q R p"
  by simp

section \<open>System calls and reads\<close>

lemma wp_disk_call:
  assumes "\<And>d. d_file d = d_file (pg_disk p) \<Longrightarrow> d_journal d = d_journal (pg_disk p) \<Longrightarrow>
    Q () (p\<lparr>pg_disk := d\<rparr>)"
  shows "wp (on_disk disk_call) Q R p"
proof (cases "d_io (pg_disk p)")
  case Nil
  then show ?thesis
    using assms [of "pg_disk p"] by (simp add: wp_def on_disk_def disk_call_def dio_next_def)
next
  case (Cons x xs)
  then show ?thesis
    using assms [of "(pg_disk p)\<lparr>d_io := xs\<rparr>"]
    by (cases x) (simp_all add: wp_def on_disk_def disk_call_def dio_next_def fails_def quiet_def)
qed

lemma load_page_wp:
  assumes "pager_ok crc p" "file_page crc (d_file (pg_disk p)) i = Some q"
    and Q: "\<And>d. d_file d = d_file (pg_disk p) \<Longrightarrow> d_journal d = d_journal (pg_disk p) \<Longrightarrow> Q q (p\<lparr>pg_disk := d\<rparr>)"
  shows "wp (load_page crc i) Q R p"
proof -
  let ?f = "d_file (pg_disk p)"
  have f: "i * PAGE_SIZE + PAGE_SIZE \<le> length ?f" "from_bytes crc (bslice ?f (i * PAGE_SIZE) PAGE_SIZE) = Inr q"
    using file_page_Some(3-5) [OF assms(2)] by (auto simp: algebra_simps)
  show ?thesis
  proof (cases "i * PAGE_SIZE + PAGE_SIZE \<le> pg_map_len p")
    case True
    then show ?thesis using Q [of "pg_disk p"] f by (simp add: wp_def load_page_def)
  next
    case False
    have "wp (sbind (on_disk disk_call) (\<lambda>_ p.
          if i * PAGE_SIZE + PAGE_SIZE > length (d_file (pg_disk p)) then (Inl Corruption, p)
          else sbind (on_disk disk_call) (\<lambda>_ p.
              (from_bytes crc (bslice (d_file (pg_disk p)) (i * PAGE_SIZE) PAGE_SIZE), p)) p)) Q R p"
    proof (rule wp_sbind, rule wp_disk_call)
      fix d :: disk assume d: "d_file d = ?f" "d_journal d = d_journal (pg_disk p)"
      have "wp (sbind (on_disk disk_call) (\<lambda>_ p.
              (from_bytes crc (bslice (d_file (pg_disk p)) (i * PAGE_SIZE) PAGE_SIZE), p))) Q R (p\<lparr>pg_disk := d\<rparr>)"
        by (rule wp_sbind, rule wp_disk_call) (use d f Q in \<open>simp add: wp_def\<close>)
      then show "wp (\<lambda>p. if i * PAGE_SIZE + PAGE_SIZE > length (d_file (pg_disk p)) then (Inl Corruption, p)
          else sbind (on_disk disk_call) (\<lambda>_ p.
              (from_bytes crc (bslice (d_file (pg_disk p)) (i * PAGE_SIZE) PAGE_SIZE), p)) p) Q R (p\<lparr>pg_disk := d\<rparr>)"
        using f(1) d by (simp add: wp_def)
    qed
    then show ?thesis using False by (simp add: wp_def load_page_def Let_def)
  qed
qed

lemma wp_same_state: "(\<And>r p'. m p = (r, p') \<Longrightarrow> P p') \<Longrightarrow> wp m Q R p \<Longrightarrow> wp m (\<lambda>x p'. Q x p' \<and> P p') R p"
  by (auto simp: wp_def split: prod.splits sum.splits)

lemma read_page_wp:
  assumes "pager_ok crc p" "pview crc p i = Some q"
  shows "wp (read_page crc i) (\<lambda>x p'. x = q \<and> same_view crc p p') R p"
proof (rule wp_same_state)
  show "same_view crc p p'" if "read_page crc i p = (r, p')" for r p'
    using read_page_ok(1) [OF assms(1) that] .
  show "wp (read_page crc i) (\<lambda>x p'. x = q) R p"
  proof (cases "bm_get (pg_dirty p) i")
    case (Some q')
    then show ?thesis using assms(2) by (simp add: wp_def read_page_def pview_def quiet_def)
  next
    case None
    then have fp: "file_page crc (d_file (pg_disk p)) i = Some q" using assms(2) by (simp add: pview_def)
    show ?thesis
    proof (cases "lru_find i (pg_cache p)")
      case (Some q')
      then have "file_page crc (d_file (pg_disk p)) i = Some q'"
        using assms(1) lru_find_set [OF Some] by (auto simp: pager_ok_def)
      then show ?thesis using None Some fp by (simp add: wp_def read_page_def quiet_def)
    next
      case no: None
      let ?p0 = "p\<lparr>pg_misses := pg_misses p + 1\<rparr>"
      have ok0: "pager_ok crc ?p0" using assms(1) by (simp add: pager_ok_def)
      have "wp (sbind (load_page crc i) (\<lambda>q.
                 if page_id q \<noteq> i then serr Corruption
                 else sbind (smod (\<lambda>p. p\<lparr>pg_cache := lru_put (pg_capacity p) i q (pg_cache p)\<rparr>))
                     (\<lambda>_. sret q))) (\<lambda>x p'. x = q) R ?p0"
      proof (rule wp_sbind, rule load_page_wp [OF ok0, of i q])
        show "file_page crc (d_file (pg_disk ?p0)) i = Some q" using fp by simp
        show "wp (if page_id q \<noteq> i then serr Corruption
                 else sbind (smod (\<lambda>p. p\<lparr>pg_cache := lru_put (pg_capacity p) i q (pg_cache p)\<rparr>))
                     (\<lambda>_. sret q)) (\<lambda>x p'. x = q) R (?p0\<lparr>pg_disk := d\<rparr>)" for d
          using file_page_Some(2) [OF fp] by (simp add: wp_def quiet_def)
      qed
      then show ?thesis using None no by (simp add: wp_def read_page_def fails_def quiet_def split: prod.splits sum.splits)
    qed
  qed
qed

section \<open>The allocator\<close>

text \<open>The free list that starts at page \<open>h\<close> and links through the \<open>extra\<close> fields.\<close>

fun free_list :: "(nat \<Rightarrow> page option) \<Rightarrow> nat \<Rightarrow> nat list \<Rightarrow> bool" where
  "free_list V h [] \<longleftrightarrow> h = SENTINEL"
| "free_list V h (i # is) \<longleftrightarrow>
     h = i \<and> i \<noteq> SENTINEL \<and> (\<exists>q. V i = Some q \<and> page_type q = Inr Free \<and> free_list V (extra q) is)"

lemma free_list_cong: "(\<And>i. i \<in> set is \<Longrightarrow> V' i = V i) \<Longrightarrow> free_list V h is \<Longrightarrow> free_list V' h is"
  by (induction "is" arbitrary: h) auto

definition tmeta :: "meta_data \<Rightarrow> nat \<times> nat \<times> nat \<times> nat \<times> nat" where
  "tmeta m = (md_version m, md_root m, md_tree_ts m, md_next_txn_id m, md_last_lsn m)"

definition heap_ok :: "(bytes \<Rightarrow> u32) \<Rightarrow> pager \<Rightarrow> nat set \<Rightarrow> bool" where
  "heap_ok crc p A \<longleftrightarrow>
     pager_ok crc p \<and>
     (\<exists>fl. free_list (pview crc p) (md_free_list (pg_meta p)) fl \<and> distinct fl \<and>
        set fl \<subseteq> {0<..<md_page_count (pg_meta p)} \<and> A = set fl \<union> {md_page_count (pg_meta p)..}) \<and>
     0 < md_page_count (pg_meta p) \<and> (\<forall>i \<in> fst ` set (pg_dirty p). 0 < i \<and> i < md_page_count (pg_meta p))"

lemma heap_okD:
  assumes "heap_ok crc p A"
  shows "pager_ok crc p" "0 \<notin> A" "i \<notin> A \<Longrightarrow> i < md_page_count (pg_meta p)" "SENTINEL \<in> A"
  using assms by (auto simp: heap_ok_def pager_ok_def meta_in_range_def page_consts)

lemma page_count_bound: "heap_ok crc p A \<Longrightarrow> md_page_count (pg_meta p) \<le> SENTINEL"
  by (auto simp: heap_ok_def pager_ok_def meta_in_range_def page_consts)

lemma same_view_heap: "heap_ok crc p A \<Longrightarrow> same_view crc p p' \<Longrightarrow> heap_ok crc p' A"
  by (simp add: heap_ok_def same_view_def)

lemma heap_read_wp:
  assumes "heap_ok crc p A" "pview crc p i = Some q"
  shows "wp (read_page crc i) (\<lambda>x p'. x = q \<and> heap_ok crc p' A \<and> same_view crc p p') R p"
  by (rule wp_conseq [OF read_page_wp [OF heap_okD(1) [OF assms(1)] assms(2)]])
     (use assms(1) same_view_heap in auto)

lemma heap_write:
  assumes "heap_ok crc p A" "length q = 4096" "page_id q \<notin> A" "page_id q \<noteq> 0"
  shows "heap_ok crc (write_page q p) A" "pview crc (write_page q p) = (pview crc p)(page_id q := Some q)"
    "pg_meta (write_page q p) = pg_meta p" "pg_disk (write_page q p) = pg_disk p"
proof -
  note w = write_page_ok [OF heap_okD(1) [OF assms(1)] assms(2)]
  obtain fl where fl: "free_list (pview crc p) (md_free_list (pg_meta p)) fl" "distinct fl"
    "set fl \<subseteq> {0<..<md_page_count (pg_meta p)}" "A = set fl \<union> {md_page_count (pg_meta p)..}"
    using assms(1) by (auto simp: heap_ok_def)
  have "free_list (pview crc (write_page q p)) (md_free_list (pg_meta p)) fl"
    by (rule free_list_cong [OF _ fl(1)]) (use fl(4) assms(3) in \<open>auto simp: w(2)\<close>)
  then show "heap_ok crc (write_page q p) A"
    using fl(2-4) w assms heap_okD(3) [OF assms(1,3)] by (auto simp: heap_ok_def)
  show "pview crc (write_page q p) = (pview crc p)(page_id q := Some q)" by (rule w(2))
  show "pg_meta (write_page q p) = pg_meta p" by (rule w(3))
  show "pg_disk (write_page q p) = pg_disk p" by (simp add: write_page_def Let_def)
qed

lemma heap_set_root:
  assumes "heap_ok crc p A" "r < 2 ^ 32"
  defines "p' \<equiv> set_meta ((pg_meta p)\<lparr>md_root := r\<rparr>) p"
  shows "heap_ok crc p' A" "pview crc p' = pview crc p" "pg_meta p' = (pg_meta p)\<lparr>md_root := r\<rparr>"
    "pg_disk p' = pg_disk p"
proof -
  have "meta_in_range ((pg_meta p)\<lparr>md_root := r\<rparr>)"
    using assms(1,2) by (simp add: heap_ok_def pager_ok_def meta_in_range_def)
  note m = set_meta_field_ok [OF heap_okD(1) [OF assms(1)] this, of True]
  have dis: "p' = p \<and> (pg_meta p)\<lparr>md_root := r\<rparr> = pg_meta p \<or>
      p' = p\<lparr>pg_meta := (pg_meta p)\<lparr>md_root := r\<rparr>, pg_meta_dirty := True\<rparr>"
    by (simp add: p'_def set_meta_def)
  show "heap_ok crc p' A" using dis assms(1) m unfolding heap_ok_def by (elim disjE) simp_all
  show "pview crc p' = pview crc p" "pg_meta p' = (pg_meta p)\<lparr>md_root := r\<rparr>" "pg_disk p' = pg_disk p"
    using dis m by auto
qed

lemma wp_run:
  assumes "wp m (\<lambda>_ _. True) R p" "\<And>x p'. m p = (Inr x, p') \<Longrightarrow> Q x p'"
  shows "wp m Q R p"
  using assms by (auto simp: wp_def split: prod.splits sum.splits)

lemma ensure_file_pages_wp: "wp (ensure_file_pages n) (\<lambda>_ _. True) R p"
proof (cases "n \<le> pg_file_pages p")
  case True
  then show ?thesis by (simp add: wp_def ensure_file_pages_def)
next
  case False
  let ?t = "max n (pg_file_pages p + GROW_CHUNK)"
  have set_len: "wp (on_disk (file_set_len k)) (\<lambda>_ _. True) R p" for k
    by (cases "d_io (pg_disk p)")
       (auto simp: wp_def on_disk_def file_set_len_def sbind_def disk_call_def dio_next_def quiet_def fails_def
          split: option.splits)
  have "wp refresh_map (\<lambda>_ _. True) R p" for p
    unfolding refresh_map_def
    by (intro wp_sbind wp_disk_call wp_smod) (simp_all add: Let_def)
  then have "wp (sbind (on_disk (file_set_len (?t * PAGE_SIZE))) (\<lambda>_.
        sbind (smod (\<lambda>p. p\<lparr>pg_file_pages := ?t\<rparr>)) (\<lambda>_. refresh_map))) (\<lambda>_ _. True) R p"
    by (intro wp_step [OF set_len] wp_sbind_smod) simp_all
  then show ?thesis using False by (simp add: wp_def ensure_file_pages_def Let_def)
qed

lemma page_from_pool_wp: "wp (page_from_pool i ty) (\<lambda>_ _. True) R p"
  by (simp add: wp_def page_from_pool_def quiet_def split: prod.splits)

lemma fresh_page_wp:
  "wp (sbind (page_from_pool i ty) (\<lambda>q. sbind (smod (write_page q)) (\<lambda>_. sret q))) (\<lambda>_ _. True) R p"
  by (intro wp_step [OF page_from_pool_wp] wp_sbind_smod wp_sret) (simp_all add: write_page_def Let_def)

lemma allocate_page_total:
  assumes "heap_ok crc p A"
  shows "wp (allocate_page crc ty) (\<lambda>_ _. True) R p"
proof (cases "md_free_list (pg_meta p) = SENTINEL")
  case True
  let ?pid = "md_page_count (pg_meta p)"
  show ?thesis
  proof (cases "?pid = SENTINEL")
    case full: True
    then show ?thesis using True by (simp add: wp_def allocate_page_def fails_def)
  next
    case False
    have "wp (sbind (smod (\<lambda>p. p\<lparr>pg_meta := (pg_meta p)\<lparr>md_page_count := ?pid + 1\<rparr>, pg_meta_dirty := True\<rparr>)) (\<lambda>_.
          sbind (ensure_file_pages (?pid + 1)) (\<lambda>_.
          sbind (page_from_pool ?pid ty) (\<lambda>q.
          sbind (smod (write_page q)) (\<lambda>_. sret q))))) (\<lambda>_ _. True) R p"
      by (intro wp_sbind_smod wp_step [OF ensure_file_pages_wp] fresh_page_wp) simp
    then show ?thesis using True False by (simp add: wp_def allocate_page_def Let_def)
  qed
next
  case False
  let ?pid = "md_free_list (pg_meta p)"
  obtain q where q: "pview crc p ?pid = Some q" "page_type q = Inr Free"
  proof -
    obtain fl where "free_list (pview crc p) ?pid fl" using assms by (auto simp: heap_ok_def)
    then show thesis using False that by (cases fl) auto
  qed
  have "wp (sbind (read_page crc ?pid) (\<lambda>recycled.
        sbind (slift (page_type recycled)) (\<lambda>rty.
          if rty \<noteq> Free then serr Corruption
          else
            sbind (smod (\<lambda>p. p\<lparr>pg_meta := (pg_meta p)\<lparr>md_free_list := extra recycled\<rparr>,
                              pg_meta_dirty := True\<rparr>)) (\<lambda>_.
            sbind (page_from_pool ?pid ty) (\<lambda>q.
            sbind (smod (write_page q)) (\<lambda>_. sret q)))))) (\<lambda>_ _. True) R p"
  proof (rule wp_step [OF heap_read_wp [OF assms q(1)]])
    fix x p' assume "x = q \<and> heap_ok crc p' A \<and> same_view crc p p'"
    then have x: "page_type x = Inr Free" using q by simp
    show "wp (sbind (slift (page_type x)) (\<lambda>rty.
          if rty \<noteq> Free then serr Corruption
          else
            sbind (smod (\<lambda>p. p\<lparr>pg_meta := (pg_meta p)\<lparr>md_free_list := extra x\<rparr>,
                              pg_meta_dirty := True\<rparr>)) (\<lambda>_.
            sbind (page_from_pool ?pid ty) (\<lambda>q.
            sbind (smod (write_page q)) (\<lambda>_. sret q))))) (\<lambda>_ _. True) R p'"
      by (rule wp_sbind_slift [OF x]) (simp, intro wp_sbind_smod fresh_page_wp, simp)
  qed
  then show ?thesis using False by (simp add: wp_def allocate_page_def Let_def)
qed

lemma heap_alloc_wp:
  assumes "heap_ok crc p A"
  shows "wp (allocate_page crc ty) (\<lambda>q p'. \<exists>buf. page_id q \<in> A \<and> page_id q \<noteq> 0 \<and> page_id q < SENTINEL \<and>
      length buf = 4096 \<and> q = page_new buf (page_id q) ty \<and> heap_ok crc p' (A - {page_id q}) \<and>
      pview crc p' = (pview crc p)(page_id q := Some q) \<and> tmeta (pg_meta p') = tmeta (pg_meta p)) R p"
proof (rule wp_run [OF allocate_page_total [OF assms]])
  fix q p' assume run: "allocate_page crc ty p = (Inr q, p')"
  let ?i = "page_id q" and ?m = "pg_meta p"
  note al = allocate_page_ok [OF heap_okD(1) [OF assms] run, unfolded alloc_result_def]
  obtain fl where fl: "free_list (pview crc p) (md_free_list ?m) fl" "distinct fl"
    "set fl \<subseteq> {0<..<md_page_count ?m}" "A = set fl \<union> {md_page_count ?m..}"
    using assms by (auto simp: heap_ok_def)
  have pc: "0 < md_page_count ?m" "md_page_count ?m \<le> SENTINEL"
    "\<forall>i \<in> fst ` set (pg_dirty p). 0 < i \<and> i < md_page_count ?m"
    using assms page_count_bound [OF assms] by (auto simp: heap_ok_def)
  have i: "?i \<in> A \<and> ?i \<noteq> 0 \<and> ?i < SENTINEL \<and> heap_ok crc p' (A - {?i}) \<and> tmeta (pg_meta p') = tmeta ?m"
  proof (cases "md_free_list ?m = SENTINEL")
    case True
    then have "fl = []" using fl(1) by (cases fl) auto
    moreover have m: "?i = md_page_count ?m" "?i \<noteq> SENTINEL" "pg_meta p' = ?m\<lparr>md_page_count := ?i + 1\<rparr>"
      using al True by auto
    moreover have "A - {?i} = {?i + 1..}" using fl(4) \<open>fl = []\<close> m(1) by auto
    moreover have "heap_ok crc p' {?i + 1..}"
      using al m pc True unfolding heap_ok_def by (auto intro!: exI [of _ "[]"])
    ultimately show ?thesis using pc fl(4) by (auto simp: tmeta_def)
  next
    case False
    then obtain old where m: "?i = md_free_list ?m" "pview crc p ?i = Some old" "pg_meta p' = ?m\<lparr>md_free_list := extra old\<rparr>"
      using al by auto
    obtain fl' where fl': "fl = ?i # fl'" "free_list (pview crc p) (extra old) fl'"
      using fl(1) False m(1,2) by (cases fl) auto
    have "free_list (pview crc p') (extra old) fl'"
      by (rule free_list_cong [OF _ fl'(2)]) (use al fl(2) fl'(1) in auto)
    moreover have A: "A - {?i} = set fl' \<union> {md_page_count ?m..}" using fl(2-4) fl'(1) by auto
    ultimately have "heap_ok crc p' (A - {?i})"
      using al m pc fl(2,3) fl'(1) unfolding heap_ok_def A by (auto intro!: exI [of _ fl'])
    then show ?thesis using fl(3,4) fl'(1) pc(2) m(3) by (auto simp: tmeta_def)
  qed
  then show "\<exists>buf. ?i \<in> A \<and> ?i \<noteq> 0 \<and> ?i < SENTINEL \<and> length buf = 4096 \<and> q = page_new buf ?i ty \<and>
      heap_ok crc p' (A - {?i}) \<and> pview crc p' = (pview crc p)(?i := Some q) \<and> tmeta (pg_meta p') = tmeta ?m"
    using al by blast
qed

lemma heap_free_wp:
  assumes "heap_ok crc p A" "i \<notin> A" "i \<noteq> 0"
  shows "wp (free_page i) (\<lambda>_ p'. heap_ok crc p' (insert i A) \<and>
      (\<forall>j. j \<noteq> i \<longrightarrow> pview crc p' j = pview crc p j) \<and> tmeta (pg_meta p') = tmeta (pg_meta p)) R p"
proof (rule wp_run)
  have i: "i < md_page_count (pg_meta p)" using heap_okD(3) [OF assms(1,2)] .
  have "wp (sbind (page_from_pool i Free) (\<lambda>q p.
          let q = set_extra q (md_free_list (pg_meta p));
              p = p\<lparr>pg_meta := (pg_meta p)\<lparr>md_free_list := i\<rparr>, pg_meta_dirty := True\<rparr>
          in (Inr (), write_page q p))) (\<lambda>_ _. True) R p"
    by (rule wp_step [OF page_from_pool_wp]) (simp add: wp_def quiet_def Let_def write_page_def)
  then show "wp (free_page i) (\<lambda>_ _. True) R p" using i assms(3) by (simp add: wp_def free_page_def)
  fix u p' assume run: "free_page i p = (Inr u, p')"
  have pc: "md_page_count (pg_meta p) \<le> SENTINEL" by (rule page_count_bound [OF assms(1)])
  then have "i < 2 ^ 32" using i by (simp add: page_consts)
  then obtain q where q: "pager_ok crc p'" "pview crc p' = (pview crc p)(i := Some q)" "page_type q = Inr Free"
    "extra q = md_free_list (pg_meta p)" "pg_meta p' = (pg_meta p)\<lparr>md_free_list := i\<rparr>"
    "fst ` set (pg_dirty p') = insert i (fst ` set (pg_dirty p))"
    using free_page_ok [OF heap_okD(1) [OF assms(1)] run] by blast
  obtain fl where fl: "free_list (pview crc p) (md_free_list (pg_meta p)) fl" "distinct fl"
    "set fl \<subseteq> {0<..<md_page_count (pg_meta p)}" "A = set fl \<union> {md_page_count (pg_meta p)..}"
    using assms by (auto simp: heap_ok_def)
  have "free_list (pview crc p') (md_free_list (pg_meta p)) fl"
    by (rule free_list_cong [OF _ fl(1)]) (use fl(4) assms(2) in \<open>auto simp: q(2)\<close>)
  then have "free_list (pview crc p') i (i # fl)" using i pc q(2-4) by (simp add: fun_upd_def)
  then have "heap_ok crc p' (insert i A)"
    using q fl(2-4) assms i unfolding heap_ok_def by (auto intro!: exI [of _ "i # fl"])
  then show "heap_ok crc p' (insert i A) \<and> (\<forall>j. j \<noteq> i \<longrightarrow> pview crc p' j = pview crc p j) \<and>
      tmeta (pg_meta p') = tmeta (pg_meta p)"
    using q by (simp add: tmeta_def)
qed

end
