(* ===== verification/Overflow.thy ===== *)
theory Overflow
  imports Heap
begin

text \<open>
  Overflow chains. \<open>chain_at V h os v\<close>: following the links from page \<open>h\<close> visits the pages
  \<open>os\<close>, whose payloads together are the value \<open>v\<close>. Writing a value builds such a chain
  from unowned pages, reading returns the value, freeing gives the pages back.
\<close>

fun chain_at :: "(nat \<Rightarrow> page option) \<Rightarrow> nat \<Rightarrow> nat list \<Rightarrow> bytes \<Rightarrow> bool" where
  "chain_at V h [] v \<longleftrightarrow> h = SENTINEL \<and> v = []"
| "chain_at V h (i # is) v \<longleftrightarrow>
     h = i \<and> i \<noteq> SENTINEL \<and>
     (\<exists>q bs v'. V i = Some q \<and> page_type q = Inr Overflow \<and> read_overflow q = Inr bs \<and>
        v = bs @ v' \<and> chain_at V (extra q) is v')"

lemma chain_at_cong: "(\<And>i. i \<in> set os \<Longrightarrow> V' i = V i) \<Longrightarrow> chain_at V h os v \<Longrightarrow> chain_at V' h os v"
  by (induction os arbitrary: h v) auto

lemma read_overflow_len: "read_overflow q = Inr bs \<Longrightarrow> length bs \<le> OVERFLOW_PAYLOAD"
  by (auto simp: read_overflow_def res_simps Let_def length_bslice split: if_splits)

lemma chain_at_length: "chain_at V h os v \<Longrightarrow> length v \<le> length os * OVERFLOW_PAYLOAD"
proof (induction os arbitrary: h v)
  case (Cons i os)
  then obtain q bs v' where "read_overflow q = Inr bs" "v = bs @ v'" "chain_at V (extra q) os v'" by auto
  then show ?case using Cons.IH [of "extra q" v'] read_overflow_len [of q bs] by simp
qed simp

lemma concat_chunks: "0 < n \<Longrightarrow> concat (chunks n bs) = bs"
proof (induction n bs rule: chunks.induct)
  case (1 n bs)
  then show ?case by (subst chunks.simps) auto
qed

lemma chunks_length: "c \<in> set (chunks n bs) \<Longrightarrow> length c \<le> n"
proof (induction n bs rule: chunks.induct)
  case (1 n bs)
  from "1.prems" show ?case
    by (subst (asm) chunks.simps) (use "1.IH" in \<open>auto split: if_splits\<close>)
qed

lemma length_chunks: "0 < n \<Longrightarrow> length (chunks n bs) * n < length bs + n"
proof (induction n bs rule: chunks.induct)
  case (1 n bs)
  show ?case
  proof (cases "bs = []")
    case True
    then show ?thesis using 1(2) by (subst chunks.simps) simp
  next
    case False
    have rest: "length (chunks n (drop n bs)) * n < length (drop n bs) + n" using 1 False by simp
    show ?thesis
    proof (cases "length bs \<le> n")
      case True
      then have "chunks n (drop n bs) = []" by (subst chunks.simps) simp
      then show ?thesis using False by (subst chunks.simps) (use 1(2) in simp)
    next
      case longer: False
      then show ?thesis using rest False by (subst chunks.simps) (use 1(2) in simp)
    qed
  qed
qed

section \<open>Writing\<close>

lemma write_chain_wp:
  assumes "heap_ok crc p A" "chain_at (pview crc p) nxt os v" "set os \<inter> A = {}"
    and "\<forall>c \<in> set cs. length c \<le> OVERFLOW_PAYLOAD" "nxt < 2 ^ 32"
  shows "wp (write_chain crc cs nxt) (\<lambda>h p'. \<exists>os'. distinct os' \<and> length os' = length cs \<and> set os' \<subseteq> A \<and>
      heap_ok crc p' (A - set os') \<and> chain_at (pview crc p') h (os' @ os) (concat (rev cs) @ v) \<and> h < 2 ^ 32 \<and>
      (\<forall>i. i \<notin> A \<longrightarrow> pview crc p' i = pview crc p i) \<and> tmeta (pg_meta p') = tmeta (pg_meta p)) R p"
  using assms
proof (induction cs arbitrary: p A nxt os v)
  case Nil
  show ?case unfolding write_chain.simps
    by (rule wp_sret) (use Nil in \<open>auto intro!: exI [of _ "[]"]\<close>)
next
  case (Cons c cs)
  show ?case
    unfolding write_chain.simps
  proof (rule wp_step [OF heap_alloc_wp [OF Cons.prems(1)]], elim exE conjE)
    fix q p1 buf
    let ?i = "page_id q"
    assume q: "?i \<in> A" "?i \<noteq> 0" "?i < SENTINEL" "length buf = 4096" "q = page_new buf ?i Overflow"
      "heap_ok crc p1 (A - {?i})" "pview crc p1 = (pview crc p)(?i := Some q)" "tmeta (pg_meta p1) = tmeta (pg_meta p)"
    have len: "length q = 4096" using length_page_new [OF q(4), of ?i Overflow] q(5) by simp
    obtain q' where w: "write_overflow q c nxt = Inr q'" "length q' = 4096" "read_overflow q' = Inr c"
        "extra q' = nxt" "page_type q' = Inr Overflow" "page_id q' = ?i"
      using overflow_roundtrip [OF len, of c nxt] Cons.prems(4,5) by auto
    have i: "page_id q' \<notin> A - {?i}" "page_id q' \<noteq> 0" using w(6) q(2) by auto
    note wr = heap_write [OF q(6) w(2) i]
    have view: "pview crc (write_page q' p1) = (pview crc p)(?i := Some q')" by (simp add: wr(2) q(7) w(6))
    have "chain_at (pview crc (write_page q' p1)) nxt os v"
      by (rule chain_at_cong [OF _ Cons.prems(2)]) (use q(1) Cons.prems(3) view in auto)
    then have chain: "chain_at (pview crc (write_page q' p1)) ?i (?i # os) (c @ v)"
      using w q(3) by (simp add: view)
    have "wp (write_chain crc cs ?i) (\<lambda>h p'. \<exists>os'. distinct os' \<and> length os' = length cs \<and> set os' \<subseteq> A - {?i} \<and>
        heap_ok crc p' (A - {?i} - set os') \<and> chain_at (pview crc p') h (os' @ ?i # os) (concat (rev cs) @ c @ v) \<and>
        h < 2 ^ 32 \<and> (\<forall>j. j \<notin> A - {?i} \<longrightarrow> pview crc p' j = pview crc (write_page q' p1) j) \<and>
        tmeta (pg_meta p') = tmeta (pg_meta (write_page q' p1))) R (write_page q' p1)"
      by (rule Cons.IH [OF wr(1) chain])
         (use Cons.prems q(3) in \<open>auto simp: page_consts\<close>)
    then have "wp (write_chain crc cs (page_id q')) (\<lambda>h p'. \<exists>os'. distinct os' \<and> length os' = length (c # cs) \<and> set os' \<subseteq> A \<and>
      heap_ok crc p' (A - set os') \<and> chain_at (pview crc p') h (os' @ os) (concat (rev (c # cs)) @ v) \<and> h < 2 ^ 32 \<and>
      (\<forall>i. i \<notin> A \<longrightarrow> pview crc p' i = pview crc p i) \<and> tmeta (pg_meta p') = tmeta (pg_meta p)) R (write_page q' p1)"
      unfolding w(6)
    proof (rule wp_conseq, elim exE conjE)
      fix h p' os'
      assume os': "distinct os'" "length os' = length cs" "set os' \<subseteq> A - {?i}" "heap_ok crc p' (A - {?i} - set os')"
        "chain_at (pview crc p') h (os' @ ?i # os) (concat (rev cs) @ c @ v)" "h < 2 ^ 32"
        "\<forall>j. j \<notin> A - {?i} \<longrightarrow> pview crc p' j = pview crc (write_page q' p1) j"
        "tmeta (pg_meta p') = tmeta (pg_meta (write_page q' p1))"
      have "A - {?i} - set os' = A - set (os' @ [?i])" by auto
      then show "\<exists>os'. distinct os' \<and> length os' = length (c # cs) \<and> set os' \<subseteq> A \<and>
        heap_ok crc p' (A - set os') \<and> chain_at (pview crc p') h (os' @ os) (concat (rev (c # cs)) @ v) \<and> h < 2 ^ 32 \<and>
        (\<forall>i. i \<notin> A \<longrightarrow> pview crc p' i = pview crc p i) \<and> tmeta (pg_meta p') = tmeta (pg_meta p)"
        using os' q(1,8) view wr(3) by (intro exI [of _ "os' @ [?i]"]) auto
    qed auto
    then show "wp (sbind (slift (write_overflow q c nxt)) (\<lambda>q. sbind (smod (write_page q)) (\<lambda>_.
        write_chain crc cs (page_id q)))) (\<lambda>h p'. \<exists>os'. distinct os' \<and> length os' = length (c # cs) \<and> set os' \<subseteq> A \<and>
      heap_ok crc p' (A - set os') \<and> chain_at (pview crc p') h (os' @ os) (concat (rev (c # cs)) @ v) \<and> h < 2 ^ 32 \<and>
      (\<forall>i. i \<notin> A \<longrightarrow> pview crc p' i = pview crc p i) \<and> tmeta (pg_meta p') = tmeta (pg_meta p)) R p1"
      by (intro wp_sbind_slift [OF w(1)] wp_sbind_smod wr(4))
  qed
qed

text \<open>How long the chain of a value is.\<close>

definition chain_len :: "nat list \<Rightarrow> bytes \<Rightarrow> bool" where
  "chain_len os v \<longleftrightarrow> length os * OVERFLOW_PAYLOAD < length v + OVERFLOW_PAYLOAD"

lemma write_overflow_chain_wp:
  assumes "heap_ok crc p A"
  shows "wp (write_overflow_chain crc v) (\<lambda>h p'. \<exists>os. distinct os \<and> chain_len os v \<and> set os \<subseteq> A \<and>
      heap_ok crc p' (A - set os) \<and> chain_at (pview crc p') h os v \<and> h < 2 ^ 32 \<and>
      (\<forall>i. i \<notin> A \<longrightarrow> pview crc p' i = pview crc p i) \<and> tmeta (pg_meta p') = tmeta (pg_meta p)) R p"
proof -
  have pos: "0 < OVERFLOW_PAYLOAD" by (simp add: page_consts)
  have "wp (write_chain crc (rev (chunks OVERFLOW_PAYLOAD v)) SENTINEL)
      (\<lambda>h p'. \<exists>os'. distinct os' \<and> length os' = length (rev (chunks OVERFLOW_PAYLOAD v)) \<and> set os' \<subseteq> A \<and>
      heap_ok crc p' (A - set os') \<and>
      chain_at (pview crc p') h (os' @ []) (concat (rev (rev (chunks OVERFLOW_PAYLOAD v))) @ []) \<and> h < 2 ^ 32 \<and>
      (\<forall>i. i \<notin> A \<longrightarrow> pview crc p' i = pview crc p i) \<and> tmeta (pg_meta p') = tmeta (pg_meta p)) R p"
    by (rule write_chain_wp [OF assms]) (use chunks_length in \<open>auto simp: SENTINEL_def\<close>)
  then show ?thesis
    unfolding write_overflow_chain_def chain_len_def
    by (rule wp_conseq) (use concat_chunks [OF pos] length_chunks [OF pos, of v] in auto)
qed

section \<open>Reading and freeing\<close>

lemma read_chain_wp:
  assumes "heap_ok crc p A" "chain_at (pview crc p) h os v" "length os \<le> links" "length out + length v = tot"
  shows "wp (read_chain crc tot links h out) (\<lambda>x p'. x = out @ v \<and> heap_ok crc p' A \<and> same_view crc p p') R p"
  using assms
proof (induction os arbitrary: p h v links out)
  case Nil
  then show ?case
    by (subst read_chain.simps) (auto simp: same_view_def dest: heap_okD(1))
next
  case (Cons i os)
  then obtain q bs v' where q: "h = i" "i \<noteq> SENTINEL" "pview crc p i = Some q" "read_overflow q = Inr bs" "v = bs @ v'"
    "chain_at (pview crc p) (extra q) os v'" by auto
  obtain l where l: "links = Suc l" using Cons.prems(3) by (cases links) auto
  have "wp (sbind (read_page crc i) (\<lambda>q. sbind (slift (read_overflow q)) (\<lambda>bs.
      if length out + length bs > tot then serr Corruption
      else read_chain crc tot l (extra q) (out @ bs)))) (\<lambda>x p'. x = out @ v \<and> heap_ok crc p' A \<and> same_view crc p p') R p"
  proof (rule wp_step [OF heap_read_wp [OF Cons.prems(1) q(3)]])
    fix x p1 assume x: "x = q \<and> heap_ok crc p1 A \<and> same_view crc p p1"
    then have "wp (read_chain crc tot l (extra q) (out @ bs))
        (\<lambda>x p'. x = (out @ bs) @ v' \<and> heap_ok crc p' A \<and> same_view crc p1 p') R p1"
      using Cons.prems q l by (intro Cons.IH) (auto simp: same_view_def)
    then have "wp (read_chain crc tot l (extra q) (out @ bs))
        (\<lambda>x p'. x = out @ v \<and> heap_ok crc p' A \<and> same_view crc p p') R p1"
      by (rule wp_conseq) (use x q(5) in \<open>auto simp: same_view_def\<close>)
    then show "wp (sbind (slift (read_overflow x)) (\<lambda>bs.
      if length out + length bs > tot then serr Corruption
      else read_chain crc tot l (extra x) (out @ bs))) (\<lambda>x p'. x = out @ v \<and> heap_ok crc p' A \<and> same_view crc p p') R p1"
      using x q(4,5) Cons.prems(4) by (intro wp_sbind_slift [where x = bs]) auto
  qed
  then show ?case using q(1,2) l by (subst read_chain.simps) simp
qed

lemma read_overflow_chain_wp:
  assumes "heap_ok crc p A" "chain_at (pview crc p) h os v" "chain_len os v"
    and "length os + 2 \<le> md_page_count (pg_meta p)"
  shows "wp (read_overflow_chain crc h (length v)) (\<lambda>x p'. x = v \<and> heap_ok crc p' A \<and> same_view crc p p') R p"
proof -
  have pos: "0 < OVERFLOW_PAYLOAD" by (simp add: page_consts)
  have "length v div OVERFLOW_PAYLOAD \<le> length os"
    using chain_at_length [OF assms(2)] pos by (metis div_le_mono nonzero_mult_div_cancel_right less_irrefl)
  moreover have "length os \<le> length v div OVERFLOW_PAYLOAD + 1"
  proof -
    have "length os < (length v + OVERFLOW_PAYLOAD) div OVERFLOW_PAYLOAD + 1"
      using assms(3) pos unfolding chain_len_def
      by (metis add.commute le_imp_less_Suc less_imp_le_nat div_le_mono nonzero_mult_div_cancel_right less_irrefl plus_1_eq_Suc)
    then show ?thesis using pos div_add_self2 [of OVERFLOW_PAYLOAD "length v"] by linarith
  qed
  ultimately show ?thesis
    using read_chain_wp [OF assms(1,2), of "length v div OVERFLOW_PAYLOAD + 2" "[]" "length v" R] assms(4)
    by (simp add: wp_def read_overflow_chain_def Let_def)
qed

lemma free_chain_wp:
  assumes "heap_ok crc p A" "chain_at (pview crc p) h os v" "length os \<le> links" "distinct os" "set os \<inter> A = {}" "0 \<notin> set os"
  shows "wp (free_chain crc links h) (\<lambda>_ p'. heap_ok crc p' (A \<union> set os) \<and>
      (\<forall>j. j \<notin> set os \<longrightarrow> pview crc p' j = pview crc p j) \<and> tmeta (pg_meta p') = tmeta (pg_meta p)) R p"
  using assms
proof (induction os arbitrary: p A h v links)
  case Nil
  then show ?case by (subst free_chain.simps) auto
next
  case (Cons i os)
  then obtain q bs v' where q: "h = i" "i \<noteq> SENTINEL" "pview crc p i = Some q" "page_type q = Inr Overflow"
    "chain_at (pview crc p) (extra q) os v'" by auto
  obtain l where l: "links = Suc l" using Cons.prems(3) by (cases links) auto
  have "wp (sbind (read_page crc i) (\<lambda>q. sbind (slift (page_type q)) (\<lambda>ty.
      if ty \<noteq> Overflow then serr Corruption
      else sbind (free_page i) (\<lambda>_. free_chain crc l (extra q)))))
      (\<lambda>_ p'. heap_ok crc p' (A \<union> set (i # os)) \<and>
      (\<forall>j. j \<notin> set (i # os) \<longrightarrow> pview crc p' j = pview crc p j) \<and> tmeta (pg_meta p') = tmeta (pg_meta p)) R p"
  proof (rule wp_step [OF heap_read_wp [OF Cons.prems(1) q(3)]])
    fix x p1 assume x: "x = q \<and> heap_ok crc p1 A \<and> same_view crc p p1"
    have "wp (sbind (free_page i) (\<lambda>_. free_chain crc l (extra q))) (\<lambda>_ p'. heap_ok crc p' (A \<union> set (i # os)) \<and>
      (\<forall>j. j \<notin> set (i # os) \<longrightarrow> pview crc p' j = pview crc p j) \<and> tmeta (pg_meta p') = tmeta (pg_meta p)) R p1"
    proof (rule wp_step [OF heap_free_wp [of crc p1 A i]])
      show "heap_ok crc p1 A" using x by blast
      show "i \<notin> A" "i \<noteq> 0" using Cons.prems by auto
      fix u p2 assume "heap_ok crc p2 (insert i A) \<and> (\<forall>j. j \<noteq> i \<longrightarrow> pview crc p2 j = pview crc p1 j) \<and>
        tmeta (pg_meta p2) = tmeta (pg_meta p1)"
      then have p2: "heap_ok crc p2 (insert i A)" "\<forall>j. j \<noteq> i \<longrightarrow> pview crc p2 j = pview crc p1 j"
        "tmeta (pg_meta p2) = tmeta (pg_meta p1)" by auto
      have "chain_at (pview crc p2) (extra q) os v'"
        by (rule chain_at_cong [OF _ q(5)]) (use p2(2) x Cons.prems(4) in \<open>auto simp: same_view_def\<close>)
      then have "wp (free_chain crc l (extra q)) (\<lambda>_ p'. heap_ok crc p' (insert i A \<union> set os) \<and>
        (\<forall>j. j \<notin> set os \<longrightarrow> pview crc p' j = pview crc p2 j) \<and> tmeta (pg_meta p') = tmeta (pg_meta p2)) R p2"
        using Cons.prems l by (intro Cons.IH [OF p2(1)]) auto
      then show "wp (free_chain crc l (extra q)) (\<lambda>_ p'. heap_ok crc p' (A \<union> set (i # os)) \<and>
        (\<forall>j. j \<notin> set (i # os) \<longrightarrow> pview crc p' j = pview crc p j) \<and> tmeta (pg_meta p') = tmeta (pg_meta p)) R p2"
        by (rule wp_conseq) (use p2 x in \<open>auto simp: same_view_def\<close>)
    qed
    then show "wp (sbind (slift (page_type x)) (\<lambda>ty.
      if ty \<noteq> Overflow then serr Corruption
      else sbind (free_page i) (\<lambda>_. free_chain crc l (extra x)))) (\<lambda>_ p'. heap_ok crc p' (A \<union> set (i # os)) \<and>
      (\<forall>j. j \<notin> set (i # os) \<longrightarrow> pview crc p' j = pview crc p j) \<and> tmeta (pg_meta p') = tmeta (pg_meta p)) R p1"
      using x q(4) by (intro wp_sbind_slift [where x = Overflow]) auto
  qed
  then show ?case unfolding q(1) using q(2) l by (subst free_chain.simps) simp
qed

lemma owned_length:
  assumes "heap_ok crc p A" "distinct is" "set is \<inter> A = {}"
  shows "length is \<le> md_page_count (pg_meta p)"
proof -
  have "set is \<subseteq> {..<md_page_count (pg_meta p)}" using heap_okD(3) [OF assms(1)] assms(3) by auto
  then have "card (set is) \<le> card {..<md_page_count (pg_meta p)}" by (rule card_mono [rotated]) simp
  then show ?thesis using distinct_card [OF assms(2)] by simp
qed

lemma free_overflow_chain_wp:
  assumes "heap_ok crc p A" "chain_at (pview crc p) h os v" "distinct os" "set os \<inter> A = {}" "0 \<notin> set os"
  shows "wp (free_overflow_chain crc h) (\<lambda>_ p'. heap_ok crc p' (A \<union> set os) \<and>
      (\<forall>j. j \<notin> set os \<longrightarrow> pview crc p' j = pview crc p j) \<and> tmeta (pg_meta p') = tmeta (pg_meta p)) R p"
  using free_chain_wp [OF assms(1,2) owned_length [OF assms(1,3,4)] assms(3-5), of R]
  by (simp add: wp_def free_overflow_chain_def)

end
