(* ===== verification/BTree.thy ===== *)
theory BTree
  imports Pager Txn "HOL-Library.While_Combinator"
begin

text \<open>
  The B+Tree of \<open>btree.rs\<close> over the pager. The tree keeps no state of its own: the root
  is in the pager's metadata. Reads go through the page cache, so they are operations on the
  pager as well. The fill factor is represented by the two byte thresholds that the code
  derives from it. Depth-bounded loops and recursions count down the levels that are left.
\<close>

section \<open>Lifting\<close>

text \<open>Operations on one half of a pair of states.\<close>

definition on_fst :: "('s, 'a) sres \<Rightarrow> ('s \<times> 't, 'a) sres" where
  "on_fst m st = (case m (fst st) of (r, s) \<Rightarrow> (r, (s, snd st)))"

definition on_snd :: "('t, 'a) sres \<Rightarrow> ('s \<times> 't, 'a) sres" where
  "on_snd m st = (case m (snd st) of (r, t) \<Rightarrow> (r, (fst st, t)))"

section \<open>Policy and cells\<close>

definition MAX_INLINE_CELL :: nat where
  [page_consts]: "MAX_INLINE_CELL = USABLE_SPACE div 4 - SLOT_SIZE"

definition MAX_DEPTH :: nat where
  "MAX_DEPTH = 64"

record fill_factor =
  ff_min_used :: nat
  ff_max_used :: nat

record split =
  sp_key :: bytes
  sp_right :: nat

definition child_slot_for :: "page \<Rightarrow> bytes \<Rightarrow> nat res" where
  "child_slot_for q key =
     rbind (search q key) (\<lambda>r. case r of Found i \<Rightarrow> Inr (i + 1) | Missing i \<Rightarrow> Inr i)"

definition child_at :: "page \<Rightarrow> nat \<Rightarrow> nat res" where
  "child_at q slt =
     rbind (if slt = 0 then Inr (extra q) else internal_child q (slt - 1)) (\<lambda>child.
       if child = SENTINEL then Inl Corruption else Inr child)"

definition child_for :: "page \<Rightarrow> bytes \<Rightarrow> nat res" where
  "child_for q key = rbind (child_slot_for q key) (child_at q)"

definition decode_internal_cell :: "bytes \<Rightarrow> (bytes \<times> nat) res" where
  "decode_internal_cell c =
     (if length c < 6 then Inl Corruption
      else
        let key_len = read_le c 0 2 in
        if 6 + key_len > length c then Inl Corruption
        else Inr (bslice c 6 key_len, read_le c 2 4))"

section \<open>Choosing where to split\<close>

definition cell_size :: "bytes \<Rightarrow> nat" where
  "cell_size c = length c + SLOT_SIZE"

definition better :: "nat \<Rightarrow> (nat \<times> nat) option \<Rightarrow> bool" where
  "better imbalance best = (case best of None \<Rightarrow> True | Some (b, _) \<Rightarrow> imbalance < b)"

fun split_scan ::
  "bool \<Rightarrow> nat \<Rightarrow> nat \<Rightarrow> nat \<Rightarrow> nat \<Rightarrow> nat list \<Rightarrow> (nat \<times> nat) option \<Rightarrow> (nat \<times> nat) option" where
  "split_scan promote tot n i left [] best = best"
| "split_scan promote tot n i left (sz # sizes) best =
     (let (l, r, candidate) =
            (if promote then (left, tot - left - sz, i) else (left + sz, tot - left - sz, i + 1));
          valid = (promote \<or> candidate < n);
          imbalance = (if l \<le> r then r - l else l - r);
          best =
            (if valid \<and> l \<le> USABLE_SPACE \<and> r \<le> USABLE_SPACE \<and> better imbalance best
             then Some (imbalance, candidate) else best)
      in split_scan promote tot n (i + 1) (left + sz) sizes best)"

definition split_point :: "bytes list \<Rightarrow> bool \<Rightarrow> nat option" where
  "split_point cs promote =
     (let sizes = map cell_size cs
      in map_option snd (split_scan promote (sum_list sizes) (length cs) 0 0 sizes None))"

section \<open>Lookup\<close>

primrec find_leaf_loop :: "(bytes \<Rightarrow> u32) \<Rightarrow> bytes \<Rightarrow> nat \<Rightarrow> nat \<Rightarrow> nat pager_op" where
  "find_leaf_loop crc key 0 current = serr Corruption"
| "find_leaf_loop crc key (Suc n) current =
     sbind (read_page crc current) (\<lambda>q.
       if is_leaf q then sret current
       else sbind (slift (child_for q key)) (find_leaf_loop crc key n))"

definition find_leaf :: "(bytes \<Rightarrow> u32) \<Rightarrow> bytes \<Rightarrow> nat pager_op" where
  "find_leaf crc key p = find_leaf_loop crc key (MAX_DEPTH + 1) (md_root (pg_meta p)) p"

primrec first_leaf_loop :: "(bytes \<Rightarrow> u32) \<Rightarrow> nat \<Rightarrow> nat \<Rightarrow> nat pager_op" where
  "first_leaf_loop crc 0 current = serr Corruption"
| "first_leaf_loop crc (Suc n) current =
     sbind (read_page crc current) (\<lambda>q.
       if is_leaf q then sret current
       else sbind (slift (child_at q 0)) (first_leaf_loop crc n))"

definition first_leaf :: "(bytes \<Rightarrow> u32) \<Rightarrow> nat pager_op" where
  "first_leaf crc p = first_leaf_loop crc (MAX_DEPTH + 1) (md_root (pg_meta p)) p"

definition cell_value :: "(bytes \<Rightarrow> u32) \<Rightarrow> leaf_cell \<Rightarrow> bytes pager_op" where
  "cell_value crc c =
     (case lc_overflow c of
        Some head \<Rightarrow> read_overflow_chain crc head (lc_total_len c)
      | None \<Rightarrow> sret (lc_value c))"

definition bt_get :: "(bytes \<Rightarrow> u32) \<Rightarrow> bytes \<Rightarrow> bytes pager_op" where
  "bt_get crc key =
     sbind (find_leaf crc key) (\<lambda>leaf_id.
     sbind (read_page crc leaf_id) (\<lambda>leaf.
     sbind (slift (search leaf key)) (\<lambda>r.
       case r of
         Found idx \<Rightarrow> sbind (slift (leaf_cell_at leaf idx)) (cell_value crc)
       | Missing _ \<Rightarrow> serr NotFound)))"

definition bt_contains :: "(bytes \<Rightarrow> u32) \<Rightarrow> bytes \<Rightarrow> bool pager_op" where
  "bt_contains crc key =
     sbind (find_leaf crc key) (\<lambda>leaf_id.
     sbind (read_page crc leaf_id) (\<lambda>leaf.
     sbind (slift (search leaf key)) (\<lambda>r.
       sret (case r of Found _ \<Rightarrow> True | Missing _ \<Rightarrow> False))))"

section \<open>Insertion\<close>

fun insert_cells :: "page \<Rightarrow> nat \<Rightarrow> bytes list \<Rightarrow> page res" where
  "insert_cells q i [] = Inr q"
| "insert_cells q i (c # cs) = rbind (insert_cell_at q i c) (\<lambda>q. insert_cells q (Suc i) cs)"

text \<open>\<open>Vec::insert\<close>.\<close>

definition insert_nth :: "nat \<Rightarrow> 'a \<Rightarrow> 'a list \<Rightarrow> 'a list" where
  "insert_nth i x xs = take i xs @ x # drop i xs"

definition split_leaf :: "(bytes \<Rightarrow> u32) \<Rightarrow> page \<Rightarrow> nat \<Rightarrow> bytes \<Rightarrow> split option pager_op" where
  "split_leaf crc leaf idx c =
     (let n = num_keys leaf in
      sbind (slift (rmap (cell leaf) [0..<n])) (\<lambda>old.
      let cs = insert_nth idx c old;
          appending = (idx = n \<and> n > 0 \<and> extra leaf = SENTINEL)
      in case (if appending then Some n else split_point cs False) of
           None \<Rightarrow> serr Full
         | Some at \<Rightarrow>
             sbind (allocate_page crc Leaf) (\<lambda>right.
             let right = set_extra right (extra leaf);
                 leaf = clear_cells leaf
             in
             sbind (slift (insert_cells leaf 0 (take at cs))) (\<lambda>leaf.
             sbind (slift (insert_cells right 0 (drop at cs))) (\<lambda>right.
             let right_id = page_id right;
                 leaf = set_extra leaf right_id
             in
             sbind (slift (cell_key right 0)) (\<lambda>sep.
             sbind (smod (write_page leaf)) (\<lambda>_.
             sbind (smod (write_page right)) (\<lambda>_.
             sret (Some \<lparr>sp_key = sep, sp_right = right_id\<rparr>)))))))))"

definition insert_into_leaf ::
  "(bytes \<Rightarrow> u32) \<Rightarrow> fill_factor \<Rightarrow> page \<Rightarrow> bytes \<Rightarrow> bytes \<Rightarrow> nat \<Rightarrow> split option pager_op" where
  "insert_into_leaf crc fill leaf key val value_len =
     sbind (slift (search leaf key)) (\<lambda>position.
     sbind (case position of
         Found idx \<Rightarrow>
           sbind (slift (leaf_cell_at leaf idx)) (\<lambda>old.
           sbind (case lc_overflow old of
               Some head \<Rightarrow> free_overflow_chain crc head
             | None \<Rightarrow> sret ()) (\<lambda>_.
           slift (remove_cell_at leaf idx)))
       | Missing _ \<Rightarrow> sret leaf) (\<lambda>leaf.
     let idx = (case position of Found i \<Rightarrow> i | Missing i \<Rightarrow> i);
         inlined = (length val \<le> MAX_INLINE_VALUE \<and> 8 + length key + length val \<le> MAX_INLINE_CELL)
     in
     sbind (if inlined then sret (encode_leaf_cell key val value_len None)
            else sbind (write_overflow_chain crc val) (\<lambda>head.
                   sret (encode_leaf_cell key [] value_len (Some head)))) (\<lambda>c.
     let need = length c + SLOT_SIZE;
         max_used = ff_max_used fill
     in
     sbind (slift (if need > free_space leaf \<or> USABLE_SPACE - free_space leaf + need > max_used
                   then compact leaf else Inr leaf)) (\<lambda>leaf.
     let fits = (need \<le> free_space leaf);
         within_fill = (USABLE_SPACE - free_space leaf + need \<le> max_used)
     in
     if fits \<and> (within_fill \<or> num_keys leaf = 0)
     then
       sbind (slift (insert_cell_at leaf idx c)) (\<lambda>leaf.
       sbind (smod (write_page leaf)) (\<lambda>_. sret None))
     else split_leaf crc leaf idx c))))"

definition absorb_split :: "(bytes \<Rightarrow> u32) \<Rightarrow> page \<Rightarrow> split \<Rightarrow> split option pager_op" where
  "absorb_split crc node sp =
     (let c = encode_internal_cell (sp_key sp) (sp_right sp) in
      sbind (slift (search node (sp_key sp))) (\<lambda>r.
      let pos = (case r of Found i \<Rightarrow> i + 1 | Missing i \<Rightarrow> i) in
      sbind (slift (if length c + SLOT_SIZE \<le> free_space node then Inr (True, node)
                    else rbind (compact node) (\<lambda>node.
                           Inr (length c + SLOT_SIZE \<le> free_space node, node)))) (\<lambda>(fits, node).
      if fits then
        sbind (slift (insert_cell_at node pos c)) (\<lambda>node.
        sbind (smod (write_page node)) (\<lambda>_. sret None))
      else
        let n = num_keys node in
        sbind (slift (rmap (cell node) [0..<n])) (\<lambda>old.
        let cs = insert_nth pos c old in
        case (if pos = n then Some n else split_point cs True) of
          None \<Rightarrow> serr Full
        | Some m \<Rightarrow>
            sbind (slift (decode_internal_cell (cs ! m))) (\<lambda>(promote_key, promote_child).
            sbind (allocate_page crc Internal) (\<lambda>right.
            let right = set_extra right promote_child;
                node = clear_cells node
            in
            sbind (slift (insert_cells node 0 (take m cs))) (\<lambda>node.
            sbind (slift (insert_cells right 0 (drop (m + 1) cs))) (\<lambda>right.
            let right_id = page_id right in
            sbind (smod (write_page node)) (\<lambda>_.
            sbind (smod (write_page right)) (\<lambda>_.
            sret (Some \<lparr>sp_key = promote_key, sp_right = right_id\<rparr>)))))))))))"

primrec insert_into ::
  "(bytes \<Rightarrow> u32) \<Rightarrow> fill_factor \<Rightarrow> bytes \<Rightarrow> bytes \<Rightarrow> nat \<Rightarrow> nat \<Rightarrow> nat \<Rightarrow> split option pager_op" where
  "insert_into crc fill key val value_len 0 pid = serr Corruption"
| "insert_into crc fill key val value_len (Suc levels) pid =
     sbind (read_page crc pid) (\<lambda>q.
       if is_leaf q then insert_into_leaf crc fill q key val value_len
       else
         sbind (slift (child_for q key)) (\<lambda>child_id.
         sbind (insert_into crc fill key val value_len levels child_id) (\<lambda>r.
           case r of
             None \<Rightarrow> sret None
           | Some sp \<Rightarrow> absorb_split crc q sp)))"

definition bt_insert :: "(bytes \<Rightarrow> u32) \<Rightarrow> fill_factor \<Rightarrow> bytes \<Rightarrow> bytes \<Rightarrow> unit pager_op" where
  "bt_insert crc fill key val p =
     (if key = [] then (Inl InvalidArgument, p)
      else if length key > MAX_KEY_SIZE then (Inl InvalidArgument, p)
      else if length val \<ge> 4294967296 then (Inl InvalidArgument, p)
      else
        let root = md_root (pg_meta p) in
        sbind (insert_into crc fill key val (length val) (MAX_DEPTH + 1) root) (\<lambda>r.
          case r of
            None \<Rightarrow> sret ()
          | Some sp \<Rightarrow>
              sbind (allocate_page crc Internal) (\<lambda>new_root.
              let new_root = set_extra new_root root;
                  c = encode_internal_cell (sp_key sp) (sp_right sp)
              in
              sbind (slift (insert_cell_at new_root 0 c)) (\<lambda>new_root.
              sbind (smod (write_page new_root)) (\<lambda>_.
              smod (\<lambda>p. set_meta ((pg_meta p)\<lparr>md_root := page_id new_root\<rparr>) p))))) p)"

section \<open>Deletion\<close>

text \<open>The path to a leaf, deepest node first, and the leaf.\<close>

primrec descend ::
  "(bytes \<Rightarrow> u32) \<Rightarrow> bytes \<Rightarrow> nat \<Rightarrow> nat \<Rightarrow> (nat \<times> nat) list \<Rightarrow> (nat \<times> page \<times> (nat \<times> nat) list) pager_op" where
  "descend crc key 0 current path = serr Corruption"
| "descend crc key (Suc levels) current path =
     sbind (read_page crc current) (\<lambda>q.
       if is_leaf q then sret (current, q, path)
       else
         sbind (slift (child_slot_for q key)) (\<lambda>slt.
         sbind (slift (child_at q slt)) (\<lambda>child.
         descend crc key levels child ((current, slt) # path))))"

fun pop_orphans ::
  "(bytes \<Rightarrow> u32) \<Rightarrow> (nat \<times> nat) list \<Rightarrow> nat list \<Rightarrow> (nat list \<times> (nat \<times> nat) list) pager_op" where
  "pop_orphans crc [] orphaned = sret (orphaned, [])"
| "pop_orphans crc ((pid, slt) # path) orphaned =
     sbind (read_page crc pid) (\<lambda>q.
       if num_keys q = 0 then pop_orphans crc path (orphaned @ [pid])
       else sret (orphaned, (pid, slt) # path))"

primrec last_leaf_loop :: "(bytes \<Rightarrow> u32) \<Rightarrow> nat \<Rightarrow> nat \<Rightarrow> nat pager_op" where
  "last_leaf_loop crc 0 current = serr Corruption"
| "last_leaf_loop crc (Suc n) current =
     sbind (read_page crc current) (\<lambda>q.
       if is_leaf q then sret current
       else sbind (slift (child_at q (num_keys q))) (last_leaf_loop crc n))"

definition previous_leaf :: "(bytes \<Rightarrow> u32) \<Rightarrow> (nat \<times> nat) list \<Rightarrow> nat option pager_op" where
  "previous_leaf crc path =
     (case List.find (\<lambda>e. snd e > 0) path of
        None \<Rightarrow> sret None
      | Some (pid, slt) \<Rightarrow>
          sbind (read_page crc pid) (\<lambda>q.
          sbind (slift (child_at q (slt - 1))) (\<lambda>current.
          sbind (last_leaf_loop crc (MAX_DEPTH + 1) current) (\<lambda>l. sret (Some l)))))"

text \<open>
  One round of the loop that hands the tree to a lone child; the flag says whether to go
  on. A loop that never leaves is \<open>Diverge\<close>.
\<close>

definition collapse_round :: "(bytes \<Rightarrow> u32) \<Rightarrow> bool pager_op" where
  "collapse_round crc p =
     (let root_id = md_root (pg_meta p) in
      sbind (read_page crc root_id) (\<lambda>root.
        if is_leaf root \<or> num_keys root > 0 then sret False
        else
          sbind (smod (\<lambda>p. set_meta ((pg_meta p)\<lparr>md_root := extra root\<rparr>) p)) (\<lambda>_.
          sbind (free_page root_id) (\<lambda>_. sret True))) p)"

definition collapse_root :: "(bytes \<Rightarrow> u32) \<Rightarrow> unit pager_op" where
  "collapse_root crc p =
     (case while_option (\<lambda>(r, p). r = Inr True) (\<lambda>(r, p). collapse_round crc p) (Inr True, p) of
        None \<Rightarrow> (Inl Diverge, p)
      | Some (Inl e, p) \<Rightarrow> (Inl e, p)
      | Some (Inr _, p) \<Rightarrow> (Inr (), p))"

definition remove_empty_leaf ::
  "(bytes \<Rightarrow> u32) \<Rightarrow> page \<Rightarrow> nat \<Rightarrow> (nat \<times> nat) list \<Rightarrow> unit pager_op" where
  "remove_empty_leaf crc leaf leaf_id path =
     sbind (pop_orphans crc path []) (\<lambda>(orphaned, path).
       case path of
         [] \<Rightarrow>
           sbind (smod (write_page leaf)) (\<lambda>_.
           sbind (smod (\<lambda>p. set_meta ((pg_meta p)\<lparr>md_root := leaf_id\<rparr>) p)) (\<lambda>_.
           smapM free_page orphaned))
       | (anchor_id, slt) # _ \<Rightarrow>
           sbind (previous_leaf crc path) (\<lambda>prev.
           sbind (case prev of
               None \<Rightarrow> sret ()
             | Some prev_id \<Rightarrow>
                 sbind (read_page crc prev_id) (\<lambda>q.
                 smod (write_page (set_extra q (extra leaf))))) (\<lambda>_.
           sbind (read_page crc anchor_id) (\<lambda>anchor.
           sbind (slift (if slt = 0
               then rbind (internal_child anchor 0) (\<lambda>first. remove_cell_at (set_extra anchor first) 0)
               else remove_cell_at anchor (slt - 1))) (\<lambda>anchor.
           sbind (smod (write_page anchor)) (\<lambda>_.
           sbind (free_page leaf_id) (\<lambda>_.
           sbind (smapM free_page orphaned) (\<lambda>_.
           collapse_root crc))))))))"

definition bt_delete :: "(bytes \<Rightarrow> u32) \<Rightarrow> bytes \<Rightarrow> unit pager_op" where
  "bt_delete crc key p =
     sbind (descend crc key (MAX_DEPTH + 1) (md_root (pg_meta p)) []) (\<lambda>(leaf_id, leaf, path).
     sbind (slift (search leaf key)) (\<lambda>r.
       case r of
         Missing _ \<Rightarrow> serr NotFound
       | Found idx \<Rightarrow>
           sbind (slift (leaf_cell_at leaf idx)) (\<lambda>c.
           sbind (case lc_overflow c of
               Some head \<Rightarrow> free_overflow_chain crc head
             | None \<Rightarrow> sret ()) (\<lambda>_.
           sbind (slift (remove_cell_at leaf idx)) (\<lambda>leaf.
             if num_keys leaf > 0 \<or> path = [] then smod (write_page leaf)
             else remove_empty_leaf crc leaf leaf_id path))))) p"

section \<open>Scans\<close>

text \<open>\<open>f\<close> is the caller's closure with its own state; it says whether to go on.\<close>

type_synonym 'a visitor = "bytes \<Rightarrow> bytes \<Rightarrow> ('a, bool) sres"

fun scan_slots ::
  "(bytes \<Rightarrow> u32) \<Rightarrow> bytes bound \<Rightarrow> 'a visitor \<Rightarrow> page \<Rightarrow> nat list \<Rightarrow> (pager \<times> 'a, bool) sres" where
  "scan_slots crc hi f leaf [] = sret True"
| "scan_slots crc hi f leaf (i # is) =
     sbind (slift (cell_key leaf i)) (\<lambda>key.
       if \<not> below hi key then sret False
       else
         sbind (slift (leaf_cell_at leaf i)) (\<lambda>c.
         sbind (on_fst (cell_value crc c)) (\<lambda>val.
         sbind (on_snd (f (lc_key c) val)) (\<lambda>continue.
           if continue then scan_slots crc hi f leaf is else sret False))))"

definition scan_start :: "bytes bound \<Rightarrow> page \<Rightarrow> nat res" where
  "scan_start lo leaf =
     (case lo of
        Unbounded \<Rightarrow> Inr 0
      | Included k \<Rightarrow>
          rbind (search leaf k) (\<lambda>r. case r of Found i \<Rightarrow> Inr i | Missing i \<Rightarrow> Inr i)
      | Excluded k \<Rightarrow>
          rbind (search leaf k) (\<lambda>r. case r of Found i \<Rightarrow> Inr (i + 1) | Missing i \<Rightarrow> Inr i))"

text \<open>\<open>remaining\<close> is the leaf-chain guard.\<close>

fun scan_leaves ::
  "(bytes \<Rightarrow> u32) \<Rightarrow> bytes bound \<Rightarrow> bytes bound \<Rightarrow> 'a visitor \<Rightarrow> bool \<Rightarrow> nat \<Rightarrow> nat \<Rightarrow>
     (pager \<times> 'a, unit) sres" where
  "scan_leaves crc lo hi f first remaining leaf_id =
     (if leaf_id = SENTINEL then sret ()
      else
        (case remaining of
           0 \<Rightarrow> serr Corruption
         | Suc remaining' \<Rightarrow>
             sbind (on_fst (read_page crc leaf_id)) (\<lambda>leaf.
             sbind (slift (if first then scan_start lo leaf else Inr 0)) (\<lambda>start.
             sbind (scan_slots crc hi f leaf [start..<num_keys leaf]) (\<lambda>continue.
               if continue then scan_leaves crc lo hi f False remaining' (extra leaf)
               else sret ())))))"

declare scan_leaves.simps [simp del]

definition range_iter ::
  "(bytes \<Rightarrow> u32) \<Rightarrow> bytes bound \<Rightarrow> bytes bound \<Rightarrow> 'a visitor \<Rightarrow> (pager \<times> 'a, unit) sres" where
  "range_iter crc lo hi f =
     sbind (on_fst (case lo of
         Unbounded \<Rightarrow> first_leaf crc
       | Included k \<Rightarrow> find_leaf crc k
       | Excluded k \<Rightarrow> find_leaf crc k)) (\<lambda>leaf_id st.
       scan_leaves crc lo hi f True (md_page_count (pg_meta (fst st))) leaf_id st)"

definition bt_scan_iter ::
  "(bytes \<Rightarrow> u32) \<Rightarrow> (bytes \<times> bytes \<Rightarrow> ('a, unit) sres) \<Rightarrow> (pager \<times> 'a, unit) sres" where
  "bt_scan_iter crc f =
     range_iter crc Unbounded Unbounded (\<lambda>k v. sbind (f (k, v)) (\<lambda>_. sret True))"

definition bt_scan :: "(bytes \<Rightarrow> u32) \<Rightarrow> (bytes \<times> bytes) list pager_op" where
  "bt_scan crc p =
     (case bt_scan_iter crc (\<lambda>item. smod (\<lambda>out. out @ [item])) (p, []) of
        (Inl e, (p, _)) \<Rightarrow> (Inl e, p)
      | (Inr _, (p, out)) \<Rightarrow> (Inr out, p))"

fun len_loop :: "(bytes \<Rightarrow> u32) \<Rightarrow> nat \<Rightarrow> nat \<Rightarrow> nat \<Rightarrow> nat pager_op" where
  "len_loop crc remaining count leaf_id =
     (if leaf_id = SENTINEL then sret count
      else
        (case remaining of
           0 \<Rightarrow> serr Corruption
         | Suc remaining' \<Rightarrow>
             sbind (read_page crc leaf_id) (\<lambda>leaf.
             len_loop crc remaining' (count + num_keys leaf) (extra leaf))))"

declare len_loop.simps [simp del]

definition bt_len :: "(bytes \<Rightarrow> u32) \<Rightarrow> nat pager_op" where
  "bt_len crc =
     sbind (first_leaf crc) (\<lambda>leaf_id p. len_loop crc (md_page_count (pg_meta p)) 0 leaf_id p)"

definition bt_is_empty :: "(bytes \<Rightarrow> u32) \<Rightarrow> bool pager_op" where
  "bt_is_empty crc = sbind (bt_len crc) (\<lambda>n. sret (n = 0))"

end
