(* ===== verification/BTree_Shape.thy ===== *)
theory BTree_Shape
  imports Overflow BTree
begin

text \<open>
  The abstract B+tree. A \<open>tree\<close> records which page holds which node, the separators, the
  entries of the leaves and the overflow pages of long values. \<open>shape V lo hi nxt t\<close> says that
  the pages \<open>V\<close> store \<open>t\<close>, with keys between \<open>lo\<close> and \<open>hi\<close> and the leaves linked in key
  order, the last one to \<open>nxt\<close>. \<open>kids\<close> is the same statement for the children of a node, and
  for the pieces a split leaves behind.
\<close>

section \<open>Trees\<close>

type_synonym entry = "bytes \<times> bytes \<times> nat list option"

datatype tree = Lf nat "entry list" | Nd nat "bytes list" "tree list"

primrec root_id :: "tree \<Rightarrow> nat" where
  "root_id (Lf i es) = i"
| "root_id (Nd i ks cs) = i"

definition entry_kv :: "entry \<Rightarrow> bytes \<times> bytes" where
  "entry_kv e = (fst e, fst (snd e))"

definition entry_pages :: "entry \<Rightarrow> nat list" where
  "entry_pages e = (case snd (snd e) of None \<Rightarrow> [] | Some os \<Rightarrow> os)"

fun entries :: "tree \<Rightarrow> (bytes \<times> bytes) list" where
  "entries (Lf i es) = map entry_kv es"
| "entries (Nd i ks cs) = concat (map entries cs)"

fun pages :: "tree \<Rightarrow> nat list" where
  "pages (Lf i es) = i # concat (map entry_pages es)"
| "pages (Nd i ks cs) = i # concat (map pages cs)"

fun leaf_ids :: "tree \<Rightarrow> nat list" where
  "leaf_ids (Lf i es) = [i]"
| "leaf_ids (Nd i ks cs) = concat (map leaf_ids cs)"

fun height :: "tree \<Rightarrow> nat" where
  "height (Lf i es) = 1"
| "height (Nd i ks cs) = Suc (foldr max (map height cs) 0)"

definition lead :: "tree \<Rightarrow> nat" where
  "lead t = hd (leaf_ids t)"

lemma height_child: "c \<in> set cs \<Longrightarrow> height c < height (Nd i ks cs)"
proof -
  have "x \<in> set xs \<Longrightarrow> x \<le> foldr max xs (0::nat)" for x xs by (induction xs) auto
  then show "c \<in> set cs \<Longrightarrow> height c < height (Nd i ks cs)" by (simp add: less_Suc_eq_le)
qed

lemma root_in_pages: "root_id t \<in> set (pages t)"
  by (cases t) auto

section \<open>What the pages of a tree hold\<close>

definition ov_head :: "nat list \<Rightarrow> nat" where
  "ov_head os = (case os of [] \<Rightarrow> SENTINEL | i # _ \<Rightarrow> i)"

definition entry_cell :: "entry \<Rightarrow> bytes" where
  "entry_cell e = (case e of (k, v, ov) \<Rightarrow>
     (case ov of
        None \<Rightarrow> encode_leaf_cell k v (length v) None
      | Some os \<Rightarrow> encode_leaf_cell k [] (length v) (Some (ov_head os))))"

definition entry_ok :: "(nat \<Rightarrow> page option) \<Rightarrow> entry \<Rightarrow> bool" where
  "entry_ok V e \<longleftrightarrow> (case e of (k, v, ov) \<Rightarrow>
     length k \<le> MAX_KEY_SIZE \<and> length v < 4294967296 \<and>
     (case ov of
        None \<Rightarrow> 8 + length k + length v \<le> MAX_INLINE_CELL
      | Some os \<Rightarrow> chain_at V (ov_head os) os v \<and> chain_len os v))"

definition leaf_page :: "page \<Rightarrow> bool" where
  "leaf_page q \<longleftrightarrow> page_wf q \<and> page_type q = Inr Leaf \<and> is_leaf q"

definition inner_page :: "page \<Rightarrow> bool" where
  "inner_page q \<longleftrightarrow> page_wf q \<and> page_type q = Inr Internal \<and> \<not> is_leaf q"

definition lt_hi :: "bytes \<Rightarrow> bytes option \<Rightarrow> bool" where
  "lt_hi k hi = (case hi of None \<Rightarrow> True | Some h \<Rightarrow> k < h)"

definition le_hi :: "bytes option \<Rightarrow> bytes option \<Rightarrow> bool" where
  "le_hi h h' = (case h' of None \<Rightarrow> True | Some y \<Rightarrow> (case h of None \<Rightarrow> False | Some x \<Rightarrow> x \<le> y))"

lemma lt_hi_simps [simp]: "lt_hi k None" "lt_hi k (Some h) \<longleftrightarrow> k < h"
  by (simp_all add: lt_hi_def)

lemma lt_hi_trans: "k' \<le> k \<Longrightarrow> lt_hi k hi \<Longrightarrow> lt_hi k' hi"
  by (cases hi) auto

lemma lt_le_hi: "lt_hi k h \<Longrightarrow> le_hi h h' \<Longrightarrow> lt_hi k h'"
  by (auto simp: lt_hi_def le_hi_def split: option.splits)

lemma le_hi_refl [simp]: "le_hi h h"
  by (auto simp: le_hi_def split: option.splits)

type_synonym part = "bytes \<Rightarrow> bytes option \<Rightarrow> nat \<Rightarrow> tree \<Rightarrow> bool"

fun kids :: "part \<Rightarrow> bytes \<Rightarrow> bytes option \<Rightarrow> nat \<Rightarrow> bytes list \<Rightarrow> tree list \<Rightarrow> bool" where
  "kids P lo hi nxt [] [c] \<longleftrightarrow> P lo hi nxt c"
| "kids P lo hi nxt (k # ks) (c # c' # cs) \<longleftrightarrow>
     lo < k \<and> lt_hi k hi \<and> length k \<le> MAX_KEY_SIZE \<and> P lo (Some k) (lead c') c \<and> kids P k hi nxt ks (c' # cs)"
| "kids P lo hi nxt [] [] \<longleftrightarrow> False"
| "kids P lo hi nxt [] (c # c' # cs) \<longleftrightarrow> False"
| "kids P lo hi nxt (k # ks) [] \<longleftrightarrow> False"
| "kids P lo hi nxt (k # ks) [c] \<longleftrightarrow> False"

lemma kids_mono [mono]:
  "(\<And>a b c d. P a b c d \<longrightarrow> Q a b c d) \<Longrightarrow> kids P lo hi nxt ks cs \<longrightarrow> kids Q lo hi nxt ks cs"
  by (induction P lo hi nxt ks cs rule: kids.induct) auto

definition inner_cells :: "bytes list \<Rightarrow> tree list \<Rightarrow> bytes list" where
  "inner_cells ks cs = map2 (\<lambda>k c. encode_internal_cell k (root_id c)) ks cs"

inductive shape :: "(nat \<Rightarrow> page option) \<Rightarrow> part" for V where
  shape_leaf: "V i = Some q \<Longrightarrow> leaf_page q \<Longrightarrow> cells q = map entry_cell es \<Longrightarrow> extra q = nxt \<Longrightarrow>
     \<forall>e \<in> set es. entry_ok V e \<and> lo \<le> fst e \<and> lt_hi (fst e) hi \<Longrightarrow> sorted_wrt (<) (map fst es) \<Longrightarrow>
     shape V lo hi nxt (Lf i es)"
| shape_node: "V i = Some q \<Longrightarrow> inner_page q \<Longrightarrow> cells q = inner_cells ks (tl cs) \<Longrightarrow>
     extra q = root_id (hd cs) \<Longrightarrow> kids (shape V) lo hi nxt ks cs \<Longrightarrow> shape V lo hi nxt (Nd i ks cs)"

inductive_cases shape_LfE: "shape V lo hi nxt (Lf i es)"
inductive_cases shape_NdE: "shape V lo hi nxt (Nd i ks cs)"

section \<open>Children\<close>

lemma kids_length: "kids P lo hi nxt ks cs \<Longrightarrow> length cs = Suc (length ks)"
  by (induction P lo hi nxt ks cs rule: kids.induct) auto

lemma kids_seps:
  "kids P lo hi nxt ks cs \<Longrightarrow>
     sorted_wrt (<) (lo # ks) \<and> (\<forall>k \<in> set ks. lt_hi k hi \<and> length k \<le> MAX_KEY_SIZE)"
  by (induction P lo hi nxt ks cs rule: kids.induct) force+

lemma kids_weaken:
  assumes "kids P lo hi nxt ks cs"
    and "\<And>c a b n a' b'. c \<in> set cs \<Longrightarrow> P a b n c \<Longrightarrow> a' \<le> a \<Longrightarrow> le_hi b b' \<Longrightarrow> Q a' b' n c"
    and "lo' \<le> lo" "le_hi hi hi'"
  shows "kids Q lo' hi' nxt ks cs"
  using assms
proof (induction P lo hi nxt ks cs arbitrary: lo' rule: kids.induct)
  case (2 P lo hi nxt k ks c c' cs)
  have "kids Q k hi' nxt ks (c' # cs)"
    using 2 by (intro "2.IH") auto
  moreover have "Q lo' (Some k) (lead c') c" using 2 by auto
  ultimately show ?case using 2(2,4,5) lt_le_hi by auto
qed auto

lemma kids_cong:
  assumes "kids P lo hi nxt ks cs" "\<And>c a b n. c \<in> set cs \<Longrightarrow> P a b n c \<Longrightarrow> Q a b n c"
  shows "kids Q lo hi nxt ks cs"
  using assms by (induction P lo hi nxt ks cs rule: kids.induct) auto

lemma kids_append:
  assumes "length cs1 = Suc (length ks1)"
  shows "kids P lo hi nxt (ks1 @ k # ks2) (cs1 @ cs2) \<longleftrightarrow>
     cs2 \<noteq> [] \<and> kids P lo (Some k) (lead (hd cs2)) ks1 cs1 \<and> lo < k \<and> lt_hi k hi \<and> length k \<le> MAX_KEY_SIZE \<and>
     kids P k hi nxt ks2 cs2"
  using assms
proof (induction ks1 arbitrary: lo cs1)
  case Nil
  then obtain c where "cs1 = [c]" by (cases cs1) auto
  then show ?case by (cases cs2) auto
next
  case (Cons k1 ks1)
  then obtain c c' cs where cs1: "cs1 = c # c' # cs" by (cases cs1; cases "tl cs1") auto
  have "length (c' # cs) = Suc (length ks1)" using Cons.prems cs1 by simp
  note IH = Cons.IH [OF this, of k1]
  show ?case
    using IH by (auto simp: cs1 intro: less_trans lt_hi_trans [OF less_imp_le])
qed

lemma kids_nonempty: "kids P lo hi nxt ks cs \<Longrightarrow> cs \<noteq> []"
  using kids_length by fastforce

text \<open>The child at a slot, with the bounds its separators give it, and its replacement.\<close>

definition hi_at :: "bytes option \<Rightarrow> bytes list \<Rightarrow> bytes option" where
  "hi_at hi ks2 = (case ks2 of [] \<Rightarrow> hi | k # _ \<Rightarrow> Some k)"

definition nxt_at :: "nat \<Rightarrow> tree list \<Rightarrow> nat" where
  "nxt_at nxt ys = (case ys of [] \<Rightarrow> nxt | c # _ \<Rightarrow> lead c)"

lemma kids_child:
  assumes "kids P lo hi nxt (ks1 @ ks2) (xs @ c # ys)" "length xs = length ks1"
  shows "P (last (lo # ks1)) (hi_at hi ks2) (nxt_at nxt ys) c"
  using assms
proof (induction ks1 arbitrary: lo xs)
  case Nil
  then show ?case by (cases ks2; cases ys) (auto simp: hi_at_def nxt_at_def)
next
  case (Cons k ks1)
  then obtain x xs' where xs: "xs = x # xs'" by (cases xs) auto
  then have "kids P k hi nxt (ks1 @ ks2) (xs' @ c # ys)"
    using Cons.prems by (cases "xs' @ c # ys") auto
  then show ?case using Cons.IH [of k xs'] Cons.prems(2) xs by simp
qed

lemma kids_replace:
  assumes "kids P lo hi nxt (ks1 @ ks2) (xs @ c # ys)" "length xs = length ks1"
    and "kids Q (last (lo # ks1)) (hi_at hi ks2) (nxt_at nxt ys) seps ts" "lead (hd ts) = lead c"
    and "\<And>x a b n. x \<in> set xs \<union> set ys \<Longrightarrow> P a b n x \<Longrightarrow> Q a b n x"
  shows "kids Q lo hi nxt (ks1 @ seps @ ks2) (xs @ ts @ ys)"
  using assms
proof (induction ks1 arbitrary: lo xs)
  case Nil
  show ?case
  proof (cases ks2)
    case ks2: Nil
    then have "ys = []" using Nil(1,2) kids_length [OF Nil(1)] by simp
    then show ?thesis using Nil ks2 by (simp add: hi_at_def nxt_at_def)
  next
    case (Cons k ks)
    then obtain c' ys' where ys: "ys = c' # ys'" using Nil(1,2) by (cases ys) auto
    have k: "lo < k" "lt_hi k hi" "length k \<le> MAX_KEY_SIZE" "kids P k hi nxt ks ys"
      using Nil(1,2) Cons ys by auto
    have "kids Q k hi nxt ks ys" by (rule kids_cong [OF k(4)]) (use Nil(5) in auto)
    moreover have "kids Q lo (Some k) (lead (hd ys)) seps ts" using Nil(3) Cons ys by (simp add: hi_at_def nxt_at_def)
    ultimately have "kids Q lo hi nxt (seps @ k # ks) (ts @ ys)"
      using k ys kids_append [OF kids_length [OF Nil(3)], of Q lo hi nxt k ks ys] by simp
    then show ?thesis using Nil(2) Cons by simp
  qed
next
  case (Cons k ks1)
  then obtain x xs' where xs: "xs = x # xs'" by (cases xs) auto
  have ts: "ts \<noteq> []" using kids_nonempty [OF Cons.prems(3)] .
  have h: "lead (hd (xs' @ ts @ ys)) = lead (hd (xs' @ c # ys))"
    using Cons.prems(4) ts by (cases xs') auto
  have k: "lo < k" "lt_hi k hi" "length k \<le> MAX_KEY_SIZE" "P lo (Some k) (lead (hd (xs' @ c # ys))) x"
    "kids P k hi nxt (ks1 @ ks2) (xs' @ c # ys)"
    using Cons.prems(1) xs by (cases "xs' @ c # ys"; simp)+
  have "kids Q k hi nxt (ks1 @ seps @ ks2) (xs' @ ts @ ys)"
    by (rule Cons.IH [OF k(5)]) (use Cons.prems xs in auto)
  moreover have "Q lo (Some k) (lead (hd (xs' @ ts @ ys))) x" using k(4) Cons.prems(5) xs h by simp
  ultimately show ?case using k(1-3) ts xs by (cases "xs' @ ts @ ys") auto
qed

section \<open>Frames, bounds and entries\<close>

lemma entry_ok_cong:
  assumes "\<And>j. j \<in> set (entry_pages e) \<Longrightarrow> V' j = V j" "entry_ok V e"
  shows "entry_ok V' e"
  using assms chain_at_cong [of _ V' V] by (cases e) (auto simp: entry_ok_def entry_pages_def split: option.splits)

text \<open>A tree only depends on its own pages.\<close>

lemma shape_cong:
  assumes "shape V lo hi nxt t" "\<And>j. j \<in> set (pages t) \<Longrightarrow> V' j = V j"
  shows "shape V' lo hi nxt t"
  using assms
proof (induction t arbitrary: lo hi nxt rule: tree.induct)
  case (Lf i es)
  then obtain q where q: "V i = Some q" "leaf_page q" "cells q = map entry_cell es" "extra q = nxt"
      "\<forall>e \<in> set es. entry_ok V e \<and> lo \<le> fst e \<and> lt_hi (fst e) hi" "sorted_wrt (<) (map fst es)"
    by (auto elim: shape_LfE)
  have "\<forall>e \<in> set es. entry_ok V' e" using q(5) Lf(2) by (auto intro!: entry_ok_cong [of _ V' V])
  then show ?case using q Lf(2) by (auto intro!: shape_leaf)
next
  case (Nd i ks cs)
  then obtain q where q: "V i = Some q" "inner_page q" "cells q = inner_cells ks (tl cs)"
      "extra q = root_id (hd cs)" "kids (shape V) lo hi nxt ks cs"
    by (auto elim: shape_NdE)
  have "kids (shape V') lo hi nxt ks cs"
  proof (rule kids_cong [OF q(5)])
    fix c a b n assume c: "c \<in> set cs" "shape V a b n c"
    show "shape V' a b n c" by (rule Nd.IH [OF c]) (use Nd.prems(2) c(1) in auto)
  qed
  then show ?case using q Nd(3) by (auto intro!: shape_node)
qed

lemma shape_weaken:
  assumes "shape V lo hi nxt t" "lo' \<le> lo" "le_hi hi hi'"
  shows "shape V lo' hi' nxt t"
  using assms
proof (induction t arbitrary: lo hi nxt lo' hi' rule: tree.induct)
  case (Lf i es)
  then obtain q where q: "V i = Some q" "leaf_page q" "cells q = map entry_cell es" "extra q = nxt"
      "\<forall>e \<in> set es. entry_ok V e \<and> lo \<le> fst e \<and> lt_hi (fst e) hi" "sorted_wrt (<) (map fst es)"
    by (auto elim: shape_LfE)
  then show ?case using Lf(2,3) lt_le_hi order_trans by (blast intro!: shape_leaf)
next
  case (Nd i ks cs)
  then obtain q where q: "V i = Some q" "inner_page q" "cells q = inner_cells ks (tl cs)"
      "extra q = root_id (hd cs)" "kids (shape V) lo hi nxt ks cs"
    by (auto elim: shape_NdE)
  have "kids (shape V) lo' hi' nxt ks cs"
    by (rule kids_weaken [OF q(5)]) (use Nd in auto)
  then show ?case using q by (auto intro!: shape_node)
qed

lemma leaf_ids_nonempty: "shape V lo hi nxt t \<Longrightarrow> leaf_ids t \<noteq> []"
proof (induction t arbitrary: lo hi nxt rule: tree.induct)
  case (Nd i ks cs)
  then have k: "kids (shape V) lo hi nxt ks cs" by (auto elim: shape_NdE)
  then obtain c cs' where cs: "cs = c # cs'" using kids_nonempty [OF k] by (cases cs) auto
  then have "\<exists>a b n. shape V a b n c" using k by (cases ks; cases cs') auto
  then show ?case using Nd.IH [of c] cs by auto
qed simp

lemma lead_Nd:
  assumes "kids (shape V) lo hi nxt ks cs"
  shows "lead (Nd i ks cs) = lead (hd cs)"
proof -
  obtain c cs' where cs: "cs = c # cs'" using kids_nonempty [OF assms] by (cases cs) auto
  then have "\<exists>a b n. shape V a b n c" using assms by (cases ks; cases cs') auto
  then have "leaf_ids c \<noteq> []" using leaf_ids_nonempty by blast
  then show ?thesis by (simp add: cs lead_def)
qed

definition keys_in :: "bytes \<Rightarrow> bytes option \<Rightarrow> (bytes \<times> bytes) list \<Rightarrow> bool" where
  "keys_in lo hi es \<longleftrightarrow> bm_ok es \<and> (\<forall>e \<in> set es. lo \<le> fst e \<and> lt_hi (fst e) hi)"

lemma keys_in_append:
  assumes "keys_in lo (Some k) es" "keys_in k hi es'" "lo < k" "lt_hi k hi"
  shows "keys_in lo hi (es @ es')"
  using assms unfolding keys_in_def bm_ok_def
  by (fastforce simp: sorted_wrt_append intro: lt_hi_trans [OF less_imp_le])

lemma kids_keys:
  "kids (\<lambda>a b n c. keys_in a b (entries c)) lo hi nxt ks cs \<Longrightarrow> keys_in lo hi (concat (map entries cs))"
proof (induction "\<lambda>a b (n::nat) c. keys_in a b (entries c)" lo hi nxt ks cs rule: kids.induct)
  case (2 lo hi nxt k ks c c' cs)
  then have "keys_in k hi (concat (map entries (c' # cs)))" by simp
  then have "keys_in lo hi (entries c @ concat (map entries (c' # cs)))"
    using 2(2) by (intro keys_in_append) auto
  then show ?case by simp
qed auto

lemma shape_keys: "shape V lo hi nxt t \<Longrightarrow> keys_in lo hi (entries t)"
proof (induction t arbitrary: lo hi nxt rule: tree.induct)
  case (Lf i es)
  then show ?case
    by (elim shape_LfE) (auto simp: keys_in_def bm_ok_def entry_kv_def comp_def)
next
  case (Nd i ks cs)
  then have "kids (shape V) lo hi nxt ks cs" by (auto elim: shape_NdE)
  then have "kids (\<lambda>a b n c. keys_in a b (entries c)) lo hi nxt ks cs"
    by (rule kids_cong) (use Nd.IH in blast)
  then show ?case using kids_keys by simp
qed

end
