(* ===== verification/BTree_Node.thy ===== *)
theory BTree_Node
  imports BTree_Shape
begin

text \<open>
  Reading the nodes of a tree: the keys and children of a page, the slot a key belongs to, the
  values of leaf cells, and the descent to a leaf. \<open>tree_at crc p A lo hi nxt t\<close> is the whole
  precondition of the tree operations: the allocator is in order with \<open>A\<close> unowned, the pages
  hold \<open>t\<close>, and \<open>t\<close> owns each of its pages once.
\<close>

definition tree_at ::
  "(bytes \<Rightarrow> u32) \<Rightarrow> pager \<Rightarrow> nat set \<Rightarrow> bytes \<Rightarrow> bytes option \<Rightarrow> nat \<Rightarrow> tree \<Rightarrow> bool" where
  "tree_at crc p A lo hi nxt t \<longleftrightarrow>
     heap_ok crc p A \<and> shape (pview crc p) lo hi nxt t \<and> distinct (pages t) \<and> set (pages t) \<inter> A = {} \<and>
     0 \<notin> set (pages t)"

lemma tree_atD:
  assumes "tree_at crc p A lo hi nxt t"
  shows "heap_ok crc p A" "shape (pview crc p) lo hi nxt t" "distinct (pages t)" "set (pages t) \<inter> A = {}"
    "0 \<notin> set (pages t)" "pager_ok crc p"
  using assms heap_okD(1) by (auto simp: tree_at_def)

lemma tree_at_same: "tree_at crc p A lo hi nxt t \<Longrightarrow> same_view crc p p' \<Longrightarrow> tree_at crc p' A lo hi nxt t"
  using same_view_heap by (auto simp: tree_at_def same_view_def)

lemma owned_bound:
  assumes "heap_ok crc p A" "i \<notin> A"
  shows "i < 4294967296" "i \<noteq> SENTINEL"
  using heap_okD(3) [OF assms(1,2)] heap_okD(4) [OF assms(1)] assms(2) page_count_bound [OF assms(1)] by (auto simp: page_consts)

lemma same_view_refl: "pager_ok crc p \<Longrightarrow> same_view crc p p"
  by (simp add: same_view_def)

lemma same_view_trans: "same_view crc p p1 \<Longrightarrow> same_view crc p1 p2 \<Longrightarrow> same_view crc p p2"
  by (simp add: same_view_def)

section \<open>Cells\<close>

lemma cell_key_cells:
  "slots_ok q \<Longrightarrow> i < num_keys q \<Longrightarrow> cell_key q i = decode_cell_key (is_leaf q) (cells q ! i)"
  by (simp add: cell_key_def slot_ok cell_bytes_def)

lemma num_keys_cells: "num_keys q = length (cells q)"
  by simp

definition lc_of :: "entry \<Rightarrow> leaf_cell" where
  "lc_of e = (case e of (k, v, ov) \<Rightarrow>
     \<lparr>lc_key = k, lc_value = (if ov = None then v else []), lc_total_len = length v,
      lc_overflow = map_option ov_head ov\<rparr>)"

lemma ov_head_bound:
  assumes "pager_ok crc p" "chain_at (pview crc p) (ov_head os) os v"
  shows "ov_head os < 4294967296"
proof (cases os)
  case (Cons i js)
  then obtain q where "pview crc p i = Some q" using assms(2) by auto
  then have "i = page_id q" using pview_fields(2) [OF assms(1)] by blast
  then show ?thesis using page_id_bound [of q] Cons by (simp add: ov_head_def)
qed (simp add: ov_head_def page_consts)

lemma entry_cell_decode:
  assumes "pager_ok crc p" "entry_ok (pview crc p) e"
  shows "decode_leaf_cell (entry_cell e) = Inr (lc_of e)" "decode_cell_key True (entry_cell e) = Inr (fst e)"
    "length (entry_cell e) \<le> 1036"
proof -
  obtain k v ov where e: "e = (k, v, ov)" by (cases e)
  have k: "length k < 65536" "length k \<le> 1024" "length v < 4294967296"
    using assms(2) by (auto simp: e entry_ok_def page_consts)
  show "decode_leaf_cell (entry_cell e) = Inr (lc_of e)"
  proof (cases ov)
    case None
    then show ?thesis
      using leaf_cell_roundtrip [OF k(1) k(3), of v None] by (simp add: e entry_cell_def lc_of_def)
  next
    case (Some os)
    then have "ov_head os < 4294967296"
      using ov_head_bound [OF assms(1), of os v] assms(2) by (simp add: e entry_ok_def)
    then show ?thesis
      using leaf_cell_roundtrip [OF k(1) k(3), of "[]" "Some (ov_head os)"] Some
      by (simp add: e entry_cell_def lc_of_def)
  qed
  show "decode_cell_key True (entry_cell e) = Inr (fst e)"
    using leaf_key_roundtrip [OF k(1)] by (simp add: e entry_cell_def split: option.splits)
  show "length (entry_cell e) \<le> 1036"
    using assms(2) k(2) by (auto simp: e entry_cell_def entry_ok_def length_encode_leaf_cell page_consts MAX_INLINE_CELL_def
        split: option.splits)
qed

text \<open>What a page of a leaf with entries \<open>es\<close> and successor \<open>n\<close> says.\<close>

definition leaf_at :: "(nat \<Rightarrow> page option) \<Rightarrow> nat \<Rightarrow> entry list \<Rightarrow> nat \<Rightarrow> bool" where
  "leaf_at V i es n \<longleftrightarrow> (\<exists>q. V i = Some q \<and> leaf_page q \<and> cells q = map entry_cell es \<and> extra q = n \<and>
     (\<forall>e \<in> set es. entry_ok V e) \<and> sorted_wrt (<) (map fst es))"

lemma leaf_page_reads:
  assumes "pager_ok crc p" "leaf_page q" "cells q = map entry_cell es" "\<forall>e \<in> set es. entry_ok (pview crc p) e"
  shows "keys_are q (map fst es)" "i < length es \<Longrightarrow> leaf_cell_at q i = Inr (lc_of (es ! i))"
    "num_keys q = length es"
proof -
  have ok: "slots_ok q" "is_leaf q" using assms(2) by (auto simp: leaf_page_def page_wf_def)
  show n: "num_keys q = length es" unfolding num_keys_cells assms(3) by simp
  show "keys_are q (map fst es)"
    unfolding keys_are_def
    using n ok assms(3,4) entry_cell_decode(2) [OF assms(1)] cell_key_cells [OF ok(1)] by simp
  show "leaf_cell_at q i = Inr (lc_of (es ! i))" if "i < length es"
    using that n cell_ok [OF ok(1), of i] nth_cells [of i q] assms(3,4) entry_cell_decode(1) [OF assms(1), of "es ! i"]
    by (simp add: leaf_cell_at_def)
qed

lemma inner_page_reads:
  assumes "inner_page q" "cells q = inner_cells ks cs" "length cs = length ks"
    and "\<forall>k \<in> set ks. length k \<le> MAX_KEY_SIZE" "\<forall>c \<in> set cs. root_id c < 4294967296"
  shows "keys_are q ks" "i < length ks \<Longrightarrow> internal_child q i = Inr (root_id (cs ! i))" "num_keys q = length ks"
proof -
  have ok: "slots_ok q" "\<not> is_leaf q" using assms(1) by (auto simp: inner_page_def page_wf_def)
  show n: "num_keys q = length ks" unfolding num_keys_cells assms(2) inner_cells_def using assms(3) by simp
  have c: "cells q ! i = encode_internal_cell (ks ! i) (root_id (cs ! i))" if "i < length ks" for i
    using that assms(2,3) by (simp add: inner_cells_def)
  have b: "length (ks ! i) < 65536" "root_id (cs ! i) < 4294967296" if "i < length ks" for i
    using bspec [OF assms(4) nth_mem [OF that]] bspec [OF assms(5) nth_mem [of i cs]] that assms(3)
    by (simp_all add: page_consts)
  have rt: "decode_cell_key False (cells q ! i) = Inr (ks ! i) \<and> read_le (cells q ! i) 2 4 = root_id (cs ! i) \<and>
      length (cells q ! i) = 6 + length (ks ! i)" if "i < length ks" for i
    using internal_cell_roundtrip [OF b [OF that]] c [OF that] by simp
  show "keys_are q ks"
    unfolding keys_are_def using n ok rt cell_key_cells [OF ok(1)] by simp
  show "internal_child q i = Inr (root_id (cs ! i))" if "i < length ks"
    using that n rt [OF that] cell_ok [OF ok(1), of i] nth_cells [of i q] by (simp add: internal_child_def)
qed

section \<open>Slots\<close>

definition slot_of :: "bytes list \<Rightarrow> bytes \<Rightarrow> nat" where
  "slot_of ks key = length (takeWhile (\<lambda>k. k \<le> key) ks)"

lemma slot_of_split:
  assumes "sorted_wrt (<) ks"
  shows "\<forall>k \<in> set (take (slot_of ks key) ks). k \<le> key" "\<forall>k \<in> set (drop (slot_of ks key) ks). key < k"
proof -
  show "\<forall>k \<in> set (take (slot_of ks key) ks). k \<le> key"
    unfolding slot_of_def by (metis set_takeWhileD takeWhile_eq_take)
  show "\<forall>k \<in> set (drop (slot_of ks key) ks). key < k"
    unfolding slot_of_def using assms
  proof (induction ks)
    case (Cons k ks)
    then show ?case by (cases "k \<le> key") (auto intro: less_trans)
  qed simp
qed

lemma slot_of_position:
  assumes "sorted_wrt (<) ks"
  shows "slot_of ks key =
     (let i = position ks key in if i < length ks \<and> ks ! i = key then i + 1 else i)"
  using assms
proof (induction ks)
  case (Cons k ks)
  show ?case
  proof (cases "k < key")
    case True
    then show ?thesis using Cons by (auto simp: slot_of_def position_def Let_def)
  next
    case False
    then have "takeWhile (\<lambda>k. k \<le> key) ks = []" if "k = key"
      using that Cons.prems by (cases ks) auto
    then show ?thesis using False by (auto simp: slot_of_def position_def)
  qed
qed (simp add: slot_of_def position_def)

lemma child_slot_for_ok:
  assumes "keys_are q ks" "sorted_wrt (<) ks"
  shows "child_slot_for q key = Inr (slot_of ks key)"
  unfolding child_slot_for_def search_spec [OF assms] slot_of_position [OF assms(2)]
  by (simp add: Let_def)

lemma slot_of_le: "slot_of ks key \<le> length ks"
  by (simp add: slot_of_def length_takeWhile_le)

text \<open>An inner node of the tree and the child a key belongs to.\<close>

lemma node_page:
  assumes "tree_at crc p A lo hi nxt (Nd i ks cs)"
  obtains q where "pview crc p i = Some q" "inner_page q" "cells q = inner_cells ks (tl cs)"
    "extra q = root_id (hd cs)" "kids (shape (pview crc p)) lo hi nxt ks cs" "keys_are q ks" "num_keys q = length ks"
    "\<not> is_leaf q" "sorted_wrt (<) ks" "\<And>s. s \<le> length ks \<Longrightarrow> child_at q s = Inr (root_id (cs ! s))"
    "length cs = Suc (length ks)" "\<forall>c \<in> set cs. root_id c < 4294967296 \<and> root_id c \<noteq> SENTINEL"
proof -
  note t = tree_atD [OF assms]
  obtain q where q: "pview crc p i = Some q" "inner_page q" "cells q = inner_cells ks (tl cs)"
      "extra q = root_id (hd cs)" "kids (shape (pview crc p)) lo hi nxt ks cs"
    using t(2) by (auto elim: shape_NdE)
  have len: "length cs = Suc (length ks)" by (rule kids_length [OF q(5)])
  then obtain c0 cs' where cs: "cs = c0 # cs'" "length cs' = length ks" by (cases cs) auto
  have ids: "root_id c < 4294967296 \<and> root_id c \<noteq> SENTINEL" if "c \<in> set cs" for c
    using owned_bound [OF t(1), of "root_id c"] t(4) root_in_pages [of c] that by auto
  have sep: "sorted_wrt (<) ks" "\<forall>k \<in> set ks. length k \<le> MAX_KEY_SIZE" using kids_seps [OF q(5)] by auto
  note r = inner_page_reads [OF q(2) q(3), unfolded cs(1) list.sel, OF cs(2) sep(2)]
  have r': "keys_are q ks" "num_keys q = length ks" "\<And>j. j < length ks \<Longrightarrow> internal_child q j = Inr (root_id (cs' ! j))"
    using r ids cs(1) by auto
  have "child_at q s = Inr (root_id (cs ! s))" if "s \<le> length ks" for s
  proof (cases s)
    case 0
    then show ?thesis using q(4) ids [of c0] cs(1) by (simp add: child_at_def)
  next
    case (Suc j)
    then show ?thesis using r'(3) [of j] ids [of "cs' ! j"] that cs by (simp add: child_at_def)
  qed
  moreover have "\<not> is_leaf q" using q(2) by (simp add: inner_page_def)
  ultimately show thesis using that [OF q r'(1,2) _ sep(1) _ len] ids by blast
qed

lemma node_child:
  assumes "tree_at crc p A lo hi nxt (Nd i ks cs)" "lo \<le> key" "lt_hi key hi"
    and "kids (shape (pview crc p)) lo hi nxt ks cs"
  obtains ks1 ks2 xs c ys where "ks = ks1 @ ks2" "cs = xs @ c # ys" "length xs = length ks1"
    "length xs = slot_of ks key" "last (lo # ks1) \<le> key" "lt_hi key (hi_at hi ks2)"
    "\<forall>k \<in> set ks1. k \<le> key" "\<forall>k \<in> set ks2. key < k"
    "tree_at crc p A (last (lo # ks1)) (hi_at hi ks2) (nxt_at nxt ys) c"
proof -
  let ?s = "slot_of ks key"
  define ks1 ks2 xs c ys where "ks1 = take ?s ks" "ks2 = drop ?s ks" "xs = take ?s cs" "c = cs ! ?s" "ys = drop (Suc ?s) cs"
  note d = this
  have len: "length cs = Suc (length ks)" by (rule kids_length [OF assms(4)])
  then have s: "?s < length cs" using slot_of_le [of ks key] by simp
  have ks: "ks = ks1 @ ks2" by (simp add: d)
  have cs: "cs = xs @ c # ys" using s by (simp add: d id_take_nth_drop [symmetric])
  have lx: "length xs = length ks1" "length xs = ?s" using len slot_of_le [of ks key] by (auto simp: d)
  have sorted: "sorted_wrt (<) ks" using kids_seps [OF assms(4)] by simp
  have k1: "\<forall>k \<in> set ks1. k \<le> key" and k2: "\<forall>k \<in> set ks2. key < k"
    using slot_of_split [OF sorted] by (auto simp: d)
  have "shape (pview crc p) (last (lo # ks1)) (hi_at hi ks2) (nxt_at nxt ys) c"
    using kids_child [OF assms(4) [unfolded ks cs] lx(1)] .
  moreover have "distinct (pages c)" "set (pages c) \<inter> A = {}" "0 \<notin> set (pages c)"
    using tree_atD [OF assms(1)] by (auto simp: cs distinct_concat_iff)
  ultimately have "tree_at crc p A (last (lo # ks1)) (hi_at hi ks2) (nxt_at nxt ys) c"
    using tree_atD(1) [OF assms(1)] by (simp add: tree_at_def)
  moreover have "last (lo # ks1) \<le> key" using k1 assms(2) by auto
  moreover have "lt_hi key (hi_at hi ks2)" using k2 assms(3) by (auto simp: hi_at_def split: list.splits)
  ultimately show thesis using that ks cs lx k1 k2 by blast
qed

end
