(* ===== verification/BTree_Get.thy ===== *)
theory BTree_Get
  imports BTree_Node
begin

text \<open>
  Lookups. The leaves of a tree in order, what the leaf chain says about them, the descent to
  the leaf a key belongs to, and the value \<open>get\<close> returns.
\<close>

section \<open>The leaves of a tree\<close>

fun leaves :: "tree \<Rightarrow> (nat \<times> entry list) list" where
  "leaves (Lf i es) = [(i, es)]"
| "leaves (Nd i ks cs) = concat (map leaves cs)"

definition leaf_entries :: "(nat \<times> entry list) list \<Rightarrow> (bytes \<times> bytes) list" where
  "leaf_entries ls = concat (map (\<lambda>l. map entry_kv (snd l)) ls)"

lemma leaf_entries_simps [simp]:
  "leaf_entries [] = []" "leaf_entries (l # ls) = map entry_kv (snd l) @ leaf_entries ls"
  "leaf_entries (ls @ ls') = leaf_entries ls @ leaf_entries ls'"
  by (simp_all add: leaf_entries_def)

lemma leaf_entries_concat: "leaf_entries (concat lss) = concat (map leaf_entries lss)"
  by (induction lss) auto

lemma entries_leaves: "entries t = leaf_entries (leaves t)"
proof (induction t)
  case (Nd i ks cs)
  then show ?case by (simp add: leaf_entries_concat comp_def cong: map_cong)
qed simp

lemma leaf_ids_leaves: "leaf_ids t = map fst (leaves t)"
proof (induction t)
  case (Nd i ks cs)
  then show ?case by (simp add: map_concat comp_def cong: map_cong)
qed simp

fun leaf_chain :: "(nat \<Rightarrow> page option) \<Rightarrow> (nat \<times> entry list) list \<Rightarrow> nat \<Rightarrow> bool" where
  "leaf_chain V [] nxt \<longleftrightarrow> True"
| "leaf_chain V (l # ls) nxt \<longleftrightarrow>
     leaf_at V (fst l) (snd l) (if ls = [] then nxt else fst (hd ls)) \<and> leaf_chain V ls nxt"

lemma leaf_chain_append:
  "leaf_chain V (ls @ ls') nxt \<longleftrightarrow> leaf_chain V ls (if ls' = [] then nxt else fst (hd ls')) \<and> leaf_chain V ls' nxt"
  by (induction ls) auto

lemma lead_leaves: "leaves t \<noteq> [] \<Longrightarrow> lead t = fst (hd (leaves t))"
  by (simp add: lead_def leaf_ids_leaves hd_map)

lemma kids_chain:
  "kids (\<lambda>a b n c. leaves c \<noteq> [] \<and> leaf_chain V (leaves c) n) lo hi nxt ks cs \<Longrightarrow>
     concat (map leaves cs) \<noteq> [] \<and> leaf_chain V (concat (map leaves cs)) nxt"
proof (induction "\<lambda>(a::bytes) (b::bytes option) n c. leaves c \<noteq> [] \<and> leaf_chain V (leaves c) n" lo hi nxt ks cs
    rule: kids.induct)
  case (2 lo hi nxt k ks c c' cs)
  then have "leaf_chain V (concat (map leaves (c' # cs))) nxt" by simp
  moreover have "leaves c' \<noteq> []" using 2(2) by (cases ks; cases cs) auto
  moreover from this have "lead c' = fst (hd (concat (map leaves (c' # cs))))" by (simp add: lead_leaves)
  ultimately show ?case using 2(2) leaf_chain_append [of V "leaves c" "concat (map leaves (c' # cs))" nxt] by simp
qed auto

lemma shape_leaf_chain: "shape V lo hi nxt t \<Longrightarrow> leaves t \<noteq> [] \<and> leaf_chain V (leaves t) nxt"
proof (induction t arbitrary: lo hi nxt rule: tree.induct)
  case (Lf i es)
  then show ?case by (elim shape_LfE) (auto simp: leaf_at_def)
next
  case (Nd i ks cs)
  then have "kids (shape V) lo hi nxt ks cs" by (auto elim: shape_NdE)
  then have "kids (\<lambda>a b n c. leaves c \<noteq> [] \<and> leaf_chain V (leaves c) n) lo hi nxt ks cs"
    by (rule kids_cong) (use Nd.IH in blast)
  then show ?case using kids_chain by simp
qed

lemma leaves_pages:
  "l \<in> set (leaves t) \<Longrightarrow> distinct (pages t) \<Longrightarrow>
     distinct (pages (Lf (fst l) (snd l))) \<and> set (pages (Lf (fst l) (snd l))) \<subseteq> set (pages t)"
proof (induction t)
  case (Nd i ks cs)
  then obtain c where c: "c \<in> set cs" "l \<in> set (leaves c)" by auto
  then have "distinct (pages c)" using Nd.prems(2) by (auto simp: distinct_concat_iff)
  then show ?case using Nd.IH [OF c] c(1) by auto
qed simp

section \<open>Entries around a key\<close>

lemma kids_around:
  assumes "kids (shape V) lo hi nxt (ks1 @ ks2) (xs @ c # ys)" "length xs = length ks1"
    and "\<forall>k \<in> set ks1. k \<le> key" "\<forall>k \<in> set ks2. key < k"
  shows "\<forall>e \<in> set (concat (map entries xs)). fst e < key" "\<forall>e \<in> set (concat (map entries ys)). key < fst e"
proof -
  have keys: "keys_in a b (concat (map entries ts))" if "kids (shape V) a b n ss ts" for a b n ss ts
    by (rule kids_keys, rule kids_cong [OF that]) (rule shape_keys)
  show "\<forall>e \<in> set (concat (map entries xs)). fst e < key"
  proof (cases ks1 rule: rev_cases)
    case (snoc ks1' k)
    then have "kids (shape V) lo (Some k) (lead c) ks1' xs"
      using assms(1,2) kids_append [of xs ks1' "shape V" lo hi nxt k ks2 "c # ys"] by simp
    then have "keys_in lo (Some k) (concat (map entries xs))" by (rule keys)
    moreover have "k \<le> key" using assms(3) snoc by simp
    ultimately show ?thesis unfolding keys_in_def by (auto intro: less_le_trans)
  qed (use assms(2) in simp)
  show "\<forall>e \<in> set (concat (map entries ys)). key < fst e"
  proof (cases ks2)
    case Nil
    then have "ys = []" using kids_length [OF assms(1)] assms(2) by simp
    then show ?thesis by simp
  next
    case (Cons k ks2')
    then have "kids (shape V) k hi nxt ks2' ys"
      using assms(1,2) kids_append [of "xs @ [c]" ks1 "shape V" lo hi nxt k ks2' ys] by simp
    then have "keys_in k hi (concat (map entries ys))" by (rule keys)
    moreover have "key < k" using assms(4) Cons by simp
    ultimately show ?thesis unfolding keys_in_def by (auto intro: less_le_trans)
  qed
qed

section \<open>The descent\<close>

definition around :: "bytes \<Rightarrow> (nat \<times> entry list) list \<Rightarrow> (nat \<times> entry list) list \<Rightarrow> bool" where
  "around key ls1 ls2 \<longleftrightarrow> (\<forall>e \<in> set (leaf_entries ls1). fst e < key) \<and> (\<forall>e \<in> set (leaf_entries ls2). key < fst e)"

lemma leaves_ctx:
  "leaf_entries (concat (map leaves ts)) = concat (map entries ts)"
  by (induction ts) (auto simp: entries_leaves)

lemma find_leaf_loop_wp:
  assumes "tree_at crc p A lo hi nxt t" "lo \<le> key" "lt_hi key hi" "n < height t \<longrightarrow> (\<forall>p. R Corruption p)"
  shows "wp (find_leaf_loop crc key n (root_id t)) (\<lambda>i p'. same_view crc p p' \<and>
      (\<exists>ls1 es ls2. leaves t = ls1 @ (i, es) # ls2 \<and> around key ls1 ls2)) R p"
  using assms
proof (induction n arbitrary: p lo hi nxt t)
  case 0
  have "0 < height t" by (cases t) auto
  then show ?case using 0(4) unfolding find_leaf_loop.simps by (intro wp_serr) auto
next
  case (Suc n)
  note t = tree_atD [OF Suc.prems(1)]
  show ?case
  proof (cases t)
    case (Lf i es)
    then obtain q where q: "pview crc p i = Some q" "leaf_page q" using t(2) by (auto elim: shape_LfE)
    have "leaves t = [] @ (i, es) # []" "around key [] []" by (simp_all add: Lf around_def)
    then have leaf: "\<exists>ls1 es ls2. leaves t = ls1 @ (i, es) # ls2 \<and> around key ls1 ls2" by blast
    have id: "root_id t = i" by (simp add: Lf)
    show ?thesis
      unfolding find_leaf_loop.simps
    proof (rule wp_step [OF read_page_wp [OF t(6), of "root_id t" q]])
      show "pview crc p (root_id t) = Some q" using q(1) by (simp add: Lf)
      fix x p1 assume "x = q \<and> same_view crc p p1"
      then show "wp (if is_leaf x then sret (root_id t) else sbind (slift (child_for x key)) (find_leaf_loop crc key n))
        (\<lambda>i p'. same_view crc p p' \<and> (\<exists>ls1 es ls2. leaves t = ls1 @ (i, es) # ls2 \<and> around key ls1 ls2)) R p1"
        using q(2) leaf by (auto simp: leaf_page_def wp_def id)
    qed
  next
    case (Nd i ks cs)
    obtain q where q: "pview crc p i = Some q" "kids (shape (pview crc p)) lo hi nxt ks cs" "keys_are q ks"
        "\<not> is_leaf q" "sorted_wrt (<) ks" "\<And>s. s \<le> length ks \<Longrightarrow> child_at q s = Inr (root_id (cs ! s))"
      using node_page Suc.prems(1) unfolding Nd by metis
    obtain ks1 ks2 xs c ys where c: "ks = ks1 @ ks2" "cs = xs @ c # ys" "length xs = length ks1"
        "length xs = slot_of ks key" "last (lo # ks1) \<le> key" "lt_hi key (hi_at hi ks2)"
        "\<forall>k \<in> set ks1. k \<le> key" "\<forall>k \<in> set ks2. key < k"
        "tree_at crc p A (last (lo # ks1)) (hi_at hi ks2) (nxt_at nxt ys) c"
      using node_child [OF Suc.prems(1) [unfolded Nd] Suc.prems(2,3) q(2)] by metis
    have child: "child_for q key = Inr (root_id c)"
      using child_slot_for_ok [OF q(3,5)] q(6) [OF slot_of_le] c(2,4) by (simp add: child_for_def nth_append)
    have lv: "leaves t = concat (map leaves xs) @ leaves c @ concat (map leaves ys)" by (simp add: Nd c(2))
    note ar = kids_around [OF q(2) [unfolded c(1,2)] c(3,7,8)]
    show ?thesis
      unfolding find_leaf_loop.simps
    proof (rule wp_step [OF read_page_wp [OF t(6), of "root_id t" q]])
      show "pview crc p (root_id t) = Some q" using q(1) by (simp add: Nd)
      fix x p1 assume x: "x = q \<and> same_view crc p p1"
      have "wp (find_leaf_loop crc key n (root_id c)) (\<lambda>i p'. same_view crc p1 p' \<and>
        (\<exists>ls1 es ls2. leaves c = ls1 @ (i, es) # ls2 \<and> around key ls1 ls2)) R p1"
      proof (rule Suc.IH [OF tree_at_same [OF c(9)] c(5,6)])
        show "same_view crc p p1" using x by simp
        show "n < height c \<longrightarrow> (\<forall>p. R Corruption p)"
          using Suc.prems(4) height_child [of c cs i ks] c(2) by (simp add: Nd)
      qed
      then have "wp (find_leaf_loop crc key n (root_id c)) (\<lambda>i p'. same_view crc p p' \<and>
        (\<exists>ls1 es ls2. leaves t = ls1 @ (i, es) # ls2 \<and> around key ls1 ls2)) R p1"
      proof (rule wp_conseq, elim conjE exE)
        fix j p' ls1 es ls2
        assume s: "same_view crc p1 p'" "leaves c = ls1 @ (j, es) # ls2" "around key ls1 ls2"
        have "leaves t = (concat (map leaves xs) @ ls1) @ (j, es) # (ls2 @ concat (map leaves ys))"
          by (simp add: lv s(2))
        moreover have "around key (concat (map leaves xs) @ ls1) (ls2 @ concat (map leaves ys))"
          using s(3) ar unfolding around_def leaf_entries_simps leaves_ctx by auto
        ultimately show "same_view crc p p' \<and>
            (\<exists>ls1 es ls2. leaves t = ls1 @ (j, es) # ls2 \<and> around key ls1 ls2)"
          using x s(1) same_view_trans by blast
      qed
      then show "wp (if is_leaf x then sret (root_id t) else sbind (slift (child_for x key)) (find_leaf_loop crc key n))
        (\<lambda>i p'. same_view crc p p' \<and> (\<exists>ls1 es ls2. leaves t = ls1 @ (i, es) # ls2 \<and> around key ls1 ls2)) R p1"
        using x q(4) by (simp only: if_False simp_thms) (rule wp_sbind_slift [OF child])
    qed
  qed
qed

section \<open>Values\<close>

lemma leaf_of_tree:
  assumes "tree_at crc p A lo hi nxt t" "(i, es) \<in> set (leaves t)"
  obtains n q where "pview crc p i = Some q" "leaf_page q" "cells q = map entry_cell es" "extra q = n"
    "\<forall>e \<in> set es. entry_ok (pview crc p) e" "sorted_wrt (<) (map fst es)"
    "keys_are q (map fst es)" "\<And>j. j < length es \<Longrightarrow> leaf_cell_at q j = Inr (lc_of (es ! j))" "num_keys q = length es"
    "distinct (pages (Lf i es))" "set (pages (Lf i es)) \<inter> A = {}" "0 \<notin> set (pages (Lf i es))"
proof -
  note t = tree_atD [OF assms(1)]
  have "leaf_chain (pview crc p) (leaves t) nxt" using shape_leaf_chain [OF t(2)] by simp
  then have "\<exists>n. leaf_at (pview crc p) i es n"
    using assms(2) by (induction "leaves t" arbitrary: t) (auto dest!: split_list simp: leaf_chain_append)
  then obtain n q where q: "pview crc p i = Some q" "leaf_page q" "cells q = map entry_cell es" "extra q = n"
    "\<forall>e \<in> set es. entry_ok (pview crc p) e" "sorted_wrt (<) (map fst es)" by (auto simp: leaf_at_def)
  note r = leaf_page_reads [OF t(6) q(2,3,5)]
  note pg = leaves_pages [OF assms(2) t(3)]
  show thesis by (rule that [OF q r]) (use pg t(4,5) in auto)
qed

lemma cell_value_wp:
  assumes "heap_ok crc p A" "entry_ok (pview crc p) e" "distinct (i # entry_pages e)"
    and "set (i # entry_pages e) \<inter> A = {}" "0 \<notin> set (i # entry_pages e)"
  shows "wp (cell_value crc (lc_of e)) (\<lambda>v p'. v = fst (snd e) \<and> same_view crc p p') R p"
proof -
  obtain k v ov where e: "e = (k, v, ov)" by (cases e)
  show ?thesis
  proof (cases ov)
    case None
    then show ?thesis using same_view_refl [OF heap_okD(1) [OF assms(1)]]
      by (simp add: wp_def cell_value_def lc_of_def e)
  next
    case (Some os)
    have "distinct (0 # i # os)" "set (0 # i # os) \<inter> A = {}"
      using assms(3-5) heap_okD(2) [OF assms(1)] by (auto simp: e Some entry_pages_def)
    from owned_length [OF assms(1) this] have "length os + 2 \<le> md_page_count (pg_meta p)" by simp
    then have "wp (read_overflow_chain crc (ov_head os) (length v))
        (\<lambda>x p'. x = v \<and> heap_ok crc p' A \<and> same_view crc p p') R p"
      using assms(2) by (intro read_overflow_chain_wp [OF assms(1)]) (auto simp: e Some entry_ok_def)
    then have "wp (read_overflow_chain crc (ov_head os) (length v)) (\<lambda>x p'. x = v \<and> same_view crc p p') R p"
      by (rule wp_conseq) auto
    then show ?thesis by (simp add: cell_value_def lc_of_def e Some)
  qed
qed

lemma found_entry:
  assumes "sorted_wrt (<) (map fst es)"
  shows "(let i = position (map fst es) key in i < length es \<and> map fst es ! i = key) \<longleftrightarrow>
     bm_get (map entry_kv es) key \<noteq> None"
    and "i < length es \<Longrightarrow> map fst es ! i = key \<Longrightarrow> bm_get (map entry_kv es) key = Some (fst (snd (es ! i)))"
proof -
  have ok: "bm_ok (map entry_kv es)" using assms by (simp add: bm_ok_def entry_kv_def comp_def)
  show some: "bm_get (map entry_kv es) key = Some (fst (snd (es ! i)))" if "i < length es" "map fst es ! i = key" for i
    unfolding bm_get_Some_iff [OF ok] using that by (auto simp: entry_kv_def intro!: image_eqI [of _ _ "es ! i"])
  have "position (map fst es) key = j" if "j < length es" "fst (es ! j) = key" for j
    by (rule position_eqI) (use that assms in \<open>auto simp: sorted_wrt_iff_nth_less\<close>)
  then have "\<exists>j < length es. fst (es ! j) = key \<Longrightarrow>
      let i = position (map fst es) key in i < length es \<and> map fst es ! i = key" by (auto simp: Let_def)
  moreover have "bm_get (map entry_kv es) key \<noteq> None \<longleftrightarrow> (\<exists>j < length es. fst (es ! j) = key)"
    by (simp add: bm_get_None_iff entry_kv_def image_image) (metis (no_types) image_iff in_set_conv_nth)
  ultimately show "(let i = position (map fst es) key in i < length es \<and> map fst es ! i = key) \<longleftrightarrow>
     bm_get (map entry_kv es) key \<noteq> None"
    by (auto simp: Let_def)
qed

lemma bm_get_around:
  assumes "around key ls1 ls2"
  shows "bm_get (leaf_entries (ls1 @ l # ls2)) key = bm_get (map entry_kv (snd l)) key"
proof -
  have "map_of (leaf_entries ls1) key = None" "map_of (leaf_entries ls2) key = None"
    using assms by (force simp: around_def map_of_eq_None_iff)+
  then show ?thesis by (simp add: bm_get_map_of map_add_def split: option.splits)
qed

text \<open>Where a key is in its leaf: the result of the binary search.\<close>

lemma leaf_search:
  assumes "keys_are q (map fst es)" "sorted_wrt (<) (map fst es)"
  obtains (found) i where "search q key = Inr (Found i)" "i < length es" "fst (es ! i) = key" "i = position (map fst es) key"
      "bm_get (map entry_kv es) key = Some (fst (snd (es ! i)))"
    | (missing) i where "search q key = Inr (Missing i)" "i = position (map fst es) key"
      "bm_get (map entry_kv es) key = None"
  using search_spec [OF assms, of key] found_entry(1) [OF assms(2), of key] found_entry(2) [OF assms(2), of _ key]
  by (cases "bm_get (map entry_kv es) key = None") (auto simp: Let_def)

section \<open>Lookup\<close>

lemma find_leaf_wp:
  assumes "tree_at crc p A [] None SENTINEL t" "md_root (pg_meta p) = root_id t"
    and "MAX_DEPTH + 1 < height t \<longrightarrow> (\<forall>p. R Corruption p)"
  shows "wp (find_leaf crc key) (\<lambda>i p'. same_view crc p p' \<and>
      (\<exists>ls1 es ls2. leaves t = ls1 @ (i, es) # ls2 \<and> around key ls1 ls2)) R p"
  using find_leaf_loop_wp [OF assms(1), of key "MAX_DEPTH + 1" R] assms(2,3)
  by (simp add: wp_def find_leaf_def)

lemma bt_get_wp:
  assumes "tree_at crc p A [] None SENTINEL t" "md_root (pg_meta p) = root_id t"
    and "MAX_DEPTH + 1 < height t \<longrightarrow> (\<forall>p. R Corruption p)"
    and "\<And>p'. same_view crc p p' \<Longrightarrow> bm_get (entries t) key = None \<Longrightarrow> R NotFound p'"
  shows "wp (bt_get crc key) (\<lambda>v p'. bm_get (entries t) key = Some v \<and> same_view crc p p') R p"
  unfolding bt_get_def
proof (rule wp_step [OF find_leaf_wp [where R = R, OF assms(1-3)]], elim conjE exE)
  fix i p1 ls1 es ls2
  assume s: "same_view crc p p1" and lv: "leaves t = ls1 @ (i, es) # ls2" "around key ls1 ls2"
  have t1: "tree_at crc p1 A [] None SENTINEL t" by (rule tree_at_same [OF assms(1) s])
  have mem: "(i, es) \<in> set (leaves t)" by (simp add: lv)
  obtain q where q: "pview crc p1 i = Some q" "\<forall>e \<in> set es. entry_ok (pview crc p1) e" "sorted_wrt (<) (map fst es)"
    "keys_are q (map fst es)" "\<And>j. j < length es \<Longrightarrow> leaf_cell_at q j = Inr (lc_of (es ! j))"
    and pg: "distinct (pages (Lf i es))" "set (pages (Lf i es)) \<inter> A = {}" "0 \<notin> set (pages (Lf i es))"
    using leaf_of_tree [OF t1 mem] by metis
  have get: "bm_get (entries t) key = bm_get (map entry_kv es) key"
    using bm_get_around [OF lv(2), of "(i, es)"] by (simp add: entries_leaves lv(1))
  show "wp (sbind (read_page crc i) (\<lambda>leaf. sbind (slift (search leaf key)) (\<lambda>r. case r of
        Found idx \<Rightarrow> sbind (slift (leaf_cell_at leaf idx)) (cell_value crc) | Missing _ \<Rightarrow> serr NotFound)))
      (\<lambda>v p'. bm_get (entries t) key = Some v \<and> same_view crc p p') R p1"
  proof (rule wp_step [OF heap_read_wp [OF tree_atD(1) [OF t1] q(1)]], elim conjE)
    fix x p2 assume x: "x = q" "heap_ok crc p2 A" "same_view crc p1 p2"
    have s2: "same_view crc p p2" using s x(3) same_view_trans by blast
    show "wp (sbind (slift (search x key)) (\<lambda>r. case r of
        Found idx \<Rightarrow> sbind (slift (leaf_cell_at x idx)) (cell_value crc) | Missing _ \<Rightarrow> serr NotFound))
      (\<lambda>v p'. bm_get (entries t) key = Some v \<and> same_view crc p p') R p2"
    proof (cases rule: leaf_search [where key = key, OF q(4) q(3), case_names found missing])
      case (found j)
      let ?e = "es ! j"
      have mem: "?e \<in> set es" using found(2) by simp
      have "set (entry_pages ?e) \<subseteq> set (concat (map entry_pages es))" using mem by auto
      moreover have "distinct (entry_pages ?e)" using pg(1) mem by (auto simp: distinct_concat_iff)
      ultimately have e: "distinct (i # entry_pages ?e)" "set (i # entry_pages ?e) \<inter> A = {}" "0 \<notin> set (i # entry_pages ?e)"
        using pg by auto
      have "entry_ok (pview crc p2) ?e" using q(2) mem x(3) by (simp add: same_view_def)
      from cell_value_wp [OF x(2) this e, of R]
      have "wp (cell_value crc (lc_of ?e)) (\<lambda>v p'. bm_get (entries t) key = Some v \<and> same_view crc p p') R p2"
        by (rule wp_conseq) (use found(5) get s2 same_view_trans in auto)
      then have "wp (sbind (slift (leaf_cell_at q j)) (cell_value crc))
          (\<lambda>v p'. bm_get (entries t) key = Some v \<and> same_view crc p p') R p2"
        by (rule wp_sbind_slift [OF q(5) [OF found(2)]])
      then show ?thesis unfolding x(1) by (intro wp_sbind_slift [OF found(1)]) simp
    next
      case (missing j)
      have "wp (serr NotFound) (\<lambda>v p'. bm_get (entries t) key = Some v \<and> same_view crc p p') R p2"
        by (rule wp_serr) (use assms(4) s2 missing(3) get in simp)
      then show ?thesis unfolding x(1) by (intro wp_sbind_slift [OF missing(1)]) (simp only: search_result.case)
    qed
  qed
qed

lemma bt_contains_wp:
  assumes "tree_at crc p A [] None SENTINEL t" "md_root (pg_meta p) = root_id t"
    and "MAX_DEPTH + 1 < height t \<longrightarrow> (\<forall>p. R Corruption p)"
  shows "wp (bt_contains crc key) (\<lambda>b p'. b = (bm_get (entries t) key \<noteq> None) \<and> same_view crc p p') R p"
  unfolding bt_contains_def
proof (rule wp_step [OF find_leaf_wp [where R = R, OF assms]], elim conjE exE)
  fix i p1 ls1 es ls2
  assume s: "same_view crc p p1" and lv: "leaves t = ls1 @ (i, es) # ls2" "around key ls1 ls2"
  have t1: "tree_at crc p1 A [] None SENTINEL t" by (rule tree_at_same [OF assms(1) s])
  have mem: "(i, es) \<in> set (leaves t)" by (simp add: lv)
  obtain q where q: "pview crc p1 i = Some q" "sorted_wrt (<) (map fst es)" "keys_are q (map fst es)"
    using leaf_of_tree [OF t1 mem] by metis
  have get: "bm_get (entries t) key = bm_get (map entry_kv es) key"
    using bm_get_around [OF lv(2), of "(i, es)"] by (simp add: entries_leaves lv(1))
  show "wp (sbind (read_page crc i) (\<lambda>leaf. sbind (slift (search leaf key)) (\<lambda>r.
        sret (case r of Found _ \<Rightarrow> True | Missing _ \<Rightarrow> False))))
      (\<lambda>b p'. b = (bm_get (entries t) key \<noteq> None) \<and> same_view crc p p') R p1"
  proof (rule wp_step [OF heap_read_wp [OF tree_atD(1) [OF t1] q(1)]], elim conjE)
    fix x p2 assume x: "x = q" "same_view crc p1 p2"
    have s2: "same_view crc p p2" using s x(2) same_view_trans by blast
    show "wp (sbind (slift (search x key)) (\<lambda>r. sret (case r of Found _ \<Rightarrow> True | Missing _ \<Rightarrow> False)))
      (\<lambda>b p'. b = (bm_get (entries t) key \<noteq> None) \<and> same_view crc p p') R p2"
    proof (cases rule: leaf_search [where key = key, OF q(3) q(2), case_names found missing])
      case (found j)
      show ?thesis unfolding x(1) by (rule wp_sbind_slift [OF found(1)], rule wp_sret) (use found(5) get s2 in simp)
    next
      case (missing j)
      show ?thesis unfolding x(1) by (rule wp_sbind_slift [OF missing(1)], rule wp_sret) (use missing(3) get s2 in simp)
    qed
  qed
qed

end
