(* ===== verification/BTree_Split.thy ===== *)
theory BTree_Split
  imports BTree_Get
begin

text \<open>
  Splitting nodes: \<open>split_point\<close> always finds a cut whose halves fit their pages, and filling
  an emptied page with cells that fit succeeds.
\<close>

section \<open>The split point\<close>

definition cut_ok :: "bool \<Rightarrow> nat \<Rightarrow> nat \<Rightarrow> nat \<Rightarrow> nat \<Rightarrow> nat list \<Rightarrow> nat \<Rightarrow> bool" where
  "cut_ok promote tot n i left sizes j \<longleftrightarrow>
     j < length sizes \<and> (promote \<or> i + j + 1 < n) \<and>
     left + sum_list (take (if promote then j else Suc j) sizes) \<le> USABLE_SPACE \<and>
     tot - left - sum_list (take (Suc j) sizes) \<le> USABLE_SPACE"

definition cut_at :: "bool \<Rightarrow> nat \<Rightarrow> nat \<Rightarrow> nat" where
  "cut_at promote i j = (if promote then i + j else i + j + 1)"

lemma cut_ok_Suc: "cut_ok promote tot n i left (sz # sizes) (Suc j) \<longleftrightarrow> cut_ok promote tot n (i + 1) (left + sz) sizes j"
  by (auto simp: cut_ok_def algebra_simps)

lemma split_scan_Cons:
  "split_scan promote tot n i left (sz # sizes) best =
     split_scan promote tot n (i + 1) (left + sz) sizes
       (if cut_ok promote tot n i left (sz # sizes) 0 \<and>
           better (if (if promote then left else left + sz) \<le> tot - left - sz
                   then tot - left - sz - (if promote then left else left + sz)
                   else (if promote then left else left + sz) - (tot - left - sz)) best
        then Some (if (if promote then left else left + sz) \<le> tot - left - sz
                   then tot - left - sz - (if promote then left else left + sz)
                   else (if promote then left else left + sz) - (tot - left - sz), cut_at promote i 0)
        else best)"
  by (cases promote) (auto simp: Let_def cut_ok_def cut_at_def)

lemma split_scan_sound:
  "split_scan promote tot n i left sizes best = Some (b, m) \<Longrightarrow>
     (\<exists>b'. best = Some (b', m)) \<or> (\<exists>j. cut_ok promote tot n i left sizes j \<and> m = cut_at promote i j)"
proof (induction sizes arbitrary: i left best)
  case (Cons sz sizes)
  from Cons.IH [OF Cons.prems [unfolded split_scan_Cons]]
  consider (best) b' where "best = Some (b', m)" | (here) "cut_ok promote tot n i left (sz # sizes) 0" "m = cut_at promote i 0"
    | (later) j where "cut_ok promote tot n (i + 1) (left + sz) sizes j" "m = cut_at promote (i + 1) j"
    by (auto split: if_splits)
  then show ?case
  proof cases
    case (later j)
    then have "cut_ok promote tot n i left (sz # sizes) (Suc j) \<and> m = cut_at promote i (Suc j)"
      by (simp add: cut_ok_Suc cut_at_def)
    then show ?thesis by blast
  qed blast+
qed simp

lemma split_scan_complete:
  "best \<noteq> None \<or> (\<exists>j. cut_ok promote tot n i left sizes j) \<Longrightarrow> split_scan promote tot n i left sizes best \<noteq> None"
proof (induction sizes arbitrary: i left best)
  case (Cons sz sizes)
  show ?case
    unfolding split_scan_Cons
  proof (rule Cons.IH)
    let ?best = "if cut_ok promote tot n i left (sz # sizes) 0 \<and>
           better (if (if promote then left else left + sz) \<le> tot - left - sz
                   then tot - left - sz - (if promote then left else left + sz)
                   else (if promote then left else left + sz) - (tot - left - sz)) best
        then Some (if (if promote then left else left + sz) \<le> tot - left - sz
                   then tot - left - sz - (if promote then left else left + sz)
                   else (if promote then left else left + sz) - (tot - left - sz), cut_at promote i 0)
        else best"
    show "?best \<noteq> None \<or> (\<exists>j. cut_ok promote tot n (i + 1) (left + sz) sizes j)"
    proof (cases "best = None")
      case True
      then obtain j where j: "cut_ok promote tot n i left (sz # sizes) j" using Cons.prems by blast
      show ?thesis
      proof (cases j)
        case 0
        then show ?thesis using j True by (simp add: better_def)
      next
        case (Suc j')
        then show ?thesis using j by (auto simp: cut_ok_Suc)
      qed
    qed simp
  qed
qed (auto simp: cut_ok_def)

definition cells_size :: "bytes list \<Rightarrow> nat" where
  "cells_size cs = sum_list (map cell_size cs)"

lemma cells_size_simps [simp]:
  "cells_size [] = 0" "cells_size (c # cs) = length c + 4 + cells_size cs"
  "cells_size (xs @ ys) = cells_size xs + cells_size ys"
  by (simp_all add: cells_size_def cell_size_def SLOT_SIZE_def)

lemma cells_size_take_drop: "cells_size (take m cs) + cells_size (drop m cs) = cells_size cs"
  by (metis append_take_drop_id cells_size_simps(3))

lemma used_bytes_size: "used_bytes q = cells_size (cells q)"
  unfolding used_bytes_cells cells_size_def by (rule arg_cong [of _ _ sum_list]) (simp add: cell_size_def)

lemma cells_size_take_Suc:
  "m < length cs \<Longrightarrow> cells_size (take (Suc m) cs) = cells_size (take m cs) + length (cs ! m) + 4"
  by (simp add: take_Suc_conv_app_nth)

text \<open>The cut whose right half is the first to fit: its left half is short.\<close>

lemma first_fit:
  assumes "\<forall>c \<in> set cs. length c \<le> 1036" "cells_size cs \<le> 4064 + 1040" "a \<le> length cs"
    and "cells_size (take a cs) \<le> 2080"
  shows "\<exists>m. a \<le> m \<and> m \<le> length cs \<and> cells_size (drop m cs) \<le> 4064 \<and> cells_size (take m cs) \<le> 2080 \<and>
     (a < m \<longrightarrow> 4064 < cells_size (drop (m - 1) cs))"
proof -
  define m where "m = (LEAST m. a \<le> m \<and> cells_size (drop m cs) \<le> 4064)"
  have ex: "a \<le> length cs \<and> cells_size (drop (length cs) cs) \<le> 4064" using assms(3) by simp
  have m: "a \<le> m" "cells_size (drop m cs) \<le> 4064"
    using LeastI [of "\<lambda>m. a \<le> m \<and> cells_size (drop m cs) \<le> 4064", OF ex] by (auto simp: m_def)
  have le: "m \<le> length cs" unfolding m_def by (rule Least_le) (rule ex)
  have before: "4064 < cells_size (drop (m - 1) cs)" if "a < m"
    using not_less_Least [of "m - 1" "\<lambda>m. a \<le> m \<and> cells_size (drop m cs) \<le> 4064"] that by (auto simp: m_def)
  have "cells_size (take m cs) \<le> 2080"
  proof (cases "a < m")
    case True
    then have "cells_size (take (m - 1) cs) < 1040"
      using before cells_size_take_drop [of "m - 1" cs] assms(2) by simp
    moreover have "cells_size (take m cs) = cells_size (take (m - 1) cs) + length (cs ! (m - 1)) + 4"
      using cells_size_take_Suc [of "m - 1" cs] True le by simp
    moreover have "length (cs ! (m - 1)) \<le> 1036" using assms(1) True le by simp
    ultimately show ?thesis by simp
  next
    case False
    then show ?thesis using m(1) assms(4) by simp
  qed
  then show ?thesis using m le before by blast
qed

lemma cut_ok_sizes:
  assumes "m < length cs"
  shows "cut_ok promote (cells_size cs) (length cs) 0 0 (map cell_size cs) m \<longleftrightarrow>
     (promote \<or> m + 1 < length cs) \<and> cells_size (take (if promote then m else Suc m) cs) \<le> USABLE_SPACE \<and>
     cells_size (drop (Suc m) cs) \<le> USABLE_SPACE"
proof -
  have "cells_size cs - cells_size (take (Suc m) cs) = cells_size (drop (Suc m) cs)"
    using cells_size_take_drop [of "Suc m" cs] by simp
  then show ?thesis using assms by (auto simp: cut_ok_def take_map cells_size_def [symmetric])
qed

lemma split_point_cases:
  assumes "\<exists>j. cut_ok promote (cells_size cs) (length cs) 0 0 (map cell_size cs) j"
  obtains j where "split_point cs promote = Some (cut_at promote 0 j)" "j < length cs"
    "cut_ok promote (cells_size cs) (length cs) 0 0 (map cell_size cs) j"
proof -
  have "split_scan promote (cells_size cs) (length cs) 0 0 (map cell_size cs) None \<noteq> None"
    using split_scan_complete assms by blast
  then obtain b m where s: "split_scan promote (cells_size cs) (length cs) 0 0 (map cell_size cs) None = Some (b, m)"
    by auto
  then obtain j where j: "cut_ok promote (cells_size cs) (length cs) 0 0 (map cell_size cs) j" "m = cut_at promote 0 j"
    using split_scan_sound by blast
  have "split_point cs promote = Some m" using s by (simp add: split_point_def cells_size_def)
  then show thesis using that j by (simp add: cut_ok_def)
qed

lemma split_point_leaf:
  assumes "2 \<le> length cs" "\<forall>c \<in> set cs. length c \<le> 1036" "cells_size cs \<le> 4064 + 1040"
  obtains m where "split_point cs False = Some m" "0 < m" "m < length cs"
    "cells_size (take m cs) \<le> USABLE_SPACE" "cells_size (drop m cs) \<le> USABLE_SPACE"
proof -
  have one: "cells_size (take 1 cs) \<le> 2080" using assms(1,2) by (cases cs) auto
  have len: "1 \<le> length cs" using assms(1) by simp
  obtain m where m: "1 \<le> m" "m \<le> length cs" "cells_size (drop m cs) \<le> 4064" "cells_size (take m cs) \<le> 2080"
      "1 < m \<longrightarrow> 4064 < cells_size (drop (m - 1) cs)"
    using first_fit [OF assms(2,3) len one] by blast
  have "m \<noteq> length cs"
  proof
    assume e: "m = length cs"
    then have "drop (m - 1) cs = [last cs]" using assms(1) by (metis append_butlast_last_id append_eq_conv_conj
        diff_le_self le_zero_eq length_butlast list.size(3) not_numeral_le_zero)
    moreover have "length (last cs) \<le> 1036" using assms(1,2) by (cases cs rule: rev_cases) auto
    ultimately show False using m(5) e assms(1) by simp
  qed
  then have "cut_ok False (cells_size cs) (length cs) 0 0 (map cell_size cs) (m - 1)"
    using cut_ok_sizes [of "m - 1" cs False] m by (simp add: page_consts)
  then obtain j where j: "split_point cs False = Some (cut_at False 0 j)" "j < length cs"
      "cut_ok False (cells_size cs) (length cs) 0 0 (map cell_size cs) j"
    using split_point_cases by blast
  then show thesis using that [of "Suc j"] cut_ok_sizes [of j cs False] by (simp add: cut_at_def)
qed

lemma split_point_inner:
  assumes "cs \<noteq> []" "\<forall>c \<in> set cs. length c \<le> 1036" "cells_size cs \<le> 4064 + 1040"
  obtains m where "split_point cs True = Some m" "m < length cs"
    "cells_size (take m cs) \<le> USABLE_SPACE" "cells_size (drop (Suc m) cs) \<le> USABLE_SPACE"
proof -
  have one: "cells_size (take 1 cs) \<le> 2080" using assms(1,2) by (cases cs) auto
  have len: "1 \<le> length cs" using assms(1) by (cases cs) auto
  obtain m where m: "1 \<le> m" "m \<le> length cs" "cells_size (drop m cs) \<le> 4064" "cells_size (take m cs) \<le> 2080"
    using first_fit [OF assms(2,3) len one] by blast
  have "cells_size (take (m - 1) cs) \<le> cells_size (take m cs)"
    using cells_size_take_Suc [of "m - 1" cs] m by simp
  then have "cut_ok True (cells_size cs) (length cs) 0 0 (map cell_size cs) (m - 1)"
    using cut_ok_sizes [of "m - 1" cs True] m by (simp add: page_consts)
  then obtain j where j: "split_point cs True = Some (cut_at True 0 j)" "j < length cs"
      "cut_ok True (cells_size cs) (length cs) 0 0 (map cell_size cs) j"
    using split_point_cases by blast
  then show thesis using that [of j] cut_ok_sizes [of j cs True] by (simp add: cut_at_def)
qed

section \<open>Filling pages\<close>

lemma page_wf_used: "page_wf q \<Longrightarrow> cells_size (cells q) \<le> USABLE_SPACE"
  using free_space_le [of q] by (simp add: used_bytes_size)

lemma page_wf_length: "page_wf q \<Longrightarrow> length q = 4096"
  by (simp add: page_wf_def slots_ok_def page_consts)

lemma insert_cells_ok:
  assumes "page_wf q" "cells_size (cells q) + cells_size cs \<le> USABLE_SPACE" "n = num_keys q"
  shows "\<exists>q'. insert_cells q n cs = Inr q' \<and> page_wf q' \<and> cells q' = cells q @ cs \<and> header_rest q' = header_rest q"
  using assms
proof (induction cs arbitrary: q n)
  case (Cons c cs)
  have "used_bytes q + length c + SLOT_SIZE \<le> USABLE_SPACE"
    using Cons.prems(2) by (simp add: used_bytes_size page_consts)
  then obtain q1 where q1: "insert_cell_at q n c = Inr q1" "page_wf q1"
      "cells q1 = take n (cells q) @ c # drop n (cells q)" "header_rest q1 = header_rest q"
    using insert_cell_at_ok [OF Cons.prems(1), of n c] Cons.prems(3) by auto
  have c1: "cells q1 = cells q @ [c]" using q1(3) Cons.prems(3) by simp
  then have n1: "Suc n = num_keys q1" using Cons.prems(3) length_cells [of q1] by simp
  have "cells_size (cells q1) + cells_size cs \<le> USABLE_SPACE" using Cons.prems(2) c1 by simp
  from Cons.IH [OF q1(2) this n1] show ?case using q1(1,4) c1 by auto
qed simp

lemma fill_cleared:
  assumes "page_wf q" "cells_size cs \<le> USABLE_SPACE"
  obtains q' where "insert_cells (clear_cells q) 0 cs = Inr q'" "page_wf q'" "cells q' = cs" "header_rest q' = header_rest q"
proof -
  note c = clear_cells_wf [OF page_wf_length [OF assms(1)]]
  have "num_keys (clear_cells q) = 0" using c(2) length_cells [of "clear_cells q"] by simp
  then show thesis
    using insert_cells_ok [OF c(1), of cs 0] c(2,3) assms(2) that by auto
qed

lemma fill_new:
  assumes "length buf = 4096" "cells_size cs \<le> USABLE_SPACE" "page_wf q" "cells q = []"
  obtains q' where "insert_cells q 0 cs = Inr q'" "page_wf q'" "cells q' = cs" "header_rest q' = header_rest q"
proof -
  have "num_keys q = 0" using assms(4) length_cells [of q] by simp
  then show thesis using insert_cells_ok [OF assms(3), of cs 0] assms(2,4) that by auto
qed

lemma set_extra_fields:
  assumes "page_wf q" "v < 4294967296"
  shows "page_wf (set_extra q v)" "cells (set_extra q v) = cells q" "extra (set_extra q v) = v"
    "page_id (set_extra q v) = page_id q" "page_type (set_extra q v) = page_type q"
    "is_leaf (set_extra q v) = is_leaf q"
proof -
  have len: "length q = 4096" by (rule page_wf_length [OF assms(1)])
  have hdr: "num_keys (set_extra q v) = num_keys q" "cell_start (set_extra q v) = cell_start q"
    "slot_off (set_extra q v) i = slot_off q i" "slot_len (set_extra q v) i = slot_len q i" for i
    using len by (simp_all add: set_extra_def num_keys_def cell_start_def slot_off_def slot_len_def page_consts buf_simps)
  have ok: "slots_ok q" using assms(1) by (simp add: page_wf_def)
  then have ok': "slots_ok (set_extra q v)"
    using len by (simp add: slots_ok_def hdr) (simp add: set_extra_def page_consts buf_simps)
  have cell: "cell_bytes (set_extra q v) i = cell_bytes q i" if "i < num_keys q" for i
  proof -
    have "32 \<le> slot_off q i" using ok that by (auto simp: slots_ok_def page_consts)
    then show ?thesis
      unfolding cell_bytes_def hdr using len by (simp add: set_extra_def page_consts buf_simps)
  qed
  show c: "cells (set_extra q v) = cells q" using cell by (simp add: cells_def hdr)
  show "page_wf (set_extra q v)" using assms(1) ok' c by (simp add: page_wf_def live_bytes_def hdr)
  show "extra (set_extra q v) = v" "page_id (set_extra q v) = page_id q" "page_type (set_extra q v) = page_type q"
    "is_leaf (set_extra q v) = is_leaf q"
    using len assms(2) by (simp_all add: set_extra_def extra_def page_id_def page_type_def is_leaf_def page_consts buf_simps)
qed

end
