(* ===== verification/BTree_Insert.thy ===== *)
theory BTree_Insert
  imports BTree_Split
begin

text \<open>
  Insertion. A leaf page is edited in memory and staged at the end: \<open>hold_leaf\<close> describes the
  state with the edited page in hand. The result of inserting into a subtree is one tree or,
  after a split, two with a separator: \<open>grown\<close>. Everything outside the pages of the subtree
  and the unowned pages is left alone (\<open>moved\<close>).
\<close>

definition moved :: "(bytes \<Rightarrow> u32) \<Rightarrow> pager \<Rightarrow> nat set \<Rightarrow> pager \<Rightarrow> bool" where
  "moved crc p U p' \<longleftrightarrow>
     (\<forall>j. j \<notin> U \<longrightarrow> pview crc p' j = pview crc p j) \<and> tmeta (pg_meta p') = tmeta (pg_meta p)"

lemma moved_refl: "moved crc p U p"
  by (simp add: moved_def)

lemma moved_trans: "moved crc p U p1 \<Longrightarrow> moved crc p1 U' p2 \<Longrightarrow> U' \<subseteq> U \<Longrightarrow> moved crc p U p2"
  by (auto simp: moved_def)

lemma moved_same: "same_view crc p p' \<Longrightarrow> moved crc p U p'"
  by (simp add: moved_def same_view_def)

lemma moved_write:
  assumes "heap_ok crc p A" "length q = 4096" "page_id q \<notin> A" "page_id q \<noteq> 0" "page_id q \<in> U"
  shows "moved crc p U (write_page q p)"
  using heap_write [OF assms(1-4)] assms(5) by (auto simp: moved_def)

section \<open>A leaf in hand\<close>

definition hold_leaf ::
  "(bytes \<Rightarrow> u32) \<Rightarrow> pager \<Rightarrow> nat set \<Rightarrow> bytes \<Rightarrow> bytes option \<Rightarrow> nat \<Rightarrow> nat \<Rightarrow> page \<Rightarrow> entry list \<Rightarrow> bool" where
  "hold_leaf crc p A lo hi nxt i q es \<longleftrightarrow>
     heap_ok crc p A \<and> leaf_page q \<and> page_id q = i \<and> cells q = map entry_cell es \<and> extra q = nxt \<and>
     (\<forall>e \<in> set es. entry_ok (pview crc p) e \<and> lo \<le> fst e \<and> lt_hi (fst e) hi) \<and> sorted_wrt (<) (map fst es) \<and>
     distinct (pages (Lf i es)) \<and> set (pages (Lf i es)) \<inter> A = {} \<and> 0 \<notin> set (pages (Lf i es))"

lemma hold_leafI:
  assumes "tree_at crc p A lo hi nxt (Lf i es)" "pview crc p i = Some q"
  shows "hold_leaf crc p A lo hi nxt i q es"
proof -
  have "page_id q = i" using pview_fields(2) [OF tree_atD(6) [OF assms(1)] assms(2)] .
  then show ?thesis using tree_atD [OF assms(1)] assms(2) unfolding hold_leaf_def by (auto elim!: shape_LfE)
qed

lemma hold_leaf_write:
  assumes "hold_leaf crc p A lo hi nxt i q es"
  shows "tree_at crc (write_page q p) A lo hi nxt (Lf i es)"
    "pview crc (write_page q p) = (pview crc p)(i := Some q)" "pg_meta (write_page q p) = pg_meta p"
    "pg_disk (write_page q p) = pg_disk p"
proof -
  have h: "heap_ok crc p A" "leaf_page q" "page_id q = i" "cells q = map entry_cell es" "extra q = nxt"
    "\<forall>e \<in> set es. entry_ok (pview crc p) e \<and> lo \<le> fst e \<and> lt_hi (fst e) hi" "sorted_wrt (<) (map fst es)"
    "distinct (pages (Lf i es))" "set (pages (Lf i es)) \<inter> A = {}" "0 \<notin> set (pages (Lf i es))"
    using assms by (auto simp: hold_leaf_def)
  have len: "length q = 4096" using h(2) page_wf_length by (simp add: leaf_page_def)
  have i: "page_id q \<notin> A" "page_id q \<noteq> 0" using h(3,9,10) by auto
  note w = heap_write [OF h(1) len i]
  show "pview crc (write_page q p) = (pview crc p)(i := Some q)" "pg_meta (write_page q p) = pg_meta p"
    "pg_disk (write_page q p) = pg_disk p"
    using w h(3) by auto
  have "entry_ok (pview crc (write_page q p)) e" if "e \<in> set es" for e
    by (rule entry_ok_cong [of _ _ "pview crc p"]) (use that h in \<open>auto simp: w(2)\<close>)
  then have "shape (pview crc (write_page q p)) lo hi nxt (Lf i es)"
    using h w(2) by (auto intro!: shape_leaf [where q = q])
  then show "tree_at crc (write_page q p) A lo hi nxt (Lf i es)"
    using w(1) h by (simp add: tree_at_def)
qed

lemma hold_leaf_frame:
  assumes "hold_leaf crc p A lo hi nxt i q es" "heap_ok crc p' A'" "set (pages (Lf i es)) \<inter> A' = {}"
    and "\<And>j. j \<in> set (concat (map entry_pages es)) \<Longrightarrow> pview crc p' j = pview crc p j"
  shows "hold_leaf crc p' A' lo hi nxt i q es"
proof -
  have "entry_ok (pview crc p') e" if "e \<in> set es" for e
    by (rule entry_ok_cong [of _ _ "pview crc p"]) (use that assms in \<open>auto simp: hold_leaf_def\<close>)
  then show ?thesis using assms(1-3) by (simp add: hold_leaf_def)
qed

text \<open>Edits of the page in hand that keep its header.\<close>

lemma hold_leaf_edit:
  assumes "hold_leaf crc p A lo hi nxt i q es" "page_wf q'" "header_rest q' = header_rest q" "cells q' = map entry_cell es'"
    and "\<forall>e \<in> set es'. entry_ok (pview crc p) e \<and> lo \<le> fst e \<and> lt_hi (fst e) hi" "sorted_wrt (<) (map fst es')"
    and "distinct (pages (Lf i es'))" "set (pages (Lf i es')) \<inter> A = {}" "0 \<notin> set (pages (Lf i es'))"
  shows "hold_leaf crc p A lo hi nxt i q' es'"
  using assms header_restD [OF assms(3)] by (simp add: hold_leaf_def leaf_page_def)

section \<open>Positions\<close>

lemma bm_put_position:
  "key \<notin> fst ` set m \<Longrightarrow> bm_put key v m = take (position (map fst m) key) m @ (key, v) # drop (position (map fst m) key) m"
  by (induction m) (auto simp: position_def)

lemma bm_put_del: "bm_ok m \<Longrightarrow> bm_put k v (bm_del k m) = bm_put k v m"
  by (rule bm_ext) auto

lemma position_filter:
  "sorted_wrt (<) (map fst es) \<Longrightarrow> position (map fst (filter (\<lambda>e. fst e \<noteq> key) es)) key = position (map fst es) key"
  for key :: bytes
proof (induction es)
  case (Cons e es)
  show ?case
  proof (cases "fst e < key")
    case True
    then show ?thesis using Cons by (simp add: position_def)
  next
    case False
    have "\<forall>x \<in> set es. \<not> fst x < key" using Cons.prems False by auto
    then have "takeWhile (\<lambda>k. k < key) (map fst (filter (\<lambda>e. fst e \<noteq> key) es)) = []"
      using hd_in_set [of "filter (\<lambda>e. fst e \<noteq> key) es"] by (auto simp: takeWhile_eq_Nil_iff hd_map)
    then show ?thesis using False by (simp add: position_def)
  qed
qed simp

lemma filter_nth_removed:
  fixes key :: bytes
  assumes "sorted_wrt (<) (map fst es)" "j < length es" "fst (es ! j) = key"
  shows "filter (\<lambda>e. fst e \<noteq> key) es = take j es @ drop (Suc j) es"
proof -
  have lo: "fst e < key" if "e \<in> set (take j es)" for e
    using that assms by (fastforce simp: in_set_conv_nth sorted_wrt_iff_nth_less)
  have hi: "key < fst e" if "e \<in> set (drop (Suc j) es)" for e
    using that assms by (fastforce simp: in_set_conv_nth sorted_wrt_iff_nth_less)
  have "filter (\<lambda>e. fst e \<noteq> key) es = filter (\<lambda>e. fst e \<noteq> key) (take j es @ es ! j # drop (Suc j) es)"
    using id_take_nth_drop [OF assms(2)] by simp
  also have "\<dots> = take j es @ drop (Suc j) es"
  proof -
    have "\<forall>e \<in> set (take j es). fst e \<noteq> key" using lo by (metis less_irrefl)
    moreover have "\<forall>e \<in> set (drop (Suc j) es). fst e \<noteq> key" using hi by (metis less_irrefl)
    ultimately have "filter (\<lambda>e. fst e \<noteq> key) (take j es) = take j es"
      "filter (\<lambda>e. fst e \<noteq> key) (drop (Suc j) es) = drop (Suc j) es"
      by (simp_all only: filter_id_conv)
    then show ?thesis using assms(3) by simp
  qed
  finally show ?thesis .
qed

lemma bm_del_entries: "map entry_kv (filter (\<lambda>e. fst e \<noteq> key) es) = bm_del key (map entry_kv es)"
  by (induction es) (auto simp: bm_del_def entry_kv_def)

section \<open>Removing the old entry\<close>

lemma removed_leaf:
  assumes "hold_leaf crc p A lo hi nxt i q es" "j < length es" "fst (es ! j) = key"
  defines "es' \<equiv> filter (\<lambda>e. fst e \<noteq> key) es"
  shows "set (entry_pages (es ! j)) \<inter> set (pages (Lf i es')) = {}" "distinct (entry_pages (es ! j))"
    "set (pages (Lf i es)) = set (pages (Lf i es')) \<union> set (entry_pages (es ! j))"
    "distinct (pages (Lf i es'))"
proof -
  have s: "sorted_wrt (<) (map fst es)" and d: "distinct (pages (Lf i es))"
    using assms(1) by (auto simp: hold_leaf_def)
  have es': "es' = take j es @ drop (Suc j) es" unfolding es'_def by (rule filter_nth_removed [OF s assms(2,3)])
  have "distinct (pages (Lf i (take j es @ es ! j # drop (Suc j) es)))"
    using d id_take_nth_drop [OF assms(2)] by simp
  then show "set (entry_pages (es ! j)) \<inter> set (pages (Lf i es')) = {}" "distinct (entry_pages (es ! j))"
    "distinct (pages (Lf i es'))" unfolding es' by auto
  have "set (pages (Lf i es)) = set (pages (Lf i (take j es @ es ! j # drop (Suc j) es)))"
    using id_take_nth_drop [OF assms(2)] by simp
  then show "set (pages (Lf i es)) = set (pages (Lf i es')) \<union> set (entry_pages (es ! j))" unfolding es' by auto
qed

lemma free_entry_wp:
  assumes "heap_ok crc p A" "entry_ok (pview crc p) e" "distinct (entry_pages e)" "set (entry_pages e) \<inter> A = {}"
    and "0 \<notin> set (entry_pages e)"
  shows "wp (case lc_overflow (lc_of e) of Some head \<Rightarrow> free_overflow_chain crc head | None \<Rightarrow> sret ())
     (\<lambda>_ p'. heap_ok crc p' (A \<union> set (entry_pages e)) \<and> moved crc p (set (entry_pages e)) p') R p"
proof -
  obtain k v ov where e: "e = (k, v, ov)" by (cases e)
  show ?thesis
  proof (cases ov)
    case None
    then show ?thesis using assms(1) by (simp add: e lc_of_def entry_pages_def wp_def moved_refl)
  next
    case (Some os)
    then have "wp (free_overflow_chain crc (ov_head os)) (\<lambda>_ p'. heap_ok crc p' (A \<union> set os) \<and>
        (\<forall>j. j \<notin> set os \<longrightarrow> pview crc p' j = pview crc p j) \<and> tmeta (pg_meta p') = tmeta (pg_meta p)) R p"
      using assms by (intro free_overflow_chain_wp [where v = v]) (auto simp: e entry_pages_def entry_ok_def)
    then show ?thesis using Some by (simp add: e lc_of_def entry_pages_def moved_def)
  qed
qed

lemma remove_entry_wp:
  assumes h: "hold_leaf crc p A lo hi nxt i q es" and j: "j < length es" "fst (es ! j) = key"
  defines "es' \<equiv> filter (\<lambda>e. fst e \<noteq> key) es"
  shows "wp (sbind (case lc_overflow (lc_of (es ! j)) of Some head \<Rightarrow> free_overflow_chain crc head | None \<Rightarrow> sret ())
       (\<lambda>_. slift (remove_cell_at q j)))
     (\<lambda>q' p'. hold_leaf crc p' (A \<union> set (entry_pages (es ! j))) lo hi nxt i q' es' \<and>
        moved crc p (set (entry_pages (es ! j))) p') R p"
proof (rule wp_step [OF free_entry_wp [of crc p A "es ! j"]])
  let ?e = "es ! j"
  note r = removed_leaf [OF h j, folded es'_def]
  have hl: "heap_ok crc p A" "leaf_page q" "cells q = map entry_cell es" "sorted_wrt (<) (map fst es)"
    "\<forall>e \<in> set es. entry_ok (pview crc p) e \<and> lo \<le> fst e \<and> lt_hi (fst e) hi"
    "set (pages (Lf i es)) \<inter> A = {}" "0 \<notin> set (pages (Lf i es))"
    using h by (auto simp: hold_leaf_def)
  show "heap_ok crc p A" by (rule hl)
  show "entry_ok (pview crc p) ?e" using hl(5) j(1) by simp
  show "distinct (entry_pages ?e)" by (rule r)
  have sub: "set (entry_pages ?e) \<subseteq> set (pages (Lf i es))" unfolding r(3) by blast
  show "set (entry_pages ?e) \<inter> A = {}" "0 \<notin> set (entry_pages ?e)" using hl(6,7) sub by blast+
  fix u p1 assume p1: "heap_ok crc p1 (A \<union> set (entry_pages ?e)) \<and> moved crc p (set (entry_pages ?e)) p1"
  have n: "j < num_keys q" using j(1) hl(3) num_keys_cells [of q] by simp
  have wf: "page_wf q" using hl(2) by (simp add: leaf_page_def)
  obtain q' where q': "remove_cell_at q j = Inr q'" "page_wf q'" "cells q' = take j (cells q) @ drop (Suc j) (cells q)"
      "header_rest q' = header_rest q"
    using remove_cell_at_spec [OF wf n] by blast
  have es': "es' = take j es @ drop (Suc j) es" unfolding es'_def by (rule filter_nth_removed [OF hl(4) j])
  have "hold_leaf crc p A lo hi nxt i q' es'"
  proof (rule hold_leaf_edit [OF h q'(2,4)])
    show "cells q' = map entry_cell es'" using q'(3) hl(3) by (simp add: es' take_map drop_map)
    show "\<forall>e \<in> set es'. entry_ok (pview crc p) e \<and> lo \<le> fst e \<and> lt_hi (fst e) hi" using hl(5) by (simp add: es'_def)
    show "sorted_wrt (<) (map fst es')"
      using hl(4) unfolding es'_def sorted_wrt_map by (rule sorted_wrt_filter)
    show "distinct (pages (Lf i es'))" by (rule r)
    show "set (pages (Lf i es')) \<inter> A = {}" "0 \<notin> set (pages (Lf i es'))" using hl(6,7) unfolding r(3) by blast+
  qed
  then have "hold_leaf crc p1 (A \<union> set (entry_pages ?e)) lo hi nxt i q' es'"
    by (rule hold_leaf_frame) (use p1 r hl(6) in \<open>auto simp: moved_def\<close>)
  then show "wp (slift (remove_cell_at q j)) (\<lambda>q' p'. hold_leaf crc p' (A \<union> set (entry_pages ?e)) lo hi nxt i q' es' \<and>
        moved crc p (set (entry_pages ?e)) p') R p1"
    using p1 by (intro wp_slift [OF q'(1)]) simp
qed

section \<open>The new cell\<close>

lemma new_cell_wp:
  assumes h: "hold_leaf crc p A lo hi nxt i q es" and "length key \<le> MAX_KEY_SIZE" "length val < 4294967296"
  shows "wp (if length val \<le> MAX_INLINE_VALUE \<and> 8 + length key + length val \<le> MAX_INLINE_CELL
        then sret (encode_leaf_cell key val (length val) None)
        else sbind (write_overflow_chain crc val) (\<lambda>head. sret (encode_leaf_cell key [] (length val) (Some head))))
     (\<lambda>c p'. \<exists>e. c = entry_cell e \<and> fst e = key \<and> entry_kv e = (key, val) \<and> entry_ok (pview crc p') e \<and>
        distinct (entry_pages e) \<and> set (entry_pages e) \<subseteq> A \<and>
        hold_leaf crc p' (A - set (entry_pages e)) lo hi nxt i q es \<and> moved crc p A p') R p"
proof (rule wp_if)
  assume "length val \<le> MAX_INLINE_VALUE \<and> 8 + length key + length val \<le> MAX_INLINE_CELL"
  then show "wp (sret (encode_leaf_cell key val (length val) None))
     (\<lambda>c p'. \<exists>e. c = entry_cell e \<and> fst e = key \<and> entry_kv e = (key, val) \<and> entry_ok (pview crc p') e \<and>
        distinct (entry_pages e) \<and> set (entry_pages e) \<subseteq> A \<and>
        hold_leaf crc p' (A - set (entry_pages e)) lo hi nxt i q es \<and> moved crc p A p') R p"
    using h assms(2,3)
    by (intro wp_sret exI [of _ "(key, val, None)"])
       (simp add: entry_cell_def entry_ok_def entry_pages_def entry_kv_def moved_refl)
next
  have hl: "heap_ok crc p A" "set (pages (Lf i es)) \<inter> A = {}" using h by (auto simp: hold_leaf_def)
  show "wp (sbind (write_overflow_chain crc val) (\<lambda>head. sret (encode_leaf_cell key [] (length val) (Some head))))
     (\<lambda>c p'. \<exists>e. c = entry_cell e \<and> fst e = key \<and> entry_kv e = (key, val) \<and> entry_ok (pview crc p') e \<and>
        distinct (entry_pages e) \<and> set (entry_pages e) \<subseteq> A \<and>
        hold_leaf crc p' (A - set (entry_pages e)) lo hi nxt i q es \<and> moved crc p A p') R p"
  proof (rule wp_step [OF write_overflow_chain_wp [OF hl(1)]], elim exE conjE)
    fix head p' os
    assume os: "distinct os" "chain_len os val" "set os \<subseteq> A" "heap_ok crc p' (A - set os)"
      "chain_at (pview crc p') head os val" "\<forall>j. j \<notin> A \<longrightarrow> pview crc p' j = pview crc p j"
      "tmeta (pg_meta p') = tmeta (pg_meta p)"
    have head: "head = ov_head os" using os(5) by (cases os) (auto simp: ov_head_def)
    have "hold_leaf crc p' (A - set os) lo hi nxt i q es"
      by (rule hold_leaf_frame [OF h os(4)]) (use hl(2) os(6) in auto)
    then show "wp (sret (encode_leaf_cell key [] (length val) (Some head)))
     (\<lambda>c p'. \<exists>e. c = entry_cell e \<and> fst e = key \<and> entry_kv e = (key, val) \<and> entry_ok (pview crc p') e \<and>
        distinct (entry_pages e) \<and> set (entry_pages e) \<subseteq> A \<and>
        hold_leaf crc p' (A - set (entry_pages e)) lo hi nxt i q es \<and> moved crc p A p') R p'"
      using os assms(2,3) head
      by (intro wp_sret exI [of _ "(key, val, Some os)"])
         (simp add: entry_cell_def entry_ok_def entry_pages_def entry_kv_def moved_def)
  qed
qed

section \<open>The result of inserting\<close>

definition pages_of :: "tree list \<Rightarrow> nat list" where
  "pages_of ts = concat (map pages ts)"

definition grown ::
  "(bytes \<Rightarrow> u32) \<Rightarrow> pager \<Rightarrow> nat set \<Rightarrow> bytes \<Rightarrow> bytes option \<Rightarrow> nat \<Rightarrow> nat \<Rightarrow> nat \<Rightarrow> nat \<Rightarrow>
     (bytes \<times> bytes) list \<Rightarrow> split option \<Rightarrow> pager \<Rightarrow> bool" where
  "grown crc p U lo hi nxt i l ht es r p' \<longleftrightarrow>
     (\<exists>A' seps ts. heap_ok crc p' A' \<and> kids (shape (pview crc p')) lo hi nxt seps ts \<and>
        distinct (pages_of ts) \<and> set (pages_of ts) \<inter> A' = {} \<and> set (pages_of ts) \<union> A' = U \<and>
        concat (map entries ts) = es \<and> root_id (hd ts) = i \<and> lead (hd ts) = l \<and> (\<forall>t \<in> set ts. height t \<le> ht) \<and>
        (case r of None \<Rightarrow> seps = [] | Some sp \<Rightarrow> seps = [sp_key sp] \<and> root_id (ts ! 1) = sp_right sp)) \<and>
     moved crc p U p'"

lemma grown_moved:
  assumes "grown crc p1 U lo hi nxt i l ht es r p'" "moved crc p U p1"
  shows "grown crc p U lo hi nxt i l ht es r p'"
  using assms moved_trans [of crc p U p1 U p'] unfolding grown_def by blast

text \<open>A leaf with the new entry in hand, staged as it is or split in two.\<close>

definition with_entry ::
  "(bytes \<Rightarrow> u32) \<Rightarrow> pager \<Rightarrow> nat set \<Rightarrow> bytes \<Rightarrow> bytes option \<Rightarrow> nat \<Rightarrow> nat \<Rightarrow> page \<Rightarrow> entry list \<Rightarrow> entry \<Rightarrow> bool" where
  "with_entry crc p A lo hi nxt i q es e \<longleftrightarrow>
     hold_leaf crc p A lo hi nxt i q es \<and> entry_ok (pview crc p) e \<and> lo \<le> fst e \<and> lt_hi (fst e) hi \<and>
     fst e \<notin> fst ` set es \<and> distinct (entry_pages e) \<and>
     set (entry_pages e) \<inter> (set (pages (Lf i es)) \<union> A \<union> {0}) = {}"

definition put_entry :: "entry \<Rightarrow> entry list \<Rightarrow> entry list" where
  "put_entry e es = insert_nth (position (map fst es) (fst e)) e es"

lemma insert_nth_map: "map f (insert_nth n x xs) = insert_nth n (f x) (map f xs)"
  by (simp add: insert_nth_def take_map drop_map)

lemma set_insert_nth: "set (insert_nth n x xs) = insert x (set xs)"
  unfolding insert_nth_def by (metis append_take_drop_id insert_is_Un list.simps(15) set_append Un_insert_right)

lemma length_insert_nth: "length (insert_nth n x xs) = Suc (length xs)"
  by (simp add: insert_nth_def)

lemma put_entry_kv:
  assumes "fst e \<notin> fst ` set es"
  shows "map entry_kv (put_entry e es) = bm_put (fst e) (fst (snd e)) (map entry_kv es)"
proof -
  have eq: "map fst (map entry_kv es) = map fst es" by (simp add: entry_kv_def)
  have k: "fst e \<notin> fst ` set (map entry_kv es)" using assms by (auto simp: entry_kv_def image_iff)
  have kv: "entry_kv e = (fst e, fst (snd e))" by (simp add: entry_kv_def)
  show ?thesis
    unfolding put_entry_def bm_put_position [OF k] eq insert_nth_def by (simp add: take_map drop_map kv)
qed

lemma put_entry_sorted:
  assumes "fst e \<notin> fst ` set es" "sorted_wrt (<) (map fst es)"
  shows "sorted_wrt (<) (map fst (put_entry e es))"
proof -
  have ok: "bm_ok (map entry_kv es)" using assms(2) by (simp add: bm_ok_def entry_kv_def comp_def)
  have "map fst (put_entry e es) = map fst (map entry_kv (put_entry e es))" by (simp add: entry_kv_def)
  also have "\<dots> = map fst (bm_put (fst e) (fst (snd e)) (map entry_kv es))" by (simp only: put_entry_kv [OF assms(1)])
  finally show ?thesis using bm_put_ok [OF ok] by (simp add: bm_ok_def)
qed

lemma put_entry_pages:
  "set (pages (Lf i (put_entry e es))) = set (pages (Lf i es)) \<union> set (entry_pages e)"
  "distinct (pages (Lf i (put_entry e es))) \<longleftrightarrow>
     distinct (pages (Lf i es)) \<and> distinct (entry_pages e) \<and> set (entry_pages e) \<inter> set (pages (Lf i es)) = {}"
proof -
  have s: "set (put_entry e es) = insert e (set es)" by (simp add: put_entry_def set_insert_nth)
  then show "set (pages (Lf i (put_entry e es))) = set (pages (Lf i es)) \<union> set (entry_pages e)" by auto
  define n where "n = position (map fst es) (fst e)"
  have "distinct (concat (map entry_pages (take n es @ e # drop n es))) \<longleftrightarrow>
      distinct (entry_pages e) \<and> set (entry_pages e) \<inter> set (concat (map entry_pages (take n es @ drop n es))) = {} \<and>
      distinct (concat (map entry_pages (take n es @ drop n es)))"
    unfolding map_append concat_append list.map concat.simps distinct_append set_append by blast
  then have "distinct (concat (map entry_pages (put_entry e es))) \<longleftrightarrow>
      distinct (entry_pages e) \<and> set (entry_pages e) \<inter> set (concat (map entry_pages es)) = {} \<and>
      distinct (concat (map entry_pages es))"
    by (simp only: put_entry_def insert_nth_def n_def [symmetric] append_take_drop_id)
  moreover have "set (concat (map entry_pages (put_entry e es))) = set (concat (map entry_pages es)) \<union> set (entry_pages e)"
    using s by auto
  ultimately show "distinct (pages (Lf i (put_entry e es))) \<longleftrightarrow>
     distinct (pages (Lf i es)) \<and> distinct (entry_pages e) \<and> set (entry_pages e) \<inter> set (pages (Lf i es)) = {}"
    by auto
qed

lemma with_entry_leaf:
  assumes "with_entry crc p A lo hi nxt i q es e" "page_wf q'" "header_rest q' = header_rest q"
    and "cells q' = map entry_cell (put_entry e es)"
  shows "hold_leaf crc p A lo hi nxt i q' (put_entry e es)"
proof -
  have h: "hold_leaf crc p A lo hi nxt i q es" "entry_ok (pview crc p) e" "lo \<le> fst e" "lt_hi (fst e) hi"
      "fst e \<notin> fst ` set es" "distinct (entry_pages e)" "set (entry_pages e) \<inter> (set (pages (Lf i es)) \<union> A \<union> {0}) = {}"
    using assms(1) by (auto simp: with_entry_def)
  have hl: "\<forall>e \<in> set es. entry_ok (pview crc p) e \<and> lo \<le> fst e \<and> lt_hi (fst e) hi" "sorted_wrt (<) (map fst es)"
    "distinct (pages (Lf i es))" "set (pages (Lf i es)) \<inter> A = {}" "0 \<notin> set (pages (Lf i es))"
    using h(1) by (auto simp: hold_leaf_def)
  show ?thesis
  proof (rule hold_leaf_edit [OF h(1) assms(2-4)])
    show "\<forall>e \<in> set (put_entry e es). entry_ok (pview crc p) e \<and> lo \<le> fst e \<and> lt_hi (fst e) hi"
      using hl(1) h(2-4) by (simp add: put_entry_def set_insert_nth)
    show "sorted_wrt (<) (map fst (put_entry e es))" by (rule put_entry_sorted [OF h(5) hl(2)])
    show "distinct (pages (Lf i (put_entry e es)))" unfolding put_entry_pages using hl(3) h(6,7) by blast
    show "set (pages (Lf i (put_entry e es))) \<inter> A = {}" "0 \<notin> set (pages (Lf i (put_entry e es)))"
      unfolding put_entry_pages using hl(4,5) h(7) by blast+
  qed
qed

text \<open>Staging a leaf finishes the insertion.\<close>

lemma stage_leaf_wp:
  assumes "hold_leaf crc p A lo hi nxt i q es" "set (pages (Lf i es)) \<union> A = U" "kvs = map entry_kv es"
  shows "wp (sbind (smod (write_page q)) (\<lambda>_. sret None)) (\<lambda>r p'. grown crc p U lo hi nxt i i 1 kvs r p') R p"
proof (rule wp_sbind_smod)
  note w = hold_leaf_write [OF assms(1)]
  note t = tree_atD [OF w(1)]
  have "kids (shape (pview crc (write_page q p))) lo hi nxt [] [Lf i es]" using t(2) by simp
  moreover have "moved crc p U (write_page q p)" using w(2,3) assms(2) by (auto simp: moved_def)
  ultimately have "grown crc p U lo hi nxt i i 1 kvs None (write_page q p)"
    unfolding grown_def pages_of_def lead_def using t assms(2,3)
    by (intro conjI exI [of _ A] exI [of _ "[]"] exI [of _ "[Lf i es]"]) auto
  then show "wp (sret None) (\<lambda>r p'. grown crc p U lo hi nxt i i 1 kvs r p') R (write_page q p)" by (rule wp_sret)
  show "pg_disk (write_page q p) = pg_disk p" by (rule w)
qed

end
