(* ===== verification/BTree_Leaf.thy ===== *)
theory BTree_Leaf
  imports BTree_Insert
begin

text \<open>
  Inserting into a leaf: the split of a full leaf and the whole of \<open>insert_into_leaf\<close>.
\<close>

section \<open>Splitting a leaf\<close>

lemma page_new_leaf:
  assumes "length buf = 4096" "i < 4294967296" "n < 4294967296"
  shows "page_wf (set_extra (page_new buf i ty) n)" "cells (set_extra (page_new buf i ty) n) = []"
    "extra (set_extra (page_new buf i ty) n) = n" "page_id (set_extra (page_new buf i ty) n) = i"
    "page_type (set_extra (page_new buf i ty) n) = Inr ty" "is_leaf (set_extra (page_new buf i ty) n) = (ty = Leaf)"
  using set_extra_fields [OF page_new_wf(1) [OF assms(1)] assms(3)] page_new_wf(2) [OF assms(1)]
    page_new_fields [OF assms(1)] assms(2)
  by simp_all

lemma leaf_cut:
  assumes "page_wf q" "cs = insert_nth idx c (cells q)" "n = num_keys q" "0 < n" "idx \<le> n" "\<forall>c \<in> set cs. length c \<le> 1036"
  obtains m where "(if idx = n \<and> n > 0 \<and> b then Some n else split_point cs False) = Some m" "0 < m" "m < length cs"
    "cells_size (take m cs) \<le> USABLE_SPACE" "cells_size (drop m cs) \<le> USABLE_SPACE"
proof -
  have len: "length cs = Suc n" using assms(2,3) length_insert_nth [of idx c "cells q"] by simp
  have used: "cells_size (cells q) \<le> USABLE_SPACE" by (rule page_wf_used [OF assms(1)])
  have c: "length c \<le> 1036" using assms(2,6) by (simp add: set_insert_nth)
  have "cells_size cs = cells_size (take idx (cells q)) + (length c + 4 + cells_size (drop idx (cells q)))"
    by (simp add: assms(2) insert_nth_def)
  then have tot: "cells_size cs \<le> 4064 + 1040"
    using used c cells_size_take_drop [of idx "cells q"] by (simp add: page_consts)
  show thesis
  proof (cases "idx = n \<and> n > 0 \<and> b")
    case True
    then have "cs = cells q @ [c]" using assms(2,3) by (simp add: insert_nth_def)
    then show thesis using that [of n] True used c assms(3) len by (simp add: page_consts)
  next
    case False
    obtain m where "split_point cs False = Some m" "0 < m" "m < length cs"
        "cells_size (take m cs) \<le> USABLE_SPACE" "cells_size (drop m cs) \<le> USABLE_SPACE"
      using split_point_leaf [of cs] len assms(4,6) tot by auto
    then show thesis using that False by auto
  qed
qed

lemma sorted_cut:
  fixes es :: "entry list"
  assumes "sorted_wrt (<) (map fst es)" "0 < m" "m < length es"
  shows "\<forall>e \<in> set (take m es). fst e < fst (es ! m)" "\<forall>e \<in> set (drop m es). fst (es ! m) \<le> fst e"
proof -
  show "\<forall>e \<in> set (take m es). fst e < fst (es ! m)"
    using assms by (fastforce simp: in_set_conv_nth sorted_wrt_iff_nth_less)
  show "\<forall>e \<in> set (drop m es). fst (es ! m) \<le> fst e"
  proof
    fix e assume "e \<in> set (drop m es)"
    then obtain k where k: "k < length (drop m es)" "e = drop m es ! k" by (auto simp: in_set_conv_nth)
    then have e: "e = es ! (m + k)" "m + k < length es" by auto
    show "fst (es ! m) \<le> fst e"
    proof (cases k)
      case (Suc k')
      then have "map fst es ! m < map fst es ! (m + k)"
        using assms(1,3) e(2) unfolding sorted_wrt_iff_nth_less by auto
      then show ?thesis using e assms(3) by simp
    qed (use e in simp)
  qed
qed

text \<open>The entries of a leaf that is about to be split: what \<open>hold_leaf\<close> says without a page.\<close>

definition leaf_data ::
  "(bytes \<Rightarrow> u32) \<Rightarrow> pager \<Rightarrow> nat set \<Rightarrow> bytes \<Rightarrow> bytes option \<Rightarrow> nat \<Rightarrow> entry list \<Rightarrow> bool" where
  "leaf_data crc p A lo hi i es \<longleftrightarrow>
     heap_ok crc p A \<and> i \<notin> A \<and> (\<forall>e \<in> set es. entry_ok (pview crc p) e \<and> lo \<le> fst e \<and> lt_hi (fst e) hi) \<and>
     sorted_wrt (<) (map fst es) \<and> distinct (pages (Lf i es)) \<and> set (pages (Lf i es)) \<inter> A = {} \<and>
     0 \<notin> set (pages (Lf i es))"

lemma with_entry_data: "with_entry crc p A lo hi nxt i q es e \<Longrightarrow> leaf_data crc p A lo hi i (put_entry e es)"
  unfolding with_entry_def leaf_data_def hold_leaf_def put_entry_pages
  by (intro conjI put_entry_sorted) (auto simp: put_entry_def set_insert_nth)

lemma leaf_data_frame:
  assumes "leaf_data crc p A lo hi i es" "heap_ok crc p' A'" "set (pages (Lf i es)) \<inter> A' = {}"
    and "\<And>j. j \<in> set (pages (Lf i es)) \<Longrightarrow> pview crc p' j = pview crc p j"
  shows "leaf_data crc p' A' lo hi i es"
proof -
  have "entry_ok (pview crc p') e" if "e \<in> set es" for e
    by (rule entry_ok_cong [of _ _ "pview crc p"]) (use that assms(1,4) in \<open>auto simp: leaf_data_def\<close>)
  then show ?thesis using assms(1-3) unfolding leaf_data_def by auto
qed

text \<open>Staging the two halves.\<close>

lemma stage_halves_wp:
  assumes h: "leaf_data crc p A lo hi i es" and m: "0 < m" "m < length es"
    and r: "r \<notin> A" "r \<noteq> 0" "r \<notin> set (pages (Lf i es))"
    and l: "leaf_page ql" "page_id ql = i" "cells ql = map entry_cell (take m es)"
    and rt: "leaf_page qr" "page_id qr = r" "extra qr = nxt" "cells qr = map entry_cell (drop m es)"
    and U: "set (pages (Lf i es)) \<union> A \<union> {r} = U" "kvs = map entry_kv es" "sep = fst (es ! m)"
  shows "wp (sbind (smod (write_page (set_extra ql r))) (\<lambda>_. sbind (smod (write_page qr)) (\<lambda>_.
       sret (Some \<lparr>sp_key = sep, sp_right = r\<rparr>)))) (grown crc p U lo hi nxt i i 1 kvs) R p"
proof -
  have hl: "heap_ok crc p A" "sorted_wrt (<) (map fst es)"
    "\<forall>e \<in> set es. entry_ok (pview crc p) e \<and> lo \<le> fst e \<and> lt_hi (fst e) hi"
    "distinct (pages (Lf i es))" "set (pages (Lf i es)) \<inter> A = {}" "0 \<notin> set (pages (Lf i es))"
    using h by (auto simp: leaf_data_def)
  have r32: "r < 4294967296" by (rule owned_bound(1) [OF hl(1) r(1)])
  note cut = sorted_cut [OF hl(2) m]
  have sub: "set (take m es) \<subseteq> set es" "set (drop m es) \<subseteq> set es" by (auto dest: in_set_takeD in_set_dropD)
  have srt: "sorted_wrt (<) (map fst (take m es))" "sorted_wrt (<) (map fst (drop m es))"
    using hl(2) unfolding take_map [symmetric] drop_map [symmetric] by (auto intro: sorted_wrt_take sorted_wrt_drop)
  have cc: "concat (map entry_pages es) = concat (map entry_pages (take m es)) @ concat (map entry_pages (drop m es))"
    by (metis append_take_drop_id concat_append map_append)
  have pg: "set (concat (map entry_pages es)) = set (concat (map entry_pages (take m es))) \<union> set (concat (map entry_pages (drop m es)))"
    "distinct (i # concat (map entry_pages (take m es)))" "distinct (concat (map entry_pages (drop m es)))"
    "set (i # concat (map entry_pages (take m es))) \<inter> set (concat (map entry_pages (drop m es))) = {}"
    using hl(4) unfolding pages.simps cc by auto
  have lwf: "page_wf ql" using l(1) by (simp add: leaf_page_def)
  note ex = set_extra_fields [OF lwf r32]
  have lm: "es ! m \<in> set es" using m by simp
  have h1: "hold_leaf crc p A lo (Some sep) r i (set_extra ql r) (take m es)"
    unfolding hold_leaf_def
  proof (intro conjI)
    show "leaf_page (set_extra ql r)" "page_id (set_extra ql r) = i" using ex l(1,2) by (auto simp: leaf_page_def)
    show "\<forall>e \<in> set (take m es). entry_ok (pview crc p) e \<and> lo \<le> fst e \<and> lt_hi (fst e) (Some sep)"
      using hl(3) sub cut(1) U(3) by auto
    show "distinct (pages (Lf i (take m es)))" using pg(2) by simp
    show "set (pages (Lf i (take m es))) \<inter> A = {}" "0 \<notin> set (pages (Lf i (take m es)))"
      using hl(5,6) pg(1) unfolding pages.simps list.set by blast+
  qed (use hl(1) l(3) ex srt in auto)
  note w1 = hold_leaf_write [OF h1]
  let ?p1 = "write_page (set_extra ql r) p"
  have ok2: "entry_ok (pview crc ?p1) e" if "e \<in> set (drop m es)" for e
    by (rule entry_ok_cong [of _ _ "pview crc p"]) (use that hl(3) sub pg(4) in \<open>auto simp: w1(2)\<close>)
  have h2: "hold_leaf crc ?p1 A sep hi nxt r qr (drop m es)"
    unfolding hold_leaf_def
  proof (intro conjI)
    show "heap_ok crc ?p1 A" by (rule tree_atD(1) [OF w1(1)])
    show "\<forall>e \<in> set (drop m es). entry_ok (pview crc ?p1) e \<and> sep \<le> fst e \<and> lt_hi (fst e) hi"
      using ok2 hl(3) sub cut(2) U(3) by blast
    show "distinct (pages (Lf r (drop m es)))" using pg(1,3) r(3) by auto
    show "set (pages (Lf r (drop m es))) \<inter> A = {}" "0 \<notin> set (pages (Lf r (drop m es)))"
      using hl(5,6) pg(1) r unfolding pages.simps list.set by blast+
  qed (use rt srt in auto)
  note w2 = hold_leaf_write [OF h2]
  let ?p2 = "write_page qr ?p1"
  note t1 = tree_atD [OF w1(1)] and t2 = tree_atD [OF w2(1)]
  have ir: "r \<notin> set (pages (Lf i (take m es)))" using r(3) pg(1) by auto
  have s1: "shape (pview crc ?p2) lo (Some sep) r (Lf i (take m es))"
    by (rule shape_cong [OF t1(2)]) (use ir in \<open>auto simp: w2(2)\<close>)
  have "lo < sep"
  proof -
    have "hd es \<in> set (take m es)" using m by (cases es; cases m) auto
    moreover have "hd es \<in> set es" using m by (cases es) auto
    ultimately show ?thesis using cut(1) hl(3) U(3) le_less_trans by blast
  qed
  moreover have "lt_hi sep hi" "length sep \<le> MAX_KEY_SIZE"
    using bspec [OF hl(3) lm] U(3) by (auto simp: entry_ok_def split: prod.splits)
  ultimately have k: "kids (shape (pview crc ?p2)) lo hi nxt [sep] [Lf i (take m es), Lf r (drop m es)]"
    using s1 t2(2) by (simp add: lead_def)
  have "grown crc p U lo hi nxt i i 1 kvs (Some \<lparr>sp_key = sep, sp_right = r\<rparr>) ?p2"
    unfolding grown_def
  proof (intro conjI exI)
    show "heap_ok crc ?p2 A" by (rule t2(1))
    show "kids (shape (pview crc ?p2)) lo hi nxt [sep] [Lf i (take m es), Lf r (drop m es)]" by (rule k)
    show "distinct (pages_of [Lf i (take m es), Lf r (drop m es)])"
      using t1(3) t2(3) pg(4) r(3) pg(1) by (auto simp: pages_of_def)
    show "set (pages_of [Lf i (take m es), Lf r (drop m es)]) \<inter> A = {}"
      using t1(4) t2(4) by (auto simp: pages_of_def)
    show "set (pages_of [Lf i (take m es), Lf r (drop m es)]) \<union> A = U"
      unfolding U(1) [symmetric] pages_of_def using pg(1) by auto
    show "concat (map entries [Lf i (take m es), Lf r (drop m es)]) = kvs"
      unfolding U(2) by (simp flip: map_append)
    show "moved crc p U ?p2"
      unfolding moved_def w2(2,3) w1(2,3) using U(1) by auto
  qed (auto simp: lead_def)
  then show ?thesis by (intro wp_sbind_smod wp_sret w1(4) w2(4))
qed

lemma split_leaf_wp:
  assumes w: "with_entry crc p A lo hi nxt i q es e" and idx: "idx = position (map fst es) (fst e)" and "es \<noteq> []"
    and U: "set (pages (Lf i (put_entry e es))) \<union> A = U" "kvs = map entry_kv (put_entry e es)"
  shows "wp (split_leaf crc q idx (entry_cell e)) (grown crc p U lo hi nxt i i 1 kvs) R p"
proof -
  let ?es = "put_entry e es" and ?n = "num_keys q"
  define cs where "cs = insert_nth idx (entry_cell e) (cells q)"
  have h: "hold_leaf crc p A lo hi nxt i q es" using w by (simp add: with_entry_def)
  have hl: "heap_ok crc p A" "leaf_page q" "page_id q = i" "cells q = map entry_cell es" "extra q = nxt"
    using h by (auto simp: hold_leaf_def)
  have wf: "page_wf q" and slots: "slots_ok q" using hl(2) by (auto simp: leaf_page_def page_wf_def)
  have cs: "cs = map entry_cell ?es" by (simp add: cs_def put_entry_def insert_nth_map hl(4) idx)
  have n: "?n = length es" using hl(4) num_keys_cells [of q] by simp
  have ok: "\<forall>x \<in> set ?es. entry_ok (pview crc p) x"
    using w h by (auto simp: with_entry_def put_entry_def set_insert_nth hold_leaf_def)
  have small: "\<forall>c \<in> set cs. length c \<le> 1036"
    using ok entry_cell_decode(3) [OF heap_okD(1) [OF hl(1)]] unfolding cs by auto
  have le: "idx \<le> ?n" using position_le [of "map fst es" "fst e"] by (simp add: idx n)
  obtain m where m: "(if idx = ?n \<and> ?n > 0 \<and> extra q = SENTINEL then Some ?n else split_point cs False) = Some m"
      "0 < m" "m < length cs" "cells_size (take m cs) \<le> USABLE_SPACE" "cells_size (drop m cs) \<le> USABLE_SPACE"
    using leaf_cut [OF wf cs_def refl _ le small, of "extra q = SENTINEL"] assms(3) n by auto
  have m': "m < length ?es" using m(3) by (simp add: cs)
  obtain ql where ql: "insert_cells (clear_cells q) 0 (take m cs) = Inr ql" "page_wf ql" "cells ql = take m cs"
      "header_rest ql = header_rest q"
    using fill_cleared [OF wf m(4)] by blast
  have nxt: "nxt < 4294967296" using extra_bound [of q] hl(5) by simp
  note run = split_leaf_def Let_def rmap_cell [OF slots]
  show ?thesis
    unfolding run
  proof (rule wp_sbind_slift [OF refl], unfold cs_def [symmetric] m(1) option.case,
      rule wp_step [OF heap_alloc_wp [OF hl(1)]], elim exE conjE)
    fix right p1 buf
    let ?r = "page_id right"
    assume r: "?r \<in> A" "?r \<noteq> 0" "?r < SENTINEL" "length buf = 4096" "right = page_new buf ?r Leaf"
      "heap_ok crc p1 (A - {?r})" "pview crc p1 = (pview crc p)(?r := Some right)" "tmeta (pg_meta p1) = tmeta (pg_meta p)"
    have r32: "?r < 4294967296" using r(3) by (simp add: page_consts)
    define right1 where "right1 = set_extra right nxt"
    have right1: "page_wf right1" "cells right1 = []" "extra right1 = nxt" "page_id right1 = ?r"
        "page_type right1 = Inr Leaf" "is_leaf right1"
      unfolding right1_def using page_new_leaf [OF r(4) r32 nxt, of Leaf] r(5) by simp_all
    obtain qr where qr: "insert_cells right1 0 (drop m cs) = Inr qr" "page_wf qr" "cells qr = drop m cs"
        "header_rest qr = header_rest right1"
      using fill_new [OF r(4) m(5) right1(1,2)] by blast
    note hr = header_restD [OF qr(4)]
    have rp: "leaf_page qr" "page_id qr = ?r" "extra qr = nxt" using qr(2) hr right1 by (auto simp: leaf_page_def)
    have key: "cell_key qr 0 = Inr (fst (?es ! m))"
    proof -
      have "0 < num_keys qr" using qr(3) m(3) num_keys_cells [of qr] by simp
      moreover have "slots_ok qr" using qr(2) by (simp add: page_wf_def)
      moreover have "cells qr ! 0 = entry_cell (?es ! m)" using qr(3) m' by (simp add: cs)
      moreover have "entry_ok (pview crc p) (?es ! m)" using ok m' by simp
      ultimately show ?thesis
        using cell_key_cells [of qr 0] entry_cell_decode(2) [OF heap_okD(1) [OF hl(1)], of "?es ! m"] rp(1)
        by (simp add: leaf_page_def)
    qed
    have d: "leaf_data crc p A lo hi i ?es" by (rule with_entry_data [OF w])
    then have all: "set (pages (Lf i ?es)) \<inter> A = {}" by (simp add: leaf_data_def)
    have d1: "leaf_data crc p1 (A - {?r}) lo hi i ?es"
      by (rule leaf_data_frame [OF d r(6)]) (use all r(1) in \<open>auto simp: r(7)\<close>)
    have lp: "leaf_page ql" "page_id ql = i" using ql(2) header_restD [OF ql(4)] hl(2,3) by (auto simp: leaf_page_def)
    have "wp (sbind (smod (write_page (set_extra ql ?r))) (\<lambda>_. sbind (smod (write_page qr)) (\<lambda>_.
       sret (Some \<lparr>sp_key = fst (?es ! m), sp_right = ?r\<rparr>)))) (grown crc p1 U lo hi nxt i i 1 kvs) R p1"
      by (rule stage_halves_wp [OF d1 m(2) m' _ r(2) _ lp _ rp(1,2,3)])
        (use r(1) all ql(3) qr(3) U in \<open>auto simp: cs take_map drop_map\<close>)
    then have fin: "wp (sbind (smod (write_page (set_extra ql ?r))) (\<lambda>_. sbind (smod (write_page qr)) (\<lambda>_.
       sret (Some \<lparr>sp_key = fst (?es ! m), sp_right = ?r\<rparr>)))) (grown crc p U lo hi nxt i i 1 kvs) R p1"
      by (rule wp_conseq) (use grown_moved r(1,7,8) U in \<open>auto simp: moved_def\<close>)
    show "wp (sbind (slift (insert_cells (clear_cells q) 0 (take m cs))) (\<lambda>leaf.
        sbind (slift (insert_cells (set_extra right (extra q)) 0 (drop m cs))) (\<lambda>right.
        sbind (slift (cell_key right 0)) (\<lambda>sep.
        sbind (smod (write_page (set_extra leaf (page_id right)))) (\<lambda>_.
        sbind (smod (write_page right)) (\<lambda>_.
        sret (Some \<lparr>sp_key = sep, sp_right = page_id right\<rparr>)))))))
      (grown crc p U lo hi nxt i i 1 kvs) R p1"
      by (rule wp_sbind_slift [OF ql(1)], rule wp_sbind_slift, unfold hl(5) right1_def [symmetric], rule qr(1),
          rule wp_sbind_slift [OF key], unfold rp(2), rule fin)
  qed
qed

section \<open>The whole insertion into a leaf\<close>

lemma compact_leaf:
  assumes "hold_leaf crc p A lo hi nxt i q es" "free_space q < need \<longrightarrow> b" "need \<le> USABLE_SPACE"
  obtains q' where "(if b then compact q else Inr q) = Inr q'" "hold_leaf crc p A lo hi nxt i q' es"
    "es = [] \<longrightarrow> need \<le> free_space q'"
proof (cases b)
  case True
  have h: "leaf_page q" "cells q = map entry_cell es" using assms(1) by (auto simp: hold_leaf_def)
  obtain q' where q': "compact q = Inr q'" "page_wf q'" "cells q' = cells q" "header_rest q' = header_rest q"
      "num_keys q' = num_keys q" "cell_start q' = PAGE_SIZE - live_bytes q"
    using compact_wf [of q] h(1) by (auto simp: leaf_page_def)
  have "hold_leaf crc p A lo hi nxt i q' es"
    by (rule hold_leaf_edit [OF assms(1) q'(2,4)]) (use assms(1) h(2) q'(3) in \<open>auto simp: hold_leaf_def\<close>)
  moreover have "need \<le> free_space q'" if "es = []"
  proof -
    have "cells q = []" using h(2) that by simp
    moreover have "num_keys q = 0" using num_keys_cells [of q] \<open>cells q = []\<close> by simp
    ultimately show ?thesis using q'(5,6) assms(3) by (simp add: free_space_def page_consts live_bytes_def)
  qed
  ultimately show thesis using that q'(1) True by simp
qed (use assms that in auto)

lemma drop_old_wp:
  assumes h: "hold_leaf crc p A lo hi nxt i q es" and U: "set (pages (Lf i es)) \<union> A = U"
    and s: "search q key = Inr r"
  shows "wp (case r of
         Found idx \<Rightarrow>
           sbind (slift (leaf_cell_at q idx)) (\<lambda>old.
           sbind (case lc_overflow old of
               Some head \<Rightarrow> free_overflow_chain crc head
             | None \<Rightarrow> sret ()) (\<lambda>_.
           slift (remove_cell_at q idx)))
       | Missing _ \<Rightarrow> sret q)
     (\<lambda>q' p'. \<exists>A'. hold_leaf crc p' A' lo hi nxt i q' (filter (\<lambda>e. fst e \<noteq> key) es) \<and>
        set (pages (Lf i (filter (\<lambda>e. fst e \<noteq> key) es))) \<union> A' = U \<and> moved crc p U p') R p"
proof -
  have hl: "heap_ok crc p A" "leaf_page q" "cells q = map entry_cell es" "sorted_wrt (<) (map fst es)"
    "\<forall>e \<in> set es. entry_ok (pview crc p) e"
    using h by (auto simp: hold_leaf_def)
  note rd = leaf_page_reads [OF heap_okD(1) [OF hl(1)] hl(2,3,5)]
  show ?thesis
  proof (cases rule: leaf_search [where key = key, OF rd(1) hl(4), case_names found missing])
    case (found j)
    note rm = removed_leaf [OF h found(2,3)]
    have r: "r = Found j" using s found(1) by simp
    show ?thesis
      unfolding r search_result.case
    proof (rule wp_sbind_slift [OF rd(2) [OF found(2)]], rule wp_conseq [OF remove_entry_wp [OF h found(2,3)]])
      fix q' p'
      assume x: "hold_leaf crc p' (A \<union> set (entry_pages (es ! j))) lo hi nxt i q' (filter (\<lambda>e. fst e \<noteq> key) es) \<and>
        moved crc p (set (entry_pages (es ! j))) p'"
      then show "\<exists>A'. hold_leaf crc p' A' lo hi nxt i q' (filter (\<lambda>e. fst e \<noteq> key) es) \<and>
          set (pages (Lf i (filter (\<lambda>e. fst e \<noteq> key) es))) \<union> A' = U \<and> moved crc p U p'"
        using U rm(3) by (intro exI [of _ "A \<union> set (entry_pages (es ! j))"]) (auto simp: moved_def)
    qed
  next
    case (missing j)
    have "\<forall>e \<in> set es. fst e \<noteq> key"
      using missing(3) by (auto simp: bm_get_None_iff entry_kv_def image_iff)
    then have "filter (\<lambda>e. fst e \<noteq> key) es = es" by simp
    moreover have "r = Missing j" using s missing(1) by simp
    ultimately show ?thesis using h U moved_refl by (auto intro!: wp_sret)
  qed
qed

text \<open>The page in hand takes the new cell in place or is split.\<close>

lemma place_cell_wp:
  assumes h: "hold_leaf crc p A lo hi nxt i q es" and e: "entry_ok (pview crc p) e" "lo \<le> fst e" "lt_hi (fst e) hi"
      "fst e \<notin> fst ` set es" "distinct (entry_pages e)" "set (entry_pages e) \<inter> (set (pages (Lf i es)) \<union> A \<union> {0}) = {}"
    and need: "need = length (entry_cell e) + SLOT_SIZE" and b: "free_space q < need \<longrightarrow> b"
    and idx: "idx = position (map fst es) (fst e)"
    and U: "set (pages (Lf i es)) \<union> set (entry_pages e) \<union> A = U"
    and kvs: "kvs = bm_put (fst e) (fst (snd e)) (map entry_kv es)"
  shows "wp (sbind (slift (if b then compact q else Inr q)) (\<lambda>q.
       if need \<le> free_space q \<and> (fill q \<or> num_keys q = 0)
       then sbind (slift (insert_cell_at q idx (entry_cell e))) (\<lambda>q. sbind (smod (write_page q)) (\<lambda>_. sret None))
       else split_leaf crc q idx (entry_cell e))) (grown crc p U lo hi nxt i i 1 kvs) R p"
proof -
  have "heap_ok crc p A" using h by (simp add: hold_leaf_def)
  then have "need \<le> USABLE_SPACE"
    using need entry_cell_decode(3) [OF heap_okD(1) e(1)] by (force simp: page_consts)
  then obtain q' where q': "(if b then compact q else Inr q) = Inr q'" "hold_leaf crc p A lo hi nxt i q' es"
      "es = [] \<longrightarrow> need \<le> free_space q'"
    using compact_leaf [OF h b] by blast
  have w: "with_entry crc p A lo hi nxt i q' es e" unfolding with_entry_def using q'(2) e by blast
  have lf: "page_wf q'" "cells q' = map entry_cell es" using q'(2) by (auto simp: hold_leaf_def leaf_page_def)
  have n: "num_keys q' = length es" using lf(2) num_keys_cells [of q'] by simp
  have le: "idx \<le> num_keys q'" using position_le [of "map fst es" "fst e"] idx n by simp
  have U': "set (pages (Lf i (put_entry e es))) \<union> A = U" and kvs': "kvs = map entry_kv (put_entry e es)"
    using U unfolding put_entry_pages kvs put_entry_kv [OF e(4)] by auto
  show ?thesis
  proof (rule wp_sbind_slift [OF q'(1)], rule wp_if)
    assume "need \<le> free_space q' \<and> (fill q' \<or> num_keys q' = 0)"
    then have "used_bytes q' + length (entry_cell e) + SLOT_SIZE \<le> USABLE_SPACE"
      using free_space_le [OF lf(1)] need by simp
    then obtain q2 where q2: "insert_cell_at q' idx (entry_cell e) = Inr q2" "page_wf q2"
        "cells q2 = take idx (cells q') @ entry_cell e # drop idx (cells q')" "header_rest q2 = header_rest q'"
      using insert_cell_at_ok [OF lf(1) le] by blast
    have "cells q2 = map entry_cell (put_entry e es)"
      unfolding q2(3) lf(2) put_entry_def insert_nth_map idx by (simp add: insert_nth_def)
    then have "hold_leaf crc p A lo hi nxt i q2 (put_entry e es)" by (rule with_entry_leaf [OF w q2(2,4)])
    then show "wp (sbind (slift (insert_cell_at q' idx (entry_cell e))) (\<lambda>q. sbind (smod (write_page q)) (\<lambda>_. sret None)))
        (grown crc p U lo hi nxt i i 1 kvs) R p"
      by (intro wp_sbind_slift [OF q2(1)] stage_leaf_wp [OF _ U' kvs'])
  next
    assume "\<not> (need \<le> free_space q' \<and> (fill q' \<or> num_keys q' = 0))"
    then have "es \<noteq> []" using q'(3) n by auto
    then show "wp (split_leaf crc q' idx (entry_cell e)) (grown crc p U lo hi nxt i i 1 kvs) R p"
      by (rule split_leaf_wp [OF w idx _ U' kvs'])
  qed
qed

lemma insert_into_leaf_wp:
  assumes h: "hold_leaf crc p A lo hi nxt i q es" and key: "lo \<le> key" "lt_hi key hi" "length key \<le> MAX_KEY_SIZE"
    and val: "length val < 4294967296" and U: "set (pages (Lf i es)) \<union> A = U"
    and kvs: "kvs = bm_put key val (map entry_kv es)"
  shows "wp (insert_into_leaf crc fill q key val (length val)) (grown crc p U lo hi nxt i i 1 kvs) R p"
proof -
  have hl: "heap_ok crc p A" "leaf_page q" "cells q = map entry_cell es" "sorted_wrt (<) (map fst es)"
    "\<forall>e \<in> set es. entry_ok (pview crc p) e"
    using h by (auto simp: hold_leaf_def)
  note rd = leaf_page_reads [OF heap_okD(1) [OF hl(1)] hl(2,3,5)]
  define es1 where "es1 = filter (\<lambda>e. fst e \<noteq> key) es"
  obtain r where r: "search q key = Inr r"
      "(case r of Found i \<Rightarrow> i | Missing i \<Rightarrow> i) = position (map fst es) key"
    by (cases rule: leaf_search [where key = key, OF rd(1) hl(4), case_names found missing]) auto
  have pos: "position (map fst es) key = position (map fst es1) key"
    unfolding es1_def by (rule position_filter [OF hl(4), symmetric])
  have kv1: "bm_put key val (map entry_kv es1) = kvs"
    unfolding es1_def kvs bm_del_entries
    by (rule bm_put_del) (use hl(4) in \<open>simp add: bm_ok_def entry_kv_def comp_def\<close>)
  show ?thesis
    unfolding insert_into_leaf_def Let_def
  proof (rule wp_sbind_slift [OF r(1)], rule wp_step [OF drop_old_wp [OF h U r(1), folded es1_def]],
      unfold r(2) pos, elim exE conjE)
    fix q1 p1 A1
    assume x: "hold_leaf crc p1 A1 lo hi nxt i q1 es1" "set (pages (Lf i es1)) \<union> A1 = U" "moved crc p U p1"
    show "wp (sbind (if length val \<le> MAX_INLINE_VALUE \<and> 8 + length key + length val \<le> MAX_INLINE_CELL
            then sret (encode_leaf_cell key val (length val) None)
            else sbind (write_overflow_chain crc val) (\<lambda>head. sret (encode_leaf_cell key [] (length val) (Some head))))
          (\<lambda>c. sbind (slift (if free_space q1 < length c + SLOT_SIZE \<or>
                  ff_max_used fill < USABLE_SPACE - free_space q1 + (length c + SLOT_SIZE)
                  then compact q1 else Inr q1)) (\<lambda>leaf.
             if length c + SLOT_SIZE \<le> free_space leaf \<and>
                (USABLE_SPACE - free_space leaf + (length c + SLOT_SIZE) \<le> ff_max_used fill \<or> num_keys leaf = 0)
             then sbind (slift (insert_cell_at leaf (position (map fst es1) key) c)) (\<lambda>leaf.
               sbind (smod (write_page leaf)) (\<lambda>_. sret None))
             else split_leaf crc leaf (position (map fst es1) key) c)))
        (grown crc p U lo hi nxt i i 1 kvs) R p1"
    proof (rule wp_step [OF new_cell_wp [OF x(1) key(3) val]], elim exE conjE)
      fix c p2 e
      assume e: "c = entry_cell e" "fst e = key" "entry_kv e = (key, val)" "entry_ok (pview crc p2) e"
        "distinct (entry_pages e)" "set (entry_pages e) \<subseteq> A1"
        "hold_leaf crc p2 (A1 - set (entry_pages e)) lo hi nxt i q1 es1" "moved crc p1 A1 p2"
      have m2: "moved crc p U p2" by (rule moved_trans [OF x(3) e(8)]) (use x(2) in auto)
      have v: "fst (snd e) = val" using e(3) by (simp add: entry_kv_def)
      have dis: "set (pages (Lf i es1)) \<inter> A1 = {}" "0 \<notin> A1"
        using x(1) heap_okD(2) by (auto simp: hold_leaf_def)
      show "wp (sbind (slift (if free_space q1 < length c + SLOT_SIZE \<or>
                  ff_max_used fill < USABLE_SPACE - free_space q1 + (length c + SLOT_SIZE)
                  then compact q1 else Inr q1)) (\<lambda>leaf.
             if length c + SLOT_SIZE \<le> free_space leaf \<and>
                (USABLE_SPACE - free_space leaf + (length c + SLOT_SIZE) \<le> ff_max_used fill \<or> num_keys leaf = 0)
             then sbind (slift (insert_cell_at leaf (position (map fst es1) key) c)) (\<lambda>leaf.
               sbind (smod (write_page leaf)) (\<lambda>_. sret None))
             else split_leaf crc leaf (position (map fst es1) key) c))
        (grown crc p U lo hi nxt i i 1 kvs) R p2"
        unfolding e(1)
        by (rule wp_conseq [OF place_cell_wp [OF e(7,4) _ _ _ e(5), where kvs = kvs and U = U]])
          (use key e(2,6) x(2) v kv1 dis grown_moved [OF _ m2] in \<open>auto simp: es1_def\<close>)
    qed
  qed
qed

end
