(* ===== verification/BTree_Grow.thy ===== *)
theory BTree_Grow
  imports BTree_Leaf
begin

text \<open>
  Insertion into the tree: an inner node takes the separator of a split child, in place or by
  splitting itself (\<open>absorb_split\<close>), the recursion down the tree, and the new root.
\<close>

section \<open>An inner node in hand\<close>

definition node_data ::
  "(bytes \<Rightarrow> u32) \<Rightarrow> pager \<Rightarrow> nat set \<Rightarrow> bytes \<Rightarrow> bytes option \<Rightarrow> nat \<Rightarrow> nat \<Rightarrow> bytes list \<Rightarrow> tree list \<Rightarrow> bool" where
  "node_data crc p A lo hi nxt i ks cs \<longleftrightarrow>
     heap_ok crc p A \<and> kids (shape (pview crc p)) lo hi nxt ks cs \<and> distinct (i # pages_of cs) \<and>
     set (i # pages_of cs) \<inter> A = {} \<and> 0 \<notin> set (i # pages_of cs)"

lemma node_dataD:
  assumes "node_data crc p A lo hi nxt i ks cs"
  shows "heap_ok crc p A" "kids (shape (pview crc p)) lo hi nxt ks cs" "distinct (i # pages_of cs)"
    "set (i # pages_of cs) \<inter> A = {}" "0 \<notin> set (i # pages_of cs)" "length cs = Suc (length ks)"
    "\<forall>k \<in> set ks. length k \<le> MAX_KEY_SIZE" "\<forall>c \<in> set cs. root_id c < 4294967296" "sorted_wrt (<) ks"
proof -
  show d: "heap_ok crc p A" "kids (shape (pview crc p)) lo hi nxt ks cs" "distinct (i # pages_of cs)"
    "set (i # pages_of cs) \<inter> A = {}" "0 \<notin> set (i # pages_of cs)"
    using assms unfolding node_data_def by blast+
  show "length cs = Suc (length ks)" by (rule kids_length [OF d(2)])
  show "\<forall>k \<in> set ks. length k \<le> MAX_KEY_SIZE" "sorted_wrt (<) ks" using kids_seps [OF d(2)] by auto
  have "root_id c \<in> set (pages_of cs)" if "c \<in> set cs" for c
    using that root_in_pages [of c] by (auto simp: pages_of_def)
  then show "\<forall>c \<in> set cs. root_id c < 4294967296" using owned_bound(1) [OF d(1)] d(4) by auto
qed

lemma kids_frame:
  assumes "kids (shape V) lo hi nxt ks cs" "\<And>j. j \<in> set (pages_of cs) \<Longrightarrow> V' j = V j"
  shows "kids (shape V') lo hi nxt ks cs"
  by (rule kids_cong [OF assms(1)], erule shape_cong) (use assms(2) in \<open>auto simp: pages_of_def\<close>)

lemma node_data_frame:
  assumes "node_data crc p A lo hi nxt i ks cs" "heap_ok crc p' A'" "set (i # pages_of cs) \<inter> A' = {}"
    and "\<And>j. j \<in> set (pages_of cs) \<Longrightarrow> pview crc p' j = pview crc p j"
  shows "node_data crc p' A' lo hi nxt i ks cs"
proof -
  note d = node_dataD [OF assms(1)]
  have "kids (shape (pview crc p')) lo hi nxt ks cs"
    by (rule kids_frame [OF d(2) assms(4)])
  then show ?thesis using assms(2,3) d(3,5) unfolding node_data_def by blast
qed

definition node_page_for :: "page \<Rightarrow> nat \<Rightarrow> bytes list \<Rightarrow> tree list \<Rightarrow> bool" where
  "node_page_for q i ks cs \<longleftrightarrow>
     inner_page q \<and> page_id q = i \<and> cells q = inner_cells ks (tl cs) \<and> extra q = root_id (hd cs)"

lemma node_write:
  assumes "node_data crc p A lo hi nxt i ks cs" "node_page_for q i ks cs"
  shows "tree_at crc (write_page q p) A lo hi nxt (Nd i ks cs)"
    "pview crc (write_page q p) = (pview crc p)(i := Some q)" "pg_meta (write_page q p) = pg_meta p"
    "pg_disk (write_page q p) = pg_disk p"
proof -
  note d = node_dataD [OF assms(1)]
  have q: "inner_page q" "page_id q = i" "cells q = inner_cells ks (tl cs)" "extra q = root_id (hd cs)"
    using assms(2) by (auto simp: node_page_for_def)
  have len: "length q = 4096" using q(1) page_wf_length by (simp add: inner_page_def)
  note w = heap_write [OF d(1) len, unfolded q(2)]
  have w': "heap_ok crc (write_page q p) A" "pview crc (write_page q p) = (pview crc p)(i := Some q)"
    using w d(4,5) by auto
  have "shape (pview crc (write_page q p)) lo hi nxt (Nd i ks cs)"
  proof (rule shape_node [OF _ q(1,3,4)])
    show "kids (shape (pview crc (write_page q p))) lo hi nxt ks cs"
      by (rule kids_frame [OF d(2)]) (use d(3) in \<open>auto simp: w'(2)\<close>)
  qed (simp add: w'(2))
  then show "tree_at crc (write_page q p) A lo hi nxt (Nd i ks cs)"
    unfolding tree_at_def using w'(1) d(3-5) by (simp add: pages_of_def)
  show "pview crc (write_page q p) = (pview crc p)(i := Some q)" by (rule w'(2))
  show "pg_meta (write_page q p) = pg_meta p" "pg_disk (write_page q p) = pg_disk p" using w d(4,5) by auto
qed

lemma height_le: "\<forall>c \<in> set cs. height c \<le> ht \<Longrightarrow> height (Nd i ks cs) \<le> Suc ht"
  by (induction cs) auto

section \<open>Cells of inner nodes\<close>

lemma length_inner_cells [simp]: "length cs = length ks \<Longrightarrow> length (inner_cells ks cs) = length ks"
  by (simp add: inner_cells_def)

lemma inner_cells_insert:
  assumes "length xs = length ks1"
  shows "insert_nth (length ks1) (encode_internal_cell k (root_id t2)) (inner_cells (ks1 @ ks2) (tl (xs @ t1 # ys))) =
     inner_cells (ks1 @ k # ks2) (tl (xs @ t1 # t2 # ys))"
proof -
  have "length (xs @ [t1]) = Suc (length ks1)" using assms by simp
  then obtain z zs where z: "xs @ [t1] = z # zs" "length zs = length ks1" by (auto simp only: length_Suc_conv)
  then have e: "xs @ t1 # ys' = z # zs @ ys'" for ys' by (metis append_Cons append.assoc append_Nil)
  show ?thesis unfolding e [of ys] e [of "t2 # ys"] using z(2) by (simp add: inner_cells_def insert_nth_def)
qed

lemma inner_cells_root: "map root_id cs = map root_id cs' \<Longrightarrow> inner_cells ks cs = inner_cells ks cs'"
  unfolding inner_cells_def by (simp add: list_eq_iff_nth_eq)

lemma inner_cells_replace:
  assumes "root_id t = root_id c"
  shows "inner_cells ks (tl (xs @ t # ys)) = inner_cells ks (tl (xs @ c # ys))"
    "root_id (hd (xs @ t # ys)) = root_id (hd (xs @ c # ys))"
  by (rule inner_cells_root) (cases xs; simp add: assms)+

lemma inner_cells_take:
  "length cs = Suc (length ks) \<Longrightarrow> m \<le> length ks \<Longrightarrow>
     take m (inner_cells ks (tl cs)) = inner_cells (take m ks) (tl (take (Suc m) cs))"
  by (cases cs) (auto simp: inner_cells_def take_map take_zip)

lemma inner_cells_drop:
  "length cs = Suc (length ks) \<Longrightarrow> m < length ks \<Longrightarrow>
     drop (Suc m) (inner_cells ks (tl cs)) = inner_cells (drop (Suc m) ks) (tl (drop (Suc m) cs))"
  by (simp add: inner_cells_def drop_map drop_zip tl_drop drop_Suc)

lemma inner_cells_nth:
  "length cs = Suc (length ks) \<Longrightarrow> m < length ks \<Longrightarrow>
     inner_cells ks (tl cs) ! m = encode_internal_cell (ks ! m) (root_id (cs ! Suc m))"
  by (simp add: inner_cells_def nth_tl)

lemma inner_cells_small:
  assumes "\<forall>k \<in> set ks. length k \<le> MAX_KEY_SIZE" "c \<in> set (inner_cells ks cs)"
  shows "length c \<le> 1036"
  using assms by (fastforce simp: inner_cells_def encode_internal_cell_def page_consts dest: set_zip_leftD)

lemma decode_inner:
  assumes "length k \<le> MAX_KEY_SIZE" "child < 4294967296"
  shows "decode_internal_cell (encode_internal_cell k child) = Inr (k, child)"
proof -
  have "read_le (encode_internal_cell k child) 0 2 = length k"
    using assms(1) read_le_to_le [of 2 "length k"] by (simp add: encode_internal_cell_def page_consts)
  moreover have "bslice (encode_internal_cell k child) 6 (length k) = k"
    by (simp add: encode_internal_cell_def bslice_def)
  ultimately show ?thesis
    using internal_cell_roundtrip [of k child] assms by (simp add: decode_internal_cell_def page_consts)
qed

text \<open>The index at which the new separator goes.\<close>

lemma separator_position:
  fixes k :: bytes
  assumes "sorted_wrt (<) (ks1 @ k # ks2)"
  shows "position (ks1 @ ks2) k = length ks1" "k \<notin> set (ks1 @ ks2)"
proof -
  have l: "\<forall>x \<in> set ks1. x < k" "\<forall>x \<in> set ks2. k < x" using assms by (auto simp: sorted_wrt_append)
  then show "k \<notin> set (ks1 @ ks2)" by auto
  show "position (ks1 @ ks2) k = length ks1"
    by (rule position_eqI) (use l in \<open>auto simp: nth_append less_imp_le\<close>)
qed

section \<open>Taking the separator of a split child\<close>

lemma compact_inner:
  assumes "inner_page q"
  obtains fits q' where "(if need \<le> free_space q then Inr (True, q)
       else rbind (compact q) (\<lambda>q. Inr (need \<le> free_space q, q))) = Inr (fits, q')"
    "fits \<longrightarrow> need \<le> free_space q'" "inner_page q'" "cells q' = cells q" "header_rest q' = header_rest q"
proof (cases "need \<le> free_space q")
  case True
  then show thesis using that [of True q] assms by simp
next
  case False
  obtain q' where q': "compact q = Inr q'" "page_wf q'" "cells q' = cells q" "header_rest q' = header_rest q"
    using compact_wf [of q] assms by (auto simp: inner_page_def)
  then have "inner_page q'" using assms header_restD [OF q'(4)] by (simp add: inner_page_def)
  then show thesis using that [of "need \<le> free_space q'" q'] False q' by simp
qed

lemma stage_node_wp:
  assumes d: "node_data crc p A lo hi nxt i ks cs" and q: "node_page_for q i ks cs"
    and U: "set (i # pages_of cs) \<union> A = U" and kvs: "kvs = concat (map entries cs)"
    and l: "l = lead (hd cs)" and ht: "\<forall>c \<in> set cs. height c \<le> ht"
  shows "wp (sbind (smod (write_page q)) (\<lambda>_. sret None)) (grown crc p U lo hi nxt i l (Suc ht) kvs) R p"
proof -
  note w = node_write [OF d q] and D = node_dataD [OF d]
  note t = tree_atD [OF w(1)]
  have "grown crc p U lo hi nxt i l (Suc ht) kvs None (write_page q p)"
    unfolding grown_def
  proof (intro conjI exI)
    show "heap_ok crc (write_page q p) A" by (rule t)
    show "kids (shape (pview crc (write_page q p))) lo hi nxt [] [Nd i ks cs]" using t(2) by simp
    show "\<forall>t \<in> set [Nd i ks cs]. height t \<le> Suc ht" using height_le [OF ht] by simp
    show "lead (hd [Nd i ks cs]) = l" using l lead_Nd [OF D(2)] by simp
    show "moved crc p U (write_page q p)" unfolding moved_def w(2,3) using U by auto
  qed (use D(3,4) U kvs in \<open>auto simp: pages_of_def\<close>)
  then show ?thesis by (intro wp_sbind_smod wp_sret w(4))
qed

text \<open>Staging the two halves of a node.\<close>

lemma stage_nodes_wp:
  assumes d: "node_data crc p A lo hi nxt i ks cs" and m: "m < length ks"
    and r: "r \<notin> A" "r \<noteq> 0" "r \<notin> set (i # pages_of cs)"
    and ql: "node_page_for ql i (take m ks) (take (Suc m) cs)"
    and qr: "node_page_for qr r (drop (Suc m) ks) (drop (Suc m) cs)"
    and U: "set (i # pages_of cs) \<union> A \<union> {r} = U" and kvs: "kvs = concat (map entries cs)"
    and l: "l = lead (hd cs)" and ht: "\<forall>c \<in> set cs. height c \<le> ht"
  shows "wp (sbind (smod (write_page ql)) (\<lambda>_. sbind (smod (write_page qr)) (\<lambda>_.
       sret (Some \<lparr>sp_key = ks ! m, sp_right = r\<rparr>)))) (grown crc p U lo hi nxt i l (Suc ht) kvs) R p"
proof -
  note D = node_dataD [OF d]
  let ?ks1 = "take m ks" and ?ks2 = "drop (Suc m) ks" and ?cs1 = "take (Suc m) cs" and ?cs2 = "drop (Suc m) cs"
  let ?k = "ks ! m"
  have ks: "ks = ?ks1 @ ?k # ?ks2" using m by (rule id_take_nth_drop)
  have cs: "cs = ?cs1 @ ?cs2" by simp
  have len: "length ?cs1 = Suc (length ?ks1)" using D(6) m by simp
  have k: "?cs2 \<noteq> []" "kids (shape (pview crc p)) lo (Some ?k) (lead (hd ?cs2)) ?ks1 ?cs1" "lo < ?k" "lt_hi ?k hi"
      "length ?k \<le> MAX_KEY_SIZE" "kids (shape (pview crc p)) ?k hi nxt ?ks2 ?cs2"
    using D(2) kids_append [OF len, of "shape (pview crc p)" lo hi nxt ?k ?ks2 ?cs2] ks cs by simp_all
  have pc: "pages_of cs = pages_of ?cs1 @ pages_of ?cs2"
    by (subst cs, simp only: pages_of_def map_append concat_append)
  have d1: "node_data crc p A lo (Some ?k) (lead (hd ?cs2)) i ?ks1 ?cs1"
    unfolding node_data_def using D(1,3-5) k(2) pc by auto
  note w1 = node_write [OF d1 ql]
  let ?p1 = "write_page ql p"
  have d2: "node_data crc p A ?k hi nxt r ?ks2 ?cs2"
    unfolding node_data_def using D(1,3-5) k(6) pc r by auto
  have d2': "node_data crc ?p1 A ?k hi nxt r ?ks2 ?cs2"
    by (rule node_data_frame [OF d2 tree_atD(1) [OF w1(1)]]) (use r D(3,4) pc in \<open>auto simp: w1(2)\<close>)
  note w2 = node_write [OF d2' qr]
  let ?p2 = "write_page qr ?p1"
  note t1 = tree_atD [OF w1(1)] and t2 = tree_atD [OF w2(1)]
  let ?ts = "[Nd i ?ks1 ?cs1, Nd r ?ks2 ?cs2]"
  have s1: "shape (pview crc ?p2) lo (Some ?k) (lead (hd ?cs2)) (Nd i ?ks1 ?cs1)"
  proof (rule shape_cong [OF t1(2)])
    fix j assume "j \<in> set (pages (Nd i ?ks1 ?cs1))"
    then have "j \<noteq> r" using r(3) unfolding pc by (auto simp: pages_of_def)
    then show "pview crc ?p2 j = pview crc ?p1 j" by (simp add: w2(2))
  qed
  have K: "kids (shape (pview crc ?p2)) lo hi nxt [?k] ?ts"
    using s1 t2(2) k(3-5) lead_Nd [OF k(6)] by simp
  have pts: "pages_of ?ts = i # pages_of ?cs1 @ r # pages_of ?cs2" by (simp add: pages_of_def)
  have "grown crc p U lo hi nxt i l (Suc ht) kvs (Some \<lparr>sp_key = ?k, sp_right = r\<rparr>) ?p2"
    unfolding grown_def
  proof (intro conjI exI)
    show "heap_ok crc ?p2 A" by (rule t2(1))
    show "kids (shape (pview crc ?p2)) lo hi nxt [?k] ?ts" by (rule K)
    show "distinct (pages_of ?ts)" "set (pages_of ?ts) \<inter> A = {}" "set (pages_of ?ts) \<union> A = U"
      unfolding pts U [symmetric] using D(3,4) r pc by auto
    show "concat (map entries ?ts) = kvs"
      unfolding kvs by (subst cs, simp only: list.map entries.simps concat.simps map_append concat_append append_Nil2)
    have "\<forall>c \<in> set ?cs1. height c \<le> ht" "\<forall>c \<in> set ?cs2. height c \<le> ht"
      using ht by (auto dest: in_set_takeD in_set_dropD)
    then show "\<forall>t \<in> set ?ts. height t \<le> Suc ht"
      using height_le [of ?cs1 ht i ?ks1] height_le [of ?cs2 ht r ?ks2] by simp
    have "lead (Nd i ?ks1 ?cs1) = lead (hd ?cs1)" by (rule lead_Nd [OF k(2)])
    then show "lead (hd ?ts) = l" using l D(6) by (cases cs) auto
    show "moved crc p U ?p2" unfolding moved_def w2(2,3) w1(2,3) using U by auto
  qed auto
  then show ?thesis by (intro wp_sbind_smod wp_sret w1(4) w2(4))
qed

lemma inner_cut:
  assumes "cells_size old \<le> USABLE_SPACE" "cs = insert_nth pos c old" "n = length old" "pos \<le> n"
    and "\<forall>c \<in> set cs. length c \<le> 1036"
  obtains m where "(if pos = n then Some n else split_point cs True) = Some m" "m < length cs"
    "cells_size (take m cs) \<le> USABLE_SPACE" "cells_size (drop (Suc m) cs) \<le> USABLE_SPACE"
proof (cases "pos = n")
  case True
  then have "cs = old @ [c]" using assms(2,3) by (simp add: insert_nth_def)
  then show thesis using that [of n] True assms(1,3) by simp
next
  case False
  have "cells_size cs = cells_size old + length c + 4"
    using cells_size_take_drop [of pos old] by (simp add: assms(2) insert_nth_def)
  moreover have "length c \<le> 1036" "cs \<noteq> []" using assms(2,5) by (auto simp: insert_nth_def)
  ultimately obtain m where "split_point cs True = Some m" "m < length cs"
      "cells_size (take m cs) \<le> USABLE_SPACE" "cells_size (drop (Suc m) cs) \<le> USABLE_SPACE"
    using split_point_inner [of cs] assms(1,5) by (auto simp: page_consts)
  then show thesis using that False by simp
qed

lemma split_node_wp:
  assumes d: "node_data crc p A lo hi nxt i ks cs" and q: "inner_page q" "page_id q = i" "extra q = root_id (hd cs)"
    and old: "cells_size old \<le> USABLE_SPACE" "inner_cells ks (tl cs) = insert_nth pos c old" "n = length old" "pos \<le> n"
    and U: "set (i # pages_of cs) \<union> A = U" and kvs: "kvs = concat (map entries cs)"
    and l: "l = lead (hd cs)" and ht: "\<forall>c \<in> set cs. height c \<le> ht"
  shows "wp (case (if pos = n then Some n else split_point (insert_nth pos c old) True) of
          None \<Rightarrow> serr Full
        | Some m \<Rightarrow>
            sbind (slift (decode_internal_cell (insert_nth pos c old ! m))) (\<lambda>(promote_key, promote_child).
            sbind (allocate_page crc Internal) (\<lambda>right.
            sbind (slift (insert_cells (clear_cells q) 0 (take m (insert_nth pos c old)))) (\<lambda>node.
            sbind (slift (insert_cells (set_extra right promote_child) 0 (drop (m + 1) (insert_nth pos c old)))) (\<lambda>right.
            sbind (smod (write_page node)) (\<lambda>_.
            sbind (smod (write_page right)) (\<lambda>_.
            sret (Some \<lparr>sp_key = promote_key, sp_right = page_id right\<rparr>))))))))
     (grown crc p U lo hi nxt i l (Suc ht) kvs) R p"
proof -
  note D = node_dataD [OF d]
  define cc where "cc = inner_cells ks (tl cs)"
  have cc: "insert_nth pos c old = cc" "length cc = length ks" by (simp_all add: cc_def old(2)) (simp add: D(6) flip: old(2))
  have small: "\<forall>c \<in> set cc. length c \<le> 1036" using inner_cells_small [OF D(7)] by (simp add: cc_def)
  obtain m where m: "(if pos = n then Some n else split_point cc True) = Some m" "m < length cc"
      "cells_size (take m cc) \<le> USABLE_SPACE" "cells_size (drop (Suc m) cc) \<le> USABLE_SPACE"
    using inner_cut [OF old(1) cc(1) [symmetric] old(3,4) small] by blast
  have mk: "m < length ks" using m(2) cc(2) by simp
  let ?child = "root_id (cs ! Suc m)"
  have child: "?child < 4294967296" using D(6,8) mk by simp
  have dec: "decode_internal_cell (cc ! m) = Inr (ks ! m, ?child)"
    unfolding cc_def inner_cells_nth [OF D(6) mk] by (rule decode_inner) (use D(7) mk child in auto)
  have wf: "page_wf q" using q(1) by (simp add: inner_page_def)
  obtain ql where ql: "insert_cells (clear_cells q) 0 (take m cc) = Inr ql" "page_wf ql" "cells ql = take m cc"
      "header_rest ql = header_rest q"
    using fill_cleared [OF wf m(3)] by blast
  have lp: "node_page_for ql i (take m ks) (take (Suc m) cs)"
    using ql(2,3) header_restD [OF ql(4)] q inner_cells_take [OF D(6), of m] mk D(6)
    by (cases cs) (auto simp: node_page_for_def inner_page_def cc_def)
  show ?thesis
    unfolding cc(1) m(1) option.case
  proof (rule wp_sbind_slift [OF dec], unfold prod.case, rule wp_step [OF heap_alloc_wp [OF D(1)]], elim exE conjE)
    fix right p1 buf
    let ?r = "page_id right"
    assume r: "?r \<in> A" "?r \<noteq> 0" "?r < SENTINEL" "length buf = 4096" "right = page_new buf ?r Internal"
      "heap_ok crc p1 (A - {?r})" "pview crc p1 = (pview crc p)(?r := Some right)" "tmeta (pg_meta p1) = tmeta (pg_meta p)"
    have r32: "?r < 4294967296" using r(3) by (simp add: page_consts)
    define right1 where "right1 = set_extra right ?child"
    have right1: "page_wf right1" "cells right1 = []" "extra right1 = ?child" "page_id right1 = ?r"
        "page_type right1 = Inr Internal" "\<not> is_leaf right1"
      unfolding right1_def using page_new_leaf [OF r(4) r32 child, of Internal] r(5) by simp_all
    obtain qr where qr: "insert_cells right1 0 (drop (Suc m) cc) = Inr qr" "page_wf qr" "cells qr = drop (Suc m) cc"
        "header_rest qr = header_rest right1"
      using fill_new [OF r(4) m(4) right1(1,2)] by blast
    have rp: "node_page_for qr ?r (drop (Suc m) ks) (drop (Suc m) cs)"
      using qr(2,3) header_restD [OF qr(4)] right1 inner_cells_drop [OF D(6) mk] D(6) mk
      by (simp add: node_page_for_def inner_page_def cc_def hd_drop_conv_nth)
    have d1: "node_data crc p1 (A - {?r}) lo hi nxt i ks cs"
      by (rule node_data_frame [OF d r(6)]) (use D(4) r(1) in \<open>auto simp: r(7)\<close>)
    have "wp (sbind (smod (write_page ql)) (\<lambda>_. sbind (smod (write_page qr)) (\<lambda>_.
       sret (Some \<lparr>sp_key = ks ! m, sp_right = ?r\<rparr>)))) (grown crc p1 U lo hi nxt i l (Suc ht) kvs) R p1"
      by (rule stage_nodes_wp [OF d1 mk _ r(2) _ lp rp _ kvs l ht]) (use r(1) D(4) U in auto)
    then have fin: "wp (sbind (smod (write_page ql)) (\<lambda>_. sbind (smod (write_page qr)) (\<lambda>_.
       sret (Some \<lparr>sp_key = ks ! m, sp_right = ?r\<rparr>)))) (grown crc p U lo hi nxt i l (Suc ht) kvs) R p1"
      by (rule wp_conseq) (use grown_moved r(1,7,8) U in \<open>auto simp: moved_def\<close>)
    have pr: "page_id qr = ?r" using rp by (simp add: node_page_for_def)
    show "wp (sbind (slift (insert_cells (clear_cells q) 0 (take m cc))) (\<lambda>node.
        sbind (slift (insert_cells (set_extra right ?child) 0 (drop (m + 1) cc))) (\<lambda>right.
        sbind (smod (write_page node)) (\<lambda>_. sbind (smod (write_page right)) (\<lambda>_.
        sret (Some \<lparr>sp_key = ks ! m, sp_right = page_id right\<rparr>))))))
      (grown crc p U lo hi nxt i l (Suc ht) kvs) R p1"
      by (rule wp_sbind_slift [OF ql(1)], rule wp_sbind_slift, unfold right1_def [symmetric] Suc_eq_plus1 [symmetric],
          rule qr(1), unfold pr, rule fin)
  qed
qed

lemma absorb_split_wp:
  assumes d: "node_data crc p A lo hi nxt i (ks1 @ k # ks2) (xs @ t1 # t2 # ys)" and len: "length xs = length ks1"
    and q: "node_page_for q i (ks1 @ ks2) (xs @ t1 # ys)" and sp: "sp = \<lparr>sp_key = k, sp_right = root_id t2\<rparr>"
    and U: "set (i # pages_of (xs @ t1 # t2 # ys)) \<union> A = U"
    and kvs: "kvs = concat (map entries (xs @ t1 # t2 # ys))"
    and l: "l = lead (hd (xs @ t1 # t2 # ys))" and ht: "\<forall>c \<in> set (xs @ t1 # t2 # ys). height c \<le> ht"
  shows "wp (absorb_split crc q sp) (grown crc p U lo hi nxt i l (Suc ht) kvs) R p"
proof -
  note D = node_dataD [OF d]
  let ?ks = "ks1 @ k # ks2" and ?cs = "xs @ t1 # t2 # ys" and ?c = "encode_internal_cell k (root_id t2)"
  have hd: "hd ?cs = hd (xs @ t1 # ys)" by (cases xs) auto
  have Q: "inner_page q" "page_id q = i" "cells q = inner_cells (ks1 @ ks2) (tl (xs @ t1 # ys))" "extra q = root_id (hd ?cs)"
    using q hd by (auto simp: node_page_for_def)
  have ly: "length ys = length ks2" using D(6) len by simp
  then have "length (tl (xs @ t1 # ys)) = length (ks1 @ ks2)" using len by (cases xs) auto
  moreover have "\<forall>c \<in> set (tl (xs @ t1 # ys)). root_id c < 4294967296"
    using D(8) by (cases xs) auto
  ultimately have rd: "keys_are q (ks1 @ ks2)" "num_keys q = length (ks1 @ ks2)"
    using inner_page_reads(1,3) [OF Q(1,3)] D(7) by simp_all
  note sep = separator_position [OF D(9)]
  have "sorted_wrt (<) (ks1 @ ks2)" using D(9) by (auto simp: sorted_wrt_append)
  moreover have "(ks1 @ ks2) ! length ks1 \<noteq> k" if "length ks1 < length (ks1 @ ks2)"
    using nth_mem [OF that] sep(2) by auto
  ultimately have s: "search q k = Inr (Missing (length ks1))"
    using search_spec [OF rd(1), of k] by (auto simp: Let_def sep(1))
  let ?need = "length ?c + SLOT_SIZE"
  obtain fits q' where c: "(if ?need \<le> free_space q then Inr (True, q)
       else rbind (compact q) (\<lambda>q. Inr (?need \<le> free_space q, q))) = Inr (fits, q')"
    "fits \<longrightarrow> ?need \<le> free_space q'" "inner_page q'" "cells q' = cells q" "header_rest q' = header_rest q"
    using compact_inner [OF Q(1), of ?need] by blast
  note hr = header_restD [OF c(5)]
  have wf: "page_wf q'" "slots_ok q'" using c(3) by (auto simp: inner_page_def page_wf_def)
  have n: "num_keys q' = length (ks1 @ ks2)" using arg_cong [OF c(4), of length] rd(2) by simp
  have new: "insert_nth (length ks1) ?c (cells q') = inner_cells ?ks (tl ?cs)"
    unfolding c(4) Q(3) by (rule inner_cells_insert [OF len])
  show ?thesis
    unfolding absorb_split_def Let_def sp split.select_convs
  proof (rule wp_sbind_slift [OF s], unfold search_result.case, rule wp_sbind_slift [OF c(1)], unfold prod.case, rule wp_if)
    assume fits
    then have "used_bytes q' + length ?c + SLOT_SIZE \<le> USABLE_SPACE" using free_space_le [OF wf(1)] c(2) by simp
    then obtain q2 where q2: "insert_cell_at q' (length ks1) ?c = Inr q2" "page_wf q2"
        "cells q2 = take (length ks1) (cells q') @ ?c # drop (length ks1) (cells q')" "header_rest q2 = header_rest q'"
      using insert_cell_at_ok [OF wf(1), of "length ks1" ?c] n by auto
    have "node_page_for q2 i ?ks ?cs"
      using q2(2,3) new header_restD [OF q2(4)] hr Q c(3) by (auto simp: node_page_for_def inner_page_def insert_nth_def)
    then show "wp (sbind (slift (insert_cell_at q' (length ks1) ?c)) (\<lambda>node. sbind (smod (write_page node)) (\<lambda>_. sret None)))
        (grown crc p U lo hi nxt i l (Suc ht) kvs) R p"
      by (intro wp_sbind_slift [OF q2(1)] stage_node_wp [OF d _ U kvs l ht])
  next
    assume "\<not> fits"
    show "wp (sbind (slift (rmap (cell q') [0..<num_keys q'])) (\<lambda>old.
        case if length ks1 = num_keys q' then Some (num_keys q') else split_point (insert_nth (length ks1) ?c old) True of
          None \<Rightarrow> serr Full
        | Some m \<Rightarrow>
            sbind (slift (decode_internal_cell (insert_nth (length ks1) ?c old ! m))) (\<lambda>(promote_key, promote_child).
            sbind (allocate_page crc Internal) (\<lambda>right.
            sbind (slift (insert_cells (clear_cells q') 0 (take m (insert_nth (length ks1) ?c old)))) (\<lambda>node.
            sbind (slift (insert_cells (set_extra right promote_child) 0 (drop (m + 1) (insert_nth (length ks1) ?c old)))) (\<lambda>right.
            sbind (smod (write_page node)) (\<lambda>_.
            sbind (smod (write_page right)) (\<lambda>_.
            sret (Some \<lparr>sp_key = promote_key, sp_right = page_id right\<rparr>)))))))))
        (grown crc p U lo hi nxt i l (Suc ht) kvs) R p"
      unfolding rmap_cell [OF wf(2)]
      by (rule wp_sbind_slift [OF refl], rule split_node_wp [OF d c(3) _ _ page_wf_used [OF wf(1)] new [symmetric] _ _ U kvs l ht])
        (use Q hr n in auto)
  qed
qed

section \<open>The recursion\<close>

lemma bm_put_around:
  fixes key :: bytes
  assumes "\<forall>e \<in> set m1. fst e < key" "\<forall>e \<in> set m2. key < fst e"
  shows "bm_put key v (m1 @ m @ m2) = m1 @ bm_put key v m @ m2"
proof -
  have "bm_put key v (m @ m2) = bm_put key v m @ m2"
  proof (induction m)
    case Nil
    show ?case using assms(2) by (cases m2) auto
  qed auto
  then show ?thesis using assms(1) by (induction m1) auto
qed

lemma pages_of_simps [simp]:
  "pages_of [] = []" "pages_of (t # ts) = pages t @ pages_of ts" "pages_of (ts @ ts') = pages_of ts @ pages_of ts'"
  by (simp_all add: pages_of_def)

text \<open>The pieces a child leaves behind, in the place of the child.\<close>

lemma node_after_child:
  assumes t: "tree_at crc p A lo hi nxt (Nd i (ks1 @ ks2) (xs @ c # ys))" and q: "pview crc p i = Some q"
    and len: "length xs = length ks1"
    and g: "grown crc p (set (pages c) \<union> A) (last (lo # ks1)) (hi_at hi ks2) (nxt_at nxt ys) (root_id c) (lead c) ht es r p'"
  obtains A' seps ts where "node_data crc p' A' lo hi nxt i (ks1 @ seps @ ks2) (xs @ ts @ ys)"
    "pview crc p' i = Some q" "concat (map entries ts) = es" "root_id (hd ts) = root_id c" "lead (hd ts) = lead c"
    "\<forall>t \<in> set ts. height t \<le> ht" "length ts = Suc (length seps)"
    "set (i # pages_of (xs @ ts @ ys)) \<union> A' = set (pages (Nd i (ks1 @ ks2) (xs @ c # ys))) \<union> A"
    "case r of None \<Rightarrow> seps = [] | Some sp \<Rightarrow> seps = [sp_key sp] \<and> root_id (ts ! 1) = sp_right sp"
    "moved crc p (set (pages (Nd i (ks1 @ ks2) (xs @ c # ys))) \<union> A) p'"
proof -
  note T = tree_atD [OF t]
  let ?U = "set (pages c) \<union> A"
  obtain A' seps ts where a: "heap_ok crc p' A'"
      "kids (shape (pview crc p')) (last (lo # ks1)) (hi_at hi ks2) (nxt_at nxt ys) seps ts"
      "distinct (pages_of ts)" "set (pages_of ts) \<inter> A' = {}" "set (pages_of ts) \<union> A' = ?U"
      "concat (map entries ts) = es" "root_id (hd ts) = root_id c" "lead (hd ts) = lead c" "\<forall>t \<in> set ts. height t \<le> ht"
      "case r of None \<Rightarrow> seps = [] | Some sp \<Rightarrow> seps = [sp_key sp] \<and> root_id (ts ! 1) = sp_right sp"
      "moved crc p ?U p'"
    using g unfolding grown_def by (elim exE conjE) (rule that)
  have pg: "pages (Nd i (ks1 @ ks2) (xs @ c # ys)) = i # pages_of xs @ pages c @ pages_of ys" by (simp add: pages_of_def)
  have out: "j \<notin> ?U" if "j \<in> set (i # pages_of xs @ pages_of ys)" for j
    using that T(3,4) unfolding pg by auto
  have same: "pview crc p' j = pview crc p j" if "j \<in> set (i # pages_of xs @ pages_of ys)" for j
    using out [OF that] a(11) unfolding moved_def by blast
  have K: "kids (shape (pview crc p)) lo hi nxt (ks1 @ ks2) (xs @ c # ys)" using T(2) by (rule shape_NdE)
  have "kids (shape (pview crc p')) lo hi nxt (ks1 @ seps @ ks2) (xs @ ts @ ys)"
  proof (rule kids_replace [OF K len a(2,8)])
    fix x a b n assume "x \<in> set xs \<union> set ys" and s: "shape (pview crc p) a b n x"
    then have sub: "set (pages x) \<subseteq> set (i # pages_of xs @ pages_of ys)" by (auto simp: pages_of_def)
    show "shape (pview crc p') a b n x" by (rule shape_cong [OF s], rule same) (use sub in blast)
  qed
  moreover have "distinct (i # pages_of (xs @ ts @ ys))" "set (i # pages_of (xs @ ts @ ys)) \<inter> A' = {}"
      "0 \<notin> set (i # pages_of (xs @ ts @ ys))"
    using T(3,4,5) a(3-5) out heap_okD(2) [OF tree_atD(1) [OF t]] unfolding pg by (auto simp: set_eq_iff)
  ultimately have nd: "node_data crc p' A' lo hi nxt i (ks1 @ seps @ ks2) (xs @ ts @ ys)"
    unfolding node_data_def using a(1) by blast
  have mv: "moved crc p (set (pages (Nd i (ks1 @ ks2) (xs @ c # ys))) \<union> A) p'"
    using a(11) unfolding moved_def pg by auto
  show thesis
    by (rule that [OF nd _ a(6,7,8,9) kids_length [OF a(2)] _ a(10) mv]) (use same q a(5) pg in auto)
qed

lemma insert_into_wp:
  assumes "tree_at crc p A lo hi nxt t" "lo \<le> key" "lt_hi key hi" "length key \<le> MAX_KEY_SIZE" "length val < 4294967296"
    and "levels < height t \<longrightarrow> (\<forall>p. R Corruption p)"
  shows "wp (insert_into crc fill key val (length val) levels (root_id t))
     (grown crc p (set (pages t) \<union> A) lo hi nxt (root_id t) (lead t) (height t) (bm_put key val (entries t))) R p"
  using assms(1,2,3,6)
proof (induction levels arbitrary: p lo hi nxt t)
  case 0
  have "0 < height t" by (cases t) auto
  then show ?case using 0(4) unfolding insert_into.simps by (intro wp_serr) auto
next
  case (Suc levels)
  note T = tree_atD [OF Suc.prems(1)]
  let ?G = "\<lambda>p0. grown crc p0 (set (pages t) \<union> A) lo hi nxt (root_id t) (lead t) (height t) (bm_put key val (entries t))"
  have G: "?G p1 r p' \<Longrightarrow> ?G p r p'" if "same_view crc p p1" for p1 r p'
    using grown_moved moved_same [OF that] by blast
  show ?case
  proof (cases t)
    case (Lf i es)
    then obtain q where q: "pview crc p i = Some q" "leaf_page q" using T(2) by (auto elim: shape_LfE)
    show ?thesis
      unfolding insert_into.simps
    proof (rule wp_step [OF read_page_wp [OF T(6), of "root_id t" q]])
      show "pview crc p (root_id t) = Some q" using q(1) by (simp add: Lf)
      fix x p1 assume x: "x = q \<and> same_view crc p p1"
      have t1: "tree_at crc p1 A lo hi nxt (Lf i es)" using tree_at_same [OF Suc.prems(1)] x by (simp add: Lf)
      have "pview crc p1 i = Some q" using x q(1) by (simp add: same_view_def)
      then have h: "hold_leaf crc p1 A lo hi nxt i q es" by (rule hold_leafI [OF t1])
      have "wp (insert_into_leaf crc fill q key val (length val)) (?G p1) R p1"
        using insert_into_leaf_wp [OF h Suc.prems(2,3) assms(4,5) refl refl, of fill R] by (simp add: Lf lead_def)
      then have "wp (insert_into_leaf crc fill q key val (length val)) (?G p) R p1"
        by (rule wp_conseq) (use G x in auto)
      then show "wp (if is_leaf x then insert_into_leaf crc fill x key val (length val)
          else sbind (slift (child_for x key)) (\<lambda>child_id.
            sbind (insert_into crc fill key val (length val) levels child_id) (\<lambda>r.
              case r of None \<Rightarrow> sret None | Some sp \<Rightarrow> absorb_split crc x sp))) (?G p) R p1"
        using x q(2) by (simp add: leaf_page_def)
    qed
  next
    case (Nd i ks cs)
    obtain q where q: "pview crc p i = Some q" "inner_page q" "cells q = inner_cells ks (tl cs)" "extra q = root_id (hd cs)"
        "kids (shape (pview crc p)) lo hi nxt ks cs" "keys_are q ks" "\<not> is_leaf q" "sorted_wrt (<) ks"
        "\<And>s. s \<le> length ks \<Longrightarrow> child_at q s = Inr (root_id (cs ! s))"
      using node_page Suc.prems(1) unfolding Nd by metis
    have idq: "page_id q = i" using pview_fields(2) [OF T(6) q(1)] .
    obtain ks1 ks2 xs c ys where c: "ks = ks1 @ ks2" "cs = xs @ c # ys" "length xs = length ks1"
        "length xs = slot_of ks key" "last (lo # ks1) \<le> key" "lt_hi key (hi_at hi ks2)"
        "\<forall>k \<in> set ks1. k \<le> key" "\<forall>k \<in> set ks2. key < k"
        "tree_at crc p A (last (lo # ks1)) (hi_at hi ks2) (nxt_at nxt ys) c"
      using node_child [OF Suc.prems(1) [unfolded Nd] Suc.prems(2,3) q(5)] by metis
    have child: "child_for q key = Inr (root_id c)"
      using child_slot_for_ok [OF q(6,8)] q(9) [OF slot_of_le] c(2,4) by (simp add: child_for_def nth_append)
    note ar = kids_around [OF q(5) [unfolded c(1,2)] c(3,7,8)]
    have put: "bm_put key val (entries t) =
        concat (map entries xs) @ bm_put key val (entries c) @ concat (map entries ys)"
      using bm_put_around [OF ar, of val "entries c"] by (simp add: Nd c(2))
    have hts: "\<forall>x \<in> set cs. height x \<le> height t - 1" "Suc (height t - 1) = height t"
      using height_child [of _ cs i ks] by (fastforce simp: Nd)+
    show ?thesis
      unfolding insert_into.simps
    proof (rule wp_step [OF read_page_wp [OF T(6), of "root_id t" q]])
      show "pview crc p (root_id t) = Some q" using q(1) by (simp add: Nd)
      fix x p1 assume x: "x = q \<and> same_view crc p p1"
      then have s1: "same_view crc p p1" by simp
      have t1: "tree_at crc p1 A lo hi nxt (Nd i (ks1 @ ks2) (xs @ c # ys))"
        using tree_at_same [OF Suc.prems(1) s1] by (simp add: Nd c(1,2))
      have q1: "pview crc p1 i = Some q" using s1 q(1) by (simp add: same_view_def)
      have l1: "levels < height c \<longrightarrow> (\<forall>p. R Corruption p)"
        using Suc.prems(4) height_child [of c cs i ks] c(2) by (simp add: Nd)
      have "wp (sbind (insert_into crc fill key val (length val) levels (root_id c)) (\<lambda>r.
              case r of None \<Rightarrow> sret None | Some sp \<Rightarrow> absorb_split crc q sp)) (?G p) R p1"
      proof (rule wp_step [OF Suc.IH [OF tree_at_same [OF c(9) s1] c(5,6) l1]])
        fix r p2
        assume g: "grown crc p1 (set (pages c) \<union> A) (last (lo # ks1)) (hi_at hi ks2) (nxt_at nxt ys) (root_id c) (lead c)
          (height c) (bm_put key val (entries c)) r p2"
        obtain A' seps ts where n: "node_data crc p2 A' lo hi nxt i (ks1 @ seps @ ks2) (xs @ ts @ ys)"
            "pview crc p2 i = Some q" "concat (map entries ts) = bm_put key val (entries c)" "root_id (hd ts) = root_id c"
            "lead (hd ts) = lead c" "\<forall>t \<in> set ts. height t \<le> height c" "length ts = Suc (length seps)"
            "set (i # pages_of (xs @ ts @ ys)) \<union> A' = set (pages t) \<union> A"
            "case r of None \<Rightarrow> seps = [] | Some sp \<Rightarrow> seps = [sp_key sp] \<and> root_id (ts ! 1) = sp_right sp"
            "moved crc p1 (set (pages t) \<union> A) p2"
          using node_after_child [OF t1 q1 c(3) g] unfolding Nd c(1,2) .
        note D = node_dataD [OF n(1)]
        have kv: "bm_put key val (entries t) = concat (map entries (xs @ ts @ ys))" using put n(3) by simp
        have h: "\<forall>x \<in> set (xs @ ts @ ys). height x \<le> height t - 1"
          using hts(1) n(6) c(2) by (auto intro: order_trans)
        obtain t1' ts' where ts: "ts = t1' # ts'" "length ts' = length seps" using n(7) by (cases ts) auto
        have l: "lead t = lead (hd (xs @ ts @ ys))"
          using lead_Nd [OF q(5), of i] n(5) ts c(2) by (cases xs) (auto simp: Nd)
        have npf: "node_page_for q i (ks1 @ ks2) (xs @ t1' # ys)"
          using q(2-4) idq inner_cells_replace(1) [of t1' c "ks1 @ ks2" xs ys] inner_cells_replace(2) [of t1' c xs ys] n(4) ts
          by (simp add: node_page_for_def c(1,2))
        have mv: "moved crc p (set (pages t) \<union> A) p2" by (rule moved_trans [OF moved_same [OF s1] n(10)]) simp
        show "wp (case r of None \<Rightarrow> sret None | Some sp \<Rightarrow> absorb_split crc q sp) (?G p) R p2"
        proof (cases r)
          case None
          then have e: "seps = []" "ts' = []" using n(9) ts by auto
          let ?t = "Nd i (ks1 @ ks2) (xs @ t1' # ys)"
          have "shape (pview crc p2) lo hi nxt ?t"
            using shape_node [of "pview crc p2" i q "ks1 @ ks2" "xs @ t1' # ys"] n(2) npf D(2) e ts
            by (simp add: node_page_for_def)
          moreover have "pages_of [?t] = i # pages_of (xs @ ts @ ys)" by (simp add: ts e pages_of_def)
          moreover have "height ?t \<le> height t" using height_le [OF h, of i "ks1 @ ks2"] hts(2) by (simp add: ts e)
          moreover have "lead ?t = lead t" using lead_Nd [OF D(2), of i] l by (simp add: ts e)
          ultimately have "?G p None p2"
            unfolding grown_def using D(1,3,4) n(8) mv kv
            by (intro conjI exI [of _ A'] exI [of _ "[]"] exI [of _ "[?t]"]) (auto simp: ts e Nd)
          then show ?thesis unfolding None option.case by (rule wp_sret)
        next
          case (Some sp)
          then obtain t2 where t2: "ts = [t1', t2]" "seps = [sp_key sp]" "sp_right sp = root_id t2"
            using n(9) ts by (cases ts') auto
          have "wp (absorb_split crc q sp) (?G p2) R p2"
            using absorb_split_wp [OF n(1) [unfolded t2 append.simps] c(3) npf _ _ _ _ h [unfolded t2 append.simps],
                of sp "set (pages t) \<union> A" "bm_put key val (entries t)" "lead t" R] n(8) kv l hts(2) t2(3)
            by (simp add: t2 Nd)
          then show ?thesis unfolding Some option.case by (rule wp_conseq) (use grown_moved [OF _ mv] in auto)
        qed
      qed
      then show "wp (if is_leaf x then insert_into_leaf crc fill x key val (length val)
          else sbind (slift (child_for x key)) (\<lambda>child_id.
            sbind (insert_into crc fill key val (length val) levels child_id) (\<lambda>r.
              case r of None \<Rightarrow> sret None | Some sp \<Rightarrow> absorb_split crc x sp))) (?G p) R p1"
        using x q(7) by (simp only: if_False simp_thms) (rule wp_sbind_slift [OF child])
    qed
  qed
qed

section \<open>The new root\<close>

text \<open>
  \<open>bt_at crc p A t\<close>: the metadata points to the tree \<open>t\<close> that the pages of \<open>p\<close> hold, with
  \<open>A\<close> the pages no one owns.
\<close>

definition bt_at :: "(bytes \<Rightarrow> u32) \<Rightarrow> pager \<Rightarrow> nat set \<Rightarrow> tree \<Rightarrow> bool" where
  "bt_at crc p A t \<longleftrightarrow> tree_at crc p A [] None SENTINEL t \<and> md_root (pg_meta p) = root_id t"

text \<open>The metadata apart from the root and the allocator.\<close>

definition rest_meta :: "pager \<Rightarrow> nat \<times> nat \<times> nat \<times> nat" where
  "rest_meta p = (md_version (pg_meta p), md_tree_ts (pg_meta p), md_next_txn_id (pg_meta p), md_last_lsn (pg_meta p))"

lemma tmeta_rest: "tmeta (pg_meta p') = tmeta (pg_meta p) \<Longrightarrow> rest_meta p' = rest_meta p \<and> md_root (pg_meta p') = md_root (pg_meta p)"
  by (simp add: tmeta_def rest_meta_def)

text \<open>The effect of an update: the new tree holds \<open>m\<close>, and no page is lost.\<close>

definition bt_now :: "(bytes \<Rightarrow> u32) \<Rightarrow> pager \<Rightarrow> nat set \<Rightarrow> nat \<Rightarrow> (bytes \<times> bytes) list \<Rightarrow> pager \<Rightarrow> bool" where
  "bt_now crc p U ht m p' \<longleftrightarrow>
     (\<exists>A' t'. bt_at crc p' A' t' \<and> entries t' = m \<and> set (pages t') \<union> A' = U \<and> height t' \<le> ht) \<and> rest_meta p' = rest_meta p"

lemma set_root_now:
  assumes "tree_at crc p1 A' [] None SENTINEL t'" "entries t' = m" "set (pages t') \<union> A' = U" "height t' \<le> ht"
    and "rest_meta p1 = rest_meta p" "r = root_id t'"
  shows "bt_now crc p U ht m (set_meta ((pg_meta p1)\<lparr>md_root := r\<rparr>) p1)"
proof -
  note T = tree_atD [OF assms(1)]
  have "r \<notin> A'" using T(4) root_in_pages [of t'] assms(6) by auto
  then have "r < 2 ^ 32" using owned_bound(1) [OF T(1)] by simp
  note m = heap_set_root [OF T(1) this]
  have "bt_at crc (set_meta ((pg_meta p1)\<lparr>md_root := r\<rparr>) p1) A' t'"
    unfolding bt_at_def tree_at_def m using T m(1) assms(6) by simp
  moreover have "rest_meta (set_meta ((pg_meta p1)\<lparr>md_root := r\<rparr>) p1) = rest_meta p"
    using assms(5) by (simp add: rest_meta_def m)
  ultimately show ?thesis unfolding bt_now_def using assms(2-4) by blast
qed

lemma new_root_wp:
  assumes d: "node_data crc p A [] None SENTINEL i [k] [t1, t2]" and i: "root_id t1 = root"
    and q: "page_id q = i" "page_wf q" "cells q = []" "page_type q = Inr Internal" "\<not> is_leaf q"
    and U: "set (i # pages_of [t1, t2]) \<union> A = U" and ht: "\<forall>t \<in> {t1, t2}. height t \<le> ht" and m: "rest_meta p = rest_meta p0"
  shows "wp (sbind (slift (insert_cell_at (set_extra q root) 0 (encode_internal_cell k (root_id t2)))) (\<lambda>new_root.
       sbind (smod (write_page new_root)) (\<lambda>_.
       smod (\<lambda>p. set_meta ((pg_meta p)\<lparr>md_root := page_id new_root\<rparr>) p))))
     (\<lambda>_. bt_now crc p0 U (Suc ht) (entries t1 @ entries t2)) R p"
proof -
  note D = node_dataD [OF d]
  have b: "root < 4294967296" "length k \<le> MAX_KEY_SIZE" using D(7,8) i by auto
  note e = set_extra_fields [OF q(2) b(1)]
  let ?c = "encode_internal_cell k (root_id t2)"
  have "length ?c \<le> 1030" using b(2) by (simp add: encode_internal_cell_def page_consts)
  moreover have "used_bytes (set_extra q root) = 0" by (simp add: used_bytes_size e(2) q(3))
  ultimately obtain q2 where q2: "insert_cell_at (set_extra q root) 0 ?c = Inr q2" "page_wf q2" "cells q2 = [?c]"
      "header_rest q2 = header_rest (set_extra q root)"
    using insert_cell_at_ok [OF e(1), of 0 ?c] e(2) q(3) by (auto simp: page_consts)
  note hr = header_restD [OF q2(4)]
  have np: "node_page_for q2 i [k] [t1, t2]"
    using q2(2,3) hr e q i by (simp add: node_page_for_def inner_page_def inner_cells_def)
  note w = node_write [OF d np]
  have h: "height (Nd i [k] [t1, t2]) \<le> Suc ht" by (rule height_le) (use ht in auto)
  have m': "rest_meta (write_page q2 p) = rest_meta p0" using m w(3) by (simp add: rest_meta_def)
  have pid: "page_id q2 = i" using np by (simp add: node_page_for_def)
  have fin: "bt_now crc p0 U (Suc ht) (entries t1 @ entries t2)
      (set_meta ((pg_meta (write_page q2 p))\<lparr>md_root := i\<rparr>) (write_page q2 p))"
    by (rule set_root_now [OF w(1) _ _ h m']) (use U in \<open>auto simp: pages_of_def\<close>)
  have "heap_ok crc (write_page q2 p) A" "i < 2 ^ 32" using tree_atD(1) [OF w(1)] D(1,4) owned_bound(1) [of crc p A i] by auto
  note sr = heap_set_root(4) [OF this]
  show ?thesis
    by (rule wp_sbind_slift [OF q2(1)], rule wp_sbind_smod, unfold pid, rule wp_smod, rule fin, rule sr, rule w(4))
qed

lemma bt_insert_wp:
  assumes b: "bt_at crc p A t" and "MAX_DEPTH + 1 < height t \<longrightarrow> (\<forall>p. R Corruption p)"
    and "key = [] \<or> MAX_KEY_SIZE < length key \<or> 4294967296 \<le> length val \<longrightarrow> R InvalidArgument p"
  shows "wp (bt_insert crc fill key val)
     (\<lambda>_. bt_now crc p (set (pages t) \<union> A) (Suc (height t)) (bm_put key val (entries t))) R p"
proof (cases "key = [] \<or> MAX_KEY_SIZE < length key \<or> 4294967296 \<le> length val")
  case True
  then have "bt_insert crc fill key val p = (Inl InvalidArgument, p)" by (auto simp: bt_insert_def)
  then show ?thesis using True assms(3) by (simp add: wp_def)
next
  case False
  have t: "tree_at crc p A [] None SENTINEL t" "md_root (pg_meta p) = root_id t" using b by (auto simp: bt_at_def)
  let ?m = "bm_put key val (entries t)" and ?U = "set (pages t) \<union> A"
  let ?Q = "\<lambda>_. bt_now crc p ?U (Suc (height t)) ?m"
  have "wp (sbind (insert_into crc fill key val (length val) (MAX_DEPTH + 1) (root_id t)) (\<lambda>r.
      case r of None \<Rightarrow> sret ()
      | Some sp \<Rightarrow> sbind (allocate_page crc Internal) (\<lambda>new_root.
          sbind (slift (insert_cell_at (set_extra new_root (root_id t)) 0 (encode_internal_cell (sp_key sp) (sp_right sp)))) (\<lambda>new_root.
          sbind (smod (write_page new_root)) (\<lambda>_.
          smod (\<lambda>p. set_meta ((pg_meta p)\<lparr>md_root := page_id new_root\<rparr>) p)))))) ?Q R p"
  proof (rule wp_step [OF insert_into_wp [where R = R, OF t(1) _ _ _ _ assms(2)]])
    fix r p1
    assume g: "grown crc p ?U [] None SENTINEL (root_id t) (lead t) (height t) ?m r p1"
    obtain A' seps ts where a: "heap_ok crc p1 A'" "kids (shape (pview crc p1)) [] None SENTINEL seps ts"
      "distinct (pages_of ts)" "set (pages_of ts) \<inter> A' = {}" "set (pages_of ts) \<union> A' = ?U"
      "concat (map entries ts) = ?m" "root_id (hd ts) = root_id t" "\<forall>x \<in> set ts. height x \<le> height t"
      "case r of None \<Rightarrow> seps = [] | Some sp \<Rightarrow> seps = [sp_key sp] \<and> root_id (ts ! 1) = sp_right sp"
      "moved crc p ?U p1"
      using g unfolding grown_def by (elim exE conjE) (rule that)
    have z: "0 \<notin> ?U" using tree_atD(5) [OF t(1)] heap_okD(2) [OF tree_atD(1) [OF t(1)]] by simp
    have mt: "rest_meta p1 = rest_meta p" "md_root (pg_meta p1) = root_id t"
      using a(10) t(2) tmeta_rest [of p1 p] by (auto simp: moved_def)
    have len: "length ts = Suc (length seps)" by (rule kids_length [OF a(2)])
    show "wp (case r of None \<Rightarrow> sret ()
      | Some sp \<Rightarrow> sbind (allocate_page crc Internal) (\<lambda>new_root.
          sbind (slift (insert_cell_at (set_extra new_root (root_id t)) 0 (encode_internal_cell (sp_key sp) (sp_right sp)))) (\<lambda>new_root.
          sbind (smod (write_page new_root)) (\<lambda>_.
          smod (\<lambda>p. set_meta ((pg_meta p)\<lparr>md_root := page_id new_root\<rparr>) p))))) ?Q R p1"
    proof (cases r)
      case None
      then obtain t1 where ts: "ts = [t1]" "seps = []" using a(9) len by (cases ts) auto
      have "tree_at crc p1 A' [] None SENTINEL t1"
        unfolding tree_at_def using a(1-5) z ts by (auto simp: set_eq_iff)
      then have "bt_at crc p1 A' t1" using mt(2) a(7) ts by (simp add: bt_at_def)
      then have "?Q () p1" unfolding bt_now_def using a(5,6,8) mt(1) ts by (intro conjI exI [of _ A'] exI [of _ t1]) auto
      then show ?thesis unfolding None option.case by (rule wp_sret)
    next
      case (Some sp)
      then have sp: "seps = [sp_key sp]" "root_id (ts ! 1) = sp_right sp" using a(9) by auto
      then obtain t1 t2 where ts: "ts = [t1, t2]" using len by (cases ts; cases "tl ts") auto
      show ?thesis
        unfolding Some option.case
      proof (rule wp_step [OF heap_alloc_wp [OF a(1)]], elim exE conjE)
        fix q p2 buf
        let ?r = "page_id q"
        assume r: "?r \<in> A'" "?r \<noteq> 0" "?r < SENTINEL" "length buf = 4096" "q = page_new buf ?r Internal"
          "heap_ok crc p2 (A' - {?r})" "pview crc p2 = (pview crc p1)(?r := Some q)" "tmeta (pg_meta p2) = tmeta (pg_meta p1)"
        have f: "page_wf q" "cells q = []" "page_type q = Inr Internal" "\<not> is_leaf q"
          by (subst r(5), simp add: page_new_wf [OF r(4)] page_new_fields [OF r(4)])+
        have "kids (shape (pview crc p2)) [] None SENTINEL seps ts"
          by (rule kids_frame [OF a(2)]) (use a(4) r(1) in \<open>auto simp: r(7)\<close>)
        moreover have "?r \<notin> set (pages_of ts)" "0 \<notin> set (pages_of ts)" using a(4,5) r(1) z by auto
        ultimately have d: "node_data crc p2 (A' - {?r}) [] None SENTINEL ?r [sp_key sp] [t1, t2]"
          unfolding node_data_def using r(2,6) a(3,4) sp(1) ts by auto
        have "wp (sbind (slift (insert_cell_at (set_extra q (root_id t)) 0 (encode_internal_cell (sp_key sp) (root_id t2)))) (\<lambda>new_root.
            sbind (smod (write_page new_root)) (\<lambda>_.
            smod (\<lambda>p. set_meta ((pg_meta p)\<lparr>md_root := page_id new_root\<rparr>) p))))
            (\<lambda>_. bt_now crc p ?U (Suc (height t)) (entries t1 @ entries t2)) R p2"
          by (rule new_root_wp [OF d _ refl f])
            (use a(5,7,8) r(1) ts mt(1) tmeta_rest [OF r(8)] in auto)
        then show "wp (sbind (slift (insert_cell_at (set_extra q (root_id t)) 0 (encode_internal_cell (sp_key sp) (sp_right sp)))) (\<lambda>new_root.
            sbind (smod (write_page new_root)) (\<lambda>_.
            smod (\<lambda>p. set_meta ((pg_meta p)\<lparr>md_root := page_id new_root\<rparr>) p)))) ?Q R p2"
          using a(6) sp(2) ts by simp
      qed
    qed
  qed (use False in auto)
  moreover have "bt_insert crc fill key val p = sbind (insert_into crc fill key val (length val) (MAX_DEPTH + 1) (root_id t)) (\<lambda>r.
      case r of None \<Rightarrow> sret ()
      | Some sp \<Rightarrow> sbind (allocate_page crc Internal) (\<lambda>new_root.
          sbind (slift (insert_cell_at (set_extra new_root (root_id t)) 0 (encode_internal_cell (sp_key sp) (sp_right sp)))) (\<lambda>new_root.
          sbind (smod (write_page new_root)) (\<lambda>_.
          smod (\<lambda>p. set_meta ((pg_meta p)\<lparr>md_root := page_id new_root\<rparr>) p))))) p"
    using False unfolding bt_insert_def Let_def t(2) by (simp only: if_False de_Morgan_disj simp_thms)
  ultimately show ?thesis unfolding wp_def by simp
qed

end
