(* ===== verification/BTree_Zip.thy ===== *)
theory BTree_Zip
  imports BTree_Grow "HOL-Library.Multiset"
begin

text \<open>
  The shape of a tree as two independent statements, what the nodes hold (\<open>shp\<close>) and how the
  leaves are linked (\<open>leaf_chain\<close>), and trees with a hole: \<open>plug fs t\<close> puts \<open>t\<close> below the
  frames \<open>fs\<close>, deepest first, the way the deletion's path lists them.
\<close>

section \<open>Nodes without links\<close>

fun kin :: "(bytes \<Rightarrow> bytes option \<Rightarrow> tree \<Rightarrow> bool) \<Rightarrow> bytes \<Rightarrow> bytes option \<Rightarrow> bytes list \<Rightarrow> tree list \<Rightarrow> bool" where
  "kin B lo hi [] cs \<longleftrightarrow> (\<exists>c. cs = [c] \<and> B lo hi c)"
| "kin B lo hi (k # ks) [] \<longleftrightarrow> False"
| "kin B lo hi (k # ks) (c # cs) \<longleftrightarrow>
     lo < k \<and> lt_hi k hi \<and> length k \<le> MAX_KEY_SIZE \<and> B lo (Some k) c \<and> kin B k hi ks cs"

lemma kin_mono [mono]:
  "(\<And>a b c. P a b c \<longrightarrow> Q a b c) \<Longrightarrow> kin P lo hi ks cs \<longrightarrow> kin Q lo hi ks cs"
  by (induction P lo hi ks cs rule: kin.induct) auto

inductive shp :: "(nat \<Rightarrow> page option) \<Rightarrow> bytes \<Rightarrow> bytes option \<Rightarrow> tree \<Rightarrow> bool" for V where
  shp_leaf: "V i = Some q \<Longrightarrow> leaf_page q \<Longrightarrow> cells q = map entry_cell es \<Longrightarrow>
     \<forall>e \<in> set es. entry_ok V e \<and> lo \<le> fst e \<and> lt_hi (fst e) hi \<Longrightarrow> sorted_wrt (<) (map fst es) \<Longrightarrow>
     shp V lo hi (Lf i es)"
| shp_node: "V i = Some q \<Longrightarrow> inner_page q \<Longrightarrow> cells q = inner_cells ks (tl cs) \<Longrightarrow>
     extra q = root_id (hd cs) \<Longrightarrow> kin (shp V) lo hi ks cs \<Longrightarrow> shp V lo hi (Nd i ks cs)"

inductive_cases shp_LfE: "shp V lo hi (Lf i es)"
inductive_cases shp_NdE: "shp V lo hi (Nd i ks cs)"

lemma kin_length: "kin B lo hi ks cs \<Longrightarrow> length cs = Suc (length ks)"
  by (induction B lo hi ks cs rule: kin.induct) auto

lemma kin_cong:
  assumes "kin B lo hi ks cs" "\<And>c a b. c \<in> set cs \<Longrightarrow> B a b c \<Longrightarrow> B' a b c"
  shows "kin B' lo hi ks cs"
  using assms by (induction B lo hi ks cs rule: kin.induct) auto

lemma kids_kin:
  assumes "kids P lo hi nxt ks cs" "\<And>c a b n. c \<in> set cs \<Longrightarrow> P a b n c \<Longrightarrow> B a b c"
  shows "kin B lo hi ks cs"
  using assms by (induction P lo hi nxt ks cs rule: kids.induct) auto

lemma kin_kids:
  assumes "kin B lo hi ks cs" "leaf_chain V (concat (map leaves cs)) nxt"
    and "\<And>c a b n. c \<in> set cs \<Longrightarrow> B a b c \<Longrightarrow> leaves c \<noteq> [] \<and> (leaf_chain V (leaves c) n \<longrightarrow> P a b n c)"
  shows "kids P lo hi nxt ks cs"
  using assms
proof (induction B lo hi ks cs rule: kin.induct)
  case (3 B lo hi k ks c cs)
  then obtain c' cs' where cs: "cs = c' # cs'" by (cases ks; cases cs) auto
  have "leaves c' \<noteq> []" using 3(2,4) cs by (cases ks; cases cs') auto
  then have n: "fst (hd (concat (map leaves cs))) = lead c'" "concat (map leaves cs) \<noteq> []"
    by (simp_all add: cs lead_leaves)
  have ch: "leaf_chain V (leaves c) (lead c')" "leaf_chain V (concat (map leaves cs)) nxt"
    using 3(3) by (simp_all only: list.map concat.simps leaf_chain_append n simp_thms if_False)
  have "kids P k hi nxt ks cs" by (rule 3(1)) (use 3(2,4) ch(2) in auto)
  moreover have "P lo (Some k) (lead c') c" using 3(2,4) ch(1) by auto
  ultimately show ?case using 3(2) cs by auto
qed auto

lemma shp_leaves: "shp V lo hi t \<Longrightarrow> leaves t \<noteq> []"
proof (induction t arbitrary: lo hi rule: tree.induct)
  case (Nd i ks cs)
  then obtain K: "kin (shp V) lo hi ks cs" by (auto elim: shp_NdE)
  then obtain c cs' where "cs = c # cs'" "\<exists>a b. shp V a b c" by (cases ks; cases cs) auto
  then show ?case using Nd.IH by auto
qed simp

lemma shape_iff: "shape V lo hi nxt t \<longleftrightarrow> shp V lo hi t \<and> leaf_chain V (leaves t) nxt"
proof
  assume s: "shape V lo hi nxt t"
  have "shp V lo hi t" using s
  proof (induction t arbitrary: lo hi nxt rule: tree.induct)
    case (Lf i es)
    then show ?case by (elim shape_LfE) (rule shp_leaf, auto)
  next
    case (Nd i ks cs)
    from Nd.prems show ?case by (elim shape_NdE) (rule shp_node, assumption+, erule kids_kin, rule Nd.IH)
  qed
  then show "shp V lo hi t \<and> leaf_chain V (leaves t) nxt" using shape_leaf_chain [OF s] by simp
next
  assume "shp V lo hi t \<and> leaf_chain V (leaves t) nxt"
  then show "shape V lo hi nxt t"
  proof (induction t arbitrary: lo hi nxt rule: tree.induct)
    case (Lf i es)
    then show ?case by (elim conjE shp_LfE) (rule shape_leaf, auto simp: leaf_at_def)
  next
    case (Nd i ks cs)
    then obtain q where q: "V i = Some q" "inner_page q" "cells q = inner_cells ks (tl cs)" "extra q = root_id (hd cs)"
        "kin (shp V) lo hi ks cs" by (auto elim: shp_NdE)
    have "kids (shape V) lo hi nxt ks cs"
      by (rule kin_kids [OF q(5)]) (use Nd in \<open>auto dest: shp_leaves\<close>)
    then show ?case by (rule shape_node [of V, OF q(1-4)])
  qed
qed

lemma shp_weaken:
  assumes "shp V lo hi t" "lo' \<le> lo" "le_hi hi hi'"
  shows "shp V lo' hi' t"
  using assms
proof (induction t arbitrary: lo hi lo' hi' rule: tree.induct)
  case (Lf i es)
  then show ?case
    by (elim shp_LfE) (rule shp_leaf, auto intro: order_trans lt_le_hi)
next
  case (Nd i ks cs)
  then obtain q where q: "V i = Some q" "inner_page q" "cells q = inner_cells ks (tl cs)" "extra q = root_id (hd cs)"
      "kin (shp V) lo hi ks cs" by (auto elim: shp_NdE)
  have "kin (shp V) lo' hi' ks cs"
    using q(5) Nd.prems(2,3) Nd.IH
  proof (induction "shp V" lo hi ks cs arbitrary: lo' rule: kin.induct)
    case (3 lo hi k ks c cs)
    have "kin (shp V) k hi' ks cs"
      by (rule 3(1)) (use 3(2,4) in auto, rule 3(5), auto)
    moreover have "shp V lo' (Some k) c" by (rule 3(5)) (use 3(2,3) in auto)
    ultimately show ?case using 3(2-4) by (auto intro: le_less_trans lt_le_hi)
  next
    case (1 lo hi cs)
    then obtain c where "cs = [c]" "shp V lo hi c" by auto
    then show ?case using 1(4) [of c lo hi lo' hi'] 1(2,3) by auto
  qed simp
  then show ?case by (rule shp_node [of V, OF q(1-4)])
qed

section \<open>A child of a node\<close>

lemma kin_child:
  assumes "kin B lo hi (ks1 @ ks2) (xs @ c # ys)" "length xs = length ks1"
  shows "B (last (lo # ks1)) (hi_at hi ks2) c"
  using assms
proof (induction ks1 arbitrary: lo xs)
  case Nil
  then show ?case by (cases ks2) (auto simp: hi_at_def)
next
  case (Cons k ks1)
  then obtain x xs' where xs: "xs = x # xs'" by (cases xs) auto
  have "B (last (k # ks1)) (hi_at hi ks2) c" by (rule Cons.IH [of k xs']) (use Cons.prems xs in auto)
  then show ?case by simp
qed

lemma kin_replace:
  assumes "kin B lo hi (ks1 @ ks2) (xs @ c # ys)" "length xs = length ks1"
    and "B (last (lo # ks1)) (hi_at hi ks2) c \<Longrightarrow> B' (last (lo # ks1)) (hi_at hi ks2) c'"
    and "\<And>x a b. x \<in> set xs \<union> set ys \<Longrightarrow> B a b x \<Longrightarrow> B' a b x"
  shows "kin B' lo hi (ks1 @ ks2) (xs @ c' # ys)"
  using assms
proof (induction ks1 arbitrary: lo xs)
  case Nil
  then show ?case by (cases ks2) (auto simp: hi_at_def intro: kin_cong)
next
  case (Cons k ks1)
  then obtain x xs' where xs: "xs = x # xs'" by (cases xs) auto
  have "kin B' k hi (ks1 @ ks2) (xs' @ c' # ys)" by (rule Cons.IH) (use Cons.prems xs in auto)
  then show ?case using Cons.prems(1,4) xs by auto
qed

text \<open>Removing a child together with a separator next to it.\<close>

lemma kin_remove_first:
  assumes "kin (shp V) lo hi (k # ks) (c # cs)"
  shows "kin (shp V) lo hi ks cs"
proof -
  have k: "lo < k" "kin (shp V) k hi ks cs" using assms by auto
  show ?thesis
    using k(2)
  proof (cases ks)
    case (Cons k' ks')
    then show ?thesis using k by (cases cs) (auto intro: shp_weaken [OF _ less_imp_le])
  next
    case Nil
    then show ?thesis using k shp_weaken [of V k hi _ lo hi] by auto
  qed
qed

lemma kin_remove:
  assumes "kin (shp V) lo hi (ks1 @ k # ks2) (xs @ c # ys)" "length xs = Suc (length ks1)"
  shows "kin (shp V) lo hi (ks1 @ ks2) (xs @ ys)"
  using assms
proof (induction ks1 arbitrary: lo xs)
  case Nil
  then obtain x where xs: "xs = [x]" by (auto simp: length_Suc_conv)
  have k: "lo < k" "lt_hi k hi" "shp V lo (Some k) x" "kin (shp V) k hi ks2 (c # ys)" using Nil(1) xs by auto
  show ?case
  proof (cases ks2)
    case ks2: Nil
    have "le_hi (Some k) hi" using k(2) by (cases hi) (auto simp: le_hi_def)
    then show ?thesis using k(3,4) ks2 xs by (auto intro: shp_weaken)
  next
    case (Cons k' ks')
    have "shp V lo (Some k') x" by (rule shp_weaken [OF k(3)]) (use k(4) Cons in \<open>auto simp: le_hi_def\<close>)
    then show ?thesis using k Cons xs by auto
  qed
next
  case (Cons k' ks1)
  then obtain x xs' where xs: "xs = x # xs'" by (cases xs) auto
  have "kin (shp V) k' hi (ks1 @ ks2) (xs' @ ys)" by (rule Cons.IH) (use Cons.prems xs in auto)
  then show ?case using Cons.prems(1) xs by auto
qed

section \<open>Trees with a hole\<close>

record frame =
  fr_id :: nat
  fr_ks1 :: "bytes list"
  fr_ks2 :: "bytes list"
  fr_xs :: "tree list"
  fr_ys :: "tree list"

definition fill :: "frame \<Rightarrow> tree \<Rightarrow> tree" where
  "fill f t = Nd (fr_id f) (fr_ks1 f @ fr_ks2 f) (fr_xs f @ t # fr_ys f)"

fun plug :: "frame list \<Rightarrow> tree \<Rightarrow> tree" where
  "plug [] t = t"
| "plug (f # fs) t = plug fs (fill f t)"

definition frame_ok :: "frame \<Rightarrow> bool" where
  "frame_ok f \<longleftrightarrow> length (fr_xs f) = length (fr_ks1 f) \<and> length (fr_ys f) = length (fr_ks2 f)"

definition path_of :: "frame list \<Rightarrow> (nat \<times> nat) list" where
  "path_of fs = map (\<lambda>f. (fr_id f, length (fr_xs f))) fs"

fun frame_pages :: "frame list \<Rightarrow> nat list" where
  "frame_pages [] = []"
| "frame_pages (f # fs) = frame_pages fs @ fr_id f # pages_of (fr_xs f) @ pages_of (fr_ys f)"

fun before :: "frame list \<Rightarrow> (nat \<times> entry list) list" where
  "before [] = []"
| "before (f # fs) = before fs @ concat (map leaves (fr_xs f))"

fun after :: "frame list \<Rightarrow> (nat \<times> entry list) list" where
  "after [] = []"
| "after (f # fs) = concat (map leaves (fr_ys f)) @ after fs"

lemma leaves_plug: "leaves (plug fs t) = before fs @ leaves t @ after fs"
  by (induction fs arbitrary: t) (auto simp: fill_def)

lemma pages_plug: "mset (pages (plug fs t)) = mset (frame_pages fs) + mset (pages t)"
  by (induction fs arbitrary: t) (auto simp: fill_def pages_of_def)

lemma set_pages_plug: "set (pages (plug fs t)) = set (frame_pages fs) \<union> set (pages t)"
  using arg_cong [OF pages_plug, of set_mset fs t] by simp

lemma distinct_plug:
  "distinct (pages (plug fs t)) \<longleftrightarrow>
     distinct (frame_pages fs) \<and> distinct (pages t) \<and> set (frame_pages fs) \<inter> set (pages t) = {}"
proof -
  have "mset (pages (plug fs t)) = mset (frame_pages fs @ pages t)" by (simp add: pages_plug)
  then have "distinct (pages (plug fs t)) \<longleftrightarrow> distinct (frame_pages fs @ pages t)" by (rule mset_eq_imp_distinct_iff)
  then show ?thesis by simp
qed

lemma height_plug: "height t \<le> height (plug fs t)"
proof (induction fs arbitrary: t)
  case (Cons f fs)
  have "height t \<le> height (fill f t)" unfolding fill_def by (rule less_imp_le, rule height_child) simp
  then show ?case using Cons [of "fill f t"] by simp
qed simp

lemma root_plug: "root_id t' = root_id t \<Longrightarrow> root_id (plug fs t') = root_id (plug fs t)"
  by (induction fs arbitrary: t t') (auto simp: fill_def)

text \<open>
  Replacing what is in the hole by a tree with the same root and the same bounds, when the
  pages of the frames keep what they hold up to the links of the leaves.
\<close>

definition relinked :: "(nat \<Rightarrow> page option) \<Rightarrow> (nat \<Rightarrow> page option) \<Rightarrow> nat \<Rightarrow> bool" where
  "relinked V V' j \<longleftrightarrow>
     V' j = V j \<or> (\<exists>q n. V j = Some q \<and> leaf_page q \<and> n < 4294967296 \<and> V' j = Some (set_extra q n))"

lemma chain_relinked:
  "\<forall>j \<in> set os. relinked V V' j \<Longrightarrow> chain_at V h os v \<Longrightarrow> chain_at V' h os v"
  by (induction os arbitrary: h v) (auto simp: relinked_def leaf_page_def)

lemma entry_relinked: "\<forall>j \<in> set (entry_pages e). relinked V V' j \<Longrightarrow> entry_ok V e \<Longrightarrow> entry_ok V' e"
  by (auto simp: entry_ok_def entry_pages_def split: prod.splits option.splits intro: chain_relinked [of _ V V'])

lemma shp_relinked:
  assumes "shp V lo hi t" "\<forall>j \<in> set (pages t). relinked V V' j"
  shows "shp V' lo hi t"
  using assms
proof (induction t arbitrary: lo hi rule: tree.induct)
  case (Lf i es)
  then obtain q where q: "V i = Some q" "leaf_page q" "cells q = map entry_cell es"
      "\<forall>e \<in> set es. entry_ok V e \<and> lo \<le> fst e \<and> lt_hi (fst e) hi" "sorted_wrt (<) (map fst es)"
    by (auto elim: shp_LfE)
  have "\<exists>q'. V' i = Some q' \<and> leaf_page q' \<and> cells q' = cells q"
    using Lf.prems(2) q(1,2) set_extra_fields [of q] by (auto simp: relinked_def leaf_page_def)
  moreover have "\<forall>e \<in> set es. entry_ok V' e \<and> lo \<le> fst e \<and> lt_hi (fst e) hi"
    using q(4) entry_relinked Lf.prems(2) by fastforce
  ultimately show ?case using q(3,5) by (metis shp_leaf)
next
  case (Nd i ks cs)
  then obtain q where q: "V i = Some q" "inner_page q" "cells q = inner_cells ks (tl cs)" "extra q = root_id (hd cs)"
      "kin (shp V) lo hi ks cs" by (auto elim: shp_NdE)
  have "V' i = Some q" using Nd.prems(2) q(1,2) by (auto simp: relinked_def leaf_page_def inner_page_def)
  moreover have "kin (shp V') lo hi ks cs"
    by (rule kin_cong [OF q(5)], rule Nd.IH) (use Nd.prems(2) in auto)
  ultimately show ?case by (intro shp_node [of V' i q] q(2-4))
qed

lemma shp_plug_replace:
  assumes "shp V lo hi (plug fs c)" "root_id c' = root_id c" "\<forall>j \<in> set (frame_pages fs). relinked V V' j"
    and "\<forall>f \<in> set fs. frame_ok f" "\<And>a b. shp V a b c \<Longrightarrow> shp V' a b c'"
  shows "shp V' lo hi (plug fs c')"
  using assms
proof (induction fs arbitrary: c c')
  case (Cons f fs)
  show ?case
    unfolding plug.simps
  proof (rule Cons.IH [of "fill f c"])
    fix a b assume "shp V a b (fill f c)"
    then obtain q where q: "V (fr_id f) = Some q" "inner_page q"
        "cells q = inner_cells (fr_ks1 f @ fr_ks2 f) (tl (fr_xs f @ c # fr_ys f))"
        "extra q = root_id (hd (fr_xs f @ c # fr_ys f))" "kin (shp V) a b (fr_ks1 f @ fr_ks2 f) (fr_xs f @ c # fr_ys f)"
      unfolding fill_def by (auto elim: shp_NdE)
    have "V' (fr_id f) = Some q"
      using Cons.prems(3) q(1,2) by (auto simp: relinked_def leaf_page_def inner_page_def)
    moreover have "kin (shp V') a b (fr_ks1 f @ fr_ks2 f) (fr_xs f @ c' # fr_ys f)"
    proof (rule kin_replace [OF q(5)])
      show "length (fr_xs f) = length (fr_ks1 f)" using Cons.prems(4) by (simp add: frame_ok_def)
      fix x a b assume "x \<in> set (fr_xs f) \<union> set (fr_ys f)" "shp V a b x"
      then show "shp V' a b x" by (elim shp_relinked) (use Cons.prems(3) in \<open>auto simp: pages_of_def\<close>)
    qed (rule Cons.prems(5))
    ultimately show "shp V' a b (fill f c')"
      unfolding fill_def using inner_cells_replace [OF Cons.prems(2)] q(2-4) by (intro shp_node [of V' _ q]) auto
  qed (use Cons.prems in \<open>auto simp: fill_def\<close>)
qed simp

end
