(* ===== verification/BTree_Path.thy ===== *)
theory BTree_Path
  imports BTree_Zip
begin

text \<open>
  The reads of a deletion: the descent that records its path, the ancestors that lose their
  only child, and the leaf in front of the one that goes away. \<open>hole_at crc p A fs c\<close>: the
  pages of \<open>p\<close> hold the tree \<open>plug fs c\<close> except that nothing is said about the part \<open>c\<close>,
  which may be under change.
\<close>

lemma plug_append: "plug (fs @ fs') t = plug fs' (plug fs t)"
  by (induction fs arbitrary: t) auto

lemma tree_at_plug:
  assumes "tree_at crc p A lo hi nxt (plug fs c)" "\<forall>f \<in> set fs. frame_ok f"
  shows "\<exists>a b n. tree_at crc p A a b n c"
  using assms
proof (induction fs arbitrary: c)
  case (Cons f fs)
  then obtain a b n where "tree_at crc p A a b n (fill f c)" by fastforce
  then have t: "tree_at crc p A a b n (Nd (fr_id f) (fr_ks1 f @ fr_ks2 f) (fr_xs f @ c # fr_ys f))"
    by (simp add: fill_def)
  have K: "kids (shape (pview crc p)) a b n (fr_ks1 f @ fr_ks2 f) (fr_xs f @ c # fr_ys f)"
    using tree_atD(2) [OF t] by (auto elim: shape_NdE)
  have "length (fr_xs f) = length (fr_ks1 f)" using Cons.prems(2) by (simp add: frame_ok_def)
  from kids_child [OF K this] show ?case using tree_atD [OF t] unfolding tree_at_def by fastforce
qed auto

definition hole_at :: "(bytes \<Rightarrow> u32) \<Rightarrow> pager \<Rightarrow> nat set \<Rightarrow> frame list \<Rightarrow> tree \<Rightarrow> bool" where
  "hole_at crc p A fs c \<longleftrightarrow>
     heap_ok crc p A \<and> (\<forall>f \<in> set fs. frame_ok f) \<and> set (frame_pages fs) \<inter> A = {} \<and>
     (\<exists>p0 A0 lo hi nxt. tree_at crc p0 A0 lo hi nxt (plug fs c) \<and>
        (\<forall>j \<in> set (frame_pages fs). pview crc p j = pview crc p0 j))"

lemma hole_atD:
  assumes "hole_at crc p A fs c"
  shows "heap_ok crc p A" "pager_ok crc p" "f \<in> set fs \<Longrightarrow> frame_ok f" "set (frame_pages fs) \<inter> A = {}"
  using assms heap_okD(1) unfolding hole_at_def by blast+

lemma hole_at_frame:
  assumes "hole_at crc p A fs c" "heap_ok crc p' A'" "set (frame_pages fs) \<inter> A' = {}"
    and "\<And>j. j \<in> set (frame_pages fs) \<Longrightarrow> pview crc p' j = pview crc p j"
  shows "hole_at crc p' A' fs c"
  using assms unfolding hole_at_def by (metis (no_types, lifting))

lemma hole_at_same: "hole_at crc p A fs c \<Longrightarrow> same_view crc p p' \<Longrightarrow> hole_at crc p' A fs c"
  by (rule hole_at_frame) (auto simp: hole_at_def same_view_def intro: same_view_heap)

lemma hole_at_up: "hole_at crc p A (f # fs) c \<Longrightarrow> hole_at crc p A fs (fill f c)"
  unfolding hole_at_def by fastforce

text \<open>The node of the deepest frame and its children beside the hole.\<close>

lemma hole_node:
  assumes "hole_at crc p A (f # fs) c"
  obtains q where "pview crc p (fr_id f) = Some q" "inner_page q" "page_id q = fr_id f"
    "cells q = inner_cells (fr_ks1 f @ fr_ks2 f) (tl (fr_xs f @ c # fr_ys f))"
    "extra q = root_id (hd (fr_xs f @ c # fr_ys f))"
    "num_keys q = length (fr_ks1 f @ fr_ks2 f)" "\<not> is_leaf q"
    "\<And>s. s \<le> length (fr_ks1 f @ fr_ks2 f) \<Longrightarrow> child_at q s = Inr (root_id ((fr_xs f @ c # fr_ys f) ! s))"
    "\<And>x. x \<in> set (fr_xs f) \<union> set (fr_ys f) \<Longrightarrow> \<exists>a b n. tree_at crc p A a b n x"
    "\<forall>c \<in> set (fr_xs f @ c # fr_ys f). root_id c < 4294967296"
    "\<forall>k \<in> set (fr_ks1 f @ fr_ks2 f). length k \<le> MAX_KEY_SIZE"
proof -
  obtain p0 A0 lo hi nxt where h: "heap_ok crc p A" "\<forall>g \<in> set (f # fs). frame_ok g" "set (frame_pages (f # fs)) \<inter> A = {}"
      "tree_at crc p0 A0 lo hi nxt (plug fs (fill f c))"
      "\<And>j. j \<in> set (frame_pages (f # fs)) \<Longrightarrow> pview crc p j = pview crc p0 j"
    using assms unfolding hole_at_def plug.simps by (elim conjE exE) (rule that, assumption+, erule bspec)
  obtain a b n where t: "tree_at crc p0 A0 a b n (Nd (fr_id f) (fr_ks1 f @ fr_ks2 f) (fr_xs f @ c # fr_ys f))"
    using tree_at_plug [OF h(4)] h(2) by (auto simp: fill_def)
  obtain q where q: "pview crc p0 (fr_id f) = Some q" "inner_page q"
      "cells q = inner_cells (fr_ks1 f @ fr_ks2 f) (tl (fr_xs f @ c # fr_ys f))"
      "extra q = root_id (hd (fr_xs f @ c # fr_ys f))"
      "kids (shape (pview crc p0)) a b n (fr_ks1 f @ fr_ks2 f) (fr_xs f @ c # fr_ys f)"
      "num_keys q = length (fr_ks1 f @ fr_ks2 f)" "\<not> is_leaf q"
      "\<And>s. s \<le> length (fr_ks1 f @ fr_ks2 f) \<Longrightarrow> child_at q s = Inr (root_id ((fr_xs f @ c # fr_ys f) ! s))"
      "\<forall>x \<in> set (fr_xs f @ c # fr_ys f). root_id x < 4294967296"
    using node_page [OF t] by metis
  have q1: "pview crc p (fr_id f) = Some q" using h(5) q(1) by simp
  have id: "page_id q = fr_id f" using pview_fields(2) [OF heap_okD(1) [OF h(1)] q1] .
  have "\<exists>a b n. tree_at crc p A a b n x" if x: "x \<in> set (fr_xs f) \<union> set (fr_ys f)" for x
  proof -
    obtain l r where lr: "fr_xs f @ c # fr_ys f = l @ x # r" using x split_list [of x "fr_xs f @ c # fr_ys f"] by auto
    define ks1 where "ks1 = take (length l) (fr_ks1 f @ fr_ks2 f)"
    define ks2 where "ks2 = drop (length l) (fr_ks1 f @ fr_ks2 f)"
    have ks: "fr_ks1 f @ fr_ks2 f = ks1 @ ks2" unfolding ks1_def ks2_def by (rule append_take_drop_id [symmetric])
    have len: "length l = length ks1" using kids_length [OF q(5)] arg_cong [OF lr, of length] by (simp add: ks1_def)
    have s0: "shape (pview crc p0) (last (a # ks1)) (hi_at b ks2) (nxt_at n r) x"
      by (rule kids_child [OF q(5) [unfolded lr ks] len])
    have sub: "set (pages x) \<subseteq> set (frame_pages (f # fs))" using x by (auto simp: pages_of_def)
    have "shape (pview crc p) (last (a # ks1)) (hi_at b ks2) (nxt_at n r) x"
      by (rule shape_cong [OF s0], rule h(5)) (use sub in blast)
    moreover have "distinct (pages x)" "0 \<notin> set (pages x)"
      using tree_atD(3,5) [OF t] x by (auto simp: distinct_concat_iff)
    ultimately show ?thesis unfolding tree_at_def using h(1,3) sub by blast
  qed
  moreover have "\<forall>k \<in> set (fr_ks1 f @ fr_ks2 f). length k \<le> MAX_KEY_SIZE" using kids_seps [OF q(5)] by blast
  ultimately show thesis using that [OF q1 q(2) id q(3,4,6,7,8) _ q(9)] by blast
qed

section \<open>The descent\<close>

definition frames_around :: "bytes \<Rightarrow> frame list \<Rightarrow> bool" where
  "frames_around key fs \<longleftrightarrow> (\<forall>f \<in> set fs. frame_ok f) \<and> around key (before fs) (after fs)"

lemma descend_wp:
  assumes "tree_at crc p A lo hi nxt c" "lo \<le> key" "lt_hi key hi" "n < height c \<longrightarrow> (\<forall>p. R Corruption p)"
    and "frames_around key fs"
  shows "wp (descend crc key n (root_id c) (path_of fs)) (\<lambda>(i, q, path) p'. same_view crc p p' \<and> pview crc p i = Some q \<and>
      (\<exists>fs' es. plug fs' (Lf i es) = plug fs c \<and> path = path_of fs' \<and> frames_around key fs')) R p"
  using assms
proof (induction n arbitrary: p lo hi nxt c fs)
  case 0
  have "0 < height c" by (cases c) auto
  then show ?case using 0(4) unfolding descend.simps by (intro wp_serr) auto
next
  case (Suc n)
  note t = tree_atD [OF Suc.prems(1)]
  let ?Q = "\<lambda>(i, q, path) p'. same_view crc p p' \<and> pview crc p i = Some q \<and>
      (\<exists>fs' es. plug fs' (Lf i es) = plug fs c \<and> path = path_of fs' \<and> frames_around key fs')"
  show ?case
  proof (cases c)
    case (Lf i es)
    then obtain q where q: "pview crc p i = Some q" "leaf_page q" using t(2) by (auto elim: shape_LfE)
    show ?thesis
      unfolding descend.simps
    proof (rule wp_step [OF read_page_wp [OF t(6), of "root_id c" q]])
      show "pview crc p (root_id c) = Some q" using q(1) by (simp add: Lf)
      fix x p1 assume x: "x = q \<and> same_view crc p p1"
      then have "?Q (root_id c, x, path_of fs) p1" using q(1) Suc.prems(5) by (auto simp: Lf)
      then have "wp (sret (root_id c, x, path_of fs)) ?Q R p1" by (rule wp_sret)
      then show "wp (if is_leaf x then sret (root_id c, x, path_of fs)
          else sbind (slift (child_slot_for x key)) (\<lambda>slt. sbind (slift (child_at x slt)) (\<lambda>child.
            descend crc key n child ((root_id c, slt) # path_of fs)))) ?Q R p1"
        using x q(2) by (simp add: leaf_page_def)
    qed
  next
    case (Nd i ks cs)
    obtain q where q: "pview crc p i = Some q" "kids (shape (pview crc p)) lo hi nxt ks cs" "keys_are q ks"
        "\<not> is_leaf q" "sorted_wrt (<) ks" "\<And>s. s \<le> length ks \<Longrightarrow> child_at q s = Inr (root_id (cs ! s))"
        "length cs = Suc (length ks)"
      using node_page Suc.prems(1) unfolding Nd by metis
    obtain ks1 ks2 xs d ys where d: "ks = ks1 @ ks2" "cs = xs @ d # ys" "length xs = length ks1"
        "length xs = slot_of ks key" "last (lo # ks1) \<le> key" "lt_hi key (hi_at hi ks2)"
        "\<forall>k \<in> set ks1. k \<le> key" "\<forall>k \<in> set ks2. key < k"
        "tree_at crc p A (last (lo # ks1)) (hi_at hi ks2) (nxt_at nxt ys) d"
      using node_child [OF Suc.prems(1) [unfolded Nd] Suc.prems(2,3) q(2)] by metis
    let ?f = "\<lparr>fr_id = i, fr_ks1 = ks1, fr_ks2 = ks2, fr_xs = xs, fr_ys = ys\<rparr>"
    have pl: "plug (?f # fs) d = plug fs c" by (simp add: fill_def Nd d(1,2))
    note ar = kids_around [OF q(2) [unfolded d(1,2)] d(3,7,8)]
    have fa: "frames_around key (?f # fs)"
      using Suc.prems(5) q(7) d(1-3) ar
      unfolding frames_around_def around_def by (auto simp: frame_ok_def leaves_ctx)
    have slot: "child_slot_for q key = Inr (length xs)" using child_slot_for_ok [OF q(3,5)] d(4) by simp
    have ch: "child_at q (length xs) = Inr (root_id d)"
      using q(6) [of "length xs"] d(1-3) by (simp add: nth_append)
    have l1: "n < height d \<longrightarrow> (\<forall>p. R Corruption p)"
      using Suc.prems(4) height_child [of d cs i ks] d(2) by (simp add: Nd)
    show ?thesis
      unfolding descend.simps
    proof (rule wp_step [OF read_page_wp [OF t(6), of "root_id c" q]])
      show "pview crc p (root_id c) = Some q" using q(1) by (simp add: Nd)
      fix x p1 assume x: "x = q \<and> same_view crc p p1"
      then have s1: "same_view crc p p1" by simp
      have "wp (descend crc key n (root_id d) (path_of (?f # fs))) ?Q R p1"
        by (rule wp_conseq [OF Suc.IH [OF tree_at_same [OF d(9) s1] d(5,6) l1 fa]])
          (use s1 same_view_trans [OF s1] in \<open>auto simp del: plug.simps simp: pl same_view_def\<close>)
      then have "wp (sbind (slift (child_slot_for q key)) (\<lambda>slt. sbind (slift (child_at q slt)) (\<lambda>child.
            descend crc key n child ((i, slt) # path_of fs)))) ?Q R p1"
        by (intro wp_sbind_slift [OF slot] wp_sbind_slift [OF ch]) (simp add: path_of_def)
      then show "wp (if is_leaf x then sret (root_id c, x, path_of fs)
          else sbind (slift (child_slot_for x key)) (\<lambda>slt. sbind (slift (child_at x slt)) (\<lambda>child.
            descend crc key n child ((root_id c, slt) # path_of fs)))) ?Q R p1"
        using x q(4) by (simp add: Nd)
    qed
  qed
qed

section \<open>Ancestors and neighbours\<close>

lemma pop_orphans_wp:
  assumes "hole_at crc p A fs c"
  shows "wp (pop_orphans crc (path_of fs) os) (\<lambda>(os', path) p'. same_view crc p p' \<and>
      (\<exists>fo fs'. fs = fo @ fs' \<and> os' = os @ map fr_id fo \<and> path = path_of fs' \<and>
         (\<forall>f \<in> set fo. fr_ks1 f @ fr_ks2 f = []) \<and> (fs' \<noteq> [] \<longrightarrow> fr_ks1 (hd fs') @ fr_ks2 (hd fs') \<noteq> []))) R p"
  using assms
proof (induction fs arbitrary: p c os)
  case Nil
  then have "same_view crc p p" by (auto simp: hole_at_def intro: same_view_refl heap_okD)
  then show ?case by (auto simp: path_of_def wp_def)
next
  case (Cons f fs)
  obtain q where q: "pview crc p (fr_id f) = Some q" "num_keys q = length (fr_ks1 f @ fr_ks2 f)"
    using hole_node [OF Cons.prems] by metis
  have ok: "pager_ok crc p" by (rule hole_atD [OF Cons.prems])
  let ?Q = "\<lambda>(os', path) p'. same_view crc p p' \<and>
      (\<exists>fo fs'. f # fs = fo @ fs' \<and> os' = os @ map fr_id fo \<and> path = path_of fs' \<and>
         (\<forall>f \<in> set fo. fr_ks1 f @ fr_ks2 f = []) \<and> (fs' \<noteq> [] \<longrightarrow> fr_ks1 (hd fs') @ fr_ks2 (hd fs') \<noteq> []))"
  have "wp (sbind (read_page crc (fr_id f)) (\<lambda>q. if num_keys q = 0 then pop_orphans crc (path_of fs) (os @ [fr_id f])
      else sret (os, (fr_id f, length (fr_xs f)) # path_of fs))) ?Q R p"
  proof (rule wp_step [OF read_page_wp [OF ok q(1)]])
    fix x p1 assume x: "x = q \<and> same_view crc p p1"
    then have s1: "same_view crc p p1" by simp
    show "wp (if num_keys x = 0 then pop_orphans crc (path_of fs) (os @ [fr_id f])
        else sret (os, (fr_id f, length (fr_xs f)) # path_of fs)) ?Q R p1"
    proof (rule wp_if)
      assume n: "num_keys x = 0"
      show "wp (pop_orphans crc (path_of fs) (os @ [fr_id f])) ?Q R p1"
      proof (rule wp_conseq [OF Cons.IH [OF hole_at_same [OF hole_at_up [OF Cons.prems] s1]]], clarify)
        fix p' fo fs'
        assume a: "same_view crc p1 p'" "fs = fo @ fs'" "\<forall>f \<in> set fo. fr_ks1 f @ fr_ks2 f = []"
          "fs' \<noteq> [] \<longrightarrow> fr_ks1 (hd fs') @ fr_ks2 (hd fs') \<noteq> []"
        show "same_view crc p p' \<and> (\<exists>fo' fs''. f # fo @ fs' = fo' @ fs'' \<and>
            (os @ [fr_id f]) @ map fr_id fo = os @ map fr_id fo' \<and> path_of fs' = path_of fs'' \<and>
            (\<forall>f \<in> set fo'. fr_ks1 f @ fr_ks2 f = []) \<and> (fs'' \<noteq> [] \<longrightarrow> fr_ks1 (hd fs'') @ fr_ks2 (hd fs'') \<noteq> []))"
          using a n x q(2) same_view_trans [OF s1] by (intro conjI exI [of _ "f # fo"] exI [of _ fs']) auto
      qed
    next
      assume n: "num_keys x \<noteq> 0"
      show "wp (sret (os, (fr_id f, length (fr_xs f)) # path_of fs)) ?Q R p1"
        by (rule wp_sret) (use n x q(2) in \<open>auto intro!: exI [of _ "[]"] exI [of _ "f # fs"] simp: path_of_def\<close>)
    qed
  qed
  then show ?case unfolding path_of_def list.map pop_orphans.simps .
qed

lemma last_leaf_loop_wp:
  assumes "tree_at crc p A lo hi nxt t" "n < height t \<longrightarrow> (\<forall>p. R Corruption p)"
  shows "wp (last_leaf_loop crc n (root_id t)) (\<lambda>i p'. same_view crc p p' \<and> i = fst (last (leaves t))) R p"
  using assms
proof (induction n arbitrary: p lo hi nxt t)
  case 0
  have "0 < height t" by (cases t) auto
  then show ?case using 0(2) unfolding last_leaf_loop.simps by (intro wp_serr) auto
next
  case (Suc n)
  note T = tree_atD [OF Suc.prems(1)]
  let ?Q = "\<lambda>i p'. same_view crc p p' \<and> i = fst (last (leaves t))"
  show ?case
  proof (cases t)
    case (Lf i es)
    then obtain q where q: "pview crc p i = Some q" "leaf_page q" using T(2) by (auto elim: shape_LfE)
    have "wp (sbind (read_page crc i) (\<lambda>q. if is_leaf q then sret i
        else sbind (slift (child_at q (num_keys q))) (last_leaf_loop crc n))) ?Q R p"
    proof (rule wp_step [OF read_page_wp [OF T(6) q(1)]])
      fix x p1 assume x: "x = q \<and> same_view crc p p1"
      then have "wp (sret i) ?Q R p1" by (intro wp_sret) (simp add: Lf)
      then show "wp (if is_leaf x then sret i else sbind (slift (child_at x (num_keys x))) (last_leaf_loop crc n)) ?Q R p1"
        using x q(2) by (simp add: leaf_page_def)
    qed
    then show ?thesis by (simp add: Lf)
  next
    case (Nd i ks cs)
    obtain q where q: "pview crc p i = Some q" "kids (shape (pview crc p)) lo hi nxt ks cs" "num_keys q = length ks"
        "\<not> is_leaf q" "\<And>s. s \<le> length ks \<Longrightarrow> child_at q s = Inr (root_id (cs ! s))"
        "length cs = Suc (length ks)"
      using node_page Suc.prems(1) unfolding Nd by metis
    define c where "c = last cs"
    have cs: "cs = butlast cs @ [c]" using q(6) by (cases cs) (auto simp: c_def)
    have "length (butlast cs) = length ks" using q(6) by simp
    then have sc: "shape (pview crc p) (last (lo # ks)) (hi_at hi []) (nxt_at nxt []) c"
      using kids_child [of "shape (pview crc p)" lo hi nxt ks "[]" "butlast cs" c "[]"] q(2) cs by simp
    have mem: "c \<in> set cs" using cs by (metis in_set_conv_decomp)
    have tc: "tree_at crc p A (last (lo # ks)) (hi_at hi []) (nxt_at nxt []) c"
      unfolding tree_at_def using sc T(1,3,4,5) mem by (auto simp: Nd distinct_concat_iff)
    have "leaves c \<noteq> []" using shape_leaf_chain [OF sc] by simp
    then have ll: "last (leaves t) = last (leaves c)" unfolding Nd by (subst cs) simp
    have ch: "child_at q (num_keys q) = Inr (root_id c)" 
      using q(3) q(5) [of "length ks"] q(6) last_conv_nth [of cs] by (cases cs) (auto simp: c_def)
    have l1: "n < height c \<longrightarrow> (\<forall>p. R Corruption p)" using Suc.prems(2) height_child [OF mem] by (simp add: Nd)
    have "wp (sbind (read_page crc i) (\<lambda>q. if is_leaf q then sret i
        else sbind (slift (child_at q (num_keys q))) (last_leaf_loop crc n))) ?Q R p"
    proof (rule wp_step [OF read_page_wp [OF T(6) q(1)]])
      fix x p1 assume x: "x = q \<and> same_view crc p p1"
      then have s1: "same_view crc p p1" by simp
      have "wp (last_leaf_loop crc n (root_id c)) ?Q R p1"
        by (rule wp_conseq [OF Suc.IH [OF tree_at_same [OF tc s1] l1]]) (use same_view_trans [OF s1] ll in auto)
      then have "wp (sbind (slift (child_at q (num_keys q))) (last_leaf_loop crc n)) ?Q R p1"
        by (rule wp_sbind_slift [OF ch])
      then show "wp (if is_leaf x then sret i else sbind (slift (child_at x (num_keys x))) (last_leaf_loop crc n)) ?Q R p1"
        using x q(4) by simp
    qed
    then show ?thesis by (simp add: Nd)
  qed
qed

lemma previous_leaf_wp:
  assumes "hole_at crc p A fs c" "MAX_DEPTH + 1 < height (plug fs c) \<longrightarrow> (\<forall>p. R Corruption p)"
  shows "wp (previous_leaf crc (path_of fs)) (\<lambda>r p'. same_view crc p p' \<and>
      r = (if before fs = [] then None else Some (fst (last (before fs))))) R p"
  using assms
proof (induction fs arbitrary: p c)
  case Nil
  then have "same_view crc p p" by (auto simp: hole_at_def intro: same_view_refl heap_okD)
  then show ?case by (auto simp: path_of_def previous_leaf_def wp_def)
next
  case (Cons f fs)
  show ?case
  proof (cases "fr_xs f = []")
    case True
    then have "previous_leaf crc (path_of (f # fs)) = previous_leaf crc (path_of fs)" "before (f # fs) = before fs"
      by (simp_all add: previous_leaf_def path_of_def)
    then show ?thesis using Cons.IH [OF hole_at_up [OF Cons.prems(1)]] Cons.prems(2) by (simp only: plug.simps)
  next
    case False
    obtain q where q: "pview crc p (fr_id f) = Some q"
        "\<And>s. s \<le> length (fr_ks1 f @ fr_ks2 f) \<Longrightarrow> child_at q s = Inr (root_id ((fr_xs f @ c # fr_ys f) ! s))"
        "\<And>x. x \<in> set (fr_xs f) \<union> set (fr_ys f) \<Longrightarrow> \<exists>a b n. tree_at crc p A a b n x"
      using hole_node [OF Cons.prems(1)] by metis
    define d where "d = last (fr_xs f)"
    have xs: "fr_xs f = butlast (fr_xs f) @ [d]" using False by (simp add: d_def)
    have mem: "d \<in> set (fr_xs f)" using False by (simp add: d_def)
    then obtain a b n where td: "tree_at crc p A a b n d" using q(3) by blast
    have fok: "frame_ok f" and ok: "pager_ok crc p" using hole_atD [OF Cons.prems(1)] by simp_all
    have ch: "child_at q (length (fr_xs f) - 1) = Inr (root_id d)"
      using q(2) [of "length (fr_xs f) - 1"] fok False by (simp add: frame_ok_def nth_append d_def last_conv_nth)
    have "leaves d \<noteq> []" using shape_leaf_chain [OF tree_atD(2) [OF td]] by simp
    then have bf: "before (f # fs) \<noteq> []" "last (before (f # fs)) = last (leaves d)"
      unfolding before.simps by (subst xs, simp)+
    have "height d < height (fill f c)" unfolding fill_def by (rule height_child) (use mem in simp)
    also have "\<dots> \<le> height (plug (f # fs) c)" using height_plug [of "fill f c" fs] by simp
    finally have l1: "MAX_DEPTH + 1 < height d \<longrightarrow> (\<forall>p. R Corruption p)" using Cons.prems(2) by simp
    let ?Q = "\<lambda>r p'. same_view crc p p' \<and> r = (if before (f # fs) = [] then None else Some (fst (last (before (f # fs)))))"
    have "wp (sbind (read_page crc (fr_id f)) (\<lambda>q. sbind (slift (child_at q (length (fr_xs f) - 1))) (\<lambda>current.
        sbind (last_leaf_loop crc (MAX_DEPTH + 1) current) (\<lambda>l. sret (Some l))))) ?Q R p"
    proof (rule wp_step [OF read_page_wp [OF ok q(1)]], elim conjE)
      fix x p1 assume x: "x = q" and s1: "same_view crc p p1"
      show "wp (sbind (slift (child_at x (length (fr_xs f) - 1))) (\<lambda>current.
          sbind (last_leaf_loop crc (MAX_DEPTH + 1) current) (\<lambda>l. sret (Some l)))) ?Q R p1"
        unfolding x
      proof (rule wp_sbind_slift [OF ch], rule wp_step [OF last_leaf_loop_wp [where R = R, OF tree_at_same [OF td s1] l1]])
        fix i p2 assume "same_view crc p1 p2 \<and> i = fst (last (leaves d))"
        then show "wp (sret (Some i)) ?Q R p2"
          by (intro wp_sret) (use bf same_view_trans [OF s1] in simp)
      qed
    qed
    then show ?thesis using False by (simp add: previous_leaf_def path_of_def)
  qed
qed

section \<open>Giving pages back\<close>

lemma free_pages_wp:
  assumes "heap_ok crc p A" "distinct os" "set os \<inter> A = {}" "0 \<notin> set os"
  shows "wp (smapM free_page os) (\<lambda>_ p'. heap_ok crc p' (A \<union> set os) \<and> moved crc p (set os) p') R p"
  using assms
proof (induction os arbitrary: p A)
  case Nil
  then show ?case by (auto simp: wp_def moved_def)
next
  case (Cons i os)
  show ?case
    unfolding smapM.simps
  proof (rule wp_step [OF heap_free_wp [OF Cons.prems(1)]], use Cons.prems in simp, use Cons.prems in simp, elim conjE)
    fix x p1
    assume a: "heap_ok crc p1 (insert i A)" "\<forall>j. j \<noteq> i \<longrightarrow> pview crc p1 j = pview crc p j"
      "tmeta (pg_meta p1) = tmeta (pg_meta p)"
    show "wp (smapM free_page os) (\<lambda>_ p'. heap_ok crc p' (A \<union> set (i # os)) \<and> moved crc p (set (i # os)) p') R p1"
      by (rule wp_conseq [OF Cons.IH [OF a(1)]]) (use Cons.prems a(2,3) in \<open>auto simp: moved_def\<close>)
  qed
qed

end
