(* ===== verification/BTree_Delete.thy ===== *)
theory BTree_Delete
  imports BTree_Path
begin

text \<open>
  Deletion: a leaf that keeps entries is staged, a leaf that becomes empty is unlinked from
  its neighbour and from the nearest ancestor that has another child, and a root with a lone
  child is dropped.
\<close>

section \<open>Dropping the root\<close>

lemma collapse_root_stop:
  assumes "collapse_round crc p = (r, p1)" "r \<noteq> Inr True"
  shows "collapse_root crc p = (case r of Inl e \<Rightarrow> Inl e | Inr _ \<Rightarrow> Inr (), p1)"
proof -
  have "while_option (\<lambda>(r, p). r = Inr True) (\<lambda>(r, p). collapse_round crc p) (Inr True, p) = Some (r, p1)"
    by (subst while_option_unfold, simp add: assms(1), subst while_option_unfold, simp add: assms(2))
  then show ?thesis by (simp add: collapse_root_def split: sum.splits)
qed

lemma collapse_root_go:
  assumes "collapse_round crc p = (Inr True, p1)" "fst (collapse_root crc p1) \<noteq> Inl Diverge"
  shows "collapse_root crc p = collapse_root crc p1"
proof -
  let ?w = "while_option (\<lambda>(r, p). r = Inr True) (\<lambda>(r, p). collapse_round crc p)"
  have "?w (Inr True, p) = ?w (Inr True, p1)" by (subst while_option_unfold) (simp add: assms(1))
  moreover have "?w (Inr True, p1) \<noteq> None"
    using assms(2) unfolding collapse_root_def by (cases "?w (Inr True, p1)") simp_all
  ultimately show ?thesis unfolding collapse_root_def by (auto split: option.splits)
qed

lemma bt_now_refl: "bt_at crc p A t \<Longrightarrow> U = set (pages t) \<union> A \<Longrightarrow> rest_meta p = rest_meta p0 \<Longrightarrow> height t \<le> ht \<Longrightarrow>
    bt_now crc p0 U ht (entries t) p"
  unfolding bt_now_def by blast

lemma bt_at_same: "bt_at crc p A t \<Longrightarrow> same_view crc p p' \<Longrightarrow> bt_at crc p' A t"
  unfolding bt_at_def by (auto intro: tree_at_same simp: same_view_def)

lemma same_view_rest: "same_view crc p p' \<Longrightarrow> rest_meta p' = rest_meta p"
  by (simp add: same_view_def rest_meta_def)

lemma collapse_round_wp:
  assumes "bt_at crc p A t"
  shows "wp (collapse_round crc) (\<lambda>b p'. if b then \<exists>i c. t = Nd i [] [c] \<and> bt_at crc p' (insert i A) c \<and> rest_meta p' = rest_meta p
      else bt_at crc p' A t \<and> rest_meta p' = rest_meta p) R p"
proof -
  have T: "tree_at crc p A [] None SENTINEL t" "md_root (pg_meta p) = root_id t" using assms by (auto simp: bt_at_def)
  note t = tree_atD [OF T(1)]
  let ?Q = "\<lambda>b p'. if b then \<exists>i c. t = Nd i [] [c] \<and> bt_at crc p' (insert i A) c \<and> rest_meta p' = rest_meta p
      else bt_at crc p' A t \<and> rest_meta p' = rest_meta p"
  obtain q where q: "pview crc p (root_id t) = Some q" "\<not> is_leaf q \<and> num_keys q = 0 \<longrightarrow>
      (\<exists>i c. t = Nd i [] [c] \<and> extra q = root_id c)"
  proof (cases t)
    case (Lf i es)
    then show thesis using t(2) that by (auto elim!: shape_LfE simp: leaf_page_def)
  next
    case (Nd i ks cs)
    obtain q where q: "pview crc p i = Some q" "extra q = root_id (hd cs)" "num_keys q = length ks" "length cs = Suc (length ks)"
      using node_page [OF T(1) [unfolded Nd]] by metis
    have "num_keys q = 0 \<longrightarrow> (\<exists>c. t = Nd i [] [c] \<and> extra q = root_id c)"
      using q(2-4) by (auto simp: Nd length_Suc_conv)
    then show thesis using that q(1) by (auto simp: Nd)
  qed
  have "wp (sbind (read_page crc (root_id t)) (\<lambda>root. if is_leaf root \<or> num_keys root > 0 then sret False
        else sbind (smod (\<lambda>p. set_meta ((pg_meta p)\<lparr>md_root := extra root\<rparr>) p)) (\<lambda>_.
          sbind (free_page (root_id t)) (\<lambda>_. sret True)))) ?Q R p"
  proof (rule wp_step [OF read_page_wp [OF t(6) q(1)]], elim conjE, rule wp_if)
    fix x p1 assume x: "x = q" and s1: "same_view crc p p1"
    show "wp (sret False) ?Q R p1"
      by (rule wp_sret) (use bt_at_same [OF assms s1] same_view_rest [OF s1] in simp)
  next
    fix x p1 assume x: "x = q" and s1: "same_view crc p p1" and n: "\<not> (is_leaf x \<or> num_keys x > 0)"
    then obtain i c where c: "t = Nd i [] [c]" "extra x = root_id c" using q(2) by auto
    have T1: "tree_at crc p1 A [] None SENTINEL (Nd i [] [c])" using tree_at_same [OF T(1) s1] by (simp add: c)
    note t1 = tree_atD [OF T1]
    have sc: "shape (pview crc p1) [] None SENTINEL c" using t1(2) by (auto elim: shape_NdE)
    have tc: "tree_at crc p1 A [] None SENTINEL c" unfolding tree_at_def using t1 sc by auto
    let ?p2 = "set_meta ((pg_meta p1)\<lparr>md_root := root_id c\<rparr>) p1"
    have b: "bt_now crc p1 (set (pages c) \<union> A) (height c) (entries c) ?p2"
      by (rule set_root_now [OF tc]) auto
    have "root_id c < 2 ^ 32" using owned_bound(1) [OF t1(1), of "root_id c"] t1(4) root_in_pages [of c] by auto
    note m = heap_set_root [OF t1(1) this]
    have ni: "i \<notin> A" "i \<noteq> 0" "i \<notin> set (pages c)" using t1(3-5) by auto
    show "wp (sbind (smod (\<lambda>p. set_meta ((pg_meta p)\<lparr>md_root := extra x\<rparr>) p)) (\<lambda>_.
          sbind (free_page (root_id t)) (\<lambda>_. sret True))) ?Q R p1"
      unfolding c(2)
    proof (rule wp_sbind_smod, unfold c(1) root_id.simps, rule wp_step [OF heap_free_wp [OF m(1) ni(1,2)]],
        elim conjE, rule wp_sret)
      fix p3
      assume a: "heap_ok crc p3 (insert i A)" "\<forall>j. j \<noteq> i \<longrightarrow> pview crc p3 j = pview crc ?p2 j"
        "tmeta (pg_meta p3) = tmeta (pg_meta ?p2)"
      have "shape (pview crc p3) [] None SENTINEL c"
        by (rule shape_cong [OF sc]) (use a(2) ni(3) m(2) in auto)
      then have "tree_at crc p3 (insert i A) [] None SENTINEL c"
        unfolding tree_at_def using a(1) tree_atD [OF tc] ni(3) by auto
      then have "bt_at crc p3 (insert i A) c" "rest_meta p3 = rest_meta p"
        using a(3) m(3) same_view_rest [OF s1] by (auto simp: bt_at_def tmeta_def rest_meta_def)
      then show "if True then \<exists>i' c'. Nd i [] [c] = Nd i' [] [c'] \<and> bt_at crc p3 (insert i' A) c' \<and> rest_meta p3 = rest_meta p
          else bt_at crc p3 A (Nd i [] [c]) \<and> rest_meta p3 = rest_meta p" by auto
    qed (rule m(4))
  qed
  then show ?thesis unfolding wp_def collapse_round_def Let_def T(2) by simp
qed

lemma collapse_root_wp:
  assumes "bt_at crc p A t"
  shows "wp (collapse_root crc) (\<lambda>_. bt_now crc p (set (pages t) \<union> A) (height t) (entries t)) (\<lambda>_ _. False) p"
  using assms
proof (induction "height t" arbitrary: p A t rule: less_induct)
  case less
  obtain r p1 where r: "collapse_round crc p = (r, p1)" by (cases "collapse_round crc p")
  have q: "quiet p \<longrightarrow> quiet p1" and w: "case r of Inl e \<Rightarrow> fails p e p1 | Inr True \<Rightarrow>
      \<exists>i c. t = Nd i [] [c] \<and> bt_at crc p1 (insert i A) c \<and> rest_meta p1 = rest_meta p
      | Inr False \<Rightarrow> bt_at crc p1 A t \<and> rest_meta p1 = rest_meta p"
    using collapse_round_wp [OF less.prems, of "\<lambda>_ _. False"] r by (auto simp: wp_def split: sum.splits bool.splits)
  show ?case
  proof (cases "r = Inr True")
    case True
    then obtain i c where c: "t = Nd i [] [c]" "bt_at crc p1 (insert i A) c" "rest_meta p1 = rest_meta p" using w by auto
    have ih: "wp (collapse_root crc) (\<lambda>_. bt_now crc p1 (set (pages c) \<union> insert i A) (height c) (entries c)) (\<lambda>_ _. False) p1"
      by (rule less.hyps [OF _ c(2)]) (simp add: c(1))
    then have nd: "fst (collapse_root crc p1) \<noteq> Inl Diverge"
      by (auto simp: wp_def fails_def split: prod.splits sum.splits)
    have "collapse_root crc p = collapse_root crc p1" by (rule collapse_root_go [OF _ nd]) (use r True in simp)
    moreover have "wp (collapse_root crc) (\<lambda>_. bt_now crc p (set (pages t) \<union> A) (height t) (entries t)) (\<lambda>_ _. False) p1"
      by (rule wp_conseq [OF ih]) (use c(1,3) in \<open>auto simp: bt_now_def intro: le_SucI\<close>)
    ultimately show ?thesis using q unfolding wp_def fails_def by (auto split: prod.splits sum.splits)
  next
    case False
    then show ?thesis
      using w q bt_now_refl [of crc p1 A t _ p] by (cases r) (auto simp: wp_def collapse_root_stop [OF r] split: bool.splits)
  qed
qed

section \<open>The leaf chain\<close>

definition leaf_pages :: "nat \<times> entry list \<Rightarrow> nat list" where
  "leaf_pages l = pages (Lf (fst l) (snd l))"

lemma leaf_pages_mem:
  "fst l \<in> set (leaf_pages l)" "e \<in> set (snd l) \<Longrightarrow> j \<in> set (entry_pages e) \<Longrightarrow> j \<in> set (leaf_pages l)"
  by (auto simp: leaf_pages_def)

lemma leaf_at_cong:
  assumes "leaf_at V (fst l) (snd l) n" "\<And>j. j \<in> set (leaf_pages l) \<Longrightarrow> V' j = V j"
  shows "leaf_at V' (fst l) (snd l) n"
proof -
  have "entry_ok V' e" if "e \<in> set (snd l)" "entry_ok V e" for e
    by (rule entry_ok_cong [OF _ that(2)], rule assms(2)) (rule leaf_pages_mem(2) [OF that(1)])
  then show ?thesis using assms(1) assms(2) [OF leaf_pages_mem(1)] unfolding leaf_at_def by auto
qed

lemma leaf_chain_cong:
  assumes "leaf_chain V ls nxt" "\<And>l j. l \<in> set ls \<Longrightarrow> j \<in> set (leaf_pages l) \<Longrightarrow> V' j = V j"
  shows "leaf_chain V' ls nxt"
  using assms
proof (induction ls)
  case (Cons l ls)
  have "leaf_chain V' ls nxt" by (rule Cons.IH) (use Cons.prems in auto)
  moreover have "leaf_at V' (fst l) (snd l) (if ls = [] then nxt else fst (hd ls))"
    by (rule leaf_at_cong [of V]) (use Cons.prems(1) Cons.prems(2) [of l] in simp_all)
  ultimately show ?case by simp
qed simp

lemma leaf_at_relinked:
  assumes "leaf_at V (fst l) (snd l) n" "V (fst l) = Some q" "V' (fst l) = Some (set_extra q n')" "n' < 4294967296"
    and "\<And>j. j \<in> set (leaf_pages l) \<Longrightarrow> j \<noteq> fst l \<Longrightarrow> V' j = V j" "distinct (leaf_pages l)"
  shows "leaf_at V' (fst l) (snd l) n'"
proof -
  have "entry_ok V' e" if e: "e \<in> set (snd l)" "entry_ok V e" for e
  proof (rule entry_ok_cong [OF _ e(2)])
    fix j assume j: "j \<in> set (entry_pages e)"
    then have "j \<noteq> fst l" using assms(6) e(1) by (auto simp: leaf_pages_def)
    then show "V' j = V j" using assms(5) leaf_pages_mem(2) [OF e(1) j] by blast
  qed
  then show ?thesis
    using assms(1-4) set_extra_fields [of q n'] unfolding leaf_at_def by (auto simp: leaf_page_def)
qed

text \<open>Unlinking the leaf \<open>(i, es)\<close>: its successor becomes the successor of the leaf before it.\<close>

lemma leaf_chain_unlink:
  assumes ch: "leaf_chain V (ls1 @ (i, es) # ls2) nxt" and q: "V i = Some q"
    and d: "distinct (concat (map leaf_pages (ls1 @ ls2)))"
    and V: "\<And>l j. l \<in> set (ls1 @ ls2) \<Longrightarrow> j \<in> set (leaf_pages l) \<Longrightarrow> (ls1 \<noteq> [] \<longrightarrow> j \<noteq> fst (last ls1)) \<Longrightarrow> V' j = V j"
    and k: "ls1 \<noteq> [] \<Longrightarrow> \<exists>qk. V (fst (last ls1)) = Some qk \<and> V' (fst (last ls1)) = Some (set_extra qk (extra q))"
  shows "leaf_chain V' (ls1 @ ls2) nxt"
proof -
  let ?n = "if ls2 = [] then nxt else fst (hd ls2)"
  have c: "leaf_chain V ls1 i" "leaf_at V i es ?n" "leaf_chain V ls2 nxt"
    using ch leaf_chain_append [of V ls1 "(i, es) # ls2" nxt] by auto
  have n: "extra q = ?n" "extra q < 4294967296" using c(2) q extra_bound [of q] by (auto simp: leaf_at_def)
  have dj: "j \<notin> set (leaf_pages l')" if "ls1 @ ls2 = xs @ l # ys" "l' \<in> set xs \<union> set ys" "j \<in> set (leaf_pages l)" for xs l ys l' j
    using d that by auto
  have "leaf_chain V' ls1 ?n \<and> leaf_chain V' ls2 nxt"
  proof (cases ls1 rule: rev_cases)
    case Nil
    then show ?thesis using leaf_chain_cong [OF c(3)] V by auto
  next
    case (snoc ls l)
    have e: "ls1 @ ls2 = ls @ l # ls2" using snoc by simp
    have out: "fst l \<notin> set (leaf_pages l')" if "l' \<in> set ls \<union> set ls2" for l'
      by (rule dj [OF e that leaf_pages_mem(1)])
    have same: "V' j = V j" if "l' \<in> set ls \<union> set ls2" "j \<in> set (leaf_pages l')" for l' j
      using V [of l' j] that out [OF that(1)] snoc by auto
    obtain qk where qk: "V (fst l) = Some qk" "V' (fst l) = Some (set_extra qk (extra q))" using k snoc by auto
    have c1: "leaf_chain V ls (fst l)" "leaf_at V (fst l) (snd l) i"
      using c(1) leaf_chain_append [of V ls "[l]" i] snoc by auto
    have "leaf_chain V' ls (fst l)" by (rule leaf_chain_cong [OF c1(1)]) (use same in blast)
    moreover have "leaf_at V' (fst l) (snd l) (extra q)"
      by (rule leaf_at_relinked [where V = V and V' = V', OF c1(2) qk n(2)], rule V [of l]) (use d snoc in auto)
    moreover have "leaf_chain V' ls2 nxt" by (rule leaf_chain_cong [OF c(3)]) (use same in blast)
    ultimately show ?thesis using leaf_chain_append [of V' ls "[l]" ?n] n(1) snoc by simp
  qed
  then show ?thesis using leaf_chain_append [of V' ls1 ls2 nxt] by simp
qed

lemma leaves_sub: "set (concat (map leaf_pages (leaves t))) \<subseteq> set (pages t)"
  by (induction t rule: tree.induct) (fastforce simp: leaf_pages_def)+

lemma distinct_leaves: "distinct (pages t) \<Longrightarrow> distinct (concat (map leaf_pages (leaves t)))"
proof (induction t rule: tree.induct)
  case (Lf i es)
  then show ?case by (simp add: leaf_pages_def)
next
  case (Nd i ks cs)
  from Nd.IH Nd.prems show ?case
  proof (induction cs)
    case (Cons c cs)
    have "distinct (concat (map leaf_pages (leaves c)))" "distinct (concat (map leaf_pages (concat (map leaves cs))))"
      using Cons.IH Cons.prems by auto
    moreover have "set (concat (map leaf_pages (concat (map leaves cs)))) \<subseteq> set (concat (map pages cs))"
      using leaves_sub by fastforce
    moreover have "set (pages c) \<inter> set (concat (map pages cs)) = {}" using Cons.prems(2) by simp
    ultimately show ?case using leaves_sub [of c] unfolding list.map leaves.simps concat.simps map_append concat_append distinct_append
      by blast
  qed simp
qed

section \<open>The tree without the leaf\<close>

lemma orphan_frames:
  assumes "\<forall>g \<in> set fo. fr_ks1 g @ fr_ks2 g = []" "\<forall>g \<in> set fo. frame_ok g"
  shows "before fo = []" "after fo = []" "frame_pages fo = rev (map fr_id fo)"
proof -
  have "\<forall>g \<in> set fo. fr_xs g = [] \<and> fr_ys g = []" using assms by (auto simp: frame_ok_def)
  then show "before fo = []" "after fo = []" "frame_pages fo = rev (map fr_id fo)" by (induction fo) auto
qed

definition pruned_keys :: "frame \<Rightarrow> bytes list" where
  "pruned_keys f = (if fr_xs f = [] then tl (fr_ks2 f) else butlast (fr_ks1 f) @ fr_ks2 f)"

definition pruned :: "frame \<Rightarrow> tree" where
  "pruned f = Nd (fr_id f) (pruned_keys f) (fr_xs f @ fr_ys f)"

lemma kin_pruned:
  assumes "kin (shp V) lo hi (fr_ks1 f @ fr_ks2 f) (fr_xs f @ c # fr_ys f)" "frame_ok f" "fr_ks1 f @ fr_ks2 f \<noteq> []"
  shows "kin (shp V) lo hi (pruned_keys f) (fr_xs f @ fr_ys f)"
proof (cases "fr_xs f = []")
  case True
  then have k1: "fr_ks1 f = []" using assms(2) by (simp add: frame_ok_def)
  then obtain k ks where k: "fr_ks2 f = k # ks" using assms(3) by (cases "fr_ks2 f") auto
  then show ?thesis using kin_remove_first [of V lo hi k ks c "fr_ys f"] assms(1) True k1 by (simp add: pruned_keys_def)
next
  case False
  then obtain ks k where k: "fr_ks1 f = ks @ [k]" using assms(2) by (cases "fr_ks1 f" rule: rev_cases) (auto simp: frame_ok_def)
  then show ?thesis
    using kin_remove [of V lo hi ks k "fr_ks2 f" "fr_xs f" c "fr_ys f"] assms(1,2) False
    by (simp add: pruned_keys_def frame_ok_def)
qed

lemma before_sub: "l \<in> set (before fs @ after fs) \<Longrightarrow> set (leaf_pages l) \<subseteq> set (frame_pages fs)"
proof (induction fs)
  case (Cons f fs)
  have "set (leaf_pages l) \<subseteq> set (pages x)" if "x \<in> set (fr_xs f) \<union> set (fr_ys f)" "l \<in> set (leaves x)" for x
    using leaves_sub [of x] that(2) by auto
  then show ?case using Cons by (fastforce simp: pages_of_def)
qed simp

lemma pruned_simps:
  "leaves (pruned f) = concat (map leaves (fr_xs f)) @ concat (map leaves (fr_ys f))"
  "pages (pruned f) = fr_id f # pages_of (fr_xs f) @ pages_of (fr_ys f)" "root_id (pruned f) = fr_id f"
  by (simp_all add: pruned_def pages_of_def)

lemma height_pruned: "height (pruned f) \<le> height (fill f c)"
proof -
  have "foldr max xs (0::nat) \<le> foldr max (xs @ x # ys) 0" for xs x ys by (induction xs) auto
  moreover have "foldr max (xs @ ys) (0::nat) \<le> foldr max (xs @ y # ys) 0" for xs y ys by (induction xs) auto
  ultimately show ?thesis by (simp only: pruned_def fill_def height.simps map_append list.map Suc_le_mono)
qed

lemma height_plug_mono: "height t' \<le> height t \<Longrightarrow> height (plug fs t') \<le> height (plug fs t)"
proof (induction fs arbitrary: t t')
  case (Cons f fs)
  have "foldr max xs (a::nat) \<le> foldr max xs b" if "a \<le> b" for xs a b using that by (induction xs) auto
  then have "height (fill f t') \<le> height (fill f t)" using Cons.prems by (simp add: fill_def max.mono)
  then show ?case using Cons.IH by simp
qed simp

lemma plug_pruned_pages:
  "set (pages (plug fs (pruned f))) = set (frame_pages (f # fs))"
  "distinct (pages (plug (f # fs) c)) \<Longrightarrow> distinct (pages (plug fs (pruned f)))"
  unfolding set_pages_plug distinct_plug pruned_simps by auto

lemma leaf_chain_mem:
  assumes "leaf_chain V ls nxt" "l \<in> set ls"
  obtains q n where "V (fst l) = Some q" "leaf_page q" "leaf_at V (fst l) (snd l) n" "extra q = n"
proof -
  have "\<exists>n. leaf_at V (fst l) (snd l) n" using assms by (induction ls) auto
  then show thesis using that by (auto simp: leaf_at_def)
qed

definition prev_of :: "frame list \<Rightarrow> nat option" where
  "prev_of fs = (if before fs = [] then None else Some (fst (last (before fs))))"

lemma pruned_tree:
  assumes T: "tree_at crc p0 A0 [] None SENTINEL (plug (f # fs) c)" and c: "leaves c = [(i, es)]"
    and ok: "\<forall>g \<in> set (f # fs). frame_ok g" and keys: "fr_ks1 f @ fr_ks2 f \<noteq> []"
    and h: "heap_ok crc p A" "A = A0 \<union> set (pages c)"
    and q': "pview crc p (fr_id f) = Some q'" "node_page_for q' (fr_id f) (pruned_keys f) (fr_xs f @ fr_ys f)"
    and V: "\<And>j. j \<in> set (frame_pages (f # fs)) \<Longrightarrow> j \<noteq> fr_id f \<Longrightarrow> prev_of (f # fs) \<noteq> Some j \<Longrightarrow> pview crc p j = pview crc p0 j"
    and q0: "pview crc p0 i = Some q0"
    and k: "\<And>k. prev_of (f # fs) = Some k \<Longrightarrow> \<exists>qk. pview crc p0 k = Some qk \<and> pview crc p k = Some (set_extra qk (extra q0))"
  shows "tree_at crc p A [] None SENTINEL (plug fs (pruned f))"
proof -
  let ?V = "pview crc p0" and ?V' = "pview crc p"
  note t = tree_atD [OF T]
  have sh: "shp ?V [] None (plug fs (fill f c))" "leaf_chain ?V (before (f # fs) @ (i, es) # after (f # fs)) SENTINEL"
    using t(2) leaves_plug [of "f # fs" c] unfolding shape_iff by (simp_all add: c)
  have dis: "distinct (frame_pages (f # fs))" "set (frame_pages (f # fs)) \<inter> set (pages c) = {}"
    using t(3) unfolding distinct_plug by auto
  have kf: "\<exists>q. ?V k = Some q \<and> leaf_page q" if "prev_of (f # fs) = Some k" for k
  proof -
    define l where "l = last (before (f # fs))"
    have l: "k = fst l" "l \<in> set (before (f # fs) @ (i, es) # after (f # fs))"
      using that unfolding prev_of_def l_def by (auto simp del: before.simps split: if_splits)
    show ?thesis using leaf_chain_mem [OF sh(2) l(2)] l(1) by metis
  qed
  have idf: "\<exists>q. ?V (fr_id f) = Some q \<and> inner_page q"
  proof -
    obtain a b n where "tree_at crc p0 A0 a b n (fill f c)" using tree_at_plug [of crc p0 A0 "[]" None SENTINEL fs "fill f c"] T ok by auto
    then show ?thesis by (auto simp: fill_def dest!: tree_atD(2) elim: shape_NdE)
  qed
  have kid: "prev_of (f # fs) \<noteq> Some (fr_id f)"
    using kf idf by (fastforce simp: leaf_page_def inner_page_def)
  have rel: "relinked ?V ?V' j" if "j \<in> set (frame_pages (f # fs))" "j \<noteq> fr_id f" for j
  proof (cases "prev_of (f # fs) = Some j")
    case True
    then show ?thesis using k [OF True] kf [OF True] extra_bound [of q0] by (auto simp: relinked_def)
  qed (use V that in \<open>simp add: relinked_def\<close>)
  have "shp ?V' [] None (plug fs (pruned f))"
  proof (rule shp_plug_replace [OF sh(1)])
    show "\<forall>j \<in> set (frame_pages fs). relinked ?V ?V' j" using rel dis(1) by auto
    fix a b assume "shp ?V a b (fill f c)"
    then have "kin (shp ?V) a b (fr_ks1 f @ fr_ks2 f) (fr_xs f @ c # fr_ys f)" unfolding fill_def by (auto elim: shp_NdE)
    then have "kin (shp ?V) a b (pruned_keys f) (fr_xs f @ fr_ys f)" by (rule kin_pruned) (use ok keys in auto)
    then have K: "kin (shp ?V') a b (pruned_keys f) (fr_xs f @ fr_ys f)"
    proof (rule kin_cong)
      fix x a b assume x: "x \<in> set (fr_xs f @ fr_ys f)" "shp ?V a b x"
      have "set (pages x) \<subseteq> set (pages_of (fr_xs f) @ pages_of (fr_ys f))" using x(1) by (auto simp: pages_of_def)
      moreover have "fr_id f \<notin> set (pages_of (fr_xs f) @ pages_of (fr_ys f))" using dis(1) by auto
      ultimately show "shp ?V' a b x" by (intro shp_relinked [OF x(2)] ballI rel) auto
    qed
    show "shp ?V' a b (pruned f)"
      unfolding pruned_def using q' K by (auto simp: node_page_for_def intro!: shp_node [of ?V' _ q'])
  qed (use ok in \<open>auto simp: fill_def pruned_simps\<close>)
  moreover have "leaf_chain ?V' (before (f # fs) @ after (f # fs)) SENTINEL"
  proof (rule leaf_chain_unlink [OF sh(2) q0])
    have "distinct (concat (map leaf_pages (before (f # fs) @ [(i, es)] @ after (f # fs))))"
      using distinct_leaves [OF t(3)] by (simp only: leaves_plug c)
    then show "distinct (concat (map leaf_pages (before (f # fs) @ after (f # fs))))"
      by (simp only: map_append concat_append distinct_append set_append) blast
    fix l j
    assume l: "l \<in> set (before (f # fs) @ after (f # fs))" "j \<in> set (leaf_pages l)"
      "before (f # fs) \<noteq> [] \<longrightarrow> j \<noteq> fst (last (before (f # fs)))"
    have "j \<in> set (frame_pages (f # fs))" using before_sub [OF l(1)] l(2) by blast
    moreover have "j \<noteq> fr_id f"
    proof -
      have "l \<in> set (concat (map leaves (fr_xs f @ fr_ys f))) \<or> l \<in> set (before fs @ after fs)" using l(1) by auto
      then have "j \<in> set (pages_of (fr_xs f) @ pages_of (fr_ys f)) \<or> j \<in> set (frame_pages fs)"
        using l(2) before_sub [of l fs] leaves_sub by (fastforce simp: pages_of_def)
      then show ?thesis using dis(1) by auto
    qed
    ultimately show "?V' j = ?V j"
      by (intro V) (use l(3) in \<open>auto simp: prev_of_def simp del: before.simps split: if_splits\<close>)
  next
    assume "before (f # fs) \<noteq> []"
    then show "\<exists>qk. ?V (fst (last (before (f # fs)))) = Some qk \<and> ?V' (fst (last (before (f # fs)))) = Some (set_extra qk (extra q0))"
      using k by (simp add: prev_of_def)
  qed
  moreover have "leaves (plug fs (pruned f)) = before (f # fs) @ after (f # fs)"
    by (simp add: leaves_plug pruned_simps)
  ultimately have "shape ?V' [] None SENTINEL (plug fs (pruned f))" by (simp only: shape_iff)
  then show ?thesis
    unfolding tree_at_def using h plug_pruned_pages(1) [of fs f] plug_pruned_pages(2) [OF t(3)] t(4,5) dis(2)
    unfolding set_pages_plug [of "f # fs" c] by auto
qed

end
