(* ===== verification/BTree_Remove.thy ===== *)
theory BTree_Remove
  imports BTree_Delete
begin

text \<open>
  The writes of a deletion, and \<open>bt_delete\<close> as a whole.
\<close>

section \<open>The node that loses a child\<close>

definition cut_child :: "page \<Rightarrow> nat \<Rightarrow> page res" where
  "cut_child anchor slt =
     (if slt = 0 then rbind (internal_child anchor 0) (\<lambda>first. remove_cell_at (set_extra anchor first) 0)
      else remove_cell_at anchor (slt - 1))"

lemma cut_child_ok:
  assumes h: "hole_at crc p A (f # fs) c" and q: "pview crc p (fr_id f) = Some q" and keys: "fr_ks1 f @ fr_ks2 f \<noteq> []"
  obtains q' where "cut_child q (length (fr_xs f)) = Inr q'"
    "node_page_for q' (fr_id f) (pruned_keys f) (fr_xs f @ fr_ys f)"
proof -
  have Q: "inner_page q" "page_id q = fr_id f" "cells q = inner_cells (fr_ks1 f @ fr_ks2 f) (tl (fr_xs f @ c # fr_ys f))"
      "extra q = root_id (hd (fr_xs f @ c # fr_ys f))" "num_keys q = length (fr_ks1 f @ fr_ks2 f)"
      "\<forall>c \<in> set (fr_xs f @ c # fr_ys f). root_id c < 4294967296"
      "\<forall>k \<in> set (fr_ks1 f @ fr_ks2 f). length k \<le> MAX_KEY_SIZE"
    using hole_node [OF h] q by (metis option.inject)+
  have fok: "frame_ok f" using hole_atD(3) [OF h] by simp
  have wf: "page_wf q" using Q(1) by (simp add: inner_page_def)
  show thesis
  proof (cases "fr_xs f = []")
    case True
    then have k1: "fr_ks1 f = []" using fok by (simp add: frame_ok_def)
    then obtain k ks y ys where e: "fr_ks2 f = k # ks" "fr_ys f = y # ys" "length ys = length ks"
      using keys fok by (cases "fr_ks2 f"; cases "fr_ys f") (auto simp: frame_ok_def)
    have cs: "cells q = encode_internal_cell k (root_id y) # inner_cells ks ys"
      using Q(3) True k1 e by (simp add: inner_cells_def)
    have ch: "internal_child q 0 = Inr (root_id y)"
      using inner_page_reads(2) [OF Q(1), of "k # ks" "y # ys" 0] Q(3,6,7) True k1 e by simp
    have y: "root_id y < 4294967296" using Q(6) e(2) by simp
    note x = set_extra_fields [OF wf y]
    have "0 < num_keys (set_extra q (root_id y))" using num_keys_cells [of "set_extra q (root_id y)"] x(2) cs by simp
    then obtain q' where q': "remove_cell_at (set_extra q (root_id y)) 0 = Inr q'" "page_wf q'"
        "cells q' = take 0 (cells (set_extra q (root_id y))) @ drop (Suc 0) (cells (set_extra q (root_id y)))"
        "header_rest q' = header_rest (set_extra q (root_id y))"
      using remove_cell_at_spec [OF x(1)] by blast
    have "cut_child q (length (fr_xs f)) = Inr q'" using True ch q'(1) by (simp add: cut_child_def)
    moreover have "node_page_for q' (fr_id f) (pruned_keys f) (fr_xs f @ fr_ys f)"
      using q'(2,3) header_restD [OF q'(4)] x Q(1,2) cs True e
      by (simp add: node_page_for_def inner_page_def pruned_keys_def)
    ultimately show thesis by (rule that)
  next
    case False
    then obtain x xs where xs: "fr_xs f = x # xs" by (cases "fr_xs f") auto
    then obtain ks k where ks: "fr_ks1 f = ks @ [k]" "length ks = length xs"
      using fok by (cases "fr_ks1 f" rule: rev_cases) (auto simp: frame_ok_def)
    have cs: "cells q = inner_cells ks xs @ encode_internal_cell k (root_id c) # inner_cells (fr_ks2 f) (fr_ys f)"
      using Q(3) xs ks by (simp add: inner_cells_def)
    have len: "length (inner_cells ks xs) = length xs" using ks(2) by simp
    have "length xs < num_keys q" using Q(5) ks by simp
    then obtain q' where q': "remove_cell_at q (length xs) = Inr q'" "page_wf q'"
        "cells q' = take (length xs) (cells q) @ drop (Suc (length xs)) (cells q)" "header_rest q' = header_rest q"
      using remove_cell_at_spec [OF wf] by blast
    have "cells q' = inner_cells ks xs @ inner_cells (fr_ks2 f) (fr_ys f)" using q'(3) cs len by simp
    also have "\<dots> = inner_cells (ks @ fr_ks2 f) (xs @ fr_ys f)" using ks(2) by (simp add: inner_cells_def)
    finally have "node_page_for q' (fr_id f) (pruned_keys f) (fr_xs f @ fr_ys f)"
      using q'(2) header_restD [OF q'(4)] Q(1,2,4) xs ks by (simp add: node_page_for_def inner_page_def pruned_keys_def)
    moreover have "cut_child q (length (fr_xs f)) = Inr q'" using q'(1) xs by (simp add: cut_child_def)
    ultimately show thesis using that by blast
  qed
qed

section \<open>The leaf in front\<close>

lemma relink_wp:
  assumes h: "heap_ok crc p A" and n: "n < 4294967296"
    and k: "\<And>k. prev = Some k \<Longrightarrow> k \<notin> A \<and> k \<noteq> 0 \<and> (\<exists>q. pview crc p k = Some q \<and> leaf_page q)"
  shows "wp (case prev of None \<Rightarrow> sret () | Some k \<Rightarrow> sbind (read_page crc k) (\<lambda>q. smod (write_page (set_extra q n))))
     (\<lambda>_ p'. heap_ok crc p' A \<and> (\<forall>j. prev \<noteq> Some j \<longrightarrow> pview crc p' j = pview crc p j) \<and>
        (\<forall>k. prev = Some k \<longrightarrow> (\<exists>q. pview crc p k = Some q \<and> pview crc p' k = Some (set_extra q n))) \<and>
        tmeta (pg_meta p') = tmeta (pg_meta p)) R p"
proof (cases prev)
  case None
  then show ?thesis using h by (auto simp: wp_def)
next
  case (Some k)
  obtain q where q: "k \<notin> A" "k \<noteq> 0" "pview crc p k = Some q" "leaf_page q" using k [OF Some] by auto
  have wf: "page_wf q" using q(4) by (simp add: leaf_page_def)
  note x = set_extra_fields [OF wf n]
  have len: "length (set_extra q n) = 4096" by (rule page_wf_length [OF x(1)])
  have id: "page_id (set_extra q n) = k" using x(4) pview_fields(2) [OF heap_okD(1) [OF h] q(3)] by simp
  show ?thesis
    unfolding Some option.case
  proof (rule wp_step [OF heap_read_wp [OF h q(3)]], elim conjE)
    fix y p1 assume y: "y = q" "heap_ok crc p1 A" "same_view crc p p1"
    note w = heap_write [OF y(2) len, unfolded id, OF q(1,2)]
    show "wp (smod (write_page (set_extra y n))) (\<lambda>_ p'. heap_ok crc p' A \<and> (\<forall>j. Some k \<noteq> Some j \<longrightarrow> pview crc p' j = pview crc p j) \<and>
        (\<forall>k'. Some k = Some k' \<longrightarrow> (\<exists>q. pview crc p k' = Some q \<and> pview crc p' k' = Some (set_extra q n))) \<and>
        tmeta (pg_meta p') = tmeta (pg_meta p)) R p1"
      unfolding y(1) by (rule wp_smod) (use w y(3) q(3) in \<open>auto simp: same_view_def\<close>)
  qed
qed

lemma prev_leaf_page:
  assumes "tree_at crc p A lo hi nxt (plug fs c)" "prev_of fs = Some k"
  shows "k \<in> set (frame_pages fs)" "\<exists>q. pview crc p k = Some q \<and> leaf_page q"
proof -
  have ch: "leaf_chain (pview crc p) (before fs @ leaves c @ after fs) nxt"
    using tree_atD(2) [OF assms(1)] unfolding shape_iff leaves_plug by simp
  define l where "l = last (before fs)"
  have l: "k = fst l" "l \<in> set (before fs)" using assms(2) by (auto simp: prev_of_def l_def split: if_splits)
  then show "k \<in> set (frame_pages fs)" using before_sub [of l fs] leaf_pages_mem(1) [of l] by auto
  show "\<exists>q. pview crc p k = Some q \<and> leaf_page q" using leaf_chain_mem [OF ch, of l] l by (metis UnCI set_append)
qed

section \<open>Unlinking the leaf\<close>

text \<open>What is left to do once the node that keeps other children is known.\<close>

definition unlink_leaf :: "(bytes \<Rightarrow> u32) \<Rightarrow> nat \<Rightarrow> nat \<Rightarrow> nat list \<Rightarrow> nat \<Rightarrow> (nat \<times> nat) list \<Rightarrow> nat \<Rightarrow> unit pager_op" where
  "unlink_leaf crc leaf_id nxt orphaned anchor_id path slt =
     sbind (previous_leaf crc path) (\<lambda>prev.
     sbind (case prev of None \<Rightarrow> sret () | Some prev_id \<Rightarrow>
         sbind (read_page crc prev_id) (\<lambda>q. smod (write_page (set_extra q nxt)))) (\<lambda>_.
     sbind (read_page crc anchor_id) (\<lambda>anchor.
     sbind (slift (cut_child anchor slt)) (\<lambda>anchor.
     sbind (smod (write_page anchor)) (\<lambda>_.
     sbind (free_page leaf_id) (\<lambda>_.
     sbind (smapM free_page orphaned) (\<lambda>_.
     collapse_root crc)))))))"

lemma unlink_leaf_wp:
  assumes T: "tree_at crc p0 A0 [] None SENTINEL (plug (f # fs) c)" "md_root (pg_meta p0) = root_id (plug (f # fs) c)"
    and c: "c = plug fo (Lf i es)" and ok: "\<forall>g \<in> set (fo @ f # fs). frame_ok g"
    and fo: "\<forall>g \<in> set fo. fr_ks1 g @ fr_ks2 g = []" and keys: "fr_ks1 f @ fr_ks2 f \<noteq> []"
    and E: "E = set (concat (map entry_pages es))" "heap_ok crc p (A0 \<union> E)" "moved crc p0 E p"
    and q0: "pview crc p0 i = Some q0" "nxt = extra q0"
    and R: "MAX_DEPTH + 1 < height (plug (f # fs) c) \<longrightarrow> (\<forall>p. R Corruption p)"
  shows "wp (unlink_leaf crc i nxt (map fr_id fo) (fr_id f) (path_of (f # fs)) (length (fr_xs f)))
     (\<lambda>_. bt_now crc p0 (set (pages (plug (f # fs) c)) \<union> A0) (height (plug (f # fs) c))
        (leaf_entries (before (f # fs) @ after (f # fs)))) R p"
proof -
  note t = tree_atD [OF T(1)]
  let ?F = "set (frame_pages (f # fs))" and ?t = "plug (f # fs) c" and ?t' = "plug fs (pruned f)" and ?O = "set (map fr_id fo)"
  have fo3: "before fo = []" "after fo = []" "frame_pages fo = rev (map fr_id fo)" using orphan_frames [OF fo] ok by auto
  have pc: "set (pages c) = ?O \<union> {i} \<union> E" unfolding c set_pages_plug fo3(3) by (auto simp: E(1))
  have dc: "distinct (map fr_id fo)" "i \<notin> ?O" "i \<notin> E" "?O \<inter> E = {}"
    using t(3) unfolding distinct_plug [of "f # fs"] c distinct_plug [of fo] fo3(3) by (auto simp: E(1))
  have lc: "leaves c = [(i, es)]" by (simp add: c leaves_plug fo3)
  have F: "?F \<inter> set (pages c) = {}" "?F \<inter> A0 = {}" "0 \<notin> ?F" "set (pages c) \<inter> A0 = {}" "0 \<notin> set (pages c)"
    using t(3-5) unfolding distinct_plug set_pages_plug by auto
  have out: "j \<notin> A0 \<and> j \<notin> E \<and> j \<noteq> 0 \<and> j \<noteq> i \<and> j \<notin> ?O" if "j \<in> ?F" for j
  proof -
    have "j \<notin> set (pages c)" "j \<notin> A0" "j \<noteq> 0" using that F(1-3) by (auto simp del: frame_pages.simps)
    then show ?thesis unfolding pc by simp
  qed
  have V: "pview crc p j = pview crc p0 j" if "j \<notin> E" for j using E(3) that by (simp add: moved_def)
  have hole: "hole_at crc p (A0 \<union> E) (f # fs) c"
    unfolding hole_at_def using E(2) ok out T(1) V by (intro conjI exI) (blast, simp, blast, blast, blast)
  obtain q where q: "pview crc p (fr_id f) = Some q" "inner_page q" using hole_node [OF hole] by metis
  obtain q' where q': "cut_child q (length (fr_xs f)) = Inr q'" "node_page_for q' (fr_id f) (pruned_keys f) (fr_xs f @ fr_ys f)"
    using cut_child_ok [OF hole q(1) keys] by blast
  have idf: "fr_id f \<in> ?F" by simp
  have pk: "k \<in> ?F" "\<exists>q. pview crc p k = Some q \<and> leaf_page q" "k \<noteq> fr_id f" if "prev_of (f # fs) = Some k" for k
  proof -
    note k = prev_leaf_page [OF T(1) that]
    show "k \<in> ?F" by (rule k)
    then have "k \<notin> E" using out by blast
    then show "\<exists>q. pview crc p k = Some q \<and> leaf_page q" using k(2) V by simp
    then show "k \<noteq> fr_id f" using q by (auto simp: leaf_page_def inner_page_def)
  qed
  have n: "nxt < 4294967296" using extra_bound [of q0] q0(2) by simp
  let ?Q = "\<lambda>_. bt_now crc p0 (set (pages ?t) \<union> A0) (height ?t) (leaf_entries (before (f # fs) @ after (f # fs)))"
  show ?thesis
    unfolding unlink_leaf_def
  proof (rule wp_step [OF previous_leaf_wp [where R = R, OF hole R]], fold prev_of_def, elim conjE)
    fix prev p1 assume p1: "same_view crc p p1" and prev: "prev = prev_of (f # fs)"
    have h1: "heap_ok crc p1 (A0 \<union> E)" by (rule same_view_heap [OF E(2) p1])
    have v1: "pview crc p1 = pview crc p" "pg_meta p1 = pg_meta p" using p1 by (auto simp: same_view_def)
    have rl: "k \<notin> A0 \<union> E \<and> k \<noteq> 0 \<and> (\<exists>q. pview crc p1 k = Some q \<and> leaf_page q)" if "prev = Some k" for k
      using pk(1,2) [of k] out [of k] that prev v1(1) by simp
    show "wp (sbind (case prev of None \<Rightarrow> sret () | Some prev_id \<Rightarrow>
         sbind (read_page crc prev_id) (\<lambda>q. smod (write_page (set_extra q nxt)))) (\<lambda>_.
       sbind (read_page crc (fr_id f)) (\<lambda>anchor.
       sbind (slift (cut_child anchor (length (fr_xs f)))) (\<lambda>anchor.
       sbind (smod (write_page anchor)) (\<lambda>_.
       sbind (free_page i) (\<lambda>_.
       sbind (smapM free_page (map fr_id fo)) (\<lambda>_. collapse_root crc))))))) ?Q R p1"
    proof (rule wp_step [OF relink_wp [OF h1 n rl]], assumption, elim conjE)
      fix p2
      assume p2: "heap_ok crc p2 (A0 \<union> E)" "\<forall>j. prev \<noteq> Some j \<longrightarrow> pview crc p2 j = pview crc p1 j"
        "\<forall>k. prev = Some k \<longrightarrow> (\<exists>q. pview crc p1 k = Some q \<and> pview crc p2 k = Some (set_extra q nxt))"
        "tmeta (pg_meta p2) = tmeta (pg_meta p1)"
      have "prev \<noteq> Some (fr_id f)" using pk(3) [of "fr_id f"] prev by auto
      then have a2: "pview crc p2 (fr_id f) = Some q" using p2(2) v1(1) q(1) by simp
      show "wp (sbind (read_page crc (fr_id f)) (\<lambda>anchor.
         sbind (slift (cut_child anchor (length (fr_xs f)))) (\<lambda>anchor.
         sbind (smod (write_page anchor)) (\<lambda>_.
         sbind (free_page i) (\<lambda>_.
         sbind (smapM free_page (map fr_id fo)) (\<lambda>_. collapse_root crc)))))) ?Q R p2"
      proof (rule wp_step [OF heap_read_wp [OF p2(1) a2]], elim conjE)
        fix x p3 assume p3: "x = q" "heap_ok crc p3 (A0 \<union> E)" "same_view crc p2 p3"
        let ?p4 = "write_page q' p3"
        have q'p: "length q' = 4096" "page_id q' = fr_id f"
          using q'(2) page_wf_length by (auto simp: node_page_for_def inner_page_def)
        have "fr_id f \<notin> A0 \<union> E" "fr_id f \<noteq> 0" using out [OF idf] by auto
        note w = heap_write [OF p3(2) q'p(1), unfolded q'p(2), OF this]
        have i4: "i \<notin> A0 \<union> E" "i \<noteq> 0" using F(4,5) pc dc(3) by auto
        show "wp (sbind (slift (cut_child x (length (fr_xs f)))) (\<lambda>anchor.
           sbind (smod (write_page anchor)) (\<lambda>_.
           sbind (free_page i) (\<lambda>_.
           sbind (smapM free_page (map fr_id fo)) (\<lambda>_. collapse_root crc))))) ?Q R p3"
          unfolding p3(1)
        proof (rule wp_sbind_slift [OF q'(1)], rule wp_sbind_smod, rule wp_step [OF heap_free_wp [OF w(1) i4]], elim conjE)
          fix p5
          assume p5: "heap_ok crc p5 (insert i (A0 \<union> E))" "\<forall>j. j \<noteq> i \<longrightarrow> pview crc p5 j = pview crc ?p4 j"
            "tmeta (pg_meta p5) = tmeta (pg_meta ?p4)"
          have o: "?O \<inter> insert i (A0 \<union> E) = {}" "0 \<notin> ?O" using F(4,5) pc dc by auto
          show "wp (sbind (smapM free_page (map fr_id fo)) (\<lambda>_. collapse_root crc)) ?Q R p5"
          proof (rule wp_step [OF free_pages_wp [OF p5(1) dc(1) o]], elim conjE)
            fix p6 assume p6: "heap_ok crc p6 (insert i (A0 \<union> E) \<union> ?O)" "moved crc p5 ?O p6"
            have A: "insert i (A0 \<union> E) \<union> ?O = A0 \<union> set (pages c)" using pc by auto
            have frame: "pview crc p6 j = pview crc ?p4 j" if "j \<in> ?F" for j
              using p6(2) p5(2) out [OF that] unfolding moved_def by simp
            have v4: "pview crc ?p4 = (pview crc p2)(fr_id f := Some q')" using w(2) p3(3) by (simp add: same_view_def)
            have tm: "tmeta (pg_meta p6) = tmeta (pg_meta p0)"
              using p6(2) p5(3) w(3) p3(3) p2(4) v1(2) E(3) by (simp add: moved_def same_view_def)
            have "tree_at crc p6 (A0 \<union> set (pages c)) [] None SENTINEL ?t'"
            proof (rule pruned_tree [OF T(1) lc _ keys p6(1) [unfolded A] refl _ q'(2) _ q0(1)])
              show "pview crc p6 (fr_id f) = Some q'" using frame [OF idf] v4 by simp
              fix j assume "j \<in> ?F" "j \<noteq> fr_id f" "prev_of (f # fs) \<noteq> Some j"
              moreover from this have "j \<notin> E" using out by blast
              ultimately show "pview crc p6 j = pview crc p0 j" using frame v4 p2(2) prev v1(1) V by auto
            next
              fix k assume k: "prev_of (f # fs) = Some k"
              then have "k \<notin> E" using pk(1) out by blast
              then show "\<exists>qk. pview crc p0 k = Some qk \<and> pview crc p6 k = Some (set_extra qk (extra q0))"
                using p2(3) k prev v1(1) V frame [OF pk(1) [OF k]] v4 pk(3) [OF k] q0(2) by auto
            qed (use ok in auto)
            moreover have "md_root (pg_meta p6) = root_id ?t'"
              using tmeta_rest [OF tm] T(2) root_plug [of "pruned f" "fill f c" fs] by (simp add: pruned_simps fill_def)
            ultimately have b: "bt_at crc p6 (A0 \<union> set (pages c)) ?t'" by (simp add: bt_at_def)
            have ht: "height ?t' \<le> height ?t" using height_plug_mono [OF height_pruned, of fs f c] by simp
            have U: "set (pages ?t') \<union> (A0 \<union> set (pages c)) = set (pages ?t) \<union> A0"
              using plug_pruned_pages(1) [of fs f] set_pages_plug [of "f # fs" c] by blast
            have es: "entries ?t' = leaf_entries (before (f # fs) @ after (f # fs))"
              by (simp add: entries_leaves leaves_plug pruned_simps)
            show "wp (collapse_root crc) ?Q R p6"
              by (rule wp_conseq [OF collapse_root_wp [OF b]])
                (use ht tmeta_rest [OF tm] in \<open>auto simp: bt_now_def U es intro: order_trans\<close>)
          qed
        qed (rule w(4))
      qed
    qed
  qed
qed

section \<open>A leaf that stays\<close>

lemma leaf_chain_edit:
  assumes "leaf_chain V (ls1 @ (i, es) # ls2) nxt" "V i = Some q"
    and "V' i = Some q'" "leaf_page q'" "extra q' = extra q" "cells q' = map entry_cell es'"
    and "\<forall>e \<in> set es'. entry_ok V' e" "sorted_wrt (<) (map fst es')"
    and "\<And>l j. l \<in> set (ls1 @ ls2) \<Longrightarrow> j \<in> set (leaf_pages l) \<Longrightarrow> V' j = V j"
  shows "leaf_chain V' (ls1 @ (i, es') # ls2) nxt"
proof -
  have c: "leaf_chain V ls1 i" "leaf_at V i es (if ls2 = [] then nxt else fst (hd ls2))" "leaf_chain V ls2 nxt"
    using assms(1) leaf_chain_append [of V ls1 "(i, es) # ls2" nxt] by auto
  have "leaf_chain V' ls1 i" by (rule leaf_chain_cong [OF c(1)]) (use assms(9) in auto)
  moreover have "leaf_chain V' ls2 nxt" by (rule leaf_chain_cong [OF c(3)]) (use assms(9) in auto)
  moreover have "leaf_at V' i es' (if ls2 = [] then nxt else fst (hd ls2))"
    using c(2) assms(2-8) by (auto simp: leaf_at_def)
  ultimately show ?thesis using leaf_chain_append [of V' ls1 "(i, es') # ls2" nxt] by simp
qed

lemma edited_leaf:
  assumes T: "tree_at crc p0 A0 [] None SENTINEL (plug fs (Lf i es))" and ok: "\<forall>g \<in> set fs. frame_ok g"
    and q0: "pview crc p0 i = Some q0" and h: "hold_leaf crc p A lo hi nxt i q es'" and n: "nxt = extra q0"
    and sub: "set es' \<subseteq> set es" and E: "moved crc p0 E p" "E \<subseteq> set (concat (map entry_pages es))"
    and A: "A = A0 \<union> E"
  shows "tree_at crc (write_page q p) A [] None SENTINEL (plug fs (Lf i es'))"
proof -
  let ?V = "pview crc p0" and ?V' = "pview crc (write_page q p)"
  note t = tree_atD [OF T] and w = hold_leaf_write [OF h]
  have hl: "leaf_page q" "cells q = map entry_cell es'" "extra q = nxt" "\<forall>e \<in> set es'. entry_ok (pview crc p) e" "sorted_wrt (<) (map fst es')"
    "distinct (pages (Lf i es'))" "set (pages (Lf i es')) \<inter> A = {}" "0 \<notin> set (pages (Lf i es'))"
    using h by (auto simp: hold_leaf_def)
  have sh: "shp ?V [] None (plug fs (Lf i es))" "leaf_chain ?V (before fs @ (i, es) # after fs) SENTINEL"
    using t(2) leaves_plug [of fs "Lf i es"] unfolding shape_iff by simp_all
  have dis: "distinct (frame_pages fs)" "set (frame_pages fs) \<inter> set (pages (Lf i es)) = {}"
    using t(3) unfolding distinct_plug by auto
  have same: "?V' j = ?V j" if "j \<in> set (frame_pages fs)" for j
  proof -
    have "j \<noteq> i" "j \<notin> E" using that dis(2) E(2) by auto
    then show ?thesis using E(1) by (simp add: w(2) moved_def)
  qed
  have eok: "\<forall>e \<in> set es'. entry_ok ?V' e" using tree_atD(2) [OF w(1)] by (auto elim: shape_LfE)
  have "shp ?V' [] None (plug fs (Lf i es'))"
  proof (rule shp_plug_replace [OF sh(1)])
    show "\<forall>j \<in> set (frame_pages fs). relinked ?V ?V' j" using same by (simp add: relinked_def)
    fix a b assume "shp ?V a b (Lf i es)"
    then have "\<forall>e \<in> set es'. a \<le> fst e \<and> lt_hi (fst e) b" using sub by (auto elim: shp_LfE)
    then show "shp ?V' a b (Lf i es')" by (intro shp_leaf [of ?V' i q]) (use hl eok in \<open>auto simp: w(2)\<close>)
  qed (use ok in auto)
  moreover have "leaf_chain ?V' (before fs @ (i, es') # after fs) SENTINEL"
  proof (rule leaf_chain_edit [OF sh(2) q0])
    show "?V' i = Some q" by (simp add: w(2))
    fix l j assume "l \<in> set (before fs @ after fs)" "j \<in> set (leaf_pages l)"
    then show "?V' j = ?V j" using before_sub same by blast
  qed (use hl eok n in auto)
  ultimately have "shape ?V' [] None SENTINEL (plug fs (Lf i es'))" by (simp add: shape_iff leaves_plug)
  moreover have "set (pages (Lf i es')) \<subseteq> set (pages (Lf i es))" "E \<subseteq> set (pages (Lf i es))" using sub E(2) by auto
  then have "set (frame_pages fs) \<inter> A = {}" "set (frame_pages fs) \<inter> set (pages (Lf i es')) = {}" "0 \<notin> set (frame_pages fs)"
    using t(4,5) dis(2) unfolding A set_pages_plug by blast+
  ultimately show ?thesis
    unfolding tree_at_def distinct_plug set_pages_plug using hl(6-8) dis(1) tree_atD(1) [OF w(1)] by auto
qed

section \<open>A leaf that goes away\<close>

lemma last_leaf_root_wp:
  assumes h: "hold_leaf crc p A lo hi SENTINEL i q []" and O: "distinct os" "set os \<inter> (A \<union> {0, i}) = {}"
    and m: "rest_meta p = rest_meta p0" and U: "insert i (A \<union> set os) = U" and ht: "1 \<le> ht"
  shows "wp (sbind (smod (write_page q)) (\<lambda>_. sbind (smod (\<lambda>p. set_meta ((pg_meta p)\<lparr>md_root := i\<rparr>) p)) (\<lambda>_.
       smapM free_page os))) (\<lambda>_. bt_now crc p0 U ht []) R p"
proof -
  note w = hold_leaf_write [OF h]
  let ?p1 = "write_page q p" and ?p2 = "set_meta ((pg_meta (write_page q p))\<lparr>md_root := i\<rparr>) (write_page q p)"
  have T: "tree_at crc ?p1 A [] None SENTINEL (Lf i [])"
    using w(1) unfolding tree_at_def by (auto elim!: shape_LfE intro!: shape_leaf)
  note t = tree_atD [OF T]
  have i: "i < 2 ^ 32" using owned_bound(1) [OF t(1), of i] t(4) by simp
  note s = heap_set_root [OF t(1) i]
  show ?thesis
  proof (rule wp_sbind_smod, rule wp_sbind_smod, rule wp_conseq [OF free_pages_wp [OF s(1) O(1)]])
    fix x p3 assume p3: "heap_ok crc p3 (A \<union> set os) \<and> moved crc ?p2 (set os) p3"
    have "shape (pview crc p3) [] None SENTINEL (Lf i [])"
      by (rule shape_cong [OF t(2)]) (use p3 O(2) s(2) in \<open>auto simp: moved_def\<close>)
    then have "tree_at crc p3 (A \<union> set os) [] None SENTINEL (Lf i [])"
      unfolding tree_at_def using p3 t(4,5) O(2) by auto
    moreover have "tmeta (pg_meta p3) = tmeta (pg_meta ?p2)" using p3 by (simp add: moved_def)
    then have "rest_meta p3 = rest_meta p0" "md_root (pg_meta p3) = i"
      using m w(3) s(3) by (auto simp: tmeta_def rest_meta_def)
    ultimately show "bt_now crc p0 U ht [] p3"
      unfolding bt_now_def bt_at_def using U ht by (intro conjI exI [of _ "A \<union> set os"] exI [of _ "Lf i []"]) auto
  qed (use O(2) s(4) w(4) in auto)
qed

lemma remove_empty_leaf_wp:
  assumes T: "tree_at crc p0 A0 [] None SENTINEL (plug fs (Lf i es))" "md_root (pg_meta p0) = root_id (plug fs (Lf i es))"
    and ok: "\<forall>g \<in> set fs. frame_ok g" and q0: "pview crc p0 i = Some q0"
    and h: "hold_leaf crc p (A0 \<union> E) lo hi (extra q0) i q []"
    and E: "E = set (concat (map entry_pages es))" "moved crc p0 E p"
    and R: "MAX_DEPTH + 1 < height (plug fs (Lf i es)) \<longrightarrow> (\<forall>p. R Corruption p)"
  shows "wp (remove_empty_leaf crc q i (path_of fs))
     (\<lambda>_. bt_now crc p0 (set (pages (plug fs (Lf i es))) \<union> A0) (height (plug fs (Lf i es)))
        (leaf_entries (before fs @ after fs))) R p"
proof -
  note t = tree_atD [OF T(1)]
  let ?t = "plug fs (Lf i es)"
  let ?Q = "\<lambda>_. bt_now crc p0 (set (pages ?t) \<union> A0) (height ?t) (leaf_entries (before fs @ after fs))"
  have hp: "heap_ok crc p (A0 \<union> E)" "extra q = extra q0" using h by (auto simp: hold_leaf_def)
  have out: "j \<notin> A0 \<and> j \<notin> E \<and> j \<noteq> 0 \<and> j \<noteq> i" if "j \<in> set (frame_pages fs)" for j
    using t(3-5) that unfolding distinct_plug set_pages_plug by (auto simp: E(1))
  have hole: "hole_at crc p (A0 \<union> E) fs (Lf i es)"
    unfolding hole_at_def
  proof (intro conjI exI)
    show "tree_at crc p0 A0 [] None SENTINEL ?t" by (rule T)
    show "\<forall>j \<in> set (frame_pages fs). pview crc p j = pview crc p0 j" using out E(2) by (auto simp: moved_def)
  qed (use hp ok out in blast)+
  show ?thesis
    unfolding remove_empty_leaf_def
  proof (rule wp_step [OF pop_orphans_wp [OF hole]], clarify)
    fix p1 fo fs'
    assume p1: "same_view crc p p1" and fs: "fs = fo @ fs'" and fo: "\<forall>f \<in> set fo. fr_ks1 f @ fr_ks2 f = []"
      and fs': "fs' \<noteq> [] \<longrightarrow> fr_ks1 (hd fs') @ fr_ks2 (hd fs') \<noteq> []"
    have fo3: "before fo = []" "after fo = []" "frame_pages fo = rev (map fr_id fo)"
      using orphan_frames [OF fo] ok fs by auto
    have h1: "heap_ok crc p1 (A0 \<union> E)" by (rule same_view_heap [OF hp(1) p1])
    have v1: "pview crc p1 = pview crc p" "pg_meta p1 = pg_meta p" using p1 by (auto simp: same_view_def)
    show "wp (case path_of fs' of
         [] \<Rightarrow> sbind (smod (write_page q)) (\<lambda>_. sbind (smod (\<lambda>p. set_meta ((pg_meta p)\<lparr>md_root := i\<rparr>) p)) (\<lambda>_.
           smapM free_page ([] @ map fr_id fo)))
       | (anchor_id, slt) # list \<Rightarrow>
           sbind (previous_leaf crc (path_of fs')) (\<lambda>prev.
           sbind (case prev of None \<Rightarrow> sret ()
             | Some prev_id \<Rightarrow> sbind (read_page crc prev_id) (\<lambda>x. smod (write_page (set_extra x (extra q))))) (\<lambda>_.
           sbind (read_page crc anchor_id) (\<lambda>anchor.
           sbind (slift (if slt = 0
               then rbind (internal_child anchor 0) (\<lambda>first. remove_cell_at (set_extra anchor first) 0)
               else remove_cell_at anchor (slt - 1))) (\<lambda>anchor.
           sbind (smod (write_page anchor)) (\<lambda>_.
           sbind (free_page i) (\<lambda>_.
           sbind (smapM free_page ([] @ map fr_id fo)) (\<lambda>_. collapse_root crc))))))))
       (\<lambda>_. bt_now crc p0 (set (pages (plug (fo @ fs') (Lf i es))) \<union> A0) (height (plug (fo @ fs') (Lf i es)))
          (leaf_entries (before (fo @ fs') @ after (fo @ fs')))) R p1"
    proof (cases fs')
      case Nil
      then have fs0: "fs = fo" "frame_pages fs = rev (map fr_id fo)" "before fs = []" "after fs = []" using fs fo3 by auto
      have "leaf_chain (pview crc p0) [(i, es)] SENTINEL"
        using t(2) leaves_plug [of fs "Lf i es"] fs0 unfolding shape_iff by simp
      then have n: "extra q0 = SENTINEL" using q0 by (simp add: leaf_at_def)
      have hl: "hold_leaf crc p1 (A0 \<union> E) lo hi SENTINEL i q []"
        by (rule hold_leaf_frame [OF h [unfolded n] h1]) (use h in \<open>auto simp: hold_leaf_def\<close>)
      have m: "rest_meta p1 = rest_meta p0"
        using tmeta_rest [of p p0] E(2) v1(2) by (simp add: moved_def rest_meta_def)
      have d: "distinct (map fr_id fo)" using t(3) unfolding distinct_plug fs0(2) by simp
      have "wp (sbind (smod (write_page q)) (\<lambda>_. sbind (smod (\<lambda>p. set_meta ((pg_meta p)\<lparr>md_root := i\<rparr>) p)) (\<lambda>_.
           smapM free_page (map fr_id fo)))) (\<lambda>_. bt_now crc p0 (set (pages ?t) \<union> A0) (height ?t) []) R p1"
      proof (rule last_leaf_root_wp [OF hl d _ m])
        show "set (map fr_id fo) \<inter> (A0 \<union> E \<union> {0, i}) = {}" using out fs0(2) by auto
        show "insert i (A0 \<union> E \<union> set (map fr_id fo)) = set (pages ?t) \<union> A0"
          unfolding set_pages_plug fs0(2) by (auto simp: E(1))
        show "1 \<le> height ?t" using height_plug [of "Lf i es" fs] by simp
      qed
      then show ?thesis unfolding fs [symmetric] by (simp add: Nil path_of_def fs0(3,4))
    next
      case (Cons f fs2)
      have pl: "?t = plug (f # fs2) (plug fo (Lf i es))" by (simp add: fs Cons plug_append)
      have bf: "before fs = before (f # fs2)" "after fs = after (f # fs2)"
      proof -
        have "before (fo @ g) = before g @ before fo" "after (fo @ g) = after fo @ after g" for g by (induction fo) auto
        then show "before fs = before (f # fs2)" "after fs = after (f # fs2)" using fo3 fs Cons by auto
      qed
      have mv: "moved crc p0 E p1" using E(2) v1 by (simp add: moved_def)
      have "wp (unlink_leaf crc i (extra q) (map fr_id fo) (fr_id f) (path_of (f # fs2)) (length (fr_xs f))) ?Q R p1"
        unfolding pl bf
        by (rule unlink_leaf_wp [where R = R and fo = fo and i = i and es = es,
              OF T [unfolded pl] refl _ fo _ E(1) h1 mv q0 hp(2) R [unfolded pl]])
          (use ok fs fs' Cons in auto)
      then show ?thesis unfolding fs [symmetric] by (simp add: Cons path_of_def unlink_leaf_def cut_child_def)
    qed
  qed
qed

section \<open>Deletion\<close>

lemma bm_del_around:
  fixes key :: bytes
  assumes "around key ls1 ls2"
  shows "bm_del key (leaf_entries (ls1 @ (i, es) # ls2)) =
     leaf_entries (ls1 @ (i, filter (\<lambda>e. fst e \<noteq> key) es) # ls2)"
proof -
  have "filter (\<lambda>e. fst e \<noteq> key) (leaf_entries ls1) = leaf_entries ls1" "filter (\<lambda>e. fst e \<noteq> key) (leaf_entries ls2) = leaf_entries ls2"
    using assms unfolding around_def by (auto intro!: filter_True)
  then show ?thesis using bm_del_entries [of key es] by (simp add: bm_del_def)
qed

lemma bt_delete_wp:
  assumes b: "bt_at crc p A t" and R: "MAX_DEPTH + 1 < height t \<longrightarrow> (\<forall>p. R Corruption p)"
    and N: "\<And>p'. bm_get (entries t) key = None \<Longrightarrow> same_view crc p p' \<Longrightarrow> R NotFound p'"
  shows "wp (bt_delete crc key) (\<lambda>_ p'. bm_get (entries t) key \<noteq> None \<and>
      bt_now crc p (set (pages t) \<union> A) (height t) (bm_del key (entries t)) p') R p"
proof -
  have T: "tree_at crc p A [] None SENTINEL t" "md_root (pg_meta p) = root_id t" using b by (auto simp: bt_at_def)
  let ?Q = "\<lambda>_ p'. bm_get (entries t) key \<noteq> None \<and> bt_now crc p (set (pages t) \<union> A) (height t) (bm_del key (entries t)) p'"
  have fa: "frames_around key []" by (simp add: frames_around_def around_def)
  have lo: "[] \<le> key" "lt_hi key None" by simp_all
  have "wp (sbind (descend crc key (MAX_DEPTH + 1) (root_id t) (path_of [])) (\<lambda>(leaf_id, leaf, path).
     sbind (slift (search leaf key)) (\<lambda>r.
       case r of
         Missing _ \<Rightarrow> serr NotFound
       | Found idx \<Rightarrow>
           sbind (slift (leaf_cell_at leaf idx)) (\<lambda>c.
           sbind (case lc_overflow c of
               Some head \<Rightarrow> free_overflow_chain crc head
             | None \<Rightarrow> sret ()) (\<lambda>_.
           sbind (slift (remove_cell_at leaf idx)) (\<lambda>leaf.
             if num_keys leaf > 0 \<or> path = [] then smod (write_page leaf)
             else remove_empty_leaf crc leaf leaf_id path)))))) ?Q R p"
  proof (rule wp_step [OF descend_wp [where R = R, OF T(1) lo R fa]], clarify)
    fix i q p1 fs es
    assume s1: "same_view crc p p1" and q: "pview crc p i = Some q" and pl: "plug fs (Lf i es) = plug [] t"
      and fr: "frames_around key fs"
    have t: "t = plug fs (Lf i es)" using pl by simp
    have T1: "tree_at crc p1 A [] None SENTINEL (plug fs (Lf i es))" using tree_at_same [OF T(1) s1] by (simp add: t)
    have q1: "pview crc p1 i = Some q" and m1: "md_root (pg_meta p1) = root_id t" "rest_meta p1 = rest_meta p"
      using s1 q T(2) by (auto simp: same_view_def rest_meta_def)
    have ok: "\<forall>g \<in> set fs. frame_ok g" and ar: "around key (before fs) (after fs)" using fr by (auto simp: frames_around_def)
    obtain a b n where TL: "tree_at crc p1 A a b n (Lf i es)" using tree_at_plug [OF T1 ok] by blast
    have h: "hold_leaf crc p1 A a b n i q es" by (rule hold_leafI [OF TL q1])
    have hl: "leaf_page q" "cells q = map entry_cell es" "sorted_wrt (<) (map fst es)" "\<forall>e \<in> set es. entry_ok (pview crc p1) e"
        "n = extra q" "heap_ok crc p1 A"
      using h by (auto simp: hold_leaf_def)
    note rd = leaf_page_reads [OF heap_okD(1) [OF hl(6)] hl(1,2,4)]
    have ent: "entries t = leaf_entries (before fs @ (i, es) # after fs)" by (simp add: t entries_leaves leaves_plug)
    have get: "bm_get (entries t) key = bm_get (map entry_kv es) key"
      using bm_get_around [OF ar, of "(i, es)"] ent by simp
    show "wp (sbind (slift (search q key)) (\<lambda>r.
       case r of
         Found idx \<Rightarrow>
           sbind (slift (leaf_cell_at q idx)) (\<lambda>c.
           sbind (case lc_overflow c of
               None \<Rightarrow> sret () | Some head \<Rightarrow> free_overflow_chain crc head) (\<lambda>_.
           sbind (slift (remove_cell_at q idx)) (\<lambda>leaf.
             if num_keys leaf > 0 \<or> path_of fs = [] then smod (write_page leaf)
             else remove_empty_leaf crc leaf i (path_of fs))))
       | Missing _ \<Rightarrow> serr NotFound)) ?Q R p1"
    proof (cases rule: leaf_search [where key = key, OF rd(1) hl(3), case_names found missing])
      case (missing j)
      then have "bm_get (entries t) key = None" using get by simp
      then show ?thesis
        by (intro wp_sbind_slift [OF missing(1)]) (simp only: search_result.case, rule wp_serr, rule N [OF _ s1])
    next
      case (found j)
      let ?E = "set (entry_pages (es ! j))" and ?es = "filter (\<lambda>e. fst e \<noteq> key) es"
      note rm = removed_leaf [OF h found(2,3)]
      have fnd: "bm_get (entries t) key \<noteq> None" using get found(5) by simp
      have sub: "?E \<subseteq> set (concat (map entry_pages es))" using nth_mem [OF found(2)] by (auto intro!: bexI [of _ "es ! j"])
      have del: "bm_del key (entries t) = leaf_entries (before fs @ (i, ?es) # after fs)"
        unfolding ent by (rule bm_del_around [OF ar])
      have "wp (sbind (sbind (case lc_overflow (lc_of (es ! j)) of
               None \<Rightarrow> sret () | Some head \<Rightarrow> free_overflow_chain crc head) (\<lambda>_. slift (remove_cell_at q j))) (\<lambda>leaf.
             if num_keys leaf > 0 \<or> path_of fs = [] then smod (write_page leaf)
             else remove_empty_leaf crc leaf i (path_of fs))) ?Q R p1"
      proof (rule wp_step [OF remove_entry_wp [OF h found(2,3)]], elim conjE, rule wp_if)
        fix q' p2
        assume h2: "hold_leaf crc p2 (A \<union> ?E) a b n i q' ?es" and mv: "moved crc p1 ?E p2"
        have T2: "tree_at crc (write_page q' p2) (A \<union> ?E) [] None SENTINEL (plug fs (Lf i ?es))"
          by (rule edited_leaf [OF T1 ok q1 h2 hl(5) _ mv sub refl]) auto
        have "tmeta (pg_meta (write_page q' p2)) = tmeta (pg_meta p1)"
          using mv hold_leaf_write(3) [OF h2] by (simp add: moved_def)
        note tm = tmeta_rest [OF this]
        have "bt_at crc (write_page q' p2) (A \<union> ?E) (plug fs (Lf i ?es))"
          unfolding bt_at_def using T2 tm m1(1) root_plug [of "Lf i ?es" "Lf i es" fs] by (simp add: t)
        then have "?Q () (write_page q' p2)"
          unfolding bt_now_def
        proof (intro conjI fnd exI)
          show "entries (plug fs (Lf i ?es)) = bm_del key (entries t)" unfolding del by (simp add: entries_leaves leaves_plug)
          show "set (pages (plug fs (Lf i ?es))) \<union> (A \<union> ?E) = set (pages t) \<union> A"
            unfolding t set_pages_plug rm(3) by blast
          show "height (plug fs (Lf i ?es)) \<le> height t" unfolding t by (rule height_plug_mono) simp
          show "rest_meta (write_page q' p2) = rest_meta p" using tm m1(2) by simp
        qed
        then show "wp (smod (write_page q')) ?Q R p2" by (rule wp_smod) (rule hold_leaf_write(4) [OF h2])
      next
        fix q' p2
        assume h2: "hold_leaf crc p2 (A \<union> ?E) a b n i q' ?es" and mv: "moved crc p1 ?E p2"
          and e: "\<not> (num_keys q' > 0 \<or> path_of fs = [])"
        have "cells q' = map entry_cell ?es" using h2 by (simp add: hold_leaf_def)
        then have es0: "?es = []" using e num_keys_cells [of q'] by simp
        have "es = take j es @ es ! j # drop (Suc j) es" using found(2) by (rule id_take_nth_drop)
        moreover have "take j es = []" "drop (Suc j) es = []"
          using filter_nth_removed [OF hl(3) found(2,3)] es0 by simp_all
        ultimately have one: "es = [es ! j]" by simp
        have E: "?E = set (concat (map entry_pages es))" by (subst (2) one) simp
        have m': "md_root (pg_meta p1) = root_id (plug fs (Lf i es))" using m1(1) by (simp add: t)
        have "wp (remove_empty_leaf crc q' i (path_of fs))
            (\<lambda>_. bt_now crc p1 (set (pages t) \<union> A) (height t) (leaf_entries (before fs @ after fs))) R p2"
          using remove_empty_leaf_wp [OF T1 m' ok q1 _ E mv, of a b q' R] h2 es0 hl(5) R by (simp add: t)
        then show "wp (remove_empty_leaf crc q' i (path_of fs)) ?Q R p2"
          by (rule wp_conseq) (use fnd m1(2) del es0 in \<open>auto simp: bt_now_def\<close>)
      qed
      then have "wp (sbind (slift (leaf_cell_at q j)) (\<lambda>c. sbind (case lc_overflow c of
               None \<Rightarrow> sret () | Some head \<Rightarrow> free_overflow_chain crc head) (\<lambda>_.
           sbind (slift (remove_cell_at q j)) (\<lambda>leaf.
             if num_keys leaf > 0 \<or> path_of fs = [] then smod (write_page leaf)
             else remove_empty_leaf crc leaf i (path_of fs))))) ?Q R p1"
        by (intro wp_sbind_slift [OF rd(2) [OF found(2)]]) (simp only: sbind_assoc)
      then show ?thesis by (intro wp_sbind_slift [OF found(1)]) (simp only: search_result.case)
    qed
  qed
  then show ?thesis unfolding wp_def bt_delete_def T(2) path_of_def by simp
qed

end
