(* ===== verification/Tree_Store.thy ===== *)
theory Tree_Store
  imports BTree_Remove Isolation
begin

text \<open>
  The B+tree as a map. The pages determine the entries of the tree, so a pager with a tree in
  it has a content, \<open>bt_content\<close>; the tree's operations satisfy the interface \<open>tree_ops\<close> that
  the version store merges into.
\<close>

section \<open>The pages determine the entries\<close>

lemma chain_unique: "chain_at V h os v \<Longrightarrow> chain_at V h os' v' \<Longrightarrow> os = os' \<and> v = v'"
proof (induction os arbitrary: h v os' v')
  case Nil
  then show ?case by (cases os') auto
next
  case (Cons i os)
  then obtain os2 where o: "os' = i # os2" by (cases os') auto
  obtain q bs v1 v2 where q: "V i = Some q" "read_overflow q = Inr bs" "v = bs @ v1" "chain_at V (extra q) os v1"
      "v' = bs @ v2" "chain_at V (extra q) os2 v2"
    using Cons.prems o by auto
  then show ?case using Cons.IH [OF q(4,6)] o by simp
qed

lemma entry_unique:
  assumes "pager_ok crc p" "entry_ok (pview crc p) e" "entry_ok (pview crc p) e'" "entry_cell e = entry_cell e'"
  shows "entry_kv e = entry_kv e'"
proof -
  have l: "lc_of e = lc_of e'" using entry_cell_decode(1) [OF assms(1,2)] entry_cell_decode(1) [OF assms(1,3)] assms(4) by simp
  obtain k v ov k' v' ov' where e: "e = (k, v, ov)" "e' = (k', v', ov')" by (metis prod.collapse)
  have k: "k = k'" "map_option ov_head ov = map_option ov_head ov'" using l by (simp_all add: e lc_of_def)
  show ?thesis
  proof (cases ov)
    case None
    then show ?thesis using l k by (auto simp: e lc_of_def entry_kv_def)
  next
    case (Some os)
    then obtain os' where o: "ov' = Some os'" "ov_head os = ov_head os'" using k(2) by (cases ov') auto
    have "chain_at (pview crc p) (ov_head os) os v" using assms(2) Some by (simp add: e entry_ok_def)
    moreover have "chain_at (pview crc p) (ov_head os) os' v'" using assms(3) o by (simp add: e entry_ok_def)
    ultimately show ?thesis using chain_unique k(1) by (auto simp: e entry_kv_def)
  qed
qed

lemma inner_cells_unique:
  assumes "inner_cells ks cs = inner_cells ks' cs'" "length cs = length ks" "length cs' = length ks'"
    and "\<forall>k \<in> set ks \<union> set ks'. length k \<le> MAX_KEY_SIZE" "\<forall>c \<in> set cs \<union> set cs'. root_id c < 4294967296"
  shows "map root_id cs = map root_id cs'"
  using assms
proof (induction ks arbitrary: cs ks' cs')
  case Nil
  then show ?case by (cases ks') (auto simp: inner_cells_def)
next
  case (Cons k ks)
  then obtain c cs1 k' ks1 c' cs2 where e: "cs = c # cs1" "ks' = k' # ks1" "cs' = c' # cs2"
    by (cases cs; cases ks'; cases cs') (auto simp: inner_cells_def)
  have i: "inner_cells ks cs1 = inner_cells ks1 cs2" and c: "encode_internal_cell k (root_id c) = encode_internal_cell k' (root_id c')"
    using Cons.prems(1) by (auto simp: e inner_cells_def)
  have "length k \<le> MAX_KEY_SIZE" "root_id c < 4294967296" "length k' \<le> MAX_KEY_SIZE" "root_id c' < 4294967296"
    using Cons.prems(4,5) by (auto simp: e)
  then have "Inr (k, root_id c) = (Inr (k', root_id c') :: (bytes \<times> nat) res)"
    using decode_inner [of k "root_id c"] decode_inner [of k' "root_id c'"] c by metis
  then have "root_id c = root_id c'" by simp
  moreover have "map root_id cs1 = map root_id cs2"
    by (rule Cons.IH [OF i]) (use Cons.prems(2-5) in \<open>auto simp: e\<close>)
  ultimately show ?case by (simp add: e)
qed

lemma shape_unique:
  assumes "shape (pview crc p) lo hi nxt t" "shape (pview crc p) lo' hi' nxt' t'" "root_id t = root_id t'"
    and "pager_ok crc p" "\<forall>j \<in> set (pages t) \<union> set (pages t'). j < 4294967296"
  shows "entries t = entries t'"
  using assms(1-3,5)
proof (induction t arbitrary: lo hi nxt lo' hi' nxt' t' rule: tree.induct)
  case (Lf i es)
  then obtain q where q: "pview crc p i = Some q" "leaf_page q" "cells q = map entry_cell es" "\<forall>e \<in> set es. entry_ok (pview crc p) e"
    by (auto elim: shape_LfE)
  obtain es' where t': "t' = Lf i es'" "cells q = map entry_cell es'" "\<forall>e \<in> set es'. entry_ok (pview crc p) e"
    using Lf.prems(2,3) q(1,2) by (cases t') (auto elim!: shape_LfE shape_NdE simp: leaf_page_def inner_page_def)
  have "map entry_cell es = map entry_cell es'" using q(3) t'(2) by simp
  then have "map entry_kv es = map entry_kv es'"
    using q(4) t'(3)
  proof (induction es arbitrary: es')
    case (Cons e es)
    then obtain e' es2 where "es' = e' # es2" by (cases es') auto
    then show ?case using Cons entry_unique [OF assms(4), of e e'] by auto
  qed simp
  then show ?case by (simp add: t')
next
  case (Nd i ks cs)
  then obtain q where q: "pview crc p i = Some q" "inner_page q" "cells q = inner_cells ks (tl cs)" "extra q = root_id (hd cs)"
      "kids (shape (pview crc p)) lo hi nxt ks cs"
    by (auto elim: shape_NdE)
  obtain ks' cs' where t': "t' = Nd i ks' cs'" "cells q = inner_cells ks' (tl cs')" "extra q = root_id (hd cs')"
      "kids (shape (pview crc p)) lo' hi' nxt' ks' cs'"
    using Nd.prems(2,3) q(1,2) by (cases t') (auto elim!: shape_LfE shape_NdE simp: leaf_page_def inner_page_def)
  note len = kids_length [OF q(5)] kids_length [OF t'(4)]
  have rt: "\<forall>c \<in> set cs \<union> set cs'. root_id c < 4294967296"
    using Nd.prems(4) root_in_pages by (fastforce simp: t'(1))
  have "map root_id (tl cs) = map root_id (tl cs')"
    by (rule inner_cells_unique [of ks _ ks'])
      (use q(3) t'(2) len kids_seps [OF q(5)] kids_seps [OF t'(4)] rt in \<open>(cases cs; cases cs'; auto)+\<close>)
  then have ids: "map root_id cs = map root_id cs'" using q(4) t'(3) len by (cases cs; cases cs') auto
  have sh: "\<exists>a b n. shape (pview crc p) a b n c" if "kids (shape (pview crc p)) l h x kk dd" "c \<in> set dd" for l h x kk dd c
    using that by (induction "shape (pview crc p)" l h x kk dd rule: kids.induct) auto
  have "map entries cs = map entries cs'"
  proof (rule nth_equalityI)
    show "length (map entries cs) = length (map entries cs')" using arg_cong [OF ids, of length] by simp
    fix j assume "j < length (map entries cs)"
    then have j: "j < length cs" "j < length cs'" using arg_cong [OF ids, of length] by auto
    obtain a b n a' b' n' where s: "shape (pview crc p) a b n (cs ! j)" "shape (pview crc p) a' b' n' (cs' ! j)"
      using sh [OF q(5) nth_mem [OF j(1)]] sh [OF t'(4) nth_mem [OF j(2)]] by blast
    have "set (pages (cs ! j)) \<union> set (pages (cs' ! j)) \<subseteq> set (pages (Nd i ks cs)) \<union> set (pages t')"
      using nth_mem [OF j(1)] nth_mem [OF j(2)] by (auto simp: t'(1))
    moreover have "root_id (cs ! j) = root_id (cs' ! j)" using ids j by (metis nth_map)
    ultimately have "entries (cs ! j) = entries (cs' ! j)"
      using Nd.IH [OF nth_mem [OF j(1)] s] Nd.prems(4) by blast
    then show "map entries cs ! j = map entries cs' ! j" using j by simp
  qed
  then show ?case by (simp add: t'(1))
qed

lemma bt_at_unique:
  assumes "bt_at crc p A t" "bt_at crc p A' t'"
  shows "entries t = entries t'"
proof -
  have T: "tree_at crc p A [] None SENTINEL t" "tree_at crc p A' [] None SENTINEL t'" "root_id t = root_id t'"
    using assms by (auto simp: bt_at_def)
  have "\<forall>j \<in> set (pages t). j < 4294967296" "\<forall>j \<in> set (pages t'). j < 4294967296"
    using owned_bound(1) [OF tree_atD(1) [OF T(1)]] tree_atD(4) [OF T(1)]
      owned_bound(1) [OF tree_atD(1) [OF T(2)]] tree_atD(4) [OF T(2)] by blast+
  then show ?thesis by (intro shape_unique [OF tree_atD(2) [OF T(1)] tree_atD(2) [OF T(2)] T(3) tree_atD(6) [OF T(1)]]) auto
qed

section \<open>The tree as a map\<close>

definition bt_ok :: "(bytes \<Rightarrow> u32) \<Rightarrow> pager \<Rightarrow> bool" where
  "bt_ok crc p \<longleftrightarrow> (\<exists>A t. bt_at crc p A t)"

definition bt_map :: "(bytes \<Rightarrow> u32) \<Rightarrow> pager \<Rightarrow> (bytes, bytes) bmap" where
  "bt_map crc p = (THE m. \<exists>A t. bt_at crc p A t \<and> m = entries t)"

definition bt_content :: "(bytes \<Rightarrow> u32) \<Rightarrow> pager \<Rightarrow> db_state" where
  "bt_content crc p = bm_get (bt_map crc p)"

lemma bt_map_eq: "bt_at crc p A t \<Longrightarrow> bt_map crc p = entries t"
  unfolding bt_map_def by (rule the_equality) (auto dest: bt_at_unique)

lemma bt_at_sorted: "bt_at crc p A t \<Longrightarrow> bm_ok (entries t)"
  using shape_keys [OF tree_atD(2)] by (auto simp: bt_at_def keys_in_def)

lemma bt_now_ok:
  assumes "bt_now crc p U ht m p'"
  shows "bt_ok crc p'" "bt_map crc p' = m" "rest_meta p' = rest_meta p"
  using assms bt_map_eq unfolding bt_now_def bt_ok_def by auto

lemma bt_ok_same: "bt_ok crc p \<Longrightarrow> same_view crc p p' \<Longrightarrow> bt_ok crc p' \<and> bt_map crc p' = bt_map crc p"
  unfolding bt_ok_def using bt_at_same bt_map_eq by metis

lemma bt_insert_ok:
  assumes "bt_ok crc p" "bt_insert crc ff k v p = (Inr u, p')"
  shows "bt_ok crc p' \<and> bt_map crc p' = bm_put k v (bt_map crc p) \<and> rest_meta p' = rest_meta p"
proof -
  obtain A t where b: "bt_at crc p A t" using assms(1) by (auto simp: bt_ok_def)
  have "bt_now crc p (set (pages t) \<union> A) (Suc (height t)) (bm_put k v (entries t)) p'"
    using wp_Inr [OF bt_insert_wp [OF b, of "\<lambda>_ _. True"] assms(2)] by simp
  then show ?thesis using bt_now_ok bt_map_eq [OF b] by metis
qed

lemma bt_delete_ok:
  assumes "bt_ok crc p" "bt_delete crc k p = (Inr u, p')"
  shows "bt_ok crc p' \<and> bt_map crc p' = bm_del k (bt_map crc p) \<and> rest_meta p' = rest_meta p"
proof -
  obtain A t where b: "bt_at crc p A t" using assms(1) by (auto simp: bt_ok_def)
  have "bt_now crc p (set (pages t) \<union> A) (height t) (bm_del k (entries t)) p'"
    using wp_Inr [OF bt_delete_wp [OF b, of "\<lambda>_ _. True"] assms(2)] by simp
  then show ?thesis using bt_now_ok bt_map_eq [OF b] by metis
qed

lemma bt_delete_missing:
  assumes "bt_ok crc p" "bt_delete crc k p = (Inl NotFound, p')"
  shows "bm_get (bt_map crc p) k = None \<and> same_view crc p p'"
proof -
  obtain A t where b: "bt_at crc p A t" using assms(1) by (auto simp: bt_ok_def)
  have "wp (bt_delete crc k) (\<lambda>_ _. True) (\<lambda>e p'. e = NotFound \<longrightarrow> bm_get (entries t) k = None \<and> same_view crc p p') p"
    by (rule wp_conseq [OF bt_delete_wp [OF b]]) auto
  then show ?thesis using assms(2) bt_map_eq [OF b] by (auto simp: wp_def fails_def)
qed

interpretation bt: tree_ops "bt_insert crc ff" "bt_delete crc" "bt_content crc" "bt_ok crc" for crc ff
proof
  fix p k v u p' assume "bt_ok crc p" "bt_insert crc ff k v p = (Inr u, p')"
  from bt_insert_ok [OF this] show "bt_ok crc p' \<and> bt_content crc p' = (bt_content crc p)(k := Some v)"
    by (auto simp: bt_content_def)
next
  fix p k u p' assume "bt_ok crc p" "bt_delete crc k p = (Inr u, p')"
  from bt_delete_ok [OF this] show "bt_ok crc p' \<and> bt_content crc p' = (bt_content crc p)(k := None)"
    by (auto simp: bt_content_def)
next
  fix p k p' assume b: "bt_ok crc p" and r: "bt_delete crc k p = (Inl NotFound, p')"
  show "bt_ok crc p' \<and> bt_content crc p k = None \<and> bt_content crc p' = bt_content crc p"
    using bt_delete_missing [OF b r] bt_ok_same [OF b] by (simp add: bt_content_def)
qed

section \<open>What the operations do\<close>

text \<open>A store with an empty tree: the root is a leaf in page 1.\<close>

definition example_store :: pager where
  "example_store = write_page (page_new (replicate 4096 0) 1 Leaf) example_pager"

lemma example_bt_at: "bt_at crc example_store {2..} (Lf 1 [])"
proof -
  let ?q = "page_new (replicate 4096 0) 1 Leaf :: page"
  have f: "page_id ?q = 1" "page_wf ?q" "cells ?q = []" "page_type ?q = Inr Leaf" "is_leaf ?q" "extra ?q = SENTINEL" "length ?q = 4096"
    using page_new_wf [of "replicate 4096 0" 1 Leaf] page_new_fields [of "replicate 4096 0" 1 Leaf]
      length_page_new [of "replicate 4096 0" 1 Leaf] by simp_all
  have m: "pg_meta example_pager = meta_default" "md_page_count meta_default = 2" "md_free_list meta_default = SENTINEL"
      "md_root meta_default = 1" "pg_dirty example_pager = []"
    by (simp_all add: example_pager_def meta_default_def page_consts)
  have "heap_ok crc example_pager {2..}"
    unfolding heap_ok_def by (intro conjI exI [of _ "[]"]) (simp_all add: example_pager_ok m)
  note w = heap_write [OF this f(7), unfolded f(1)]
  have w': "heap_ok crc example_store {2..}" "pview crc example_store = (pview crc example_pager)(1 := Some ?q)"
      "pg_meta example_store = meta_default"
    using w m(1) by (simp_all add: example_store_def)
  have "shape (pview crc example_store) [] None SENTINEL (Lf 1 [])"
    by (rule shape_leaf [of _ _ ?q]) (use f in \<open>auto simp: w'(2) leaf_page_def\<close>)
  then show ?thesis unfolding bt_at_def tree_at_def using w'(1,3) m(4) by simp
qed

text \<open>C4. Insertion into a store that holds a B+tree: an empty or oversized key or an oversized
  value is refused and changes nothing. Otherwise the new store holds a B+tree with the same
  entries except that the key has the value, every page is still owned by the tree or free, and
  the only errors are a failed system call, exhausted page ids, and a tree beyond the depth
  limit.\<close>

theorem btree_insert_correct:
  assumes "bt_at crc p A t"
  shows "if key = [] \<or> MAX_KEY_SIZE < length key \<or> 4294967296 \<le> length val
     then bt_insert crc ff key val p = (Inl InvalidArgument, p)
     else wp (bt_insert crc ff key val)
       (\<lambda>_ p'. \<exists>A' t'. bt_at crc p' A' t' \<and> entries t' = bm_put key val (entries t) \<and>
          set (pages t') \<union> A' = set (pages t) \<union> A)
       (\<lambda>e p'. e = Corruption \<and> MAX_DEPTH + 1 < height t) p"
proof (cases "key = [] \<or> MAX_KEY_SIZE < length key \<or> 4294967296 \<le> length val")
  case True
  then show ?thesis by (auto simp: bt_insert_def)
next
  case False
  have "wp (bt_insert crc ff key val) (\<lambda>_. bt_now crc p (set (pages t) \<union> A) (Suc (height t)) (bm_put key val (entries t)))
      (\<lambda>e p'. e = Corruption \<and> MAX_DEPTH + 1 < height t) p"
    by (rule bt_insert_wp [OF assms]) (use False in auto)
  then have "wp (bt_insert crc ff key val) (\<lambda>_ p'. \<exists>A' t'. bt_at crc p' A' t' \<and> entries t' = bm_put key val (entries t) \<and>
          set (pages t') \<union> A' = set (pages t) \<union> A) (\<lambda>e p'. e = Corruption \<and> MAX_DEPTH + 1 < height t) p"
    by (rule wp_conseq) (auto simp: bt_now_def)
  then show ?thesis using False by simp
qed

theorem btree_insert_correct_witness:
  "wp (bt_insert (\<lambda>_. 0) \<lparr>ff_min_used = 1000, ff_max_used = 4000\<rparr> [7] [1, 2])
     (\<lambda>_ p'. \<exists>A' t'. bt_at (\<lambda>_. 0) p' A' t' \<and> entries t' = [([7], [1, 2])]) (\<lambda>_ _. False) example_store"
proof -
  have "\<not> ([7] = ([] :: bytes) \<or> MAX_KEY_SIZE < length [7 :: u8] \<or> 4294967296 \<le> length [1, 2 :: u8])"
    by (simp add: page_consts)
  note c = btree_insert_correct [OF example_bt_at, of "[7]" "[1, 2]" "\<lambda>_. 0", unfolded if_not_P [OF this]]
  show ?thesis by (rule wp_conseq [OF c]) (auto simp: MAX_DEPTH_def)
qed

text \<open>C5. Deletion from a store that holds a B+tree: a key that is absent gives \<open>NotFound\<close> and
  leaves the pages as they were. Otherwise the new store holds a B+tree without the key and with
  all other entries, every page is still owned or free, and the loop that drops roots with a
  single child ends.\<close>

theorem btree_delete_correct:
  assumes "bt_at crc p A t"
  shows "wp (bt_delete crc key)
     (\<lambda>_ p'. bm_get (entries t) key \<noteq> None \<and> (\<exists>A' t'. bt_at crc p' A' t' \<and>
        entries t' = bm_del key (entries t) \<and> set (pages t') \<union> A' = set (pages t) \<union> A \<and> height t' \<le> height t))
     (\<lambda>e p'. (e = NotFound \<and> bm_get (entries t) key = None \<and> same_view crc p p') \<or>
        (e = Corruption \<and> MAX_DEPTH + 1 < height t)) p"
  by (rule wp_conseq [OF bt_delete_wp [OF assms]]) (auto simp: bt_now_def)

theorem btree_delete_correct_witness:
  "wp (bt_delete (\<lambda>_. 0) [7]) (\<lambda>_ _. False) (\<lambda>e p'. e = NotFound \<and> same_view (\<lambda>_. 0) example_store p') example_store"
  by (rule wp_conseq [OF btree_delete_correct [OF example_bt_at]]) (auto simp: MAX_DEPTH_def)

text \<open>Lookup in a store that holds a B+tree returns the value of the key, \<open>NotFound\<close> exactly
  for absent keys, and changes no page; \<open>contains\<close> agrees with it.\<close>

lemma btree_get_correct:
  assumes "bt_at crc p A t"
  shows "wp (bt_get crc key) (\<lambda>v p'. bm_get (entries t) key = Some v \<and> same_view crc p p')
       (\<lambda>e p'. (e = NotFound \<and> bm_get (entries t) key = None \<and> same_view crc p p') \<or>
          (e = Corruption \<and> MAX_DEPTH + 1 < height t)) p \<and>
     wp (bt_contains crc key) (\<lambda>b p'. b = (bm_get (entries t) key \<noteq> None) \<and> same_view crc p p')
       (\<lambda>e p'. e = Corruption \<and> MAX_DEPTH + 1 < height t) p"
  using assms unfolding bt_at_def by (intro conjI bt_get_wp bt_contains_wp) auto

text \<open>C3. Snapshot isolation over the tree. In every interleaving of begins, writes, commits,
  rollbacks and merges of the version store into the B+tree, a live transaction reads its own
  writes over the database exactly as the commits before its \<open>begin\<close> left it, wherever the
  versions are now, and its commit is refused exactly when a commit after its \<open>begin\<close> wrote one of
  its keys.\<close>

theorem isolation_over_tree:
  assumes "store_run (bt_insert crc ff) (bt_delete crc) (s0, p0) tr (s, p)" "bt_ok crc p0"
    and "si_rel base h0 ts0 (bt_content crc p0) s0" "vs_active s0 = []" "txn_get s i = Inr t"
  shows "\<exists>tr1 tr2 r. tr = tr1 @ Begun i # tr2 \<and> txn_read s i k = Inr r \<and>
     read_through (bt_content crc p) r k =
       (case bm_get (t_writes t) k of Some w \<Rightarrow> as_value w | None \<Rightarrow> fold apply_commit (h0 @ commits tr1) base k) \<and>
     (txn_commit i s = (Inl Conflict, s) \<longleftrightarrow>
        (\<exists>c \<in> set (commits tr2). fst ` set (snd c) \<inter> fst ` set (t_writes t) \<noteq> {}))"
  by (rule bt.run_reads [OF assms, of k]) blast

lemma example_content: "bt_content crc example_store = (\<lambda>_. None)"
  by (rule ext) (simp add: bt_content_def bt_map_eq [OF example_bt_at])

theorem isolation_over_tree_witness:
  "\<exists>s r. txn_begin False (store_new 1 1) = (1, s) \<and> txn_read s 1 [9] = Inr r \<and>
     read_through (bt_content (\<lambda>_. 0) example_store) r [9] = None"
proof -
  let ?s = "snd (txn_begin False (store_new 1 1))"
  have b: "txn_begin False (store_new 1 1) = (1, ?s)" by (simp add: txn_begin_def store_new_def Let_def)
  have run: "store_run (bt_insert (\<lambda>_. 0) ff) (bt_delete (\<lambda>_. 0)) (store_new 1 1, example_store) ([] @ [Begun 1]) (?s, example_store)" for ff
    by (rule run_begin [OF run_init b])
  have ok: "bt_ok (\<lambda>_. 0) example_store" using example_bt_at by (auto simp: bt_ok_def)
  have rel: "si_rel (\<lambda>_. None) [] 0 (bt_content (\<lambda>_. 0) example_store) (store_new 1 1)"
    using store_new_rel by (simp add: example_content)
  have act: "vs_active (store_new 1 1) = []" by (simp add: store_new_def)
  obtain tr1 tr2 r where r: "[] @ [Begun 1] = tr1 @ Begun 1 # tr2" "txn_read ?s 1 [9] = Inr r"
      "read_through (bt_content (\<lambda>_. 0) example_store) r [9] = fold apply_commit ([] @ commits tr1) (\<lambda>_. None) [9]"
    using isolation_over_tree [OF run ok rel act begun_rel(2), of "[9]"] by (auto simp: transaction_new_def)
  have "tr1 = []" using r(1) by (cases tr1) auto
  then show ?thesis using b r(2,3) by auto
qed

end
