(* ===== verification/BTree_Check.thy ===== *)
theory BTree_Check
  imports BTree
begin

text \<open>
  The structural check of \<open>btree.rs\<close>: \<open>check\<close>, \<open>check_node\<close> and \<open>check_overflow\<close>, with
  \<open>TreeReport\<close> and \<open>CheckState\<close>. The walks along overflow chains and the free list have no
  counter in the source; they end because every round adds a new page id below the page
  count to \<open>seen\<close>, which is their termination argument here.
\<close>

record tree_report =
  tr_depth :: nat
  tr_keys :: nat
  tr_leaf_pages :: nat
  tr_internal_pages :: nat
  tr_overflow_pages :: nat
  tr_free_pages :: nat
  tr_unreachable_pages :: nat
  tr_underfull_leaves :: nat

definition report_default :: tree_report where
  "report_default =
     \<lparr>tr_depth = 0, tr_keys = 0, tr_leaf_pages = 0, tr_internal_pages = 0, tr_overflow_pages = 0,
      tr_free_pages = 0, tr_unreachable_pages = 0, tr_underfull_leaves = 0\<rparr>"

record check_state =
  ck_seen :: "nat list"
  ck_leaves :: "nat list"
  ck_leaf_depth :: "nat option"
  ck_report :: tree_report
  ck_page_count :: nat

type_synonym 'a check_op = "(pager \<times> check_state, 'a) sres"

lemma seen_measure:
  fixes pc :: nat
  assumes "cursor < pc" "cursor \<notin> set seen"
  shows "card ({..<pc} - set (cursor # seen)) < card ({..<pc} - set seen)"
proof (rule psubset_card_mono)
  have "cursor \<in> {..<pc} - set seen" "cursor \<notin> {..<pc} - set (cursor # seen)" using assms by simp_all
  moreover have "{..<pc} - set (cursor # seen) \<subseteq> {..<pc} - set seen" by (simp add: Diff_mono subset_insertI)
  ultimately show "{..<pc} - set (cursor # seen) \<subset> {..<pc} - set seen" by (metis psubsetI)
qed simp

function check_overflow_loop ::
  "(bytes \<Rightarrow> u32) \<Rightarrow> nat \<Rightarrow> nat list \<Rightarrow> nat \<Rightarrow> nat \<Rightarrow> nat \<Rightarrow> pager \<Rightarrow>
     (nat list \<times> nat \<times> nat) res \<times> pager" where
  "check_overflow_loop crc pc seen cursor pages len p =
     (if cursor = SENTINEL then (Inr (seen, pages, len), p)
      else if cursor = 0 \<or> cursor \<ge> pc then (Inl Corruption, p)
      else if cursor \<in> set seen then (Inl Corruption, p)
      else
        sbind (read_page crc cursor) (\<lambda>q p.
          case read_overflow q of
            Inl e \<Rightarrow> (Inl e, p)
          | Inr bs \<Rightarrow>
              check_overflow_loop crc pc (cursor # seen) (extra q) (pages + 1) (len + length bs) p) p)"
  by pat_completeness (elim Pair_inject, hypsubst, rule refl)
termination
  by (relation "measure (\<lambda>(crc, pc, seen, cursor, pages, len, p). card ({..<pc} - set seen))")
    (auto simp del: set_simps intro!: seen_measure)

declare check_overflow_loop.simps [simp del]

definition check_overflow :: "(bytes \<Rightarrow> u32) \<Rightarrow> nat \<Rightarrow> nat \<Rightarrow> nat check_op" where
  "check_overflow crc head total_len st =
     (case check_overflow_loop crc (ck_page_count (snd st)) (ck_seen (snd st)) head 0 0 (fst st) of
        (Inl e, p) \<Rightarrow> (Inl e, (p, snd st))
      | (Inr (seen, pages, len), p) \<Rightarrow>
          (if len \<noteq> total_len then Inl Corruption else Inr pages, (p, (snd st)\<lparr>ck_seen := seen\<rparr>)))"

fun check_keys :: "page \<Rightarrow> bytes option \<Rightarrow> bytes option \<Rightarrow> bytes option \<Rightarrow> nat list \<Rightarrow> unit res" where
  "check_keys q lo hi previous [] = Inr ()"
| "check_keys q lo hi previous (i # is) =
     rbind (cell_key q i) (\<lambda>key.
       if (case previous of None \<Rightarrow> False | Some k \<Rightarrow> k \<ge> key) then Inl Corruption
       else if (case lo of None \<Rightarrow> False | Some l \<Rightarrow> key < l) \<or>
               (case hi of None \<Rightarrow> False | Some h \<Rightarrow> key \<ge> h) then Inl Corruption
       else check_keys q lo hi (Some key) is)"

definition count_leaf :: "fill_factor \<Rightarrow> page \<Rightarrow> nat \<Rightarrow> nat \<Rightarrow> check_state \<Rightarrow> check_state" where
  "count_leaf fill q pid depth st =
     (let r = ck_report st;
          used = USABLE_SPACE - free_space q;
          r = r\<lparr>tr_leaf_pages := tr_leaf_pages r + 1, tr_keys := tr_keys r + num_keys q\<rparr>;
          r = (if depth > 1 \<and> used < ff_min_used fill
               then r\<lparr>tr_underfull_leaves := tr_underfull_leaves r + 1\<rparr> else r)
      in st\<lparr>ck_leaves := ck_leaves st @ [pid], ck_report := r\<rparr>)"

definition note_leaf :: "fill_factor \<Rightarrow> page \<Rightarrow> nat \<Rightarrow> nat \<Rightarrow> unit check_op" where
  "note_leaf fill q pid depth =
     on_snd (\<lambda>st.
       case ck_leaf_depth st of
         None \<Rightarrow> (Inr (), count_leaf fill q pid depth (st\<lparr>ck_leaf_depth := Some depth\<rparr>))
       | Some d \<Rightarrow>
           if d \<noteq> depth then (Inl Corruption, st) else (Inr (), count_leaf fill q pid depth st))"

definition check_leaf_cell :: "(bytes \<Rightarrow> u32) \<Rightarrow> page \<Rightarrow> nat \<Rightarrow> unit check_op" where
  "check_leaf_cell crc q i =
     sbind (slift (leaf_cell_at q i)) (\<lambda>c.
       case lc_overflow c of
         None \<Rightarrow> sret ()
       | Some head \<Rightarrow>
           sbind (check_overflow crc head (lc_total_len c)) (\<lambda>pages.
           on_snd (smod (\<lambda>st. st\<lparr>ck_report :=
             (ck_report st)\<lparr>tr_overflow_pages := tr_overflow_pages (ck_report st) + pages\<rparr>\<rparr>))))"

text \<open>The children of an internal node, each with the key range its separators assign.\<close>

fun check_children ::
  "(nat \<Rightarrow> bytes option \<Rightarrow> bytes option \<Rightarrow> unit check_op) \<Rightarrow> page \<Rightarrow> bytes option \<Rightarrow> bytes option \<Rightarrow>
     nat list \<Rightarrow> unit check_op" where
  "check_children visit q child_lo hi [] = sret ()"
| "check_children visit q child_lo hi (slt # slts) =
     sbind (slift (if slt < num_keys q then rbind (cell_key q slt) (\<lambda>k. Inr (Some k)) else Inr hi))
       (\<lambda>child_hi.
     sbind (slift (child_at q slt)) (\<lambda>child.
     sbind (visit child child_lo child_hi) (\<lambda>_.
     check_children visit q child_hi hi slts)))"

primrec check_node ::
  "(bytes \<Rightarrow> u32) \<Rightarrow> fill_factor \<Rightarrow> nat \<Rightarrow> nat \<Rightarrow> nat \<Rightarrow> bytes option \<Rightarrow> bytes option \<Rightarrow> unit check_op" where
  "check_node crc fill 0 depth pid lo hi = serr Corruption"
| "check_node crc fill (Suc levels) depth pid lo hi =
     sbind sget (\<lambda>(p, st).
       if pid = 0 \<or> pid \<ge> ck_page_count st then serr Corruption
       else if pid \<in> set (ck_seen st) then serr Corruption
       else
         sbind (on_snd (smod (\<lambda>st. st\<lparr>ck_seen := pid # ck_seen st\<rparr>))) (\<lambda>_.
         sbind (on_fst (read_page crc pid)) (\<lambda>q.
         sbind (slift (check_keys q lo hi None [0..<num_keys q])) (\<lambda>_.
         sbind (slift (page_type q)) (\<lambda>ty.
           case ty of
             Leaf \<Rightarrow>
               sbind (note_leaf fill q pid depth) (\<lambda>_.
               smapM (check_leaf_cell crc q) [0..<num_keys q])
           | Internal \<Rightarrow>
               sbind (on_snd (smod (\<lambda>st. st\<lparr>ck_report :=
                   (ck_report st)\<lparr>tr_internal_pages := tr_internal_pages (ck_report st) + 1\<rparr>\<rparr>))) (\<lambda>_.
               check_children (check_node crc fill levels (depth + 1)) q lo hi [0..<num_keys q + 1])
           | _ \<Rightarrow> serr Corruption)))))"

fun check_chain :: "(bytes \<Rightarrow> u32) \<Rightarrow> nat list \<Rightarrow> nat \<Rightarrow> nat \<Rightarrow> nat \<Rightarrow> unit pager_op" where
  "check_chain crc leaves remaining pos chain_id =
     (if chain_id = SENTINEL then
        (if pos \<noteq> length leaves then serr Corruption else sret ())
      else
        (case remaining of
           0 \<Rightarrow> serr Corruption
         | Suc remaining' \<Rightarrow>
             if \<not> (pos < length leaves \<and> leaves ! pos = chain_id) then serr Corruption
             else
               sbind (read_page crc chain_id) (\<lambda>q.
               check_chain crc leaves remaining' (pos + 1) (extra q))))"

declare check_chain.simps [simp del]

function check_free_list ::
  "(bytes \<Rightarrow> u32) \<Rightarrow> nat \<Rightarrow> nat list \<Rightarrow> nat \<Rightarrow> nat \<Rightarrow> pager \<Rightarrow> (nat list \<times> nat) res \<times> pager" where
  "check_free_list crc pc seen free_id pages p =
     (if free_id = SENTINEL then (Inr (seen, pages), p)
      else if free_id = 0 \<or> free_id \<ge> pc then (Inl Corruption, p)
      else if free_id \<in> set seen then (Inl Corruption, p)
      else
        sbind (read_page crc free_id) (\<lambda>q p.
          case page_type q of
            Inl e \<Rightarrow> (Inl e, p)
          | Inr ty \<Rightarrow>
              if ty \<noteq> Free then (Inl Corruption, p)
              else check_free_list crc pc (free_id # seen) (extra q) (pages + 1) p) p)"
  by pat_completeness (elim Pair_inject, hypsubst, rule refl)
termination
  by (relation "measure (\<lambda>(crc, pc, seen, free_id, pages, p). card ({..<pc} - set seen))")
    (auto simp del: set_simps intro!: seen_measure)

declare check_free_list.simps [simp del]

definition bt_check :: "(bytes \<Rightarrow> u32) \<Rightarrow> fill_factor \<Rightarrow> tree_report pager_op" where
  "bt_check crc fill p =
     (let m = pg_meta p;
          st0 = \<lparr>ck_seen = [], ck_leaves = [], ck_leaf_depth = None, ck_report = report_default,
                 ck_page_count = md_page_count m\<rparr>
      in case check_node crc fill MAX_DEPTH 1 (md_root m) None None (p, st0) of
           (Inl e, (p, _)) \<Rightarrow> (Inl e, p)
         | (Inr _, (p, st)) \<Rightarrow>
             sbind (first_leaf crc) (\<lambda>chain_id.
             sbind (check_chain crc (ck_leaves st) (md_page_count m) 0 chain_id) (\<lambda>_.
             sbind (check_free_list crc (md_page_count m) (ck_seen st) (md_free_list m) 0)
               (\<lambda>(seen, frees).
             sret ((ck_report st)\<lparr>tr_free_pages := frees,
               tr_unreachable_pages := md_page_count m - (length seen + 1),
               tr_depth := (case ck_leaf_depth st of None \<Rightarrow> 1 | Some d \<Rightarrow> d)\<rparr>)))) p)"

definition bt_verify :: "(bytes \<Rightarrow> u32) \<Rightarrow> fill_factor \<Rightarrow> unit pager_op" where
  "bt_verify crc fill = sbind (bt_check crc fill) (\<lambda>_. sret ())"

end
