(* ===== verification/Watch.thy ===== *)
theory Watch
  imports Txn
begin

text \<open>
  Change notifications of \<open>watch.rs\<close>. The \<open>Shared\<close> objects that a \<open>Watcher\<close> and the
  registry both point to are kept in a map by subscription id; \<open>rg_subs\<close> lists the ids the
  registry still publishes to. Mutexes and the condition variable only order the operations;
  a \<open>poll\<close> is modelled at the moment it returns.
\<close>

datatype change_kind = ChPut | ChDelete | ChReset

fun change_kind_code :: "change_kind \<Rightarrow> nat" where
  "change_kind_code ChPut = 1"
| "change_kind_code ChDelete = 2"
| "change_kind_code ChReset = 3"

record change =
  ch_kind :: change_kind
  ch_key :: bytes
  ch_value :: "bytes option"
  ch_commit_ts :: nat

record watch_options =
  wo_capacity :: nat
  wo_values :: bool

definition watch_options_default :: watch_options where
  "watch_options_default = \<lparr>wo_capacity = 1024, wo_values = False\<rparr>"

record shared =
  sh_prefix :: bytes
  sh_options :: watch_options
  sh_queue :: "change list"
  sh_dropped :: nat
  sh_closed :: bool
  sh_woken :: bool

record registry =
  rg_shared :: "(nat, shared) bmap"
  rg_subs :: "nat list"
  rg_next_id :: nat
  rg_active :: nat

section \<open>One subscription\<close>

definition sh_push :: "change \<Rightarrow> shared \<Rightarrow> shared" where
  "sh_push c s =
     (if sh_closed s then s
      else
        let s = (if length (sh_queue s) \<ge> wo_capacity (sh_options s)
                 then s\<lparr>sh_queue := tl (sh_queue s), sh_dropped := sh_dropped s + 1\<rparr> else s);
            c = (if wo_values (sh_options s) then c else c\<lparr>ch_value := None\<rparr>)
        in s\<lparr>sh_queue := sh_queue s @ [c]\<rparr>)"

definition sh_close :: "shared \<Rightarrow> shared" where
  "sh_close s = s\<lparr>sh_closed := True\<rparr>"

definition watcher_poll :: "shared \<Rightarrow> change list \<times> shared" where
  "watcher_poll s = (sh_queue s, s\<lparr>sh_woken := False, sh_queue := []\<rparr>)"

definition watcher_dropped :: "shared \<Rightarrow> nat \<times> shared" where
  "watcher_dropped s = (sh_dropped s, s\<lparr>sh_dropped := 0\<rparr>)"

definition watcher_wake :: "shared \<Rightarrow> shared" where
  "watcher_wake s = s\<lparr>sh_woken := True\<rparr>"

text \<open>The condition under which \<open>poll\<close> keeps waiting.\<close>

definition poll_waits :: "shared \<Rightarrow> bool" where
  "poll_waits s \<longleftrightarrow> sh_queue s = [] \<and> \<not> sh_closed s \<and> \<not> sh_woken s"

section \<open>The registry\<close>

definition registry_new :: registry where
  "registry_new = \<lparr>rg_shared = [], rg_subs = [], rg_next_id = 1, rg_active = 0\<rparr>"

definition rg_is_empty :: "registry \<Rightarrow> bool" where
  "rg_is_empty r \<longleftrightarrow> rg_active r = 0"

definition rg_len :: "registry \<Rightarrow> nat" where
  "rg_len r = rg_active r"

definition wants_values :: "registry \<Rightarrow> bool" where
  "wants_values r \<longleftrightarrow>
     list_ex (\<lambda>i. case bm_get (rg_shared r) i of None \<Rightarrow> False | Some s \<Rightarrow> wo_values (sh_options s)) (rg_subs r)"

definition subscribe :: "bytes \<Rightarrow> watch_options \<Rightarrow> registry \<Rightarrow> nat \<times> registry" where
  "subscribe pre options r =
     (let s = \<lparr>sh_prefix = pre, sh_options = options\<lparr>wo_capacity := max (wo_capacity options) 1\<rparr>,
               sh_queue = [], sh_dropped = 0, sh_closed = False, sh_woken = False\<rparr>;
          i = rg_next_id r;
          subs = rg_subs r @ [i]
      in (i, r\<lparr>rg_next_id := i + 1, rg_shared := bm_put i s (rg_shared r), rg_subs := subs,
                rg_active := length subs\<rparr>))"

definition unsubscribe :: "nat \<Rightarrow> registry \<Rightarrow> registry" where
  "unsubscribe i r =
     (let subs = filter (\<lambda>j. j \<noteq> i) (rg_subs r)
      in r\<lparr>rg_subs := subs, rg_active := length subs\<rparr>)"

definition starts_with :: "bytes \<Rightarrow> bytes \<Rightarrow> bool" where
  "starts_with key pre \<longleftrightarrow> take (length pre) key = pre"

definition matches :: "shared \<Rightarrow> change \<Rightarrow> bool" where
  "matches s c \<longleftrightarrow> ch_kind c = ChReset \<or> starts_with (ch_key c) (sh_prefix s)"

definition sh_publish :: "change list \<Rightarrow> shared \<Rightarrow> shared" where
  "sh_publish cs s = fold (\<lambda>c s. if matches s c then sh_push c s else s) cs s"

definition publish :: "change list \<Rightarrow> registry \<Rightarrow> registry" where
  "publish cs r =
     (if cs = [] then r
      else
        r\<lparr>rg_shared := fold (\<lambda>i m.
             case bm_get m i of None \<Rightarrow> m | Some s \<Rightarrow> bm_put i (sh_publish cs s) m)
           (rg_subs r) (rg_shared r)\<rparr>)"

definition publish_reset :: "nat \<Rightarrow> registry \<Rightarrow> registry" where
  "publish_reset commit_ts =
     publish [\<lparr>ch_kind = ChReset, ch_key = [], ch_value = None, ch_commit_ts = commit_ts\<rparr>]"

definition close_all :: "registry \<Rightarrow> registry" where
  "close_all r =
     r\<lparr>rg_shared := fold (\<lambda>i m.
          case bm_get m i of None \<Rightarrow> m | Some s \<Rightarrow> bm_put i (sh_close s) m) (rg_subs r) (rg_shared r),
       rg_subs := [], rg_active := 0\<rparr>"

section \<open>What a subscription holds\<close>

text \<open>The change as this subscription delivers it.\<close>

definition delivered :: "shared \<Rightarrow> change \<Rightarrow> change" where
  "delivered s c = (if wo_values (sh_options s) then c else c\<lparr>ch_value := None\<rparr>)"

definition sh_ok :: "shared \<Rightarrow> bool" where
  "sh_ok s \<longleftrightarrow> 0 < wo_capacity (sh_options s) \<and> length (sh_queue s) \<le> wo_capacity (sh_options s)"

lemma sh_push_fields [simp]:
  "sh_options (sh_push c s) = sh_options s" "sh_prefix (sh_push c s) = sh_prefix s"
  "sh_closed (sh_push c s) = sh_closed s" "matches (sh_push c s) = matches s" "delivered (sh_push c s) = delivered s"
  by (auto simp: sh_push_def Let_def matches_def delivered_def fun_eq_iff)

lemma tl_drop_append: "length q \<ge> 1 \<Longrightarrow> tl q @ xs = drop 1 (q @ xs)"
  by (cases q) auto

text \<open>The queue is the newest part of everything delivered; the rest is counted as dropped.\<close>

lemma sh_publish_queue:
  assumes "sh_ok s" "\<not> sh_closed s"
  defines "cap \<equiv> wo_capacity (sh_options s)"
  shows "let all = sh_queue s @ map (delivered s) (filter (matches s) cs); s' = sh_publish cs s in
     sh_queue s' = drop (length all - cap) all \<and> sh_dropped s' = sh_dropped s + (length all - cap) \<and>
     sh_options s' = sh_options s \<and> sh_closed s' = sh_closed s \<and> sh_prefix s' = sh_prefix s \<and> sh_ok s'"
  using assms(1,2) unfolding cap_def
proof (induction cs arbitrary: s)
  case Nil
  then show ?case by (simp add: sh_publish_def sh_ok_def Let_def)
next
  case (Cons c cs)
  show ?case
  proof (cases "matches s c")
    case False
    with Cons.IH [OF Cons.prems] show ?thesis by (simp add: sh_publish_def)
  next
    case True
    let ?s = "sh_push c s" and ?cap = "wo_capacity (sh_options s)"
    let ?q1 = "sh_queue s @ [delivered s c]"
    have q: "sh_queue ?s = drop (length ?q1 - ?cap) ?q1" "sh_dropped ?s = sh_dropped s + (length ?q1 - ?cap)"
      using Cons.prems tl_drop_append [of "sh_queue s" "[delivered s c]"]
      by (auto simp: sh_push_def Let_def delivered_def sh_ok_def)
    have ok: "sh_ok ?s" "\<not> sh_closed ?s" using Cons.prems by (auto simp: sh_ok_def q(1))
    let ?rest = "map (delivered s) (filter (matches s) cs)"
    let ?k = "length ?q1 - ?cap"
    have len: "length (sh_queue ?s @ ?rest) - ?cap + ?k = length (?q1 @ ?rest) - ?cap"
      unfolding q(1) using Cons.prems(1) by (auto simp: sh_ok_def split: nat_diff_split)
    have app: "drop m (drop ?k ?q1 @ ?rest) = drop (m + ?k) (?q1 @ ?rest)" for m
    proof -
      have "?k - length ?q1 = 0" by simp
      then have "drop ?k ?q1 @ ?rest = drop ?k (?q1 @ ?rest)" by (simp only: drop_append drop0)
      then show ?thesis by (simp only: drop_drop)
    qed
    have "sh_publish (c # cs) s = sh_publish cs ?s" using True by (simp add: sh_publish_def)
    moreover have "sh_queue s @ map (delivered s) (filter (matches s) (c # cs)) = ?q1 @ ?rest"
      using True by simp
    ultimately show ?thesis
      using Cons.IH [OF ok] len by (simp only: Let_def sh_push_fields q app) (simp add: add.commute)
  qed
qed

definition rg_ok :: "registry \<Rightarrow> bool" where
  "rg_ok r \<longleftrightarrow>
     bm_ok (rg_shared r) \<and> distinct (rg_subs r) \<and> rg_active r = length (rg_subs r) \<and>
     (\<forall>i \<in> fst ` set (rg_shared r). i < rg_next_id r) \<and> (\<forall>i \<in> set (rg_subs r). bm_get (rg_shared r) i \<noteq> None) \<and>
     (\<forall>(i, s) \<in> set (rg_shared r). sh_ok s)"

lemma update_all_get:
  assumes "distinct ids" "bm_ok m"
  shows "bm_ok (fold (\<lambda>i m. case bm_get m i of None \<Rightarrow> m | Some s \<Rightarrow> bm_put i (f s) m) ids m) \<and>
     bm_get (fold (\<lambda>i m. case bm_get m i of None \<Rightarrow> m | Some s \<Rightarrow> bm_put i (f s) m) ids m) k =
       (if k \<in> set ids then map_option f (bm_get m k) else bm_get m k)"
  using assms
proof (induction ids arbitrary: m)
  case (Cons i ids)
  let ?m = "case bm_get m i of None \<Rightarrow> m | Some s \<Rightarrow> bm_put i (f s) m"
  have "bm_ok ?m" using Cons.prems by (simp split: option.splits)
  with Cons.IH [of ?m] Cons.prems show ?case by (auto split: option.splits)
qed simp

lemma publish_get:
  assumes "rg_ok r" "cs \<noteq> []"
  shows "bm_get (rg_shared (publish cs r)) i =
     (if i \<in> set (rg_subs r) then map_option (sh_publish cs) (bm_get (rg_shared r) i) else bm_get (rg_shared r) i)"
  using assms update_all_get [of "rg_subs r" "rg_shared r" "sh_publish cs" i]
  by (simp add: publish_def rg_ok_def)

section \<open>Properties of subscriptions\<close>

definition example_watch :: shared where
  "example_watch = \<lparr>sh_prefix = [1], sh_options = \<lparr>wo_capacity = 1, wo_values = True\<rparr>, sh_queue = [],
     sh_dropped = 0, sh_closed = False, sh_woken = False\<rparr>"

text \<open>Publishing to an open subscription: the queue then holds the newest changes, in order,
  of those it held and those that match its prefix, at most as many as its capacity, and every
  change that does not fit is counted as dropped.\<close>

lemma publish_keeps_newest:
  assumes "sh_ok s" "\<not> sh_closed s"
    and "all = sh_queue s @ map (delivered s) (filter (matches s) cs)" "cap = wo_capacity (sh_options s)"
  shows "sh_queue (sh_publish cs s) = drop (length all - cap) all \<and>
     sh_dropped (sh_publish cs s) = sh_dropped s + (length all - cap) \<and> sh_ok (sh_publish cs s)"
  using sh_publish_queue [OF assms(1,2), of cs] unfolding assms(3,4) Let_def by blast

text \<open>The registry's own operations keep it in order.\<close>

lemma rg_ok_intro:
  assumes "bm_ok (rg_shared r)" "distinct (rg_subs r)" "rg_active r = length (rg_subs r)"
    "\<And>i s. bm_get (rg_shared r) i = Some s \<Longrightarrow> i < rg_next_id r \<and> sh_ok s"
    "\<And>i. i \<in> set (rg_subs r) \<Longrightarrow> bm_get (rg_shared r) i \<noteq> None"
  shows "rg_ok r"
  using assms by (fastforce simp: rg_ok_def bm_get_Some_iff)

lemma rg_okD:
  assumes "rg_ok r"
  shows "bm_ok (rg_shared r)" "distinct (rg_subs r)" "rg_active r = length (rg_subs r)"
    "\<And>i s. bm_get (rg_shared r) i = Some s \<Longrightarrow> i < rg_next_id r \<and> sh_ok s"
    "\<And>i. i \<in> set (rg_subs r) \<Longrightarrow> \<exists>s. bm_get (rg_shared r) i = Some s"
  using assms by (auto simp: rg_ok_def bm_get_Some_iff)

lemma sh_publish_ok: "sh_ok s \<Longrightarrow> sh_ok (sh_publish cs s)"
proof (cases "sh_closed s")
  case True
  have "sh_publish cs s = s"
    using True by (induction cs) (simp_all add: sh_publish_def sh_push_def)
  then show "sh_ok s \<Longrightarrow> sh_ok (sh_publish cs s)" by simp
next
  case False
  then show "sh_ok s \<Longrightarrow> sh_ok (sh_publish cs s)" using sh_publish_queue [of s cs] by (simp add: Let_def)
qed

lemma subscribe_ok: "rg_ok r \<Longrightarrow> rg_ok (snd (subscribe pre opts r))"
  by (rule rg_ok_intro) (auto simp: subscribe_def Let_def sh_ok_def dest: rg_okD split: if_splits)

lemma unsubscribe_ok: "rg_ok r \<Longrightarrow> rg_ok (unsubscribe i r)"
  by (rule rg_ok_intro) (auto simp: unsubscribe_def Let_def dest: rg_okD)

lemma publish_ok:
  assumes "rg_ok r"
  shows "rg_ok (publish cs r)"
proof (cases "cs = []")
  case False
  show ?thesis
  proof (rule rg_ok_intro)
    show "bm_ok (rg_shared (publish cs r))"
      using update_all_get [OF rg_okD(2) [OF assms] rg_okD(1) [OF assms], of "sh_publish cs"] False by (simp add: publish_def)
    show "distinct (rg_subs (publish cs r))" "rg_active (publish cs r) = length (rg_subs (publish cs r))"
      using rg_okD(2,3) [OF assms] by (simp_all add: publish_def)
    show "i < rg_next_id (publish cs r) \<and> sh_ok s" if "bm_get (rg_shared (publish cs r)) i = Some s" for i s
      using that rg_okD(4) [OF assms] sh_publish_ok unfolding publish_get [OF assms False]
      by (auto simp: publish_def split: if_splits)
    show "bm_get (rg_shared (publish cs r)) i \<noteq> None" if "i \<in> set (rg_subs (publish cs r))" for i
      using that rg_okD(5) [OF assms, of i] unfolding publish_get [OF assms False] by (auto simp: publish_def False)
  qed
qed (use assms in \<open>simp add: publish_def\<close>)

text \<open>C34. The registry's invariant (unique ids below the next id, every listed subscription
  present, the active count exact, no queue above its capacity) holds of a new registry and is
  kept by \<open>subscribe\<close>, \<open>unsubscribe\<close> and \<open>publish\<close>.\<close>

theorem registry_invariant:
  "rg_ok registry_new \<and>
   (\<forall>r. rg_ok r \<longrightarrow> rg_ok (snd (subscribe pre opts r)) \<and> rg_ok (unsubscribe i r) \<and> rg_ok (publish cs r))"
proof -
  have "rg_ok registry_new" by (simp add: rg_ok_def registry_new_def)
  then show ?thesis using subscribe_ok unsubscribe_ok publish_ok by blast
qed

theorem registry_invariant_witness:
  "rg_ok (publish [] (unsubscribe 1 (snd (subscribe [2] watch_options_default registry_new))))"
  using registry_invariant [of "[2]" watch_options_default 1 "[]"] by blast

end
