(* ===== verification/Database.thy ===== *)
theory Database
  imports BTree_Check Watch
begin

text \<open>
  The engine of \<open>lib.rs\<close>: the state behind the engine lock (\<open>Inner\<close>), transactions,
  commit, checkpoints, opening with crash recovery, and scans that merge the tree with the
  in-memory versions. Every public method takes the lock once, so each is one atomic
  operation; \<open>commit\<close> publishes its changes after it released the lock and is therefore
  two, \<open>commit_locked\<close> and \<open>publish\<close>. Metrics, tracing and timers are left out. The
  checksum, the record encoding and the iteration order of hash maps are parameters.
\<close>

section \<open>State\<close>

record db =
  db_pager :: pager
  db_wal :: wal
  db_versions :: version_store
  db_fill :: fill_factor
  db_next_auto_checkpoint :: nat
  db_checkpoint_bytes :: nat
  db_sync_on_commit :: bool
  db_watchers :: registry

type_synonym 'a db_op = "(db, 'a) sres"

definition on_pager :: "'a pager_op \<Rightarrow> 'a db_op" where
  "on_pager m d = (case m (db_pager d) of (r, p) \<Rightarrow> (r, d\<lparr>db_pager := p\<rparr>))"

definition on_wal :: "'a wal_op \<Rightarrow> 'a db_op" where
  "on_wal m d = (case m (db_wal d) of (r, w) \<Rightarrow> (r, d\<lparr>db_wal := w\<rparr>))"

definition on_versions :: "(version_store, 'a) sres \<Rightarrow> 'a db_op" where
  "on_versions m d = (case m (db_versions d) of (r, v) \<Rightarrow> (r, d\<lparr>db_versions := v\<rparr>))"

section \<open>Transactions\<close>

definition db_begin :: "bool \<Rightarrow> nat db_op" where
  "db_begin read_only = on_versions (\<lambda>v. case txn_begin read_only v of (i, v') \<Rightarrow> (Inr i, v'))"

definition validate_write :: "bytes \<Rightarrow> bytes option \<Rightarrow> unit res" where
  "validate_write key val =
     rbind (validate_key_len (length key)) (\<lambda>_.
     rbind (case val of None \<Rightarrow> Inr () | Some v \<Rightarrow> validate_value_len (length v)) (\<lambda>_.
       if length key > MAX_KEY_SIZE then Inl InvalidArgument else Inr ()))"

definition db_insert :: "nat \<Rightarrow> bytes \<Rightarrow> bytes \<Rightarrow> unit db_op" where
  "db_insert txn_id key val =
     sbind (slift (validate_write key (Some val))) (\<lambda>_.
     on_versions (stage txn_id key (Put val)))"

definition db_delete :: "(bytes \<Rightarrow> u32) \<Rightarrow> nat \<Rightarrow> bytes \<Rightarrow> unit db_op" where
  "db_delete crc txn_id key =
     sbind (slift (validate_key_len (length key))) (\<lambda>_.
     sbind sget (\<lambda>d.
     sbind (slift (check_writable (db_versions d) txn_id)) (\<lambda>_.
     sbind (slift (txn_read (db_versions d) txn_id key)) (\<lambda>r.
     sbind (case r of
         Some v \<Rightarrow> sret (v \<noteq> None)
       | None \<Rightarrow> if length key \<le> MAX_KEY_SIZE then on_pager (bt_contains crc key) else sret False)
       (\<lambda>seen.
       if \<not> seen then serr NotFound
       else on_versions (stage txn_id key Del))))))"

definition tree_get :: "(bytes \<Rightarrow> u32) \<Rightarrow> bytes \<Rightarrow> bytes db_op" where
  "tree_get crc key =
     (if length key > MAX_KEY_SIZE then serr NotFound else on_pager (bt_get crc key))"

definition db_get :: "(bytes \<Rightarrow> u32) \<Rightarrow> nat \<Rightarrow> bytes \<Rightarrow> bytes db_op" where
  "db_get crc txn_id key =
     sbind (slift (validate_key_len (length key))) (\<lambda>_.
     sbind sget (\<lambda>d.
     sbind (slift (txn_read (db_versions d) txn_id key)) (\<lambda>r.
       case r of
         Some (Some v) \<Rightarrow> sret v
       | Some None \<Rightarrow> serr NotFound
       | None \<Rightarrow> tree_get crc key)))"

definition db_get_auto :: "(bytes \<Rightarrow> u32) \<Rightarrow> bytes \<Rightarrow> bytes db_op" where
  "db_get_auto crc key =
     sbind (slift (validate_key_len (length key))) (\<lambda>_.
     sbind sget (\<lambda>d.
       case visible (db_versions d) key (current_ts (db_versions d)) of
         Some (Some v) \<Rightarrow> sret v
       | Some None \<Rightarrow> serr NotFound
       | None \<Rightarrow> tree_get crc key))"

definition db_rollback :: "nat \<Rightarrow> unit db_op" where
  "db_rollback txn_id = on_versions (txn_rollback txn_id)"

section \<open>Checkpoints\<close>

definition checkpoint_locked ::
  "(bytes \<Rightarrow> u32) \<Rightarrow> (wal_record \<Rightarrow> bytes res) \<Rightarrow> unit db_op" where
  "checkpoint_locked crc ser d =
     (let watermark = merge_watermark (db_versions d);
          durable_meta = pg_meta (db_pager d)
      in
      case merge_into_tree (bt_insert crc (db_fill d)) (bt_delete crc) watermark
             (db_versions d) (db_pager d) of
        (Inl e, _, p) \<Rightarrow> (Inl e, d\<lparr>db_pager := discard_dirty durable_meta p\<rparr>)
      | (Inr _, v, p) \<Rightarrow>
          let tree_ts = max (md_tree_ts durable_meta) watermark;
              (retained, v) = retained_commits tree_ts v;
              m = (pg_meta p)\<lparr>md_tree_ts := tree_ts, md_next_txn_id := peek_txn_id v,
                              md_last_lsn := w_lsn (db_wal d)\<rparr>;
              d = d\<lparr>db_versions := v, db_pager := set_meta m p\<rparr>
          in
          sbind (on_pager (flush crc)) (\<lambda>_.
          sbind (on_wal (wal_reset crc ser tree_ts retained)) (\<lambda>_.
          smod (\<lambda>d. d\<lparr>db_next_auto_checkpoint :=
                  max (db_checkpoint_bytes d) (w_bytes_written (db_wal d) * 2)\<rparr>))) d)"

definition db_checkpoint :: "(bytes \<Rightarrow> u32) \<Rightarrow> (wal_record \<Rightarrow> bytes res) \<Rightarrow> unit db_op" where
  "db_checkpoint crc ser = checkpoint_locked crc ser"

definition db_flush :: "(bytes \<Rightarrow> u32) \<Rightarrow> unit db_op" where
  "db_flush crc = sbind (on_wal wal_sync) (\<lambda>_. on_pager (flush crc))"

section \<open>Commit\<close>

definition pending_changes :: "registry \<Rightarrow> transaction \<Rightarrow> nat \<Rightarrow> change list" where
  "pending_changes r t commit_ts =
     (if rg_is_empty r then []
      else
        map (\<lambda>(key, w).
          \<lparr>ch_kind = (if as_value w \<noteq> None then ChPut else ChDelete), ch_key = key,
           ch_value = (if wants_values r then as_value w else None), ch_commit_ts = commit_ts\<rparr>)
          (t_writes t))"

definition logged_writes :: "transaction \<Rightarrow> logged_write list" where
  "logged_writes t = map (\<lambda>(k, w). (k, as_value w)) (t_writes t)"

text \<open>Everything \<open>commit\<close> does under the engine lock; the result is what to publish.\<close>

definition commit_locked ::
  "(bytes \<Rightarrow> u32) \<Rightarrow> (wal_record \<Rightarrow> bytes res) \<Rightarrow> nat \<Rightarrow> change list db_op" where
  "commit_locked crc ser txn_id =
     sbind sget (\<lambda>d.
     sbind (slift (txn_get (db_versions d) txn_id)) (\<lambda>t.
     if t_read_only t \<or> t_writes t = [] then
       sbind (on_versions (txn_rollback txn_id)) (\<lambda>_. sret [])
     else
       (case detect_conflict (db_versions d) txn_id of
          Inl e \<Rightarrow> sbind (on_versions (txn_rollback txn_id)) (\<lambda>_. serr e)
        | Inr _ \<Rightarrow>
            let commit_ts = next_commit_ts (db_versions d) in
            sbind (on_wal (log_commit crc ser txn_id commit_ts (logged_writes t) (db_sync_on_commit d)))
              (\<lambda>_.
            let pending = pending_changes (db_watchers d) t commit_ts in
            sbind (on_versions (txn_commit txn_id)) (\<lambda>_ d.
              let d = (if w_bytes_written (db_wal d) \<ge> db_next_auto_checkpoint d
                       then snd (checkpoint_locked crc ser d) else d)
              in (Inr pending, d))))))"

definition db_publish :: "change list \<Rightarrow> db \<Rightarrow> db" where
  "db_publish cs d = d\<lparr>db_watchers := publish cs (db_watchers d)\<rparr>"

definition db_commit ::
  "(bytes \<Rightarrow> u32) \<Rightarrow> (wal_record \<Rightarrow> bytes res) \<Rightarrow> nat \<Rightarrow> unit db_op" where
  "db_commit crc ser txn_id =
     sbind (commit_locked crc ser txn_id) (\<lambda>pending. smod (db_publish pending))"

definition db_watch :: "bytes \<Rightarrow> watch_options \<Rightarrow> nat db_op" where
  "db_watch pre options d =
     (case subscribe pre options (db_watchers d) of (i, r) \<Rightarrow> (Inr i, d\<lparr>db_watchers := r\<rparr>))"

section \<open>Batches\<close>

definition write_batch ::
  "(bytes \<Rightarrow> u32) \<Rightarrow> (wal_record \<Rightarrow> bytes res) \<Rightarrow> (nat \<Rightarrow> unit db_op) \<Rightarrow> unit db_op" where
  "write_batch crc ser f =
     sbind (db_begin False) (\<lambda>txn d.
       case sbind (f txn) (\<lambda>_. db_commit crc ser txn) d of
         (Inl e, d) \<Rightarrow> (Inl e, snd (db_rollback txn d))
       | (Inr _, d) \<Rightarrow> (Inr (), d))"

definition put_auto :: "(bytes \<Rightarrow> u32) \<Rightarrow> (wal_record \<Rightarrow> bytes res) \<Rightarrow> bytes \<Rightarrow> bytes \<Rightarrow> unit db_op" where
  "put_auto crc ser key val = write_batch crc ser (\<lambda>txn. db_insert txn key val)"

definition delete_auto :: "(bytes \<Rightarrow> u32) \<Rightarrow> (wal_record \<Rightarrow> bytes res) \<Rightarrow> bytes \<Rightarrow> unit db_op" where
  "delete_auto crc ser key = write_batch crc ser (\<lambda>txn. db_delete crc txn key)"

definition delete_if_exists :: "(bytes \<Rightarrow> u32) \<Rightarrow> nat \<Rightarrow> bytes \<Rightarrow> unit db_op" where
  "delete_if_exists crc txn key d =
     (case db_delete crc txn key d of
        (Inl NotFound, d) \<Rightarrow> (Inr (), d)
      | (r, d) \<Rightarrow> (r, d))"

section \<open>Opening\<close>

definition apply_op :: "nat \<Rightarrow> recovered_op \<Rightarrow> version_store \<Rightarrow> version_store" where
  "apply_op commit_ts r v =
     (case r of
        RInsert k x \<Rightarrow> apply_recovered commit_ts k (Some x) v
      | RDelete k \<Rightarrow> apply_recovered commit_ts k None v)"

definition replay_recovery :: "recovery \<Rightarrow> meta_data \<Rightarrow> version_store" where
  "replay_recovery rec m =
     (let v = store_new (md_tree_ts m + 1) (md_next_txn_id m);
          v = observe_txn_id (r_max_txn_id rec) v
      in fold (\<lambda>(ts, ops) v. if ts \<le> md_tree_ts m then v else fold (apply_op ts) ops v)
           (r_committed rec) v)"

definition replayed :: "recovery \<Rightarrow> meta_data \<Rightarrow> nat" where
  "replayed rec m = length (filter (\<lambda>(ts, ops). md_tree_ts m < ts) (r_committed rec))"

record options =
  o_cache_pages :: nat
  o_fill_factor :: fill_factor
  o_checkpoint_bytes :: nat
  o_sync_on_commit :: bool

text \<open>
  \<open>dsk\<close> is the database file with its journal, \<open>log\<close> the log file if there is one,
  \<open>log_io\<close> the outcomes of calls on the log.
\<close>

definition db_open ::
  "(bytes \<Rightarrow> u32) \<Rightarrow> (wal_record \<Rightarrow> bytes res) \<Rightarrow> (bytes \<Rightarrow> wal_record option) \<Rightarrow>
     ((nat \<times> recovered_op list) list \<Rightarrow> (nat \<times> recovered_op list) list) \<Rightarrow>
     options \<Rightarrow> bool \<Rightarrow> disk \<Rightarrow> bytes option \<Rightarrow> nat option list \<Rightarrow> unit res \<times> db" where
  "db_open crc ser deser hash_order opts busy dsk log log_io =
     (let mk = (\<lambda>p w v. \<lparr>db_pager = p, db_wal = w, db_versions = v, db_fill = o_fill_factor opts,
                 db_next_auto_checkpoint = o_checkpoint_bytes opts,
                 db_checkpoint_bytes = o_checkpoint_bytes opts,
                 db_sync_on_commit = o_sync_on_commit opts, db_watchers = registry_new\<rparr>);
          file = (case log of None \<Rightarrow> [] | Some bs \<Rightarrow> bs)
      in
      case pager_open crc (o_cache_pages opts) busy dsk of
        (Inl e, p) \<Rightarrow> (Inl e, mk p (wal_open file log_io) (store_new 0 0))
      | (Inr _, p) \<Rightarrow>
          let m = pg_meta p;
              rec = wal_recover crc deser hash_order log;
              v = replay_recovery rec m
          in
          case wal_open_truncated file log_io (r_valid_bytes rec) of
            (Inl e, w) \<Rightarrow> (Inl e, mk p w v)
          | (Inr _, w) \<Rightarrow>
              let d = mk p (wal_set_lsn (md_last_lsn m) w) v in
              if replayed rec m > 0 then checkpoint_locked crc ser d else (Inr (), d))"

section \<open>Scans\<close>

text \<open>The overlay entries before a tree key, and those left at the end.\<close>

fun emit_before ::
  "'a visitor \<Rightarrow> bytes \<Rightarrow> overlay_entry list \<Rightarrow> 'a \<Rightarrow> bool res \<times> overlay_entry list \<times> 'a" where
  "emit_before f key [] acc = (Inr True, [], acc)"
| "emit_before f key ((k, v) # ov) acc =
     (if k \<ge> key then (Inr True, (k, v) # ov, acc)
      else
        (case v of
           None \<Rightarrow> emit_before f key ov acc
         | Some x \<Rightarrow>
             (case f k x acc of
                (Inl e, acc) \<Rightarrow> (Inl e, ov, acc)
              | (Inr False, acc) \<Rightarrow> (Inr False, ov, acc)
              | (Inr True, acc) \<Rightarrow> emit_before f key ov acc)))"

fun emit_rest :: "'a visitor \<Rightarrow> overlay_entry list \<Rightarrow> 'a \<Rightarrow> unit res \<times> 'a" where
  "emit_rest f [] acc = (Inr (), acc)"
| "emit_rest f ((k, v) # ov) acc =
     (case v of
        None \<Rightarrow> emit_rest f ov acc
      | Some x \<Rightarrow>
          (case f k x acc of
             (Inl e, acc) \<Rightarrow> (Inl e, acc)
           | (Inr False, acc) \<Rightarrow> (Inr (), acc)
           | (Inr True, acc) \<Rightarrow> emit_rest f ov acc))"

text \<open>The closure given to the tree's \<open>range_iter\<close>: overlay left, stopped, caller's state.\<close>

definition merge_visit :: "'a visitor \<Rightarrow> (overlay_entry list \<times> bool \<times> 'a) visitor" where
  "merge_visit f key val =
     (\<lambda>(ov, stopped, acc).
        case emit_before f key ov acc of
          (Inl e, ov, acc) \<Rightarrow> (Inl e, (ov, stopped, acc))
        | (Inr False, ov, acc) \<Rightarrow> (Inr False, (ov, True, acc))
        | (Inr True, ov, acc) \<Rightarrow>
            let (hit, ov) =
                  (case ov of (k, v) # ov' \<Rightarrow> if k = key then (Some v, ov') else (None, ov) | [] \<Rightarrow> (None, ov))
            in case hit of
                 Some None \<Rightarrow> (Inr True, (ov, stopped, acc))
               | _ \<Rightarrow>
                   let x = (case hit of Some (Some v) \<Rightarrow> v | _ \<Rightarrow> val) in
                   (case f key x acc of
                      (Inl e, acc) \<Rightarrow> (Inl e, (ov, stopped, acc))
                    | (Inr emitted, acc) \<Rightarrow> (Inr emitted, (ov, \<not> emitted, acc))))"

definition merge_scan ::
  "(bytes \<Rightarrow> u32) \<Rightarrow> bytes bound \<Rightarrow> bytes bound \<Rightarrow> overlay_entry list \<Rightarrow> 'a visitor \<Rightarrow>
     (pager \<times> 'a, unit) sres" where
  "merge_scan crc lo hi ov f =
     (\<lambda>(p, acc).
        case range_iter crc lo hi (merge_visit f) (p, (ov, False, acc)) of
          (Inl e, (p, (_, _, acc))) \<Rightarrow> (Inl e, (p, acc))
        | (Inr _, (p, (ov, stopped, acc))) \<Rightarrow>
            if stopped then (Inr (), (p, acc))
            else (case emit_rest f ov acc of (r, acc) \<Rightarrow> (r, (p, acc))))"

definition scan_range ::
  "(bytes \<Rightarrow> u32) \<Rightarrow> bytes bound \<Rightarrow> bytes bound \<Rightarrow> 'a visitor \<Rightarrow> (db \<times> 'a, unit) sres" where
  "scan_range crc lo hi f =
     (\<lambda>(d, acc).
        case overlay (db_versions d) (current_ts (db_versions d)) lo hi of
          Inl e \<Rightarrow> (Inl e, (d, acc))
        | Inr ov \<Rightarrow>
            (case merge_scan crc lo hi ov f (db_pager d, acc) of
               (r, (p, acc)) \<Rightarrow> (r, (d\<lparr>db_pager := p\<rparr>, acc))))"

definition scan_txn ::
  "(bytes \<Rightarrow> u32) \<Rightarrow> nat \<Rightarrow> bytes bound \<Rightarrow> bytes bound \<Rightarrow> 'a visitor \<Rightarrow> (db \<times> 'a, unit) sres" where
  "scan_txn crc txn_id lo hi f =
     (\<lambda>(d, acc).
        case txn_overlay (db_versions d) txn_id lo hi of
          Inl e \<Rightarrow> (Inl e, (d, acc))
        | Inr ov \<Rightarrow>
            (case merge_scan crc lo hi ov f (db_pager d, acc) of
               (r, (p, acc)) \<Rightarrow> (r, (d\<lparr>db_pager := p\<rparr>, acc))))"

text \<open>\<open>end.pop()\<close> in a loop: the last byte that can be incremented, is.\<close>

fun prefix_successor_rev :: "bytes \<Rightarrow> bytes option" where
  "prefix_successor_rev [] = None"
| "prefix_successor_rev (b # bs) =
     (if unat b < 255 then Some (rev ((b + 1) # bs)) else prefix_successor_rev bs)"

definition prefix_successor :: "bytes \<Rightarrow> bytes option" where
  "prefix_successor pre = prefix_successor_rev (rev pre)"

definition scan_prefix :: "(bytes \<Rightarrow> u32) \<Rightarrow> bytes \<Rightarrow> 'a visitor \<Rightarrow> (db \<times> 'a, unit) sres" where
  "scan_prefix crc pre f =
     scan_range crc
       (if pre = [] then Unbounded else Included pre)
       (case prefix_successor pre of Some e \<Rightarrow> Excluded e | None \<Rightarrow> Unbounded) f"

definition db_scan_iter ::
  "(bytes \<Rightarrow> u32) \<Rightarrow> (bytes \<times> bytes \<Rightarrow> ('a, unit) sres) \<Rightarrow> (db \<times> 'a, unit) sres" where
  "db_scan_iter crc f =
     scan_range crc Unbounded Unbounded (\<lambda>k v. sbind (f (k, v)) (\<lambda>_. sret True))"

definition db_scan :: "(bytes \<Rightarrow> u32) \<Rightarrow> (bytes \<times> bytes) list db_op" where
  "db_scan crc d =
     (case db_scan_iter crc (\<lambda>item. smod (\<lambda>out. out @ [item])) (d, []) of
        (Inl e, (d, _)) \<Rightarrow> (Inl e, d)
      | (Inr _, (d, out)) \<Rightarrow> (Inr out, d))"

definition db_range ::
  "(bytes \<Rightarrow> u32) \<Rightarrow> bytes bound \<Rightarrow> bytes bound \<Rightarrow> nat \<Rightarrow> (bytes \<times> bytes) list db_op" where
  "db_range crc lo hi limit d =
     (case scan_range crc lo hi (\<lambda>k v out.
             let out = out @ [(k, v)] in (Inr (limit = 0 \<or> length out < limit), out)) (d, []) of
        (Inl e, (d, _)) \<Rightarrow> (Inl e, d)
      | (Inr _, (d, out)) \<Rightarrow> (Inr out, d))"

text \<open>
  The number of visible keys: the tree's count corrected by the in-memory versions. The
  subtraction is on an unsigned integer in the source and panics below zero.
\<close>

fun len_correct :: "(bytes \<Rightarrow> u32) \<Rightarrow> overlay_entry list \<Rightarrow> nat \<Rightarrow> nat pager_op" where
  "len_correct crc [] count = sret count"
| "len_correct crc ((key, val) # ov) count =
     sbind (if length key \<le> MAX_KEY_SIZE then bt_contains crc key else sret False) (\<lambda>in_tree.
       if val \<noteq> None \<and> \<not> in_tree then len_correct crc ov (count + 1)
       else if val = None \<and> in_tree then
         (if count = 0 then serr Panic else len_correct crc ov (count - 1))
       else len_correct crc ov count)"

definition db_len :: "(bytes \<Rightarrow> u32) \<Rightarrow> nat db_op" where
  "db_len crc =
     sbind (on_pager (bt_len crc)) (\<lambda>count.
     sbind sget (\<lambda>d.
     sbind (slift (keys_with_versions (db_versions d) (current_ts (db_versions d)))) (\<lambda>ov.
     on_pager (len_correct crc ov count))))"

definition db_is_empty :: "(bytes \<Rightarrow> u32) \<Rightarrow> bool db_op" where
  "db_is_empty crc = sbind (db_len crc) (\<lambda>n. sret (n = 0))"

section \<open>Diagnostics, restore and closing\<close>

record stats =
  st_page_count :: nat
  st_active_txns :: nat
  st_pending_keys :: nat
  st_wal_bytes :: nat
  st_commit_ts :: nat
  st_tree_ts :: nat
  st_cache_hits :: nat
  st_cache_misses :: nat

definition db_stats :: "db \<Rightarrow> stats" where
  "db_stats d =
     \<lparr>st_page_count = md_page_count (pg_meta (db_pager d)),
      st_active_txns = active_count (db_versions d), st_pending_keys = pending_keys (db_versions d),
      st_wal_bytes = w_bytes_written (db_wal d), st_commit_ts = current_ts (db_versions d),
      st_tree_ts = md_tree_ts (pg_meta (db_pager d)), st_cache_hits = pg_hits (db_pager d),
      st_cache_misses = pg_misses (db_pager d)\<rparr>"

definition db_check :: "(bytes \<Rightarrow> u32) \<Rightarrow> tree_report db_op" where
  "db_check crc = sbind sget (\<lambda>d. on_pager (bt_check crc (db_fill d)))"

text \<open>
  Installing the file content \<open>src\<close> in place of the database: the second half of
  \<open>restore\<close> and of \<open>compact\<close>.
\<close>

definition install_contents ::
  "(bytes \<Rightarrow> u32) \<Rightarrow> (wal_record \<Rightarrow> bytes res) \<Rightarrow> bytes \<Rightarrow> unit db_op" where
  "install_contents crc ser src =
     sbind (on_pager (replace_contents crc False src)) (\<lambda>_.
     sbind sget (\<lambda>d.
     let m = pg_meta (db_pager d) in
     sbind (smod (\<lambda>d. d\<lparr>db_versions := store_new (md_tree_ts m + 1) (md_next_txn_id m)\<rparr>)) (\<lambda>_.
     sbind (on_wal (wal_reset crc ser (md_tree_ts m) [])) (\<lambda>_.
     smod (\<lambda>d. d\<lparr>db_next_auto_checkpoint := db_checkpoint_bytes d\<rparr>)))))"

text \<open>\<open>restore\<close> once the backup file has been checked; \<open>src\<close> is its content.\<close>

definition restore_checked ::
  "(bytes \<Rightarrow> u32) \<Rightarrow> (wal_record \<Rightarrow> bytes res) \<Rightarrow> bytes \<Rightarrow> unit db_op" where
  "restore_checked crc ser src =
     sbind sget (\<lambda>d.
       if active_count (db_versions d) > 0 then serr InvalidArgument
       else
         sbind (checkpoint_locked crc ser) (\<lambda>_.
         sbind (install_contents crc ser src) (\<lambda>_.
         sbind sget (\<lambda>d.
         smod (\<lambda>d'. d'\<lparr>db_watchers :=
           publish_reset (md_tree_ts (pg_meta (db_pager d))) (db_watchers d')\<rparr>)))))"

definition db_close :: "(bytes \<Rightarrow> u32) \<Rightarrow> (wal_record \<Rightarrow> bytes res) \<Rightarrow> unit db_op" where
  "db_close crc ser = db_checkpoint crc ser"

text \<open>\<open>Drop\<close>: the watchers first; the checkpoint's outcome is ignored.\<close>

definition db_drop :: "(bytes \<Rightarrow> u32) \<Rightarrow> (wal_record \<Rightarrow> bytes res) \<Rightarrow> bool \<Rightarrow> db \<Rightarrow> db" where
  "db_drop crc ser crashed d =
     (let d = d\<lparr>db_watchers := close_all (db_watchers d)\<rparr>
      in if crashed then d else snd (db_checkpoint crc ser d))"

end
