(* ===== verification/Scan.thy ===== *)
theory Scan
  imports Tree_Store Database
begin

text \<open>
  Scans. A scan runs the caller's visitor while it reads pages: \<open>scans crc m g p\<close> says that
  \<open>m\<close>, started in \<open>p\<close>, does to the caller's state what \<open>g\<close> does and leaves the pages alone,
  unless the environment fails. The tree's \<open>range_iter\<close> visits the entries of the range in
  order; the engine's scans visit the merge of the tree with the versions in memory.
\<close>

section \<open>Runs that only read\<close>

definition scans :: "(bytes \<Rightarrow> u32) \<Rightarrow> (pager \<times> 'a, 'b) sres \<Rightarrow> ('a, 'b) sres \<Rightarrow> pager \<Rightarrow> bool" where
  "scans crc m g p \<longleftrightarrow>
     (\<forall>acc. case m (p, acc) of (r, (p', acc')) \<Rightarrow>
        (quiet p \<longrightarrow> quiet p') \<and>
        ((\<exists>e. r = Inl e \<and> fails p e p') \<or> (same_view crc p p' \<and> g acc = (r, acc'))))"

lemma scans_sret: "pager_ok crc p \<Longrightarrow> scans crc (sret x) (sret x) p"
  by (simp add: scans_def same_view_refl)

lemma scans_serr: "pager_ok crc p \<Longrightarrow> scans crc (serr x) (serr x) p"
  by (simp add: scans_def same_view_refl)

lemma scans_on_snd: "pager_ok crc p \<Longrightarrow> scans crc (on_snd g) g p"
  by (auto simp: scans_def on_snd_def same_view_refl split: prod.splits)

lemma scans_on_fst:
  assumes "wp m (\<lambda>x p'. x = v \<and> same_view crc p p') (\<lambda>_ _. False) p"
  shows "scans crc (on_fst m) (sret v) p"
  using assms by (auto simp: scans_def wp_def on_fst_def split: prod.splits sum.splits)

lemma scans_sbind:
  assumes m: "scans crc m g p" and f: "\<And>x p'. same_view crc p p' \<Longrightarrow> scans crc (f x) (h x) p'"
  shows "scans crc (sbind m f) (sbind g h) p"
  unfolding scans_def
proof
  fix acc
  obtain r p1 acc1 where r: "m (p, acc) = (r, (p1, acc1))" by (cases "m (p, acc)") auto
  have q1: "quiet p \<longrightarrow> quiet p1" and c: "(\<exists>e. r = Inl e \<and> fails p e p1) \<or> (same_view crc p p1 \<and> g acc = (r, acc1))"
    using m r by (auto simp: scans_def split: prod.splits)
  show "case sbind m f (p, acc) of (r, p', acc') \<Rightarrow> (quiet p \<longrightarrow> quiet p') \<and>
      ((\<exists>e. r = Inl e \<and> fails p e p') \<or> (same_view crc p p' \<and> sbind g h acc = (r, acc')))"
  proof (cases r)
    case (Inl e)
    then show ?thesis using r q1 c by (auto simp: sbind_def)
  next
    case (Inr x)
    then have s1: "same_view crc p p1" and g: "g acc = (Inr x, acc1)" using c by auto
    obtain r2 p2 acc2 where r2: "f x (p1, acc1) = (r2, (p2, acc2))" by (cases "f x (p1, acc1)") auto
    have "quiet p1 \<longrightarrow> quiet p2" "(\<exists>e. r2 = Inl e \<and> fails p1 e p2) \<or> (same_view crc p1 p2 \<and> h x acc1 = (r2, acc2))"
      using f [OF s1, of x] r2 by (auto simp: scans_def split: prod.splits)
    then show ?thesis
      using r Inr r2 g q1 same_view_trans [OF s1] by (auto simp: sbind_def fails_def)
  qed
qed

lemma scans_read:
  assumes "wp m (\<lambda>x p'. x = v \<and> same_view crc p p') (\<lambda>_ _. False) p"
    and "\<And>p'. same_view crc p p' \<Longrightarrow> scans crc (f v) g p'"
  shows "scans crc (sbind (on_fst m) f) g p"
proof -
  have "scans crc (sbind (on_fst m) f) (sbind (sret v) (\<lambda>_. g)) p"
    unfolding scans_def
  proof
    fix acc
    obtain r p1 where r: "m p = (r, p1)" by (cases "m p")
    show "case sbind (on_fst m) f (p, acc) of (r, p', acc') \<Rightarrow> (quiet p \<longrightarrow> quiet p') \<and>
        ((\<exists>e. r = Inl e \<and> fails p e p') \<or> (same_view crc p p' \<and> sbind (sret v) (\<lambda>_. g) acc = (r, acc')))"
    proof (cases r)
      case (Inl e)
      then show ?thesis using assms(1) r by (auto simp: wp_def sbind_def on_fst_def)
    next
      case (Inr x)
      then have x: "x = v" "same_view crc p p1" "quiet p \<longrightarrow> quiet p1" using assms(1) r by (auto simp: wp_def)
      obtain r2 p2 acc2 where r2: "f v (p1, acc) = (r2, (p2, acc2))" by (cases "f v (p1, acc)") auto
      have "quiet p1 \<longrightarrow> quiet p2" "(\<exists>e. r2 = Inl e \<and> fails p1 e p2) \<or> (same_view crc p1 p2 \<and> g acc = (r2, acc2))"
        using assms(2) [OF x(2)] r2 by (auto simp: scans_def split: prod.splits)
      then show ?thesis
        using r Inr x r2 same_view_trans [OF x(2)] by (auto simp: sbind_def on_fst_def fails_def)
    qed
  qed
  moreover have "sbind (sret v) (\<lambda>_. g) = g" by (rule ext) (simp add: sbind_def)
  ultimately show ?thesis by (simp only:)
qed

lemma scans_slift: "scans crc (f x) g p \<Longrightarrow> r = Inr x \<Longrightarrow> scans crc (sbind (slift r) f) g p"
  by (simp add: scans_def sbind_def)

section \<open>Visiting a list\<close>

fun visit_below :: "bytes bound \<Rightarrow> 'a visitor \<Rightarrow> (bytes \<times> bytes) list \<Rightarrow> ('a, bool) sres" where
  "visit_below hi f [] = sret True"
| "visit_below hi f ((k, v) # es) =
     (if \<not> below hi k then sret False
      else sbind (f k v) (\<lambda>c. if c then visit_below hi f es else sret False))"

fun visit_all :: "'a visitor \<Rightarrow> (bytes \<times> bytes) list \<Rightarrow> ('a, bool) sres" where
  "visit_all f [] = sret True"
| "visit_all f ((k, v) # es) = sbind (f k v) (\<lambda>c. if c then visit_all f es else sret False)"

lemma visit_below_append:
  "visit_below hi f (es @ es') = sbind (visit_below hi f es) (\<lambda>c. if c then visit_below hi f es' else sret False)"
proof (induction es)
  case Nil
  show ?case by (rule ext) (simp add: sbind_def)
next
  case (Cons e es)
  obtain k v where e: "e = (k, v)" by (cases e)
  show ?case by (rule ext) (auto simp: e Cons.IH sbind_def split: prod.splits sum.splits)
qed

lemma below_mono: "below hi k \<Longrightarrow> k' \<le> k \<Longrightarrow> below hi k'" for k :: bytes
  by (cases hi) auto

lemma visit_below_filter:
  assumes "bm_ok es"
  shows "sbind (visit_below hi f es) (\<lambda>_. sret ()) = sbind (visit_all f (filter (\<lambda>e. below hi (fst e)) es)) (\<lambda>_. sret ())"
  using assms
proof (induction es)
  case (Cons e es)
  obtain k v where e: "e = (k, v)" by (cases e)
  have ok: "bm_ok es" "\<forall>x \<in> set es. k < fst x" using Cons.prems by (auto simp: bm_ok_def e)
  show ?case
  proof (cases "below hi k")
    case True
    have "sbind (f k v) (\<lambda>c. sbind (if c then visit_below hi f es else sret False) (\<lambda>_. sret ())) =
        sbind (f k v) (\<lambda>c. sbind (if c then visit_all f (filter (\<lambda>e. below hi (fst e)) es) else sret False) (\<lambda>_. sret ()))"
    proof (rule arg_cong [where f = "sbind (f k v)"], rule ext)
      fix c show "sbind (if c then visit_below hi f es else sret False) (\<lambda>_. sret ()) =
          sbind (if c then visit_all f (filter (\<lambda>e. below hi (fst e)) es) else sret False) (\<lambda>_. sret ())"
        by (cases c) (simp_all only: Cons.IH [OF ok(1)] if_True if_False)
    qed
    then show ?thesis using True by (simp only: e visit_below.simps visit_all.simps filter.simps fst_conv if_True not_True_eq_False if_False sbind_assoc)
  next
    case False
    then have "filter (\<lambda>e. below hi (fst e)) es = []"
      using ok(2) below_mono [of hi] by (force simp: filter_empty_conv less_imp_le)
    then show ?thesis
      using False by (simp only: e visit_below.simps filter.simps fst_conv if_False not_False_eq_True if_True visit_all.simps)
        (rule ext, simp add: sbind_def)
  qed
qed simp

section \<open>The slots of a leaf\<close>

lemma scan_slots_scans:
  assumes "heap_ok crc p A" "leaf_page q" "cells q = map entry_cell es" "\<forall>e \<in> set es. entry_ok (pview crc p) e"
    and "distinct (pages (Lf i es))" "set (pages (Lf i es)) \<inter> A = {}" "0 \<notin> set (pages (Lf i es))" "start \<le> length es"
  shows "scans crc (scan_slots crc hi f q [start..<length es]) (visit_below hi f (map entry_kv (drop start es))) p"
  using assms(1,4,8)
proof (induction "length es - start" arbitrary: start p)
  case 0
  then have "[start..<length es] = []" "drop start es = []" by auto
  then show ?case
    using scans_sret [OF heap_okD(1) [OF 0(2)], of True] by (simp only: list.map scan_slots.simps visit_below.simps)
next
  case (Suc n)
  then have lt: "start < length es" by simp
  let ?e = "es ! start"
  obtain k v ov where e: "?e = (k, v, ov)" by (metis prod.collapse)
  have ekv: "entry_kv ?e = (k, v)" by (simp add: e entry_kv_def)
  have mem: "?e \<in> set es" using lt by simp
  note rd = leaf_page_reads [OF heap_okD(1) [OF Suc.prems(1)] assms(2,3) Suc.prems(2)]
  have key: "cell_key q start = Inr k" using rd(1) lt e by (simp add: keys_are_def)
  have lc: "leaf_cell_at q start = Inr (lc_of ?e)" using rd(2) lt by simp
  have ep: "distinct (i # entry_pages ?e)" "set (i # entry_pages ?e) \<inter> A = {}" "0 \<notin> set (i # entry_pages ?e)"
  proof -
    have "set (entry_pages ?e) \<subseteq> set (concat (map entry_pages es))" using mem by auto
    moreover have "distinct (entry_pages ?e)" using assms(5) mem by (auto simp: distinct_concat_iff)
    ultimately show "distinct (i # entry_pages ?e)" "set (i # entry_pages ?e) \<inter> A = {}" "0 \<notin> set (i # entry_pages ?e)"
      using assms(5-7) by auto
  qed
  have dr: "drop start es = ?e # drop (Suc start) es" using lt by (rule Cons_nth_drop_Suc [symmetric])
  have up: "[start..<length es] = start # [Suc start..<length es]" using lt by (rule upt_conv_Cons)
  have ok: "pager_ok crc p" using heap_okD(1) [OF Suc.prems(1)] .
  have next': "scans crc (scan_slots crc hi f q [Suc start..<length es]) (visit_below hi f (map entry_kv (drop (Suc start) es))) p'"
    if s: "same_view crc p p'" for p'
  proof (rule Suc.hyps(1))
    show "heap_ok crc p' A" by (rule same_view_heap [OF Suc.prems(1) s])
    show "\<forall>e \<in> set es. entry_ok (pview crc p') e" using Suc.prems(2) s by (simp add: same_view_def)
  qed (use Suc.hyps(2) lt in auto)
  show ?case
  proof (cases "below hi k")
    case False
    then show ?thesis
      unfolding dr up list.map entry_kv_def e fst_conv snd_conv scan_slots.simps visit_below.simps
      by (intro scans_slift [OF _ key]) (simp only: not_False_eq_True if_True scans_sret [OF ok])
  next
    case True
    have "scans crc (sbind (on_fst (cell_value crc (lc_of ?e))) (\<lambda>val. sbind (on_snd (f (lc_key (lc_of ?e)) val)) (\<lambda>continue.
        if continue then scan_slots crc hi f q [Suc start..<length es] else sret False)))
        (sbind (f k v) (\<lambda>c. if c then visit_below hi f (map entry_kv (drop (Suc start) es)) else sret False)) p"
    proof (rule scans_read)
      show "wp (cell_value crc (lc_of ?e)) (\<lambda>x p'. x = v \<and> same_view crc p p') (\<lambda>_ _. False) p"
        using cell_value_wp [OF Suc.prems(1) bspec [OF Suc.prems(2) mem] ep, of "\<lambda>_ _. False"] by (simp add: e)
      fix p1 assume s1: "same_view crc p p1"
      then have "pager_ok crc p1" by (simp add: same_view_def)
      then have "scans crc (on_snd (f (lc_key (lc_of ?e)) v)) (f k v) p1" using scans_on_snd by (simp add: e lc_of_def)
      then show "scans crc (sbind (on_snd (f (lc_key (lc_of ?e)) v)) (\<lambda>continue.
          if continue then scan_slots crc hi f q [Suc start..<length es] else sret False))
          (sbind (f k v) (\<lambda>c. if c then visit_below hi f (map entry_kv (drop (Suc start) es)) else sret False)) p1"
      proof (rule scans_sbind)
        fix c p2 assume "same_view crc p1 p2"
        then have s2: "same_view crc p p2" by (rule same_view_trans [OF s1])
        then show "scans crc (if c then scan_slots crc hi f q [Suc start..<length es] else sret False)
            (if c then visit_below hi f (map entry_kv (drop (Suc start) es)) else sret False) p2"
          using next' [OF s2] scans_sret by (auto simp: same_view_def)
      qed
    qed
    then have "scans crc (sbind (slift (leaf_cell_at q start)) (\<lambda>c. sbind (on_fst (cell_value crc c)) (\<lambda>val.
        sbind (on_snd (f (lc_key c) val)) (\<lambda>continue.
        if continue then scan_slots crc hi f q [Suc start..<length es] else sret False))))
        (sbind (f k v) (\<lambda>c. if c then visit_below hi f (map entry_kv (drop (Suc start) es)) else sret False)) p"
      by (rule scans_slift [OF _ lc])
    then show ?thesis
      using True
      unfolding dr up list.map(2) [where f = entry_kv] ekv scan_slots.simps(2) visit_below.simps(2)
      by (intro scans_slift [OF _ key]) (simp only: not_True_eq_False if_False)
  qed
qed

section \<open>The leaf chain\<close>

definition chain_head :: "(nat \<times> entry list) list \<Rightarrow> nat" where
  "chain_head ls = (if ls = [] then SENTINEL else fst (hd ls))"

text \<open>The leaves of a tree, or a tail of them, in a store.\<close>

definition chain_in :: "(bytes \<Rightarrow> u32) \<Rightarrow> pager \<Rightarrow> nat set \<Rightarrow> (nat \<times> entry list) list \<Rightarrow> bool" where
  "chain_in crc p A ls \<longleftrightarrow>
     heap_ok crc p A \<and> leaf_chain (pview crc p) ls SENTINEL \<and>
     (\<forall>l \<in> set ls. distinct (leaf_pages l) \<and> set (leaf_pages l) \<inter> A = {} \<and> 0 \<notin> set (leaf_pages l))"

lemma chain_in_same: "chain_in crc p A ls \<Longrightarrow> same_view crc p p' \<Longrightarrow> chain_in crc p' A ls"
  unfolding chain_in_def by (auto simp: same_view_def intro: same_view_heap)

lemma chain_in_tail: "chain_in crc p A (ls @ ls') \<Longrightarrow> chain_in crc p A ls'"
  unfolding chain_in_def by (auto simp: leaf_chain_append)

lemma chain_in_tree:
  assumes "bt_at crc p A t"
  shows "chain_in crc p A (leaves t)"
proof -
  have T: "tree_at crc p A [] None SENTINEL t" using assms by (simp add: bt_at_def)
  note t = tree_atD [OF T]
  have "distinct (leaf_pages l) \<and> set (leaf_pages l) \<subseteq> set (pages t)" if "l \<in> set (leaves t)" for l
    using leaves_pages [OF that t(3)] by (simp add: leaf_pages_def)
  then show ?thesis unfolding chain_in_def using t(1,2,4,5) shape_leaf_chain by blast
qed

lemma chain_in_leaf:
  assumes "chain_in crc p A (l # ls)"
  obtains q where "pview crc p (fst l) = Some q" "leaf_page q" "cells q = map entry_cell (snd l)" "extra q = chain_head ls"
    "\<forall>e \<in> set (snd l). entry_ok (pview crc p) e" "sorted_wrt (<) (map fst (snd l))" "fst l \<noteq> SENTINEL"
    "keys_are q (map fst (snd l))" "num_keys q = length (snd l)"
proof -
  have h: "heap_ok crc p A" "leaf_at (pview crc p) (fst l) (snd l) (chain_head ls)" "set (leaf_pages l) \<inter> A = {}"
    using assms by (auto simp: chain_in_def chain_head_def)
  obtain q where q: "pview crc p (fst l) = Some q" "leaf_page q" "cells q = map entry_cell (snd l)" "extra q = chain_head ls"
      "\<forall>e \<in> set (snd l). entry_ok (pview crc p) e" "sorted_wrt (<) (map fst (snd l))"
    using h(2) by (auto simp: leaf_at_def)
  note rd = leaf_page_reads [OF heap_okD(1) [OF h(1)] q(2,3,5)]
  have "fst l \<noteq> SENTINEL" using owned_bound(2) [OF h(1), of "fst l"] h(3) leaf_pages_mem(1) [of l] by blast
  then show thesis using that [OF q _ rd(1,3)] by blast
qed

lemma sbind_unit_if:
  "sbind m (\<lambda>c. if c then sbind g (\<lambda>_. sret ()) else sret ()) = sbind (sbind m (\<lambda>c. if c then g else sret False)) (\<lambda>_. sret ())"
  by (rule ext) (auto simp: sbind_def split: prod.splits sum.splits)

lemma scan_leaf_scans:
  assumes c: "chain_in crc p A (l # ls)" and start: "(if first then scan_start lo q else Inr 0) = Inr start" "start \<le> length (snd l)"
    and q: "pview crc p (fst l) = Some q"
    and rest: "\<And>p'. same_view crc p p' \<Longrightarrow>
      scans crc (scan_leaves crc lo hi f False n (chain_head ls)) (sbind (visit_below hi f (leaf_entries ls)) (\<lambda>_. sret ())) p'"
  shows "scans crc (scan_leaves crc lo hi f first (Suc n) (fst l))
     (sbind (visit_below hi f (map entry_kv (drop start (snd l)) @ leaf_entries ls)) (\<lambda>_. sret ())) p"
proof -
  obtain q' where q': "pview crc p (fst l) = Some q'" "leaf_page q'" "cells q' = map entry_cell (snd l)" "extra q' = chain_head ls"
      "\<forall>e \<in> set (snd l). entry_ok (pview crc p) e" "fst l \<noteq> SENTINEL" "num_keys q' = length (snd l)"
    using chain_in_leaf [OF c] by metis
  have e: "q' = q" using q q'(1) by simp
  have h: "heap_ok crc p A" "distinct (pages (Lf (fst l) (snd l)))" "set (pages (Lf (fst l) (snd l))) \<inter> A = {}"
      "0 \<notin> set (pages (Lf (fst l) (snd l)))"
    using c by (simp_all only: chain_in_def leaf_pages_def list.set) blast+
  let ?k = "\<lambda>continue. if continue then scan_leaves crc lo hi f False n (extra q) else sret ()"
  have "scans crc (sbind (on_fst (read_page crc (fst l))) (\<lambda>leaf.
      sbind (slift (if first then scan_start lo leaf else Inr 0)) (\<lambda>start.
      sbind (scan_slots crc hi f leaf [start..<num_keys leaf]) (\<lambda>continue.
        if continue then scan_leaves crc lo hi f False n (extra leaf) else sret ()))))
    (sbind (visit_below hi f (map entry_kv (drop start (snd l)))) (\<lambda>c. if c
       then sbind (visit_below hi f (leaf_entries ls)) (\<lambda>_. sret ()) else sret ())) p"
  proof (rule scans_read [OF read_page_wp [OF heap_okD(1) [OF h(1)] q]], rule scans_slift [OF _ start(1)], rule scans_sbind)
    fix p1 assume s1: "same_view crc p p1"
    have "scans crc (scan_slots crc hi f q [start..<length (snd l)]) (visit_below hi f (map entry_kv (drop start (snd l)))) p1"
    proof (rule scan_slots_scans [OF same_view_heap [OF h(1) s1] _ _ _ h(2-4) start(2)])
      show "\<forall>e \<in> set (snd l). entry_ok (pview crc p1) e" using q'(5) s1 by (simp add: same_view_def)
    qed (use q' e in simp_all)
    then show "scans crc (scan_slots crc hi f q [start..<num_keys q]) (visit_below hi f (map entry_kv (drop start (snd l)))) p1"
      using q'(7) e by simp
    fix c p2 assume "same_view crc p1 p2"
    then have s2: "same_view crc p p2" by (rule same_view_trans [OF s1])
    show "scans crc (?k c) (if c then sbind (visit_below hi f (leaf_entries ls)) (\<lambda>_. sret ()) else sret ()) p2"
    proof -
      have "scans crc (sret ()) (sret ()) p2" by (rule scans_sret) (use s2 in \<open>simp add: same_view_def\<close>)
      then show ?thesis using rest [OF s2] q'(4) e by (cases c) (simp_all only: if_True if_False)
    qed
  qed
  then show ?thesis
    unfolding visit_below_append sbind_unit_if [symmetric]
    by (subst scan_leaves.simps) (simp only: q'(6) if_False nat.case)
qed

lemma scan_leaves_scans:
  assumes "chain_in crc p A ls" "length ls \<le> n"
  shows "scans crc (scan_leaves crc lo hi f False n (chain_head ls)) (sbind (visit_below hi f (leaf_entries ls)) (\<lambda>_. sret ())) p"
  using assms
proof (induction ls arbitrary: n p)
  case Nil
  have ok: "pager_ok crc p" using Nil by (simp add: chain_in_def heap_okD)
  have "sbind (visit_below hi f (leaf_entries [])) (\<lambda>_. sret ()) = sret ()" by (rule ext) (simp add: sbind_def)
  moreover have "scan_leaves crc lo hi f False n SENTINEL = sret ()" by (subst scan_leaves.simps) (rule if_P, rule refl)
  moreover have "chain_head [] = SENTINEL" by (simp add: chain_head_def)
  ultimately show ?case using scans_sret [OF ok, of "()"] by (simp only:)
next
  case (Cons l ls)
  obtain m where n: "n = Suc m" using Cons.prems(2) by (cases n) auto
  obtain q where q: "pview crc p (fst l) = Some q" using chain_in_leaf [OF Cons.prems(1)] by metis
  have "scans crc (scan_leaves crc lo hi f False m (chain_head ls)) (sbind (visit_below hi f (leaf_entries ls)) (\<lambda>_. sret ())) p'"
    if "same_view crc p p'" for p'
    by (rule Cons.IH) (use chain_in_same [OF chain_in_tail [of crc p A "[l]" ls] that] Cons.prems n in auto)
  moreover have "(if False then scan_start lo q else Inr 0) = Inr 0" by simp
  ultimately have "scans crc (scan_leaves crc lo hi f False (Suc m) (fst l))
      (sbind (visit_below hi f (map entry_kv (drop 0 (snd l)) @ leaf_entries ls)) (\<lambda>_. sret ())) p"
    by (intro scan_leaf_scans [OF Cons.prems(1) _ _ q]) (simp_all only: le0)
  then show ?case
    by (simp only: n chain_head_def list.sel list.simps if_False if_True drop_0 leaf_entries_simps le0 simp_thms)
qed

section \<open>Where a scan starts\<close>

lemma above_split:
  fixes k :: bytes
  assumes "sorted_wrt (<) (map fst es)" "keys_are q (map fst es)"
  shows "\<exists>start. scan_start lo q = Inr start \<and> start \<le> length es \<and>
     map entry_kv (drop start es) = filter (\<lambda>e. above lo (fst e)) (map entry_kv es)"
proof -
  have split: "drop n es = filter P es" if nP: "n \<le> length es" "\<And>j. j < n \<Longrightarrow> \<not> P (es ! j)" "\<And>j. n \<le> j \<Longrightarrow> j < length es \<Longrightarrow> P (es ! j)" for n P
  proof -
    have "\<not> P x" if x: "x \<in> set (take n es)" for x
    proof -
      obtain j where "j < length (take n es)" "take n es ! j = x" using x by (metis in_set_conv_nth)
      then show ?thesis using nP(2) [of j] by auto
    qed
    moreover have "P x" if x: "x \<in> set (drop n es)" for x
    proof -
      obtain j where "j < length (drop n es)" "drop n es ! j = x" using x by (metis in_set_conv_nth)
      then show ?thesis using nP(3) [of "n + j"] by auto
    qed
    ultimately have "filter P (take n es) = []" "filter P (drop n es) = drop n es"
      unfolding filter_empty_conv filter_id_conv by blast+
    then show ?thesis by (metis append_Nil append_take_drop_id filter_append)
  qed
  have kv: "map entry_kv (filter (\<lambda>e. above lo (fst e)) es) = filter (\<lambda>e. above lo (fst e)) (map entry_kv es)"
    by (simp add: filter_map comp_def entry_kv_def)
  have lt: "fst (es ! i) < fst (es ! j)" if "i < j" "j < length es" for i j
    using assms(1) that by (auto simp: sorted_wrt_iff_nth_less)
  have pos: "fst (es ! j) < key" if "j < position (map fst es) key" for j key
    using that nth_mem [of j "takeWhile (\<lambda>k. k < key) (map fst es)"] set_takeWhileD takeWhile_nth [of j "\<lambda>k. k < key" "map fst es"]
      position_le [of "map fst es" key] unfolding position_def by fastforce
  have ge: "key \<le> fst (es ! j)" if "position (map fst es) key \<le> j" "j < length es" for j key
  proof -
    let ?i = "position (map fst es) key"
    have "\<not> map fst es ! ?i < key" unfolding position_def by (rule nth_length_takeWhile) (use that in \<open>simp add: position_def\<close>)
    then have "key \<le> fst (es ! ?i)" using that by simp
    also have "\<dots> \<le> fst (es ! j)" using lt [of ?i j] that by (cases "?i = j") auto
    finally show ?thesis .
  qed
  have le: "position (map fst es) key \<le> length es" for key using position_le [of "map fst es" key] by simp
  have s: "search q key = Inr (let i = position (map fst es) key in if i < length es \<and> map fst es ! i = key then Found i else Missing i)" for key
    using search_spec [OF assms(2,1), of key] by simp
  show ?thesis
  proof (cases lo)
    case Unbounded
    then show ?thesis by (intro exI [of _ 0]) (simp add: scan_start_def)
  next
    case (Included key)
    have "drop (position (map fst es) key) es = filter (\<lambda>e. above lo (fst e)) es"
      by (rule split [OF le]) (use pos ge Included in \<open>force simp: not_le\<close>)+
    then show ?thesis
      using kv le [of key] Included s [of key]
      by (intro exI [of _ "position (map fst es) key"]) (auto simp: scan_start_def Let_def)
  next
    case (Excluded key)
    let ?i = "position (map fst es) key"
    let ?n = "if ?i < length es \<and> map fst es ! ?i = key then ?i + 1 else ?i"
    have "drop ?n es = filter (\<lambda>e. above lo (fst e)) es"
    proof (rule split)
      show "?n \<le> length es" using le [of key] by auto
      show "\<not> above lo (fst (es ! j))" if "j < ?n" for j
      proof (cases "j < ?i")
        case False
        then have "j = ?i" "fst (es ! ?i) = key" using that by (auto split: if_splits)
        then show ?thesis using Excluded by simp
      qed (use pos [of j key] Excluded in \<open>simp add: less_imp_le not_less\<close>)
      show "above lo (fst (es ! j))" if j: "?n \<le> j" "j < length es" for j
      proof (cases "?i < length es \<and> map fst es ! ?i = key")
        case True
        then show ?thesis using lt [of ?i j] j Excluded by auto
      next
        case False
        then have ij: "?i \<le> j" using j(1) by (auto split: if_splits)
        then have "key \<le> fst (es ! j)" using ge [of key j] j by simp
        moreover have "key \<noteq> fst (es ! j)"
        proof
          assume e: "key = fst (es ! j)"
          then have "?i < j" using False j ij by (cases "?i = j") auto
          then show False using lt [of ?i j] j ge [of key ?i] e by auto
        qed
        ultimately show ?thesis using Excluded by simp
      qed
    qed
    then show ?thesis
      using kv le [of key] Excluded s [of key] by (intro exI [of _ ?n]) (auto simp: scan_start_def Let_def)
  qed
qed

lemma first_leaf_loop_wp:
  assumes "tree_at crc p A lo hi nxt t" "height t \<le> n"
  shows "wp (first_leaf_loop crc n (root_id t)) (\<lambda>i p'. i = lead t \<and> same_view crc p p') R p"
  using assms
proof (induction n arbitrary: p lo hi nxt t)
  case 0
  have "0 < height t" by (cases t) auto
  then show ?case using 0(2) by simp
next
  case (Suc n)
  note T = tree_atD [OF Suc.prems(1)]
  let ?Q = "\<lambda>i p'. i = lead t \<and> same_view crc p p'"
  show ?case
  proof (cases t)
    case (Lf i es)
    then obtain q where q: "pview crc p i = Some q" "leaf_page q" using T(2) by (auto elim: shape_LfE)
    have "wp (sbind (read_page crc i) (\<lambda>q. if is_leaf q then sret i else sbind (slift (child_at q 0)) (first_leaf_loop crc n))) ?Q R p"
    proof (rule wp_step [OF read_page_wp [OF T(6) q(1)]], elim conjE)
      fix x p1 assume x: "x = q" "same_view crc p p1"
      have "wp (sret i) ?Q R p1" by (rule wp_sret) (simp add: Lf lead_def x(2))
      then show "wp (if is_leaf x then sret i else sbind (slift (child_at x 0)) (first_leaf_loop crc n)) ?Q R p1"
        using x q(2) by (simp add: leaf_page_def)
    qed
    then show ?thesis by (simp add: Lf)
  next
    case (Nd i ks cs)
    obtain q where q: "pview crc p i = Some q" "kids (shape (pview crc p)) lo hi nxt ks cs" "\<not> is_leaf q"
        "\<And>s. s \<le> length ks \<Longrightarrow> child_at q s = Inr (root_id (cs ! s))" "length cs = Suc (length ks)"
      using node_page Suc.prems(1) unfolding Nd by metis
    obtain c cs' where cs: "cs = c # cs'" using q(5) by (cases cs) auto
    have sc: "shape (pview crc p) (last (lo # [])) (hi_at hi ks) (nxt_at nxt cs') c"
      using kids_child [of "shape (pview crc p)" lo hi nxt "[]" ks "[]" c cs'] q(2) cs by simp
    have tc: "tree_at crc p A (last (lo # [])) (hi_at hi ks) (nxt_at nxt cs') c"
      unfolding tree_at_def using sc T(1,3,4,5) by (auto simp: Nd cs)
    have ld: "lead t = lead c" using lead_Nd [OF q(2), of i] by (simp add: Nd cs)
    have ht: "height c \<le> n" using Suc.prems(2) height_child [of c cs i ks] by (simp add: Nd cs)
    have ch: "child_at q 0 = Inr (root_id c)" using q(4) [of 0] cs by simp
    have "wp (sbind (read_page crc i) (\<lambda>q. if is_leaf q then sret i else sbind (slift (child_at q 0)) (first_leaf_loop crc n))) ?Q R p"
    proof (rule wp_step [OF read_page_wp [OF T(6) q(1)]], elim conjE)
      fix x p1 assume x: "x = q" and s1: "same_view crc p p1"
      have "wp (first_leaf_loop crc n (root_id c)) ?Q R p1"
        by (rule wp_conseq [OF Suc.IH [OF tree_at_same [OF tc s1] ht]]) (use same_view_trans [OF s1] ld in auto)
      then have "wp (sbind (slift (child_at q 0)) (first_leaf_loop crc n)) ?Q R p1" by (rule wp_sbind_slift [OF ch])
      then show "wp (if is_leaf x then sret i else sbind (slift (child_at x 0)) (first_leaf_loop crc n)) ?Q R p1"
        using x q(3) by simp
    qed
    then show ?thesis by (simp add: Nd)
  qed
qed

section \<open>Range scans of the tree\<close>

lemma leaves_bound: "bt_at crc p A t \<Longrightarrow> leaves t = ls1 @ ls2 \<Longrightarrow> length ls2 \<le> md_page_count (pg_meta p)"
proof -
  assume b: "bt_at crc p A t" and l: "leaves t = ls1 @ ls2"
  have T: "tree_at crc p A [] None SENTINEL t" using b by (simp add: bt_at_def)
  note t = tree_atD [OF T]
  have d: "distinct (concat (map leaf_pages (leaves t)))" by (rule distinct_leaves [OF t(3)])
  then have "distinct (map fst (leaves t))"
  proof (induction "leaves t" arbitrary: t)
    case (Cons a x)
    have "distinct (map fst ls)" if "distinct (concat (map leaf_pages ls))" for ls
      using that
    proof (induction ls)
      case (Cons y ys)
      have "fst y \<notin> fst ` set ys"
      proof
        assume "fst y \<in> fst ` set ys"
        then obtain z where z: "z \<in> set ys" "fst z = fst y" by auto
        then have "fst y \<in> set (concat (map leaf_pages ys))" using leaf_pages_mem(1) [of z] by auto
        then show False using Cons.prems leaf_pages_mem(1) [of y] by auto
      qed
      then show ?case using Cons by auto
    qed simp
    then show ?case using Cons.prems by blast
  qed (metis distinct.simps(1) list.simps(8))
  moreover have "set (map fst (leaves t)) \<inter> A = {}"
    using chain_in_tree [OF b] leaf_pages_mem(1) unfolding chain_in_def by fastforce
  ultimately have "length (map fst (leaves t)) \<le> md_page_count (pg_meta p)" by (rule owned_length [OF t(1)])
  then show "length ls2 \<le> md_page_count (pg_meta p)" by (simp add: l)
qed

definition in_range :: "bytes bound \<Rightarrow> bytes bound \<Rightarrow> bytes \<Rightarrow> bool" where
  "in_range lo hi k \<longleftrightarrow> above lo k \<and> below hi k"

lemma scan_from_scans:
  assumes b: "bt_at crc p A t" and l: "leaves t = ls1 @ (i, es) # ls2"
    and a: "\<forall>e \<in> set (leaf_entries ls1). \<not> above lo (fst e)" "\<forall>e \<in> set (leaf_entries ls2). above lo (fst e)"
  shows "scans crc (scan_leaves crc lo hi f True (md_page_count (pg_meta p)) i)
     (sbind (visit_all f (filter (\<lambda>e. in_range lo hi (fst e)) (entries t))) (\<lambda>_. sret ())) p"
proof -
  have ch: "chain_in crc p A ((i, es) # ls2)" using chain_in_tail [of crc p A ls1] chain_in_tree [OF b] l by simp
  obtain q where q: "pview crc p i = Some q" "sorted_wrt (<) (map fst es)" "keys_are q (map fst es)"
    using chain_in_leaf [OF ch] by (metis fst_conv snd_conv)
  obtain start where st: "scan_start lo q = Inr start" "start \<le> length es"
      "map entry_kv (drop start es) = filter (\<lambda>e. above lo (fst e)) (map entry_kv es)"
    using above_split [OF q(2,3), of lo] by blast
  have "length ((i, es) # ls2) \<le> md_page_count (pg_meta p)" by (rule leaves_bound [OF b l])
  then obtain n where n: "md_page_count (pg_meta p) = Suc n" "length ls2 \<le> n" by (cases "md_page_count (pg_meta p)") auto
  have all: "map entry_kv (drop start es) @ leaf_entries ls2 = filter (\<lambda>e. above lo (fst e)) (entries t)"
  proof -
    have "filter (\<lambda>e. above lo (fst e)) (leaf_entries ls1) = []" "filter (\<lambda>e. above lo (fst e)) (leaf_entries ls2) = leaf_entries ls2"
      using a unfolding filter_empty_conv filter_id_conv by blast+
    then show ?thesis by (simp add: entries_leaves l st(3))
  qed
  have rest: "scans crc (scan_leaves crc lo hi f False n (chain_head ls2)) (sbind (visit_below hi f (leaf_entries ls2)) (\<lambda>_. sret ())) p'"
    if "same_view crc p p'" for p'
    by (rule scan_leaves_scans) (use chain_in_same [OF chain_in_tail [of crc p A "[(i, es)]" ls2] that] ch n in auto)
  have "scans crc (scan_leaves crc lo hi f True (Suc n) i)
      (sbind (visit_below hi f (map entry_kv (drop start es) @ leaf_entries ls2)) (\<lambda>_. sret ())) p"
    using scan_leaf_scans [OF ch _ _ _ rest, of True q start] st q(1) by simp
  moreover have "bm_ok (filter (\<lambda>e. above lo (fst e)) (entries t))" by (rule bm_ok_filter [OF bt_at_sorted [OF b]])
  ultimately have "scans crc (scan_leaves crc lo hi f True (Suc n) i)
      (sbind (visit_all f (filter (\<lambda>e. below hi (fst e)) (filter (\<lambda>e. above lo (fst e)) (entries t)))) (\<lambda>_. sret ())) p"
    by (simp only: all visit_below_filter)
  moreover have "filter (\<lambda>e. below hi (fst e)) (filter (\<lambda>e. above lo (fst e)) (entries t)) = filter (\<lambda>e. in_range lo hi (fst e)) (entries t)"
    by (auto simp: in_range_def intro: filter_cong)
  ultimately show ?thesis by (simp only: n(1))
qed

lemma range_iter_scans:
  assumes b: "bt_at crc p A t" and ht: "height t \<le> MAX_DEPTH + 1"
  shows "scans crc (range_iter crc lo hi f) (sbind (visit_all f (filter (\<lambda>e. in_range lo hi (fst e)) (entries t))) (\<lambda>_. sret ())) p"
proof -
  have T: "tree_at crc p A [] None SENTINEL t" "md_root (pg_meta p) = root_id t" using b by (auto simp: bt_at_def)
  let ?g = "sbind (visit_all f (filter (\<lambda>e. in_range lo hi (fst e)) (entries t))) (\<lambda>_. sret ())"
  let ?find = "case lo of Unbounded \<Rightarrow> first_leaf crc | Included k \<Rightarrow> find_leaf crc k | Excluded k \<Rightarrow> find_leaf crc k"
  have find: "wp ?find (\<lambda>i p'. same_view crc p p' \<and> (\<exists>ls1 es ls2. leaves t = ls1 @ (i, es) # ls2 \<and>
      (\<forall>e \<in> set (leaf_entries ls1). \<not> above lo (fst e)) \<and> (\<forall>e \<in> set (leaf_entries ls2). above lo (fst e)))) (\<lambda>_ _. False) p"
  proof -
    have fl: "wp (find_leaf crc k) (\<lambda>i p'. same_view crc p p' \<and>
      (\<exists>ls1 es ls2. leaves t = ls1 @ (i, es) # ls2 \<and> around k ls1 ls2)) (\<lambda>_ _. False) p" for k
      by (rule find_leaf_wp [OF T]) (use ht in simp)
    have "wp (first_leaf_loop crc (MAX_DEPTH + 1) (root_id t)) (\<lambda>i p'. i = lead t \<and> same_view crc p p') (\<lambda>_ _. False) p"
      by (rule first_leaf_loop_wp [OF T(1) ht])
    then have ff: "wp (first_leaf crc) (\<lambda>i p'. i = lead t \<and> same_view crc p p') (\<lambda>_ _. False) p"
      by (simp add: wp_def first_leaf_def T(2))
    obtain l ls where ls: "leaves t = l # ls" using shape_leaf_chain [OF tree_atD(2) [OF T(1)]] by (cases "leaves t") auto
    then have ld: "leaves t = [] @ (lead t, snd l) # ls" using lead_leaves [of t] by simp
    show ?thesis
    proof (cases lo)
      case Unbounded
      then show ?thesis
        using wp_conseq [OF ff, of "\<lambda>i p'. same_view crc p p' \<and> (\<exists>ls1 es ls2. leaves t = ls1 @ (i, es) # ls2 \<and>
          (\<forall>e \<in> set (leaf_entries ls1). \<not> above lo (fst e)) \<and> (\<forall>e \<in> set (leaf_entries ls2). above lo (fst e)))" "\<lambda>_ _. False"] ld
        by fastforce
    next
      case (Included k)
      show ?thesis unfolding Included bound.case
        by (rule wp_conseq [OF fl [of k]]) (force simp: around_def not_le less_imp_le)+
    next
      case (Excluded k)
      show ?thesis unfolding Excluded bound.case
        by (rule wp_conseq [OF fl [of k]]) (force simp: around_def less_imp_not_less)+
    qed
  qed
  show ?thesis
    unfolding scans_def range_iter_def
  proof
    fix acc
    obtain r p1 where r: "?find p = (r, p1)" by (cases "?find p")
    let ?k = "\<lambda>leaf_id st. scan_leaves crc lo hi f True (md_page_count (pg_meta (fst st))) leaf_id st"
    show "case sbind (on_fst ?find) ?k (p, acc) of (r, p', acc') \<Rightarrow> (quiet p \<longrightarrow> quiet p') \<and>
        ((\<exists>e. r = Inl e \<and> fails p e p') \<or> (same_view crc p p' \<and> ?g acc = (r, acc')))"
    proof (cases r)
      case (Inl e)
      then show ?thesis using find r by (auto simp: wp_def sbind_def on_fst_def)
    next
      case (Inr i)
      then obtain ls1 es ls2 where x: "same_view crc p p1" "quiet p \<longrightarrow> quiet p1" "leaves t = ls1 @ (i, es) # ls2"
          "\<forall>e \<in> set (leaf_entries ls1). \<not> above lo (fst e)" "\<forall>e \<in> set (leaf_entries ls2). above lo (fst e)"
        using find r by (auto simp: wp_def)
      have sc: "scans crc (scan_leaves crc lo hi f True (md_page_count (pg_meta p1)) i) ?g p1"
        by (rule scan_from_scans [OF bt_at_same [OF b x(1)] x(3-5)])
      obtain r2 p2 acc2 where r2: "scan_leaves crc lo hi f True (md_page_count (pg_meta p1)) i (p1, acc) = (r2, (p2, acc2))"
        by (cases "scan_leaves crc lo hi f True (md_page_count (pg_meta p1)) i (p1, acc)") auto
      have "quiet p1 \<longrightarrow> quiet p2" "(\<exists>e. r2 = Inl e \<and> fails p1 e p2) \<or> (same_view crc p1 p2 \<and> ?g acc = (r2, acc2))"
        using sc r2 by (auto simp: scans_def split: prod.splits)
      then show ?thesis
        using r Inr x(1,2) r2 same_view_trans [OF x(1)] by (auto simp: sbind_def on_fst_def fails_def)
    qed
  qed
qed

end
