(* ===== verification/Scan_Merge.thy ===== *)
theory Scan_Merge
  imports Scan
begin

text \<open>
  The engine's scans: the tree's entries merged with the overlay of in-memory versions.
\<close>

section \<open>Merging two sorted lists\<close>

definition present :: "overlay_entry list \<Rightarrow> (bytes \<times> bytes) list" where
  "present ov = List.map_filter (\<lambda>(k, r). map_option (Pair k) r) ov"

lemma present_simps [simp]:
  "present [] = []"
  "present ((k, r) # ov) = (case r of None \<Rightarrow> present ov | Some x \<Rightarrow> (k, x) # present ov)"
  by (simp_all add: present_def map_filter_simps split: option.splits)

lemma present_append [simp]: "present (a @ b) = present a @ present b"
  by (induction a) (auto split: option.splits)

fun merged :: "(bytes \<times> bytes) list \<Rightarrow> overlay_entry list \<Rightarrow> (bytes \<times> bytes) list" where
  "merged [] ov = present ov"
| "merged ((k, v) # es) ov =
     present (takeWhile (\<lambda>e. fst e < k) ov) @
     (case dropWhile (\<lambda>e. fst e < k) ov of
        [] \<Rightarrow> (k, v) # merged es []
      | (k', r) # ov' \<Rightarrow>
          if k' = k then (case r of None \<Rightarrow> [] | Some x \<Rightarrow> [(k, x)]) @ merged es ov'
          else (k, v) # merged es ((k', r) # ov'))"

lemma present_keys: "fst ` set (present ov) \<subseteq> fst ` set ov"
proof (induction ov)
  case (Cons e ov)
  then show ?case by (cases e; cases "snd e") auto
qed simp

lemma present_ok: "bm_ok ov \<Longrightarrow> bm_ok (present ov)"
proof (induction ov)
  case (Cons e ov)
  obtain k r where e: "e = (k, r)" by (cases e)
  have "\<forall>x \<in> fst ` set ov. k < x" using Cons.prems by (simp add: e)
  then have "\<forall>x \<in> fst ` set (present ov). k < x" using present_keys [of ov] by blast
  then show ?case using Cons by (auto simp: e split: option.splits)
qed simp

lemma present_get: "bm_ok ov \<Longrightarrow> bm_get (present ov) k = (case bm_get ov k of Some r \<Rightarrow> r | None \<Rightarrow> None)"
proof (induction ov)
  case (Cons e ov)
  obtain k' r where e: "e = (k', r)" by (cases e)
  have "k' \<notin> fst ` set ov" using Cons.prems by (auto simp: e)
  then have "k' \<notin> fst ` set (present ov)" using present_keys [of ov] by blast
  then have "bm_get (present ov) k' = None" by (simp add: bm_get_None_iff)
  then show ?case using Cons by (auto simp: e split: option.splits)
qed simp

lemma bm_ok_append:
  "bm_ok (a @ b) \<longleftrightarrow> bm_ok a \<and> bm_ok b \<and> (\<forall>x \<in> fst ` set a. \<forall>y \<in> fst ` set b. x < y)"
  by (auto simp: bm_ok_def sorted_wrt_append)

lemma bm_get_append: "bm_get (a @ b) k = (case bm_get a k of Some v \<Rightarrow> Some v | None \<Rightarrow> bm_get b k)"
  by (induction a) auto

text \<open>The lookup the merge has to answer: the overlay's entry if there is one, else the tree's.\<close>

definition over :: "overlay_entry list \<Rightarrow> (bytes \<times> bytes) list \<Rightarrow> bytes \<Rightarrow> bytes option" where
  "over ov es k = (case bm_get ov k of Some r \<Rightarrow> r | None \<Rightarrow> bm_get es k)"

lemma set_dropWhile_sub: "set (dropWhile P xs) \<subseteq> set xs"
  by (auto dest: set_dropWhileD)

lemma merged_keys: "fst ` set (merged es ov) \<subseteq> fst ` set es \<union> fst ` set ov"
proof (induction es ov rule: merged.induct)
  case (2 k v es ov)
  have "set (takeWhile (\<lambda>e. fst e < k) ov) \<subseteq> set ov" by (auto dest: set_takeWhileD)
  then have t: "fst ` set (present (takeWhile (\<lambda>e. fst e < k) ov)) \<subseteq> fst ` set ov"
    by (intro order_trans [OF present_keys] image_mono)
  have "set (dropWhile (\<lambda>e. fst e < k) ov) \<subseteq> set ov" by (rule set_dropWhile_sub)
  then have d: "fst ` set (dropWhile (\<lambda>e. fst e < k) ov) \<subseteq> fst ` set ov" by (rule image_mono)
  show ?case
  proof (cases "dropWhile (\<lambda>e. fst e < k) ov")
    case Nil
    then have "merged ((k, v) # es) ov = present (takeWhile (\<lambda>e. fst e < k) ov) @ (k, v) # merged es []"
      by (simp only: merged.simps list.case)
    then show ?thesis using 2(1) [OF Nil] t by (simp only: set_append image_Un list.set image_insert fst_conv) blast
  next
    case (Cons e ov')
    obtain k' r where e: "(k', r) = e" by (cases e) auto
    have d': "k' \<in> fst ` set ov" "fst ` set ov' \<subseteq> fst ` set ov" using d unfolding Cons e [symmetric] by auto
    show ?thesis
    proof (cases "k' = k")
      case True
      have "merged ((k, v) # es) ov = present (takeWhile (\<lambda>e. fst e < k) ov) @ (case r of None \<Rightarrow> [] | Some x \<Rightarrow> [(k, x)]) @ merged es ov'"
        using Cons True by (simp add: e [symmetric])
      moreover have "fst ` set (case r of None \<Rightarrow> [] | Some x \<Rightarrow> [(k, x)]) \<subseteq> {k}" by (auto split: option.splits)
      ultimately show ?thesis using 2(2) [OF Cons e True] t d' by (simp only: set_append image_Un list.set image_insert fst_conv) blast
    next
      case False
      have "merged ((k, v) # es) ov = present (takeWhile (\<lambda>e. fst e < k) ov) @ (k, v) # merged es ((k', r) # ov')"
        using Cons False by (simp add: e [symmetric])
      then show ?thesis using 2(3) [OF Cons e False] t d' by (simp only: set_append image_Un list.set image_insert fst_conv) blast
    qed
  qed
qed (use present_keys in auto)

lemma split_before:
  fixes ov :: "overlay_entry list"
  assumes "bm_ok ov"
  obtains a b where "takeWhile (\<lambda>e. fst e < k) ov = a" "dropWhile (\<lambda>e. fst e < k) ov = b" "ov = a @ b"
    "\<forall>x \<in> fst ` set a. x < k" "\<forall>x \<in> fst ` set b. k \<le> x" "bm_ok a" "bm_ok b"
proof
  let ?a = "takeWhile (\<lambda>e. fst e < k) ov" and ?b = "dropWhile (\<lambda>e. fst e < k) ov"
  show *: "ov = ?a @ ?b" by simp
  show "\<forall>x \<in> fst ` set ?a. x < k" using set_takeWhileD by fastforce
  have ok: "bm_ok (?a @ ?b)" using assms by simp
  then show "bm_ok ?a" "bm_ok ?b" unfolding bm_ok_append by auto
  show "\<forall>x \<in> fst ` set ?b. k \<le> x"
  proof (cases ?b)
    case (Cons e b)
    then have "\<not> fst e < k" using hd_dropWhile [of "\<lambda>e. fst e < k" ov] by auto
    moreover have "\<forall>x \<in> fst ` set b. fst e < x" using \<open>bm_ok ?b\<close> unfolding Cons by (cases e) auto
    ultimately show ?thesis unfolding Cons by force
  qed (metis empty_iff empty_set image_empty)
qed simp_all

lemma merged_spec:
  assumes "bm_ok es" "bm_ok ov"
  shows "bm_ok (merged es ov) \<and> (\<forall>x. bm_get (merged es ov) x = over ov es x)"
  using assms
proof (induction es ov rule: merged.induct)
  case (1 ov)
  then show ?case by (auto simp: present_ok present_get over_def split: option.splits)
next
  case (2 k v es ov)
  obtain a b where ab: "takeWhile (\<lambda>e. fst e < k) ov = a" "dropWhile (\<lambda>e. fst e < k) ov = b" "ov = a @ b"
    "\<forall>x \<in> fst ` set a. x < k" "\<forall>x \<in> fst ` set b. k \<le> x" "bm_ok a" "bm_ok b"
    using split_before [OF 2(5)] by metis
  have es: "bm_ok es" "\<forall>x \<in> fst ` set es. k < x" using 2(4) by auto
  have pa: "\<forall>x \<in> fst ` set (present a). x < k" using ab(4) present_keys [of a] by blast
  have glue: "bm_ok (present a @ m) \<and> (\<forall>x. bm_get (present a @ m) x = over ov ((k, v) # es) x)"
    if m: "bm_ok m" "\<forall>x \<in> fst ` set m. k \<le> x" "\<And>x. bm_get m x = over b ((k, v) # es) x" for m
  proof
    show "bm_ok (present a @ m)"
      unfolding bm_ok_append using pa m(1,2) present_ok [OF ab(6)] by fastforce
    show "\<forall>x. bm_get (present a @ m) x = over ov ((k, v) # es) x"
    proof
      fix x
      have "bm_get a x \<noteq> None \<Longrightarrow> bm_get m x = None"
        using ab(4) m(2) unfolding bm_get_None_iff by fastforce
      then show "bm_get (present a @ m) x = over ov ((k, v) # es) x"
        using m(3) [of x] by (auto simp: over_def ab(3) bm_get_append present_get [OF ab(6)] split: option.splits)
    qed
  qed
  have tail: "\<forall>x \<in> fst ` set (merged es ov'). k < x" if "\<forall>x \<in> fst ` set ov'. k < x" for ov'
    using merged_keys [of es ov'] es(2) that by blast
  show ?case
  proof (cases b)
    case Nil
    have ih: "bm_ok (merged es [])" "\<And>x. bm_get (merged es []) x = bm_get es x"
      using 2(1) [OF ab(2) [unfolded Nil] es(1)] by (auto simp: over_def)
    have "bm_ok ((k, v) # merged es [])" using tail [of "[]"] ih(1) by simp
    moreover have "\<forall>x \<in> fst ` set ((k, v) # merged es []). k \<le> x" using tail [of "[]"] by force
    ultimately show ?thesis using glue [of "(k, v) # merged es []"] ih Nil
      by (simp add: ab(1,2) over_def)
  next
    case (Cons e ov')
    obtain k' r where e: "(k', r) = e" by (cases e) auto
    have ov': "bm_ok ov'" "\<forall>x \<in> fst ` set ov'. k' < x" "k \<le> k'" using ab(5,7) Cons e [symmetric] by auto
    show ?thesis
    proof (cases "k' = k")
      case True
      have ih: "bm_ok (merged es ov')" "\<And>x. bm_get (merged es ov') x = over ov' es x"
        using 2(2) [OF ab(2) [unfolded Cons] e True es(1) ov'(1)] by auto
      have tl: "\<forall>x \<in> fst ` set (merged es ov'). k < x" using tail ov'(2) True by blast
      then have none: "bm_get (merged es ov') k = None" unfolding bm_get_None_iff by fastforce
      let ?m = "(case r of None \<Rightarrow> [] | Some x \<Rightarrow> [(k, x)]) @ merged es ov'"
      have "bm_ok ?m" "\<forall>x \<in> fst ` set ?m. k \<le> x" using tl ih(1) by (force split: option.splits)+
      moreover have "bm_get ?m x = over b ((k, v) # es) x" for x
        using ih(2) [of x] none by (auto simp: Cons e [symmetric] True over_def split: option.splits)
      ultimately show ?thesis using glue [of ?m] by (simp add: ab(1,2) Cons e [symmetric] True)
    next
      case False
      then have k': "k < k'" using ov'(3) by simp
      have ih: "bm_ok (merged es ((k', r) # ov'))" "\<And>x. bm_get (merged es ((k', r) # ov')) x = over ((k', r) # ov') es x"
        using 2(3) [OF ab(2) [unfolded Cons] e False es(1)] ov' by auto
      have tl: "\<forall>x \<in> fst ` set (merged es ((k', r) # ov')). k < x"
        by (rule tail) (use k' ov'(2) in force)
      let ?m = "(k, v) # merged es ((k', r) # ov')"
      have "bm_ok ?m" "\<forall>x \<in> fst ` set ?m. k \<le> x" using tl ih(1) by force+
      moreover have "bm_get ?m x = over b ((k, v) # es) x" for x
      proof (cases "x = k")
        case True
        have "bm_get ov' k = None" unfolding bm_get_None_iff using ov'(2) k' by fastforce
        then show ?thesis using True k' by (auto simp: Cons e [symmetric] over_def)
      next
        case F: False
        then have "bm_get ((k, v) # es) x = bm_get es x" by simp
        then show ?thesis using ih(2) [of x] by (auto simp: Cons e [symmetric] over_def F split: option.splits)
      qed
      ultimately show ?thesis using glue [of ?m] False by (simp add: ab(1,2) Cons e [symmetric])
    qed
  qed
qed

section \<open>The merging visitor\<close>

lemma visit_all_append:
  "visit_all f (es @ es') acc =
     (case visit_all f es acc of (Inr True, acc') \<Rightarrow> visit_all f es' acc' | x \<Rightarrow> x)"
proof (induction es arbitrary: acc)
  case (Cons e es)
  obtain k v where e: "e = (k, v)" by (cases e)
  obtain r acc1 where "f k v acc = (r, acc1)" by (cases "f k v acc")
  then show ?case using Cons [of acc1] by (cases r) (auto simp: e sbind_def split: sum.splits bool.splits)
qed simp

lemma emit_rest_visits: "emit_rest f ov acc = sbind (visit_all f (present ov)) (\<lambda>_. sret ()) acc"
  by (induction f ov acc rule: emit_rest.induct) (auto simp: sbind_def split: option.splits prod.splits sum.splits bool.splits)

lemma emit_before_visits:
  "case visit_all f (present (takeWhile (\<lambda>e. fst e < key) ov)) acc of
     (Inr True, acc') \<Rightarrow> emit_before f key ov acc = (Inr True, dropWhile (\<lambda>e. fst e < key) ov, acc')
   | (r, acc') \<Rightarrow> \<exists>ov'. emit_before f key ov acc = (r, ov', acc')"
proof (induction f key ov acc rule: emit_before.induct)
  case (2 f key k v ov acc)
  show ?case
  proof (cases "k < key")
    case True
    then have False: "\<not> key \<le> k" by simp
    show ?thesis
    proof (cases v)
      case None
      then show ?thesis using 2(1) False True by (auto split: prod.splits sum.splits bool.splits)
    next
      case (Some x)
      obtain r acc1 where "f k x acc = (r, acc1)" by (cases "f k x acc")
      then show ?thesis using 2(2) [OF False Some] True False Some by (auto simp: sbind_def split: sum.splits bool.splits)
    qed
  next
    case False
    then have "key \<le> k" by simp
    then show ?thesis using False by (simp only: takeWhile.simps dropWhile.simps fst_conv if_False present_simps visit_all.simps emit_before.simps if_True s_simps prod.case sum.case bool.case)
  qed
qed simp

definition finish :: "'a visitor \<Rightarrow> (unit res \<times> overlay_entry list \<times> bool \<times> 'a) \<Rightarrow> unit res \<times> 'a" where
  "finish f = (\<lambda>(r, ov, stopped, acc).
     case r of Inl e \<Rightarrow> (Inl e, acc) | Inr _ \<Rightarrow> if stopped then (Inr (), acc) else emit_rest f ov acc)"

definition ignoring where "ignoring m = sbind m (\<lambda>_ :: bool. sret ())"

lemma merge_visits:
  "finish f (ignoring (visit_all (merge_visit f) es) (ov, False, acc)) = ignoring (visit_all f (merged es ov)) acc"
proof (induction es ov arbitrary: acc rule: merged.induct)
  case (1 ov)
  then show ?case by (simp add: finish_def ignoring_def sbind_def emit_rest_visits)
next
  case (2 k v es ov)
  let ?a = "takeWhile (\<lambda>e. fst e < k) ov"
  obtain r acc1 where r: "visit_all f (present ?a) acc = (r, acc1)" by (cases "visit_all f (present ?a) acc")
  show ?case
  proof (cases "r = Inr True")
    case False
    then obtain ov1 where "emit_before f k ov acc = (r, ov1, acc1)"
      using emit_before_visits [of f k ov acc] r by (auto split: sum.splits bool.splits)
    then show ?thesis using False r
      by (auto simp: finish_def ignoring_def sbind_def merge_visit_def visit_all_append split: sum.splits bool.splits)
  next
    case True
    then have eb: "emit_before f k ov acc = (Inr True, dropWhile (\<lambda>e. fst e < k) ov, acc1)"
      using emit_before_visits [of f k ov acc] r by simp
    show ?thesis
    proof (cases "dropWhile (\<lambda>e. fst e < k) ov")
      case Nil
      obtain r2 acc2 where f: "f k v acc1 = (r2, acc2)" by (cases "f k v acc1")
      have "merged ((k, v) # es) ov = present ?a @ (k, v) # merged es []" by (simp only: merged.simps Nil list.case)
      then show ?thesis using 2(1) [OF Nil, of acc2] r True eb [unfolded Nil] f
        by (auto simp del: merged.simps(2) simp: finish_def ignoring_def sbind_def merge_visit_def visit_all_append split: sum.splits bool.splits)
    next
      case (Cons e ov')
      obtain k' rr where e: "(k', rr) = e" by (cases e) auto
      obtain r2 acc2 where f: "f k v acc1 = (r2, acc2)" by (cases "f k v acc1")
      obtain r3 acc3 where f3: "f k (the rr) acc1 = (r3, acc3)" by (cases "f k (the rr) acc1")
      show ?thesis
      proof (cases "k' = k")
        case kk: True
        show ?thesis
        proof (cases rr)
          case None
          then show ?thesis using 2(2) [OF Cons e kk, of acc1] r True eb Cons e [symmetric] kk
            by (simp add: finish_def ignoring_def sbind_def merge_visit_def visit_all_append)
        next
          case (Some x)
          then show ?thesis using 2(2) [OF Cons e kk, of acc3] r True eb Cons e [symmetric] kk f3
            by (auto simp: finish_def ignoring_def sbind_def merge_visit_def visit_all_append split: sum.splits bool.splits)
        qed
      next
        case kk: False
        show ?thesis using 2(3) [OF Cons e kk, of acc2] r True eb Cons e [symmetric] kk f
          by (auto simp: finish_def ignoring_def sbind_def merge_visit_def visit_all_append split: sum.splits bool.splits)
      qed
    qed
  qed
qed

section \<open>Scans of the engine\<close>

lemma merge_scan_scans:
  assumes "bt_at crc p A t" "height t \<le> MAX_DEPTH + 1"
  shows "scans crc (merge_scan crc lo hi ov f)
     (ignoring (visit_all f (merged (filter (\<lambda>e. in_range lo hi (fst e)) (entries t)) ov))) p"
  unfolding scans_def
proof
  fix acc
  let ?es = "filter (\<lambda>e. in_range lo hi (fst e)) (entries t)"
  obtain r p1 ov1 st1 acc1 where r: "range_iter crc lo hi (merge_visit f) (p, (ov, False, acc)) = (r, (p1, (ov1, st1, acc1)))"
    by (metis prod_cases5)
  have q: "quiet p \<longrightarrow> quiet p1"
    and c: "(\<exists>e. r = Inl e \<and> fails p e p1) \<or>
      (same_view crc p p1 \<and> ignoring (visit_all (merge_visit f) ?es) (ov, False, acc) = (r, (ov1, st1, acc1)))"
    using range_iter_scans [OF assms, of lo hi "merge_visit f"] r
    by (auto simp: scans_def ignoring_def split: prod.splits dest: spec [of _ "(ov, False, acc)"])
  obtain r2 acc2 where m: "merge_scan crc lo hi ov f (p, acc) = (r2, (p1, acc2))" "(r2, acc2) = finish f (r, (ov1, st1, acc1))"
    using r by (cases r; cases "emit_rest f ov1 acc1"; cases st1) (auto simp: merge_scan_def finish_def)
  have "same_view crc p p1 \<and> ignoring (visit_all f (merged ?es ov)) acc = (r2, acc2)" if "\<not> (\<exists>e. r = Inl e \<and> fails p e p1)"
    using c that m(2) merge_visits [of f ?es ov acc] by auto
  moreover have "r2 = r" if "r = Inl e" for e using m(2) that by (simp add: finish_def)
  ultimately show "case merge_scan crc lo hi ov f (p, acc) of (r, p', acc') \<Rightarrow> (quiet p \<longrightarrow> quiet p') \<and>
      ((\<exists>e. r = Inl e \<and> fails p e p') \<or>
       (same_view crc p p' \<and> ignoring (visit_all f (merged ?es ov)) acc = (r, acc')))"
    using m(1) q by auto
qed

text \<open>The list of the entries of a database state in a range, when the state is a finite map.\<close>

definition lists_range :: "bytes bound \<Rightarrow> bytes bound \<Rightarrow> db_state \<Rightarrow> (bytes \<times> bytes) list \<Rightarrow> bool" where
  "lists_range lo hi state es \<longleftrightarrow> bm_ok es \<and> (\<forall>k. bm_get es k = (if in_range lo hi k then state k else None))"

lemma lists_range_unique: "lists_range lo hi state es \<Longrightarrow> lists_range lo hi state es' \<Longrightarrow> es = es'"
  unfolding lists_range_def by (rule bm_ext) auto

lemma merged_lists_range:
  assumes "bt_at crc p A t" "bm_ok ov"
    and ov: "\<And>k. bm_get ov k = (if above lo k \<and> below hi k then look k else None)"
  shows "lists_range lo hi (\<lambda>k. read_through (bt_content crc p) (look k) k)
     (merged (filter (\<lambda>e. in_range lo hi (fst e)) (entries t)) ov)"
proof -
  have "bm_ok (filter (\<lambda>e. in_range lo hi (fst e)) (entries t))" by (rule bm_ok_filter [OF bt_at_sorted [OF assms(1)]])
  then show ?thesis
    using merged_spec [OF _ assms(2)]
    by (simp add: lists_range_def over_def ov in_range_def [symmetric] bm_get_filter_key read_through_def bt_content_def
        bt_map_eq [OF assms(1)] split: option.splits)
qed

text \<open>What a scan of the engine does when it is to deliver \<open>state\<close>.\<close>

definition delivers ::
  "(bytes \<Rightarrow> u32) \<Rightarrow> bytes bound \<Rightarrow> bytes bound \<Rightarrow> db_state \<Rightarrow> 'a visitor \<Rightarrow> db \<Rightarrow> 'a \<Rightarrow> unit res \<times> db \<times> 'a \<Rightarrow> bool" where
  "delivers crc lo hi state f d acc out \<longleftrightarrow>
     (case out of (r, d', acc') \<Rightarrow>
        d' = d\<lparr>db_pager := db_pager d'\<rparr> \<and>
        ((\<exists>e. r = Inl e \<and> fails (db_pager d) e (db_pager d')) \<or>
         (same_view crc (db_pager d) (db_pager d') \<and>
          (\<exists>es. lists_range lo hi state es \<and> ignoring (visit_all f es) acc = (r, acc')))))"

lemma merge_scan_delivers:
  assumes "bt_at crc (db_pager d) A t" "height t \<le> MAX_DEPTH + 1" "bm_ok ov"
    and ov: "\<And>k. bm_get ov k = (if above lo k \<and> below hi k then look k else None)"
    and state: "\<And>k. read_through (bt_content crc (db_pager d)) (look k) k = state k"
  shows "delivers crc lo hi state f d acc
     (case merge_scan crc lo hi ov f (db_pager d, acc) of (r, p, acc) \<Rightarrow> (r, d\<lparr>db_pager := p\<rparr>, acc))"
proof -
  let ?es = "merged (filter (\<lambda>e. in_range lo hi (fst e)) (entries t)) ov"
  obtain r p acc' where r: "merge_scan crc lo hi ov f (db_pager d, acc) = (r, p, acc')" by (metis prod_cases3)
  have "lists_range lo hi state ?es"
    using merged_lists_range [OF assms(1,3) ov] by (simp only: state)
  moreover have "(\<exists>e. r = Inl e \<and> fails (db_pager d) e p) \<or>
      (same_view crc (db_pager d) p \<and> ignoring (visit_all f ?es) acc = (r, acc'))"
    using merge_scan_scans [OF assms(1,2), of lo hi ov f] r by (auto simp: scans_def split: prod.splits dest: spec [of _ acc])
  ultimately show ?thesis by (auto simp: delivers_def r)
qed

text \<open>The state a transaction sees: its own writes over the database at its snapshot.\<close>

definition txn_view :: "db_state \<Rightarrow> history \<Rightarrow> transaction \<Rightarrow> db_state" where
  "txn_view base h x k =
     (case bm_get (t_writes x) k of Some w \<Rightarrow> as_value w | None \<Rightarrow> state_at base h (t_snapshot x) k)"

text \<open>C6. A scan of a transaction. With bounds in order it calls the visitor on exactly the entries
  of the range the transaction sees (its own writes over the database at its snapshot), in
  ascending key order, until the visitor stops it or fails, and changes no page; the merge of the
  tree with the versions in memory is invisible. With inverted bounds it panics.\<close>

theorem scan_txn_delivers_snapshot:
  assumes "bt_at crc (db_pager d) A t" "height t \<le> MAX_DEPTH + 1"
    and "si_rel base h tree_ts (bt_content crc (db_pager d)) (db_versions d)"
    and "txn_get (db_versions d) i = Inr x"
  shows "if range_panics lo hi then scan_txn crc i lo hi f (d, acc) = (Inl Panic, (d, acc))
     else delivers crc lo hi (txn_view base h x) f d acc (scan_txn crc i lo hi f (d, acc))"
proof (cases "range_panics lo hi")
  case True
  have ok: "bm_ok (vs_chains (db_versions d))" using assms(3) by (simp add: si_rel_def chains_of_def)
  show ?thesis using True assms(4) by (simp add: scan_txn_def txn_overlay_def overlay_eq [OF ok])
next
  case False
  have ok: "bm_ok (vs_chains (db_versions d))" "txns_ok (db_versions d)" using assms(3) by (simp_all add: si_rel_def chains_of_def)
  obtain ov where ov: "txn_overlay (db_versions d) i lo hi = Inr ov"
    using False assms(4) by (cases "t_writes x = []") (auto simp: txn_overlay_def overlay_eq [OF ok(1)] bm_range_def Let_def)
  let ?look = "\<lambda>k. case bm_get (t_writes x) k of Some w \<Rightarrow> Some (as_value w) | None \<Rightarrow> visible (db_versions d) k (t_snapshot x)"
  note spec = txn_overlay_spec [OF ok(2,1) assms(4) ov]
  have "tree_ts \<le> t_snapshot x" using assms(3) txns_okD(7) [OF ok(2) assms(4)] by (auto simp: si_rel_def)
  then have "read_through (bt_content crc (db_pager d)) (?look k) k = txn_view base h x k" for k
    using visible_state_at [OF assms(3), of "t_snapshot x" k]
    by (simp add: txn_view_def read_through_def split: option.splits)
  then show ?thesis
    using merge_scan_delivers [OF assms(1,2) spec, of "txn_view base h x" f acc] False
    by (simp add: scan_txn_def ov)
qed

lemma scan_range_delivers:
  assumes "bt_at crc (db_pager d) A t" "height t \<le> MAX_DEPTH + 1"
    and "si_rel base h tree_ts (bt_content crc (db_pager d)) (db_versions d)"
  shows "if range_panics lo hi then scan_range crc lo hi f (d, acc) = (Inl Panic, (d, acc))
     else delivers crc lo hi (state_at base h (current_ts (db_versions d))) f d acc (scan_range crc lo hi f (d, acc))"
proof -
  have ok: "bm_ok (vs_chains (db_versions d))" using assms(3) by (simp add: si_rel_def chains_of_def)
  show ?thesis
  proof (cases "range_panics lo hi")
    case True
    then show ?thesis by (simp add: scan_range_def overlay_eq [OF ok])
  next
    case False
    then obtain ov where ov: "overlay (db_versions d) (current_ts (db_versions d)) lo hi = Inr ov"
      by (simp add: overlay_eq [OF ok])
    have "tree_ts \<le> current_ts (db_versions d)" using assms(3) by (auto simp: si_rel_def current_ts_def)
    then have st: "read_through (bt_content crc (db_pager d)) (visible (db_versions d) k (current_ts (db_versions d))) k =
        state_at base h (current_ts (db_versions d)) k" for k
      by (rule visible_state_at [OF assms(3)])
    show ?thesis
      using merge_scan_delivers [OF assms(1,2) overlay_spec [OF ok ov] st, of f acc] False by (simp add: scan_range_def ov)
  qed
qed

definition example_db :: db where
  "example_db =
     \<lparr>db_pager = example_store, db_wal = wal_open [] [], db_versions = snd (txn_begin False (store_new 1 1)),
      db_fill = \<lparr>ff_min_used = 1024, ff_max_used = 3072\<rparr>, db_next_auto_checkpoint = 0, db_checkpoint_bytes = 0, db_sync_on_commit = False,
      db_watchers = registry_new\<rparr>"

lemma example_db_ok:
  "bt_at crc (db_pager example_db) {2..} (Lf 1 [])" "height (Lf 1 []) \<le> MAX_DEPTH + 1"
  "si_rel (\<lambda>_. None) [] 0 (bt_content crc (db_pager example_db)) (db_versions example_db)"
  "txn_get (db_versions example_db) 1 = Inr (transaction_new 1 0 False)"
  using example_bt_at begun_rel by (simp_all add: example_db_def example_content MAX_DEPTH_def)

definition collect :: "(bytes \<times> bytes) list visitor" where
  "collect k v out = (Inr True, out @ [(k, v)])"

theorem scan_txn_delivers_snapshot_witness:
  "delivers (\<lambda>_. 0) (Included [1]) Unbounded (\<lambda>_. None) collect example_db [] (scan_txn (\<lambda>_. 0) 1 (Included [1]) Unbounded collect (example_db, []))"
proof -
  have "txn_view (\<lambda>_. None) [] (transaction_new 1 0 False) = (\<lambda>_. None)"
    by (simp add: txn_view_def transaction_new_def state_at_def fun_eq_iff)
  then show ?thesis
    using scan_txn_delivers_snapshot [OF example_db_ok, of "Included [1]" Unbounded "\<lambda>_. 0" collect "[]"] by simp
qed

text \<open>C32. An automatic scan delivers the newest committed state.\<close>

theorem scan_range_delivers_committed:
  assumes "bt_at crc (db_pager d) A t" "height t \<le> MAX_DEPTH + 1"
    and "si_rel base h tree_ts (bt_content crc (db_pager d)) (db_versions d)"
  shows "if range_panics lo hi then scan_range crc lo hi f (d, acc) = (Inl Panic, (d, acc))
     else delivers crc lo hi (state_at base h (current_ts (db_versions d))) f d acc (scan_range crc lo hi f (d, acc))"
  by (rule scan_range_delivers [OF assms])

theorem scan_range_delivers_committed_witness:
  "delivers (\<lambda>_. 0) Unbounded (Excluded [7]) (\<lambda>_. None) collect example_db []
     (scan_range (\<lambda>_. 0) Unbounded (Excluded [7]) collect (example_db, []))"
  using scan_range_delivers_committed [OF example_db_ok(1-3), of Unbounded "Excluded [7]" "\<lambda>_. 0" collect "[]"]
  by (simp add: state_at_def [abs_def])

section \<open>Prefixes\<close>

lemma byte_max: "\<not> (255 :: u8) < x" "\<not> x < 255 \<longleftrightarrow> x = (255 :: u8)" "unat x < 255 \<longleftrightarrow> x < (255 :: u8)"
proof -
  have "unat x < 256" by (rule unat_u8_less)
  then have "unat x \<le> 255" by simp
  then have le: "x \<le> 255" by (simp add: word_le_nat_alt)
  then show "\<not> (255 :: u8) < x" "\<not> x < 255 \<longleftrightarrow> x = 255" by (auto simp: not_less)
  show "unat x < 255 \<longleftrightarrow> x < 255" by (simp add: word_less_nat_alt)
qed

lemma le_replicate_max:
  "replicate n (255 :: u8) \<le> k \<longleftrightarrow> take n k = replicate n 255"
proof (induction n arbitrary: k)
  case (Suc n)
  show ?case by (cases k) (auto simp: Suc byte_max(1))
qed simp

lemma prefix_successor_rev_cases:
  obtains n where "pre = replicate n 255" "prefix_successor pre = None"
  | a b n where "pre = a @ b # replicate n 255" "b < 255" "prefix_successor pre = Some (a @ [b + 1])"
proof -
  have "(\<exists>n. rev pre = replicate n 255 \<and> prefix_successor_rev (rev pre) = None) \<or>
      (\<exists>a b n. rev pre = replicate n 255 @ b # a \<and> b < 255 \<and> prefix_successor_rev (rev pre) = Some (rev a @ [b + 1]))"
  proof (induction "rev pre" arbitrary: pre)
    case (Cons b bs)
    show ?case
    proof (cases "b < 255")
      case True
      then have "unat b < 255" by (simp add: byte_max(3))
      then show ?thesis using True Cons(2) [symmetric] by (auto intro: exI [of _ 0])
    next
      case False
      then have b: "b = 255" "\<not> unat b < 255" by (simp_all add: byte_max(2,3))
      show ?thesis using Cons(1) [of "rev bs"] Cons(2) [symmetric] b
        by simp (metis append_Cons replicate_Suc)
    qed
  qed simp
  then show ?thesis
  proof (elim disjE exE conjE)
    fix n assume "rev pre = replicate n 255" "prefix_successor_rev (rev pre) = None"
    then show ?thesis using that(1) [of n] by (metis prefix_successor_def rev_replicate rev_swap)
  next
    fix a b n assume "rev pre = replicate n 255 @ b # a" "b < 255" "prefix_successor_rev (rev pre) = Some (rev a @ [b + 1])"
    moreover from this(1) have "pre = rev a @ b # replicate n 255" by (metis append.assoc append_Cons append_Nil rev.simps(2) rev_append rev_replicate rev_rev_ident)
    ultimately show ?thesis using that(2) [of "rev a" b n] by (simp add: prefix_successor_def)
  qed
qed

lemma unatSuc': "b < 255 \<Longrightarrow> unat (b + 1 :: u8) = unat b + 1"
  by (simp add: unat_word_ariths byte_max(3) [symmetric])

definition prefix_lo :: "bytes \<Rightarrow> bytes bound" where
  "prefix_lo pre = (if pre = [] then Unbounded else Included pre)"

definition prefix_hi :: "bytes \<Rightarrow> bytes bound" where
  "prefix_hi pre = (case prefix_successor pre of Some e \<Rightarrow> Excluded e | None \<Rightarrow> Unbounded)"

lemma in_prefix_range: "in_range (prefix_lo pre) (prefix_hi pre) k \<longleftrightarrow> take (length pre) k = pre"
proof (cases rule: prefix_successor_rev_cases [of pre])
  case (1 n)
  then show ?thesis
    by (cases n) (auto simp: in_range_def prefix_lo_def prefix_hi_def le_replicate_max simp del: replicate.simps)
next
  case (2 a b n)
  have "b # replicate n 255 \<le> k' \<and> k' < [b + 1] \<longleftrightarrow> (\<exists>k''. k' = b # k'' \<and> take n k'' = replicate n 255)" for k' :: bytes
  proof (cases k')
    case (Cons c k'')
    have "unat (b + 1) = unat b + 1" by (rule unatSuc' [OF 2(2)])
    then have "b < b + 1" "c < b + 1 \<longleftrightarrow> c \<le> b" by (auto simp: word_less_nat_alt word_le_nat_alt)
    then show ?thesis by (auto simp: Cons le_replicate_max)
  qed simp
  then have "in_range (prefix_lo pre) (prefix_hi pre) k \<longleftrightarrow> (\<exists>k''. k = a @ b # k'' \<and> take n k'' = replicate n 255)"
    using between_append [of a "b # replicate n 255" k "[b + 1]"] 2(1,3)
    by (auto simp: in_range_def prefix_lo_def prefix_hi_def)
  also have "\<dots> \<longleftrightarrow> take (length pre) k = pre"
  proof
    assume "take (length pre) k = pre"
    then have "k = a @ b # (replicate n 255 @ drop (length pre) k)" using 2(1) by (metis append.assoc append_Cons append_take_drop_id)
    then show "\<exists>k''. k = a @ b # k'' \<and> take n k'' = replicate n 255" by (metis append_eq_conv_conj length_replicate)
  qed (auto simp: 2(1))
  finally show ?thesis .
qed

lemma in_range_unbounded [simp]: "in_range Unbounded Unbounded k"
  by (simp add: in_range_def)

lemma prefix_range_in_order: "\<not> range_panics (prefix_lo pre) (prefix_hi pre)"
proof -
  have "in_range (prefix_lo pre) (prefix_hi pre) pre" by (simp add: in_prefix_range)
  then show ?thesis by (auto simp: in_range_def prefix_lo_def prefix_hi_def split: option.splits)
qed

text \<open>C33. A prefix scan delivers exactly the committed entries whose key starts with the prefix, in
  order: the successor bound computed by incrementing the last byte below 255 neither loses nor
  admits a key, and it never gives inverted bounds.\<close>

theorem scan_prefix_delivers:
  assumes "bt_at crc (db_pager d) A t" "height t \<le> MAX_DEPTH + 1"
    and "si_rel base h tree_ts (bt_content crc (db_pager d)) (db_versions d)"
  shows "delivers crc Unbounded Unbounded
     (\<lambda>k. if take (length pre) k = pre then state_at base h (current_ts (db_versions d)) k else None) f d acc
     (scan_prefix crc pre f (d, acc))"
proof -
  have "lists_range (prefix_lo pre) (prefix_hi pre) state es \<longleftrightarrow>
      lists_range Unbounded Unbounded (\<lambda>k. if take (length pre) k = pre then state k else None) es" for state es
    by (simp add: lists_range_def in_prefix_range)
  moreover have "scan_prefix crc pre f = scan_range crc (prefix_lo pre) (prefix_hi pre) f"
    by (simp add: scan_prefix_def prefix_lo_def prefix_hi_def)
  ultimately show ?thesis
    using scan_range_delivers [OF assms, of "prefix_lo pre" "prefix_hi pre" f acc] prefix_range_in_order [of pre]
    by (simp add: delivers_def)
qed

theorem scan_prefix_delivers_witness:
  "delivers (\<lambda>_. 0) Unbounded Unbounded (\<lambda>_. None) collect example_db [] (scan_prefix (\<lambda>_. 0) [255] collect (example_db, []))"
  using scan_prefix_delivers [OF example_db_ok(1-3), of "\<lambda>_. 0" "[255]" collect "[]"]
  by (simp add: state_at_def [abs_def] if_cancel cong del: if_weak_cong)

section \<open>Point reads\<close>

lemma tree_keys_short:
  assumes "bt_at crc p A t" "bm_get (entries t) k \<noteq> None"
  shows "length k \<le> MAX_KEY_SIZE"
proof -
  obtain v where "(k, v) \<in> set (entries t)" using assms(2) by (auto dest: bm_get_set)
  then obtain ls1 l ls2 where l: "leaves t = ls1 @ l # ls2" "(k, v) \<in> set (map entry_kv (snd l))"
    by (auto simp: entries_leaves leaf_entries_def dest!: split_list)
  have "chain_in crc p A (l # ls2)" using chain_in_tail [of crc p A ls1] chain_in_tree [OF assms(1)] l(1) by simp
  then obtain q where "\<forall>e \<in> set (snd l). entry_ok (pview crc p) e" by (rule chain_in_leaf)
  then show ?thesis using l(2) by (auto simp: entry_ok_def entry_kv_def split: prod.splits)
qed

text \<open>C7. A point read of a transaction returns the value the transaction sees and \<open>NotFound\<close> exactly
  when it sees none, from its own writes, the versions in memory or the tree, and changes nothing; a
  key the interface does not admit is refused.\<close>

theorem db_get_reads_snapshot:
  assumes "bt_at crc (db_pager d) A t" "height t \<le> MAX_DEPTH + 1"
    and "si_rel base h tree_ts (bt_content crc (db_pager d)) (db_versions d)"
    and "txn_get (db_versions d) i = Inr x"
  shows "case db_get crc i key d of (r, d') \<Rightarrow>
     d' = d\<lparr>db_pager := db_pager d'\<rparr> \<and>
     (if key = [] \<or> MAX_KEY_LEN < length key then r = Inl InvalidArgument \<and> d' = d
      else (\<exists>e. r = Inl e \<and> fails (db_pager d) e (db_pager d')) \<or>
        (same_view crc (db_pager d) (db_pager d') \<and>
         r = (case txn_view base h x key of Some v \<Rightarrow> Inr v | None \<Rightarrow> Inl NotFound)))"
proof (cases "key = [] \<or> MAX_KEY_LEN < length key")
  case True
  then have "validate_key_len (length key) = Inl InvalidArgument" by (auto simp: validate_key_len_def)
  then show ?thesis using True by (simp add: db_get_def sbind_def)
next
  case False
  then have v: "validate_key_len (length key) = Inr ()" by (simp add: validate_key_len_iff)
  obtain r where r: "txn_read (db_versions d) i key = Inr r"
    "read_through (bt_content crc (db_pager d)) r key = txn_view base h x key"
    using txn_read_state [OF assms(3,4), of key] by (auto simp: txn_view_def)
  have same: "same_view crc (db_pager d) (db_pager d)"
    using assms(1) by (auto simp: bt_at_def tree_at_def intro: same_view_refl heap_okD)
  show ?thesis
  proof (cases r)
    case (Some ov)
    then have "txn_view base h x key = ov" using r(2) by (simp add: read_through_def)
    moreover have "db_get crc i key d = (case ov of Some v \<Rightarrow> sret v | None \<Rightarrow> serr NotFound) d"
      using v r(1) Some by (simp add: db_get_def sbind_def split: option.splits)
    ultimately show ?thesis using False same by (cases ov) simp_all
  next
    case None
    then have tv: "txn_view base h x key = bm_get (entries t) key"
      using r(2) by (simp add: read_through_def bt_content_def bt_map_eq [OF assms(1)])
    have run: "db_get crc i key d = tree_get crc key d" using v r(1) None by (simp add: db_get_def sbind_def)
    show ?thesis
    proof (cases "MAX_KEY_SIZE < length key")
      case True
      then have "bm_get (entries t) key = None" using tree_keys_short [OF assms(1), of key] by (meson not_le)
      then show ?thesis using True False same by (simp add: run tree_get_def tv)
    next
      case short: False
      have "wp (bt_get crc key) (\<lambda>v p'. bm_get (entries t) key = Some v \<and> same_view crc (db_pager d) p')
         (\<lambda>e p'. (e = NotFound \<and> bm_get (entries t) key = None \<and> same_view crc (db_pager d) p')) (db_pager d)"
        using assms(1,2) by (intro bt_get_wp) (auto simp: bt_at_def)
      moreover obtain r p' where "bt_get crc key (db_pager d) = (r, p')" by (cases "bt_get crc key (db_pager d)")
      ultimately show ?thesis using False short
        by (cases r) (auto simp: run tree_get_def on_pager_def tv wp_def)
    qed
  qed
qed

theorem db_get_reads_snapshot_witness:
  "fst (db_get (\<lambda>_. 0) 1 [5] example_db) \<in> {Inl NotFound, Inl Full}"
proof -
  have "txn_view (\<lambda>_. None) [] (transaction_new 1 0 False) [5] = None"
    by (simp add: txn_view_def transaction_new_def state_at_def)
  moreover have "quiet (db_pager example_db)"
    by (simp add: quiet_def example_db_def example_store_def example_pager_def write_page_def Let_def)
  ultimately show ?thesis
    using db_get_reads_snapshot [OF example_db_ok, of "[5]" "\<lambda>_. 0"]
    by (auto simp: MAX_KEY_LEN_def fails_def split: prod.splits)
qed

end
