(* ===== verification/Bloom.thy ===== *)
theory Bloom
  imports Errors
begin

text \<open>
  The Bloom filter of \<open>lsm/bloom.rs\<close>, hash functions included: FNV-1a and SplitMix64 on 64-bit
  words, double hashing, the bit array packed into words, and the encoding stored in a table.
\<close>

unbundle bit_operations_syntax

type_synonym u64 = "64 word"

definition DEFAULT_BITS_PER_KEY :: nat where
  "DEFAULT_BITS_PER_KEY = 10"

definition BLOOM_HEADER_LEN :: nat where
  "BLOOM_HEADER_LEN = 12"

definition MAX_BITS :: nat where
  "MAX_BITS = 2 ^ 30"

record bloom_filter =
  bf_words :: "u64 list"
  bf_num_bits :: nat
  bf_num_hashes :: nat

section \<open>Hashing\<close>

definition splitmix64 :: "u64 \<Rightarrow> u64" where
  "splitmix64 z0 =
     (let z = z0 + 0x9E3779B97F4A7C15;
          z = (z XOR drop_bit 30 z) * 0xBF58476D1CE4E5B9;
          z = (z XOR drop_bit 27 z) * 0x94D049BB133111EB
      in z XOR drop_bit 31 z)"

definition FNV_OFFSET :: u64 where
  "FNV_OFFSET = 0xcbf29ce484222325"

definition FNV_PRIME :: u64 where
  "FNV_PRIME = 0x00000100000001b3"

definition hash_step :: "u8 \<Rightarrow> u64 \<times> u64 \<Rightarrow> u64 \<times> u64" where
  "hash_step b = (\<lambda>(x, y). ((x XOR ucast b) * FNV_PRIME, (word_rotl 7 y XOR ucast b) * FNV_PRIME))"

definition hash_pair :: "bytes \<Rightarrow> u64 \<times> u64" where
  "hash_pair key =
     (case fold hash_step key (FNV_OFFSET, FNV_OFFSET XOR 0x9e3779b97f4a7c15) of
        (a, b) \<Rightarrow> (splitmix64 a, splitmix64 b OR 1))"

section \<open>The filter\<close>

text \<open>
  \<open>(bits_per_key as f64 * LN_2).round()\<close> for at most 64 bits per key: \<open>LN_2\<close> is the double
  \<open>6243314768165359 / 2 ^ 53\<close>, and no product with an integer up to 64 comes within the rounding
  error of the multiplication of a half.
\<close>

definition optimal_hashes :: "nat \<Rightarrow> nat" where
  "optimal_hashes bits_per_key =
     (let k = (2 * bits_per_key * 6243314768165359 + 2 ^ 53) div 2 ^ 54 in max 1 (min 30 k))"

definition next_multiple_of :: "nat \<Rightarrow> nat \<Rightarrow> nat" where
  "next_multiple_of n m = (if n mod m = 0 then n else n + (m - n mod m))"

definition bloom_with_capacity :: "nat \<Rightarrow> nat \<Rightarrow> bloom_filter" where
  "bloom_with_capacity expected_keys bits_per_key =
     (let bpk = max 1 (min 64 bits_per_key);
          n = max 1 expected_keys;
          num_bits = next_multiple_of (max 64 (min MAX_BITS (min (n * bpk) (2 ^ 64 - 1)))) 64
      in \<lparr>bf_words = replicate (num_bits div 64) 0, bf_num_bits = num_bits,
          bf_num_hashes = optimal_hashes bpk\<rparr>)"

text \<open>The position of a probe; the remainder by zero panics.\<close>

definition probe :: "bloom_filter \<Rightarrow> u64 \<times> u64 \<Rightarrow> nat \<Rightarrow> nat res" where
  "probe f h i =
     (if bf_num_bits f = 0 then Inl Panic
      else Inr (unat (fst h + of_nat i * snd h) mod bf_num_bits f))"

definition set_probe :: "u64 \<times> u64 \<Rightarrow> nat \<Rightarrow> bloom_filter \<Rightarrow> bloom_filter res" where
  "set_probe h i f =
     rbind (probe f h i) (\<lambda>bit.
       if bit div 64 < length (bf_words f)
       then Inr (f\<lparr>bf_words := (bf_words f)[bit div 64 := (bf_words f ! (bit div 64)) OR push_bit (bit mod 64) 1]\<rparr>)
       else Inl Panic)"

fun rfold :: "('a \<Rightarrow> 's \<Rightarrow> 's res) \<Rightarrow> 'a list \<Rightarrow> 's \<Rightarrow> 's res" where
  "rfold f [] s = Inr s"
| "rfold f (x # xs) s = rbind (f x s) (rfold f xs)"

definition bloom_insert :: "bytes \<Rightarrow> bloom_filter \<Rightarrow> bloom_filter res" where
  "bloom_insert key f = rfold (set_probe (hash_pair key)) [0..<bf_num_hashes f] f"

fun contains_loop :: "bloom_filter \<Rightarrow> u64 \<times> u64 \<Rightarrow> nat list \<Rightarrow> bool res" where
  "contains_loop f h [] = Inr True"
| "contains_loop f h (i # is) =
     rbind (probe f h i) (\<lambda>bit.
       if bit div 64 < length (bf_words f)
       then (if (bf_words f ! (bit div 64)) AND push_bit (bit mod 64) 1 = 0 then Inr False
             else contains_loop f h is)
       else Inl Panic)"

definition bloom_contains :: "bloom_filter \<Rightarrow> bytes \<Rightarrow> bool res" where
  "bloom_contains f key = contains_loop f (hash_pair key) [0..<bf_num_hashes f]"

definition bloom_size_bytes :: "bloom_filter \<Rightarrow> nat" where
  "bloom_size_bytes f = length (bf_words f) * 8"

section \<open>Encoding\<close>

definition bloom_encode :: "bloom_filter \<Rightarrow> bytes" where
  "bloom_encode f =
     to_le 8 (bf_num_bits f) @ to_le 4 (bf_num_hashes f) @ concat (map (\<lambda>w. to_le 8 (unat w)) (bf_words f))"

definition bloom_decode :: "bytes \<Rightarrow> bloom_filter res" where
  "bloom_decode bs =
     (if length bs < BLOOM_HEADER_LEN then Inl Corruption
      else
        let num_bits = read_le bs 0 8;
            num_hashes = read_le bs 8 4
        in
        if num_bits = 0 \<or> num_bits > MAX_BITS \<or> num_bits mod 64 \<noteq> 0 then Inl Corruption
        else if num_hashes = 0 \<or> num_hashes > 30 then Inl Corruption
        else
          let word_count = num_bits div 64;
              expected = BLOOM_HEADER_LEN + word_count * 8
          in
          if length bs \<noteq> expected then Inl Corruption
          else Inr \<lparr>bf_words = map (\<lambda>i. of_nat (read_le bs (BLOOM_HEADER_LEN + i * 8) 8)) [0..<word_count],
                    bf_num_bits = num_bits, bf_num_hashes = num_hashes\<rparr>)"

section \<open>No false negatives\<close>

definition bloom_ok :: "bloom_filter \<Rightarrow> bool" where
  "bloom_ok f \<longleftrightarrow>
     0 < bf_num_bits f \<and> bf_num_bits f \<le> MAX_BITS \<and> bf_num_bits f = 64 * length (bf_words f) \<and>
     0 < bf_num_hashes f \<and> bf_num_hashes f \<le> 30"

text \<open>The bits of the array, as one long row.\<close>

definition bit_set :: "bloom_filter \<Rightarrow> nat \<Rightarrow> bool" where
  "bit_set f n \<longleftrightarrow> bit (bf_words f ! (n div 64)) (n mod 64)"

definition probe_at :: "bloom_filter \<Rightarrow> bytes \<Rightarrow> nat \<Rightarrow> nat" where
  "probe_at f key i = unat (fst (hash_pair key) + of_nat i * snd (hash_pair key)) mod bf_num_bits f"

lemma bloom_okD:
  assumes "bloom_ok f"
  shows "bf_num_bits f \<noteq> 0" "n mod bf_num_bits f div 64 < length (bf_words f)"
proof -
  show nz: "bf_num_bits f \<noteq> 0" using assms unfolding bloom_ok_def by linarith
  then have "n mod bf_num_bits f < bf_num_bits f" by simp
  then show "n mod bf_num_bits f div 64 < length (bf_words f)"
    using assms unfolding bloom_ok_def by (metis less_mult_imp_div_less mult.commute)
qed

lemma AND_push_bit_zero: "(w AND push_bit n 1 = (0 :: u64)) \<longleftrightarrow> \<not> bit w n" if "n < 64"
proof -
  have "w AND push_bit n 1 = (if bit w n then push_bit n 1 else 0)"
    by (rule bit_eqI) (auto simp: bit_simps)
  moreover have "bit (push_bit n (1 :: u64)) n" using that by (simp add: bit_simps)
  then have "push_bit n (1 :: u64) \<noteq> 0" by (metis bit_0_eq bot_apply bot_bool_def)
  ultimately show ?thesis by simp
qed


lemma contains_loop_spec:
  assumes "bloom_ok f"
  shows "contains_loop f (hash_pair key) is = Inr (\<forall>i \<in> set is. bit_set f (probe_at f key i))"
proof (induction "is")
  case (Cons i "is")
  have p: "probe f (hash_pair key) i = Inr (probe_at f key i)"
    using bloom_okD(1) [OF assms] by (simp add: probe_def probe_at_def)
  have r: "probe_at f key i div 64 < length (bf_words f)" unfolding probe_at_def by (rule bloom_okD(2) [OF assms])
  have b: "(bf_words f ! (probe_at f key i div 64) AND push_bit (probe_at f key i mod 64) 1 = 0) \<longleftrightarrow> \<not> bit_set f (probe_at f key i)"
    unfolding bit_set_def by (rule AND_push_bit_zero) simp
  show ?case using r Cons by (simp only: contains_loop.simps p rbind_simps b if_True) auto
qed simp

lemma bloom_contains_spec:
  "bloom_ok f \<Longrightarrow> bloom_contains f key = Inr (\<forall>i < bf_num_hashes f. bit_set f (probe_at f key i))"
  by (auto simp: bloom_contains_def contains_loop_spec)

text \<open>Setting probes keeps the layout, loses no bit, and sets the bits it is asked to.\<close>

definition grown :: "bloom_filter \<Rightarrow> bloom_filter \<Rightarrow> bool" where
  "grown f f' \<longleftrightarrow>
     bloom_ok f' \<and> bf_num_bits f' = bf_num_bits f \<and> bf_num_hashes f' = bf_num_hashes f \<and>
     (\<forall>n < bf_num_bits f. bit_set f n \<longrightarrow> bit_set f' n)"

lemma grown_refl: "bloom_ok f \<Longrightarrow> grown f f"
  by (simp add: grown_def)

lemma grown_trans: "grown f f' \<Longrightarrow> grown f' f'' \<Longrightarrow> grown f f''"
  by (simp add: grown_def)

lemma set_probe_grown:
  assumes "bloom_ok f"
  obtains f' where "set_probe (hash_pair key) i f = Inr f'" "grown f f'" "bit_set f' (probe_at f key i)"
proof -
  let ?n = "probe_at f key i"
  let ?f' = "f\<lparr>bf_words := (bf_words f)[?n div 64 := (bf_words f ! (?n div 64)) OR push_bit (?n mod 64) 1]\<rparr>"
  have in_range: "?n div 64 < length (bf_words f)" unfolding probe_at_def by (rule bloom_okD(2) [OF assms])
  have "set_probe (hash_pair key) i f = Inr ?f'"
    using in_range bloom_okD(1) [OF assms] by (simp add: set_probe_def probe_def probe_at_def)
  moreover have "bit_set ?f' ?n" using in_range by (simp add: bit_set_def bit_simps)
  moreover have "grown f ?f'"
    using assms in_range by (auto simp: grown_def bloom_ok_def bit_set_def nth_list_update bit_simps)
  ultimately show ?thesis using that by blast
qed

lemma rfold_probes:
  assumes "bloom_ok f"
  shows "\<exists>f'. rfold (set_probe (hash_pair key)) is f = Inr f' \<and> grown f f' \<and> (\<forall>i \<in> set is. bit_set f' (probe_at f key i))"
  using assms
proof (induction "is" arbitrary: f)
  case Nil
  then show ?case by (simp add: grown_refl)
next
  case (Cons i "is")
  obtain f1 where f1: "set_probe (hash_pair key) i f = Inr f1" "grown f f1" "bit_set f1 (probe_at f key i)"
    by (rule set_probe_grown [OF Cons.prems])
  have ok1: "bloom_ok f1" and same: "probe_at f1 key = probe_at f key" using f1(2) by (auto simp: grown_def probe_at_def fun_eq_iff)
  obtain f' where f': "rfold (set_probe (hash_pair key)) is f1 = Inr f'" "grown f1 f'" "\<forall>i \<in> set is. bit_set f' (probe_at f1 key i)"
    using Cons.IH [OF ok1] by blast
  have "probe_at f key i < bf_num_bits f" using bloom_okD(1) [OF Cons.prems] by (simp add: probe_at_def)
  then have "bit_set f' (probe_at f key i)" using f1(2,3) f'(2) by (simp add: grown_def)
  then show ?case using f1 f' same grown_trans [OF f1(2) f'(2)] by auto
qed

lemma bloom_insert_spec:
  assumes "bloom_ok f"
  shows "\<exists>f'. bloom_insert key f = Inr f' \<and> grown f f' \<and> bloom_contains f' key = Inr True"
proof -
  obtain f' where f': "bloom_insert key f = Inr f'" "grown f f'" "\<forall>i < bf_num_hashes f. bit_set f' (probe_at f key i)"
    using rfold_probes [OF assms, of key "[0..<bf_num_hashes f]"] by (auto simp: bloom_insert_def)
  then have "bloom_contains f' key = Inr True"
    by (subst bloom_contains_spec) (auto simp: grown_def probe_at_def)
  then show ?thesis using f' by blast
qed

lemma grown_contains:
  assumes "bloom_ok f" "grown f f'" "bloom_contains f key = Inr True"
  shows "bloom_contains f' key = Inr True"
proof -
  have "probe_at f key i < bf_num_bits f" for i using bloom_okD(1) [OF assms(1)] by (simp add: probe_at_def)
  then show ?thesis
    using assms by (auto simp: bloom_contains_spec grown_def probe_at_def)
qed

lemma rfold_inserts:
  assumes "bloom_ok f"
  shows "\<exists>f'. rfold bloom_insert keys f = Inr f' \<and> grown f f' \<and> (\<forall>k \<in> set keys. bloom_contains f' k = Inr True)"
  using assms
proof (induction keys arbitrary: f)
  case Nil
  then show ?case by (simp add: grown_refl)
next
  case (Cons k keys)
  obtain f1 where f1: "bloom_insert k f = Inr f1" "grown f f1" "bloom_contains f1 k = Inr True"
    using bloom_insert_spec [OF Cons.prems] by blast
  then have ok1: "bloom_ok f1" by (simp add: grown_def)
  obtain f' where f': "rfold bloom_insert keys f1 = Inr f'" "grown f1 f'" "\<forall>k \<in> set keys. bloom_contains f' k = Inr True"
    using Cons.IH [OF ok1] by blast
  then show ?case using f1 grown_trans [OF f1(2)] grown_contains [OF ok1 f'(2) f1(3)] by auto
qed

lemma next_multiple_of_eq: "next_multiple_of n 64 = (if n mod 64 = 0 then n else 64 * (n div 64 + 1))"
proof -
  obtain q r where n: "n = 64 * q + r" "r < 64" by (metis mod_less_divisor mult_div_mod_eq zero_less_numeral)
  then have "n div 64 = q" "n mod 64 = r" by simp_all
  then have "n + (64 - n mod 64) = 64 * (n div 64 + 1)" using n by simp
  then show ?thesis by (simp add: next_multiple_of_def)
qed

lemma bloom_with_capacity_ok: "bloom_ok (bloom_with_capacity n b)"
proof -
  define m where "m = max 64 (min MAX_BITS (min (max 1 n * max 1 (min 64 b)) (2 ^ 64 - 1)))"
  have m: "64 \<le> m" "m \<le> 64 * 2 ^ 24" by (simp_all add: m_def MAX_BITS_def)
  let ?k = "next_multiple_of m 64"
  obtain q where q: "?k = 64 * q" "0 < q" "q \<le> 2 ^ 24"
  proof (cases "m mod 64 = 0")
    case True
    then obtain q where "m = 64 * q" by auto
    then show ?thesis using that [of q] m by (simp add: next_multiple_of_eq)
  next
    case False
    then have "m \<noteq> 64 * 2 ^ 24" by (metis mod_mult_self1_is_0)
    then have "m div 64 < 2 ^ 24" using m(2) by (intro less_mult_imp_div_less) simp
    then show ?thesis using that [of "m div 64 + 1"] False by (simp add: next_multiple_of_eq)
  qed
  have "0 < optimal_hashes k" "optimal_hashes k \<le> 30" for k by (simp_all add: optimal_hashes_def Let_def)
  moreover have "64 * q \<le> MAX_BITS" using q(3) by (simp add: MAX_BITS_def)
  moreover have "bloom_with_capacity n b =
      \<lparr>bf_words = replicate q 0, bf_num_bits = 64 * q, bf_num_hashes = optimal_hashes (max 1 (min 64 b))\<rparr>"
    using q(1) by (simp only: bloom_with_capacity_def Let_def m_def [symmetric]) simp
  ultimately show ?thesis using q(2) by (simp add: bloom_ok_def)
qed

section \<open>The encoding\<close>

lemma length_concat_words: "length (concat (map (\<lambda>w. to_le 8 (unat w)) ws)) = length ws * 8"
  by (induction ws) simp_all

lemma bslice_concat_words:
  "i < length ws \<Longrightarrow> bslice (concat (map (\<lambda>w. to_le 8 (unat w)) ws)) (i * 8) 8 = to_le 8 (unat (ws ! i))"
proof (induction ws arbitrary: i)
  case (Cons w ws)
  then show ?case
    by (cases i) (simp_all add: bslice_append_left bslice_append_right bslice_def)
qed simp

lemma bloom_decode_encode:
  assumes "bloom_ok f"
  shows "bloom_decode (bloom_encode f) = Inr f"
proof -
  let ?ws = "bf_words f" and ?bs = "bloom_encode f"
  let ?body = "concat (map (\<lambda>w. to_le 8 (unat w)) ?ws)"
  have D: "0 < bf_num_bits f" "bf_num_bits f \<le> MAX_BITS" "bf_num_bits f = 64 * length ?ws" "0 < bf_num_hashes f" "bf_num_hashes f \<le> 30"
    using assms unfolding bloom_ok_def by auto
  have len: "length ?bs = 12 + length ?ws * 8" by (simp add: bloom_encode_def length_concat_words)
  have "read_le ?bs 0 8 = bf_num_bits f" "read_le ?bs 8 4 = bf_num_hashes f"
    using D by (simp_all add: read_le_def bloom_encode_def bslice_append_left bslice_append_right le_simps MAX_BITS_def bslice_def)
  moreover have "of_nat (read_le ?bs (BLOOM_HEADER_LEN + i * 8) 8) = ?ws ! i" if "i < length ?ws" for i
  proof -
    have "bslice ?bs (BLOOM_HEADER_LEN + i * 8) 8 = bslice ?body (i * 8) 8"
      by (simp add: bloom_encode_def BLOOM_HEADER_LEN_def bslice_append_right)
    moreover have "unat (?ws ! i) < 256 ^ 8" using unsigned_less [of "?ws ! i"] by simp
    ultimately show ?thesis using that by (simp add: read_le_def bslice_concat_words le_simps)
  qed
  then have "map (\<lambda>i. of_nat (read_le ?bs (BLOOM_HEADER_LEN + i * 8) 8)) [0..<length ?ws] = ?ws"
    by (intro nth_equalityI) simp_all
  ultimately show ?thesis using D len by (simp add: bloom_decode_def BLOOM_HEADER_LEN_def Let_def)
qed

lemma concat_slices: "length bs = n * 8 \<Longrightarrow> concat (map (\<lambda>i. bslice bs (i * 8) 8) [0..<n]) = (bs :: bytes)"
proof (induction n arbitrary: bs)
  case (Suc n)
  have split: "bs = take 8 bs @ drop 8 bs" by simp
  have "bslice bs (Suc i * 8) 8 = bslice (drop 8 bs) (i * 8) 8" for i by (simp add: bslice_def add.commute)
  then have "map (\<lambda>i. bslice bs (i * 8) 8) [0..<Suc n] = take 8 bs # map (\<lambda>i. bslice (drop 8 bs) (i * 8) 8) [0..<n]"
    by (simp only: upt_conv_Cons zero_less_Suc map_Suc_upt [symmetric] list.map map_map comp_def) (simp add: bslice_def)
  then show ?case using Suc.IH [of "drop 8 bs"] Suc.prems split by (simp del: upt_Suc)
qed simp

lemma bloom_decode_sound:
  assumes "bloom_decode bs = Inr f"
  shows "bloom_ok f" "bloom_encode f = bs"
proof -
  let ?n = "read_le bs 0 8 div 64"
  have c: "12 \<le> length bs" "0 < read_le bs 0 8" "read_le bs 0 8 \<le> MAX_BITS" "read_le bs 0 8 mod 64 = 0"
      "0 < read_le bs 8 4" "read_le bs 8 4 \<le> 30" "length bs = 12 + ?n * 8"
    and f: "f = \<lparr>bf_words = map (\<lambda>i. of_nat (read_le bs (12 + i * 8) 8)) [0..<?n],
      bf_num_bits = read_le bs 0 8, bf_num_hashes = read_le bs 8 4\<rparr>"
    using assms by (auto simp: bloom_decode_def BLOOM_HEADER_LEN_def Let_def split: if_splits)
  show "bloom_ok f" using c by (auto simp: f bloom_ok_def)
  have le: "to_le w (read_le bs off w) = bslice bs off w" if "off + w \<le> length bs" for off w
    using to_le_from_le [of "bslice bs off w"] that by (simp add: read_le_def length_bslice)
  have word: "to_le 8 (unat (of_nat (read_le bs (12 + i * 8) 8) :: u64)) = bslice (drop 12 bs) (i * 8) 8" if "i < ?n" for i
  proof -
    have "read_le bs (12 + i * 8) 8 < 2 ^ 64" using read_le_bound [of bs "12 + i * 8" 8] by simp
    then have "unat (of_nat (read_le bs (12 + i * 8) 8) :: u64) = read_le bs (12 + i * 8) 8" by (simp add: unsigned_of_nat take_bit_nat_eq_self)
    moreover have "12 + i * 8 + 8 \<le> length bs" using that c(7) by linarith
    ultimately show ?thesis using le [of "12 + i * 8" 8] by (simp add: bslice_def add.commute)
  qed
  have "concat (map (\<lambda>i. bslice (drop 12 bs) (i * 8) 8) [0..<?n]) = drop 12 bs"
    by (rule concat_slices) (use c(7) in simp)
  moreover have "concat (map (\<lambda>w. to_le 8 (unat w)) (bf_words f)) = concat (map (\<lambda>i. bslice (drop 12 bs) (i * 8) 8) [0..<?n])"
    unfolding f by (simp only: bloom_filter.select_convs map_map comp_def)
      (intro arg_cong [where f = concat] map_cong refl word, simp)
  moreover have "to_le 8 (bf_num_bits f) @ to_le 4 (bf_num_hashes f) = take 12 bs"
    using c(1) le [of 0 8] le [of 8 4] by (simp add: f bslice_def take_add [symmetric])
  ultimately show "bloom_encode f = bs" unfolding bloom_encode_def by (metis append.assoc append_take_drop_id)
qed

text \<open>C15. The filter of a table, end to end. Bytes that decode are the encoding of a well-formed
  filter, on which neither insertion nor lookup can panic; after any insertions every inserted key,
  and every key it held before, is still reported present: a negative answer is never wrong.\<close>

theorem decoded_filter_sound:
  assumes "bloom_decode bs = Inr f"
  shows "bloom_ok f \<and> bloom_encode f = bs \<and> (\<forall>key. \<exists>b. bloom_contains f key = Inr b) \<and>
     (\<forall>keys. \<exists>f'. rfold bloom_insert keys f = Inr f' \<and> bloom_ok f' \<and> bloom_decode (bloom_encode f') = Inr f' \<and>
        (\<forall>key. key \<in> set keys \<or> bloom_contains f key = Inr True \<longrightarrow> bloom_contains f' key = Inr True))"
proof (intro conjI allI)
  note ok = bloom_decode_sound [OF assms]
  show "bloom_ok f" "bloom_encode f = bs" by (fact ok)+
  show "\<exists>b. bloom_contains f key = Inr b" for key using bloom_contains_spec [OF ok(1)] by blast
  fix keys
  obtain f' where f': "rfold bloom_insert keys f = Inr f'" "grown f f'" "\<forall>k \<in> set keys. bloom_contains f' k = Inr True"
    using rfold_inserts [OF ok(1)] by blast
  then have "bloom_ok f'" by (simp add: grown_def)
  then show "\<exists>f'. rfold bloom_insert keys f = Inr f' \<and> bloom_ok f' \<and> bloom_decode (bloom_encode f') = Inr f' \<and>
        (\<forall>key. key \<in> set keys \<or> bloom_contains f key = Inr True \<longrightarrow> bloom_contains f' key = Inr True)"
    using f' bloom_decode_encode grown_contains [OF ok(1) f'(2)] by blast
qed

theorem decoded_filter_sound_witness:
  "\<exists>f'. rfold bloom_insert [[1, 2], [3]] (bloom_with_capacity 2 10) = Inr f' \<and> bloom_contains f' [3] = Inr True"
  using decoded_filter_sound [OF bloom_decode_encode [OF bloom_with_capacity_ok [of 2 10]]]
  by (metis list.set_intros(1) list.set_intros(2))

end
