(* ===== verification/Memtable.thy ===== *)
theory Memtable
  imports OrdMap
begin

text \<open>
  The write buffer of the LSM engine (\<open>lsm/memtable.rs\<close>): versioned keys ordered by user key
  ascending and sequence number descending, the table over them, and its lookups. The second half
  states what a run of versioned entries means, for tables in memory and on disk alike: the
  newest version of a key at or below a snapshot.
\<close>

section \<open>Versioned keys\<close>

datatype internal_key = IKey (user_key: bytes) (seqno: nat)

instantiation internal_key :: linorder
begin

definition less_internal_key :: "internal_key \<Rightarrow> internal_key \<Rightarrow> bool" where
  "less_internal_key a b \<longleftrightarrow> user_key a < user_key b \<or> (user_key a = user_key b \<and> seqno b < seqno a)"

definition less_eq_internal_key :: "internal_key \<Rightarrow> internal_key \<Rightarrow> bool" where
  "less_eq_internal_key a b \<longleftrightarrow> a = b \<or> (a :: internal_key) < b"

instance
proof
  fix x y z :: internal_key
  show "(x < y) = (x \<le> y \<and> \<not> y \<le> x)" by (auto simp: less_internal_key_def less_eq_internal_key_def)
  show "x \<le> x" by (simp add: less_eq_internal_key_def)
  show "x \<le> y \<Longrightarrow> y \<le> z \<Longrightarrow> x \<le> z" by (auto simp: less_internal_key_def less_eq_internal_key_def)
  show "x \<le> y \<Longrightarrow> y \<le> x \<Longrightarrow> x = y" by (auto simp: less_internal_key_def less_eq_internal_key_def)
  show "x \<le> y \<or> y \<le> x"
    by (cases x; cases y) (auto simp: less_internal_key_def less_eq_internal_key_def)
qed

end

definition U64_MAX :: nat where
  "U64_MAX = 2 ^ 64 - 1"

definition seek_max :: "bytes \<Rightarrow> internal_key" where
  "seek_max k = IKey k U64_MAX"

type_synonym value_slot = "bytes option"
type_synonym lsm_entry = "internal_key \<times> value_slot"

datatype lookup = LFound bytes | LDeleted | LAbsent

definition answer :: "value_slot \<Rightarrow> lookup" where
  "answer slot = (case slot of Some v \<Rightarrow> LFound v | None \<Rightarrow> LDeleted)"

section \<open>The table\<close>

definition ENTRY_OVERHEAD :: nat where
  "ENTRY_OVERHEAD = 64"

record memtable =
  mt_map :: "(internal_key, value_slot) bmap"
  mt_size_bytes :: nat
  mt_min_seqno :: nat
  mt_max_seqno :: nat

definition memtable_new :: memtable where
  "memtable_new = \<lparr>mt_map = [], mt_size_bytes = 0, mt_min_seqno = U64_MAX, mt_max_seqno = 0\<rparr>"

text \<open>The derived \<open>Default\<close>, which \<open>mem::take\<close> leaves behind.\<close>

definition memtable_default :: memtable where
  "memtable_default = \<lparr>mt_map = [], mt_size_bytes = 0, mt_min_seqno = 0, mt_max_seqno = 0\<rparr>"

definition mt_len :: "memtable \<Rightarrow> nat" where
  "mt_len t = length (mt_map t)"

definition mt_is_empty :: "memtable \<Rightarrow> bool" where
  "mt_is_empty t \<longleftrightarrow> mt_map t = []"

definition min_seqno :: "memtable \<Rightarrow> nat option" where
  "min_seqno t = (if mt_map t \<noteq> [] then Some (mt_min_seqno t) else None)"

definition max_seqno :: "memtable \<Rightarrow> nat option" where
  "max_seqno t = (if mt_map t \<noteq> [] then Some (mt_max_seqno t) else None)"

definition entry_charge :: "bytes \<Rightarrow> value_slot \<Rightarrow> nat" where
  "entry_charge key slot = length key + (case slot of None \<Rightarrow> 0 | Some v \<Rightarrow> length v) + ENTRY_OVERHEAD"

definition put_slot :: "bytes \<Rightarrow> value_slot \<Rightarrow> nat \<Rightarrow> memtable \<Rightarrow> memtable" where
  "put_slot key slot sq t =
     (let charge = entry_charge key slot;
          ik = IKey key sq;
          previous = bm_get (mt_map t) ik;
          t = t\<lparr>mt_map := bm_put ik slot (mt_map t)\<rparr>;
          t = (case previous of
                 Some prev \<Rightarrow> t\<lparr>mt_size_bytes := mt_size_bytes t - entry_charge key prev\<rparr>
               | None \<Rightarrow> t)
      in t\<lparr>mt_size_bytes := mt_size_bytes t + charge, mt_min_seqno := min (mt_min_seqno t) sq,
           mt_max_seqno := max (mt_max_seqno t) sq\<rparr>)"

definition mt_insert :: "bytes \<Rightarrow> bytes \<Rightarrow> nat \<Rightarrow> memtable \<Rightarrow> memtable" where
  "mt_insert key val sq = put_slot key (Some val) sq"

definition mt_delete :: "bytes \<Rightarrow> nat \<Rightarrow> memtable \<Rightarrow> memtable" where
  "mt_delete key sq = put_slot key None sq"

text \<open>The loop over a range of entries: stop when the key's run is left.\<close>

fun first_visible :: "bytes \<Rightarrow> nat \<Rightarrow> lsm_entry list \<Rightarrow> lookup" where
  "first_visible key snapshot [] = LAbsent"
| "first_visible key snapshot ((ik, slot) # es) =
     (if user_key ik \<noteq> key then LAbsent
      else if seqno ik \<le> snapshot then answer slot
      else first_visible key snapshot es)"

definition mt_get :: "memtable \<Rightarrow> bytes \<Rightarrow> nat \<Rightarrow> lookup" where
  "mt_get t key snapshot =
     first_visible key snapshot
       (filter (\<lambda>e. seek_max key \<le> fst e \<and> fst e < seek_max (key @ [0])) (mt_map t))"

fun view_loop :: "nat \<Rightarrow> bytes option \<Rightarrow> lsm_entry list \<Rightarrow> (bytes \<times> value_slot) list" where
  "view_loop snapshot current [] = []"
| "view_loop snapshot current ((ik, slot) # es) =
     (if seqno ik > snapshot then view_loop snapshot current es
      else if current = Some (user_key ik) then view_loop snapshot current es
      else (user_key ik, slot) # view_loop snapshot (Some (user_key ik)) es)"

definition snapshot_view :: "memtable \<Rightarrow> nat \<Rightarrow> (bytes \<times> value_slot) list" where
  "snapshot_view t snapshot = view_loop snapshot None (mt_map t)"

definition mt_key_range :: "memtable \<Rightarrow> (bytes \<times> bytes) option" where
  "mt_key_range t =
     (if mt_map t = [] then None
      else Some (user_key (fst (hd (mt_map t))), user_key (fst (last (mt_map t)))))"

fun distinct_loop :: "bytes option \<Rightarrow> internal_key list \<Rightarrow> nat" where
  "distinct_loop current [] = 0"
| "distinct_loop current (ik # iks) =
     (if current \<noteq> Some (user_key ik) then Suc (distinct_loop (Some (user_key ik)) iks)
      else distinct_loop current iks)"

definition distinct_key_count :: "memtable \<Rightarrow> nat" where
  "distinct_key_count t = distinct_loop None (map fst (mt_map t))"

definition mt_drain :: "memtable \<Rightarrow> lsm_entry list \<times> memtable" where
  "mt_drain t =
     (mt_map t, \<lparr>mt_map = [], mt_size_bytes = 0, mt_min_seqno = U64_MAX, mt_max_seqno = 0\<rparr>)"

section \<open>What a run of versions means\<close>

text \<open>
  The specification: the entry with the highest sequence number at or below the snapshot among
  those of the key, in a set of versions.
\<close>

definition seen :: "lsm_entry set \<Rightarrow> bytes \<Rightarrow> nat \<Rightarrow> (nat \<times> value_slot) set" where
  "seen E key snapshot = {(sq, slot). (IKey key sq, slot) \<in> E \<and> sq \<le> snapshot}"

definition newest :: "lsm_entry set \<Rightarrow> bytes \<Rightarrow> nat \<Rightarrow> lookup \<Rightarrow> bool" where
  "newest E key snapshot r \<longleftrightarrow>
     (if seen E key snapshot = {} then r = LAbsent
      else \<exists>(sq, slot) \<in> seen E key snapshot. r = answer slot \<and> (\<forall>(sq', slot') \<in> seen E key snapshot. sq' \<le> sq))"

text \<open>Executable on a sorted run: the first entry of the key that the snapshot sees.\<close>

definition run_get :: "lsm_entry list \<Rightarrow> bytes \<Rightarrow> nat \<Rightarrow> lookup" where
  "run_get es key snapshot =
     (case List.find (\<lambda>e. user_key (fst e) = key \<and> seqno (fst e) \<le> snapshot) es of
        Some e \<Rightarrow> answer (snd e)
      | None \<Rightarrow> LAbsent)"

lemma newest_unique:
  assumes "newest E key snapshot r" "newest E key snapshot r'"
    and "\<And>ik a b. (ik, a) \<in> E \<Longrightarrow> (ik, b) \<in> E \<Longrightarrow> a = b"
  shows "r = r'"
proof (cases "seen E key snapshot = {}")
  case False
  obtain sq slot where a: "(sq, slot) \<in> seen E key snapshot" "r = answer slot" "\<forall>(x, y) \<in> seen E key snapshot. x \<le> sq"
    using assms(1) unfolding newest_def if_not_P [OF False] by auto
  obtain sq' slot' where b: "(sq', slot') \<in> seen E key snapshot" "r' = answer slot'" "\<forall>(x, y) \<in> seen E key snapshot. x \<le> sq'"
    using assms(2) unfolding newest_def if_not_P [OF False] by auto
  have "sq = sq'" using a(1,3) b(1,3) by (metis (mono_tags, lifting) case_prodD le_antisym)
  then show ?thesis using a b assms(3) by (auto simp: seen_def)
qed (use assms in \<open>simp add: newest_def\<close>)

lemma run_get_simps [simp]:
  "run_get [] key snapshot = LAbsent"
  "run_get ((ik, slot) # es) key snapshot =
     (if user_key ik = key \<and> seqno ik \<le> snapshot then answer slot else run_get es key snapshot)"
  by (simp_all add: run_get_def)

lemma answer_not_absent [simp]: "answer slot \<noteq> LAbsent" "LAbsent \<noteq> answer slot"
  by (simp_all add: answer_def split: option.splits)

lemma run_get_append:
  "run_get (es @ es') key snapshot =
     (case run_get es key snapshot of LAbsent \<Rightarrow> run_get es' key snapshot | r \<Rightarrow> r)"
proof (induction es)
  case (Cons e es)
  obtain ik slot where e: "e = (ik, slot)" by (cases e)
  show ?case
  proof (cases "user_key ik = key \<and> seqno ik \<le> snapshot")
    case True
    then show ?thesis by (cases slot) (simp_all add: e answer_def)
  next
    case False
    then show ?thesis using Cons by (auto simp: e)
  qed
qed simp

lemma run_get_filter:
  "(\<And>e. e \<in> set es \<Longrightarrow> user_key (fst e) = key \<Longrightarrow> P e) \<Longrightarrow> run_get (filter P es) key snapshot = run_get es key snapshot"
  by (induction es) auto

lemma run_get_absent_iff:
  "run_get es key snapshot = LAbsent \<longleftrightarrow> (\<forall>e \<in> set es. user_key (fst e) = key \<longrightarrow> snapshot < seqno (fst e))"
proof (induction es)
  case (Cons e es)
  then show ?case by (cases e) (auto simp: not_le)
qed simp

text \<open>On a sorted run the first visible entry is the newest one.\<close>

lemma run_get_newest_sorted:
  assumes "sorted (map fst es)"
  shows "newest (set es) key snapshot (run_get es key snapshot)"
  using assms
proof (induction es)
  case (Cons e es)
  obtain ik slot where e: "e = (ik, slot)" by (cases e)
  have ok: "sorted (map fst es)" and below: "\<forall>e' \<in> set es. ik \<le> fst e'" using Cons.prems by (auto simp: e)
  show ?case
  proof (cases "user_key ik = key \<and> seqno ik \<le> snapshot")
    case True
    then obtain sq where ik: "ik = IKey key sq" "sq \<le> snapshot" by (cases ik) auto
    have "sq' \<le> sq" if "(IKey key sq', slot') \<in> set (e # es)" for sq' slot'
    proof (cases "IKey key sq' = ik")
      case False
      then have "ik < IKey key sq'" using that below by (force simp: e)
      then show ?thesis by (simp add: less_internal_key_def ik)
    qed (simp add: ik)
    moreover have "(sq, slot) \<in> seen (set (e # es)) key snapshot" using ik by (simp add: e seen_def)
    moreover have "run_get (e # es) key snapshot = answer slot" using True by (simp add: e)
    ultimately show ?thesis unfolding newest_def by (fastforce simp: seen_def)
  next
    case False
    then have "seen (set (e # es)) key snapshot = seen (set es) key snapshot" by (auto simp: e seen_def)
    moreover have "run_get (e # es) key snapshot = run_get es key snapshot" using False by (auto simp: e)
    ultimately show ?thesis using Cons.IH [OF ok] unfolding newest_def by simp
  qed
qed (simp add: newest_def seen_def)

lemma bm_ok_sorted: "bm_ok m \<Longrightarrow> sorted (map fst m)"
  unfolding bm_ok_def by (rule strict_sorted_imp_sorted)

lemma run_get_newest: "bm_ok es \<Longrightarrow> newest (set es) key snapshot (run_get es key snapshot)"
  by (rule run_get_newest_sorted [OF bm_ok_sorted])

section \<open>The table keeps its books and answers from them\<close>

definition mt_ok :: "memtable \<Rightarrow> bool" where
  "mt_ok t \<longleftrightarrow>
     bm_ok (mt_map t) \<and>
     mt_size_bytes t = (\<Sum>e \<leftarrow> mt_map t. entry_charge (user_key (fst e)) (snd e)) \<and>
     (\<forall>e \<in> set (mt_map t). seqno (fst e) \<le> U64_MAX \<and> mt_min_seqno t \<le> seqno (fst e) \<and> seqno (fst e) \<le> mt_max_seqno t) \<and>
     (if mt_map t = [] then mt_max_seqno t = 0 else mt_max_seqno t \<in> (seqno \<circ> fst) ` set (mt_map t))"

lemma memtable_new_ok: "mt_ok memtable_new" "mt_ok memtable_default"
  by (simp_all add: mt_ok_def memtable_new_def memtable_default_def)

lemma sum_bm_put:
  fixes f :: "'k::linorder \<times> 'v \<Rightarrow> nat"
  assumes "bm_ok m"
  shows "(\<Sum>e \<leftarrow> bm_put k v m. f e) + (case bm_get m k of Some v' \<Rightarrow> f (k, v') | None \<Rightarrow> 0) = (\<Sum>e \<leftarrow> m. f e) + f (k, v)"
  using assms
proof (induction m)
  case (Cons e m)
  obtain k' v' where e: "e = (k', v')" by (cases e)
  show ?case
  proof (cases "k < k'")
    case True
    then have "bm_get m k = None" using Cons.prems unfolding bm_get_None_iff by (auto simp: e)
    then show ?thesis using True by (auto simp: e)
  next
    case False
    then show ?thesis using Cons by (auto simp: e split: option.splits)
  qed
qed simp

lemma put_slot_fields:
  assumes "mt_ok t"
  shows "mt_map (put_slot key slot sq t) = bm_put (IKey key sq) slot (mt_map t)"
    and "mt_size_bytes (put_slot key slot sq t) = (\<Sum>e \<leftarrow> bm_put (IKey key sq) slot (mt_map t). entry_charge (user_key (fst e)) (snd e))"
    and "mt_min_seqno (put_slot key slot sq t) = min (mt_min_seqno t) sq"
    and "mt_max_seqno (put_slot key slot sq t) = max (mt_max_seqno t) sq"
proof -
  let ?c = "\<lambda>e :: lsm_entry. entry_charge (user_key (fst e)) (snd e)"
  show "mt_map (put_slot key slot sq t) = bm_put (IKey key sq) slot (mt_map t)"
    "mt_min_seqno (put_slot key slot sq t) = min (mt_min_seqno t) sq"
    "mt_max_seqno (put_slot key slot sq t) = max (mt_max_seqno t) sq"
    by (simp_all add: put_slot_def Let_def split: option.splits)
  have ok: "bm_ok (mt_map t)" "mt_size_bytes t = (\<Sum>e \<leftarrow> mt_map t. ?c e)" using assms by (simp_all add: mt_ok_def)
  show "mt_size_bytes (put_slot key slot sq t) = (\<Sum>e \<leftarrow> bm_put (IKey key sq) slot (mt_map t). ?c e)"
  proof (cases "bm_get (mt_map t) (IKey key sq)")
    case None
    then show ?thesis using sum_bm_put [OF ok(1), of ?c "IKey key sq" slot] ok(2)
      by (simp add: put_slot_def)
  next
    case (Some prev)
    then have "(IKey key sq, prev) \<in> set (mt_map t)" by (rule bm_get_set)
    then have "entry_charge key prev \<le> (\<Sum>e \<leftarrow> mt_map t. ?c e)"
      using member_le_sum_list [of "?c (IKey key sq, prev)" "map ?c (mt_map t)"] by force
    then show ?thesis using Some sum_bm_put [OF ok(1), of ?c "IKey key sq" slot] ok(2)
      by (simp add: put_slot_def)
  qed
qed

lemma put_slot_ok:
  assumes "mt_ok t" "sq \<le> U64_MAX"
  shows "mt_ok (put_slot key slot sq t)"
proof -
  note F = put_slot_fields [OF assms(1), of key slot sq]
  have ok: "bm_ok (mt_map t)" using assms(1) by (simp add: mt_ok_def)
  have set: "set (bm_put (IKey key sq) slot (mt_map t)) = insert (IKey key sq, slot) {e \<in> set (mt_map t). fst e \<noteq> IKey key sq}"
    by (rule set_bm_put [OF ok])
  have keys: "(seqno \<circ> fst) ` set (bm_put (IKey key sq) slot (mt_map t)) = insert sq ((seqno \<circ> fst) ` set (mt_map t))"
    using keys_bm_put [of "IKey key sq" slot "mt_map t"] by (metis image_comp image_insert internal_key.sel(2))
  have b: "\<forall>e \<in> set (mt_map t). seqno (fst e) \<le> U64_MAX \<and> mt_min_seqno t \<le> seqno (fst e) \<and> seqno (fst e) \<le> mt_max_seqno t"
    and m: "if mt_map t = [] then mt_max_seqno t = 0 else mt_max_seqno t \<in> (seqno \<circ> fst) ` set (mt_map t)"
    using assms(1) unfolding mt_ok_def by blast+
  have "max (mt_max_seqno t) sq \<in> insert sq ((seqno \<circ> fst) ` set (mt_map t))"
    using m by (auto simp: max_def split: if_splits)
  moreover have "bm_put (IKey key sq) slot (mt_map t) \<noteq> []" using set by auto
  moreover have "\<forall>e \<in> set (bm_put (IKey key sq) slot (mt_map t)). seqno (fst e) \<le> U64_MAX \<and>
      min (mt_min_seqno t) sq \<le> seqno (fst e) \<and> seqno (fst e) \<le> max (mt_max_seqno t) sq"
    unfolding set using b assms(2) by (auto simp: min_le_iff_disj le_max_iff_disj)
  ultimately show ?thesis using ok unfolding mt_ok_def F keys [symmetric] by simp
qed

lemma first_visible_run_get:
  "\<forall>e \<in> set es. user_key (fst e) = key \<Longrightarrow> first_visible key snapshot es = run_get es key snapshot"
  by (induction es) auto

lemma mt_get_run_get:
  assumes "mt_ok t"
  shows "mt_get t key snapshot = run_get (mt_map t) key snapshot"
proof -
  have "seek_max key \<le> fst e \<and> fst e < seek_max (key @ [0]) \<longleftrightarrow> user_key (fst e) = key" if "e \<in> set (mt_map t)" for e
  proof -
    have sq: "seqno (fst e) \<le> U64_MAX" using assms that by (auto simp: mt_ok_def)
    have "seek_max key \<le> fst e \<longleftrightarrow> key \<le> user_key (fst e)"
      using sq by (cases "fst e") (auto simp: seek_max_def less_internal_key_def less_eq_internal_key_def)
    moreover have "fst e < seek_max (key @ [0]) \<longleftrightarrow> user_key (fst e) < key @ [0]"
      using sq by (auto simp: seek_max_def less_internal_key_def)
    ultimately show ?thesis using up_to_successor [of key "user_key (fst e)"] by simp
  qed
  then have "mt_get t key snapshot = first_visible key snapshot (filter (\<lambda>e. user_key (fst e) = key) (mt_map t))"
    unfolding mt_get_def by (simp cong: filter_cong)
  also have "\<dots> = run_get (filter (\<lambda>e. user_key (fst e) = key) (mt_map t)) key snapshot"
    by (rule first_visible_run_get) simp
  also have "\<dots> = run_get (mt_map t) key snapshot" by (rule run_get_filter)
  finally show ?thesis .
qed

definition slot_answer :: "value_slot option \<Rightarrow> lookup" where
  "slot_answer r = (case r of None \<Rightarrow> LAbsent | Some slot \<Rightarrow> answer slot)"

lemma slot_answer_simps [simp]: "slot_answer None = LAbsent" "slot_answer (Some slot) = answer slot"
  by (simp_all add: slot_answer_def)

lemma view_loop_spec:
  assumes "bm_ok es" "\<forall>k0. current = Some k0 \<longrightarrow> (\<forall>e \<in> set es. k0 \<le> user_key (fst e))"
  shows "bm_ok (view_loop snapshot current es) \<and>
    (\<forall>k \<in> fst ` set (view_loop snapshot current es). k \<in> (user_key \<circ> fst) ` set es \<and> (\<forall>k0. current = Some k0 \<longrightarrow> k0 < k)) \<and>
    (\<forall>k. current \<noteq> Some k \<longrightarrow> run_get es k snapshot = slot_answer (bm_get (view_loop snapshot current es) k))"
  using assms
proof (induction es arbitrary: current)
  case (Cons e es)
  obtain ik slot where e: "e = (ik, slot)" by (cases e)
  have ok: "bm_ok es" and lt: "\<forall>e' \<in> set es. ik < fst e'" using Cons.prems(1) by (auto simp: e)
  then have le: "\<forall>e' \<in> set es. user_key ik \<le> user_key (fst e')" by (auto simp: less_internal_key_def)
  have cur: "\<forall>k0. current = Some k0 \<longrightarrow> (\<forall>e \<in> set es. k0 \<le> user_key (fst e))" using Cons.prems(2) by simp
  note IH = Cons.IH [OF ok cur]
  show ?case
  proof (cases "seqno ik > snapshot")
    case True
    then show ?thesis using IH by (auto simp: e)
  next
    case False
    show ?thesis
    proof (cases "current = Some (user_key ik)")
      case True
      then show ?thesis using IH False by (auto simp: e)
    next
      case cf: False
      have c: "\<forall>k0. current = Some k0 \<longrightarrow> k0 < user_key ik" using Cons.prems(2) cf by (auto simp: e order_le_less)
      have "\<forall>k0. Some (user_key ik) = Some k0 \<longrightarrow> (\<forall>e \<in> set es. k0 \<le> user_key (fst e))" using le by simp
      note IH' = Cons.IH [OF ok this]
      let ?v = "view_loop snapshot (Some (user_key ik)) es"
      have v: "view_loop snapshot current (e # es) = (user_key ik, slot) # ?v" using False cf by (simp add: e)
      have up: "\<forall>k \<in> fst ` set ?v. user_key ik < k" using IH' by blast
      have "bm_ok ((user_key ik, slot) # ?v)" using IH' up by simp
      moreover have "\<forall>k \<in> fst ` set ((user_key ik, slot) # ?v). k \<in> (user_key \<circ> fst) ` set (e # es) \<and> (\<forall>k0. current = Some k0 \<longrightarrow> k0 < k)"
      proof
        fix k assume k: "k \<in> fst ` set ((user_key ik, slot) # ?v)"
        then consider "k = user_key ik" | "k \<in> fst ` set ?v" by auto
        then show "k \<in> (user_key \<circ> fst) ` set (e # es) \<and> (\<forall>k0. current = Some k0 \<longrightarrow> k0 < k)"
        proof cases
          case 1
          then show ?thesis using c by (simp add: e)
        next
          case 2
          then have "k \<in> (user_key \<circ> fst) ` set es" "user_key ik < k" using IH' up by blast+
          then show ?thesis using c by (auto intro: less_trans)
        qed
      qed
      moreover have "run_get (e # es) k snapshot = slot_answer (bm_get ((user_key ik, slot) # ?v) k)" for k
        using IH' False by (auto simp: e)
      ultimately show ?thesis unfolding v by blast
    qed
  qed
qed simp

lemma snapshot_view_spec:
  assumes "mt_ok t"
  shows "bm_ok (snapshot_view t snapshot)"
    and "mt_get t key snapshot = slot_answer (bm_get (snapshot_view t snapshot) key)"
proof -
  have "bm_ok (mt_map t)" using assms by (simp add: mt_ok_def)
  then show "bm_ok (snapshot_view t snapshot)" "mt_get t key snapshot = slot_answer (bm_get (snapshot_view t snapshot) key)"
    using view_loop_spec [of "mt_map t" None snapshot] by (simp_all add: snapshot_view_def mt_get_run_get [OF assms])
qed

text \<open>The number of distinct keys sizes the filter of the table written from this one.\<close>

lemma distinct_loop_card:
  assumes "sorted (map user_key iks)" "\<forall>k0. current = Some k0 \<longrightarrow> (\<forall>ik \<in> set iks. k0 \<le> user_key ik)"
  shows "distinct_loop current iks = card (user_key ` set iks - set_option current)"
  using assms
proof (induction iks arbitrary: current)
  case (Cons ik iks)
  have le: "\<forall>ik' \<in> set iks. user_key ik \<le> user_key ik'" "sorted (map user_key iks)" using Cons.prems(1) by auto
  show ?case
  proof (cases "current = Some (user_key ik)")
    case True
    then show ?thesis using Cons.IH [OF le(2), of current] Cons.prems(2) by simp
  next
    case False
    have "user_key ` set (ik # iks) - set_option current = insert (user_key ik) (user_key ` set iks - {user_key ik})"
      using False Cons.prems(2) le(1) by (cases current) (auto dest: order_antisym)
    moreover have "distinct_loop (Some (user_key ik)) iks = card (user_key ` set iks - {user_key ik})"
      using Cons.IH [OF le(2), of "Some (user_key ik)"] le(1) by simp
    ultimately show ?thesis using False by (simp only: distinct_loop.simps if_True not_False_eq_True)
      (simp add: card_insert_disjoint del: insert_Diff_single)
  qed
qed simp

text \<open>The write buffer. A new table and the table that rotation leaves behind are in order; every
  write keeps the table in order: sorted, with its byte count exact and its highest sequence number
  attained; a lookup returns the newest version at or below the snapshot, tombstones included; the
  snapshot view is sorted and agrees with the lookups.\<close>

lemma memtable_reads_newest:
  assumes "mt_ok t"
  shows "(sq \<le> U64_MAX \<longrightarrow> mt_ok (mt_insert key val sq t) \<and> mt_ok (mt_delete key sq t)) \<and>
     set (mt_map (mt_insert key val sq t)) = insert (IKey key sq, Some val) {e \<in> set (mt_map t). fst e \<noteq> IKey key sq} \<and>
     set (mt_map (mt_delete key sq t)) = insert (IKey key sq, None) {e \<in> set (mt_map t). fst e \<noteq> IKey key sq} \<and>
     newest (set (mt_map t)) k snapshot (mt_get t k snapshot) \<and>
     bm_ok (snapshot_view t snapshot) \<and> mt_get t k snapshot = slot_answer (bm_get (snapshot_view t snapshot) k)"
proof -
  have ok: "bm_ok (mt_map t)" using assms by (simp add: mt_ok_def)
  show ?thesis
  proof (intro conjI)
    show "newest (set (mt_map t)) k snapshot (mt_get t k snapshot)"
      unfolding mt_get_run_get [OF assms] by (rule run_get_newest [OF ok])
    show "bm_ok (snapshot_view t snapshot)" "mt_get t k snapshot = slot_answer (bm_get (snapshot_view t snapshot) k)"
      by (fact snapshot_view_spec [OF assms])+
  qed (simp_all add: mt_insert_def mt_delete_def put_slot_ok [OF assms] put_slot_fields(1) [OF assms] set_bm_put [OF ok])
qed

end
