(* ===== verification/Sstable.thy ===== *)
theory Sstable
  imports Bloom Memtable
begin

text \<open>
  Sorted table files (\<open>lsm/sstable.rs\<close>): the encoding of an entry, the streaming writer with its
  sparse index and Bloom filter, the footer, opening a file with its checks, and lookups. The
  checksum is a parameter. A table is written completely or not at all here; the engine decides
  what a failed system call leaves behind.
\<close>

definition SSTABLE_MAGIC :: nat where
  "SSTABLE_MAGIC = 0x504442535354424C"

definition FOOTER_LEN :: nat where
  "FOOTER_LEN = 76"

definition ENTRY_HEADER_LEN :: nat where
  "ENTRY_HEADER_LEN = 4 + 4 + 8 + 1"

definition RESTART_INTERVAL :: nat where
  "RESTART_INTERVAL = 16"

definition MAX_ENTRY_FIELD :: nat where
  "MAX_ENTRY_FIELD = 64 * 1024 * 1024"

lemmas sst_consts = SSTABLE_MAGIC_def FOOTER_LEN_def ENTRY_HEADER_LEN_def MAX_ENTRY_FIELD_def

record table_meta =
  tm_id :: nat
  tm_level :: nat
  tm_min_key :: bytes
  tm_max_key :: bytes
  tm_min_seqno :: nat
  tm_max_seqno :: nat
  tm_entry_count :: nat
  tm_file_bytes :: nat

definition overlaps :: "table_meta \<Rightarrow> bytes \<Rightarrow> bytes \<Rightarrow> bool" where
  "overlaps m from to \<longleftrightarrow> tm_min_key m \<le> to \<and> from \<le> tm_max_key m"

definition may_contain :: "table_meta \<Rightarrow> bytes \<Rightarrow> bool" where
  "may_contain m key \<longleftrightarrow> tm_min_key m \<le> key \<and> key \<le> tm_max_key m"

section \<open>Entries\<close>

definition encode_entry :: "lsm_entry \<Rightarrow> bytes" where
  "encode_entry e =
     (case e of (ik, slot) \<Rightarrow>
        let (kind, v) = (case slot of Some v \<Rightarrow> (0, v) | None \<Rightarrow> (1, []))
        in to_le 4 (length (user_key ik)) @ to_le 4 (length v) @ to_le 8 (seqno ik) @ [kind] @ user_key ik @ v)"

definition decode_entry :: "bytes \<Rightarrow> nat \<Rightarrow> (internal_key \<times> value_slot \<times> nat) res" where
  "decode_entry buf pos =
     (let header_end = pos + ENTRY_HEADER_LEN in
      if header_end > length buf then Inl Corruption
      else
        let key_len = read_le buf pos 4;
            val_len = read_le buf (pos + 4) 4
        in
        if key_len > MAX_ENTRY_FIELD \<or> val_len > MAX_ENTRY_FIELD then Inl Corruption
        else
          let sq = read_le buf (pos + 8) 8;
              kind = buf ! (pos + 16);
              key_end = header_end + key_len;
              val_end = key_end + val_len
          in
          if val_end > length buf then Inl Corruption
          else
            let k = bslice buf header_end key_len in
            if kind = 0 then Inr (IKey k sq, Some (bslice buf key_end val_len), val_end)
            else if kind = 1 then Inr (IKey k sq, None, val_end)
            else Inl Corruption)"

lemma decode_entry_advances:
  "decode_entry buf pos = Inr (ik, slot, nxt) \<Longrightarrow> pos < nxt \<and> nxt \<le> length buf"
  by (auto simp: decode_entry_def Let_def ENTRY_HEADER_LEN_def split: if_splits)

section \<open>The writer\<close>

record sstable_writer =
  sw_body :: bytes
  sw_index :: "(bytes \<times> nat) list"
  sw_bloom :: bloom_filter
  sw_data_bytes :: nat
  sw_entry_count :: nat
  sw_distinct_keys :: nat
  sw_last_user_key :: "bytes option"
  sw_min_key :: "bytes option"
  sw_max_key :: bytes
  sw_min_seqno :: nat
  sw_max_seqno :: nat

definition sw_create :: "nat \<Rightarrow> sstable_writer" where
  "sw_create expected_keys =
     \<lparr>sw_body = [], sw_index = [], sw_bloom = bloom_with_capacity expected_keys DEFAULT_BITS_PER_KEY,
      sw_data_bytes = 0, sw_entry_count = 0, sw_distinct_keys = 0, sw_last_user_key = None,
      sw_min_key = None, sw_max_key = [], sw_min_seqno = U64_MAX, sw_max_seqno = 0\<rparr>"

definition sw_emit :: "bytes \<Rightarrow> sstable_writer \<Rightarrow> sstable_writer" where
  "sw_emit bs w = w\<lparr>sw_body := sw_body w @ bs\<rparr>"

definition note_key :: "bytes \<Rightarrow> sstable_writer \<Rightarrow> sstable_writer res" where
  "note_key k w =
     (if sw_last_user_key w \<noteq> Some k then
        let w = (if sw_distinct_keys w mod RESTART_INTERVAL = 0
                 then w\<lparr>sw_index := sw_index w @ [(k, sw_data_bytes w)]\<rparr> else w)
        in rbind (bloom_insert k (sw_bloom w)) (\<lambda>b.
           Inr (w\<lparr>sw_bloom := b, sw_distinct_keys := sw_distinct_keys w + 1, sw_last_user_key := Some k\<rparr>))
      else Inr w)"

definition sw_append :: "lsm_entry \<Rightarrow> sstable_writer \<Rightarrow> sstable_writer res" where
  "sw_append e w =
     (let k = user_key (fst e) in
      if (case sw_last_user_key w of Some prev \<Rightarrow> k < prev | None \<Rightarrow> False) then Inl InvalidArgument
      else
        rbind (note_key k w) (\<lambda>w.
        let w = (if sw_min_key w = None then w\<lparr>sw_min_key := Some k\<rparr> else w);
            w = w\<lparr>sw_max_key := k, sw_min_seqno := min (sw_min_seqno w) (seqno (fst e)),
                  sw_max_seqno := max (sw_max_seqno w) (seqno (fst e))\<rparr>;
            buf = encode_entry e;
            w = sw_emit buf w
        in Inr (w\<lparr>sw_data_bytes := sw_data_bytes w + length buf, sw_entry_count := sw_entry_count w + 1\<rparr>)))"

definition encode_index :: "(bytes \<times> nat) list \<Rightarrow> bytes" where
  "encode_index idx = concat (map (\<lambda>(k, off). to_le 4 (length k) @ to_le 8 off @ k) idx)"

text \<open>The finished file and its summary.\<close>

definition sw_finish :: "(bytes \<Rightarrow> u32) \<Rightarrow> nat \<Rightarrow> nat \<Rightarrow> sstable_writer \<Rightarrow> table_meta \<times> bytes" where
  "sw_finish crc tid level w =
     (let bloom_offset = sw_data_bytes w;
          bloom_bytes = bloom_encode (sw_bloom w);
          w = sw_emit bloom_bytes w;
          index_offset = bloom_offset + length bloom_bytes;
          index_buf = encode_index (sw_index w);
          w = sw_emit index_buf w;
          footer = to_le 8 bloom_offset @ to_le 8 (length bloom_bytes) @ to_le 8 index_offset @
            to_le 8 (length index_buf) @ to_le 8 (length (sw_index w)) @ to_le 8 (sw_entry_count w) @
            to_le 8 (sw_min_seqno w) @ to_le 8 (sw_max_seqno w) @ to_le 4 (unat (crc (sw_body w))) @
            to_le 8 SSTABLE_MAGIC
      in (\<lparr>tm_id = tid, tm_level = level, tm_min_key = (case sw_min_key w of Some k \<Rightarrow> k | None \<Rightarrow> []),
           tm_max_key = sw_max_key w,
           tm_min_seqno = (if sw_entry_count w = 0 then 0 else sw_min_seqno w),
           tm_max_seqno = sw_max_seqno w, tm_entry_count = sw_entry_count w,
           tm_file_bytes = index_offset + length index_buf + FOOTER_LEN\<rparr>,
          sw_body w @ footer))"

definition write_table ::
  "(bytes \<Rightarrow> u32) \<Rightarrow> nat \<Rightarrow> lsm_entry list \<Rightarrow> nat \<Rightarrow> nat \<Rightarrow> (table_meta \<times> bytes) res" where
  "write_table crc expected_keys es tid level =
     rbind (rfold sw_append es (sw_create expected_keys)) (\<lambda>w. Inr (sw_finish crc tid level w))"

section \<open>Opening\<close>

record footer =
  ft_bloom_offset :: nat
  ft_bloom_len :: nat
  ft_index_offset :: nat
  ft_index_len :: nat
  ft_index_count :: nat
  ft_entry_count :: nat
  ft_min_seqno :: nat
  ft_max_seqno :: nat
  ft_crc :: nat

definition footer_parse :: "bytes \<Rightarrow> nat \<Rightarrow> footer res" where
  "footer_parse bs file_len =
     (if length bs \<noteq> FOOTER_LEN then Inl Corruption
      else if read_le bs 68 8 \<noteq> SSTABLE_MAGIC then Inl Corruption
      else
        let f = \<lparr>ft_bloom_offset = read_le bs 0 8, ft_bloom_len = read_le bs 8 8,
                 ft_index_offset = read_le bs 16 8, ft_index_len = read_le bs 24 8,
                 ft_index_count = read_le bs 32 8, ft_entry_count = read_le bs 40 8,
                 ft_min_seqno = read_le bs 48 8, ft_max_seqno = read_le bs 56 8,
                 ft_crc = read_le bs 64 4\<rparr>
        in
        if file_len < FOOTER_LEN then Inl Corruption
        else
          let body_len = file_len - FOOTER_LEN;
              bloom_end = ft_bloom_offset f + ft_bloom_len f;
              index_end = ft_index_offset f + ft_index_len f
          in
          if bloom_end > U64_MAX \<or> index_end > U64_MAX then Inl Corruption
          else if bloom_end \<noteq> ft_index_offset f \<or> index_end \<noteq> body_len then Inl Corruption
          else Inr f)"

record sstable =
  ss_meta :: table_meta
  ss_data :: bytes
  ss_bloom :: bloom_filter
  ss_index :: "(bytes \<times> nat) list"

function decode_index_loop :: "bytes \<Rightarrow> nat \<Rightarrow> (bytes \<times> nat) list res" where
  "decode_index_loop buf pos =
     (if pos < length buf then
        (if pos + 12 > length buf then Inl Corruption
         else
           let key_len = read_le buf pos 4;
               off = read_le buf (pos + 4) 8;
               key_end = pos + 12 + key_len
           in
           if key_end > length buf then Inl Corruption
           else rbind (decode_index_loop buf key_end) (\<lambda>rest.
                Inr ((bslice buf (pos + 12) key_len, off) # rest)))
      else Inr [])"
  by pat_completeness auto
termination
  by (relation "measure (\<lambda>(buf, pos). length buf - pos)") auto

declare decode_index_loop.simps [simp del]

definition decode_index :: "bytes \<Rightarrow> nat \<Rightarrow> (bytes \<times> nat) list res" where
  "decode_index buf count =
     rbind (decode_index_loop buf 0) (\<lambda>index.
       if length index \<noteq> count then Inl Corruption else Inr index)"

function bounds_loop :: "bytes \<Rightarrow> nat \<Rightarrow> bytes \<Rightarrow> bytes res" where
  "bounds_loop data pos mx =
     (if pos < length data then
        (case decode_entry data pos of
           Inl e \<Rightarrow> Inl e
         | Inr (ik, _, nxt) \<Rightarrow> bounds_loop data nxt (user_key ik))
      else Inr mx)"
  by pat_completeness auto
termination
  by (relation "measure (\<lambda>(data, pos, _). length data - pos)") (auto dest!: decode_entry_advances)

declare bounds_loop.simps [simp del]

definition scan_key_bounds :: "bytes \<Rightarrow> (bytes \<times> bytes) res" where
  "scan_key_bounds data =
     (if data = [] then Inr ([], [])
      else
        rbind (decode_entry data 0) (\<lambda>(first, _, pos).
        rbind (bounds_loop data pos (user_key first)) (\<lambda>mx.
        Inr (user_key first, mx))))"

text \<open>A slice with bounds out of order or past the end panics.\<close>

definition slice_range :: "bytes \<Rightarrow> nat \<Rightarrow> nat \<Rightarrow> bytes res" where
  "slice_range bs from to = (if from \<le> to \<and> to \<le> length bs then Inr (bslice bs from (to - from)) else Inl Panic)"

definition sst_open :: "(bytes \<Rightarrow> u32) \<Rightarrow> bytes \<Rightarrow> nat \<Rightarrow> nat \<Rightarrow> sstable res" where
  "sst_open crc file tid level =
     (let file_len = length file in
      if file_len < FOOTER_LEN then Inl Corruption
      else
        rbind (footer_parse (drop (file_len - FOOTER_LEN) file) file_len) (\<lambda>f.
        let body = take (file_len - FOOTER_LEN) file in
        if unat (crc body) \<noteq> ft_crc f then Inl Corruption
        else
          rbind (slice_range body (ft_bloom_offset f) (ft_index_offset f)) (\<lambda>bloom_bytes.
          rbind (bloom_decode bloom_bytes) (\<lambda>bloom.
          rbind (slice_range body (ft_index_offset f) (length body)) (\<lambda>index_bytes.
          rbind (decode_index index_bytes (ft_index_count f)) (\<lambda>index.
          rbind (slice_range body 0 (ft_bloom_offset f)) (\<lambda>data.
          rbind (scan_key_bounds data) (\<lambda>(min_key, max_key).
          Inr \<lparr>ss_meta = \<lparr>tm_id = tid, tm_level = level, tm_min_key = min_key, tm_max_key = max_key,
                 tm_min_seqno = ft_min_seqno f, tm_max_seqno = ft_max_seqno f,
                 tm_entry_count = ft_entry_count f, tm_file_bytes = file_len\<rparr>,
               ss_data = data, ss_bloom = bloom, ss_index = index\<rparr>)))))))) "

section \<open>Reading\<close>

text \<open>
  \<open>binary_search_by\<close> on an index sorted by distinct keys: the position of the key, or of the first
  greater one.
\<close>

definition seek_offset :: "(bytes \<times> nat) list \<Rightarrow> bytes \<Rightarrow> nat" where
  "seek_offset index key =
     (let i = length (takeWhile (\<lambda>(k, _). k < key) index) in
      if i < length index \<and> fst (index ! i) = key then snd (index ! i)
      else if i = 0 then 0
      else snd (index ! (i - 1)))"

function get_loop :: "bytes \<Rightarrow> bytes \<Rightarrow> nat \<Rightarrow> nat \<Rightarrow> lookup res" where
  "get_loop data key snapshot pos =
     (if pos < length data then
        (case decode_entry data pos of
           Inl e \<Rightarrow> Inl e
         | Inr (ik, slot, nxt) \<Rightarrow>
             if key < user_key ik then Inr LAbsent
             else if user_key ik = key \<and> seqno ik \<le> snapshot then Inr (answer slot)
             else get_loop data key snapshot nxt)
      else Inr LAbsent)"
  by pat_completeness auto
termination
  by (relation "measure (\<lambda>(data, _, _, pos). length data - pos)") (auto dest!: decode_entry_advances)

declare get_loop.simps [simp del]

definition sst_get :: "sstable \<Rightarrow> bytes \<Rightarrow> nat \<Rightarrow> lookup res" where
  "sst_get t key snapshot =
     (if ss_data t = [] \<or> \<not> may_contain (ss_meta t) key then Inr LAbsent
      else
        rbind (bloom_contains (ss_bloom t) key) (\<lambda>hit.
          if \<not> hit then Inr LAbsent
          else get_loop (ss_data t) key snapshot (seek_offset (ss_index t) key)))"

function entries_loop :: "bytes \<Rightarrow> nat \<Rightarrow> lsm_entry list res" where
  "entries_loop data pos =
     (if pos < length data then
        (case decode_entry data pos of
           Inl e \<Rightarrow> Inl e
         | Inr (ik, slot, nxt) \<Rightarrow> rbind (entries_loop data nxt) (\<lambda>es. Inr ((ik, slot) # es)))
      else Inr [])"
  by pat_completeness auto
termination
  by (relation "measure (\<lambda>(data, pos). length data - pos)") (auto dest!: decode_entry_advances)

declare entries_loop.simps [simp del]

definition sst_entries :: "sstable \<Rightarrow> lsm_entry list res" where
  "sst_entries t = entries_loop (ss_data t) 0"

section \<open>Entries round-trip\<close>

definition fits :: "lsm_entry \<Rightarrow> bool" where
  "fits e \<longleftrightarrow>
     length (user_key (fst e)) \<le> MAX_ENTRY_FIELD \<and> seqno (fst e) \<le> U64_MAX \<and>
     (case snd e of Some v \<Rightarrow> length v \<le> MAX_ENTRY_FIELD | None \<Rightarrow> True)"

definition enc_all :: "lsm_entry list \<Rightarrow> bytes" where
  "enc_all es = concat (map encode_entry es)"

lemma enc_all_simps [simp]: "enc_all [] = []" "enc_all (e # es) = encode_entry e @ enc_all es"
    "enc_all (es @ es') = enc_all es @ enc_all es'"
  by (simp_all add: enc_all_def)

lemma length_encode_entry: "17 \<le> length (encode_entry e)"
  by (cases e; cases "snd e") (auto simp: encode_entry_def)

lemma encode_entry_nonempty [simp]: "encode_entry e \<noteq> []"
  using length_encode_entry [of e] by auto

lemma read_le_at:
  "off = length a \<Longrightarrow> read_le (a @ to_le w n @ b) off w = n mod 256 ^ w"
  by (simp add: read_le_def bslice_def le_simps)

lemma decode_encode_entry:
  assumes "fits (ik, slot)"
  shows "decode_entry (a @ encode_entry (ik, slot) @ b) (length a) =
     Inr (ik, slot, length a + length (encode_entry (ik, slot)))"
proof -
  obtain k sq where ik: "ik = IKey k sq" by (cases ik)
  define kv where "kv = (case slot of Some v \<Rightarrow> (0 :: u8, v) | None \<Rightarrow> (1, []))"
  obtain kind v where kv': "kv = (kind, v)" by (cases kv)
  have enc: "encode_entry (ik, slot) = to_le 4 (length k) @ to_le 4 (length v) @ to_le 8 sq @ [kind] @ k @ v"
    using kv' by (simp add: encode_entry_def ik kv_def)
  have b: "length k \<le> MAX_ENTRY_FIELD" "length v \<le> MAX_ENTRY_FIELD" "sq \<le> U64_MAX"
    using assms kv' by (auto simp: fits_def ik kv_def split: option.splits)
  let ?buf = "a @ encode_entry (ik, slot) @ b"
  have kl: "read_le ?buf (length a) 4 = length k"
    using b read_le_at [of "length a" a 4 "length k" "to_le 4 (length v) @ to_le 8 sq @ [kind] @ k @ v @ b"]
    by (simp add: enc MAX_ENTRY_FIELD_def)
  have vl: "read_le ?buf (length a + 4) 4 = length v"
    using b read_le_at [of "length a + 4" "a @ to_le 4 (length k)" 4 "length v" "to_le 8 sq @ [kind] @ k @ v @ b"]
    by (simp add: enc MAX_ENTRY_FIELD_def)
  have sq: "read_le ?buf (length a + 8) 8 = sq"
    using b read_le_at [of "length a + 8" "a @ to_le 4 (length k) @ to_le 4 (length v)" 8 sq "[kind] @ k @ v @ b"]
    by (simp add: enc U64_MAX_def)
  have kd: "?buf ! (length a + 16) = kind"
    by (simp add: enc nth_append)
  have ks: "bslice ?buf (length a + 17) (length k) = k" "bslice ?buf (length a + 17 + length k) (length v) = v"
    by (simp_all add: enc bslice_def)
  have le: "length a + 17 + length k + length v \<le> length ?buf" by (simp add: enc)
  have "decode_entry ?buf (length a) =
     (if kind = 0 then Inr (IKey k sq, Some v, length a + 17 + length k + length v)
      else if kind = 1 then Inr (IKey k sq, None, length a + 17 + length k + length v) else Inl Corruption)"
    using le b unfolding decode_entry_def Let_def ENTRY_HEADER_LEN_def
    by (simp only: kl vl sq kd ks) (simp add: ks)
  moreover have "length (encode_entry (ik, slot)) = 17 + length k + length v" by (simp add: enc)
  moreover have "(kind = 0 \<longrightarrow> slot = Some v) \<and> (kind \<noteq> 0 \<longrightarrow> kind = 1 \<and> slot = None)"
    using kv' by (auto simp: kv_def split: option.splits)
  ultimately show ?thesis by (auto simp: ik)
qed

lemma decode_at:
  assumes "fits e" "pos = length a"
  shows "decode_entry (a @ encode_entry e @ b) pos = Inr (fst e, snd e, pos + length (encode_entry e))"
  using decode_encode_entry [of "fst e" "snd e" a b] assms by simp

text \<open>The loops over a data section, started at the offset of an entry.\<close>

lemma entries_loop_enc:
  "\<forall>e \<in> set es. fits e \<Longrightarrow> entries_loop (enc_all es0 @ enc_all es) (length (enc_all es0)) = Inr es"
proof (induction es arbitrary: es0)
  case Nil
  then show ?case by (simp add: entries_loop.simps)
next
  case (Cons e es)
  have "entries_loop (enc_all (es0 @ [e]) @ enc_all es) (length (enc_all (es0 @ [e]))) = Inr es"
    by (rule Cons.IH) (use Cons.prems in simp)
  then show ?case using Cons.prems decode_at [of e _ "enc_all es0" "enc_all es"]
    by (subst entries_loop.simps) simp
qed

lemma bounds_loop_enc:
  "\<forall>e \<in> set es. fits e \<Longrightarrow> bounds_loop (enc_all es0 @ enc_all es) (length (enc_all es0)) k =
     Inr (if es = [] then k else user_key (fst (last es)))"
proof (induction es arbitrary: es0 k)
  case Nil
  then show ?case by (simp add: bounds_loop.simps)
next
  case (Cons e es)
  have "bounds_loop (enc_all (es0 @ [e]) @ enc_all es) (length (enc_all (es0 @ [e]))) (user_key (fst e)) =
      Inr (if es = [] then user_key (fst e) else user_key (fst (last es)))"
    by (rule Cons.IH) (use Cons.prems in simp)
  then show ?case using Cons.prems decode_at [of e _ "enc_all es0" "enc_all es"]
    by (subst bounds_loop.simps) simp
qed

abbreviation ukeys :: "lsm_entry list \<Rightarrow> bytes list" where
  "ukeys es \<equiv> map (\<lambda>e. user_key (fst e)) es"

lemma sorted_user_keys: "bm_ok (es :: lsm_entry list) \<Longrightarrow> sorted (ukeys es)"
  by (induction es) (fastforce simp: less_internal_key_def)+

lemma get_loop_enc:
  "\<forall>e \<in> set es. fits e \<Longrightarrow> bm_ok es \<Longrightarrow>
     get_loop (enc_all es0 @ enc_all es) key snapshot (length (enc_all es0)) = Inr (run_get es key snapshot)"
proof (induction es arbitrary: es0)
  case Nil
  then show ?case by (simp add: get_loop.simps)
next
  case (Cons e es)
  obtain ik slot where e: "e = (ik, slot)" by (cases e)
  have rest: "get_loop (enc_all (es0 @ [e]) @ enc_all es) key snapshot (length (enc_all (es0 @ [e]))) = Inr (run_get es key snapshot)"
    by (rule Cons.IH) (use Cons.prems in \<open>auto simp: e\<close>)
  have "run_get es key snapshot = LAbsent" if "key < user_key ik"
    using that Cons.prems(2) by (fastforce simp: e run_get_absent_iff less_internal_key_def)
  then show ?case using Cons.prems decode_at [of e _ "enc_all es0" "enc_all es"] rest
    by (subst get_loop.simps) (auto simp: e)
qed

section \<open>What the writer has written\<close>

definition index_ok :: "lsm_entry list \<Rightarrow> (bytes \<times> nat) list \<Rightarrow> bool" where
  "index_ok ws idx \<longleftrightarrow>
     sorted_wrt (<) (map fst idx) \<and>
     (\<forall>(k, off) \<in> set idx. \<exists>es1 e es2. ws = es1 @ e # es2 \<and> off = length (enc_all es1) \<and> user_key (fst e) = k \<and>
        (\<forall>e' \<in> set es1. user_key (fst e') < k))"

definition writer_inv :: "lsm_entry list \<Rightarrow> sstable_writer \<Rightarrow> bool" where
  "writer_inv ws w \<longleftrightarrow>
     sw_body w = enc_all ws \<and> sw_data_bytes w = length (enc_all ws) \<and> sw_entry_count w = length ws \<and>
     sw_last_user_key w = (if ws = [] then None else Some (user_key (fst (last ws)))) \<and>
     sw_min_key w = (if ws = [] then None else Some (user_key (fst (hd ws)))) \<and>
     sw_max_key w = (if ws = [] then [] else user_key (fst (last ws))) \<and>
     sw_min_seqno w \<le> U64_MAX \<and> sw_max_seqno w \<le> U64_MAX \<and>
     bloom_ok (sw_bloom w) \<and> (\<forall>e \<in> set ws. bloom_contains (sw_bloom w) (user_key (fst e)) = Inr True) \<and>
     index_ok ws (sw_index w)"

lemma writer_inv_create: "writer_inv [] (sw_create n)"
  by (simp add: writer_inv_def sw_create_def bloom_with_capacity_ok index_ok_def)

lemma index_ok_old:
  assumes "index_ok ws idx"
  shows "index_ok (ws @ [e]) idx"
  using assms unfolding index_ok_def by fastforce

lemma index_ok_new:
  assumes "index_ok ws idx" "\<forall>e' \<in> set ws. user_key (fst e') < user_key (fst e)"
  shows "index_ok (ws @ [e]) (idx @ [(user_key (fst e), length (enc_all ws))])"
proof -
  have "k < user_key (fst e)" if "(k, off) \<in> set idx" for k off
    using assms that unfolding index_ok_def by fastforce
  then have "sorted_wrt (<) (map fst (idx @ [(user_key (fst e), length (enc_all ws))]))"
    using assms(1) by (auto simp: index_ok_def sorted_wrt_append)
  moreover have "\<exists>es1 e' es2. ws @ [e] = es1 @ e' # es2 \<and> length (enc_all ws) = length (enc_all es1) \<and>
      user_key (fst e') = user_key (fst e) \<and> (\<forall>e' \<in> set es1. user_key (fst e') < user_key (fst e))"
    using assms(2) by (intro exI [of _ ws] exI [of _ e] exI [of _ "[]"]) simp
  ultimately show ?thesis
    using index_ok_old [OF assms(1), of e] unfolding index_ok_def by simp
qed

lemma note_key_inv:
  assumes inv: "writer_inv ws w" and srt: "sorted (ukeys (ws @ [e]))"
  obtains w' where "note_key (user_key (fst e)) w = Inr w'" "bloom_ok (sw_bloom w')"
    "\<forall>e' \<in> set (ws @ [e]). bloom_contains (sw_bloom w') (user_key (fst e')) = Inr True"
    "index_ok (ws @ [e]) (sw_index w')" "sw_last_user_key w' = Some (user_key (fst e))"
    "sw_body w' = sw_body w" "sw_data_bytes w' = sw_data_bytes w" "sw_entry_count w' = sw_entry_count w"
    "sw_min_key w' = sw_min_key w" "sw_min_seqno w' = sw_min_seqno w" "sw_max_seqno w' = sw_max_seqno w"
proof (cases "sw_last_user_key w = Some (user_key (fst e))")
  case True
  then have "ws \<noteq> []" "user_key (fst (last ws)) = user_key (fst e)" using inv by (auto simp: writer_inv_def split: if_splits)
  then have "bloom_contains (sw_bloom w) (user_key (fst e)) = Inr True"
    using inv unfolding writer_inv_def by (metis last_in_set)
  then show ?thesis using that [of w] True inv index_ok_old by (simp add: note_key_def writer_inv_def)
next
  case False
  let ?k = "user_key (fst e)"
  have lt: "\<forall>e' \<in> set ws. user_key (fst e') < ?k"
  proof (cases "ws = []")
    case ne: False
    then have "user_key (fst (last ws)) \<noteq> ?k" using False inv by (simp add: writer_inv_def)
    moreover have "\<forall>e' \<in> set ws. user_key (fst e') \<le> user_key (fst (last ws))"
      using srt ne by (cases ws rule: rev_cases) (auto simp: sorted_append)
    moreover have "user_key (fst (last ws)) \<le> ?k" using srt ne by (auto simp: sorted_append)
    ultimately show ?thesis by (meson le_less_trans order_le_less)
  qed simp
  have bok: "bloom_ok (sw_bloom w)" using inv by (simp add: writer_inv_def)
  obtain b where b: "bloom_insert ?k (sw_bloom w) = Inr b" "grown (sw_bloom w) b" "bloom_contains b ?k = Inr True"
    using bloom_insert_spec [OF bok] by blast
  have "bloom_ok b" using b(2) by (simp add: grown_def)
  moreover have "\<forall>e' \<in> set (ws @ [e]). bloom_contains b (user_key (fst e')) = Inr True"
    using inv b(3) grown_contains [OF bok b(2)] by (auto simp: writer_inv_def)
  moreover have "index_ok (ws @ [e]) (sw_index w)" "index_ok (ws @ [e]) (sw_index w @ [(?k, sw_data_bytes w)])"
    using inv index_ok_old index_ok_new [OF _ lt] by (auto simp: writer_inv_def)
  ultimately show ?thesis
    using that b(1) False by (cases "sw_distinct_keys w mod RESTART_INTERVAL = 0") (auto simp: note_key_def Let_def)
qed

lemma sw_append_inv:
  assumes "writer_inv ws w" "sorted (ukeys (ws @ [e]))" "fits e"
  shows "\<exists>w'. sw_append e w = Inr w' \<and> writer_inv (ws @ [e]) w'"
proof -
  obtain w' where w': "note_key (user_key (fst e)) w = Inr w'" "bloom_ok (sw_bloom w')"
    "\<forall>e' \<in> set (ws @ [e]). bloom_contains (sw_bloom w') (user_key (fst e')) = Inr True"
    "index_ok (ws @ [e]) (sw_index w')" "sw_last_user_key w' = Some (user_key (fst e))"
    "sw_body w' = sw_body w" "sw_data_bytes w' = sw_data_bytes w" "sw_entry_count w' = sw_entry_count w"
    "sw_min_key w' = sw_min_key w" "sw_min_seqno w' = sw_min_seqno w" "sw_max_seqno w' = sw_max_seqno w"
    by (rule note_key_inv [OF assms(1,2)])
  have "user_key (fst (last ws)) \<le> user_key (fst e)" if "ws \<noteq> []" using assms(2) that by (auto simp: sorted_append)
  then have order: "\<not> (case sw_last_user_key w of Some prev \<Rightarrow> user_key (fst e) < prev | None \<Rightarrow> False)"
    using assms(1) by (auto simp: writer_inv_def)
  have "seqno (fst e) \<le> U64_MAX" using assms(3) by (simp add: fits_def)
  then show ?thesis
    using w' assms(1) order by (auto simp: sw_append_def writer_inv_def Let_def sw_emit_def hd_append)
qed

lemma writer_run:
  assumes "writer_inv ws w" "sorted (ukeys (ws @ es))" "\<forall>e \<in> set es. fits e"
  shows "\<exists>w'. rfold sw_append es w = Inr w' \<and> writer_inv (ws @ es) w'"
  using assms
proof (induction es arbitrary: ws w)
  case (Cons e es)
  have "sorted (ukeys (ws @ [e]))" using Cons.prems(2) by (auto simp: sorted_append)
  then obtain w1 where w1: "sw_append e w = Inr w1" "writer_inv (ws @ [e]) w1"
    using sw_append_inv [OF Cons.prems(1), of e] Cons.prems(3) by auto
  then show ?case using Cons.IH [OF w1(2)] Cons.prems(2,3) by simp
qed simp

section \<open>A written file opens to the table it was written from\<close>

lemma decode_index_enc:
  "\<forall>(k, off) \<in> set idx. length k < 256 ^ 4 \<and> off \<le> U64_MAX \<Longrightarrow>
     decode_index_loop (a @ encode_index idx) (length a) = Inr idx"
proof (induction idx arbitrary: a)
  case Nil
  then show ?case by (simp add: decode_index_loop.simps encode_index_def)
next
  case (Cons x idx)
  obtain k off where x: "x = (k, off)" by (cases x)
  let ?e = "to_le 4 (length k) @ to_le 8 off @ k"
  let ?buf = "a @ encode_index (x # idx)"
  have buf: "?buf = a @ ?e @ encode_index idx" by (simp add: encode_index_def x)
  have b: "length k < 256 ^ 4" "off \<le> U64_MAX" using Cons.prems by (auto simp: x)
  have kl: "read_le ?buf (length a) 4 = length k"
    using b read_le_at [of "length a" a 4 "length k" "to_le 8 off @ k @ encode_index idx"] by (simp add: buf)
  have of: "read_le ?buf (length a + 4) 8 = off"
    using b read_le_at [of "length a + 4" "a @ to_le 4 (length k)" 8 off "k @ encode_index idx"]
    by (simp add: buf U64_MAX_def)
  have ks: "bslice ?buf (length a + 12) (length k) = k" by (simp add: buf bslice_def)
  have "decode_index_loop ((a @ ?e) @ encode_index idx) (length (a @ ?e)) = Inr idx"
    by (rule Cons.IH) (use Cons.prems in auto)
  then have rest: "decode_index_loop ?buf (length a + 12 + length k) = Inr idx" by (simp add: buf add.assoc)
  have len: "length a + 12 + length k \<le> length ?buf" by (simp add: buf)
  have "decode_index_loop ?buf (length a) = Inr ((k, off) # idx)"
    using len rest by (subst decode_index_loop.simps) (simp only: kl of Let_def ks, auto)
  then show ?case by (simp add: x)
qed

lemma index_fields:
  assumes "index_ok ws idx" "\<forall>e \<in> set ws. fits e" "(k, off) \<in> set idx"
  shows "length k < 256 ^ 4" "off \<le> length (enc_all ws)"
proof -
  obtain es1 e es2 where "ws = es1 @ e # es2" "off = length (enc_all es1)" "user_key (fst e) = k"
    using assms(1,3) by (auto simp: index_ok_def)
  then show "length k < 256 ^ 4" "off \<le> length (enc_all ws)" using assms(2) by (auto simp: fits_def MAX_ENTRY_FIELD_def)
qed

lemma seek_offset_spec:
  assumes "index_ok ws idx" "bm_ok ws"
  obtains es1 es2 where "ws = es1 @ es2" "seek_offset idx key = length (enc_all es1)" "\<forall>e \<in> set es1. user_key (fst e) < key"
proof -
  let ?tw = "takeWhile (\<lambda>(k, _). k < key) idx"
  let ?i = "length ?tw"
  have at: "\<exists>es1 es2. ws = es1 @ es2 \<and> snd x = length (enc_all es1) \<and> (\<forall>e \<in> set es1. user_key (fst e) < key)"
    if x: "x \<in> set idx" "fst x \<le> key" for x
  proof -
    have "case x of (k, off) \<Rightarrow> \<exists>es1 e es2. ws = es1 @ e # es2 \<and> off = length (enc_all es1) \<and> user_key (fst e) = k \<and>
        (\<forall>e' \<in> set es1. user_key (fst e') < k)"
      using assms(1) x(1) unfolding index_ok_def by blast
    then obtain es1 e es2 where "ws = es1 @ e # es2" "snd x = length (enc_all es1)" "\<forall>e' \<in> set es1. user_key (fst e') < fst x"
      by (cases x) auto
    then show ?thesis using x(2) by (intro exI [of _ es1] exI [of _ "e # es2"]) (auto intro: order_less_le_trans)
  qed
  consider "?i < length idx \<and> fst (idx ! ?i) = key" | "\<not> (?i < length idx \<and> fst (idx ! ?i) = key)" "?i = 0"
    | "\<not> (?i < length idx \<and> fst (idx ! ?i) = key)" "?i \<noteq> 0" by blast
  then show ?thesis
  proof cases
    case 1
    then show ?thesis using at [of "idx ! ?i"] that by (auto simp: seek_offset_def Let_def)
  next
    case 2
    then have "seek_offset idx key = 0" by (auto simp: seek_offset_def Let_def)
    then show ?thesis using that [of "[]" ws] by simp
  next
    case 3
    then have "?i - 1 < ?i" by simp
    then have "?tw ! (?i - 1) \<in> set ?tw" by (rule nth_mem)
    moreover have "?tw ! (?i - 1) = idx ! (?i - 1)" using \<open>?i - 1 < ?i\<close> by (rule takeWhile_nth)
    ultimately have "idx ! (?i - 1) \<in> set idx" "fst (idx ! (?i - 1)) < key" by (auto dest!: set_takeWhileD split: prod.splits)
    then obtain es1 es2 where "ws = es1 @ es2" "snd (idx ! (?i - 1)) = length (enc_all es1)" "\<forall>e \<in> set es1. user_key (fst e) < key"
      using at [of "idx ! (?i - 1)"] by (meson order_less_imp_le)
    moreover have "seek_offset idx key = snd (idx ! (?i - 1))" using 3 by (auto simp: seek_offset_def Let_def)
    ultimately show ?thesis using that by simp
  qed
qed

lemma sst_get_correct:
  assumes es: "es \<noteq> []" "bm_ok es" "\<forall>e \<in> set es. fits e"
    and t: "ss_data t = enc_all es" "bloom_ok (ss_bloom t)" "\<forall>e \<in> set es. bloom_contains (ss_bloom t) (user_key (fst e)) = Inr True"
      "index_ok es (ss_index t)" "tm_min_key (ss_meta t) = user_key (fst (hd es))" "tm_max_key (ss_meta t) = user_key (fst (last es))"
  shows "sst_get t key snapshot = Inr (run_get es key snapshot)"
proof -
  obtain e0 es0 where e0: "es = e0 # es0" using es(1) by (cases es) auto
  have absent: "run_get es key snapshot = LAbsent" if "\<forall>e \<in> set es. user_key (fst e) \<noteq> key"
    using that unfolding run_get_absent_iff by blast
  have srt: "sorted (ukeys es)" by (rule sorted_user_keys [OF es(2)])
  show ?thesis
  proof (cases "may_contain (ss_meta t) key")
    case False
    have "user_key (fst e) \<noteq> key" if "e \<in> set es" for e
    proof -
      have "user_key (fst (hd es)) \<le> user_key (fst e)" using srt that by (auto simp: e0)
      moreover have "user_key (fst e) \<le> user_key (fst (last es))"
        using srt that by (cases es rule: rev_cases) (auto simp: sorted_append)
      ultimately show ?thesis using False by (auto simp: may_contain_def t)
    qed
    then show ?thesis using absent False by (simp add: sst_get_def)
  next
    case True
    obtain b where b: "bloom_contains (ss_bloom t) key = Inr b" using bloom_contains_spec [OF t(2)] by blast
    show ?thesis
    proof (cases b)
      case False
      then have "\<forall>e \<in> set es. user_key (fst e) \<noteq> key" using t(3) b by auto
      then show ?thesis using absent b False by (simp add: sst_get_def)
    next
      case hit: True
      obtain es1 es2 where s: "es = es1 @ es2" "seek_offset (ss_index t) key = length (enc_all es1)" "\<forall>e \<in> set es1. user_key (fst e) < key"
        by (rule seek_offset_spec [OF t(4) es(2)])
      have "bm_ok es2" "\<forall>e \<in> set es2. fits e" using es(2,3) by (auto simp: s(1) bm_ok_def sorted_wrt_append)
      then have "get_loop (ss_data t) key snapshot (seek_offset (ss_index t) key) = Inr (run_get es2 key snapshot)"
        using get_loop_enc [of es2 es1] by (simp add: t(1) s)
      moreover have "run_get es1 key snapshot = LAbsent" using s(3) unfolding run_get_absent_iff by fastforce
      then have "run_get es key snapshot = run_get es2 key snapshot" by (simp add: s(1) run_get_append)
      ultimately show ?thesis using True b hit es(1) by (simp add: sst_get_def t(1) e0)
    qed
  qed
qed

lemma bslice_prefix [simp]: "bslice (xs @ ys) 0 (length xs) = xs"
  by (simp add: bslice_def)

lemma footer_fields:
  assumes "bo \<le> U64_MAX" "bl \<le> U64_MAX" "io \<le> U64_MAX" "il \<le> U64_MAX" "ic \<le> U64_MAX" "ec \<le> U64_MAX"
    "mn \<le> U64_MAX" "mx \<le> U64_MAX" "c < 256 ^ 4"
    and "io = bo + bl" "n = io + il + FOOTER_LEN" "io + il \<le> U64_MAX"
  shows "footer_parse (to_le 8 bo @ to_le 8 bl @ to_le 8 io @ to_le 8 il @ to_le 8 ic @ to_le 8 ec @ to_le 8 mn @ to_le 8 mx @
      to_le 4 c @ to_le 8 SSTABLE_MAGIC) n =
    Inr \<lparr>ft_bloom_offset = bo, ft_bloom_len = bl, ft_index_offset = io, ft_index_len = il, ft_index_count = ic,
      ft_entry_count = ec, ft_min_seqno = mn, ft_max_seqno = mx, ft_crc = c\<rparr>"
proof -
  let ?f = "to_le 8 bo @ to_le 8 bl @ to_le 8 io @ to_le 8 il @ to_le 8 ic @ to_le 8 ec @ to_le 8 mn @ to_le 8 mx @
      to_le 4 c @ to_le 8 SSTABLE_MAGIC"
  have "read_le ?f 0 8 = bo" "read_le ?f 8 8 = bl" "read_le ?f 16 8 = io" "read_le ?f 24 8 = il" "read_le ?f 32 8 = ic"
    "read_le ?f 40 8 = ec" "read_le ?f 48 8 = mn" "read_le ?f 56 8 = mx" "read_le ?f 64 4 = c" "read_le ?f 68 8 = SSTABLE_MAGIC"
    using assms by (simp_all add: read_le_def bslice_def from_le_to_le U64_MAX_def SSTABLE_MAGIC_def del: to_le.simps)
  then show ?thesis using assms by (simp add: footer_parse_def Let_def FOOTER_LEN_def U64_MAX_def)
qed

lemma open_written:
  assumes es: "es \<noteq> []" "bm_ok es" "\<forall>e \<in> set es. fits e"
    and w: "write_table crc n es tid level = Inr (m, file)" and len: "length file \<le> U64_MAX"
  obtains t where "sst_open crc file tid level = Inr t" "ss_meta t = m" "ss_data t = enc_all es"
    "bloom_ok (ss_bloom t)" "\<forall>e \<in> set es. bloom_contains (ss_bloom t) (user_key (fst e)) = Inr True" "index_ok es (ss_index t)"
    "tm_min_key m = user_key (fst (hd es))" "tm_max_key m = user_key (fst (last es))" "tm_id m = tid" "tm_level m = level"
proof -
  have "sorted (ukeys ([] @ es))" using sorted_user_keys [OF es(2)] by simp
  then obtain w' where w': "rfold sw_append es (sw_create n) = Inr w'" "writer_inv es w'"
    using writer_run [OF writer_inv_create, of es n] es(3) by auto
  define bb where "bb = bloom_encode (sw_bloom w')"
  define ib where "ib = encode_index (sw_index w')"
  define body where "body = enc_all es @ bb @ ib"
  let ?d = "length (enc_all es)"
  have I: "sw_body w' = enc_all es" "sw_data_bytes w' = ?d" "sw_entry_count w' = length es"
      "sw_min_key w' = Some (user_key (fst (hd es)))" "sw_max_key w' = user_key (fst (last es))"
      "sw_min_seqno w' \<le> U64_MAX" "sw_max_seqno w' \<le> U64_MAX" "bloom_ok (sw_bloom w')"
      "\<forall>e \<in> set es. bloom_contains (sw_bloom w') (user_key (fst e)) = Inr True" "index_ok es (sw_index w')"
    using w'(2) es(1) by (simp_all add: writer_inv_def)
  have fin: "sw_finish crc tid level w' = (m, file)" using w w'(1) by (simp add: write_table_def)
  let ?footer = "to_le 8 ?d @ to_le 8 (length bb) @ to_le 8 (?d + length bb) @ to_le 8 (length ib) @
      to_le 8 (length (sw_index w')) @ to_le 8 (length es) @ to_le 8 (sw_min_seqno w') @ to_le 8 (sw_max_seqno w') @
      to_le 4 (unat (crc body)) @ to_le 8 SSTABLE_MAGIC"
  have fl: "file = body @ ?footer" and m: "m = \<lparr>tm_id = tid, tm_level = level, tm_min_key = user_key (fst (hd es)),
      tm_max_key = user_key (fst (last es)), tm_min_seqno = sw_min_seqno w', tm_max_seqno = sw_max_seqno w',
      tm_entry_count = length es, tm_file_bytes = ?d + length bb + length ib + FOOTER_LEN\<rparr>"
    using fin es(1) by (auto simp: sw_finish_def sw_emit_def Let_def I body_def bb_def ib_def)
  have cnt: "length es \<le> ?d" "length (sw_index w') \<le> length ib"
  proof -
    show "length es \<le> ?d"
    proof (induction es)
      case (Cons e es)
      then show ?case using length_encode_entry [of e] by simp
    qed simp
    have "length idx \<le> length (encode_index idx)" for idx
      by (induction idx) (auto simp: encode_index_def)
    then show "length (sw_index w') \<le> length ib" by (simp add: ib_def)
  qed
  have lens: "length file = ?d + length bb + length ib + FOOTER_LEN" "length body = ?d + length bb + length ib"
    by (simp_all add: fl body_def FOOTER_LEN_def)
  have fp: "footer_parse ?footer (length file) = Inr \<lparr>ft_bloom_offset = ?d, ft_bloom_len = length bb,
      ft_index_offset = ?d + length bb, ft_index_len = length ib, ft_index_count = length (sw_index w'),
      ft_entry_count = length es, ft_min_seqno = sw_min_seqno w', ft_max_seqno = sw_max_seqno w', ft_crc = unat (crc body)\<rparr>"
    by (rule footer_fields) (use lens len cnt I unsigned_less [of "crc body"] in auto)
  have sl: "slice_range body ?d (?d + length bb) = Inr bb" "slice_range body (?d + length bb) (length body) = Inr ib"
      "slice_range body 0 ?d = Inr (enc_all es)"
    by (simp_all add: slice_range_def body_def bslice_def)
  have idx: "\<forall>(k, off) \<in> set (sw_index w'). length k < 256 ^ 4 \<and> off \<le> U64_MAX"
  proof (intro ballI, clarify)
    fix k off assume "(k, off) \<in> set (sw_index w')"
    note f = index_fields [OF I(10) es(3) this]
    have "?d \<le> U64_MAX" using lens(1) len by linarith
    then show "length k < 256 ^ 4 \<and> off \<le> U64_MAX" using f by linarith
  qed
  have di: "decode_index ib (length (sw_index w')) = Inr (sw_index w')"
    using decode_index_enc [OF idx, of "[]"] by (simp add: decode_index_def ib_def)
  have bd: "bloom_decode bb = Inr (sw_bloom w')" unfolding bb_def by (rule bloom_decode_encode [OF I(8)])
  obtain e0 es0 where e0: "es = e0 # es0" using es(1) by (cases es) auto
  have kb: "scan_key_bounds (enc_all es) = Inr (user_key (fst (hd es)), user_key (fst (last es)))"
    using decode_at [of e0 0 "[]" "enc_all es0"] bounds_loop_enc [of es0 "[e0]"] es(3)
    by (auto simp: scan_key_bounds_def e0)
  let ?t = "\<lparr>ss_meta = m, ss_data = enc_all es, ss_bloom = sw_bloom w', ss_index = sw_index w'\<rparr>"
  have split: "drop (length file - FOOTER_LEN) file = ?footer" "take (length file - FOOTER_LEN) file = body"
    using lens by (simp_all add: fl)
  have "\<not> length file < FOOTER_LEN" using lens(1) by simp
  then have "sst_open crc file tid level = Inr ?t"
    unfolding sst_open_def Let_def split
    by (simp only: fp rbind_simps footer.select_convs sl bd di kb prod.case if_False if_True simp_thms) (simp add: m lens(1))
  then show ?thesis using that [of ?t] I m by simp
qed

text \<open>C12. A table file, written and read back. Writing a sorted run of entries of admissible size
  succeeds; the file opens (footer, checksum, filter, index and key bounds all check out) to a table
  with the summary the writer returned, from which all entries are read back, and a lookup returns
  the newest version at or below the snapshot: the filter, the key range and the sparse index skip
  nothing that is there.\<close>

theorem table_roundtrip:
  assumes "es \<noteq> []" "bm_ok es" "\<forall>e \<in> set es. fits e"
  shows "\<exists>m file. write_table crc n es tid level = Inr (m, file) \<and>
     (length file \<le> U64_MAX \<longrightarrow>
       (\<exists>t. sst_open crc file tid level = Inr t \<and> ss_meta t = m \<and> sst_entries t = Inr es \<and>
          (\<forall>key snapshot. \<exists>r. sst_get t key snapshot = Inr r \<and> newest (set es) key snapshot r)))"
proof -
  have "sorted (ukeys ([] @ es))" using sorted_user_keys [OF assms(2)] by simp
  then obtain w' where "rfold sw_append es (sw_create n) = Inr w'"
    using writer_run [OF writer_inv_create, of es n] assms(3) by auto
  moreover obtain m fb where "sw_finish crc tid level w' = (m, fb)" by (cases "sw_finish crc tid level w'")
  ultimately have w: "write_table crc n es tid level = Inr (m, fb)" by (simp add: write_table_def)
  have "\<exists>t. sst_open crc fb tid level = Inr t \<and> ss_meta t = m \<and> sst_entries t = Inr es \<and>
      (\<forall>key snapshot. \<exists>r. sst_get t key snapshot = Inr r \<and> newest (set es) key snapshot r)" if len: "length fb \<le> U64_MAX"
  proof -
    obtain t where t: "sst_open crc fb tid level = Inr t" "ss_meta t = m" "ss_data t = enc_all es"
      "bloom_ok (ss_bloom t)" "\<forall>e \<in> set es. bloom_contains (ss_bloom t) (user_key (fst e)) = Inr True" "index_ok es (ss_index t)"
      "tm_min_key m = user_key (fst (hd es))" "tm_max_key m = user_key (fst (last es))"
      by (rule open_written [OF assms w len])
    have "sst_get t key snapshot = Inr (run_get es key snapshot)" for key snapshot
      by (rule sst_get_correct [OF assms t(3-6)]) (simp_all add: t)
    moreover have "sst_entries t = Inr es" using entries_loop_enc [OF assms(3), of "[]"] by (simp add: sst_entries_def t(3))
    ultimately show ?thesis using t(1,2) run_get_newest [OF assms(2)] by auto
  qed
  then show ?thesis using w by blast
qed

theorem table_roundtrip_witness:
  "\<exists>m file. write_table (\<lambda>_. 0) 2 [(IKey [1] 9, None), (IKey [1] 5, Some [7])] 1 0 = Inr (m, file)"
  using table_roundtrip [of "[(IKey [1] 9, None), (IKey [1] 5, Some [7])]" "\<lambda>_. 0" 2 1 0]
  by (auto simp: fits_def less_internal_key_def U64_MAX_def MAX_ENTRY_FIELD_def)

end
