(* ===== verification/Levels.thy ===== *)
theory Levels
  imports Complex_Main Sstable "HOL-Library.Product_Lexorder"
begin

text \<open>
  Levels of tables and compaction (\<open>lsm/compaction.rs\<close>): which tables are live at each level, how
  a compaction is picked, and the merge of sorted runs that drops versions no snapshot can read.
  Scores are quotients of integers converted to \<open>f64\<close>; the quotient is the parameter \<open>fdiv\<close>, and
  nothing below depends on its rounding.
\<close>

section \<open>Configuration and jobs\<close>

record level_config =
  lv_l0_compaction_trigger :: nat
  lv_base_level_bytes :: nat
  lv_size_multiplier :: nat
  lv_max_levels :: nat

definition level_config_default :: level_config where
  "level_config_default =
     \<lparr>lv_l0_compaction_trigger = 4, lv_base_level_bytes = 8 * 1024 * 1024, lv_size_multiplier = 10,
      lv_max_levels = 7\<rparr>"

definition level_budget :: "level_config \<Rightarrow> nat \<Rightarrow> nat" where
  "level_budget c level =
     (if level = 0 then U64_MAX
      else min U64_MAX (lv_base_level_bytes c * min U64_MAX (lv_size_multiplier c ^ (level - 1))))"

record compaction_stats =
  cs_input_tables :: nat
  cs_entries_in :: nat
  cs_entries_out :: nat
  cs_versions_dropped :: nat
  cs_tombstones_dropped :: nat
  cs_bytes_in :: nat

record compaction_job =
  cj_source_level :: nat
  cj_target_level :: nat
  cj_source_tables :: "table_meta list"
  cj_target_tables :: "table_meta list"
  cj_score :: real

definition all_inputs :: "compaction_job \<Rightarrow> table_meta list" where
  "all_inputs j = cj_source_tables j @ cj_target_tables j"

definition input_bytes :: "compaction_job \<Rightarrow> nat" where
  "input_bytes j = sum_list (map tm_file_bytes (all_inputs j))"

definition is_bottom_most :: "level_config \<Rightarrow> compaction_job \<Rightarrow> bool" where
  "is_bottom_most c j \<longleftrightarrow> cj_target_level j + 1 \<ge> lv_max_levels c"

section \<open>The live tables\<close>

record level_manifest =
  lm_levels :: "table_meta list list"
  lm_config :: level_config
  lm_next_table_id :: nat

definition levels_new :: "level_config \<Rightarrow> level_manifest" where
  "levels_new c = \<lparr>lm_levels = replicate (lv_max_levels c) [], lm_config = c, lm_next_table_id = 1\<rparr>"

definition allocate_table_id :: "level_manifest \<Rightarrow> nat \<times> level_manifest" where
  "allocate_table_id m = (lm_next_table_id m, m\<lparr>lm_next_table_id := lm_next_table_id m + 1\<rparr>)"

definition reserve_table_id :: "nat \<Rightarrow> level_manifest \<Rightarrow> level_manifest" where
  "reserve_table_id tid m = m\<lparr>lm_next_table_id := max (lm_next_table_id m) tid\<rparr>"

definition all_tables :: "level_manifest \<Rightarrow> table_meta list" where
  "all_tables m = concat (lm_levels m)"

definition level_tables :: "level_manifest \<Rightarrow> nat \<Rightarrow> table_meta list" where
  "level_tables m l = (if l < length (lm_levels m) then lm_levels m ! l else [])"

definition has_data_below :: "level_manifest \<Rightarrow> nat \<Rightarrow> bytes \<Rightarrow> bytes \<Rightarrow> bool" where
  "has_data_below m level mn mx \<longleftrightarrow>
     list_ex (\<lambda>l. list_ex (\<lambda>t. tm_min_key t \<le> mx \<and> tm_max_key t \<ge> mn) (level_tables m l))
       [level + 1..<length (lm_levels m)]"

definition table_count :: "level_manifest \<Rightarrow> nat" where
  "table_count m = sum_list (map length (lm_levels m))"

definition total_bytes :: "level_manifest \<Rightarrow> nat" where
  "total_bytes m = sum_list (map tm_file_bytes (concat (lm_levels m)))"

definition level_bytes :: "level_manifest \<Rightarrow> nat \<Rightarrow> nat" where
  "level_bytes m l = sum_list (map tm_file_bytes (level_tables m l))"

text \<open>\<open>partition_point\<close> on a level sorted by smallest key: the first position not below.\<close>

definition insert_table :: "table_meta \<Rightarrow> table_meta list \<Rightarrow> table_meta list" where
  "insert_table t ts =
     (let pos = length (takeWhile (\<lambda>t'. tm_min_key t' < tm_min_key t) ts) in take pos ts @ t # drop pos ts)"

definition add_table :: "table_meta \<Rightarrow> level_manifest \<Rightarrow> level_manifest" where
  "add_table t m =
     (let level = tm_level t;
          levels = (if level \<ge> length (lm_levels m)
                    then lm_levels m @ replicate (level + 1 - length (lm_levels m)) [] else lm_levels m);
          m = m\<lparr>lm_levels := levels, lm_next_table_id := max (lm_next_table_id m) (tm_id t + 1)\<rparr>
      in if level = 0 then m\<lparr>lm_levels := (lm_levels m)[level := lm_levels m ! level @ [t]]\<rparr>
         else m\<lparr>lm_levels := (lm_levels m)[level := insert_table t (lm_levels m ! level)]\<rparr>)"

text \<open>Removes the first table with the id.\<close>

fun remove_first :: "('a \<Rightarrow> bool) \<Rightarrow> 'a list \<Rightarrow> 'a list" where
  "remove_first P [] = []"
| "remove_first P (x # xs) = (if P x then xs else x # remove_first P xs)"

definition remove_table :: "nat \<Rightarrow> nat \<Rightarrow> level_manifest \<Rightarrow> level_manifest" where
  "remove_table level tid m =
     (if level < length (lm_levels m)
      then m\<lparr>lm_levels := (lm_levels m)[level := remove_first (\<lambda>t. tm_id t = tid) (lm_levels m ! level)]\<rparr>
      else m)"

definition overlapping :: "level_manifest \<Rightarrow> nat \<Rightarrow> bytes \<Rightarrow> bytes \<Rightarrow> table_meta list" where
  "overlapping m level from to = filter (\<lambda>t. overlaps t from to) (level_tables m level)"

definition lookup_order :: "level_manifest \<Rightarrow> bytes \<Rightarrow> table_meta list" where
  "lookup_order m key =
     filter (\<lambda>t. may_contain t key) (rev (level_tables m 0)) @
     List.map_filter (\<lambda>l. List.find (\<lambda>t. may_contain t key) (level_tables m l)) [1..<length (lm_levels m)]"

section \<open>Picking a compaction\<close>

definition score :: "(nat \<Rightarrow> nat \<Rightarrow> real) \<Rightarrow> level_manifest \<Rightarrow> nat \<Rightarrow> real" where
  "score fdiv m level =
     (if level = 0 then fdiv (length (level_tables m 0)) (lv_l0_compaction_trigger (lm_config m))
      else
        let budget = level_budget (lm_config m) level in
        if budget = 0 then 0 else fdiv (level_bytes m level) budget)"

definition min_of :: "bytes list \<Rightarrow> bytes" where
  "min_of ks = (case ks of [] \<Rightarrow> [] | k # ks \<Rightarrow> fold min ks k)"

definition max_of :: "bytes list \<Rightarrow> bytes" where
  "max_of ks = (case ks of [] \<Rightarrow> [] | k # ks \<Rightarrow> fold max ks k)"

text \<open>The subtraction of one from the number of levels panics in a manifest without levels.\<close>

definition pick_compaction :: "(nat \<Rightarrow> nat \<Rightarrow> real) \<Rightarrow> level_manifest \<Rightarrow> compaction_job option res" where
  "pick_compaction fdiv m =
     (if length (lm_levels m) = 0 then Inl Panic
      else
        let last_level = length (lm_levels m) - 1;
            (best_level, best_score) =
              fold (\<lambda>cur acc. if snd cur > snd acc then cur else acc)
                (map (\<lambda>l. (l, score fdiv m l)) (filter (\<lambda>l. l < last_level) [0..<length (lm_levels m)])) (0, 0)
        in
        if best_score < 1 then Inr None
        else
          let source_tables =
                (if best_level = 0 then level_tables m 0
                 else take 1 (sort_key (\<lambda>t. - int (tm_file_bytes t)) (level_tables m best_level)))
          in
          if source_tables = [] then Inr None
          else
            let from = min_of (map tm_min_key source_tables);
                to = max_of (map tm_max_key source_tables);
                target_level = best_level + 1
            in Inr (Some \<lparr>cj_source_level = best_level, cj_target_level = target_level,
                 cj_source_tables = source_tables,
                 cj_target_tables = overlapping m target_level from to, cj_score = best_score\<rparr>))"

definition apply_job :: "compaction_job \<Rightarrow> table_meta list \<Rightarrow> level_manifest \<Rightarrow> level_manifest" where
  "apply_job j outputs m =
     fold add_table outputs
       (fold (\<lambda>t. remove_table (cj_target_level j) (tm_id t)) (cj_target_tables j)
         (fold (\<lambda>t. remove_table (cj_source_level j) (tm_id t)) (cj_source_tables j) m))"

section \<open>Merging runs\<close>

text \<open>
  The loop over the sorted entries: the output, and how many versions and tombstones were
  dropped. \<open>lst\<close> is the key of the entry pushed last.
\<close>

fun merge_loop ::
  "nat \<Rightarrow> bool \<Rightarrow> bytes option \<Rightarrow> bool \<Rightarrow> internal_key option \<Rightarrow> lsm_entry list \<Rightarrow> lsm_entry list \<times> nat \<times> nat" where
  "merge_loop retain_floor drop_tombstones current floor_covered lst [] = ([], 0, 0)"
| "merge_loop retain_floor drop_tombstones current floor_covered lst ((ik, slot) # es) =
     (let new_key = (current \<noteq> Some (user_key ik)) in
      if \<not> new_key \<and> floor_covered then
        (case merge_loop retain_floor drop_tombstones current floor_covered lst es of
           (out, v, t) \<Rightarrow> (out, v + 1, t))
      else
        let current = Some (user_key ik);
            floor_covered = (if new_key then False else floor_covered)
        in
        if lst = Some ik then
          (case merge_loop retain_floor drop_tombstones current floor_covered lst es of
             (out, v, t) \<Rightarrow> (out, v + 1, t))
        else
          let floor_covered = (if seqno ik \<le> retain_floor then True else floor_covered) in
          if slot = None \<and> drop_tombstones \<and> seqno ik \<le> retain_floor then
            (case merge_loop retain_floor drop_tombstones current floor_covered lst es of
               (out, v, t) \<Rightarrow> (out, v, t + 1))
          else
            (case merge_loop retain_floor drop_tombstones current floor_covered (Some ik) es of
               (out, v, t) \<Rightarrow> ((ik, slot) # out, v, t)))"

definition flatten_runs :: "lsm_entry list list \<Rightarrow> (nat \<times> lsm_entry) list" where
  "flatten_runs runs = concat (map (\<lambda>(i, run). map (Pair i) run) (enumerate 0 runs))"

definition sorted_runs :: "lsm_entry list list \<Rightarrow> lsm_entry list" where
  "sorted_runs runs = map snd (sort_key (\<lambda>(i, e). (fst e, i)) (flatten_runs runs))"

definition merge_runs ::
  "lsm_entry list list \<Rightarrow> nat \<Rightarrow> bool \<Rightarrow> lsm_entry list \<times> compaction_stats" where
  "merge_runs runs retain_floor drop_tombstones =
     (let all = flatten_runs runs in
      case merge_loop retain_floor drop_tombstones None False None (sorted_runs runs) of
        (out, v, t) \<Rightarrow>
          (out, \<lparr>cs_input_tables = length runs, cs_entries_in = length all, cs_entries_out = length out,
                 cs_versions_dropped = v, cs_tombstones_dropped = t,
                 cs_bytes_in = sum_list (map (\<lambda>(i, ik, slot). length (user_key ik) +
                   (case slot of None \<Rightarrow> 0 | Some x \<Rightarrow> length x)) all)\<rparr>))"

section \<open>The merge keeps every read of a live snapshot\<close>

lemma sorted_runs_facts:
  "sorted (map fst (sorted_runs runs))" "set (sorted_runs runs) = \<Union> (set ` set runs)"
  "length (sorted_runs runs) = length (flatten_runs runs)"
proof -
  let ?f = "\<lambda>(i :: nat, e :: lsm_entry). (fst e, i)"
  let ?s = "sort_key ?f (flatten_runs runs)"
  have "sorted (map ?f ?s)" by simp
  then have "sorted_wrt (\<lambda>a b. ?f a \<le> ?f b) ?s" by (simp add: sorted_map)
  then have "sorted_wrt (\<lambda>a b. fst (snd a) \<le> fst (snd b)) ?s"
    by (rule sorted_wrt_mono_rel [rotated]) (auto simp: less_eq_prod_def)
  then show "sorted (map fst (sorted_runs runs))" by (simp add: sorted_runs_def sorted_map)
  have "snd ` set (flatten_runs runs) = \<Union> (set ` set runs)"
  proof -
    have "snd ` set (flatten_runs runs) = \<Union> (set ` snd ` set (enumerate 0 runs))"
      by (auto simp: flatten_runs_def image_iff) force
    then show ?thesis by (metis map_snd_enumerate set_map)
  qed
  then show "set (sorted_runs runs) = \<Union> (set ` set runs)" by (simp add: sorted_runs_def)
qed (simp add: sorted_runs_def)

text \<open>One step of the loop, on the output and the counts.\<close>

definition bump_v :: "lsm_entry list \<times> nat \<times> nat \<Rightarrow> lsm_entry list \<times> nat \<times> nat" where
  "bump_v r = (fst r, fst (snd r) + 1, snd (snd r))"

definition bump_t :: "lsm_entry list \<times> nat \<times> nat \<Rightarrow> lsm_entry list \<times> nat \<times> nat" where
  "bump_t r = (fst r, fst (snd r), snd (snd r) + 1)"

definition push_out :: "lsm_entry \<Rightarrow> lsm_entry list \<times> nat \<times> nat \<Rightarrow> lsm_entry list \<times> nat \<times> nat" where
  "push_out e r = (e # fst r, snd r)"

lemma merge_loop_step:
  "merge_loop fl dt cur cov lst ((ik, slot) # es) =
     (if cur = Some (user_key ik) \<and> cov then bump_v (merge_loop fl dt cur cov lst es)
      else if lst = Some ik then bump_v (merge_loop fl dt (Some (user_key ik)) False lst es)
      else if slot = None \<and> dt \<and> seqno ik \<le> fl then bump_t (merge_loop fl dt (Some (user_key ik)) True lst es)
      else push_out (ik, slot) (merge_loop fl dt (Some (user_key ik)) (seqno ik \<le> fl) (Some ik) es))"
  by (cases cov; cases "cur = Some (user_key ik)"; cases "seqno ik \<le> fl")
    (auto simp: bump_v_def bump_t_def push_out_def Let_def split: prod.splits)

declare merge_loop.simps(2) [simp del]

lemmas merge_acc = bump_v_def bump_t_def push_out_def

lemma merge_loop_subset: "set (fst (merge_loop fl dt cur cov lst es)) \<subseteq> set es"
proof (induction es arbitrary: cur cov lst)
  case (Cons e es)
  obtain ik slot where e: "e = (ik, slot)" by (cases e)
  show ?case
    using Cons [of cur cov lst] Cons [of "Some (user_key ik)" False lst] Cons [of "Some (user_key ik)" True lst]
      Cons [of "Some (user_key ik)" "seqno ik \<le> fl" "Some ik"]
    by (simp only: e merge_loop_step merge_acc fst_conv list.set split: if_splits) blast
qed simp

lemma merge_loop_counts:
  "case merge_loop fl dt cur cov lst es of (out, v, t) \<Rightarrow> length es = length out + v + t \<and> (\<not> dt \<longrightarrow> t = 0)"
proof (induction es arbitrary: cur cov lst)
  case (Cons e es)
  obtain ik slot where e: "e = (ik, slot)" by (cases e)
  show ?case
    using Cons [of cur cov lst] Cons [of "Some (user_key ik)" False lst] Cons [of "Some (user_key ik)" True lst]
      Cons [of "Some (user_key ik)" "seqno ik \<le> fl" "Some ik"]
    by (auto simp: e merge_loop_step merge_acc split: prod.splits if_splits)
qed simp

lemma merge_loop_sorted:
  assumes "sorted (map fst es)" "\<forall>e \<in> set es. \<forall>ik. lst = Some ik \<longrightarrow> ik \<le> fst e"
  shows "bm_ok (fst (merge_loop fl dt cur cov lst es)) \<and>
     (\<forall>e \<in> set (fst (merge_loop fl dt cur cov lst es)). \<forall>ik. lst = Some ik \<longrightarrow> ik < fst e)"
  using assms
proof (induction es arbitrary: cur cov lst)
  case (Cons e es)
  obtain ik slot where e: "e = (ik, slot)" by (cases e)
  have s: "sorted (map fst es)" "\<forall>e \<in> set es. ik \<le> fst e" "\<forall>e \<in> set es. \<forall>k. lst = Some k \<longrightarrow> k \<le> fst e"
    "\<forall>k. lst = Some k \<longrightarrow> k \<le> ik" using Cons.prems by (auto simp: e)
  note skip = Cons.IH [OF s(1,3)]
  let ?r = "merge_loop fl dt (Some (user_key ik)) (seqno ik \<le> fl) (Some ik) es"
  have "bm_ok (fst ?r) \<and> (\<forall>e \<in> set (fst ?r). \<forall>k. Some ik = Some k \<longrightarrow> k < fst e)"
    by (rule Cons.IH [OF s(1)]) (use s(2) in auto)
  moreover have "k < ik" if "lst = Some k" "lst \<noteq> Some ik" for k using s(4) that by (auto simp: order_le_less)
  ultimately have "bm_ok ((ik, slot) # fst ?r) \<and> (\<forall>e \<in> set ((ik, slot) # fst ?r). \<forall>k. lst = Some k \<longrightarrow> k < fst e)"
    if "lst \<noteq> Some ik" using that by (auto intro: less_trans)
  then show ?case using skip
    by (simp only: e merge_loop_step merge_acc fst_conv split: if_splits) blast
qed simp

text \<open>
  What the merge may do to a read: nothing, except that a tombstone may disappear when tombstones
  are dropped.
\<close>

definition keeps :: "bool \<Rightarrow> lookup \<Rightarrow> lookup \<Rightarrow> bool" where
  "keeps dt r r' \<longleftrightarrow> r' = r \<or> (dt \<and> r = LDeleted \<and> r' = LAbsent)"

lemma merge_loop_covered:
  assumes "sorted (map fst es)" "\<forall>e \<in> set es. k \<le> user_key (fst e)"
  shows "\<forall>e \<in> set (fst (merge_loop fl dt (Some k) True lst es)). user_key (fst e) \<noteq> k"
  using assms
proof (induction es)
  case (Cons e es)
  obtain ik slot where e: "e = (ik, slot)" by (cases e)
  have ih: "\<forall>e \<in> set (fst (merge_loop fl dt (Some k) True lst es)). user_key (fst e) \<noteq> k"
    by (rule Cons.IH) (use Cons.prems in auto)
  show ?case
  proof (cases "user_key ik = k")
    case True
    then show ?thesis using ih by (simp add: e merge_loop_step merge_acc)
  next
    case False
    have "k < user_key (fst e')" if "e' \<in> set (e # es)" for e'
    proof -
      have "k < user_key ik" using Cons.prems(2) False by (simp add: e order_le_less)
      moreover have "ik \<le> fst e'" using Cons.prems(1) that by (auto simp: e)
      then have "user_key ik \<le> user_key (fst e')" by (auto simp: less_eq_internal_key_def less_internal_key_def)
      ultimately show ?thesis by simp
    qed
    then show ?thesis using merge_loop_subset [of fl dt "Some k" True lst "e # es"] by fastforce
  qed
qed simp

lemma merge_loop_keeps:
  assumes "sorted (map fst es)" "fl \<le> snapshot"
    and "\<forall>k. cur = Some k \<longrightarrow> (\<forall>e \<in> set es. k \<le> user_key (fst e))"
    and "cur = Some key \<longrightarrow> \<not> cov \<and> (\<forall>sq. lst = Some (IKey key sq) \<longrightarrow> snapshot < sq)"
    and "\<forall>sq. lst = Some (IKey key sq) \<longrightarrow> cur = Some key \<or> (\<forall>e \<in> set es. user_key (fst e) \<noteq> key)"
  shows "keeps dt (run_get es key snapshot) (run_get (fst (merge_loop fl dt cur cov lst es)) key snapshot)"
  using assms
proof (induction es arbitrary: cur cov lst)
  case (Cons e es)
  obtain ik slot where e: "e = (ik, slot)" by (cases e)
  have s: "sorted (map fst es)" "\<forall>e \<in> set es. ik \<le> fst e" using Cons.prems(1) by (auto simp: e)
  have ge: "\<forall>k. Some (user_key ik) = Some k \<longrightarrow> (\<forall>e \<in> set es. k \<le> user_key (fst e))"
    using s(2) by (auto simp: less_eq_internal_key_def less_internal_key_def)
  have cur: "\<forall>k. cur = Some k \<longrightarrow> (\<forall>e \<in> set es. k \<le> user_key (fst e))" using Cons.prems(3) by simp
  have gone: "\<forall>e \<in> set es. user_key (fst e) \<noteq> key" if "lst = Some (IKey key sq)" "user_key ik \<noteq> key" for sq
  proof (cases "cur = Some key")
    case True
    then have "key < user_key ik" using Cons.prems(3) that(2) by (auto simp: e order_le_less)
    then show ?thesis using ge by fastforce
  next
    case False
    then show ?thesis using Cons.prems(5) that(1) by simp
  qed
  show ?case
  proof (cases "user_key ik = key")
    case True
    have nc: "\<not> (cur = Some (user_key ik) \<and> cov)" using Cons.prems(4) True by simp
    have dup: "snapshot < seqno ik" if "lst = Some ik"
      using Cons.prems(4,5) True that by (cases ik) (auto simp: e)
    have ih: "keeps dt (run_get es key snapshot) (run_get (fst (merge_loop fl dt (Some (user_key ik)) False lst' es)) key snapshot)"
      if "\<forall>sq. lst' = Some (IKey key sq) \<longrightarrow> snapshot < sq" for lst'
      by (rule Cons.IH [OF s(1) assms(2) ge]) (use True that in auto)
    show ?thesis
    proof (cases "seqno ik \<le> snapshot")
      case vis: True
      then have nd: "lst \<noteq> Some ik" using dup by auto
      have "run_get (fst (merge_loop fl dt (Some (user_key ik)) True lst es)) key snapshot = LAbsent"
        using merge_loop_covered [of es key fl dt lst] s(1) ge True unfolding run_get_absent_iff by fastforce
      then show ?thesis using nc nd vis True
        by (auto simp: e merge_loop_step merge_acc keeps_def answer_def)
    next
      case inv: False
      then have "\<not> seqno ik \<le> fl" using assms(2) by simp
      moreover have "keeps dt (run_get es key snapshot) (run_get (fst (merge_loop fl dt (Some (user_key ik)) False (Some ik) es)) key snapshot)"
        by (rule ih) (use inv in auto)
      moreover have "keeps dt (run_get es key snapshot) (run_get (fst (merge_loop fl dt (Some (user_key ik)) False lst es)) key snapshot)"
        if "lst = Some ik" by (rule ih) (use dup that in auto)
      ultimately show ?thesis using nc inv by (auto simp: e merge_loop_step merge_acc)
    qed
  next
    case False
    have ih: "keeps dt (run_get es key snapshot) (run_get (fst (merge_loop fl dt (Some (user_key ik)) cov' lst' es)) key snapshot)"
      if "lst' = lst \<or> lst' = Some ik" for cov' lst'
      by (rule Cons.IH [OF s(1) assms(2) ge]) (use False gone that in auto)
    then show ?thesis using False by (auto simp: e merge_loop_step merge_acc)
  qed
qed (simp add: keeps_def)

lemma merge_runs_keeps:
  assumes "retain_floor \<le> snapshot"
  shows "keeps dt (run_get (sorted_runs runs) key snapshot) (run_get (fst (merge_runs runs retain_floor dt)) key snapshot)"
proof -
  have "fst (merge_runs runs retain_floor dt) = fst (merge_loop retain_floor dt None False None (sorted_runs runs))"
    by (simp add: merge_runs_def Let_def split: prod.splits)
  then show ?thesis
    using merge_loop_keeps [OF sorted_runs_facts(1) assms, where cur = None and cov = False and lst = None and key = key and dt = dt ]
    by simp
qed

lemma merge_runs_facts:
  shows "bm_ok (fst (merge_runs runs fl dt))" "set (fst (merge_runs runs fl dt)) \<subseteq> \<Union> (set ` set runs)"
    "cs_entries_in (snd (merge_runs runs fl dt)) = cs_entries_out (snd (merge_runs runs fl dt)) +
       cs_versions_dropped (snd (merge_runs runs fl dt)) + cs_tombstones_dropped (snd (merge_runs runs fl dt))"
proof -
  let ?l = "merge_loop fl dt None False None (sorted_runs runs)"
  have out: "fst (merge_runs runs fl dt) = fst ?l" by (simp add: merge_runs_def Let_def split: prod.splits)
  show "bm_ok (fst (merge_runs runs fl dt))"
    using merge_loop_sorted [where lst = None, OF sorted_runs_facts(1) [of runs]] by (simp add: out)
  show "set (fst (merge_runs runs fl dt)) \<subseteq> \<Union> (set ` set runs)"
    using merge_loop_subset [of fl dt None False None "sorted_runs runs"] by (simp add: out sorted_runs_facts(2))
  show "cs_entries_in (snd (merge_runs runs fl dt)) = cs_entries_out (snd (merge_runs runs fl dt)) +
       cs_versions_dropped (snd (merge_runs runs fl dt)) + cs_tombstones_dropped (snd (merge_runs runs fl dt))"
    using merge_loop_counts [where fl = fl and dt = dt and cur = None and cov = False and lst = None and es = "sorted_runs runs"] sorted_runs_facts(3) [of runs]
    by (auto simp: merge_runs_def Let_def split: prod.splits)
qed

text \<open>C13. Compaction's merge. The output is a strictly sorted part of the input, every input entry is
  accounted for, and for every snapshot at or above the retain floor the newest version of every key
  in the output is the newest version in all inputs together; when tombstones are dropped, a deleted
  key may instead have no version left.\<close>

theorem merge_preserves_reads:
  assumes "retain_floor \<le> snapshot"
  shows "case merge_runs runs retain_floor dt of (out, st) \<Rightarrow>
     bm_ok out \<and> set out \<subseteq> \<Union> (set ` set runs) \<and>
     cs_entries_in st = cs_entries_out st + cs_versions_dropped st + cs_tombstones_dropped st \<and>
     (\<exists>r. newest (\<Union> (set ` set runs)) key snapshot r \<and>
        (run_get out key snapshot = r \<or> (dt \<and> r = LDeleted \<and> run_get out key snapshot = LAbsent)))"
proof -
  have "newest (\<Union> (set ` set runs)) key snapshot (run_get (sorted_runs runs) key snapshot)"
    using run_get_newest_sorted [OF sorted_runs_facts(1) [of runs], of key snapshot] by (simp add: sorted_runs_facts(2))
  then show ?thesis
    using merge_runs_facts [of runs retain_floor dt] merge_runs_keeps [OF assms, of dt runs key]
    by (auto simp: keeps_def split: prod.splits)
qed

theorem merge_preserves_reads_witness:
  "\<exists>r. newest {(IKey [1] 5, Some [7]), (IKey [1] 9, None)} [1] 9 r \<and>
     (run_get (fst (merge_runs [[(IKey [1] 9, None)], [(IKey [1] 5, Some [7])]] 9 True)) [1] 9 = r \<or> r = LDeleted)"
  using merge_preserves_reads [where retain_floor = 9 and snapshot = 9 and key = "[1]" and dt = True and
      runs = "[[(IKey [1] 9, None)], [(IKey [1] 5, Some [7])]]"]
  by (auto split: prod.splits)

end
