(* ===== verification/Lsm_Manifest.thy ===== *)
theory Lsm_Manifest
  imports Frames Levels
begin

text \<open>
  The durable record of which tables are live (\<open>lsm/manifest.rs\<close>): a log of edits framed like the
  write-ahead log. The checksum and the encoding of edits (\<open>bincode\<close>) are parameters. \<open>ml_io\<close> holds
  the outcomes the environment has in store for system calls, as in the write-ahead log:
  \<open>Some k\<close> makes the call fail, a write after \<open>k\<close> bytes; \<open>None\<close> and the empty list make it succeed.
\<close>

definition MANIFEST_MAX_RECORD :: nat where
  "MANIFEST_MAX_RECORD = 16 * 1024 * 1024"

definition COMPACT_AFTER_EDITS :: nat where
  "COMPACT_AFTER_EDITS = 1024"

datatype manifest_edit =
    AddTable table_meta
  | RemoveTable nat nat
  | FullSnapshot "table_meta list" nat
  | SeqCheckpoint nat
  | Batch "manifest_edit list"

record manifest_state =
  ms_tables :: "table_meta list"
  ms_next_table_id :: nat
  ms_checkpoint_seqno :: nat
  ms_edits_replayed :: nat
  ms_truncated_bytes :: nat
  ms_valid_bytes :: nat

definition manifest_state_init :: manifest_state where
  "manifest_state_init =
     \<lparr>ms_tables = [], ms_next_table_id = 1, ms_checkpoint_seqno = 0, ms_edits_replayed = 0,
      ms_truncated_bytes = 0, ms_valid_bytes = 0\<rparr>"

section \<open>Replaying edits\<close>

fun apply_edit :: "manifest_edit \<Rightarrow> manifest_state \<Rightarrow> manifest_state" where
  "apply_edit (AddTable m) s =
     s\<lparr>ms_next_table_id := max (ms_next_table_id s) (tm_id m + 1),
       ms_tables := filter (\<lambda>t. tm_id t \<noteq> tm_id m) (ms_tables s) @ [m]\<rparr>"
| "apply_edit (RemoveTable level tid) s =
     s\<lparr>ms_tables := filter (\<lambda>t. \<not> (tm_id t = tid \<and> tm_level t = level)) (ms_tables s)\<rparr>"
| "apply_edit (FullSnapshot tables next_id) s =
     s\<lparr>ms_tables := tables,
       ms_next_table_id := fold (\<lambda>t n. max n (tm_id t + 1)) tables (max next_id 1)\<rparr>"
| "apply_edit (SeqCheckpoint sq) s = s\<lparr>ms_checkpoint_seqno := max (ms_checkpoint_seqno s) sq\<rparr>"
| "apply_edit (Batch edits) s = fold apply_edit edits s"

text \<open>The replay loop on the bytes from the cursor on; the result counts the good bytes.\<close>

function replay_loop ::
  "(bytes \<Rightarrow> u32) \<Rightarrow> (bytes \<Rightarrow> manifest_edit option) \<Rightarrow> bytes \<Rightarrow> manifest_state \<Rightarrow> (manifest_state \<times> nat) res" where
  "replay_loop crc deser bs s =
     (if length bs < 8 then Inr (s, 0)
      else
        let len = read_le bs 0 4;
            c = read_le bs 4 4
        in
        if len = 0 \<or> len > MANIFEST_MAX_RECORD then
          (if list_all (\<lambda>b. b = 0) bs \<or> length bs < 16 then Inr (s, 0) else Inl Corruption)
        else if 8 + len > length bs then Inr (s, 0)
        else
          let payload = bslice bs 8 len in
          case (if unat (crc payload) = c then deser payload else None) of
            None \<Rightarrow> if 8 + len = length bs then Inr (s, 0) else Inl Corruption
          | Some edit \<Rightarrow>
              let s' = apply_edit edit s in
              rbind (replay_loop crc deser (drop (8 + len) bs)
                       (s'\<lparr>ms_edits_replayed := ms_edits_replayed s' + 1\<rparr>)) (\<lambda>(s, good).
              Inr (s, 8 + len + good)))"
  by pat_completeness auto
termination
  by (relation "measure (\<lambda>(crc, deser, bs, s). length bs)") auto

declare replay_loop.simps [simp del]

definition manifest_recover ::
  "(bytes \<Rightarrow> u32) \<Rightarrow> (bytes \<Rightarrow> manifest_edit option) \<Rightarrow> bytes option \<Rightarrow> manifest_state res" where
  "manifest_recover crc deser file =
     (case file of
        None \<Rightarrow> Inr manifest_state_init
      | Some bs \<Rightarrow>
          if bs = [] then Inr manifest_state_init
          else
            rbind (replay_loop crc deser bs manifest_state_init) (\<lambda>(s, good).
            Inr (s\<lparr>ms_truncated_bytes := length bs - good, ms_valid_bytes := good\<rparr>)))"

section \<open>The log\<close>

text \<open>
  \<open>ml_disk\<close> is the file under the manifest's name, \<open>ml_buf\<close> what the \<open>BufWriter\<close> still holds.
  \<open>ml_attached\<close> says whether the writer's handle is that file: it is not when a rename replaced
  the file and the new one could not be opened, and then flushed bytes go to a file without a name.
\<close>

record mlog =
  ml_disk :: bytes
  ml_buf :: bytes
  ml_attached :: bool
  ml_edits_written :: nat
  ml_io :: "nat option list"

type_synonym 'a mlog_op = "(mlog, 'a) sres"

definition ml_next :: "mlog \<Rightarrow> nat option \<times> mlog" where
  "ml_next l = (case ml_io l of [] \<Rightarrow> (None, l) | x # xs \<Rightarrow> (x, l\<lparr>ml_io := xs\<rparr>))"

definition ml_call :: "unit mlog_op" where
  "ml_call l = (case ml_next l of (None, l) \<Rightarrow> (Inr (), l) | (Some _, l) \<Rightarrow> (Inl Io, l))"

definition ml_write :: "bytes \<Rightarrow> unit mlog_op" where
  "ml_write bs l =
     (case ml_next l of
        (None, l) \<Rightarrow> (Inr (), l\<lparr>ml_buf := ml_buf l @ bs\<rparr>)
      | (Some k, l) \<Rightarrow> (Inl Io, l\<lparr>ml_buf := ml_buf l @ take k bs\<rparr>))"

definition ml_flush :: "unit mlog_op" where
  "ml_flush = sbind ml_call (\<lambda>_. smod (\<lambda>l.
     l\<lparr>ml_disk := (if ml_attached l then ml_disk l @ ml_buf l else ml_disk l), ml_buf := []\<rparr>))"

definition manifest_sync :: "unit mlog_op" where
  "manifest_sync = sbind ml_flush (\<lambda>_. ml_call)"

definition manifest_append :: "(bytes \<Rightarrow> u32) \<Rightarrow> (manifest_edit \<Rightarrow> bytes res) \<Rightarrow> manifest_edit \<Rightarrow> unit mlog_op" where
  "manifest_append crc ser edit =
     sbind (slift (ser edit)) (\<lambda>payload.
       if length payload > MANIFEST_MAX_RECORD then serr Full
       else
         sbind (ml_write (to_le 4 (length payload))) (\<lambda>_.
         sbind (ml_write (to_le 4 (unat (crc payload)))) (\<lambda>_.
         sbind (ml_write payload) (\<lambda>_.
         sbind manifest_sync (\<lambda>_.
         smod (\<lambda>l. l\<lparr>ml_edits_written := ml_edits_written l + 1\<rparr>))))))"

text \<open>Opening for appending; \<open>valid_bytes\<close> cuts a torn tail off.\<close>

definition manifest_open :: "unit mlog_op" where
  "manifest_open = sbind ml_call (\<lambda>_. sbind ml_call (\<lambda>_. smod (\<lambda>l. l\<lparr>ml_buf := [], ml_attached := True, ml_edits_written := 0\<rparr>)))"

definition manifest_open_truncated :: "nat \<Rightarrow> unit mlog_op" where
  "manifest_open_truncated valid_bytes =
     sbind manifest_open (\<lambda>_.
     sbind ml_call (\<lambda>_.
     sbind sget (\<lambda>l.
       if length (ml_disk l) > valid_bytes then
         sbind ml_flush (\<lambda>_.
         sbind ml_call (\<lambda>_.
         sbind (smod (\<lambda>l. l\<lparr>ml_disk := take valid_bytes (ml_disk l)\<rparr>)) (\<lambda>_.
         sbind ml_call (\<lambda>_. ml_call))))
       else sret ())))"

text \<open>
  \<open>compact\<close>: a fresh log in a temporary file, renamed over the old one, and opened. A failure
  before the rename leaves the old file; a failure after it leaves the caller with the old handle.
\<close>

definition manifest_compact ::
  "(bytes \<Rightarrow> u32) \<Rightarrow> (manifest_edit \<Rightarrow> bytes res) \<Rightarrow> table_meta list \<Rightarrow> nat \<Rightarrow> nat \<Rightarrow> unit mlog_op" where
  "manifest_compact crc ser tables next_id checkpoint l =
     (let fresh = \<lparr>ml_disk = [], ml_buf = [], ml_attached = True, ml_edits_written = 0, ml_io = ml_io l\<rparr> in
      case sbind ml_call (\<lambda>_.
           sbind (manifest_append crc ser (FullSnapshot tables next_id)) (\<lambda>_.
           sbind (if checkpoint > 0 then manifest_append crc ser (SeqCheckpoint checkpoint) else sret ()) (\<lambda>_.
           manifest_sync))) fresh of
        (Inl e, f) \<Rightarrow> (Inl e, l\<lparr>ml_io := ml_io f\<rparr>)
      | (Inr _, f) \<Rightarrow>
          (case ml_call (l\<lparr>ml_io := ml_io f\<rparr>) of
             (Inl e, l) \<Rightarrow> (Inl e, l)
           | (Inr _, l) \<Rightarrow> manifest_open (l\<lparr>ml_disk := ml_disk f, ml_attached := False\<rparr>)))"

section \<open>What a log of edits recovers to\<close>

definition mf_frame :: "(bytes \<Rightarrow> u32) \<Rightarrow> bytes \<Rightarrow> bytes" where
  "mf_frame crc payload = to_le 4 (length payload) @ to_le 4 (unat (crc payload)) @ payload"

text \<open>The encoder and the decoder agree, and every edit fits a frame.\<close>

definition codec :: "(manifest_edit \<Rightarrow> bytes res) \<Rightarrow> (bytes \<Rightarrow> manifest_edit option) \<Rightarrow> manifest_edit \<Rightarrow> bool" where
  "codec ser deser edit \<longleftrightarrow>
     (\<exists>payload. ser edit = Inr payload \<and> payload \<noteq> [] \<and> length payload \<le> MANIFEST_MAX_RECORD \<and> deser payload = Some edit)"

definition edit_frame :: "(bytes \<Rightarrow> u32) \<Rightarrow> (manifest_edit \<Rightarrow> bytes res) \<Rightarrow> manifest_edit \<Rightarrow> bytes" where
  "edit_frame crc ser edit = (case ser edit of Inr payload \<Rightarrow> mf_frame crc payload | Inl _ \<Rightarrow> [])"

definition log_bytes :: "(bytes \<Rightarrow> u32) \<Rightarrow> (manifest_edit \<Rightarrow> bytes res) \<Rightarrow> manifest_edit list \<Rightarrow> bytes" where
  "log_bytes crc ser edits = concat (map (edit_frame crc ser) edits)"

definition replayed_edit :: "manifest_edit \<Rightarrow> manifest_state \<Rightarrow> manifest_state" where
  "replayed_edit e s = (let s' = apply_edit e s in s'\<lparr>ms_edits_replayed := ms_edits_replayed s' + 1\<rparr>)"

lemma frame_reads:
  assumes "length payload \<le> MANIFEST_MAX_RECORD"
  shows "read_le (mf_frame crc payload @ rest) 0 4 = length payload"
    "read_le (mf_frame crc payload @ rest) 4 4 = unat (crc payload)"
    "bslice (mf_frame crc payload @ rest) 8 (length payload) = payload"
    "length (mf_frame crc payload) = 8 + length payload"
proof -
  have "unat (crc payload) < 256 ^ 4" using unsigned_less [of "crc payload"] by simp
  then show "read_le (mf_frame crc payload @ rest) 0 4 = length payload"
    "read_le (mf_frame crc payload @ rest) 4 4 = unat (crc payload)"
    "bslice (mf_frame crc payload @ rest) 8 (length payload) = payload"
    "length (mf_frame crc payload) = 8 + length payload"
    using assms by (simp_all add: mf_frame_def read_le_def bslice_def from_le_to_le MANIFEST_MAX_RECORD_def del: to_le.simps)
qed

lemma replay_frame:
  assumes "codec ser deser edit"
  shows "replay_loop crc deser (edit_frame crc ser edit @ rest) s =
     rbind (replay_loop crc deser rest (replayed_edit edit s)) (\<lambda>(s, good). Inr (s, length (edit_frame crc ser edit) + good))"
proof -
  obtain payload where p: "ser edit = Inr payload" "payload \<noteq> []" "length payload \<le> MANIFEST_MAX_RECORD" "deser payload = Some edit"
    using assms by (auto simp: codec_def)
  have f: "edit_frame crc ser edit = mf_frame crc payload" using p(1) by (simp add: edit_frame_def)
  note r = frame_reads(1-3) [OF p(3), of crc rest] frame_reads(4) [OF p(3), of crc]
  have l: "length (mf_frame crc payload @ rest) = 8 + length payload + length rest" using r(4) by simp
  have d: "drop (8 + length payload) (mf_frame crc payload @ rest) = rest" using r(4) by simp
  have "length payload \<noteq> 0" "\<not> length payload > MANIFEST_MAX_RECORD" using p by auto
  then show ?thesis
    unfolding f by (subst replay_loop.simps) (simp only: r(1-3) l d Let_def p(4) replayed_edit_def r(4), simp)
qed

lemma replay_torn:
  assumes "codec ser deser edit" "n < length (edit_frame crc ser edit)"
  shows "replay_loop crc deser (take n (edit_frame crc ser edit)) s = Inr (s, 0)"
proof -
  obtain payload where p: "ser edit = Inr payload" "payload \<noteq> []" "length payload \<le> MANIFEST_MAX_RECORD"
    using assms by (auto simp: codec_def)
  have f: "edit_frame crc ser edit = mf_frame crc payload" using p(1) by (simp add: edit_frame_def)
  let ?bs = "take n (mf_frame crc payload)"
  have len: "length ?bs = n" "n < 8 + length payload" using assms(2) frame_reads(4) [OF p(3), of crc] by (simp_all add: f)
  show ?thesis
  proof (cases "n < 8")
    case True
    then show ?thesis using len by (subst replay_loop.simps) (simp add: f)
  next
    case False
    have "read_le ?bs 0 4 = read_le (mf_frame crc payload) 0 4"
      using False by (simp add: read_le_def bslice_def take_take min_def)
    then have "read_le ?bs 0 4 = length payload" using frame_reads(1) [OF p(3), of crc "[]"] by simp
    then show ?thesis using False len p unfolding f
      by (subst replay_loop.simps) (simp only: Let_def len, simp)
  qed
qed

lemma replay_cut:
  assumes "\<forall>e \<in> set edits. codec ser deser e"
  shows "\<exists>k \<le> length edits. replay_loop crc deser (take n (log_bytes crc ser edits)) s =
      Inr (fold replayed_edit (take k edits) s, length (log_bytes crc ser (take k edits))) \<and>
      (\<forall>j \<le> length edits. length (log_bytes crc ser (take j edits)) \<le> n \<longrightarrow> j \<le> k)"
  using assms
proof (induction edits arbitrary: n s)
  case Nil
  then show ?case by (simp add: log_bytes_def replay_loop.simps)
next
  case (Cons e edits)
  let ?f = "edit_frame crc ser e"
  have nz: "0 < length ?f"
    using Cons.prems by (auto simp: codec_def edit_frame_def mf_frame_def)
  have log: "log_bytes crc ser (e # edits) = ?f @ log_bytes crc ser edits" by (simp add: log_bytes_def)
  show ?case
  proof (cases "n < length ?f")
    case True
    then have tk: "take n (log_bytes crc ser (e # edits)) = take n ?f" by (simp add: log)
    moreover have "j \<le> 0" if "length (log_bytes crc ser (take j (e # edits))) \<le> n" for j
      using that True by (cases j) (simp_all add: log_bytes_def)
    ultimately show ?thesis
      using replay_torn [OF _ True, of deser s] Cons.prems unfolding tk by (intro exI [of _ 0]) (auto simp: log_bytes_def)
  next
    case False
    then have tk: "take n (log_bytes crc ser (e # edits)) = ?f @ take (n - length ?f) (log_bytes crc ser edits)"
      by (simp add: log)
    obtain k where k: "k \<le> length edits" "replay_loop crc deser (take (n - length ?f) (log_bytes crc ser edits)) (replayed_edit e s) =
        Inr (fold replayed_edit (take k edits) (replayed_edit e s), length (log_bytes crc ser (take k edits)))"
        "\<forall>j \<le> length edits. length (log_bytes crc ser (take j edits)) \<le> n - length ?f \<longrightarrow> j \<le> k"
      using Cons.IH [of "n - length ?f" "replayed_edit e s"] Cons.prems by auto
    have "j \<le> Suc k" if "j \<le> Suc (length edits)" "length (log_bytes crc ser (take j (e # edits))) \<le> n" for j
      using that k(3) False by (cases j) (auto simp: log_bytes_def)
    then show ?thesis
      using k(1,2) replay_frame [of ser deser e crc] Cons.prems unfolding tk
      by (intro exI [of _ "Suc k"]) (simp add: log_bytes_def)
  qed
qed

text \<open>The live set a log of edits stands for.\<close>

definition manifest_of :: "manifest_edit list \<Rightarrow> manifest_state" where
  "manifest_of edits = fold apply_edit edits manifest_state_init"

definition same_tables :: "manifest_state \<Rightarrow> manifest_state \<Rightarrow> bool" where
  "same_tables s s' \<longleftrightarrow>
     ms_tables s = ms_tables s' \<and> ms_next_table_id s = ms_next_table_id s' \<and> ms_checkpoint_seqno s = ms_checkpoint_seqno s'"

lemma apply_edit_same: "same_tables s s' \<Longrightarrow> same_tables (apply_edit e s) (apply_edit e s')"
proof (induction e s arbitrary: s' rule: apply_edit.induct)
  case (5 edits s)
  have "same_tables (fold apply_edit es a) (fold apply_edit es b)" if "set es \<subseteq> set edits" "same_tables a b" for es a b
    using that
  proof (induction es arbitrary: a b)
    case (Cons x es)
    then show ?case using "5.IH" [of x a b] by simp
  qed simp
  then show ?case using "5.prems" by simp
qed (simp_all add: same_tables_def)

lemma replayed_same: "same_tables s s' \<Longrightarrow> same_tables (fold replayed_edit es s) (fold apply_edit es s')"
proof (induction es arbitrary: s s')
  case (Cons e es)
  have "same_tables (replayed_edit e s) (apply_edit e s')"
    using apply_edit_same [OF Cons.prems, of e] by (simp add: replayed_edit_def same_tables_def Let_def)
  then show ?case using Cons.IH by simp
qed simp

lemma manifest_cut:
  assumes "\<forall>e \<in> set edits. codec ser deser e"
  shows "\<exists>k st. k \<le> length edits \<and> manifest_recover crc deser (Some (take n (log_bytes crc ser edits))) = Inr st \<and>
      same_tables st (manifest_of (take k edits)) \<and> ms_valid_bytes st = length (log_bytes crc ser (take k edits)) \<and>
      (\<forall>j \<le> length edits. length (log_bytes crc ser (take j edits)) \<le> n \<longrightarrow> j \<le> k)"
proof -
  let ?bs = "take n (log_bytes crc ser edits)"
  obtain k where k: "k \<le> length edits" "replay_loop crc deser ?bs manifest_state_init =
      Inr (fold replayed_edit (take k edits) manifest_state_init, length (log_bytes crc ser (take k edits)))"
      "\<forall>j \<le> length edits. length (log_bytes crc ser (take j edits)) \<le> n \<longrightarrow> j \<le> k"
    using replay_cut [OF assms, of crc n manifest_state_init] by blast
  have "same_tables (fold replayed_edit (take k edits) manifest_state_init) (manifest_of (take k edits))"
    unfolding manifest_of_def by (rule replayed_same) (simp add: same_tables_def)
  moreover have "manifest_recover crc deser (Some ?bs) = Inr ((fold replayed_edit (take k edits) manifest_state_init)
      \<lparr>ms_truncated_bytes := length ?bs - length (log_bytes crc ser (take k edits)), ms_valid_bytes := length (log_bytes crc ser (take k edits))\<rparr>)"
  proof (cases "?bs = []")
    case True
    have "replay_loop crc deser [] manifest_state_init = Inr (manifest_state_init, 0)" by (simp add: replay_loop.simps)
    then have "fold replayed_edit (take k edits) manifest_state_init = manifest_state_init" "length (log_bytes crc ser (take k edits)) = 0"
      using k(2) unfolding True by simp_all
    then show ?thesis unfolding True by (simp add: manifest_recover_def) (simp add: manifest_state_init_def)
  next
    case False
    then show ?thesis by (simp add: manifest_recover_def k(2))
  qed
  ultimately show ?thesis using k(1,3) by (intro exI [of _ k]) (auto simp: same_tables_def)
qed

section \<open>Appending\<close>

definition ml_total :: "mlog \<Rightarrow> bytes" where
  "ml_total l = ml_disk l @ ml_buf l"

lemma ml_call_ok:
  assumes "ml_call l = (r, l')"
  shows "ml_disk l' = ml_disk l" "ml_buf l' = ml_buf l" "ml_attached l' = ml_attached l" "ml_edits_written l' = ml_edits_written l"
  using assms by (auto simp: ml_call_def ml_next_def split: list.splits option.splits)

lemma ml_write_ok:
  assumes "ml_write bs l = (Inr u, l')"
  shows "ml_disk l' = ml_disk l" "ml_buf l' = ml_buf l @ bs" "ml_attached l' = ml_attached l" "ml_edits_written l' = ml_edits_written l"
  using assms by (auto simp: ml_write_def ml_next_def split: list.splits option.splits)

lemma ml_flush_ok:
  assumes "ml_flush l = (Inr u, l')"
  shows "ml_disk l' = (if ml_attached l then ml_disk l @ ml_buf l else ml_disk l)" "ml_buf l' = []"
    "ml_attached l' = ml_attached l" "ml_edits_written l' = ml_edits_written l"
proof -
  obtain l1 where "ml_call l = (Inr (), l1)" "l' = l1\<lparr>ml_disk := (if ml_attached l1 then ml_disk l1 @ ml_buf l1 else ml_disk l1), ml_buf := []\<rparr>"
    using assms by (auto simp: ml_flush_def sbind_Inr_iff)
  then show "ml_disk l' = (if ml_attached l then ml_disk l @ ml_buf l else ml_disk l)" "ml_buf l' = []"
    "ml_attached l' = ml_attached l" "ml_edits_written l' = ml_edits_written l"
    using ml_call_ok [of l "Inr ()" l1] by simp_all
qed

text \<open>
  An append that gets as far as writing its frame to the file has put the edit there, whether the
  sync that follows fails or not.
\<close>

lemma append_steps:
  assumes "ml_write (to_le 4 (length payload)) l = (Inr (), l1)" "ml_write (to_le 4 (unat (crc payload))) l1 = (Inr (), l2)"
    "ml_write payload l2 = (Inr (), l3)" "ml_flush l3 = (Inr (), l4)" "ml_call l4 = (r, l5)" "ml_attached l" "ser edit = Inr payload"
  shows "ml_disk l5 = ml_disk l @ ml_buf l @ edit_frame crc ser edit" "ml_buf l5 = []" "ml_attached l5" "ml_edits_written l5 = ml_edits_written l"
  using ml_write_ok [OF assms(1)] ml_write_ok [OF assms(2)] ml_write_ok [OF assms(3)] ml_flush_ok [OF assms(4)] ml_call_ok [OF assms(5)] assms(6,7)
  by (simp_all add: edit_frame_def mf_frame_def)

lemma manifest_append_ok:
  assumes "manifest_append crc ser edit l = (Inr u, l')" "ml_attached l"
  shows "ml_disk l' = ml_disk l @ ml_buf l @ edit_frame crc ser edit" "ml_buf l' = []" "ml_attached l'"
    "ml_edits_written l' = ml_edits_written l + 1"
proof -
  obtain payload l1 l2 l3 l4 l5 where s: "ser edit = Inr payload" "ml_write (to_le 4 (length payload)) l = (Inr (), l1)"
      "ml_write (to_le 4 (unat (crc payload))) l1 = (Inr (), l2)" "ml_write payload l2 = (Inr (), l3)" "ml_flush l3 = (Inr (), l4)"
      "ml_call l4 = (Inr (), l5)" "l' = l5\<lparr>ml_edits_written := ml_edits_written l5 + 1\<rparr>"
    using assms(1) by (auto simp: manifest_append_def manifest_sync_def sbind_Inr_iff split: if_splits)
  show "ml_disk l' = ml_disk l @ ml_buf l @ edit_frame crc ser edit" "ml_buf l' = []" "ml_attached l'"
    "ml_edits_written l' = ml_edits_written l + 1"
    using append_steps [where crc = crc and ser = ser, OF s(2-6) assms(2) s(1)] s(7) by simp_all
qed

lemma log_bytes_snoc: "log_bytes crc ser (edits @ [e]) = log_bytes crc ser edits @ edit_frame crc ser e"
  by (simp add: log_bytes_def)

text \<open>A log in order: attached, nothing buffered, and the file is the frames of the edits.\<close>

definition log_holds :: "(bytes \<Rightarrow> u32) \<Rightarrow> (manifest_edit \<Rightarrow> bytes res) \<Rightarrow> manifest_edit list \<Rightarrow> mlog \<Rightarrow> bool" where
  "log_holds crc ser edits l \<longleftrightarrow> ml_attached l \<and> ml_buf l = [] \<and> ml_disk l = log_bytes crc ser edits"

lemma append_holds:
  assumes "log_holds crc ser edits l" "manifest_append crc ser e l = (Inr u, l')"
  shows "log_holds crc ser (edits @ [e]) l'"
  using manifest_append_ok [OF assms(2)] assms(1) by (simp add: log_holds_def log_bytes_snoc)

lemma recover_full:
  assumes "\<forall>e \<in> set edits. codec ser deser e"
  shows "\<exists>st. manifest_recover crc deser (Some (log_bytes crc ser edits)) = Inr st \<and> same_tables st (manifest_of edits) \<and>
     ms_valid_bytes st = length (log_bytes crc ser edits)"
proof -
  obtain k st where k: "k \<le> length edits" "manifest_recover crc deser (Some (log_bytes crc ser edits)) = Inr st"
      "same_tables st (manifest_of (take k edits))" "ms_valid_bytes st = length (log_bytes crc ser (take k edits))"
      "\<forall>j \<le> length edits. length (log_bytes crc ser (take j edits)) \<le> length (log_bytes crc ser edits) \<longrightarrow> j \<le> k"
    using manifest_cut [OF assms, where n = "length (log_bytes crc ser edits)" and crc = crc] by auto
  have "k = length edits" using k(1,5) by auto
  then show ?thesis using k by auto
qed

lemma compacted_state:
  assumes "\<forall>t \<in> set tables. tm_id t < next_id" "0 < next_id"
  shows "same_tables (manifest_of (FullSnapshot tables next_id # (if 0 < c then [SeqCheckpoint c] else [])))
     \<lparr>ms_tables = tables, ms_next_table_id = next_id, ms_checkpoint_seqno = c, ms_edits_replayed = 0, ms_truncated_bytes = 0, ms_valid_bytes = 0\<rparr>"
proof -
  have "fold (\<lambda>t n. max n (tm_id t + 1)) ts n = n" if "\<forall>t \<in> set ts. tm_id t < n" for ts :: "table_meta list" and n :: nat
    using that by (induction ts) auto
  moreover have "max next_id 1 = next_id" using assms(2) by simp
  ultimately show ?thesis using assms(1) by (simp add: same_tables_def manifest_of_def manifest_state_init_def)
qed

lemma manifest_compact_ok:
  assumes "manifest_compact crc ser tables next_id c l = (Inr u, l')"
  shows "log_holds crc ser (FullSnapshot tables next_id # (if 0 < c then [SeqCheckpoint c] else [])) l'"
proof -
  let ?fresh = "\<lparr>ml_disk = [], ml_buf = [], ml_attached = True, ml_edits_written = 0, ml_io = ml_io l\<rparr>"
  let ?run = "sbind ml_call (\<lambda>_. sbind (manifest_append crc ser (FullSnapshot tables next_id)) (\<lambda>_.
           sbind (if c > 0 then manifest_append crc ser (SeqCheckpoint c) else sret ()) (\<lambda>_. manifest_sync)))"
  obtain f where f: "?run ?fresh = (Inr (), f)"
    using assms by (auto simp: manifest_compact_def Let_def split: prod.splits sum.splits)
  obtain l1 where o: "ml_call (l\<lparr>ml_io := ml_io f\<rparr>) = (Inr (), l1)"
      "manifest_open (l1\<lparr>ml_disk := ml_disk f, ml_attached := False\<rparr>) = (Inr u, l')"
    using assms f by (auto simp: manifest_compact_def Let_def split: prod.splits sum.splits)
  have l': "ml_disk l' = ml_disk f" "ml_buf l' = []" "ml_attached l'"
  proof -
    obtain a b where "ml_call (l1\<lparr>ml_disk := ml_disk f, ml_attached := False\<rparr>) = (Inr (), a)" "ml_call a = (Inr (), b)"
        "l' = b\<lparr>ml_buf := [], ml_attached := True, ml_edits_written := 0\<rparr>"
      using o(2) by (auto simp: manifest_open_def sbind_Inr_iff)
    then show "ml_disk l' = ml_disk f" "ml_buf l' = []" "ml_attached l'" using ml_call_ok(1) by fastforce+
  qed
  obtain f0 f1 f2 f3 where s: "ml_call ?fresh = (Inr (), f0)" "manifest_append crc ser (FullSnapshot tables next_id) f0 = (Inr (), f1)"
      "(if c > 0 then manifest_append crc ser (SeqCheckpoint c) else sret ()) f1 = (Inr (), f2)" "ml_flush f2 = (Inr (), f3)" "ml_call f3 = (Inr (), f)"
    using f by (auto simp: sbind_Inr_iff manifest_sync_def)
  have h0: "log_holds crc ser [] f0" using ml_call_ok [OF s(1)] by (simp add: log_holds_def log_bytes_def)
  have h1: "log_holds crc ser ([] @ [FullSnapshot tables next_id]) f1" by (rule append_holds [OF h0 s(2)])
  have h2: "log_holds crc ser (FullSnapshot tables next_id # (if 0 < c then [SeqCheckpoint c] else [])) f2"
    using append_holds [OF h1, of "SeqCheckpoint c" "()" f2] h1 s(3) by (auto split: if_splits)
  have "ml_disk f = ml_disk f2" using ml_flush_ok [OF s(4)] ml_call_ok [OF s(5)] h2 by (simp add: log_holds_def)
  then show ?thesis using l' h2 by (simp add: log_holds_def)
qed

text \<open>C14. The manifest survives a crash at any byte. A log of edits cut off anywhere recovers, without
  an error, exactly the live tables, the next id and the checkpoint of a prefix of the edits that
  contains every edit whose frame is complete, and reports where the intact part ends. Rewriting the
  log as one snapshot recovers to the same tables, and a successful append adds exactly its edit.\<close>

theorem manifest_recovers_prefix:
  assumes "\<forall>e \<in> set edits. codec ser deser e"
  shows "(\<exists>k st. k \<le> length edits \<and> manifest_recover crc deser (Some (take n (log_bytes crc ser edits))) = Inr st \<and>
        same_tables st (manifest_of (take k edits)) \<and> ms_valid_bytes st = length (log_bytes crc ser (take k edits)) \<and>
        (\<forall>j \<le> length edits. length (log_bytes crc ser (take j edits)) \<le> n \<longrightarrow> j \<le> k)) \<and>
     (\<forall>l l' e u. log_holds crc ser edits l \<and> manifest_append crc ser e l = (Inr u, l') \<longrightarrow> log_holds crc ser (edits @ [e]) l') \<and>
     (\<forall>l l' u tables next_id c. manifest_compact crc ser tables next_id c l = (Inr u, l') \<and>
        (\<forall>t \<in> set tables. tm_id t < next_id) \<and> 0 < next_id \<longrightarrow>
        (\<exists>es. log_holds crc ser es l' \<and> ms_tables (manifest_of es) = tables \<and>
           ms_next_table_id (manifest_of es) = next_id \<and> ms_checkpoint_seqno (manifest_of es) = c))"
proof (intro conjI allI impI; (elim conjE)?)
  show "\<exists>k st. k \<le> length edits \<and> manifest_recover crc deser (Some (take n (log_bytes crc ser edits))) = Inr st \<and>
        same_tables st (manifest_of (take k edits)) \<and> ms_valid_bytes st = length (log_bytes crc ser (take k edits)) \<and>
        (\<forall>j \<le> length edits. length (log_bytes crc ser (take j edits)) \<le> n \<longrightarrow> j \<le> k)"
    by (rule manifest_cut [OF assms])
  show "log_holds crc ser (edits @ [e]) l'"
    if "log_holds crc ser edits l" "manifest_append crc ser e l = (Inr u, l')" for l l' e u
    using that by (rule append_holds)
  fix l l' u tables next_id c
  assume c: "manifest_compact crc ser tables next_id c l = (Inr u, l')" "\<forall>t \<in> set tables. tm_id t < next_id" "0 < next_id"
  show "\<exists>es. log_holds crc ser es l' \<and> ms_tables (manifest_of es) = tables \<and>
           ms_next_table_id (manifest_of es) = next_id \<and> ms_checkpoint_seqno (manifest_of es) = c"
    using manifest_compact_ok [OF c(1)] compacted_state [OF c(2,3), of c] by (auto simp: same_tables_def)
qed

text \<open>An encoding of checkpoint edits, to apply the theorem to.\<close>

definition example_ser :: "manifest_edit \<Rightarrow> bytes res" where
  "example_ser e = (case e of SeqCheckpoint n \<Rightarrow> Inr (to_le 8 n) | _ \<Rightarrow> Inl Serialization)"

definition example_deser :: "bytes \<Rightarrow> manifest_edit option" where
  "example_deser bs = (if length bs = 8 then Some (SeqCheckpoint (from_le bs)) else None)"

theorem manifest_recovers_prefix_witness:
  "\<exists>k st. k \<le> 2 \<and> manifest_recover (\<lambda>_. 0) example_deser
       (Some (take 20 (log_bytes (\<lambda>_. 0) example_ser [SeqCheckpoint 3, SeqCheckpoint 7]))) = Inr st \<and>
     same_tables st (manifest_of (take k [SeqCheckpoint 3, SeqCheckpoint 7]))"
proof -
  have "\<forall>e \<in> set [SeqCheckpoint 3, SeqCheckpoint 7]. codec example_ser example_deser e"
    by (auto simp: codec_def example_ser_def example_deser_def MANIFEST_MAX_RECORD_def from_le_to_le simp del: to_le.simps)
      (metis length_to_le list.size(3) zero_neq_numeral)+
  note t = conjunct1 [OF manifest_recovers_prefix [OF this, where crc = "\<lambda>_. 0" and n = 20]]
  then obtain k st where "k \<le> length [SeqCheckpoint 3, SeqCheckpoint 7]" "manifest_recover (\<lambda>_. 0) example_deser
       (Some (take 20 (log_bytes (\<lambda>_. 0) example_ser [SeqCheckpoint 3, SeqCheckpoint 7]))) = Inr st"
     "same_tables st (manifest_of (take k [SeqCheckpoint 3, SeqCheckpoint 7]))" by blast
  then show ?thesis by (intro exI [of _ k] exI [of _ st]) simp
qed

end
