(* ===== verification/Lsm_Engine.thy ===== *)
theory Lsm_Engine
  imports Lsm_Manifest
begin

text \<open>
  The LSM engine (\<open>lsm/engine.rs\<close>): the active and the frozen write buffers, the live tables with
  their open handles, and the manifest log. The directory is a map from table ids to file contents.
  System calls take their outcomes from \<open>ml_io\<close> of the log; writing a table file is one call, which
  on failure leaves a prefix of the file.
\<close>

record lsm_options =
  lo_memtable_bytes :: nat
  lo_levels :: level_config

record lsm_engine =
  le_options :: lsm_options
  le_active :: memtable
  le_frozen :: "memtable list"
  le_manifest :: level_manifest
  le_log :: mlog
  le_checkpoint_seqno :: nat
  le_open_tables :: "(nat, sstable) bmap"
  le_files :: "(nat, bytes) bmap"
  le_flushes :: nat
  le_compactions :: nat

type_synonym 'a lsm_op = "(lsm_engine, 'a) sres"

definition on_log :: "'a mlog_op \<Rightarrow> 'a lsm_op" where
  "on_log m e = (case m (le_log e) of (r, l) \<Rightarrow> (r, e\<lparr>le_log := l\<rparr>))"

section \<open>Files\<close>

definition write_file :: "nat \<Rightarrow> bytes \<Rightarrow> unit lsm_op" where
  "write_file tid bs e =
     (case ml_next (le_log e) of
        (None, l) \<Rightarrow> (Inr (), e\<lparr>le_log := l, le_files := bm_put tid bs (le_files e)\<rparr>)
      | (Some k, l) \<Rightarrow> (Inl Io, e\<lparr>le_log := l, le_files := bm_put tid (take k bs) (le_files e)\<rparr>))"

text \<open>\<open>let _ = remove_file(\<dots>)\<close>: the outcome is ignored.\<close>

definition unlink_file :: "nat \<Rightarrow> lsm_engine \<Rightarrow> lsm_engine" where
  "unlink_file tid e =
     (case ml_next (le_log e) of
        (None, l) \<Rightarrow> e\<lparr>le_log := l, le_files := bm_del tid (le_files e)\<rparr>
      | (Some _, l) \<Rightarrow> e\<lparr>le_log := l\<rparr>)"

definition open_file :: "(bytes \<Rightarrow> u32) \<Rightarrow> nat \<Rightarrow> nat \<Rightarrow> sstable lsm_op" where
  "open_file crc tid level =
     sbind (on_log ml_call) (\<lambda>_.
     sbind sget (\<lambda>e.
       case bm_get (le_files e) tid of
         None \<Rightarrow> serr Io
       | Some bs \<Rightarrow> slift (sst_open crc bs tid level)))"

section \<open>Opening\<close>

definition open_live :: "(bytes \<Rightarrow> u32) \<Rightarrow> table_meta \<Rightarrow> unit lsm_op" where
  "open_live crc m =
     sbind (open_file crc (tm_id m) (tm_level m)) (\<lambda>t.
     smod (\<lambda>e. e\<lparr>le_open_tables := bm_put (tm_id m) t (le_open_tables e),
                 le_manifest := add_table m (le_manifest e)\<rparr>))"

definition orphaned_files :: "(nat, bytes) bmap \<Rightarrow> table_meta list \<Rightarrow> nat list" where
  "orphaned_files files live = filter (\<lambda>tid. tid \<notin> set (map tm_id live)) (map fst files)"

text \<open>
  \<open>mlog0\<close> is the manifest file as found, with the environment's outcomes. The calls that can fail
  before anything is changed are creating the directory, reading the manifest and listing the files.
\<close>

definition lsm_initial :: "lsm_options \<Rightarrow> (nat, bytes) bmap \<Rightarrow> mlog \<Rightarrow> lsm_engine" where
  "lsm_initial opts files mlog0 =
     \<lparr>le_options = opts, le_active = memtable_new, le_frozen = [], le_manifest = levels_new (lo_levels opts),
      le_log = mlog0, le_checkpoint_seqno = 0, le_open_tables = [], le_files = files, le_flushes = 0,
      le_compactions = 0\<rparr>"

definition lsm_open ::
  "(bytes \<Rightarrow> u32) \<Rightarrow> (manifest_edit \<Rightarrow> bytes res) \<Rightarrow> (bytes \<Rightarrow> manifest_edit option) \<Rightarrow> lsm_options \<Rightarrow>
     (nat, bytes) bmap \<Rightarrow> mlog \<Rightarrow> unit res \<times> lsm_engine" where
  "lsm_open crc ser deser opts files mlog0 =
     (let e = lsm_initial opts files mlog0 in
      if lv_max_levels (lo_levels opts) < 2 then (Inl InvalidArgument, e)
      else if lv_l0_compaction_trigger (lo_levels opts) = 0 then (Inl InvalidArgument, e)
      else
        sbind (on_log ml_call) (\<lambda>_.
        sbind (on_log ml_call) (\<lambda>_.
        sbind (slift (manifest_recover crc deser (Some (ml_disk mlog0)))) (\<lambda>state.
        sbind (smapM (open_live crc) (ms_tables state)) (\<lambda>_.
        sbind (smod (\<lambda>e. e\<lparr>le_manifest := reserve_table_id (ms_next_table_id state) (le_manifest e)\<rparr>)) (\<lambda>_.
        sbind (on_log ml_call) (\<lambda>_.
        sbind (smod (\<lambda>e. fold unlink_file (orphaned_files (le_files e) (ms_tables state)) e)) (\<lambda>_.
        sbind (on_log (manifest_open_truncated (ms_valid_bytes state))) (\<lambda>_.
        sbind sget (\<lambda>e.
        sbind (if ms_edits_replayed state > COMPACT_AFTER_EDITS
               then on_log (manifest_compact crc ser (ms_tables state) (lm_next_table_id (le_manifest e)) (ms_checkpoint_seqno state))
               else sret ()) (\<lambda>_.
        smod (\<lambda>e. e\<lparr>le_checkpoint_seqno := ms_checkpoint_seqno state\<rparr>))))))))))) e)"

section \<open>Writes\<close>

definition MAX_LSM_FIELD :: nat where
  "MAX_LSM_FIELD = 64 * 1024 * 1024"

definition check_entry_field :: "nat \<Rightarrow> unit res" where
  "check_entry_field len = (if len > MAX_LSM_FIELD then Inl InvalidArgument else Inr ())"

definition rotate_table :: "lsm_engine \<Rightarrow> lsm_engine" where
  "rotate_table e =
     (if mt_is_empty (le_active e) then e
      else e\<lparr>le_frozen := le_frozen e @ [le_active e], le_active := memtable_default\<rparr>)"

definition maybe_rotate :: "lsm_engine \<Rightarrow> lsm_engine" where
  "maybe_rotate e =
     (if mt_size_bytes (le_active e) \<ge> lo_memtable_bytes (le_options e) then rotate_table e else e)"

definition lsm_put :: "bytes \<Rightarrow> bytes \<Rightarrow> nat \<Rightarrow> unit lsm_op" where
  "lsm_put key val sq =
     sbind (slift (check_entry_field (length key))) (\<lambda>_.
     sbind (slift (check_entry_field (length val))) (\<lambda>_.
     smod (\<lambda>e. maybe_rotate (e\<lparr>le_active := mt_insert key val sq (le_active e)\<rparr>))))"

definition lsm_delete :: "bytes \<Rightarrow> nat \<Rightarrow> unit lsm_op" where
  "lsm_delete key sq =
     sbind (slift (check_entry_field (length key))) (\<lambda>_.
     smod (\<lambda>e. maybe_rotate (e\<lparr>le_active := mt_delete key sq (le_active e)\<rparr>)))"

definition needs_flush :: "lsm_engine \<Rightarrow> bool" where
  "needs_flush e \<longleftrightarrow> le_frozen e \<noteq> []"

definition set_checkpoint :: "(bytes \<Rightarrow> u32) \<Rightarrow> (manifest_edit \<Rightarrow> bytes res) \<Rightarrow> nat \<Rightarrow> unit lsm_op" where
  "set_checkpoint crc ser sq =
     sbind sget (\<lambda>e.
       if sq \<le> le_checkpoint_seqno e then sret ()
       else
         sbind (on_log (manifest_append crc ser (SeqCheckpoint sq))) (\<lambda>_.
         smod (\<lambda>e. e\<lparr>le_checkpoint_seqno := sq\<rparr>)))"

section \<open>Reads\<close>

definition definite :: "lookup \<Rightarrow> bytes option option" where
  "definite r = (case r of LFound v \<Rightarrow> Some (Some v) | LDeleted \<Rightarrow> Some None | LAbsent \<Rightarrow> None)"

fun get_tables :: "(nat, sstable) bmap \<Rightarrow> bytes \<Rightarrow> nat \<Rightarrow> table_meta list \<Rightarrow> bytes option option res" where
  "get_tables tables key snapshot [] = Inr None"
| "get_tables tables key snapshot (m # ms) =
     (case bm_get tables (tm_id m) of
        None \<Rightarrow> get_tables tables key snapshot ms
      | Some t \<Rightarrow>
          rbind (sst_get t key snapshot) (\<lambda>r.
            if r = LAbsent then get_tables tables key snapshot ms else Inr (definite r)))"

fun get_buffers :: "bytes \<Rightarrow> nat \<Rightarrow> memtable list \<Rightarrow> bytes option option" where
  "get_buffers key snapshot [] = None"
| "get_buffers key snapshot (t # ts) =
     (if mt_get t key snapshot = LAbsent then get_buffers key snapshot ts else definite (mt_get t key snapshot))"

definition lsm_get :: "lsm_engine \<Rightarrow> bytes \<Rightarrow> nat \<Rightarrow> bytes option option res" where
  "lsm_get e key snapshot =
     (if mt_get (le_active e) key snapshot \<noteq> LAbsent then Inr (definite (mt_get (le_active e) key snapshot))
      else
        case get_buffers key snapshot (rev (le_frozen e)) of
          Some r \<Rightarrow> Inr (Some r)
        | None \<Rightarrow> get_tables (le_open_tables e) key snapshot (lookup_order (le_manifest e) key))"

section \<open>Flush\<close>

text \<open>The closure that writes and reopens the table.\<close>

definition write_and_open ::
  "(bytes \<Rightarrow> u32) \<Rightarrow> nat \<Rightarrow> lsm_entry list \<Rightarrow> nat \<Rightarrow> nat \<Rightarrow> (table_meta \<times> sstable) lsm_op" where
  "write_and_open crc expected es tid level =
     sbind (slift (write_table crc expected es tid level)) (\<lambda>(m, bs).
     sbind (write_file tid bs) (\<lambda>_.
     sbind (open_file crc tid level) (\<lambda>t.
     sret (m, t))))"

definition flush_one :: "(bytes \<Rightarrow> u32) \<Rightarrow> (manifest_edit \<Rightarrow> bytes res) \<Rightarrow> table_meta option lsm_op" where
  "flush_one crc ser e =
     (case le_frozen e of
        [] \<Rightarrow> (Inr None, e)
      | mem # _ \<Rightarrow>
          let highest = (case max_seqno mem of Some n \<Rightarrow> n | None \<Rightarrow> 0);
              (tid, lm) = allocate_table_id (le_manifest e);
              e = e\<lparr>le_manifest := lm\<rparr>
          in
          case write_and_open crc (distinct_key_count mem) (mt_map mem) tid 0 e of
            (Inl err, e) \<Rightarrow> (Inl err, unlink_file tid e)
          | (Inr (m, t), e) \<Rightarrow>
              sbind (on_log (manifest_append crc ser (AddTable m))) (\<lambda>_.
              sbind (smod (\<lambda>e. e\<lparr>le_frozen := tl (le_frozen e), le_open_tables := bm_put tid t (le_open_tables e),
                      le_manifest := add_table m (le_manifest e), le_flushes := le_flushes e + 1\<rparr>)) (\<lambda>_.
              sbind (set_checkpoint crc ser highest) (\<lambda>_.
              sret (Some m)))) e)"

text \<open>Every successful round removes a frozen table, so the loop runs at most that often.\<close>

fun flush_rounds :: "(bytes \<Rightarrow> u32) \<Rightarrow> (manifest_edit \<Rightarrow> bytes res) \<Rightarrow> nat \<Rightarrow> nat lsm_op" where
  "flush_rounds crc ser 0 = serr Diverge"
| "flush_rounds crc ser (Suc n) =
     sbind (flush_one crc ser) (\<lambda>r.
       case r of None \<Rightarrow> sret 0 | Some _ \<Rightarrow> sbind (flush_rounds crc ser n) (\<lambda>k. sret (k + 1)))"

definition flush_all :: "(bytes \<Rightarrow> u32) \<Rightarrow> (manifest_edit \<Rightarrow> bytes res) \<Rightarrow> nat lsm_op" where
  "flush_all crc ser e = flush_rounds crc ser (Suc (length (le_frozen e))) e"

section \<open>Compaction\<close>

fun collect_runs :: "(nat, sstable) bmap \<Rightarrow> table_meta list \<Rightarrow> lsm_entry list list res" where
  "collect_runs tables [] = Inr []"
| "collect_runs tables (m # ms) =
     (case bm_get tables (tm_id m) of
        None \<Rightarrow> collect_runs tables ms
      | Some t \<Rightarrow> rbind (sst_entries t) (\<lambda>run. rbind (collect_runs tables ms) (\<lambda>runs. Inr (run # runs))))"

definition maybe_compact_manifest :: "(bytes \<Rightarrow> u32) \<Rightarrow> (manifest_edit \<Rightarrow> bytes res) \<Rightarrow> unit lsm_op" where
  "maybe_compact_manifest crc ser =
     sbind sget (\<lambda>e.
       if ml_edits_written (le_log e) < COMPACT_AFTER_EDITS then sret ()
       else on_log (manifest_compact crc ser (all_tables (le_manifest e)) (lm_next_table_id (le_manifest e))
              (le_checkpoint_seqno e)))"

text \<open>The merged run as a new table at the target level, or nothing when it is empty.\<close>

definition write_output :: "(bytes \<Rightarrow> u32) \<Rightarrow> lsm_entry list \<Rightarrow> nat \<Rightarrow> table_meta list lsm_op" where
  "write_output crc merged level e =
     (if merged = [] then (Inr [], e)
      else
        let (tid, lm) = allocate_table_id (le_manifest e) in
        sbind (write_and_open crc (length merged) merged tid level) (\<lambda>(m, t).
        sbind (smod (\<lambda>e. e\<lparr>le_open_tables := bm_put tid t (le_open_tables e)\<rparr>)) (\<lambda>_.
        sret [m])) (e\<lparr>le_manifest := lm\<rparr>))"

definition retire :: "table_meta \<Rightarrow> lsm_engine \<Rightarrow> lsm_engine" where
  "retire m e = unlink_file (tm_id m) (e\<lparr>le_open_tables := bm_del (tm_id m) (le_open_tables e)\<rparr>)"

definition swap_edit :: "compaction_job \<Rightarrow> table_meta list \<Rightarrow> manifest_edit" where
  "swap_edit job outputs =
     Batch (map AddTable outputs @ map (\<lambda>t. RemoveTable (tm_level t) (tm_id t)) (all_inputs job))"

text \<open>The commit of a compaction: one edit; on failure the outputs are removed again.\<close>

definition install_outputs ::
  "(bytes \<Rightarrow> u32) \<Rightarrow> (manifest_edit \<Rightarrow> bytes res) \<Rightarrow> compaction_job \<Rightarrow> table_meta list \<Rightarrow> unit lsm_op" where
  "install_outputs crc ser job outputs e =
     (case on_log (manifest_append crc ser (swap_edit job outputs)) e of
        (Inl err, e) \<Rightarrow> (Inl err, fold retire outputs e)
      | (Inr _, e) \<Rightarrow>
          (Inr (), fold retire (all_inputs job) (e\<lparr>le_manifest := apply_job job outputs (le_manifest e)\<rparr>)))"

definition compact_once ::
  "(nat \<Rightarrow> nat \<Rightarrow> real) \<Rightarrow> (bytes \<Rightarrow> u32) \<Rightarrow> (manifest_edit \<Rightarrow> bytes res) \<Rightarrow> nat \<Rightarrow> compaction_stats option lsm_op" where
  "compact_once fdiv crc ser retain_floor =
     sbind sget (\<lambda>e.
     sbind (slift (pick_compaction fdiv (le_manifest e))) (\<lambda>picked.
       case picked of
         None \<Rightarrow> sret None
       | Some job \<Rightarrow>
           sbind (slift (collect_runs (le_open_tables e) (all_inputs job))) (\<lambda>runs.
           let min_key = min_of (map tm_min_key (all_inputs job));
               max_key = max_of (map tm_max_key (all_inputs job));
               drop_tombstones = (is_bottom_most (lm_config (le_manifest e)) job \<and>
                 \<not> has_data_below (le_manifest e) (cj_target_level job) min_key max_key);
               (merged, st) = merge_runs runs retain_floor drop_tombstones
           in
           sbind (write_output crc merged (cj_target_level job)) (\<lambda>outputs.
           sbind (install_outputs crc ser job outputs) (\<lambda>_.
           sbind (smod (\<lambda>e. e\<lparr>le_compactions := le_compactions e + 1\<rparr>)) (\<lambda>_.
           sbind (maybe_compact_manifest crc ser) (\<lambda>_.
           sret (Some st))))))))"

fun compact_until_stable ::
  "(nat \<Rightarrow> nat \<Rightarrow> real) \<Rightarrow> (bytes \<Rightarrow> u32) \<Rightarrow> (manifest_edit \<Rightarrow> bytes res) \<Rightarrow> nat \<Rightarrow> nat \<Rightarrow> compaction_stats list lsm_op" where
  "compact_until_stable fdiv crc ser retain_floor 0 = sret []"
| "compact_until_stable fdiv crc ser retain_floor (Suc rounds) =
     sbind (compact_once fdiv crc ser retain_floor) (\<lambda>r.
       case r of
         None \<Rightarrow> sret []
       | Some st \<Rightarrow> sbind (compact_until_stable fdiv crc ser retain_floor rounds) (\<lambda>sts. sret (st # sts)))"

record lsm_stats =
  lst_active_bytes :: nat
  lst_frozen_count :: nat
  lst_table_count :: nat
  lst_disk_bytes :: nat
  lst_flushes :: nat
  lst_compactions :: nat

definition lsm_stats_of :: "lsm_engine \<Rightarrow> lsm_stats" where
  "lsm_stats_of e =
     \<lparr>lst_active_bytes = mt_size_bytes (le_active e), lst_frozen_count = length (le_frozen e),
      lst_table_count = table_count (le_manifest e), lst_disk_bytes = total_bytes (le_manifest e),
      lst_flushes = le_flushes e, lst_compactions = le_compactions e\<rparr>"

end
