(* ===== verification/Level_Inv.thy ===== *)
theory Level_Inv
  imports Levels
begin

text \<open>
  The invariant of the level structure: below level 0 the tables of a level are sorted and their
  key ranges do not meet. Installing and retiring tables keeps it, and so does every compaction
  that is picked.
\<close>

definition apart :: "table_meta list \<Rightarrow> bool" where
  "apart ts \<longleftrightarrow> sorted_wrt (\<lambda>a b. tm_max_key a < tm_min_key b) ts"

definition manifest_ok :: "level_manifest \<Rightarrow> bool" where
  "manifest_ok m \<longleftrightarrow>
     0 < length (lm_levels m) \<and>
     (\<forall>l. \<forall>t \<in> set (level_tables m l). tm_level t = l \<and> tm_min_key t \<le> tm_max_key t \<and> tm_id t < lm_next_table_id m) \<and>
     (\<forall>l. distinct (map tm_id (level_tables m l))) \<and>
     (\<forall>l l' t t'. t \<in> set (level_tables m l) \<and> t' \<in> set (level_tables m l') \<and> tm_id t = tm_id t' \<longrightarrow> l = l') \<and>
     (\<forall>l. 0 < l \<longrightarrow> apart (level_tables m l))"

section \<open>Installing and retiring tables\<close>

lemma level_tables_new [simp]: "level_tables (levels_new c) l = []"
  by (simp add: level_tables_def levels_new_def)

lemma levels_new_ok: "0 < lv_max_levels c \<Longrightarrow> manifest_ok (levels_new c)"
  by (simp add: manifest_ok_def apart_def) (simp add: levels_new_def)

lemma level_tables_add:
  "level_tables (add_table t m) l =
     (if l = tm_level t then (if l = 0 then level_tables m l @ [t] else insert_table t (level_tables m l)) else level_tables m l)"
  by (cases "tm_level t"; cases "l < length (lm_levels m)"; cases "tm_level t < length (lm_levels m)")
    (auto simp: add_table_def level_tables_def Let_def nth_append nth_list_update, (metis gr0I length_0_conv)+)

lemma add_table_fields [simp]:
  "lm_next_table_id (add_table t m) = max (lm_next_table_id m) (tm_id t + 1)" "lm_config (add_table t m) = lm_config m"
  "length (lm_levels (add_table t m)) = max (length (lm_levels m)) (tm_level t + 1)"
  by (auto simp: add_table_def Let_def) (metis gr0I le_0_eq length_0_conv)

lemma level_tables_remove:
  "level_tables (remove_table level tid m) l =
     (if l = level then remove_first (\<lambda>t. tm_id t = tid) (level_tables m l) else level_tables m l)"
  by (auto simp: remove_table_def level_tables_def nth_list_update)

lemma remove_table_fields [simp]:
  "lm_next_table_id (remove_table level tid m) = lm_next_table_id m" "lm_config (remove_table level tid m) = lm_config m"
  "length (lm_levels (remove_table level tid m)) = length (lm_levels m)"
  by (simp_all add: remove_table_def)

lemma remove_first_filter: "distinct (map f ts) \<Longrightarrow> remove_first (\<lambda>t. f t = x) ts = filter (\<lambda>t. f t \<noteq> x) ts"
proof (induction ts)
  case (Cons t ts)
  show ?case
  proof (cases "f t = x")
    case True
    have "f t \<notin> f ` set ts" using Cons.prems by simp
    then have "filter (\<lambda>t. f t \<noteq> x) ts = ts" using True unfolding filter_id_conv by (metis imageI)
    then show ?thesis using True by simp
  qed (use Cons in simp)
qed simp

lemma set_insert_table [simp]: "set (insert_table t ts) = insert t (set ts)"
proof -
  have "set (take n ts) \<union> set (drop n ts) = set ts" for n by (metis append_take_drop_id set_append)
  then show ?thesis by (auto simp: insert_table_def Let_def dest: in_set_takeD in_set_dropD)
qed

lemma distinct_insert_table: "distinct (map tm_id (insert_table t ts)) \<longleftrightarrow> distinct (map tm_id ts) \<and> tm_id t \<notin> tm_id ` set ts"
proof -
  define n where "n = length (takeWhile (\<lambda>t'. tm_min_key t' < tm_min_key t) ts)"
  have ab: "ts = take n ts @ drop n ts" "insert_table t ts = take n ts @ t # drop n ts"
    by (simp_all add: insert_table_def Let_def n_def)
  have "distinct (map tm_id (a @ t # b)) \<longleftrightarrow> distinct (map tm_id (a @ b)) \<and> tm_id t \<notin> tm_id ` set (a @ b)" for a b by auto
  then show ?thesis using ab by metis
qed

lemma apart_insert:
  assumes "apart ts" "tm_min_key t \<le> tm_max_key t" "\<forall>t' \<in> set ts. \<not> overlaps t' (tm_min_key t) (tm_max_key t) \<and> tm_min_key t' \<le> tm_max_key t'"
  shows "apart (insert_table t ts)"
proof -
  let ?P = "\<lambda>t'. tm_min_key t' < tm_min_key t"
  have split: "insert_table t ts = takeWhile ?P ts @ t # dropWhile ?P ts"
    by (simp add: insert_table_def Let_def takeWhile_eq_take [symmetric] dropWhile_eq_drop [symmetric])
  have ap: "apart (takeWhile ?P ts @ dropWhile ?P ts)" using assms(1) by simp
  have before: "tm_max_key a < tm_min_key t" if "a \<in> set (takeWhile ?P ts)" for a
  proof -
    have "?P a" "a \<in> set ts" using that set_takeWhileD by fastforce+
    then show ?thesis using assms(2,3) by (fastforce simp: overlaps_def not_le)
  qed
  have after: "tm_max_key t < tm_min_key b" if "b \<in> set (dropWhile ?P ts)" for b
  proof -
    have "dropWhile ?P ts \<noteq> []" using that by (metis empty_iff empty_set)
    then obtain d ds where d: "dropWhile ?P ts = d # ds" by (metis neq_Nil_conv)
    have "\<not> ?P d" using hd_dropWhile [of ?P ts] d by simp
    have dts: "d \<in> set ts" using set_dropWhileD [of d ?P ts] d by simp
    have "tm_max_key t < tm_min_key d"
      using \<open>\<not> ?P d\<close> dts assms(2,3) by (fastforce simp: overlaps_def not_le not_less)
    moreover have "tm_min_key d \<le> tm_min_key b"
    proof (cases "b = d")
      case False
      then have "b \<in> set ds" using that d by auto
      moreover have "sorted_wrt (\<lambda>a b. tm_max_key a < tm_min_key b) (d # ds)"
        using ap unfolding apart_def d by (simp add: sorted_wrt_append)
      ultimately have "tm_max_key d < tm_min_key b" by simp
      moreover have "tm_min_key d \<le> tm_max_key d" using dts assms(3) by blast
      ultimately show ?thesis by simp
    qed simp
    ultimately show ?thesis by simp
  qed
  have "tm_max_key a < tm_min_key b" if "a \<in> set (takeWhile ?P ts)" "b \<in> set (dropWhile ?P ts)" for a b
    using ap that unfolding apart_def sorted_wrt_append by blast
  moreover have "sorted_wrt (\<lambda>a b. tm_max_key a < tm_min_key b) (takeWhile ?P ts)" "sorted_wrt (\<lambda>a b. tm_max_key a < tm_min_key b) (dropWhile ?P ts)"
    using ap unfolding apart_def sorted_wrt_append by blast+
  ultimately show ?thesis
    using before after unfolding apart_def split sorted_wrt_append by auto
qed

lemma add_table_ok:
  assumes "manifest_ok m" "tm_min_key t \<le> tm_max_key t"
    and "\<forall>l. tm_id t \<notin> tm_id ` set (level_tables m l)"
    and "0 < tm_level t \<longrightarrow> (\<forall>t' \<in> set (level_tables m (tm_level t)). \<not> overlaps t' (tm_min_key t) (tm_max_key t))"
  shows "manifest_ok (add_table t m)"
proof -
  have M: "0 < length (lm_levels m)" "\<And>l t'. t' \<in> set (level_tables m l) \<Longrightarrow> tm_level t' = l \<and> tm_min_key t' \<le> tm_max_key t' \<and> tm_id t' < lm_next_table_id m"
      "\<And>l. distinct (map tm_id (level_tables m l))" "\<And>l. 0 < l \<Longrightarrow> apart (level_tables m l)"
      "\<And>l l' t t'. t \<in> set (level_tables m l) \<Longrightarrow> t' \<in> set (level_tables m l') \<Longrightarrow> tm_id t = tm_id t' \<Longrightarrow> l = l'"
    using assms(1) unfolding manifest_ok_def by blast+
  have mem: "t' \<in> set (level_tables (add_table t m) l) \<longleftrightarrow> t' \<in> set (level_tables m l) \<or> (l = tm_level t \<and> t' = t)" for t' l
    by (auto simp: level_tables_add)
  show ?thesis unfolding manifest_ok_def
  proof (intro conjI allI ballI impI; (elim conjE)?)
    show "0 < length (lm_levels (add_table t m))" by simp
    show "tm_level t' = l" "tm_min_key t' \<le> tm_max_key t'" "tm_id t' < lm_next_table_id (add_table t m)"
      if "t' \<in> set (level_tables (add_table t m) l)" for t' l
      using that M(2) [of t' l] assms(2) unfolding mem by (auto simp: less_max_iff_disj)
    show "distinct (map tm_id (level_tables (add_table t m) l))" for l
      using M(3) assms(3) by (auto simp: level_tables_add distinct_insert_table)
    show "l = l'" if "a \<in> set (level_tables (add_table t m) l)" "b \<in> set (level_tables (add_table t m) l')" "tm_id a = tm_id b" for l l' a b
      using that M(5) [of a l b l'] assms(3) unfolding mem by (metis imageI)
    show "apart (level_tables (add_table t m) l)" if "0 < l" for l
      using that M(4) [OF that] M(2) apart_insert [OF _ assms(2)] assms(4) by (auto simp: level_tables_add)
  qed
qed

lemma remove_table_ok:
  assumes "manifest_ok m"
  shows "manifest_ok (remove_table level tid m)"
    and "level_tables (remove_table level tid m) l = (if l = level then filter (\<lambda>t. tm_id t \<noteq> tid) (level_tables m l) else level_tables m l)"
proof -
  have d: "\<And>l. distinct (map tm_id (level_tables m l))" using assms by (simp add: manifest_ok_def)
  show eq: "level_tables (remove_table level tid m) l = (if l = level then filter (\<lambda>t. tm_id t \<noteq> tid) (level_tables m l) else level_tables m l)" for l
    using remove_first_filter [OF d] by (simp add: level_tables_remove)
  have "apart (filter P (level_tables m l))" if "0 < l" for P l
    using assms that by (simp add: manifest_ok_def apart_def sorted_wrt_filter)
  then show "manifest_ok (remove_table level tid m)"
    using assms unfolding manifest_ok_def eq by (auto simp: distinct_map_filter) metis+
qed

lemma remove_tables:
  assumes "manifest_ok m"
  shows "manifest_ok (fold (\<lambda>t. remove_table level (tm_id t)) ts m)"
    and "level_tables (fold (\<lambda>t. remove_table level (tm_id t)) ts m) l =
      (if l = level then filter (\<lambda>t. tm_id t \<notin> tm_id ` set ts) (level_tables m l) else level_tables m l)"
    and "lm_next_table_id (fold (\<lambda>t. remove_table level (tm_id t)) ts m) = lm_next_table_id m"
    and "length (lm_levels (fold (\<lambda>t. remove_table level (tm_id t)) ts m)) = length (lm_levels m)"
    and "lm_config (fold (\<lambda>t. remove_table level (tm_id t)) ts m) = lm_config m"
proof -
  let ?f = "\<lambda>ts m. fold (\<lambda>t. remove_table level (tm_id t)) ts m"
  have "manifest_ok (?f ts m) \<and> (\<forall>l. level_tables (?f ts m) l =
      (if l = level then filter (\<lambda>t. tm_id t \<notin> tm_id ` set ts) (level_tables m l) else level_tables m l)) \<and>
    lm_next_table_id (?f ts m) = lm_next_table_id m \<and> length (lm_levels (?f ts m)) = length (lm_levels m) \<and> lm_config (?f ts m) = lm_config m"
    using assms
  proof (induction ts arbitrary: m)
    case (Cons t ts)
    note r = remove_table_ok [OF Cons.prems, of level "tm_id t"]
    show ?case using Cons.IH [OF r(1)] by (auto simp: r(2) intro: filter_cong)
  qed simp
  then show "manifest_ok (?f ts m)" "level_tables (?f ts m) l =
      (if l = level then filter (\<lambda>t. tm_id t \<notin> tm_id ` set ts) (level_tables m l) else level_tables m l)"
    "lm_next_table_id (?f ts m) = lm_next_table_id m" "length (lm_levels (?f ts m)) = length (lm_levels m)" "lm_config (?f ts m) = lm_config m"
    by blast+
qed

section \<open>The compaction that is picked\<close>

lemma min_of_le: "k \<in> set ks \<Longrightarrow> min_of ks \<le> k" and min_of_mem: "ks \<noteq> [] \<Longrightarrow> min_of ks \<in> set ks"
  and max_of_ge: "k \<in> set ks \<Longrightarrow> k \<le> max_of ks" and max_of_mem: "ks \<noteq> [] \<Longrightarrow> max_of ks \<in> set ks"
proof -
  have mn: "fold min ks k = Min (set (k # ks))" "fold max ks k = Max (set (k # ks))" for ks and k :: bytes
    by (metis Min.set_eq_fold, metis Max.set_eq_fold)
  have eq: "min_of ks = Min (set ks)" "max_of ks = Max (set ks)" if "ks \<noteq> []"
    using that by (cases ks; simp only: min_of_def max_of_def mn list.case; fail)+
  show "k \<in> set ks \<Longrightarrow> min_of ks \<le> k" "k \<in> set ks \<Longrightarrow> k \<le> max_of ks"
    using eq by (metis List.finite_set Min_le empty_iff empty_set, metis List.finite_set Max_ge empty_iff empty_set)
  show "ks \<noteq> [] \<Longrightarrow> min_of ks \<in> set ks" "ks \<noteq> [] \<Longrightarrow> max_of ks \<in> set ks"
    using eq by (simp_all add: Min_in Max_in)
qed

lemma best_level:
  "fold (\<lambda>cur acc. if snd cur > snd acc then cur else acc) xs (acc :: nat \<times> real) \<in> insert acc (set xs)"
proof (induction xs arbitrary: acc)
  case (Cons x xs)
  show ?case using Cons [of x] Cons [of acc] by (cases "snd x > snd acc") auto
qed simp

definition picked :: "level_manifest \<Rightarrow> compaction_job \<Rightarrow> bool" where
  "picked m j \<longleftrightarrow>
     cj_target_level j = cj_source_level j + 1 \<and> cj_target_level j < length (lm_levels m) \<and>
     cj_source_tables j \<noteq> [] \<and> set (cj_source_tables j) \<subseteq> set (level_tables m (cj_source_level j)) \<and>
     (if cj_source_level j = 0 then cj_source_tables j = level_tables m 0 else length (cj_source_tables j) = 1) \<and>
     cj_target_tables j = overlapping m (cj_target_level j) (min_of (map tm_min_key (cj_source_tables j)))
       (max_of (map tm_max_key (cj_source_tables j)))"

lemma pick_compaction_picked:
  assumes "pick_compaction fdiv m = Inr (Some j)"
  shows "picked m j"
proof -
  let ?n = "length (lm_levels m)"
  let ?ls = "map (\<lambda>l. (l, score fdiv m l)) (filter (\<lambda>l. l < ?n - 1) [0..<?n])"
  obtain bl bs where b: "fold (\<lambda>cur acc. if snd cur > snd acc then cur else acc) ?ls (0, 0) = (bl, bs)"
    by (cases "fold (\<lambda>cur acc. if snd cur > snd acc then cur else acc) ?ls (0, 0)")
  let ?src = "if bl = 0 then level_tables m 0 else take 1 (sort_key (\<lambda>t. - int (tm_file_bytes t)) (level_tables m bl))"
  have c: "\<not> bs < 1" "?src \<noteq> []" and j: "j = \<lparr>cj_source_level = bl, cj_target_level = bl + 1, cj_source_tables = ?src,
      cj_target_tables = overlapping m (bl + 1) (min_of (map tm_min_key ?src)) (max_of (map tm_max_key ?src)), cj_score = bs\<rparr>"
    using assms b by (auto simp: pick_compaction_def Let_def split: if_splits)
  have "(bl, bs) \<in> insert (0, 0) (set ?ls)" using best_level [of ?ls "(0, 0)"] by (simp only: b)
  then have "bl < ?n - 1" using c(1) by auto
  moreover have "set ?src \<subseteq> set (level_tables m bl)" by (auto dest: in_set_takeD)
  moreover have "length ?src = 1" if "bl \<noteq> 0" using that c(2) by (cases "level_tables m bl") auto
  ultimately show ?thesis using c(2) by (auto simp: picked_def j)
qed

lemma apart_cases:
  assumes "apart ts" "a \<in> set ts" "b \<in> set ts" "a \<noteq> b"
  shows "tm_max_key a < tm_min_key b \<or> tm_max_key b < tm_min_key a"
  using assms by (induction ts) (auto simp: apart_def)

definition job_min :: "compaction_job \<Rightarrow> bytes" where
  "job_min j = min_of (map tm_min_key (all_inputs j))"

definition job_max :: "compaction_job \<Rightarrow> bytes" where
  "job_max j = max_of (map tm_max_key (all_inputs j))"

text \<open>A table of the target level that is not an input lies outside the whole span of the inputs.\<close>

lemma outside_span:
  assumes m: "manifest_ok m" and j: "picked m j"
    and t: "t \<in> set (level_tables m (cj_target_level j))" "t \<notin> set (cj_target_tables j)"
  shows "\<not> overlaps t (job_min j) (job_max j)"
proof
  assume o: "overlaps t (job_min j) (job_max j)"
  let ?from = "min_of (map tm_min_key (cj_source_tables j))" and ?to = "max_of (map tm_max_key (cj_source_tables j))"
  have tgt: "cj_target_tables j = overlapping m (cj_target_level j) ?from ?to" "0 < cj_target_level j" using j by (auto simp: picked_def)
  have ap: "apart (level_tables m (cj_target_level j))" using m tgt(2) by (simp add: manifest_ok_def)
  have le: "tm_min_key x \<le> tm_max_key x" if "x \<in> set (level_tables m (cj_target_level j))" for x
    using m that unfolding manifest_ok_def by blast
  have "\<not> overlaps t ?from ?to" using t unfolding tgt(1) overlapping_def by simp
  then have out: "?to < tm_min_key t \<or> tm_max_key t < ?from" by (auto simp: overlaps_def not_le)
  have ne: "map tm_min_key (all_inputs j) \<noteq> []" "map tm_max_key (all_inputs j) \<noteq> []"
    using j by (auto simp: picked_def all_inputs_def)
  obtain g where g: "g \<in> set (all_inputs j)" "tm_min_key g = job_min j" using min_of_mem [OF ne(1)] by (auto simp: job_min_def)
  obtain h where h: "h \<in> set (all_inputs j)" "tm_max_key h = job_max j" using max_of_mem [OF ne(2)] by (auto simp: job_max_def)
  have src: "?from \<le> tm_min_key x" "tm_max_key x \<le> ?to" if "x \<in> set (cj_source_tables j)" for x
    using that by (auto intro: min_of_le max_of_ge)
  have tg: "x \<in> set (level_tables m (cj_target_level j))" "tm_min_key x \<le> ?to" "?from \<le> tm_max_key x" "x \<noteq> t"
    if "x \<in> set (cj_target_tables j)" for x
    using that t(2) unfolding tgt(1) by (auto simp: overlapping_def overlaps_def)
  from out show False
  proof
    assume hi: "?to < tm_min_key t"
    have "tm_min_key t \<le> tm_max_key h" using o h(2) by (simp add: overlaps_def)
    then have "h \<in> set (cj_target_tables j)" using hi h(1) src(2) [of h] by (auto simp: all_inputs_def)
    note th = tg [OF this]
    have "tm_max_key t < tm_min_key h \<or> tm_max_key h < tm_min_key t" using apart_cases [OF ap t(1) th(1)] th(4) by blast
    then show False using hi th(2) le [OF t(1)] \<open>tm_min_key t \<le> tm_max_key h\<close> by fastforce
  next
    assume lo: "tm_max_key t < ?from"
    have "tm_min_key g \<le> tm_max_key t" using o g(2) by (simp add: overlaps_def)
    then have "g \<in> set (cj_target_tables j)" using lo g(1) src(1) [of g] by (auto simp: all_inputs_def)
    note tgg = tg [OF this]
    have "tm_max_key t < tm_min_key g \<or> tm_max_key g < tm_min_key t" using apart_cases [OF ap t(1) tgg(1)] tgg(4) by blast
    then show False using lo tgg(3) le [OF t(1)] \<open>tm_min_key g \<le> tm_max_key t\<close> by fastforce
  qed
qed

definition output_ok :: "level_manifest \<Rightarrow> compaction_job \<Rightarrow> table_meta \<Rightarrow> bool" where
  "output_ok m j t \<longleftrightarrow>
     tm_level t = cj_target_level j \<and> tm_min_key t \<le> tm_max_key t \<and> job_min j \<le> tm_min_key t \<and> tm_max_key t \<le> job_max j \<and>
     (\<forall>l. tm_id t \<notin> tm_id ` set (level_tables m l))"

definition kept_target :: "level_manifest \<Rightarrow> compaction_job \<Rightarrow> table_meta list" where
  "kept_target m j = filter (\<lambda>t. t \<notin> set (cj_target_tables j)) (level_tables m (cj_target_level j))"

definition kept_source :: "level_manifest \<Rightarrow> compaction_job \<Rightarrow> table_meta list" where
  "kept_source m j = filter (\<lambda>t. t \<notin> set (cj_source_tables j)) (level_tables m (cj_source_level j))"

lemma same_id_same_table:
  assumes "manifest_ok m" "a \<in> set (level_tables m l)" "b \<in> set (level_tables m l)" "tm_id a = tm_id b"
  shows "a = b"
  using assms by (metis distinct_map inj_onD manifest_ok_def)

lemma apply_job_levels:
  assumes m: "manifest_ok m" and j: "picked m j" and outs: "outs = [] \<or> (\<exists>t. outs = [t] \<and> output_ok m j t)"
  shows "manifest_ok (apply_job j outs m)"
    and "level_tables (apply_job j outs m) l =
      (if l = cj_source_level j then kept_source m j
       else if l = cj_target_level j then (case outs of [] \<Rightarrow> kept_target m j | t # _ \<Rightarrow> insert_table t (kept_target m j))
       else level_tables m l)"
    and "length (lm_levels (apply_job j outs m)) = length (lm_levels m)"
    and "lm_next_table_id m \<le> lm_next_table_id (apply_job j outs m)" "lm_config (apply_job j outs m) = lm_config m"
proof -
  let ?s = "cj_source_level j" and ?t = "cj_target_level j"
  let ?m1 = "fold (\<lambda>t. remove_table ?s (tm_id t)) (cj_source_tables j) m"
  let ?m2 = "fold (\<lambda>t. remove_table ?t (tm_id t)) (cj_target_tables j) ?m1"
  have J: "?t = ?s + 1" "?t < length (lm_levels m)" "set (cj_source_tables j) \<subseteq> set (level_tables m ?s)"
      "set (cj_target_tables j) \<subseteq> set (level_tables m ?t)"
    using j by (auto simp: picked_def overlapping_def)
  note r1 = remove_tables [OF m, of ?s "cj_source_tables j"]
  note r2 = remove_tables [OF r1(1), of ?t "cj_target_tables j"]
  have drop_ids: "filter (\<lambda>x. tm_id x \<notin> tm_id ` set ts) (level_tables m l) = filter (\<lambda>x. x \<notin> set ts) (level_tables m l)"
    if "set ts \<subseteq> set (level_tables m l)" for ts :: "table_meta list" and l
  proof (rule filter_cong [OF refl])
    fix x assume "x \<in> set (level_tables m l)"
    then show "(tm_id x \<notin> tm_id ` set ts) = (x \<notin> set ts)"
      using that same_id_same_table [OF m, of x l] by (auto simp: image_iff)
  qed
  have lt: "level_tables ?m2 l = (if l = ?s then kept_source m j else if l = ?t then kept_target m j else level_tables m l)" for l
    unfolding r2(2) r1(2) using J drop_ids [OF J(3)] drop_ids [OF J(4)] by (auto simp: kept_source_def kept_target_def)
  have add: "manifest_ok (add_table t ?m2)" if "output_ok m j t" for t
  proof (rule add_table_ok [OF r2(1)])
    show "tm_min_key t \<le> tm_max_key t" using that by (simp add: output_ok_def)
    show "\<forall>l. tm_id t \<notin> tm_id ` set (level_tables ?m2 l)"
      using that unfolding lt by (auto simp: output_ok_def kept_source_def kept_target_def)
    show "0 < tm_level t \<longrightarrow> (\<forall>t' \<in> set (level_tables ?m2 (tm_level t)). \<not> overlaps t' (tm_min_key t) (tm_max_key t))"
    proof (intro impI ballI)
      fix t' assume "t' \<in> set (level_tables ?m2 (tm_level t))"
      then have "t' \<in> set (kept_target m j)" using that J(1) unfolding lt by (auto simp: output_ok_def)
      then have "\<not> overlaps t' (job_min j) (job_max j)" using outside_span [OF m j] by (simp add: kept_target_def)
      moreover have "job_min j \<le> tm_min_key t" "tm_max_key t \<le> job_max j" using that by (auto simp: output_ok_def)
      ultimately show "\<not> overlaps t' (tm_min_key t) (tm_max_key t)"
        unfolding overlaps_def by (meson order_trans)
    qed
  qed
  show "manifest_ok (apply_job j outs m)" using outs add r2(1) by (auto simp: apply_job_def)
  show "level_tables (apply_job j outs m) l =
      (if l = ?s then kept_source m j
       else if l = ?t then (case outs of [] \<Rightarrow> kept_target m j | t # _ \<Rightarrow> insert_table t (kept_target m j)) else level_tables m l)"
    using outs
  proof
    assume "outs = []"
    then show ?thesis by (simp add: apply_job_def lt)
  next
    assume "\<exists>t. outs = [t] \<and> output_ok m j t"
    then obtain t where "outs = [t]" "tm_level t = ?t" by (auto simp: output_ok_def)
    moreover have "?t \<noteq> ?s" "?t \<noteq> 0" using J(1) by simp_all
    ultimately show ?thesis by (simp add: apply_job_def level_tables_add lt)
  qed
  show "length (lm_levels (apply_job j outs m)) = length (lm_levels m)"
    using outs J(2) r1(4) r2(4) by (auto simp: apply_job_def output_ok_def)
  show "lm_next_table_id m \<le> lm_next_table_id (apply_job j outs m)" "lm_config (apply_job j outs m) = lm_config m"
    using outs r1(3,5) r2(3,5) by (auto simp: apply_job_def)
qed

end
