(* ===== verification/Lsm_Reads.thy ===== *)
theory Lsm_Reads
  imports Lsm_Engine Level_Inv
begin

text \<open>
  What the LSM engine holds: the versions of its buffers and tables in the order in which a lookup
  visits them. The invariant says that along this list the versions of a key get older, so the first
  version a lookup meets is the newest.
\<close>

section \<open>Versions of a key\<close>

definition versions :: "lsm_entry list \<Rightarrow> bytes \<Rightarrow> lsm_entry list" where
  "versions es key = filter (\<lambda>e. user_key (fst e) = key) es"

lemma versions_simps [simp]:
  "versions [] key = []" "versions (es @ es') key = versions es key @ versions es' key"
  "set (versions es key) = {e \<in> set es. user_key (fst e) = key}" "versions (versions es key) key = versions es key"
  by (simp_all add: versions_def)

lemma versions_Nil_iff: "versions es key = [] \<longleftrightarrow> key \<notin> set (ukeys es)"
  by (auto simp: versions_def filter_empty_conv)

lemma run_get_versions: "run_get (versions es key) key snapshot = run_get es key snapshot"
  by (simp add: versions_def run_get_filter)

lemma run_get_versions_cong: "versions es key = versions es' key \<Longrightarrow> run_get es key snapshot = run_get es' key snapshot"
  by (metis run_get_versions)

definition descending :: "lsm_entry list \<Rightarrow> bool" where
  "descending es \<longleftrightarrow> (\<forall>key. sorted_wrt (\<lambda>a b. seqno (fst b) < seqno (fst a)) (versions es key))"

definition newer :: "lsm_entry list \<Rightarrow> lsm_entry list \<Rightarrow> bool" where
  "newer es es' \<longleftrightarrow>
     (\<forall>a \<in> set es. \<forall>b \<in> set es'. user_key (fst a) = user_key (fst b) \<longrightarrow> seqno (fst b) < seqno (fst a))"

lemma descending_append [simp]:
  "descending (es @ es') \<longleftrightarrow> descending es \<and> descending es' \<and> newer es es'"
proof -
  have "(\<forall>key. \<forall>a \<in> set (versions es key). \<forall>b \<in> set (versions es' key). seqno (fst b) < seqno (fst a)) \<longleftrightarrow> newer es es'"
    unfolding newer_def versions_simps by blast
  then show ?thesis unfolding descending_def versions_simps sorted_wrt_append by blast
qed

lemma descending_Nil [simp]: "descending []" "newer [] es" "newer es []"
  by (simp_all add: descending_def newer_def)

lemma newer_append [simp]:
  "newer (as @ bs) es \<longleftrightarrow> newer as es \<and> newer bs es" "newer es (as @ bs) \<longleftrightarrow> newer es as \<and> newer es bs"
  by (auto simp: newer_def)

lemma newer_subset: "newer as bs \<Longrightarrow> set as' \<subseteq> set as \<Longrightarrow> set bs' \<subseteq> set bs \<Longrightarrow> newer as' bs'"
  by (auto simp: newer_def)

lemma descending_versions: "(\<And>key. versions es key = versions es' key) \<Longrightarrow> descending es = descending es'"
  by (simp add: descending_def)

lemma bm_ok_descending: "bm_ok es \<Longrightarrow> descending es"
proof (unfold descending_def, rule allI)
  fix key
  assume "bm_ok es"
  then have "sorted_wrt (\<lambda>a b. fst a < fst b) (versions es key)"
    by (simp add: versions_def bm_ok_def sorted_wrt_map sorted_wrt_filter)
  then show "sorted_wrt (\<lambda>a b. seqno (fst b) < seqno (fst a)) (versions es key)"
    by (rule sorted_wrt_mono_rel [rotated]) (auto simp: less_internal_key_def)
qed

lemma run_get_descending:
  assumes "descending es"
  shows "newest (set es) key snapshot (run_get es key snapshot)"
proof -
  have "sorted (map fst (versions es key))"
    using assms by (auto simp: descending_def sorted_map less_eq_internal_key_def less_internal_key_def
        elim!: allE [of _ key] intro: sorted_wrt_mono_rel [rotated])
  then have n: "newest (set (versions es key)) key snapshot (run_get es key snapshot)"
    using run_get_newest_sorted run_get_versions by metis
  have eq: "seen (set (versions es key)) key snapshot = seen (set es) key snapshot" by (auto simp: seen_def)
  show ?thesis using n unfolding newest_def eq .
qed

section \<open>What the engine holds\<close>

definition table_entries :: "(nat, sstable) bmap \<Rightarrow> table_meta \<Rightarrow> lsm_entry list" where
  "table_entries tables m =
     (case bm_get tables (tm_id m) of
        Some t \<Rightarrow> (case sst_entries t of Inr es \<Rightarrow> es | Inl _ \<Rightarrow> [])
      | None \<Rightarrow> [])"

definition buffered :: "lsm_engine \<Rightarrow> lsm_entry list" where
  "buffered e = mt_map (le_active e) @ concat (map mt_map (rev (le_frozen e)))"

definition level_run :: "(nat, sstable) bmap \<Rightarrow> table_meta list \<Rightarrow> lsm_entry list" where
  "level_run tables ts = concat (map (table_entries tables) ts)"

definition tables_run :: "(nat, sstable) bmap \<Rightarrow> level_manifest \<Rightarrow> lsm_entry list" where
  "tables_run tables m =
     level_run tables (rev (level_tables m 0)) @
     concat (map (\<lambda>l. level_run tables (level_tables m l)) [1..<length (lm_levels m)])"

definition contents :: "lsm_engine \<Rightarrow> lsm_entry list" where
  "contents e = buffered e @ tables_run (le_open_tables e) (le_manifest e)"

text \<open>The open table \<open>t\<close> under the summary \<open>m\<close> serves the entries \<open>es\<close>.\<close>

definition serves :: "sstable \<Rightarrow> table_meta \<Rightarrow> lsm_entry list \<Rightarrow> bool" where
  "serves t m es \<longleftrightarrow>
     es \<noteq> [] \<and> bm_ok es \<and> (\<forall>e \<in> set es. fits e) \<and> ss_data t = enc_all es \<and> bloom_ok (ss_bloom t) \<and>
     (\<forall>e \<in> set es. bloom_contains (ss_bloom t) (user_key (fst e)) = Inr True) \<and> index_ok es (ss_index t) \<and>
     ss_meta t = m \<and> tm_min_key m = user_key (fst (hd es)) \<and> tm_max_key m = user_key (fst (last es))"

definition table_served :: "(nat, sstable) bmap \<Rightarrow> table_meta \<Rightarrow> bool" where
  "table_served tables m \<longleftrightarrow> (\<exists>t es. bm_get tables (tm_id m) = Some t \<and> serves t m es)"

definition buffer_ok :: "memtable \<Rightarrow> bool" where
  "buffer_ok t \<longleftrightarrow> mt_ok t \<and> (\<forall>e \<in> set (mt_map t). fits e)"

definition lsm_inv :: "lsm_engine \<Rightarrow> bool" where
  "lsm_inv e \<longleftrightarrow>
     buffer_ok (le_active e) \<and> (\<forall>t \<in> set (le_frozen e). buffer_ok t \<and> mt_map t \<noteq> []) \<and>
     manifest_ok (le_manifest e) \<and> (\<forall>l. \<forall>m \<in> set (level_tables (le_manifest e) l). table_served (le_open_tables e) m) \<and>
     descending (contents e)"

section \<open>Tables answer lookups from their entries\<close>

lemma servesD:
  assumes "serves t m es"
  shows "sst_get t key snapshot = Inr (run_get es key snapshot)" "sst_entries t = Inr es" "ss_meta t = m"
    "bm_ok es" "es \<noteq> []" "\<forall>e \<in> set es. fits e"
proof -
  show "sst_get t key snapshot = Inr (run_get es key snapshot)"
    using assms by (intro sst_get_correct) (auto simp: serves_def)
  show "sst_entries t = Inr es"
    using entries_loop_enc [of es "[]"] assms by (simp add: sst_entries_def serves_def)
qed (use assms in \<open>simp_all add: serves_def\<close>)

lemma serves_range:
  assumes "serves t m es" "e \<in> set es"
  shows "tm_min_key m \<le> user_key (fst e)" "user_key (fst e) \<le> tm_max_key m"
proof -
  have s: "sorted (ukeys es)" using assms sorted_user_keys by (simp add: serves_def)
  have "es \<noteq> []" using assms(2) by auto
  then obtain x xs where "es = x # xs" by (cases es) auto
  then show "tm_min_key m \<le> user_key (fst e)" using s assms by (auto simp: serves_def)
  obtain ys y where "es = ys @ [y]" using \<open>es \<noteq> []\<close> by (metis rev_exhaust)
  then show "user_key (fst e) \<le> tm_max_key m" using s assms by (auto simp: serves_def sorted_append)
qed

lemma table_servedD:
  assumes "table_served tables m"
  obtains t where "bm_get tables (tm_id m) = Some t" "serves t m (table_entries tables m)"
  using assms servesD(2) by (fastforce simp: table_served_def table_entries_def)

lemma table_entries_range:
  assumes "table_served tables m" "e \<in> set (table_entries tables m)"
  shows "may_contain m (user_key (fst e))"
  using assms serves_range by (metis may_contain_def table_servedD)

lemma get_tables_run:
  assumes "\<forall>m \<in> set ms. table_served tables m"
  shows "get_tables tables key snapshot ms = Inr (definite (run_get (level_run tables ms) key snapshot))"
  using assms
proof (induction ms)
  case (Cons m ms)
  obtain t where t: "bm_get tables (tm_id m) = Some t" "serves t m (table_entries tables m)"
    using Cons.prems by (auto elim: table_servedD)
  note g = servesD(1) [OF t(2), of key snapshot]
  show ?case
  proof (cases "run_get (table_entries tables m) key snapshot")
    case LAbsent
    then show ?thesis using t(1) g Cons by (simp add: level_run_def run_get_append)
  qed (use t(1) g in \<open>simp_all add: level_run_def run_get_append\<close>)
qed (simp add: level_run_def definite_def)

lemma get_buffers_run:
  assumes "\<forall>t \<in> set ts. mt_ok t"
  shows "get_buffers key snapshot ts = definite (run_get (concat (map mt_map ts)) key snapshot)"
  using assms by (induction ts) (auto simp: definite_def run_get_append mt_get_run_get split: lookup.splits)

text \<open>Of a level whose tables are apart, the one table whose range has the key has all its versions.\<close>

lemma level_run_find:
  assumes "apart ts" "\<forall>m \<in> set ts. table_served tables m"
  shows "versions (level_run tables ts) key =
     (case List.find (\<lambda>m. may_contain m key) ts of None \<Rightarrow> [] | Some m \<Rightarrow> versions (table_entries tables m) key)"
  using assms
proof (induction ts)
  case (Cons m ts)
  have none: "versions (table_entries tables m') key = []" if "m' \<in> set (m # ts)" "\<not> may_contain m' key" for m'
    using table_entries_range [of tables m'] that Cons.prems(2) by (fastforce simp: versions_Nil_iff)
  show ?case
  proof (cases "may_contain m key")
    case True
    have "\<not> may_contain m' key" if "m' \<in> set ts" for m'
      using Cons.prems(1) True that by (fastforce simp: apart_def may_contain_def)
    then have "versions (level_run tables ts) key = []"
      using none by (fastforce simp: level_run_def versions_Nil_iff)
    then show ?thesis using True by (simp add: level_run_def)
  next
    case False
    then show ?thesis using Cons none [of m] by (simp add: level_run_def apart_def)
  qed
qed (simp add: level_run_def)

lemma versions_level_run_filter:
  assumes "\<forall>m \<in> set ts. table_served tables m"
  shows "versions (level_run tables (filter (\<lambda>m. may_contain m key) ts)) key = versions (level_run tables ts) key"
  using assms table_entries_range [of tables]
  by (induction ts) (fastforce simp: level_run_def versions_Nil_iff)+

lemma lookup_order_run:
  assumes "manifest_ok m" "\<forall>l. \<forall>t \<in> set (level_tables m l). table_served tables t"
  shows "versions (level_run tables (lookup_order m key)) key = versions (tables_run tables m) key"
proof -
  have "versions (level_run tables (List.map_filter (\<lambda>l. List.find (\<lambda>t. may_contain t key) (level_tables m l)) ls)) key =
      versions (concat (map (\<lambda>l. level_run tables (level_tables m l)) ls)) key" if "\<forall>l \<in> set ls. 0 < l" for ls
    using that
  proof (induction ls)
    case (Cons l ls)
    have "versions (level_run tables (level_tables m l)) key = (case List.find (\<lambda>t. may_contain t key) (level_tables m l) of
        None \<Rightarrow> [] | Some t \<Rightarrow> versions (table_entries tables t) key)"
      using Cons.prems assms by (intro level_run_find) (auto simp: manifest_ok_def)
    then show ?case using Cons by (auto simp: List.map_filter_def level_run_def split: option.splits)
  qed (simp add: List.map_filter_def level_run_def)
  note this [of "[1..<length (lm_levels m)]"]
  moreover have "versions (level_run tables (filter (\<lambda>t. may_contain t key) (rev (level_tables m 0)))) key =
      versions (level_run tables (rev (level_tables m 0))) key"
    using assms(2) by (intro versions_level_run_filter) auto
  ultimately show ?thesis by (simp add: lookup_order_def tables_run_def level_run_def)
qed

lemma lookup_order_mem: "t \<in> set (lookup_order m key) \<Longrightarrow> \<exists>l. t \<in> set (level_tables m l)"
proof -
  have "t' \<in> set ts" if "List.find P ts = Some t'" for P t' and ts :: "table_meta list"
    using that by (auto simp: find_Some_iff)
  moreover assume "t \<in> set (lookup_order m key)"
  ultimately show ?thesis by (fastforce simp: lookup_order_def List.map_filter_def)
qed

lemma lsm_get_run:
  assumes "lsm_inv e"
  shows "lsm_get e key snapshot = Inr (definite (run_get (contents e) key snapshot))"
proof -
  note I = assms [unfolded lsm_inv_def]
  have buf: "mt_get (le_active e) key snapshot = run_get (mt_map (le_active e)) key snapshot"
      "get_buffers key snapshot (rev (le_frozen e)) = definite (run_get (concat (map mt_map (rev (le_frozen e)))) key snapshot)"
    using I by (auto simp: buffer_ok_def intro!: mt_get_run_get get_buffers_run)
  have "run_get (level_run (le_open_tables e) (lookup_order (le_manifest e) key)) key snapshot =
      run_get (tables_run (le_open_tables e) (le_manifest e)) key snapshot"
    using I by (intro run_get_versions_cong lookup_order_run) auto
  moreover have "\<forall>m \<in> set (lookup_order (le_manifest e) key). table_served (le_open_tables e) m"
    using I lookup_order_mem by blast
  ultimately have tab: "get_tables (le_open_tables e) key snapshot (lookup_order (le_manifest e) key) =
      Inr (definite (run_get (tables_run (le_open_tables e) (le_manifest e)) key snapshot))"
    using get_tables_run by metis
  show ?thesis
    by (auto simp: lsm_get_def buf tab contents_def buffered_def run_get_append definite_def split: lookup.splits)
qed

text \<open>An engine with one buffered version.\<close>

definition example_log :: mlog where
  "example_log = \<lparr>ml_disk = [], ml_buf = [], ml_attached = True, ml_edits_written = 0, ml_io = []\<rparr>"

definition example_lsm :: lsm_engine where
  "example_lsm = (lsm_initial \<lparr>lo_memtable_bytes = 64, lo_levels = level_config_default\<rparr> [] example_log)
     \<lparr>le_active := mt_insert [1] [7] 5 memtable_new\<rparr>"

lemma tables_run_new: "tables_run tables (levels_new c) = []"
  by (simp add: tables_run_def level_run_def)

lemma lsm_initial_inv: "0 < lv_max_levels (lo_levels opts) \<Longrightarrow> lsm_inv (lsm_initial opts files l)"
  by (simp add: lsm_inv_def lsm_initial_def buffer_ok_def memtable_new_ok levels_new_ok contents_def buffered_def tables_run_new)
    (simp add: memtable_new_def)

lemma example_buffer: "mt_map (mt_insert [1] [7] 5 memtable_new) = [(IKey [1] 5, Some [7])]"
  by (simp add: mt_insert_def put_slot_def memtable_new_def Let_def)

lemma example_lsm_inv: "lsm_inv example_lsm" "contents example_lsm = [(IKey [1] 5, Some [7])]" "le_frozen example_lsm = []"
proof -
  have "mt_ok (mt_insert [1] [7] 5 memtable_new)"
    unfolding mt_insert_def by (rule put_slot_ok [OF memtable_new_ok(1)]) (simp add: U64_MAX_def)
  moreover show c: "contents example_lsm = [(IKey [1] 5, Some [7])]"
    by (simp add: contents_def buffered_def example_lsm_def lsm_initial_def example_buffer tables_run_new)
  moreover have "descending [(IKey [1] 5, Some [7])]" by (rule bm_ok_descending) simp
  ultimately show "lsm_inv example_lsm"
    using lsm_initial_inv [of "\<lparr>lo_memtable_bytes = 64, lo_levels = level_config_default\<rparr>"]
    by (simp add: lsm_inv_def example_lsm_def lsm_initial_def buffer_ok_def example_buffer level_config_default_def fits_def
        MAX_ENTRY_FIELD_def U64_MAX_def)
  show "le_frozen example_lsm = []" by (simp add: example_lsm_def lsm_initial_def)
qed

text \<open>C8. Reads of the LSM engine. In a state in order, a lookup at a snapshot never fails and returns
  the newest version of the key at or below the snapshot among all that the write buffers and the
  tables of all levels hold, a tombstone being told from absence: the key ranges, Bloom filters,
  sparse indices and the order of the search skip nothing.\<close>

theorem lsm_reads_newest:
  assumes "lsm_inv e"
  shows "\<exists>r. lsm_get e key snapshot = Inr (definite r) \<and> newest (set (contents e)) key snapshot r"
  using lsm_get_run [OF assms] run_get_descending assms by (metis lsm_inv_def)

theorem lsm_reads_newest_witness:
  "\<exists>r. lsm_get example_lsm [1] 6 = Inr (definite r) \<and> newest (set (contents example_lsm)) [1] 6 r"
  by (rule lsm_reads_newest [OF example_lsm_inv(1)])

end
