(* ===== verification/Lsm_Writes.thy ===== *)
theory Lsm_Writes
  imports Lsm_Reads
begin

text \<open>
  Writes and flushes of the LSM engine, against the list of versions it holds: a write adds one
  version, a flush moves a buffer's versions into a table of level 0 and changes nothing that a
  lookup can see, whichever system call fails.
\<close>

section \<open>Writes\<close>

lemma contents_rotate: "contents (rotate_table e) = contents e"
  by (simp add: rotate_table_def contents_def buffered_def memtable_default_def)

lemma contents_maybe_rotate [simp]: "contents (maybe_rotate e) = contents e"
  by (simp add: maybe_rotate_def contents_rotate)

lemma lsm_inv_rotate: "lsm_inv e \<Longrightarrow> lsm_inv (maybe_rotate e)"
  using contents_rotate [of e] memtable_new_ok(2)
  by (auto simp: maybe_rotate_def lsm_inv_def rotate_table_def buffer_ok_def mt_is_empty_def memtable_default_def)

text \<open>Everything but the active buffer.\<close>

definition older_contents :: "lsm_engine \<Rightarrow> lsm_entry list" where
  "older_contents e = concat (map mt_map (rev (le_frozen e))) @ tables_run (le_open_tables e) (le_manifest e)"

lemma contents_split: "contents e = mt_map (le_active e) @ older_contents e"
  by (simp add: contents_def buffered_def older_contents_def)

definition write_slot :: "bytes \<Rightarrow> value_slot \<Rightarrow> nat \<Rightarrow> lsm_engine \<Rightarrow> lsm_engine" where
  "write_slot key slot sq e = e\<lparr>le_active := put_slot key slot sq (le_active e)\<rparr>"

lemma write_slot_inv:
  assumes inv: "lsm_inv e" and fit: "fits (IKey key sq, slot)"
    and fresh: "\<forall>x \<in> set (older_contents e). user_key (fst x) = key \<longrightarrow> seqno (fst x) < sq"
  shows "lsm_inv (write_slot key slot sq e)"
    and "set (contents (write_slot key slot sq e)) = insert (IKey key sq, slot) {x \<in> set (contents e). fst x \<noteq> IKey key sq}"
proof -
  have mt: "mt_ok (le_active e)" and mf: "\<forall>x \<in> set (mt_map (le_active e)). fits x" and sq: "sq \<le> U64_MAX"
    using inv fit by (auto simp: lsm_inv_def buffer_ok_def fits_def)
  let ?t = "put_slot key slot sq (le_active e)"
  have ok: "bm_ok (mt_map (le_active e))" using mt by (simp add: mt_ok_def)
  have map: "mt_map ?t = bm_put (IKey key sq) slot (mt_map (le_active e))" by (rule put_slot_fields(1) [OF mt])
  have set: "set (mt_map ?t) = insert (IKey key sq, slot) {x \<in> set (mt_map (le_active e)). fst x \<noteq> IKey key sq}"
    unfolding map by (rule set_bm_put [OF ok])
  have same: "older_contents (write_slot key slot sq e) = older_contents e" "le_active (write_slot key slot sq e) = ?t"
    by (simp_all add: older_contents_def write_slot_def)
  have keep: "x \<in> set (older_contents e) \<Longrightarrow> fst x \<noteq> IKey key sq" for x using fresh by force
  show "set (contents (write_slot key slot sq e)) = insert (IKey key sq, slot) {x \<in> set (contents e). fst x \<noteq> IKey key sq}"
    unfolding contents_split same set_append set using keep by blast
  have "newer (mt_map ?t) (older_contents e)"
  proof -
    have "newer (mt_map (le_active e)) (older_contents e)" using inv by (simp add: lsm_inv_def contents_split)
    then show ?thesis unfolding newer_def set using fresh by auto
  qed
  moreover have "descending (mt_map ?t)" unfolding map using ok by (intro bm_ok_descending) simp
  ultimately have "descending (contents (write_slot key slot sq e))"
    using inv by (simp add: contents_split same lsm_inv_def)
  moreover have "buffer_ok ?t" using put_slot_ok [OF mt sq] mf fit set by (simp add: buffer_ok_def)
  ultimately show "lsm_inv (write_slot key slot sq e)" using inv by (simp add: lsm_inv_def write_slot_def)
qed

lemma lsm_put_steps:
  "lsm_put key val sq e =
     (if length key > MAX_LSM_FIELD \<or> length val > MAX_LSM_FIELD then (Inl InvalidArgument, e)
      else (Inr (), maybe_rotate (write_slot key (Some val) sq e)))"
  by (simp add: lsm_put_def check_entry_field_def write_slot_def mt_insert_def sbind_def)

lemma lsm_delete_steps:
  "lsm_delete key sq e =
     (if length key > MAX_LSM_FIELD then (Inl InvalidArgument, e)
      else (Inr (), maybe_rotate (write_slot key None sq e)))"
  by (simp add: lsm_delete_def check_entry_field_def write_slot_def mt_delete_def sbind_def)

text \<open>C9. Writes of the LSM engine. A put or a delete with a sequence number above those of the
  key's versions in the older buffers and tables keeps the state in order and adds exactly that
  version (replacing one with the same number in the active buffer), whether or not the buffer is
  rotated; a key or value over the size limit is refused and nothing changes.\<close>

theorem lsm_write_adds_version:
  assumes "lsm_inv e" "sq \<le> U64_MAX"
    and "\<forall>x \<in> set (older_contents e). user_key (fst x) = key \<longrightarrow> seqno (fst x) < sq"
  shows "(case lsm_put key val sq e of
       (Inr _, e') \<Rightarrow> lsm_inv e' \<and>
         set (contents e') = insert (IKey key sq, Some val) {x \<in> set (contents e). fst x \<noteq> IKey key sq}
     | (Inl err, e') \<Rightarrow> err = InvalidArgument \<and> e' = e \<and> (length key > MAX_LSM_FIELD \<or> length val > MAX_LSM_FIELD)) \<and>
     (case lsm_delete key sq e of
       (Inr _, e') \<Rightarrow> lsm_inv e' \<and>
         set (contents e') = insert (IKey key sq, None) {x \<in> set (contents e). fst x \<noteq> IKey key sq}
     | (Inl err, e') \<Rightarrow> err = InvalidArgument \<and> e' = e \<and> length key > MAX_LSM_FIELD)"
proof
  have fit: "length key \<le> MAX_LSM_FIELD \<Longrightarrow> (case slot of Some v \<Rightarrow> length v \<le> MAX_LSM_FIELD | None \<Rightarrow> True) \<Longrightarrow>
      fits (IKey key sq, slot)" for slot :: value_slot
    using assms(2) by (simp add: fits_def MAX_LSM_FIELD_def MAX_ENTRY_FIELD_def split: option.splits)
  show "case lsm_put key val sq e of
       (Inr _, e') \<Rightarrow> lsm_inv e' \<and>
         set (contents e') = insert (IKey key sq, Some val) {x \<in> set (contents e). fst x \<noteq> IKey key sq}
     | (Inl err, e') \<Rightarrow> err = InvalidArgument \<and> e' = e \<and> (length key > MAX_LSM_FIELD \<or> length val > MAX_LSM_FIELD)"
    using write_slot_inv [OF assms(1) fit assms(3), of "Some val"] lsm_inv_rotate by (simp add: lsm_put_steps not_less)
  show "case lsm_delete key sq e of
       (Inr _, e') \<Rightarrow> lsm_inv e' \<and>
         set (contents e') = insert (IKey key sq, None) {x \<in> set (contents e). fst x \<noteq> IKey key sq}
     | (Inl err, e') \<Rightarrow> err = InvalidArgument \<and> e' = e \<and> length key > MAX_LSM_FIELD"
    using write_slot_inv [OF assms(1) fit assms(3), of None] lsm_inv_rotate by (simp add: lsm_delete_steps not_less)
qed

theorem lsm_write_adds_version_witness:
  "case lsm_delete [1] 8 example_lsm of
       (Inr _, e') \<Rightarrow> lsm_inv e' \<and>
         set (contents e') = insert (IKey [1] 8, None) {x \<in> set (contents example_lsm). fst x \<noteq> IKey [1] 8}
     | (Inl err, e') \<Rightarrow> False"
proof -
  have "older_contents example_lsm = []"
    using example_lsm_inv(2) by (simp add: contents_split example_lsm_def example_buffer)
  then show ?thesis
    using lsm_write_adds_version [OF example_lsm_inv(1), of 8 "[1]" "[]"]
    by (auto simp: U64_MAX_def lsm_delete_steps MAX_LSM_FIELD_def)
qed

section \<open>System calls touch the log and the files only\<close>

definition only_io :: "lsm_engine \<Rightarrow> lsm_engine \<Rightarrow> bool" where
  "only_io e e' \<longleftrightarrow>
     le_options e' = le_options e \<and> le_active e' = le_active e \<and> le_frozen e' = le_frozen e \<and>
     le_manifest e' = le_manifest e \<and> le_checkpoint_seqno e' = le_checkpoint_seqno e \<and>
     le_open_tables e' = le_open_tables e \<and> le_flushes e' = le_flushes e \<and> le_compactions e' = le_compactions e"

lemma only_io_refl [simp, intro]: "only_io e e"
  by (simp add: only_io_def)

lemma only_io_trans [trans]: "only_io e e' \<Longrightarrow> only_io e' e'' \<Longrightarrow> only_io e e''"
  by (simp add: only_io_def)

lemma only_io_contents:
  assumes "only_io e e'"
  shows "contents e' = contents e" "lsm_inv e' = lsm_inv e" "le_frozen e' = le_frozen e" "le_active e' = le_active e"
    "le_manifest e' = le_manifest e" "le_open_tables e' = le_open_tables e" "le_options e' = le_options e"
    "le_checkpoint_seqno e' = le_checkpoint_seqno e" "older_contents e' = older_contents e"
  using assms by (simp_all add: only_io_def contents_def buffered_def lsm_inv_def older_contents_def)

lemma only_io_steps:
  "on_log m e = (r, e') \<Longrightarrow> only_io e e'"
  "write_file tid bs e = (r', e') \<Longrightarrow> only_io e e'"
  "only_io e (unlink_file tid e)"
  by (auto simp: only_io_def on_log_def write_file_def unlink_file_def split: prod.splits option.splits)

lemma only_io_bind:
  assumes "sbind m f e = (r, e'')" "\<And>r e'. m e = (r, e') \<Longrightarrow> only_io e e'" "\<And>x e' r e''. f x e' = (r, e'') \<Longrightarrow> only_io e' e''"
  shows "only_io e e''"
  using assms by (auto simp: sbind_def split: prod.splits sum.splits intro: only_io_trans)

lemma open_file_io: "open_file crc tid level e = (r, e') \<Longrightarrow> only_io e e'"
  unfolding open_file_def
  by (erule only_io_bind) (auto simp: only_io_steps sbind_def split: option.splits)

lemma write_and_open_io: "write_and_open crc n es tid level e = (r, e') \<Longrightarrow> only_io e e'"
  unfolding write_and_open_def
  by (erule only_io_bind) (auto elim!: only_io_bind simp: only_io_steps intro: open_file_io split: prod.splits)


section \<open>Flushing a buffer\<close>

text \<open>A bound on the bytes the engine holds, encoded, that keeps file lengths far below \<open>2^64\<close>.\<close>

definition volume_fits :: "lsm_engine \<Rightarrow> bool" where
  "volume_fits e \<longleftrightarrow> length (enc_all (contents e)) \<le> 2 ^ 62"

lemma sw_append_index:
  "sw_append e w = Inr w' \<Longrightarrow> length (encode_index (sw_index w')) \<le> length (encode_index (sw_index w)) + length (encode_entry e)"
  by (cases e) (auto simp: sw_append_def note_key_def Let_def rbind_Inr_iff sw_emit_def encode_index_def encode_entry_def
      split: if_splits option.splits)

lemma sw_appends_index:
  "rfold sw_append es w = Inr w' \<Longrightarrow> length (encode_index (sw_index w')) \<le> length (encode_index (sw_index w)) + length (enc_all es)"
proof (induction es arbitrary: w)
  case (Cons e es)
  then obtain w1 where "sw_append e w = Inr w1" "rfold sw_append es w1 = Inr w'" by (auto simp: rbind_Inr_iff)
  then show ?case using Cons.IH [of w1] sw_append_index [of e w w1] by simp
qed simp

lemma written_length:
  assumes "bm_ok es" "\<forall>e \<in> set es. fits e" "write_table crc n es tid level = Inr (m, bs)" "length (enc_all es) \<le> 2 ^ 62"
  shows "length bs \<le> U64_MAX"
proof -
  have "sorted (ukeys ([] @ es))" using sorted_user_keys [OF assms(1)] by simp
  then obtain w where w: "rfold sw_append es (sw_create n) = Inr w" "writer_inv es w"
    using writer_run [OF writer_inv_create, of es n] assms(2) by auto
  have "length (encode_index (sw_index w)) \<le> length (enc_all es)"
    using sw_appends_index [OF w(1)] by (simp add: sw_create_def encode_index_def)
  moreover have "length (bloom_encode (sw_bloom w)) \<le> 2 ^ 30"
    using w(2) by (simp add: writer_inv_def bloom_ok_def bloom_encode_def length_concat_words MAX_BITS_def)
  moreover have "bs = snd (sw_finish crc tid level w)" using assms(3) w(1) by (auto simp: write_table_def)
  then have "length bs = length (enc_all es) + length (bloom_encode (sw_bloom w)) + length (encode_index (sw_index w)) + 76"
    using w(2) by (simp add: sw_finish_def Let_def sw_emit_def writer_inv_def)
  ultimately show ?thesis using assms(4) by (simp add: U64_MAX_def)
qed

lemma descending_distinct: "descending es \<Longrightarrow> distinct es"
proof (induction es)
  case (Cons x es)
  then have "descending ([x] @ es)" by simp
  then show ?case using Cons.IH unfolding descending_append by (auto simp: newer_def)
qed simp

lemma volume_of_part:
  assumes "descending es" "set es \<subseteq> set es'"
  shows "length (enc_all es) \<le> length (enc_all es')"
proof -
  let ?f = "\<lambda>x. length (encode_entry x)"
  have len: "length (enc_all xs) = sum_list (map ?f xs)" for xs by (induction xs) simp_all
  have "sum_list (map ?f es) = sum ?f (set es)"
    using descending_distinct [OF assms(1)] by (simp add: sum_list_distinct_conv_sum_set)
  also have "\<dots> \<le> sum ?f (set es')" by (rule sum_mono2) (use assms(2) in auto)
  also have "\<dots> \<le> sum_list (map ?f es')" by (induction es') (simp_all add: sum.insert_if le_add2 add_mono trans_le_add2)
  finally show ?thesis by (simp add: len)
qed

lemma write_and_open_serves:
  assumes run: "write_and_open crc n es tid level e = (Inr (m, t), e')"
    and es: "es \<noteq> []" "bm_ok es" "\<forall>x \<in> set es. fits x" and fit: "length (enc_all es) \<le> 2 ^ 62"
  shows "serves t m es" "tm_id m = tid" "tm_level m = level" "bm_get (le_files e') tid = Some (snd (projr (write_table crc n es tid level)))"
proof -
  obtain bs e1 where w: "write_table crc n es tid level = Inr (m, bs)" "write_file tid bs e = (Inr (), e1)"
      "open_file crc tid level e1 = (Inr t, e')"
    using run by (auto simp: write_and_open_def sbind_Inr_iff split: prod.splits)
  have e1: "bm_get (le_files e1) tid = Some bs" using w(2) by (auto simp: write_file_def split: prod.splits option.splits)
  obtain e2 where e2: "on_log ml_call e1 = (Inr (), e2)" "sbind sget (\<lambda>e. case bm_get (le_files e) tid of None \<Rightarrow> serr Io
       | Some bs \<Rightarrow> slift (sst_open crc bs tid level)) e2 = (Inr t, e')"
    using w(3) by (auto simp: open_file_def sbind_Inr_iff)
  have "le_files e2 = le_files e1" using e2(1) by (auto simp: on_log_def split: prod.splits)
  then have o: "sst_open crc bs tid level = Inr t" "e' = e2" "bm_get (le_files e2) tid = Some bs"
    using e2(2) e1 by (simp_all add: sbind_def)
  show "bm_get (le_files e') tid = Some (snd (projr (write_table crc n es tid level)))" using o w(1) by simp
  have "length bs \<le> U64_MAX" by (rule written_length [OF es(2,3) w(1) fit])
  from open_written [OF es w(1) this] obtain t' where t': "sst_open crc bs tid level = Inr t'" "ss_meta t' = m" "ss_data t' = enc_all es"
    "bloom_ok (ss_bloom t')" "\<forall>e \<in> set es. bloom_contains (ss_bloom t') (user_key (fst e)) = Inr True" "index_ok es (ss_index t')"
    "tm_min_key m = user_key (fst (hd es))" "tm_max_key m = user_key (fst (last es))" "tm_id m = tid" "tm_level m = level" .
  show "serves t m es" "tm_id m = tid" "tm_level m = level" using t' o(1) es by (simp_all add: serves_def)
qed

lemma serves_key_order: "serves t m es \<Longrightarrow> tm_min_key m \<le> tm_max_key m"
  using serves_range [of t m es "hd es"] by (auto simp: serves_def)

lemma allocate_ok:
  assumes "allocate_table_id m = (tid, m')"
  shows "manifest_ok m \<Longrightarrow> manifest_ok m'" "level_tables m' l = level_tables m l" "tid = lm_next_table_id m"
    "length (lm_levels m') = length (lm_levels m)" "lm_config m' = lm_config m" "lm_next_table_id m' = tid + 1"
    "tables_run tables m' = tables_run tables m"
proof -
  have m': "m' = m\<lparr>lm_next_table_id := lm_next_table_id m + 1\<rparr>" and t: "tid = lm_next_table_id m"
    using assms by (auto simp: allocate_table_id_def)
  show l: "level_tables m' l = level_tables m l" for l by (simp add: m' level_tables_def)
  show "manifest_ok m \<Longrightarrow> manifest_ok m'" unfolding manifest_ok_def l by (auto simp: m' less_Suc_eq)
  show "tables_run tables m' = tables_run tables m" unfolding tables_run_def l by (simp add: m')
qed (use assms in \<open>auto simp: allocate_table_id_def\<close>)

lemma table_entries_put:
  "tm_id m \<noteq> tid \<Longrightarrow> table_entries (bm_put tid t tables) m = table_entries tables m"
  "tm_id m \<noteq> tid \<Longrightarrow> table_served (bm_put tid t tables) m = table_served tables m"
  "serves t m es \<Longrightarrow> tm_id m = tid \<Longrightarrow> table_entries (bm_put tid t tables) m = es"
  "serves t m es \<Longrightarrow> tm_id m = tid \<Longrightarrow> table_served (bm_put tid t tables) m"
  by (auto simp: table_entries_def table_served_def servesD)

lemma level_run_cong: "(\<And>m. m \<in> set ts \<Longrightarrow> table_entries tables m = table_entries tables' m) \<Longrightarrow> level_run tables ts = level_run tables' ts"
  by (simp add: level_run_def cong: map_cong)

definition install_flushed :: "nat \<Rightarrow> table_meta \<Rightarrow> sstable \<Rightarrow> lsm_engine \<Rightarrow> lsm_engine" where
  "install_flushed tid m t e =
     e\<lparr>le_frozen := tl (le_frozen e), le_open_tables := bm_put tid t (le_open_tables e),
       le_manifest := add_table m (le_manifest e), le_flushes := le_flushes e + 1\<rparr>"

lemma install_flushed_ok:
  assumes inv: "lsm_inv e" and fr: "le_frozen e = mem # rest" and t: "serves t m (mt_map mem)" "tm_id m = tid" "tm_level m = 0"
    and new: "\<forall>l. \<forall>m' \<in> set (level_tables (le_manifest e) l). tm_id m' < tid"
  shows "contents (install_flushed tid m t e) = contents e" "lsm_inv (install_flushed tid m t e)"
proof -
  let ?tabs = "le_open_tables e" and ?m = "le_manifest e"
  let ?tabs' = "bm_put tid t ?tabs" and ?m' = "add_table m ?m"
  have ok: "manifest_ok ?m" using inv by (simp add: lsm_inv_def)
  have old: "table_entries ?tabs' m' = table_entries ?tabs m'" "table_served ?tabs' m'" if "m' \<in> set (level_tables ?m l)" for m' l
  proof -
    have "tm_id m' \<noteq> tid" "table_served ?tabs m'" using that new inv by (auto simp: lsm_inv_def)
    then show "table_entries ?tabs' m' = table_entries ?tabs m'" "table_served ?tabs' m'" by (simp_all add: table_entries_put(1,2))
  qed
  have run: "level_run ?tabs' (level_tables ?m l) = level_run ?tabs (level_tables ?m l)"
      "level_run ?tabs' (rev (level_tables ?m l)) = level_run ?tabs (rev (level_tables ?m l))" for l
    by (rule level_run_cong; use old in auto)+
  have lt: "level_tables ?m' l = (if l = 0 then level_tables ?m 0 @ [m] else level_tables ?m l)" for l
    by (simp add: level_tables_add t(3))
  have len: "length (lm_levels ?m') = length (lm_levels ?m)" using ok t(3) by (auto simp: manifest_ok_def max_def le_Suc_eq)
  have "level_run ?tabs' (rev (level_tables ?m' 0)) = mt_map mem @ level_run ?tabs (rev (level_tables ?m 0))"
    using run(2) [of 0] table_entries_put(3) [OF t(1,2)] by (simp add: lt level_run_def)
  moreover have "map (\<lambda>l. level_run ?tabs' (level_tables ?m' l)) [1..<length (lm_levels ?m')] =
      map (\<lambda>l. level_run ?tabs (level_tables ?m l)) [1..<length (lm_levels ?m)]"
    unfolding len by (rule map_cong) (auto simp: lt run)
  ultimately have "tables_run ?tabs' ?m' = mt_map mem @ tables_run ?tabs ?m" by (simp add: tables_run_def)
  then show c: "contents (install_flushed tid m t e) = contents e"
    by (simp add: contents_def buffered_def install_flushed_def fr)
  have "manifest_ok ?m'"
    using ok new serves_key_order [OF t(1)] t(2,3) by (intro add_table_ok) fastforce+
  moreover have "table_served ?tabs' m'" if "m' \<in> set (level_tables ?m' l)" for m' l
    using that old(2) table_entries_put(4) [OF t(1,2)] by (auto simp: lt split: if_splits)
  moreover have "descending (contents (install_flushed tid m t e))" using inv c by (simp add: lsm_inv_def)
  ultimately show "lsm_inv (install_flushed tid m t e)"
    using inv fr by (simp add: lsm_inv_def install_flushed_def)
qed

lemma set_checkpoint_effect:
  assumes "set_checkpoint crc ser sq e = (r, e')"
  shows "contents e' = contents e" "lsm_inv e' = lsm_inv e" "le_frozen e' = le_frozen e" "le_active e' = le_active e"
    "le_files e' = le_files e" "le_manifest e' = le_manifest e" "le_open_tables e' = le_open_tables e" "le_options e' = le_options e"
  using assms
  by (auto simp: set_checkpoint_def sbind_def on_log_def contents_def buffered_def lsm_inv_def split: if_splits prod.splits sum.splits)

lemma flush_one_steps:
  assumes "flush_one crc ser e = (r, e')" "le_frozen e = mem # rest"
  obtains (failed) "only_io (e\<lparr>le_manifest := snd (allocate_table_id (le_manifest e))\<rparr>) e'" "\<exists>err. r = Inl err"
  | (installed) m t e1 e2 where
      "write_and_open crc (distinct_key_count mem) (mt_map mem) (lm_next_table_id (le_manifest e)) 0
         (e\<lparr>le_manifest := snd (allocate_table_id (le_manifest e))\<rparr>) = (Inr (m, t), e1)"
      "on_log (manifest_append crc ser (AddTable m)) e1 = (Inr (), e2)"
      "set_checkpoint crc ser (case max_seqno mem of Some n \<Rightarrow> n | None \<Rightarrow> 0)
         (install_flushed (lm_next_table_id (le_manifest e)) m t e2) = (map_sum id (\<lambda>_. ()) r, e')"
      "r = Inr (Some m) \<or> (\<exists>err. r = Inl err)"
proof -
  let ?e = "e\<lparr>le_manifest := snd (allocate_table_id (le_manifest e))\<rparr>"
  obtain r1 e1 where w: "write_and_open crc (distinct_key_count mem) (mt_map mem) (lm_next_table_id (le_manifest e)) 0 ?e = (r1, e1)"
    by (cases "write_and_open crc (distinct_key_count mem) (mt_map mem) (lm_next_table_id (le_manifest e)) 0 ?e")
  note io1 = write_and_open_io [OF w]
  show thesis
  proof (cases r1)
    case (Inl err)
    then have "e' = unlink_file (lm_next_table_id (le_manifest e)) e1" "r = Inl err"
      using assms w by (simp_all add: flush_one_def allocate_table_id_def Let_def)
    then show thesis using failed io1 only_io_steps(3) only_io_trans by blast
  next
    case (Inr mt)
    obtain m t where mt: "mt = (m, t)" by (cases mt)
    obtain r2 e2 where a: "on_log (manifest_append crc ser (AddTable m)) e1 = (r2, e2)"
      by (cases "on_log (manifest_append crc ser (AddTable m)) e1")
    note io2 = only_io_trans [OF io1 only_io_steps(1) [OF a]]
    obtain r3 e3 where c: "set_checkpoint crc ser (case max_seqno mem of Some n \<Rightarrow> n | None \<Rightarrow> 0)
         (install_flushed (lm_next_table_id (le_manifest e)) m t e2) = (r3, e3)"
      by (cases "set_checkpoint crc ser (case max_seqno mem of Some n \<Rightarrow> n | None \<Rightarrow> 0)
         (install_flushed (lm_next_table_id (le_manifest e)) m t e2)")
    note run = assms w [unfolded Inr mt] a c [unfolded install_flushed_def]
    show thesis
    proof (cases r2)
      case (Inl err)
      then have "e' = e2" "r = Inl err" using run by (simp_all add: flush_one_def allocate_table_id_def Let_def sbind_def)
      then show thesis using failed io2 by blast
    next
      case r2: (Inr u)
      have "e' = e3" "r = (case r3 of Inl err \<Rightarrow> Inl err | Inr _ \<Rightarrow> Inr (Some m))"
        using run r2 by (cases r3; simp add: flush_one_def allocate_table_id_def Let_def sbind_def)+
      then show thesis using installed [of m t e1 e2] w [unfolded Inr mt] a [unfolded r2] c by (cases r3) simp_all
    qed
  qed
qed

lemma flush_one_ok:
  assumes run: "flush_one crc ser e = (r, e')" and inv: "lsm_inv e" and fit: "volume_fits e"
  shows "lsm_inv e'" "contents e' = contents e" "le_active e' = le_active e"
    "r = Inr None \<Longrightarrow> e' = e \<and> le_frozen e = []"
    "r = Inr (Some m) \<Longrightarrow> le_frozen e \<noteq> [] \<and> le_frozen e' = tl (le_frozen e)"
    "le_frozen e' = le_frozen e \<or> (le_frozen e \<noteq> [] \<and> le_frozen e' = tl (le_frozen e))"
proof -
  have "lsm_inv e' \<and> contents e' = contents e \<and> le_active e' = le_active e \<and> (r = Inr None \<longrightarrow> e' = e \<and> le_frozen e = []) \<and>
    (\<forall>m. r = Inr (Some m) \<longrightarrow> le_frozen e \<noteq> [] \<and> le_frozen e' = tl (le_frozen e)) \<and>
    (le_frozen e' = le_frozen e \<or> (le_frozen e \<noteq> [] \<and> le_frozen e' = tl (le_frozen e)))"
  proof (cases "le_frozen e")
    case Nil
    then show ?thesis using run inv by (auto simp: flush_one_def)
  next
    case (Cons mem rest)
    let ?e = "e\<lparr>le_manifest := snd (allocate_table_id (le_manifest e))\<rparr>"
    note al = allocate_ok [of "le_manifest e" "lm_next_table_id (le_manifest e)" "snd (allocate_table_id (le_manifest e))"]
    have fst: "allocate_table_id (le_manifest e) = (lm_next_table_id (le_manifest e), snd (allocate_table_id (le_manifest e)))"
      by (simp add: allocate_table_id_def)
    have E: "lsm_inv ?e" "contents ?e = contents e" using inv al [OF fst] by (simp_all add: lsm_inv_def contents_def buffered_def)
    from run Cons show ?thesis
    proof (cases rule: flush_one_steps)
      case failed
      then show ?thesis using E by (auto simp: only_io_contents)
    next
      case (installed m t e1 e2)
      note io1 = write_and_open_io [OF installed(1)] and io2 = only_io_steps(1) [OF installed(2)]
      note io = only_io_contents [OF only_io_trans [OF io1 io2]]
      have mem: "mt_map mem \<noteq> []" "bm_ok (mt_map mem)" "\<forall>x \<in> set (mt_map mem). fits x"
        using inv Cons by (auto simp: lsm_inv_def buffer_ok_def mt_ok_def)
      moreover have "set (mt_map mem) \<subseteq> set (contents e)" using Cons by (auto simp: contents_def buffered_def)
      then have "length (enc_all (mt_map mem)) \<le> 2 ^ 62"
        using volume_of_part [OF bm_ok_descending [OF mem(2)]] fit by (metis volume_fits_def order_trans)
      ultimately have t: "serves t m (mt_map mem)" "tm_id m = lm_next_table_id (le_manifest e)" "tm_level m = 0"
        using write_and_open_serves [OF installed(1)] by auto
      have new: "\<forall>l. \<forall>m' \<in> set (level_tables (le_manifest e2) l). tm_id m' < lm_next_table_id (le_manifest e)"
        using inv al(2) [OF fst] io(5) by (auto simp: lsm_inv_def manifest_ok_def)
      have "lsm_inv e2" "le_frozen e2 = mem # rest" using io E(1) Cons by simp_all
      note I = install_flushed_ok [OF this t new]
      show ?thesis
        using I io E(2) Cons set_checkpoint_effect [OF installed(3)] installed(4) by (auto simp: install_flushed_def)
    qed
  qed
  then show "lsm_inv e'" "contents e' = contents e" "le_active e' = le_active e"
    "r = Inr None \<Longrightarrow> e' = e \<and> le_frozen e = []"
    "r = Inr (Some m) \<Longrightarrow> le_frozen e \<noteq> [] \<and> le_frozen e' = tl (le_frozen e)"
    "le_frozen e' = le_frozen e \<or> (le_frozen e \<noteq> [] \<and> le_frozen e' = tl (le_frozen e))" by blast+
qed


section \<open>Flushing everything\<close>

text \<open>More rounds than there are frozen buffers change nothing: the loop ends by itself.\<close>

lemma flush_rounds_enough:
  assumes "lsm_inv e" "volume_fits e" "length (le_frozen e) < n"
  shows "flush_rounds crc ser n e = flush_all crc ser e"
proof -
  have "flush_rounds crc ser n e = flush_rounds crc ser k e" if "length (le_frozen e) < n" "length (le_frozen e) < k" for n k
    using assms(1,2) that
  proof (induction n arbitrary: k e)
    case (Suc n)
    then obtain k' where k: "k = Suc k'" by (cases k) auto
    obtain r e' where f: "flush_one crc ser e = (r, e')" by (cases "flush_one crc ser e")
    note F = flush_one_ok [OF f Suc.prems(1,2)]
    have "flush_rounds crc ser n e' = flush_rounds crc ser k' e'" if "r = Inr (Some m)" for m
    proof (rule Suc.IH)
      show "volume_fits e'" using Suc.prems(2) F(2) by (simp add: volume_fits_def)
      have "length (le_frozen e') + 1 = length (le_frozen e)" using F(5) [OF that] by (cases "le_frozen e") auto
      then show "length (le_frozen e') < n" "length (le_frozen e') < k'" using Suc.prems(3,4) k by auto
    qed (rule F(1))
    then show ?case using f unfolding k by (cases r) (auto simp: sbind_def split: option.splits)
  qed simp
  from this [OF assms(3), of "Suc (length (le_frozen e))"] show ?thesis by (simp add: flush_all_def)
qed

lemma flush_rounds_ok:
  assumes "lsm_inv e" "volume_fits e" "flush_rounds crc ser n e = (r, e')"
  shows "lsm_inv e' \<and> contents e' = contents e \<and> le_active e' = le_active e \<and>
    (\<forall>k. r = Inr k \<longrightarrow> k = length (le_frozen e) \<and> le_frozen e' = [])"
  using assms
proof (induction n arbitrary: e r)
  case (Suc n)
  obtain r1 e1 where f: "flush_one crc ser e = (r1, e1)" by (cases "flush_one crc ser e")
  note F = flush_one_ok [OF f Suc.prems(1,2)]
  have vol: "volume_fits e1" using Suc.prems(2) F(2) by (simp add: volume_fits_def)
  show ?case
  proof (cases "\<exists>m. r1 = Inr (Some m)")
    case True
    then obtain m where m: "r1 = Inr (Some m)" by blast
    obtain r2 where r2: "flush_rounds crc ser n e1 = (r2, e')" "r = map_sum id Suc r2"
      using Suc.prems(3) f m by (cases "flush_rounds crc ser n e1") (auto simp: sbind_def split: sum.splits)
    have "length (le_frozen e1) + 1 = length (le_frozen e)" using F(5) [OF m] by (cases "le_frozen e") auto
    then show ?thesis using Suc.IH [OF F(1) vol r2(1)] F(2,3) r2(2) by (cases r2) auto
  next
    case False
    then have "e' = e1" "r1 = Inr None \<Longrightarrow> r = Inr 0" "\<And>k. r1 \<noteq> Inr None \<Longrightarrow> r \<noteq> Inr k"
      using Suc.prems(3) f by (auto simp: sbind_def split: sum.splits option.splits)
    then show ?thesis using F(1-4) by (cases "r1 = Inr None") auto
  qed
qed simp



end
