(* ===== verification/Lsm_Swap.thy ===== *)
theory Lsm_Swap
  imports Lsm_Writes
begin

text \<open>
  What installing a compaction does to the levels: the inputs of a job leave their two levels and
  the merged run enters the target level. Per key, the two levels lose the versions of the inputs
  and gain those of the merged run at the same place, so every read of a snapshot at or above the
  floor stays.
\<close>

section \<open>Parts of a level\<close>

lemma find_may_contain:
  assumes "apart ts" "m \<in> set ts" "may_contain m key"
  shows "List.find (\<lambda>m. may_contain m key) ts = Some m"
  using assms
proof (induction ts)
  case (Cons x ts)
  show ?case
  proof (cases "x = m")
    case False
    then have "\<not> may_contain x key" using Cons.prems by (fastforce simp: apart_def may_contain_def)
    then show ?thesis using False Cons by (simp add: apart_def)
  qed (use Cons.prems in simp)
qed simp

lemma versions_level_run_one:
  assumes "apart ts" "\<forall>m \<in> set ts. table_served tables m" "m \<in> set ts" "may_contain m key"
  shows "versions (level_run tables ts) key = versions (table_entries tables m) key"
  using level_run_find [OF assms(1,2), of key] find_may_contain [OF assms(1,3,4)] by simp

lemma versions_level_run_none:
  assumes "\<forall>m \<in> set ts. table_served tables m" "\<forall>m \<in> set ts. \<not> may_contain m key"
  shows "versions (level_run tables ts) key = []"
  using assms table_entries_range by (fastforce simp: versions_Nil_iff level_run_def)

text \<open>A level split in two: of a key, one part has all versions and the other none.\<close>

lemma level_parts:
  assumes "apart ts" "apart ins" "apart keep" "set ts = set ins \<union> set keep"
    and served: "\<forall>m \<in> set ts. table_served tables m"
  shows "versions (level_run tables keep) key = versions (level_run tables ts) key \<and> (\<forall>m \<in> set ins - set keep. \<not> may_contain m key) \<or>
     versions (level_run tables ins) key = versions (level_run tables ts) key \<and> (\<forall>m \<in> set keep - set ins. \<not> may_contain m key)"
proof (cases "\<exists>m \<in> set ts. may_contain m key")
  case True
  then obtain m where m: "m \<in> set ts" "may_contain m key" by blast
  have only: "m' = m" if "m' \<in> set ts" "may_contain m' key" for m'
    using find_may_contain [OF assms(1) that] find_may_contain [OF assms(1) m] by simp
  note one = versions_level_run_one [of _ tables m key]
  from m(1) assms(4) consider "m \<in> set keep" | "m \<in> set ins" by blast
  then show ?thesis
  proof cases
    case 1
    then have "versions (level_run tables keep) key = versions (level_run tables ts) key"
      using one [OF assms(1) served m] one [OF assms(3) _ 1 m(2)] served assms(4) by simp
    then show ?thesis using only 1 assms(4) by blast
  next
    case 2
    then have "versions (level_run tables ins) key = versions (level_run tables ts) key"
      using one [OF assms(1) served m] one [OF assms(2) _ 2 m(2)] served assms(4) by simp
    then show ?thesis using only 2 assms(4) by blast
  qed
next
  case False
  then have "versions (level_run tables keep) key = []" "versions (level_run tables ts) key = []"
    using served assms(4) by (auto intro!: versions_level_run_none)
  then show ?thesis using False assms(4) by simp
qed

definition level_part :: "(nat, sstable) bmap \<Rightarrow> level_manifest \<Rightarrow> nat \<Rightarrow> lsm_entry list" where
  "level_part tables m l = level_run tables (if l = 0 then rev (level_tables m 0) else level_tables m l)"

lemma tables_run_parts:
  assumes "0 < length (lm_levels m)"
  shows "tables_run tables m = concat (map (level_part tables m) [0..<length (lm_levels m)])"
proof -
  have u: "[0..<length (lm_levels m)] = 0 # [1..<length (lm_levels m)]" using assms by (simp add: upt_conv_Cons)
  have p: "level_part tables m 0 = level_run tables (rev (level_tables m 0))" by (simp add: level_part_def)
  have "map (level_part tables m) [1..<length (lm_levels m)] =
      map (\<lambda>l. level_run tables (level_tables m l)) [1..<length (lm_levels m)]"
    by (rule map_cong) (auto simp: level_part_def)
  then show ?thesis unfolding tables_run_def u list.map concat.simps p by (rule arg_cong [OF sym])
qed

lemma tables_run_split:
  assumes "s + 1 < length (lm_levels m)"
  shows "tables_run tables m =
     concat (map (level_part tables m) [0..<s]) @ (level_part tables m s @ level_part tables m (s + 1)) @
     concat (map (level_part tables m) [s + 2..<length (lm_levels m)])"
proof -
  have u: "[0..<length (lm_levels m)] = [0..<s] @ [s, s + 1] @ [s + 2..<length (lm_levels m)]"
    using assms upt_add_eq_append [of 0 s "length (lm_levels m) - s"] by (simp add: upt_conv_Cons)
  have "0 < length (lm_levels m)" using assms by linarith
  then show ?thesis unfolding tables_run_parts [OF \<open>0 < length (lm_levels m)\<close>] u by simp
qed

section \<open>Swapping the inputs for the merged run\<close>

definition input_run :: "(nat, sstable) bmap \<Rightarrow> compaction_job \<Rightarrow> lsm_entry list" where
  "input_run tables j =
     level_run tables (if cj_source_level j = 0 then rev (cj_source_tables j) else cj_source_tables j) @
     level_run tables (cj_target_tables j)"

definition swap_ok ::
  "(nat, sstable) bmap \<Rightarrow> level_manifest \<Rightarrow> compaction_job \<Rightarrow> table_meta list \<Rightarrow> lsm_entry list \<Rightarrow> (nat, sstable) bmap \<Rightarrow> bool" where
  "swap_ok tables m j outs merged tables' \<longleftrightarrow>
     manifest_ok m \<and> picked m j \<and> (\<forall>l. \<forall>x \<in> set (level_tables m l). table_served tables x) \<and>
     bm_ok merged \<and> set merged \<subseteq> set (input_run tables j) \<and>
     (outs = [] \<and> merged = [] \<or> (\<exists>out t. outs = [out] \<and> output_ok m j out \<and> bm_get tables' (tm_id out) = Some t \<and> serves t out merged)) \<and>
     (\<forall>l. \<forall>x \<in> set (level_tables m l). x \<notin> set (all_inputs j) \<longrightarrow> bm_get tables' (tm_id x) = bm_get tables (tm_id x))"

lemma table_entries_same:
  assumes "bm_get tables' (tm_id m) = bm_get tables (tm_id m)"
  shows "table_entries tables' m = table_entries tables m" "table_served tables' m = table_served tables m"
  using assms by (simp_all add: table_entries_def table_served_def)

lemma apart_filter: "apart ts \<Longrightarrow> apart (filter P ts)"
  by (simp add: apart_def sorted_wrt_filter)

lemma in_job_span:
  assumes "m \<in> set (all_inputs j)" "may_contain m key"
  shows "job_min j \<le> key" "key \<le> job_max j"
proof -
  have "job_min j \<le> tm_min_key m" "tm_max_key m \<le> job_max j"
    using assms(1) min_of_le [of "tm_min_key m" "map tm_min_key (all_inputs j)"] max_of_ge [of "tm_max_key m" "map tm_max_key (all_inputs j)"]
    by (simp_all add: job_min_def job_max_def)
  then show "job_min j \<le> key" "key \<le> job_max j" using assms(2) by (auto simp: may_contain_def)
qed

lemma input_run_mem:
  assumes "swap_ok tables m j outs merged tables'" "x \<in> set (input_run tables j)"
  shows "\<exists>y \<in> set (all_inputs j). table_served tables y \<and> x \<in> set (table_entries tables y)"
proof -
  have "set (all_inputs j) \<subseteq> set (level_tables m (cj_source_level j)) \<union> set (level_tables m (cj_target_level j))"
    using assms(1) by (auto simp: swap_ok_def picked_def overlapping_def all_inputs_def)
  moreover obtain y where "y \<in> set (all_inputs j)" "x \<in> set (table_entries tables y)"
    using assms(2) by (auto simp: input_run_def level_run_def all_inputs_def split: if_splits)
  ultimately show ?thesis using assms(1) unfolding swap_ok_def by blast
qed

lemma input_run_span:
  assumes "swap_ok tables m j outs merged tables'" "x \<in> set (input_run tables j)"
  shows "job_min j \<le> user_key (fst x)" "user_key (fst x) \<le> job_max j"
  using input_run_mem [OF assms] in_job_span table_entries_range by blast+


lemma swap_facts:
  assumes "swap_ok tables m j outs merged tables'"
  shows "manifest_ok m" "picked m j" "\<And>l x. x \<in> set (level_tables m l) \<Longrightarrow> table_served tables x"
    "bm_ok merged" "set merged \<subseteq> set (input_run tables j)" "outs = [] \<or> (\<exists>t. outs = [t] \<and> output_ok m j t)"
    "cj_target_level j = cj_source_level j + 1" "cj_target_level j < length (lm_levels m)"
    "set (cj_source_tables j) \<subseteq> set (level_tables m (cj_source_level j))"
    "set (cj_target_tables j) \<subseteq> set (level_tables m (cj_target_level j))"
    "\<And>l x. x \<in> set (level_tables m l) \<Longrightarrow> x \<notin> set (all_inputs j) \<Longrightarrow> bm_get tables' (tm_id x) = bm_get tables (tm_id x)"
  using assms unfolding swap_ok_def picked_def overlapping_def by auto

lemma level_of_table:
  assumes "manifest_ok m" "x \<in> set (level_tables m l)" "x \<in> set (level_tables m l')"
  shows "l = l'"
  using assms unfolding manifest_ok_def by blast

lemma kept_not_input:
  assumes "swap_ok tables m j outs merged tables'"
  shows "x \<in> set (kept_target m j) \<Longrightarrow> x \<in> set (level_tables m (cj_target_level j)) \<and> x \<notin> set (all_inputs j)"
    and "x \<in> set (kept_source m j) \<Longrightarrow> x \<in> set (level_tables m (cj_source_level j)) \<and> x \<notin> set (all_inputs j)"
    and "x \<in> set (level_tables m l) \<Longrightarrow> l \<noteq> cj_source_level j \<Longrightarrow> l \<noteq> cj_target_level j \<Longrightarrow> x \<notin> set (all_inputs j)"
proof -
  note F = swap_facts(7,9,10) [OF assms] and L = level_of_table [OF swap_facts(1) [OF assms]]
  have ne: "cj_target_level j \<noteq> cj_source_level j" using F(1) by simp
  show "x \<in> set (level_tables m (cj_target_level j)) \<and> x \<notin> set (all_inputs j)" if "x \<in> set (kept_target m j)"
    using that F(2) L [of x "cj_target_level j" "cj_source_level j"] ne by (auto simp: kept_target_def all_inputs_def)
  show "x \<in> set (level_tables m (cj_source_level j)) \<and> x \<notin> set (all_inputs j)" if "x \<in> set (kept_source m j)"
    using that F(3) L [of x "cj_target_level j" "cj_source_level j"] ne by (auto simp: kept_source_def all_inputs_def)
  show "x \<notin> set (all_inputs j)" if "x \<in> set (level_tables m l)" "l \<noteq> cj_source_level j" "l \<noteq> cj_target_level j"
    using that F(2,3) L [OF that(1), of "cj_source_level j"] L [OF that(1), of "cj_target_level j"] unfolding all_inputs_def by auto
qed

lemma kept_same:
  assumes "swap_ok tables m j outs merged tables'" "x \<in> set (level_tables m l)" "x \<notin> set (all_inputs j)"
  shows "table_entries tables' x = table_entries tables x" "table_served tables' x"
  using table_entries_same [OF swap_facts(11) [OF assms]] swap_facts(3) [OF assms(1,2)] by simp_all

text \<open>What the two levels hold of a key: the source level keeps all of it or gives all of it away, and so does the target level.\<close>

lemma source_split:
  assumes sw: "swap_ok tables m j outs merged tables'" and m': "m' = apply_job j outs m"
  defines "SI \<equiv> level_run tables (if cj_source_level j = 0 then rev (cj_source_tables j) else cj_source_tables j)"
  shows "versions (level_part tables' m' (cj_source_level j)) k = versions (level_part tables m (cj_source_level j)) k \<and> versions SI k = [] \<or>
     versions (level_part tables' m' (cj_source_level j)) k = [] \<and> versions SI k = versions (level_part tables m (cj_source_level j)) k"
proof -
  let ?s = "cj_source_level j"
  note F = swap_facts [OF sw]
  have lt: "level_tables m' ?s = kept_source m j" using apply_job_levels(2) [OF F(1,2,6)] by (simp add: m')
  show ?thesis
  proof (cases "?s = 0")
    case True
    then have "cj_source_tables j = level_tables m 0" using F(2) by (simp add: picked_def)
    then show ?thesis using True lt by (simp add: level_part_def SI_def kept_source_def level_run_def)
  next
    case False
    then have len: "length (cj_source_tables j) = 1" using F(2) by (simp add: picked_def)
    have ap: "apart (level_tables m ?s)" using F(1) False by (simp add: manifest_ok_def)
    have S': "level_part tables' m' ?s = level_run tables (kept_source m j)"
      unfolding level_part_def lt using False kept_same(1) [OF sw] kept_not_input(2) [OF sw]
      by (auto intro: level_run_cong)
    have "apart (cj_source_tables j)" using len by (auto simp: apart_def length_Suc_conv)
    moreover have "apart (kept_source m j)" unfolding kept_source_def by (rule apart_filter [OF ap])
    moreover have "set (level_tables m ?s) = set (cj_source_tables j) \<union> set (kept_source m j)" using F(9) by (auto simp: kept_source_def)
    moreover have served: "\<forall>x \<in> set (level_tables m ?s). table_served tables x" using F(3) by blast
    moreover have none: "versions (level_run tables (cj_source_tables j)) k = []"
        if "\<forall>x \<in> set (cj_source_tables j) - set (kept_source m j). \<not> may_contain x k"
      using that served F(9) by (intro versions_level_run_none) (auto simp: kept_source_def)
    moreover have "versions (level_run tables (kept_source m j)) k = []"
        if "\<forall>x \<in> set (kept_source m j) - set (cj_source_tables j). \<not> may_contain x k"
      using that served by (intro versions_level_run_none) (auto simp: kept_source_def)
    ultimately have "versions (level_run tables (kept_source m j)) k = versions (level_run tables (level_tables m ?s)) k \<and>
          versions (level_run tables (cj_source_tables j)) k = [] \<or>
        versions (level_run tables (cj_source_tables j)) k = versions (level_run tables (level_tables m ?s)) k \<and>
          versions (level_run tables (kept_source m j)) k = []"
      using level_parts [OF ap, of "cj_source_tables j" "kept_source m j" tables k] by blast
    moreover have "level_part tables m ?s = level_run tables (level_tables m ?s)" "SI = level_run tables (cj_source_tables j)"
      using False by (simp_all add: level_part_def SI_def)
    ultimately show ?thesis unfolding S' by argo
  qed
qed

lemma target_split:
  assumes sw: "swap_ok tables m j outs merged tables'"
  shows "versions (level_run tables (kept_target m j)) k = versions (level_part tables m (cj_target_level j)) k \<and>
       versions (level_run tables (cj_target_tables j)) k = [] \<or>
     versions (level_run tables (kept_target m j)) k = [] \<and>
       versions (level_run tables (cj_target_tables j)) k = versions (level_part tables m (cj_target_level j)) k"
proof -
  let ?t = "cj_target_level j"
  note F = swap_facts [OF sw]
  have ap: "apart (level_tables m ?t)" using F(1,7) by (simp add: manifest_ok_def)
  have tgt: "cj_target_tables j = filter (\<lambda>x. x \<in> set (cj_target_tables j)) (level_tables m ?t)"
    using F(2) by (auto simp: picked_def overlapping_def intro!: filter_cong)
  have "apart (cj_target_tables j)" by (subst tgt) (rule apart_filter [OF ap])
  moreover have "apart (kept_target m j)" unfolding kept_target_def by (rule apart_filter [OF ap])
  moreover have "set (level_tables m ?t) = set (cj_target_tables j) \<union> set (kept_target m j)" using F(10) by (auto simp: kept_target_def)
  moreover have "\<forall>x \<in> set (level_tables m ?t). table_served tables x" using F(3) by blast
  ultimately show ?thesis
    using level_parts [OF ap, of "cj_target_tables j" "kept_target m j" tables k] F(7,10)
      versions_level_run_none [of "cj_target_tables j" tables k] versions_level_run_none [of "kept_target m j" tables k]
    unfolding level_part_def by (auto simp: kept_target_def)
qed

lemma target_after:
  assumes sw: "swap_ok tables m j outs merged tables'" and m': "m' = apply_job j outs m"
  shows "versions (level_part tables' m' (cj_target_level j)) k = versions (level_run tables (kept_target m j)) k \<and> versions merged k = [] \<or>
     versions (level_part tables' m' (cj_target_level j)) k = versions merged k \<and> versions (level_run tables (kept_target m j)) k = []"
proof -
  let ?t = "cj_target_level j"
  note F = swap_facts [OF sw]
  note L = apply_job_levels [OF F(1,2,6)]
  have keep: "level_run tables' (kept_target m j) = level_run tables (kept_target m j)"
    using kept_same(1) [OF sw] kept_not_input(1) [OF sw] by (auto intro: level_run_cong)
  have kserved: "\<forall>x \<in> set (kept_target m j). table_served tables' x" using kept_same(2) [OF sw] kept_not_input(1) [OF sw] by blast
  consider "outs = []" "merged = []" | out t where "outs = [out]" "output_ok m j out" "bm_get tables' (tm_id out) = Some t" "serves t out merged"
    using sw unfolding swap_ok_def by auto
  then show ?thesis
  proof cases
    case 1
    then show ?thesis using L(2) [of ?t] F(7) keep by (simp add: level_part_def m')
  next
    case (2 out t)
    let ?lt = "insert_table out (kept_target m j)"
    have lt: "level_tables m' ?t = ?lt" using L(2) [of ?t] F(7) 2(1) by (simp add: m')
    have ap: "apart ?lt" using L(1) F(7) lt by (metis add_gr_0 m' manifest_ok_def zero_less_one)
    have "apart (level_tables m ?t)" using F(1,7) by (simp add: manifest_ok_def)
    then have apk: "apart (kept_target m j)" unfolding kept_target_def by (rule apart_filter)
    have o: "table_entries tables' out = merged" "table_served tables' out"
      using 2(3) servesD(2) [OF 2(4)] 2(4) by (auto simp: table_entries_def table_served_def)
    have nin: "out \<notin> set (kept_target m j)" using 2(2) by (auto simp: output_ok_def kept_target_def)
    have lr: "level_run tables' [out] = merged" by (simp add: level_run_def o)
    have part: "level_part tables' m' ?t = level_run tables' ?lt" using F(7) lt by (simp add: level_part_def)
    have "\<forall>x \<in> set ?lt. table_served tables' x" using kserved o(2) by simp
    then have "versions (level_run tables' (kept_target m j)) k = versions (level_run tables' ?lt) k \<and> \<not> may_contain out k \<or>
        versions (level_run tables' [out]) k = versions (level_run tables' ?lt) k \<and> (\<forall>x \<in> set (kept_target m j). \<not> may_contain x k)"
      using level_parts [OF ap, of "[out]" "kept_target m j" tables' k] apk nin by (auto simp: apart_def)
    then show ?thesis
      using versions_level_run_none [of "[out]" tables' k] versions_level_run_none [OF kserved, of k] o(2)
      unfolding part lr keep by auto
  qed
qed

lemma kept_target_outside:
  assumes sw: "swap_ok tables m j outs merged tables'" and k: "versions (level_run tables (kept_target m j)) k \<noteq> []"
  shows "versions (input_run tables j) k = []" "versions merged k = []"
proof -
  note F = swap_facts [OF sw]
  show "versions (input_run tables j) k = []"
  proof (rule ccontr)
    assume "versions (input_run tables j) k \<noteq> []"
    then obtain x where "x \<in> set (input_run tables j)" "user_key (fst x) = k" by (auto simp: versions_Nil_iff)
    then have span: "job_min j \<le> k" "k \<le> job_max j" using input_run_span [OF sw] by blast+
    obtain y where y: "y \<in> set (kept_target m j)" "may_contain y k"
      using versions_level_run_none [of "kept_target m j" tables k] k F(3) kept_not_input(1) [OF sw] by blast
    then have "\<not> overlaps y (job_min j) (job_max j)" using outside_span [OF F(1,2)] by (simp add: kept_target_def)
    then show False using y(2) span by (auto simp: overlaps_def may_contain_def)
  qed
  then show "versions merged k = []" using F(5) by (auto simp: versions_Nil_iff)
qed

lemma swap_versions:
  assumes sw: "swap_ok tables m j outs merged tables'" and m': "m' = apply_job j outs m"
  shows "\<exists>P. versions (level_part tables m (cj_source_level j) @ level_part tables m (cj_target_level j)) k = P @ versions (input_run tables j) k \<and>
     versions (level_part tables' m' (cj_source_level j) @ level_part tables' m' (cj_target_level j)) k = P @ versions merged k"
proof -
  note S = source_split [OF sw m', of k] and T = target_split [OF sw, of k] and T' = target_after [OF sw m', of k]
  show ?thesis
  proof (cases "versions (level_run tables (kept_target m j)) k = []")
    case True
    then show ?thesis using S T T' by (auto simp: input_run_def)
  next
    case False
    then show ?thesis using S T T' kept_target_outside [OF sw False] by (auto simp: input_run_def)
  qed
qed


section \<open>The invariant and the reads after the swap\<close>

lemma swap_other_levels:
  assumes sw: "swap_ok tables m j outs merged tables'" and "l \<noteq> cj_source_level j" "l \<noteq> cj_target_level j"
  shows "level_part tables' (apply_job j outs m) l = level_part tables m l"
proof -
  have lt: "level_tables (apply_job j outs m) l = level_tables m l"
    using apply_job_levels(2) [OF swap_facts(1,2,6) [OF sw]] assms(2,3) by simp
  have "level_run tables' (level_tables m l) = level_run tables (level_tables m l)"
    "level_run tables' (rev (level_tables m l)) = level_run tables (rev (level_tables m l))"
    using kept_same(1) [OF sw] kept_not_input(3) [OF sw _ assms(2,3)] by (auto intro: level_run_cong)
  then show ?thesis using lt by (cases "l = 0") (simp_all add: level_part_def)
qed

lemma swap_split:
  assumes sw: "swap_ok tables m j outs merged tables'"
  obtains A B where
    "tables_run tables m = A @ (level_part tables m (cj_source_level j) @ level_part tables m (cj_target_level j)) @ B"
    "tables_run tables' (apply_job j outs m) =
       A @ (level_part tables' (apply_job j outs m) (cj_source_level j) @ level_part tables' (apply_job j outs m) (cj_target_level j)) @ B"
    "B = concat (map (level_part tables m) [cj_target_level j + 1..<length (lm_levels m)])"
proof
  let ?m' = "apply_job j outs m" and ?s = "cj_source_level j" and ?A = "concat (map (level_part tables m) [0..<cj_source_level j])"
    and ?B = "concat (map (level_part tables m) [cj_target_level j + 1..<length (lm_levels m)])"
  note F = swap_facts [OF sw]
  have len: "length (lm_levels ?m') = length (lm_levels m)" by (rule apply_job_levels(3) [OF F(1,2,6)])
  have s: "?s + 1 < length (lm_levels m)" using F(7,8) by simp
  show "tables_run tables m = ?A @ (level_part tables m ?s @ level_part tables m (cj_target_level j)) @ ?B"
    using tables_run_split [OF s, of tables] by (simp add: F(7))
  have "map (level_part tables' ?m') ls = map (level_part tables m) ls" if "?s \<notin> set ls" "cj_target_level j \<notin> set ls" for ls
    using that by (intro map_cong refl swap_other_levels [OF sw]) auto
  from this [of "[0..<?s]"] this [of "[?s + 2..<length (lm_levels m)]"]
  have eq: "map (level_part tables' ?m') [0..<?s] = map (level_part tables m) [0..<?s]"
    "map (level_part tables' ?m') [?s + 2..<length (lm_levels m)] = map (level_part tables m) [?s + 2..<length (lm_levels m)]"
    using F(7) by force+
  have t: "cj_target_level j + 1 = ?s + 2" using F(7) by simp
  show "tables_run tables' ?m' = ?A @ (level_part tables' ?m' ?s @ level_part tables' ?m' (cj_target_level j)) @ ?B"
    unfolding t using tables_run_split [of ?s ?m' tables', unfolded len eq, OF s] unfolding F(7) .
qed simp

lemma swap_parts_subset:
  assumes sw: "swap_ok tables m j outs merged tables'"
    and Y: "Y = level_part tables' (apply_job j outs m) (cj_source_level j) @ level_part tables' (apply_job j outs m) (cj_target_level j)"
    and X: "X = level_part tables m (cj_source_level j) @ level_part tables m (cj_target_level j)"
  shows "set Y \<subseteq> set X"
proof
  fix y assume "y \<in> set Y"
  then have y: "y \<in> set (versions Y (user_key (fst y)))" by simp
  obtain P where "versions X (user_key (fst y)) = P @ versions (input_run tables j) (user_key (fst y))"
      "versions Y (user_key (fst y)) = P @ versions merged (user_key (fst y))" using swap_versions [OF sw refl] unfolding X Y by blast
  then have "y \<in> set (versions X (user_key (fst y)))" using swap_facts(5) [OF sw] y by auto
  then show "y \<in> set X" by simp
qed

lemma swap_subset:
  assumes "swap_ok tables m j outs merged tables'"
  shows "set (tables_run tables' (apply_job j outs m)) \<subseteq> set (tables_run tables m)"
proof (rule swap_split [OF assms])
  fix A B
  assume "tables_run tables m = A @ (level_part tables m (cj_source_level j) @ level_part tables m (cj_target_level j)) @ B"
    "tables_run tables' (apply_job j outs m) =
       A @ (level_part tables' (apply_job j outs m) (cj_source_level j) @ level_part tables' (apply_job j outs m) (cj_target_level j)) @ B"
  then show ?thesis using swap_parts_subset [OF assms refl refl] by auto
qed

lemma swap_descending:
  assumes sw: "swap_ok tables m j outs merged tables'" and desc: "descending (C @ tables_run tables m)"
  shows "descending (C @ tables_run tables' (apply_job j outs m))"
proof -
  let ?m' = "apply_job j outs m"
  obtain A B where sp: "tables_run tables m = A @ (level_part tables m (cj_source_level j) @ level_part tables m (cj_target_level j)) @ B"
    "tables_run tables' ?m' = A @ (level_part tables' ?m' (cj_source_level j) @ level_part tables' ?m' (cj_target_level j)) @ B"
    by (rule swap_split [OF sw])
  define X where "X = level_part tables m (cj_source_level j) @ level_part tables m (cj_target_level j)"
  define Y where "Y = level_part tables' ?m' (cj_source_level j) @ level_part tables' ?m' (cj_target_level j)"
  note F = swap_facts [OF sw]
  have XY: "\<exists>P. versions X k = P @ versions (input_run tables j) k \<and> versions Y k = P @ versions merged k" for k
    unfolding X_def Y_def by (rule swap_versions [OF sw refl])
  have sub: "set Y \<subseteq> set X" by (rule swap_parts_subset [OF sw Y_def X_def])
  have "sorted_wrt (\<lambda>a b. seqno (fst b) < seqno (fst a)) (versions Y k)" for k
  proof -
    obtain P where P: "versions X k = P @ versions (input_run tables j) k" "versions Y k = P @ versions merged k" using XY by blast
    have "descending X" using desc by (simp add: sp X_def)
    then have "sorted_wrt (\<lambda>a b. seqno (fst b) < seqno (fst a)) (P @ versions (input_run tables j) k)"
      using P(1) by (metis descending_def)
    moreover have "sorted_wrt (\<lambda>a b. seqno (fst b) < seqno (fst a)) (versions merged k)"
      using bm_ok_descending [OF F(4)] by (simp add: descending_def)
    ultimately show ?thesis using F(5) unfolding P(2) sorted_wrt_append by auto
  qed
  then have "descending Y" by (simp add: descending_def)
  moreover have "newer C Y" "newer A Y" "newer Y B"
    using desc sub unfolding sp X_def [symmetric] by (auto intro: newer_subset)
  ultimately show ?thesis using desc unfolding sp X_def [symmetric] Y_def [symmetric] by simp
qed

lemma swap_served:
  assumes sw: "swap_ok tables m j outs merged tables'" and x: "x \<in> set (level_tables (apply_job j outs m) l)"
  shows "table_served tables' x"
proof -
  note F = swap_facts [OF sw]
  have keep: "table_served tables' x" if "x \<in> set (kept_target m j) \<or> x \<in> set (kept_source m j) \<or>
      (x \<in> set (level_tables m l) \<and> l \<noteq> cj_source_level j \<and> l \<noteq> cj_target_level j)"
    using that kept_same(2) [OF sw] kept_not_input [OF sw] by blast
  have "x \<in> set outs \<longrightarrow> table_served tables' x"
    using sw unfolding swap_ok_def table_served_def by auto
  then show ?thesis
    using x keep unfolding apply_job_levels(2) [OF F(1,2,6)] by (auto split: if_splits list.splits)
qed

lemma descending_functional: "descending es \<Longrightarrow> (ik, a) \<in> set es \<Longrightarrow> (ik, b) \<in> set es \<Longrightarrow> a = b"
proof -
  assume d: "descending es" and ab: "(ik, a) \<in> set es" "(ik, b) \<in> set es"
  have "x = y" if "sorted_wrt (\<lambda>a b. seqno (fst b) < seqno (fst a)) xs" "x \<in> set xs" "y \<in> set xs" "fst x = fst y"
    for xs and x y :: lsm_entry
    using that by (induction xs) auto
  from this [of "versions es (user_key ik)" "(ik, a)" "(ik, b)"] d ab show "a = b" by (simp add: descending_def)
qed

text \<open>The merge reads like the inputs.\<close>

lemma merged_keeps:
  assumes desc: "descending es" and runs: "\<Union> (set ` set runs) = set es" and "flr \<le> snapshot"
  shows "keeps dt (run_get es key snapshot) (run_get (fst (merge_runs runs flr dt)) key snapshot)"
proof -
  have "newest (set es) key snapshot (run_get (sorted_runs runs) key snapshot)"
    using run_get_newest_sorted [OF sorted_runs_facts(1)] sorted_runs_facts(2) runs by metis
  then have "run_get (sorted_runs runs) key snapshot = run_get es key snapshot"
    by (rule newest_unique [OF _ run_get_descending [OF desc]]) (rule descending_functional [OF desc])
  then show ?thesis using merge_runs_keeps [OF assms(3)] by metis
qed

lemma swap_reads:
  assumes sw: "swap_ok tables m j outs (fst (merge_runs runs flr dt)) tables'" and desc: "descending (C @ tables_run tables m)"
    and runs: "\<Union> (set ` set runs) = set (input_run tables j)" and fl: "flr \<le> snapshot"
    and below: "dt \<Longrightarrow> \<not> has_data_below m (cj_target_level j) (job_min j) (job_max j)"
  shows "keeps dt (run_get (C @ tables_run tables m) key snapshot) (run_get (C @ tables_run tables' (apply_job j outs m)) key snapshot)"
proof -
  let ?m' = "apply_job j outs m" and ?mg = "fst (merge_runs runs flr dt)"
  obtain A B where sp: "tables_run tables m = A @ (level_part tables m (cj_source_level j) @ level_part tables m (cj_target_level j)) @ B"
    "tables_run tables' ?m' = A @ (level_part tables' ?m' (cj_source_level j) @ level_part tables' ?m' (cj_target_level j)) @ B"
    and B: "B = concat (map (level_part tables m) [cj_target_level j + 1..<length (lm_levels m)])"
    by (rule swap_split [OF sw])
  define X where "X = level_part tables m (cj_source_level j) @ level_part tables m (cj_target_level j)"
  define Y where "Y = level_part tables' ?m' (cj_source_level j) @ level_part tables' ?m' (cj_target_level j)"
  note F = swap_facts [OF sw]
  obtain P where P: "versions X key = P @ versions (input_run tables j) key" "versions Y key = P @ versions ?mg key"
    using swap_versions [OF sw refl, of key] unfolding X_def Y_def by blast
  have "descending X" using desc by (simp add: sp X_def)
  then have "sorted_wrt (\<lambda>a b. seqno (fst b) < seqno (fst a)) (versions (input_run tables j) key)" for key
  proof -
    obtain Q where "versions X key = Q @ versions (input_run tables j) key" using swap_versions [OF sw refl] unfolding X_def by blast
    then show ?thesis using \<open>descending X\<close> unfolding descending_def by (metis sorted_wrt_append)
  qed
  then have di: "descending (input_run tables j)" by (simp add: descending_def)
  have k: "keeps dt (run_get (input_run tables j) key snapshot) (run_get ?mg key snapshot)"
    by (rule merged_keeps [OF di runs fl])
  have X: "run_get X key snapshot = run_get (P @ input_run tables j) key snapshot"
    and Y: "run_get Y key snapshot = run_get (P @ ?mg) key snapshot"
    by (metis P(1) run_get_append run_get_versions, metis P(2) run_get_append run_get_versions)
  have low: "run_get B key snapshot = LAbsent" if "dt" "run_get (input_run tables j) key snapshot = LDeleted"
  proof -
    have "\<exists>x \<in> set (input_run tables j). user_key (fst x) = key"
      using that(2) run_get_absent_iff [of "input_run tables j" key snapshot] by auto
    then obtain x where "x \<in> set (input_run tables j)" "user_key (fst x) = key" by blast
    then have span: "job_min j \<le> key" "key \<le> job_max j" using input_run_span [OF sw] by blast+
    have "\<not> may_contain t key" if "t \<in> set (level_tables m l)" "cj_target_level j < l" "l < length (lm_levels m)" for t l
      using below [OF \<open>dt\<close>] that span unfolding has_data_below_def list_ex_iff may_contain_def by fastforce
    then have "versions (level_run tables (level_tables m l)) key = []" if "cj_target_level j < l" "l < length (lm_levels m)" for l
      using that F(3) by (intro versions_level_run_none) auto
    then have "versions (concat (map (level_part tables m) ls)) key = []" if "set ls \<subseteq> {cj_target_level j<..<length (lm_levels m)}" for ls
      using that by (induction ls) (auto simp: level_part_def)
    then have "versions B key = []" unfolding B by (auto simp: subset_eq)
    then show ?thesis by (metis run_get_simps(1) run_get_versions)
  qed
  show ?thesis
    unfolding sp X_def [symmetric] Y_def [symmetric] using k low
    by (auto simp: run_get_append X Y keeps_def split: lookup.splits)
qed

end
