(* ===== verification/Lsm_Compact.thy ===== *)
theory Lsm_Compact
  imports Lsm_Swap
begin

text \<open>
  The compaction of the LSM engine, step by step: collecting the inputs, writing the merged run,
  committing the swap to the manifest and retiring the inputs, with every outcome of the system
  calls.
\<close>

section \<open>The steps of a compaction\<close>

lemma retire_fields [simp]:
  "le_open_tables (retire m e) = bm_del (tm_id m) (le_open_tables e)" "le_active (retire m e) = le_active e"
  "le_frozen (retire m e) = le_frozen e" "le_manifest (retire m e) = le_manifest e"
  using only_io_steps(3) [of "e\<lparr>le_open_tables := bm_del (tm_id m) (le_open_tables e)\<rparr>" "tm_id m"] by (simp_all add: retire_def only_io_def)

lemma retire_all:
  "bm_get (le_open_tables (fold retire ms e)) k = (if k \<in> tm_id ` set ms then None else bm_get (le_open_tables e) k) \<and>
   le_active (fold retire ms e) = le_active e \<and> le_frozen (fold retire ms e) = le_frozen e \<and> le_manifest (fold retire ms e) = le_manifest e"
  by (induction ms arbitrary: e) auto

text \<open>Only the handles of live tables matter.\<close>

lemma lsm_inv_relocate:
  assumes inv: "lsm_inv e" and buf: "le_active e' = le_active e" "le_frozen e' = le_frozen e"
    and m: "manifest_ok (le_manifest e')" "\<And>l. level_tables (le_manifest e') l = level_tables (le_manifest e) l"
      "length (lm_levels (le_manifest e')) = length (lm_levels (le_manifest e))"
    and tabs: "\<And>l x. x \<in> set (level_tables (le_manifest e) l) \<Longrightarrow> bm_get (le_open_tables e') (tm_id x) = bm_get (le_open_tables e) (tm_id x)"
  shows "contents e' = contents e" "lsm_inv e'"
proof -
  have run: "level_run (le_open_tables e') (level_tables (le_manifest e) l) = level_run (le_open_tables e) (level_tables (le_manifest e) l)"
      "level_run (le_open_tables e') (rev (level_tables (le_manifest e) l)) = level_run (le_open_tables e) (rev (level_tables (le_manifest e) l))" for l
    using table_entries_same(1) [OF tabs] by (auto intro: level_run_cong)
  have "tables_run (le_open_tables e') (le_manifest e') = tables_run (le_open_tables e) (le_manifest e)"
    unfolding tables_run_def m(2,3) run ..
  then show c: "contents e' = contents e" by (simp add: contents_def buffered_def buf)
  have "table_served (le_open_tables e') x" if "x \<in> set (level_tables (le_manifest e) l)" for x l
    using that table_entries_same(2) [OF tabs [OF that]] inv by (auto simp: lsm_inv_def)
  then show "lsm_inv e'" using inv c m(1,2) buf by (simp add: lsm_inv_def)
qed

lemma collect_runs_inputs:
  assumes "\<forall>m \<in> set ms. table_served tables m"
  shows "collect_runs tables ms = Inr (map (table_entries tables) ms)"
  using assms
proof (induction ms)
  case (Cons m ms)
  obtain t where "bm_get tables (tm_id m) = Some t" "serves t m (table_entries tables m)"
    using Cons.prems by (auto elim: table_servedD)
  then show ?case using Cons servesD(2) by auto
qed simp

lemma maybe_compact_manifest_io: "maybe_compact_manifest crc ser e = (r, e') \<Longrightarrow> only_io e e'"
  unfolding maybe_compact_manifest_def by (erule only_io_bind) (auto intro: only_io_steps(1) split: if_splits)

text \<open>Writing the merged run: nothing but files, the log and the next id change, or the output is open as well.\<close>

definition bumped :: "lsm_engine \<Rightarrow> lsm_engine" where
  "bumped e = e\<lparr>le_manifest := snd (allocate_table_id (le_manifest e))\<rparr>"

lemma write_output_steps:
  assumes "write_output crc merged level e = (r, e')"
  obtains (empty) "merged = []" "r = Inr []" "e' = e"
  | (failed) "only_io (bumped e) e'" "\<exists>err. r = Inl err"
  | (written) m t e1 where "merged \<noteq> []" "r = Inr [m]" "only_io (bumped e) e1"
      "write_and_open crc (length merged) merged (lm_next_table_id (le_manifest e)) level (bumped e) = (Inr (m, t), e1)"
      "e' = e1\<lparr>le_open_tables := bm_put (lm_next_table_id (le_manifest e)) t (le_open_tables e1)\<rparr>"
proof (cases "merged = []")
  case True
  then show thesis using assms empty by (simp add: write_output_def)
next
  case False
  obtain r1 e1 where w: "write_and_open crc (length merged) merged (lm_next_table_id (le_manifest e)) level (bumped e) = (r1, e1)"
    by (cases "write_and_open crc (length merged) merged (lm_next_table_id (le_manifest e)) level (bumped e)")
  show thesis
  proof (cases r1)
    case (Inl err)
    then have "e' = e1" "r = Inl err"
      using assms False w by (simp_all add: write_output_def allocate_table_id_def bumped_def sbind_def)
    then show thesis using failed write_and_open_io [OF w] by blast
  next
    case (Inr mt)
    then obtain m t where "r1 = Inr (m, t)" by (cases mt) simp
    then show thesis
      using assms False w written [OF False _ write_and_open_io [OF w]]
      by (auto simp: write_output_def allocate_table_id_def bumped_def sbind_def)
  qed
qed

lemma bumped_facts:
  assumes "manifest_ok (le_manifest e)"
  shows "manifest_ok (le_manifest (bumped e))" "level_tables (le_manifest (bumped e)) l = level_tables (le_manifest e) l"
    "length (lm_levels (le_manifest (bumped e))) = length (lm_levels (le_manifest e))"
    "picked (le_manifest (bumped e)) j = picked (le_manifest e) j"
    "lm_config (le_manifest (bumped e)) = lm_config (le_manifest e)"
    "has_data_below (le_manifest (bumped e)) = has_data_below (le_manifest e)"
proof -
  have al: "allocate_table_id (le_manifest e) = (lm_next_table_id (le_manifest e), le_manifest (bumped e))"
    by (simp add: allocate_table_id_def bumped_def)
  show lt: "level_tables (le_manifest (bumped e)) l = level_tables (le_manifest e) l" for l using allocate_ok(2) [OF al] .
  show len: "length (lm_levels (le_manifest (bumped e))) = length (lm_levels (le_manifest e))" using allocate_ok(4) [OF al] .
  show "manifest_ok (le_manifest (bumped e))" using allocate_ok(1) [OF al assms] .
  show "picked (le_manifest (bumped e)) j = picked (le_manifest e) j" unfolding picked_def overlapping_def lt len ..
  show "has_data_below (le_manifest (bumped e)) = has_data_below (le_manifest e)" unfolding has_data_below_def lt len ..
  show "lm_config (le_manifest (bumped e)) = lm_config (le_manifest e)" using allocate_ok(5) [OF al] .
qed


section \<open>Compaction keeps reads\<close>

definition read_kept :: "bytes option option res \<Rightarrow> bytes option option res \<Rightarrow> bool" where
  "read_kept r r' \<longleftrightarrow> r' = r \<or> (r = Inr (Some None) \<and> r' = Inr None)"

lemma keeps_read_kept: "keeps dt r r' \<Longrightarrow> read_kept (Inr (definite r)) (Inr (definite r'))"
  by (auto simp: keeps_def read_kept_def definite_def)

text \<open>A state that holds the same versions reads the same.\<close>

definition reads_kept :: "nat \<Rightarrow> lsm_engine \<Rightarrow> lsm_engine \<Rightarrow> bool" where
  "reads_kept flr e e' \<longleftrightarrow>
     (\<forall>key snapshot. flr \<le> snapshot \<longrightarrow> read_kept (lsm_get e key snapshot) (lsm_get e' key snapshot))"

lemma same_contents_reads: "lsm_inv e \<Longrightarrow> lsm_inv e' \<Longrightarrow> contents e' = contents e \<Longrightarrow> reads_kept flr e e'"
  by (simp add: reads_kept_def read_kept_def lsm_get_run)

definition compacted :: "nat \<Rightarrow> lsm_engine \<Rightarrow> lsm_engine \<Rightarrow> bool" where
  "compacted flr e e' \<longleftrightarrow>
     lsm_inv e' \<and> le_active e' = le_active e \<and> le_frozen e' = le_frozen e \<and> set (contents e') \<subseteq> set (contents e) \<and> reads_kept flr e e'"

lemma compacted_same:
  assumes "lsm_inv e" "lsm_inv e'" "contents e' = contents e" "le_active e' = le_active e" "le_frozen e' = le_frozen e"
  shows "compacted flr e e'"
  using assms same_contents_reads by (simp add: compacted_def)

lemma compacted_then_same:
  assumes "compacted flr e e1" "lsm_inv e2" "contents e2 = contents e1" "le_active e2 = le_active e1" "le_frozen e2 = le_frozen e1"
  shows "compacted flr e e2"
proof -
  have "lsm_get e2 key snapshot = lsm_get e1 key snapshot" for key snapshot
    using assms by (simp add: compacted_def lsm_get_run)
  then show ?thesis using assms by (simp add: compacted_def reads_kept_def)
qed

definition output_written ::
  "lsm_engine \<Rightarrow> compaction_job \<Rightarrow> lsm_entry list \<Rightarrow> table_meta list \<Rightarrow> lsm_engine \<Rightarrow> bool" where
  "output_written e j merged outs e2 \<longleftrightarrow>
     le_active e2 = le_active e \<and> le_frozen e2 = le_frozen e \<and>
     manifest_ok (le_manifest e2) \<and> (\<forall>l. level_tables (le_manifest e2) l = level_tables (le_manifest e) l) \<and>
     length (lm_levels (le_manifest e2)) = length (lm_levels (le_manifest e)) \<and>
     (\<forall>l. \<forall>x \<in> set (level_tables (le_manifest e) l). bm_get (le_open_tables e2) (tm_id x) = bm_get (le_open_tables e) (tm_id x)) \<and>
     (outs = [] \<and> merged = [] \<or>
      (\<exists>out t. outs = [out] \<and> output_ok (le_manifest e2) j out \<and> bm_get (le_open_tables e2) (tm_id out) = Some t \<and> serves t out merged))"

lemma output_in_span:
  assumes "serves t out merged" "set merged \<subseteq> set (input_run tables j)"
    and "\<forall>x \<in> set (all_inputs j). table_served tables x"
  shows "job_min j \<le> tm_min_key out" "tm_max_key out \<le> job_max j"
proof -
  have span: "job_min j \<le> user_key (fst x) \<and> user_key (fst x) \<le> job_max j" if x: "x \<in> set merged" for x
  proof -
    obtain y where "y \<in> set (all_inputs j)" "x \<in> set (table_entries tables y)"
      using assms(2) x by (auto simp: input_run_def level_run_def all_inputs_def split: if_splits dest!: subsetD)
    then show ?thesis using assms(3) table_entries_range in_job_span by blast
  qed
  show "job_min j \<le> tm_min_key out" "tm_max_key out \<le> job_max j"
    using span [of "hd merged"] span [of "last merged"] assms(1) by (auto simp: serves_def)
qed

lemma job_inputs:
  assumes "manifest_ok m" "picked m j"
  shows "set (all_inputs j) \<subseteq> set (level_tables m (cj_source_level j)) \<union> set (level_tables m (cj_target_level j))"
  using assms by (auto simp: picked_def overlapping_def all_inputs_def)

lemma write_output_ok:
  assumes run: "write_output crc merged (cj_target_level j) e = (r, e')" and inv: "lsm_inv e" and j: "picked (le_manifest e) j"
    and mg: "bm_ok merged" "set merged \<subseteq> set (input_run (le_open_tables e) j)" "\<forall>x \<in> set merged. fits x" "length (enc_all merged) \<le> 2 ^ 62"
  shows "\<exists>err. r = Inl err \<Longrightarrow> compacted flr e e'" "r = Inr outs \<Longrightarrow> output_written e j merged outs e'"
proof -
  have m: "manifest_ok (le_manifest e)" using inv by (simp add: lsm_inv_def)
  note B = bumped_facts [OF m]
  have Bf: "le_active (bumped e) = le_active e" "le_frozen (bumped e) = le_frozen e" "le_open_tables (bumped e) = le_open_tables e"
    by (simp_all add: bumped_def)
  have served: "\<forall>x \<in> set (all_inputs j). table_served (le_open_tables e) x" using job_inputs [OF m j] inv by (auto simp: lsm_inv_def)
  have fresh: "tm_id x \<noteq> lm_next_table_id (le_manifest e)" if "x \<in> set (level_tables (le_manifest e) l)" for x l
    using that m unfolding manifest_ok_def by fastforce
  have "(\<forall>outs. r = Inr outs \<longrightarrow> output_written e j merged outs e') \<and> ((\<exists>err. r = Inl err) \<longrightarrow> compacted flr e e')"
    using run
  proof (cases rule: write_output_steps)
    case empty
    then show ?thesis using m by (auto simp: output_written_def)
  next
    case failed
    note io = only_io_contents [OF failed(1)]
    have "lsm_inv e'" "contents e' = contents e"
      using lsm_inv_relocate [OF inv, of e'] io B Bf by auto
    then have "compacted flr e e'" using compacted_same inv io Bf by metis
    then show ?thesis using failed(2) by auto
  next
    case (written out t e1)
    note io = only_io_contents [OF written(3)]
    have s: "serves t out merged" "tm_id out = lm_next_table_id (le_manifest e)" "tm_level out = cj_target_level j"
      using write_and_open_serves [OF written(4) written(1) mg(1,3,4)] by auto
    have "\<forall>l. tm_id out \<notin> tm_id ` set (level_tables (le_manifest e) l)" using fresh s(2) by (metis imageE)
    then have "output_ok (le_manifest e') j out"
      using s serves_key_order [OF s(1)] output_in_span [OF s(1) mg(2) served]
      by (simp add: output_ok_def written(5) io B(2))
    then have "output_written e j merged [out] e'"
      using s fresh io B Bf by (auto simp: output_written_def written(5))
    then show ?thesis using written(2) by auto
  qed
  then show "\<exists>err. r = Inl err \<Longrightarrow> compacted flr e e'" "r = Inr outs \<Longrightarrow> output_written e j merged outs e'" by auto
qed

lemma live_id_not_input:
  assumes "manifest_ok m" "picked m j" "x \<in> set (level_tables m l)" "x \<notin> set (all_inputs j)"
  shows "tm_id x \<notin> tm_id ` set (all_inputs j)"
proof
  assume "tm_id x \<in> tm_id ` set (all_inputs j)"
  then obtain y where y: "y \<in> set (all_inputs j)" "tm_id x = tm_id y" by blast
  then obtain l' where l': "y \<in> set (level_tables m l')" using job_inputs [OF assms(1,2)] by blast
  then have "l = l'" using assms(1,3) y(2) unfolding manifest_ok_def by blast
  then have "x = y" using same_id_same_table [OF assms(1,3) _ y(2)] l' by simp
  then show False using y(1) assms(4) by simp
qed


lemma install_outputs_ok:
  assumes run: "install_outputs crc ser j outs e2 = (r, e')" and inv: "lsm_inv e" and j: "picked (le_manifest e) j"
    and w: "output_written e j (fst (merge_runs runs flr dt)) outs e2"
    and mg: "set (fst (merge_runs runs flr dt)) \<subseteq> set (input_run (le_open_tables e) j)"
    and runs: "\<Union> (set ` set runs) = set (input_run (le_open_tables e) j)"
    and below: "dt \<Longrightarrow> \<not> has_data_below (le_manifest e) (cj_target_level j) (job_min j) (job_max j)"
  shows "compacted flr e e'"
proof -
  let ?mg = "fst (merge_runs runs flr dt)" and ?tabs = "le_open_tables e" and ?m = "le_manifest e2"
  note W = w [unfolded output_written_def]
  have m: "manifest_ok (le_manifest e)" using inv by (simp add: lsm_inv_def)
  have j2: "picked ?m j" using j W unfolding picked_def overlapping_def by simp
  obtain ra e3 where a: "on_log (manifest_append crc ser (swap_edit j outs)) e2 = (ra, e3)"
    by (cases "on_log (manifest_append crc ser (swap_edit j outs)) e2")
  note io = only_io_contents [OF only_io_steps(1) [OF a]]
  have out: "tm_id x \<notin> tm_id ` set outs" if "x \<in> set (level_tables (le_manifest e) l)" for x l
    using W that by (auto simp: output_ok_def) (metis image_eqI)
  show ?thesis
  proof (cases ra)
    case (Inl err)
    then have e': "e' = fold retire outs e3" using run a by (simp add: install_outputs_def)
    have "lsm_inv e'" "contents e' = contents e"
      using lsm_inv_relocate [OF inv, of e'] retire_all [of outs e3] W io out by (auto simp: e')
    then show ?thesis using compacted_same [OF inv] retire_all [of outs e3] W io by (auto simp: e')
  next
    case (Inr u)
    let ?e3 = "e3\<lparr>le_manifest := apply_job j outs ?m\<rparr>"
    have e': "e' = fold retire (all_inputs j) ?e3" using run a Inr io(5) by (simp add: install_outputs_def)
    note R = retire_all [of "all_inputs j" ?e3, folded e']
    have sw: "swap_ok ?tabs ?m j outs ?mg (le_open_tables e')"
      unfolding swap_ok_def
    proof (intro conjI)
      show "\<forall>l. \<forall>x \<in> set (level_tables ?m l). table_served ?tabs x" using inv W by (simp add: lsm_inv_def)
      show "\<forall>l. \<forall>x \<in> set (level_tables ?m l). x \<notin> set (all_inputs j) \<longrightarrow> bm_get (le_open_tables e') (tm_id x) = bm_get ?tabs (tm_id x)"
        using R live_id_not_input [OF m j] W io(6) by auto
      have nin: "tm_id x \<notin> tm_id ` set (all_inputs j)" if x: "output_ok ?m j x" for x
      proof
        assume "tm_id x \<in> tm_id ` set (all_inputs j)"
        then obtain y where y: "y \<in> set (all_inputs j)" "tm_id x = tm_id y" by blast
        then obtain l where "y \<in> set (level_tables ?m l)" using job_inputs [OF _ j2] W by blast
        then show False using x y(2) by (auto simp: output_ok_def)
      qed
      have get: "bm_get (le_open_tables e') (tm_id x) = bm_get (le_open_tables e2) (tm_id x)" if "output_ok ?m j x" for x
        using R nin [OF that] io(6) by simp
      from W have "outs = [] \<and> ?mg = [] \<or> (\<exists>out t. outs = [out] \<and> output_ok ?m j out \<and>
          bm_get (le_open_tables e2) (tm_id out) = Some t \<and> serves t out ?mg)" by argo
      then show "outs = [] \<and> ?mg = [] \<or> (\<exists>out t. outs = [out] \<and> output_ok ?m j out \<and>
          bm_get (le_open_tables e') (tm_id out) = Some t \<and> serves t out ?mg)"
        using get by metis
    qed (use W j2 mg merge_runs_facts(1) in auto)
    have C: "contents e = buffered e @ tables_run ?tabs ?m"
      using W unfolding contents_def tables_run_def by simp
    have buf: "buffered e' = buffered e" "le_active e' = le_active e" "le_frozen e' = le_frozen e" "le_manifest e' = apply_job j outs ?m"
      using R W io by (simp_all add: buffered_def)
    then have C': "contents e' = buffered e @ tables_run (le_open_tables e') (apply_job j outs ?m)" by (simp add: contents_def)
    have desc: "descending (buffered e @ tables_run ?tabs ?m)" using inv C by (simp add: lsm_inv_def)
    have "lsm_inv e'"
      using inv buf swap_served [OF sw] swap_descending [OF sw desc] apply_job_levels(1) [OF swap_facts(1,2,6) [OF sw]]
      by (auto simp: lsm_inv_def C')
    moreover have "set (contents e') \<subseteq> set (contents e)" using swap_subset [OF sw] unfolding C C' by auto
    moreover have "reads_kept flr e e'"
      unfolding reads_kept_def
    proof (intro allI impI)
      fix key snapshot
      assume "flr \<le> snapshot"
      then have "keeps dt (run_get (contents e) key snapshot) (run_get (contents e') key snapshot)"
        unfolding C C' using swap_reads [OF sw desc runs] below W by (simp add: has_data_below_def)
      then show "read_kept (lsm_get e key snapshot) (lsm_get e' key snapshot)"
        using keeps_read_kept by (simp add: lsm_get_run [OF inv] lsm_get_run [OF \<open>lsm_inv e'\<close>])
    qed
    ultimately show ?thesis using buf by (simp add: compacted_def)
  qed
qed


lemma inputs_run:
  assumes "\<forall>x \<in> set (all_inputs j). table_served tables x"
  shows "\<Union> (set ` set (map (table_entries tables) (all_inputs j))) = set (input_run tables j)"
  by (auto simp: input_run_def level_run_def all_inputs_def)

lemma input_run_fits:
  assumes "\<forall>x \<in> set (all_inputs j). table_served tables x" "x \<in> set (input_run tables j)"
  shows "fits x"
proof -
  obtain y where "y \<in> set (all_inputs j)" "x \<in> set (table_entries tables y)"
    using assms(2) by (auto simp: input_run_def level_run_def all_inputs_def split: if_splits)
  then show ?thesis using assms(1) servesD(6) by (metis table_servedD)
qed

lemma input_run_contents:
  assumes "lsm_inv e" "picked (le_manifest e) j"
  shows "set (input_run (le_open_tables e) j) \<subseteq> set (contents e)"
proof
  fix x assume "x \<in> set (input_run (le_open_tables e) j)"
  then obtain y where y: "y \<in> set (all_inputs j)" "x \<in> set (table_entries (le_open_tables e) y)"
    by (auto simp: input_run_def level_run_def all_inputs_def split: if_splits)
  have m: "manifest_ok (le_manifest e)" using assms(1) by (simp add: lsm_inv_def)
  obtain l where l: "y \<in> set (level_tables (le_manifest e) l)" using job_inputs [OF m assms(2)] y(1) by blast
  then have "l < length (lm_levels (le_manifest e))" by (auto simp: level_tables_def split: if_splits)
  moreover have "x \<in> set (level_part (le_open_tables e) (le_manifest e) l)" using l y(2) by (auto simp: level_part_def level_run_def)
  ultimately have "x \<in> set (tables_run (le_open_tables e) (le_manifest e))"
    using m by (auto simp: tables_run_parts manifest_ok_def)
  then show "x \<in> set (contents e)" by (simp add: contents_def)
qed

lemma compact_once_ok:
  assumes run: "compact_once fdiv crc ser flr e = (r, e')" and inv: "lsm_inv e" and vol: "volume_fits e"
  shows "compacted flr e e'"
proof (cases "\<exists>j. pick_compaction fdiv (le_manifest e) = Inr (Some j)")
  case False
  then have "e' = e" using run by (auto simp: compact_once_def sbind_def split: sum.splits option.splits)
  then show ?thesis using compacted_same [OF inv inv] by simp
next
  case True
  then obtain j where pick: "pick_compaction fdiv (le_manifest e) = Inr (Some j)" by blast
  note j = pick_compaction_picked [OF pick]
  have m: "manifest_ok (le_manifest e)" using inv by (simp add: lsm_inv_def)
  have served: "\<forall>x \<in> set (all_inputs j). table_served (le_open_tables e) x" using job_inputs [OF m j] inv by (auto simp: lsm_inv_def)
  define runs where "runs = map (table_entries (le_open_tables e)) (all_inputs j)"
  define dt where "dt \<longleftrightarrow> is_bottom_most (lm_config (le_manifest e)) j \<and>
    \<not> has_data_below (le_manifest e) (cj_target_level j) (job_min j) (job_max j)"
  define merged where "merged = fst (merge_runs runs flr dt)"
  obtain ro e1 where w: "write_output crc merged (cj_target_level j) e = (ro, e1)" by (cases "write_output crc merged (cj_target_level j) e")
  have un: "\<Union> (set ` set runs) = set (input_run (le_open_tables e) j)" unfolding runs_def by (rule inputs_run [OF served])
  have mg: "bm_ok merged" "set merged \<subseteq> set (input_run (le_open_tables e) j)"
    using merge_runs_facts(1,2) un unfolding merged_def by metis+
  moreover have "\<forall>x \<in> set merged. fits x" using mg(2) input_run_fits [OF served] by blast
  moreover have "length (enc_all merged) \<le> 2 ^ 62"
    using volume_of_part [OF bm_ok_descending [OF mg(1)] order_trans [OF mg(2) input_run_contents [OF inv j]]] vol unfolding volume_fits_def by linarith
  ultimately have W: "\<exists>err. ro = Inl err \<Longrightarrow> compacted flr e e1" "\<And>outs. ro = Inr outs \<Longrightarrow> output_written e j merged outs e1"
    using write_output_ok [OF w inv j] by blast+
  have start: "compact_once fdiv crc ser flr e =
      sbind (write_output crc merged (cj_target_level j)) (\<lambda>outputs.
      sbind (install_outputs crc ser j outputs) (\<lambda>_.
      sbind (smod (\<lambda>e. e\<lparr>le_compactions := le_compactions e + 1\<rparr>)) (\<lambda>_.
      sbind (maybe_compact_manifest crc ser) (\<lambda>_. sret (Some (snd (merge_runs runs flr dt))))))) e"
    unfolding compact_once_def merged_def
    by (simp add: pick collect_runs_inputs [OF served] runs_def [symmetric] job_min_def [symmetric] job_max_def [symmetric]
        dt_def [symmetric] Let_def case_prod_beta)
  show ?thesis
  proof (cases ro)
    case (Inl err)
    then have "e' = e1" using run w start by (simp add: sbind_def)
    then show ?thesis using W(1) Inl by blast
  next
    case (Inr outs)
    obtain ri e2 where i: "install_outputs crc ser j outs e1 = (ri, e2)" by (cases "install_outputs crc ser j outs e1")
    have c: "compacted flr e e2"
      using install_outputs_ok [OF i inv j W(2) [OF Inr, unfolded merged_def] _ un] mg(2) by (auto simp: merged_def dt_def)
    show ?thesis
    proof (cases ri)
      case (Inl err)
      then have "e' = e2" using run w start Inr i by (simp add: sbind_def)
      then show ?thesis using c by simp
    next
      case ri: (Inr u)
      let ?e3 = "e2\<lparr>le_compactions := le_compactions e2 + 1\<rparr>"
      obtain rm e3 where mc: "maybe_compact_manifest crc ser ?e3 = (rm, e3)" by (cases "maybe_compact_manifest crc ser ?e3")
      have "e' = e3" using run w start Inr i ri mc by (auto simp: sbind_def split: sum.splits)
      then have io: "only_io ?e3 e'" using maybe_compact_manifest_io [OF mc] by simp
      have "contents ?e3 = contents e2" by (simp add: contents_def buffered_def)
      moreover from this have "lsm_inv ?e3" using c by (auto simp: compacted_def lsm_inv_def)
      ultimately show ?thesis using compacted_then_same [OF c] only_io_contents [OF io] by simp
    qed
  qed
qed


section \<open>Rounds of compaction\<close>

lemma compacted_trans:
  assumes "compacted flr e e1" "compacted flr e1 e2"
  shows "compacted flr e e2"
proof -
  have "read_kept r r''" if "read_kept r r'" "read_kept r' r''" for r r' r'' using that by (auto simp: read_kept_def)
  then have "reads_kept flr e e2" using assms unfolding compacted_def reads_kept_def by blast
  then show ?thesis using assms unfolding compacted_def by auto
qed

lemma compacted_volume:
  assumes "compacted flr e e'" "volume_fits e"
  shows "volume_fits e'"
proof -
  have "length (enc_all (contents e')) \<le> length (enc_all (contents e))"
    using assms(1) by (intro volume_of_part) (auto simp: compacted_def lsm_inv_def)
  then show ?thesis using assms(2) by (simp add: volume_fits_def)
qed

lemma compact_until_stable_ok:
  assumes "compact_until_stable fdiv crc ser flr rounds e = (r, e')" "lsm_inv e" "volume_fits e"
  shows "compacted flr e e' \<and> (\<forall>sts. r = Inr sts \<longrightarrow> length sts \<le> rounds)"
  using assms
proof (induction rounds arbitrary: e r)
  case 0
  then show ?case using compacted_same by auto
next
  case (Suc rounds)
  obtain r1 e1 where c: "compact_once fdiv crc ser flr e = (r1, e1)" by (cases "compact_once fdiv crc ser flr e")
  note C = compact_once_ok [OF c Suc.prems(2,3)]
  show ?case
  proof (cases "\<exists>st. r1 = Inr (Some st)")
    case True
    then obtain st where st: "r1 = Inr (Some st)" by blast
    obtain r2 where r2: "compact_until_stable fdiv crc ser flr rounds e1 = (r2, e')" "r = map_sum id ((#) st) r2"
      using Suc.prems(1) c st by (cases "compact_until_stable fdiv crc ser flr rounds e1") (auto simp: sbind_def split: sum.splits)
    have "compacted flr e1 e' \<and> (\<forall>sts. r2 = Inr sts \<longrightarrow> length sts \<le> rounds)"
      using Suc.IH [OF r2(1)] C compacted_volume [OF C Suc.prems(3)] by (simp add: compacted_def)
    then show ?thesis using compacted_trans [OF C] r2(2) by (cases r2) auto
  next
    case False
    then have "e' = e1" "\<And>sts. r = Inr sts \<Longrightarrow> sts = []"
      using Suc.prems(1) c by (auto simp: sbind_def split: sum.splits option.splits)
    then show ?thesis using C by auto
  qed
qed

text \<open>C11. Compaction of the LSM engine. However many rounds run and whichever system call fails on the
  way, the state stays in order, the buffers are untouched, no version appears that was not there
  before, and every lookup at a snapshot at or above the retain floor gives what it gave before,
  except that a key known to be deleted may become a key without any trace.\<close>

theorem compaction_keeps_reads:
  assumes "lsm_inv e" "volume_fits e"
  shows "case compact_until_stable fdiv crc ser retain_floor rounds e of (r, e') \<Rightarrow>
     lsm_inv e' \<and> le_active e' = le_active e \<and> le_frozen e' = le_frozen e \<and> set (contents e') \<subseteq> set (contents e) \<and>
     (\<forall>sts. r = Inr sts \<longrightarrow> length sts \<le> rounds) \<and>
     (\<forall>key snapshot. retain_floor \<le> snapshot \<longrightarrow>
        lsm_get e' key snapshot = lsm_get e key snapshot \<or>
        (lsm_get e key snapshot = Inr (Some None) \<and> lsm_get e' key snapshot = Inr None))"
proof -
  obtain r e' where c: "compact_until_stable fdiv crc ser retain_floor rounds e = (r, e')"
    by (cases "compact_until_stable fdiv crc ser retain_floor rounds e")
  show ?thesis
    using compact_until_stable_ok [OF c assms] unfolding c compacted_def reads_kept_def read_kept_def by simp
qed

theorem compaction_keeps_reads_witness:
  "\<exists>e. contents e = [(IKey [1] 5, Some [7])] \<and> lsm_get e [1] 6 = Inr (Some (Some [7])) \<and>
     lsm_get (snd (compact_until_stable (\<lambda>_ _. 1) (\<lambda>_. 0) (\<lambda>_. Inr [0]) 5 3 e)) [1] 6 = Inr (Some (Some [7]))"
proof (intro exI conjI)
  let ?e = "snd (flush_rounds (\<lambda>_. 0) (\<lambda>_. Inr [0]) 2 (maybe_rotate example_lsm))"
  have "volume_fits (maybe_rotate example_lsm)" using example_lsm_inv(2) by (simp add: volume_fits_def encode_entry_def)
  note F = flush_rounds_ok [OF lsm_inv_rotate [OF example_lsm_inv(1)] this surjective_pairing]
  from F [of "\<lambda>_. 0" "\<lambda>_. Inr [0]" 2] have e: "lsm_inv ?e" "contents ?e = [(IKey [1] 5, Some [7])]" using example_lsm_inv(2) by auto
  then have v: "volume_fits ?e" by (simp add: volume_fits_def encode_entry_def)
  show "contents ?e = [(IKey [1] 5, Some [7])]" by (rule e(2))
  show g: "lsm_get ?e [1] 6 = Inr (Some (Some [7]))" using lsm_get_run [OF e(1)] e(2) by (simp add: definite_def answer_def)
  show "lsm_get (snd (compact_until_stable (\<lambda>_ _. 1) (\<lambda>_. 0) (\<lambda>_. Inr [0]) 5 3 ?e)) [1] 6 = Inr (Some (Some [7]))"
  proof -
    let ?c = "snd (compact_until_stable (\<lambda>_ _. 1) (\<lambda>_. 0) (\<lambda>_. Inr [0]) 5 3 ?e)"
    have "\<forall>key snapshot. 5 \<le> snapshot \<longrightarrow> lsm_get ?c key snapshot = lsm_get ?e key snapshot \<or>
        (lsm_get ?e key snapshot = Inr (Some None) \<and> lsm_get ?c key snapshot = Inr None)"
      using compaction_keeps_reads [OF e(1) v, where fdiv = "\<lambda>_ _. 1" and crc = "\<lambda>_. 0" and ser = "\<lambda>_. Inr [0]" and retain_floor = 5 and rounds = 3]
      unfolding case_prod_beta by blast
    from this [rule_format, of 6 "[1]"] show ?thesis using g by auto
  qed
qed


section \<open>A compaction whose commit is not synced\<close>

text \<open>When only the sync of the commit fails, its edit is in the log nevertheless.\<close>

lemma append_unsynced:
  assumes "ml_io l = [None, None, None, None, Some k] @ rest" "ml_attached l" "ser edit = Inr payload" "length payload \<le> MANIFEST_MAX_RECORD"
  shows "manifest_append crc ser edit l =
     (Inl Io, l\<lparr>ml_io := rest, ml_disk := ml_disk l @ ml_buf l @ edit_frame crc ser edit, ml_buf := []\<rparr>)"
  using assms by (simp add: manifest_append_def manifest_sync_def ml_flush_def ml_write_def ml_call_def ml_next_def sbind_def
      edit_frame_def mf_frame_def)

lemma smapM_open_missing:
  assumes "m \<in> set ms" "bm_get (le_files e) (tm_id m) = None" "smapM (open_live crc) ms e = (r, e')"
  shows "\<exists>err. r = Inl err"
  using assms
proof (induction ms arbitrary: e)
  case (Cons x ms)
  obtain r1 e1 where o: "open_live crc x e = (r1, e1)" by (cases "open_live crc x e")
  have files: "le_files e1 = le_files e"
    using o by (auto simp: open_live_def open_file_def sbind_def on_log_def split: prod.splits sum.splits option.splits)
  show ?case
  proof (cases r1)
    case (Inl err)
    then show ?thesis using Cons.prems(3) o by (auto simp: sbind_def)
  next
    case (Inr u)
    have "x \<noteq> m"
      using Inr o Cons.prems(2) by (auto simp: open_live_def open_file_def sbind_def on_log_def split: prod.splits sum.splits option.splits)
    then show ?thesis using Cons.IH [of e1] Cons.prems files o Inr by (auto simp: sbind_def)
  qed
qed simp

lemma lsm_open_missing:
  assumes "lsm_open crc ser deser opts files l = (r, e)" "manifest_recover crc deser (Some (ml_disk l)) = Inr st"
    and "m \<in> set (ms_tables st)" "bm_get files (tm_id m) = None"
  shows "\<exists>err. r = Inl err"
proof -
  have keep: "smapM (open_live crc) (ms_tables st) e1 = (Inr u, e2) \<Longrightarrow> le_files e1 = files \<Longrightarrow> False" for e1 u e2
    using smapM_open_missing [OF assms(3), of e1] assms(4) by blast
  show ?thesis
    using assms(1,2)
    by (auto simp: lsm_open_def Let_def sbind_def on_log_def lsm_initial_def split: if_splits prod.splits sum.splits dest!: keep)
qed

lemma swap_edit_adds:
  assumes "tm_id out \<notin> tm_id ` set (all_inputs job)"
  shows "out \<in> set (ms_tables (apply_edit (swap_edit job [out]) s))"
proof -
  have "out \<in> set (ms_tables (fold apply_edit (map (\<lambda>t. RemoveTable (tm_level t) (tm_id t)) ts) s))"
    if "out \<in> set (ms_tables s)" "tm_id out \<notin> tm_id ` set ts" for ts s
    using that by (induction ts arbitrary: s) auto
  from this [OF _ assms] show ?thesis by (simp add: swap_edit_def)
qed

text \<open>C38. A compaction whose commit record reaches the log but whose sync fails reports an error and
  deletes its output file, although the log already names that table: opening the engine from these
  files fails. The module says that the manifest never references a file that does not exist.\<close>

theorem unsynced_compaction_blocks_open:
  assumes "log_holds crc ser edits (le_log e)" "\<forall>x \<in> set (edits @ [swap_edit job [out]]). codec ser deser x"
    and "ml_io (le_log e) = [None, None, None, None, Some k, None]" "tm_id out \<notin> tm_id ` set (all_inputs job)"
  shows "\<exists>e'. install_outputs crc ser job [out] e = (Inl Io, e') \<and> ml_disk (le_log e') = log_bytes crc ser (edits @ [swap_edit job [out]]) \<and>
     bm_get (le_files e') (tm_id out) = None \<and>
     (\<forall>io opts. \<exists>err. fst (lsm_open crc ser deser opts (le_files e') ((le_log e')\<lparr>ml_io := io\<rparr>)) = Inl err)"
proof -
  let ?edit = "swap_edit job [out]"
  obtain payload where p: "ser ?edit = Inr payload" "length payload \<le> MANIFEST_MAX_RECORD"
    using assms(2) by (auto simp: codec_def)
  let ?l = "(le_log e)\<lparr>ml_io := [None], ml_disk := log_bytes crc ser (edits @ [?edit]), ml_buf := []\<rparr>"
  have a: "on_log (manifest_append crc ser ?edit) e = (Inl Io, e\<lparr>le_log := ?l\<rparr>)"
    using append_unsynced [of "le_log e" k "[None]" ser ?edit payload crc] assms(1,3) p
    by (simp add: on_log_def log_holds_def log_bytes_snoc)
  let ?e' = "retire out (e\<lparr>le_log := ?l\<rparr>)"
  have run: "install_outputs crc ser job [out] e = (Inl Io, ?e')" using a by (simp add: install_outputs_def)
  have e': "ml_disk (le_log ?e') = log_bytes crc ser (edits @ [?edit])" "bm_get (le_files ?e') (tm_id out) = None"
    by (simp_all add: retire_def unlink_file_def ml_next_def)
  obtain st where st: "manifest_recover crc deser (Some (log_bytes crc ser (edits @ [?edit]))) = Inr st" "same_tables st (manifest_of (edits @ [?edit]))"
    using recover_full [OF assms(2)] by blast
  then have "out \<in> set (ms_tables st)"
    using swap_edit_adds [OF assms(4)] by (simp add: same_tables_def manifest_of_def)
  then have "\<exists>err. fst (lsm_open crc ser deser opts (le_files ?e') ((le_log ?e')\<lparr>ml_io := io\<rparr>)) = Inl err" for io opts
    using lsm_open_missing [OF surjective_pairing, of crc deser "(le_log ?e')\<lparr>ml_io := io\<rparr>" st out "le_files ?e'" ser opts] st(1) e' by simp
  then show ?thesis using run e' by blast
qed

theorem unsynced_compaction_blocks_open_witness:
  "\<exists>e job out e'. install_outputs (\<lambda>_. 0) (\<lambda>_. Inr [1]) job [out] e = (Inl Io, e') \<and>
     (\<exists>err. fst (lsm_open (\<lambda>_. 0) (\<lambda>_. Inr [1]) (\<lambda>_. Some (swap_edit job [out]))
        \<lparr>lo_memtable_bytes = 64, lo_levels = level_config_default\<rparr> (le_files e') ((le_log e')\<lparr>ml_io := []\<rparr>)) = Inl err)"
proof -
  define out :: table_meta where "out = \<lparr>tm_id = 7, tm_level = 1, tm_min_key = [1], tm_max_key = [1], tm_min_seqno = 5, tm_max_seqno = 5,
    tm_entry_count = 1, tm_file_bytes = 200\<rparr>"
  define job :: compaction_job where "job = \<lparr>cj_source_level = 0, cj_target_level = 1, cj_source_tables = [out\<lparr>tm_id := 6, tm_level := 0\<rparr>],
    cj_target_tables = [], cj_score = 1\<rparr>"
  let ?e = "example_lsm\<lparr>le_log := example_log\<lparr>ml_io := [None, None, None, None, Some 0, None]\<rparr>\<rparr>"
  have "log_holds (\<lambda>_. 0) (\<lambda>_. Inr [1]) [] (le_log ?e)" by (simp add: log_holds_def log_bytes_def example_log_def)
  moreover have "\<forall>x \<in> set ([] @ [swap_edit job [out]]). codec (\<lambda>_. Inr [1]) (\<lambda>_. Some (swap_edit job [out])) x"
    by (simp add: codec_def MANIFEST_MAX_RECORD_def)
  moreover have "tm_id out \<notin> tm_id ` set (all_inputs job)" by (simp add: all_inputs_def job_def out_def)
  ultimately show ?thesis
    using unsynced_compaction_blocks_open [of "\<lambda>_. 0" "\<lambda>_. Inr [1]" "[]" ?e job out "\<lambda>_. Some (swap_edit job [out])" 0] by (simp add: example_log_def) blast
qed

end
