(* ===== verification/Rbac.thy ===== *)
theory Rbac
  imports Security
begin

text \<open>
  Role-based access control (\<open>security/rbac.rs\<close>): principals with tokens and roles, the checks, and
  the life of a table as a step relation. Denials are errors, as in the code.
\<close>

datatype permission = PRead | PWrite | PDelete | PMaintain | PAdmin

definition permission_all :: "permission list" where
  "permission_all = [PRead, PWrite, PDelete, PMaintain, PAdmin]"

definition permission_name :: "permission \<Rightarrow> string" where
  "permission_name p =
     (case p of PRead \<Rightarrow> ''read'' | PWrite \<Rightarrow> ''write'' | PDelete \<Rightarrow> ''delete'' | PMaintain \<Rightarrow> ''maintain'' | PAdmin \<Rightarrow> ''admin'')"

record role =
  ro_name :: string
  ro_permissions :: "permission set"

definition role_new :: "string \<Rightarrow> permission list \<Rightarrow> role" where
  "role_new name permissions = \<lparr>ro_name = name, ro_permissions = set permissions\<rparr>"

definition superuser :: "string \<Rightarrow> role" where
  "superuser name = role_new name permission_all"

definition read_only :: "string \<Rightarrow> role" where
  "read_only name = role_new name [PRead]"

definition grants :: "role \<Rightarrow> permission \<Rightarrow> bool" where
  "grants r permission \<longleftrightarrow> permission \<in> ro_permissions r"

record principal =
  pr_user_id :: string
  pr_roles :: "string set"

record access_control =
  ac_roles :: "string \<rightharpoonup> role"
  ac_principals :: "(bytes \<times> principal) list"
  ac_open_by_default :: bool
  ac_configured :: bool

definition ac_new :: access_control where
  "ac_new = \<lparr>ac_roles = Map.empty, ac_principals = [], ac_open_by_default = False, ac_configured = False\<rparr>"

definition ac_open :: access_control where
  "ac_open = \<lparr>ac_roles = Map.empty, ac_principals = [], ac_open_by_default = True, ac_configured = False\<rparr>"

definition is_open :: "access_control \<Rightarrow> bool" where
  "is_open a \<longleftrightarrow> ac_open_by_default a \<and> \<not> ac_configured a"

definition define_role :: "role \<Rightarrow> access_control \<Rightarrow> access_control" where
  "define_role r a = a\<lparr>ac_roles := (ac_roles a)(ro_name r \<mapsto> r)\<rparr>"

definition add_principal :: "bytes \<Rightarrow> string \<Rightarrow> string list \<Rightarrow> (access_control, unit) sres" where
  "add_principal token user_id roles a =
     (if token = [] then (Inl InvalidArgument, a)
      else if list_ex (\<lambda>(t, _). ct_eq t token) (ac_principals a) then (Inl InvalidArgument, a)
      else if list_ex (\<lambda>r. ac_roles a r = None) roles then (Inl InvalidArgument, a)
      else (Inr (), a\<lparr>ac_principals := ac_principals a @ [(token, \<lparr>pr_user_id = user_id, pr_roles = set roles\<rparr>)],
                     ac_configured := True\<rparr>))"

text \<open>The scan keeps the last position that matches.\<close>

definition token_position :: "bytes \<Rightarrow> (bytes \<times> principal) list \<Rightarrow> nat option" where
  "token_position token ps =
     fold (\<lambda>(i, t, _) found. if ct_eq t token then Some i else found) (enumerate 0 ps) None"

definition remove_principal :: "bytes \<Rightarrow> access_control \<Rightarrow> bool \<times> access_control" where
  "remove_principal token a =
     (case token_position token (ac_principals a) of
        Some i \<Rightarrow> (True, a\<lparr>ac_principals := take i (ac_principals a) @ drop (i + 1) (ac_principals a)\<rparr>)
      | None \<Rightarrow> (False, a))"

definition principal_count :: "access_control \<Rightarrow> nat" where
  "principal_count a = length (ac_principals a)"

definition authenticate :: "access_control \<Rightarrow> bytes \<Rightarrow> principal option" where
  "authenticate a token =
     fold (\<lambda>(t, p) found. if ct_eq t token then Some p else found) (ac_principals a) None"

definition role_grants :: "access_control \<Rightarrow> permission \<Rightarrow> string \<Rightarrow> bool" where
  "role_grants a permission name =
     (case ac_roles a name of Some r \<Rightarrow> grants r permission | None \<Rightarrow> False)"

definition authorize :: "access_control \<Rightarrow> bytes \<Rightarrow> permission \<Rightarrow> principal res" where
  "authorize a token permission =
     (if is_open a then Inl InvalidArgument
      else
        case authenticate a token of
          None \<Rightarrow> Inl InvalidArgument
        | Some p \<Rightarrow>
            if \<exists>name \<in> pr_roles p. role_grants a permission name then Inr p else Inl InvalidArgument)"

definition authorize_open :: "access_control \<Rightarrow> bytes \<Rightarrow> permission \<Rightarrow> principal option res" where
  "authorize_open a token permission =
     (if is_open a then Inr None else rbind (authorize a token permission) (\<lambda>p. Inr (Some p)))"

definition effective_permissions :: "access_control \<Rightarrow> bytes \<Rightarrow> permission set" where
  "effective_permissions a token =
     (case authenticate a token of
        None \<Rightarrow> {}
      | Some p \<Rightarrow> \<Union> ((\<lambda>name. case ac_roles a name of Some r \<Rightarrow> ro_permissions r | None \<Rightarrow> {}) ` pr_roles p))"

section \<open>The life of a table\<close>

inductive ac_step :: "access_control \<Rightarrow> access_control \<Rightarrow> bool" where
  step_define: "ac_step a (define_role r a)"
| step_add: "add_principal token user_id roles a = (r, a') \<Longrightarrow> ac_step a a'"
| step_remove: "remove_principal token a = (b, a') \<Longrightarrow> ac_step a a'"

inductive_cases ac_stepE: "ac_step a a'"

inductive ac_reachable :: "access_control \<Rightarrow> bool" where
  reach_new: "ac_reachable ac_new"
| reach_open: "ac_reachable ac_open"
| reach_step: "ac_reachable a \<Longrightarrow> ac_step a a' \<Longrightarrow> ac_reachable a'"

definition ac_ok :: "access_control \<Rightarrow> bool" where
  "ac_ok a \<longleftrightarrow>
     distinct (map fst (ac_principals a)) \<and> [] \<notin> fst ` set (ac_principals a) \<and>
     (\<forall>x \<in> set (ac_principals a). pr_roles (snd x) \<subseteq> dom (ac_roles a)) \<and>
     (ac_principals a \<noteq> [] \<longrightarrow> ac_configured a)"

lemma token_scan:
  assumes "distinct (map fst ps)"
  shows "fold (\<lambda>(t, p) found. if ct_eq t token then Some p else found) ps acc =
     (case map_of ps token of Some p \<Rightarrow> Some p | None \<Rightarrow> acc)"
  using assms
proof (induction ps arbitrary: acc)
  case (Cons x ps)
  obtain t p where x: "x = (t, p)" by (cases x)
  have "map_of ps t = None" using Cons.prems by (simp add: x map_of_eq_None_iff)
  then show ?case using Cons by (auto simp: x ct_eq_iff split: option.splits)
qed simp

lemma authenticate_map: "ac_ok a \<Longrightarrow> authenticate a token = map_of (ac_principals a) token"
  by (simp add: authenticate_def ac_ok_def token_scan split: option.splits)

lemma position_scan:
  assumes "distinct (map fst ps)"
  shows "fold (\<lambda>(i, t, _) found. if ct_eq t token then Some i else found) (enumerate n ps) acc =
     (if token \<in> fst ` set ps then Some (n + length (takeWhile (\<lambda>x. fst x \<noteq> token) ps)) else acc)"
  using assms
proof (induction ps arbitrary: n acc)
  case (Cons x ps)
  obtain t p where x: "x = (t, p)" by (cases x)
  show ?case
  proof (cases "t = token")
    case True
    then have "token \<notin> fst ` set ps" using Cons.prems by (simp add: x)
    then show ?thesis using True Cons by (simp add: x ct_eq_iff)
  next
    case False
    then show ?thesis using Cons by (auto simp: x ct_eq_iff)
  qed
qed simp

lemma remove_at_token:
  assumes "distinct (map fst ps)" "token \<in> fst ` set ps"
  shows "take (length (takeWhile (\<lambda>x. fst x \<noteq> token) ps)) ps @ drop (length (takeWhile (\<lambda>x. fst x \<noteq> token) ps) + 1) ps =
     filter (\<lambda>x. fst x \<noteq> token) ps"
  using assms
proof (induction ps)
  case (Cons x ps)
  show ?case
  proof (cases "fst x = token")
    case True
    then have "\<forall>y \<in> set ps. fst y \<noteq> token" using Cons.prems(1) by (auto simp: image_iff)
    then show ?thesis using True by simp
  qed (use Cons in auto)
qed simp

lemma remove_principal_filter:
  assumes "ac_ok a"
  shows "remove_principal token a =
     (token \<in> fst ` set (ac_principals a), a\<lparr>ac_principals := filter (\<lambda>x. fst x \<noteq> token) (ac_principals a)\<rparr>)"
proof (cases "token \<in> fst ` set (ac_principals a)")
  case True
  then show ?thesis
    using assms remove_at_token [of "ac_principals a" token] position_scan [of "ac_principals a" token 0 None]
    by (simp add: remove_principal_def token_position_def ac_ok_def)
next
  case False
  then have "filter (\<lambda>x. fst x \<noteq> token) (ac_principals a) = ac_principals a" by (auto simp: filter_id_conv)
  then show ?thesis
    using False assms position_scan [of "ac_principals a" token 0 None]
    by (simp add: remove_principal_def token_position_def ac_ok_def)
qed

lemma ac_ok_initial: "ac_ok ac_new" "ac_ok ac_open"
  by (simp_all add: ac_ok_def ac_new_def ac_open_def)

lemma ac_ok_step:
  assumes "ac_step a a'" "ac_ok a"
  shows "ac_ok a'" "ac_configured a \<longrightarrow> ac_configured a'" "ac_open_by_default a' = ac_open_by_default a"
    "dom (ac_roles a) \<subseteq> dom (ac_roles a')"
proof -
  have "ac_ok a' \<and> (ac_configured a \<longrightarrow> ac_configured a') \<and> ac_open_by_default a' = ac_open_by_default a \<and>
      dom (ac_roles a) \<subseteq> dom (ac_roles a')"
    using assms(1)
  proof cases
    case (step_define r)
    then show ?thesis using assms(2) by (auto simp: ac_ok_def define_role_def)
  next
    case (step_add token user_id roles r)
    let ?p = "\<lparr>pr_user_id = user_id, pr_roles = set roles\<rparr>"
    show ?thesis
    proof (cases "token = [] \<or> list_ex (\<lambda>(t, _). ct_eq t token) (ac_principals a) \<or> list_ex (\<lambda>r. ac_roles a r = None) roles")
      case True
      then have "a' = a" using step_add by (auto simp: add_principal_def split: if_splits)
      then show ?thesis using assms(2) by simp
    next
      case False
      then have a': "a' = a\<lparr>ac_principals := ac_principals a @ [(token, ?p)], ac_configured := True\<rparr>"
        using step_add by (auto simp: add_principal_def)
      have "token \<notin> fst ` set (ac_principals a)" "set roles \<subseteq> dom (ac_roles a)" "token \<noteq> []"
        using False by (force simp: list_ex_iff ct_eq_iff)+
      then show ?thesis using assms(2) by (auto simp: a' ac_ok_def)
    qed
  next
    case (step_remove token b)
    then have a': "a' = a\<lparr>ac_principals := filter (\<lambda>x. fst x \<noteq> token) (ac_principals a)\<rparr>"
      using remove_principal_filter [OF assms(2)] by simp
    have sub: "set (ac_principals a') \<subseteq> set (ac_principals a)" by (auto simp: a')
    then have "\<forall>x \<in> set (ac_principals a'). pr_roles (snd x) \<subseteq> dom (ac_roles a)" "[] \<notin> fst ` set (ac_principals a')"
        "ac_principals a' \<noteq> [] \<longrightarrow> ac_configured a"
      using assms(2) unfolding ac_ok_def by auto
    moreover have "distinct (map fst (ac_principals a'))" using assms(2) by (simp add: a' ac_ok_def distinct_map_filter)
    ultimately show ?thesis by (simp add: ac_ok_def a')
  qed
  then show "ac_ok a'" "ac_configured a \<longrightarrow> ac_configured a'" "ac_open_by_default a' = ac_open_by_default a"
    "dom (ac_roles a) \<subseteq> dom (ac_roles a')" by auto
qed

lemma reachable_ok: "ac_reachable a \<Longrightarrow> ac_ok a"
  by (induction rule: ac_reachable.induct) (auto intro: ac_ok_initial ac_ok_step(1))

lemma steps_stay_closed:
  assumes "ac_step\<^sup>*\<^sup>* a a'" "ac_ok a"
  shows "ac_ok a' \<and> (ac_configured a \<longrightarrow> ac_configured a') \<and> ac_open_by_default a' = ac_open_by_default a"
  using assms by (induction rule: rtranclp_induct) (auto dest: ac_ok_step)

text \<open>C16. Access control fails closed. In every table the operations can produce, authorisation
  succeeds exactly for a registered token one of whose roles grants the permission, and reports that
  token's principal; every other request is refused with \<open>InvalidArgument\<close>. The effective
  permissions are those that would be authorised. Once a principal was registered, the table never
  returns to open mode, whatever is removed, and a removed token authorises nothing.\<close>

theorem rbac_fails_closed:
  assumes "ac_reachable a"
  shows "(\<forall>p. authorize a token permission = Inr p \<longleftrightarrow>
       \<not> is_open a \<and> (token, p) \<in> set (ac_principals a) \<and>
       (\<exists>name \<in> pr_roles p. \<exists>r. ac_roles a name = Some r \<and> permission \<in> ro_permissions r)) \<and>
     (\<forall>err. authorize a token permission = Inl err \<longrightarrow> err = InvalidArgument) \<and>
     (\<not> is_open a \<longrightarrow> permission \<in> effective_permissions a token \<longleftrightarrow> (\<exists>p. authorize a token permission = Inr p)) \<and>
     authorize_open a token permission = (if is_open a then Inr None else map_sum id Some (authorize a token permission)) \<and>
     (\<forall>a'. ac_step\<^sup>*\<^sup>* a a' \<and> ac_principals a \<noteq> [] \<longrightarrow> \<not> is_open a') \<and>
     (ac_principals a \<noteq> [] \<longrightarrow> authorize (snd (remove_principal token a)) token permission = Inl InvalidArgument)"
proof -
  have ok: "ac_ok a" by (rule reachable_ok [OF assms])
  have mem: "map_of (ac_principals a) token = Some p \<longleftrightarrow> (token, p) \<in> set (ac_principals a)" for p
    using ok by (simp add: ac_ok_def)
  have au: "authorize a token permission = (if is_open a then Inl InvalidArgument else case map_of (ac_principals a) token of
      None \<Rightarrow> Inl InvalidArgument | Some p \<Rightarrow> if \<exists>name \<in> pr_roles p. role_grants a permission name then Inr p else Inl InvalidArgument)"
    by (simp add: authorize_def authenticate_map [OF ok])
  have rg: "role_grants a permission name \<longleftrightarrow> (\<exists>r. ac_roles a name = Some r \<and> permission \<in> ro_permissions r)" for name
    by (auto simp: role_grants_def grants_def split: option.splits)
  have 1: "authorize a token permission = Inr p \<longleftrightarrow> \<not> is_open a \<and> (token, p) \<in> set (ac_principals a) \<and>
       (\<exists>name \<in> pr_roles p. \<exists>r. ac_roles a name = Some r \<and> permission \<in> ro_permissions r)" for p
    unfolding mem [symmetric] au by (auto simp: rg split: option.splits)
  have 2: "authorize a token permission = Inl err \<longrightarrow> err = InvalidArgument" for err
    unfolding au by (auto split: option.splits)
  have 3: "\<not> is_open a \<longrightarrow> permission \<in> effective_permissions a token \<longleftrightarrow> (\<exists>p. authorize a token permission = Inr p)"
    unfolding effective_permissions_def authenticate_map [OF ok] au by (auto simp: rg split: option.splits)
  have 4: "authorize_open a token permission = (if is_open a then Inr None else map_sum id Some (authorize a token permission))"
    by (cases "authorize a token permission") (auto simp: authorize_open_def)
  have 5: "\<not> is_open a'" if "ac_step\<^sup>*\<^sup>* a a'" "ac_principals a \<noteq> []" for a'
    using steps_stay_closed [OF that(1) ok] that(2) ok by (auto simp: is_open_def ac_ok_def)
  let ?a = "snd (remove_principal token a)"
  have "ac_ok ?a" by (rule ac_ok_step(1) [OF step_remove ok]) (rule surjective_pairing)
  moreover have "map_of (ac_principals ?a) token = None"
    by (auto simp: remove_principal_filter [OF ok] map_of_eq_None_iff)
  ultimately have 6: "authorize ?a token permission = Inl InvalidArgument"
    by (simp add: authorize_def authenticate_map)
  show ?thesis using 1 2 3 4 5 6 by blast
qed

theorem rbac_fails_closed_witness:
  "authorize (snd (add_principal [1, 2] ''alice'' [''reader''] (define_role (read_only ''reader'') ac_open))) [1, 2] PRead =
     Inr \<lparr>pr_user_id = ''alice'', pr_roles = {''reader''}\<rparr> \<and>
   authorize (snd (add_principal [1, 2] ''alice'' [''reader''] (define_role (read_only ''reader'') ac_open))) [1, 2] PWrite = Inl InvalidArgument"
proof -
  let ?a = "snd (add_principal [1, 2] ''alice'' [''reader''] (define_role (read_only ''reader'') ac_open))"
  have "ac_reachable ?a"
    by (rule reach_step [OF reach_step [OF reach_open step_define] step_add]) (rule surjective_pairing)
  note R = rbac_fails_closed [OF this, of "[1, 2]"]
  have a: "ac_principals ?a = [([1, 2], \<lparr>pr_user_id = ''alice'', pr_roles = {''reader''}\<rparr>)]" "\<not> is_open ?a"
      "ac_roles ?a ''reader'' = Some (read_only ''reader'')"
    by (simp_all add: add_principal_def define_role_def ac_open_def read_only_def role_new_def is_open_def)
  then have "authorize ?a [1, 2] PRead = Inr \<lparr>pr_user_id = ''alice'', pr_roles = {''reader''}\<rparr>"
    using R [of PRead] by (simp add: read_only_def role_new_def)
  moreover have "\<nexists>p. authorize ?a [1, 2] PWrite = Inr p" using R [of PWrite] a by (auto simp: read_only_def role_new_def)
  ultimately show ?thesis using R [of PWrite] by (cases "authorize ?a [1, 2] PWrite") auto
qed

end
