(* ===== verification/Audit_Log.thy ===== *)
theory Audit_Log
  imports Errors
begin

text \<open>
  The audit log (\<open>security/audit.rs\<close>). A Rust string is the list of its code points; the file is
  bytes, in UTF-8. System calls take their outcomes from \<open>al_io\<close>: \<open>Some k\<close> makes the call fail, a
  write after \<open>k\<close> bytes. The clock is an argument.
\<close>

type_synonym utext = "nat list"

definition ascii :: "string \<Rightarrow> utext" where
  "ascii s = map of_char s"

definition MAX_LOGGED_KEY_BYTES :: nat where
  "MAX_LOGGED_KEY_BYTES = 64"

datatype outcome = Allowed | Denied | Failed

definition outcome_name :: "outcome \<Rightarrow> utext" where
  "outcome_name o' = (case o' of Allowed \<Rightarrow> ascii ''ALLOW'' | Denied \<Rightarrow> ascii ''DENY'' | Failed \<Rightarrow> ascii ''FAIL'')"

record audit_record =
  au_timestamp_ms :: nat
  au_outcome :: outcome
  au_user_id :: utext
  au_action :: utext
  au_key :: "bytes option"
  au_source :: utext
  au_detail :: utext

definition record_now :: "nat \<Rightarrow> outcome \<Rightarrow> utext \<Rightarrow> utext \<Rightarrow> audit_record" where
  "record_now clock outc user_id action =
     \<lparr>au_timestamp_ms = clock, au_outcome = outc, au_user_id = user_id, au_action = action, au_key = None,
      au_source = ascii ''local'', au_detail = []\<rparr>"

definition with_key :: "bytes \<Rightarrow> audit_record \<Rightarrow> audit_record" where
  "with_key key r = r\<lparr>au_key := Some key\<rparr>"

definition with_source :: "utext \<Rightarrow> audit_record \<Rightarrow> audit_record" where
  "with_source s r = r\<lparr>au_source := s\<rparr>"

definition with_detail :: "utext \<Rightarrow> audit_record \<Rightarrow> audit_record" where
  "with_detail s r = r\<lparr>au_detail := s\<rparr>"

section \<open>Rendering\<close>

definition hex_digit :: "nat \<Rightarrow> nat" where
  "hex_digit n = (if n < 10 then 48 + n else 87 + n)"

fun hex :: "nat \<Rightarrow> utext" where
  "hex n = (if n < 16 then [hex_digit n] else hex (n div 16) @ [hex_digit (n mod 16)])"

declare hex.simps [simp del]

text \<open>\<open>{:04x}\<close> and \<open>{:02x}\<close>.\<close>

definition hex_pad :: "nat \<Rightarrow> nat \<Rightarrow> utext" where
  "hex_pad w n = replicate (w - length (hex n)) 48 @ hex n"

fun decimal :: "nat \<Rightarrow> utext" where
  "decimal n = (if n < 10 then [48 + n] else decimal (n div 10) @ [48 + n mod 10])"

declare decimal.simps [simp del]

text \<open>\<open>char::is_control\<close>: the general category Cc.\<close>

definition is_control :: "nat \<Rightarrow> bool" where
  "is_control c \<longleftrightarrow> c < 32 \<or> 127 \<le> c \<and> c < 160"

definition escape_char :: "nat \<Rightarrow> utext" where
  "escape_char c =
     (if c = 92 then [92, 92]
      else if c = 9 then [92, 116]
      else if c = 10 then [92, 110]
      else if c = 13 then [92, 114]
      else if is_control c \<or> c = 0x2028 \<or> c = 0x2029 then [92, 117, 123] @ hex_pad 4 c @ [125]
      else [c])"

definition escape_field :: "utext \<Rightarrow> utext" where
  "escape_field s = (if s = [] then [45] else if s = [45] then [92, 45] else concat (map escape_char s))"

definition key_field :: "bytes option \<Rightarrow> utext" where
  "key_field key =
     (case key of
        None \<Rightarrow> [45]
      | Some k \<Rightarrow>
          let shown = min (length k) MAX_LOGGED_KEY_BYTES
          in concat (map (\<lambda>b. hex_pad 2 (unat b)) (take shown k)) @ (if length k > shown then [126] else []))"

fun tab_join :: "utext list \<Rightarrow> utext" where
  "tab_join [] = []"
| "tab_join [f] = f"
| "tab_join (f # fs) = f @ 9 # tab_join fs"

definition audit_encode :: "audit_record \<Rightarrow> utext" where
  "audit_encode r =
     tab_join [decimal (au_timestamp_ms r), outcome_name (au_outcome r), escape_field (au_user_id r),
       escape_field (au_action r), key_field (au_key r), escape_field (au_source r), escape_field (au_detail r)]"

section \<open>The file\<close>

definition utf8 :: "nat \<Rightarrow> bytes" where
  "utf8 c = map of_nat
     (if c < 0x80 then [c]
      else if c < 0x800 then [0xC0 + c div 64, 0x80 + c mod 64]
      else if c < 0x10000 then [0xE0 + c div 4096, 0x80 + c div 64 mod 64, 0x80 + c mod 64]
      else [0xF0 + c div 262144, 0x80 + c div 4096 mod 64, 0x80 + c div 64 mod 64, 0x80 + c mod 64])"

definition into_bytes :: "utext \<Rightarrow> bytes" where
  "into_bytes s = concat (map utf8 s)"

record audit_log =
  al_file :: bytes
  al_sync_each :: bool
  al_records_written :: nat
  al_io :: "nat option list"

type_synonym 'a audit_op = "(audit_log, 'a) sres"

definition al_next :: "audit_log \<Rightarrow> nat option \<times> audit_log" where
  "al_next l = (case al_io l of [] \<Rightarrow> (None, l) | x # xs \<Rightarrow> (x, l\<lparr>al_io := xs\<rparr>))"

definition al_call :: "unit audit_op" where
  "al_call l = (case al_next l of (None, l) \<Rightarrow> (Inr (), l) | (Some _, l) \<Rightarrow> (Inl Io, l))"

definition al_write :: "bytes \<Rightarrow> unit audit_op" where
  "al_write bs l =
     (case al_next l of
        (None, l) \<Rightarrow> (Inr (), l\<lparr>al_file := al_file l @ bs\<rparr>)
      | (Some k, l) \<Rightarrow> (Inl Io, l\<lparr>al_file := al_file l @ take k bs\<rparr>))"

text \<open>
  Opening a file with contents \<open>al_file\<close>: the directory, the open and the size, then for a non-empty
  file the seek and the read of its last byte, and the newline that ends a torn record.
\<close>

definition audit_open :: "bool \<Rightarrow> unit audit_op" where
  "audit_open sync_each =
     sbind al_call (\<lambda>_.
     sbind al_call (\<lambda>_.
     sbind al_call (\<lambda>_.
     sbind sget (\<lambda>l.
     sbind (if al_file l = [] then sret ()
            else
              sbind al_call (\<lambda>_.
              sbind al_call (\<lambda>_.
                if last (al_file l) \<noteq> 10 then al_write [10] else sret ()))) (\<lambda>_.
     smod (\<lambda>l. l\<lparr>al_sync_each := sync_each, al_records_written := 0\<rparr>))))))"

definition audit_sync :: "unit audit_op" where
  "audit_sync = al_call"

definition audit_append :: "audit_record \<Rightarrow> unit audit_op" where
  "audit_append r =
     sbind (al_write (into_bytes (audit_encode r) @ [10])) (\<lambda>_.
     sbind (smod (\<lambda>l. l\<lparr>al_records_written := al_records_written l + 1\<rparr>)) (\<lambda>_.
     sbind sget (\<lambda>l. if al_sync_each l then audit_sync else sret ())))"

definition audit_allow :: "nat \<Rightarrow> utext \<Rightarrow> utext \<Rightarrow> bytes \<Rightarrow> unit audit_op" where
  "audit_allow clock user_id action key = audit_append (with_key key (record_now clock Allowed user_id action))"

definition audit_deny :: "nat \<Rightarrow> utext \<Rightarrow> utext \<Rightarrow> utext \<Rightarrow> unit audit_op" where
  "audit_deny clock user_id action reason = audit_append (with_detail reason (record_now clock Denied user_id action))"

section \<open>A record can be read back from its line\<close>

lemma hex_digit_inj: "a < 16 \<Longrightarrow> b < 16 \<Longrightarrow> hex_digit a = hex_digit b \<Longrightarrow> a = b"
  by (auto simp: hex_digit_def split: if_splits)

lemma hex_two: "n < 256 \<Longrightarrow> hex_pad 2 n = [hex_digit (n div 16), hex_digit (n mod 16)]"
  by (auto simp: hex_pad_def hex.simps [of n] hex.simps [of "n div 16"] hex_digit_def split: if_splits)

lemma hex_four:
  assumes "n < 65536"
  shows "hex_pad 4 n = [hex_digit (n div 4096), hex_digit (n div 256 mod 16), hex_digit (n div 16 mod 16), hex_digit (n mod 16)]"
proof -
  have step: "hex k = hex (k div 16) @ [hex_digit (k mod 16)]" if "16 \<le> k" for k using that by (subst hex.simps) simp
  have one: "hex k = [hex_digit k]" if "k < 16" for k using that by (subst hex.simps) simp
  have d: "n div 16 div 16 = n div 256" "n div 256 div 16 = n div 4096" by (simp_all add: div_mult2_eq [symmetric])
  have r: "replicate 3 (48 :: nat) = [48, 48, 48]" "replicate 2 (48 :: nat) = [48, 48]" "replicate (Suc 0) (48 :: nat) = [48]" "hex_digit 0 = 48"
    by (simp_all add: numeral_eq_Suc hex_digit_def)
  consider "n < 16" | "16 \<le> n" "n < 256" | "256 \<le> n" "n < 4096" | "4096 \<le> n" by linarith
  then show ?thesis
  proof cases
    case 1
    then have "n div 4096 = 0" "n div 256 = 0" "n div 16 = 0" "n mod 16 = n" by simp_all
    then show ?thesis using 1 by (simp add: hex_pad_def one r)
  next
    case 2
    then have "n div 4096 = 0" "n div 256 = 0" "n div 16 < 16" by simp_all
    then show ?thesis using 2 by (simp add: hex_pad_def step one r)
  next
    case 3
    then have "n div 4096 = 0" "n div 256 < 16" "16 \<le> n div 16" by simp_all
    then show ?thesis using 3 step [of n] step [of "n div 16"] by (simp add: hex_pad_def one r d)
  next
    case 4
    then have "n div 4096 < 16" "16 \<le> n div 16" "16 \<le> n div 256" using assms by simp_all
    then show ?thesis using 4 step [of n] step [of "n div 16"] step [of "n div 256"] by (simp add: hex_pad_def one d)
  qed
qed

text \<open>Reads one escaped character back.\<close>

definition hex_value :: "nat \<Rightarrow> nat" where
  "hex_value d = (if d < 58 then d - 48 else d - 87)"

fun unescape_one :: "utext \<Rightarrow> (nat \<times> utext) option" where
  "unescape_one [] = None"
| "unescape_one (c # r) =
     (if c \<noteq> 92 then Some (c, r)
      else case r of
        [] \<Rightarrow> None
      | d # r' \<Rightarrow>
          if d = 92 then Some (92, r') else if d = 116 then Some (9, r') else if d = 110 then Some (10, r')
          else if d = 114 then Some (13, r')
          else if length r' \<ge> 6 then
            Some (hex_value (r' ! 1) * 4096 + hex_value (r' ! 2) * 256 + hex_value (r' ! 3) * 16 + hex_value (r' ! 4), drop 6 r')
          else None)"

lemma hex_value_digit: "n < 16 \<Longrightarrow> hex_value (hex_digit n) = n"
  by (simp add: hex_value_def hex_digit_def)

lemma unescape_escape: "unescape_one (escape_char c @ r) = Some (c, r)"
proof -
  have "unescape_one ([92, 117, 123] @ hex_pad 4 c @ [125] @ r) = Some (c, r)" if "c < 65536"
  proof -
    have "c div 4096 * 4096 + c div 256 mod 16 * 256 + c div 16 mod 16 * 16 + c mod 16 = c"
    proof -
      have "c = c div 16 * 16 + c mod 16" "c div 16 = c div 256 * 16 + c div 16 mod 16" "c div 256 = c div 4096 * 16 + c div 256 mod 16"
        using div_mult_mod_eq [of "c div 16" 16] div_mult_mod_eq [of "c div 256" 16] by (simp_all add: div_mult2_eq [symmetric])
      then show ?thesis by linarith
    qed
    moreover have "c div 4096 < 16" using that by simp
    ultimately show ?thesis using that by (simp add: hex_four hex_value_digit nth_Cons' drop_Cons')
  qed
  then show ?thesis by (auto simp: escape_char_def is_control_def)
qed


lemma escape_chars_inj: "concat (map escape_char s) = concat (map escape_char s') \<Longrightarrow> s = s'"
proof (induction s arbitrary: s')
  case Nil
  have "escape_char c \<noteq> []" for c by (simp add: escape_char_def)
  then show ?case using Nil by (cases s') auto
next
  case (Cons c s)
  have "escape_char c \<noteq> []" by (simp add: escape_char_def)
  then obtain c' t where s': "s' = c' # t" using Cons.prems by (cases s') auto
  have "Some (c, concat (map escape_char s)) = Some (c', concat (map escape_char t))"
    using Cons.prems unescape_escape by (metis concat.simps(2) list.map(2) s')
  then show ?case using Cons.IH s' by simp
qed

lemma escape_char_head: "escape_char c = [d] \<Longrightarrow> c = d"
  using unescape_escape [of c "[]"] by (auto simp: escape_char_def split: if_splits)

lemma escape_field_inj:
  assumes "escape_field s = escape_field s'"
  shows "s = s'"
proof -
  let ?e = "\<lambda>s. concat (map escape_char s)"
  have dash: "?e s \<noteq> [92, 45]" for s
  proof
    assume e: "?e s = [92, 45]"
    then obtain c t where s: "s = c # t" by (cases s) auto
    have "unescape_one (?e s) = Some (c, ?e t)" using unescape_escape by (simp add: s)
    then show False using e by simp
  qed
  have single: "s = [45]" if "?e s = [45]" for s
  proof -
    have "escape_char 45 = [45]" by (simp add: escape_char_def is_control_def)
    then show ?thesis using escape_chars_inj [of s "[45]"] that by simp
  qed
  have nil: "escape_field s = [45] \<longleftrightarrow> s = []" for s
    using single [of s] by (cases "s = []"; cases "s = [45]") (auto simp: escape_field_def)
  have lone: "escape_field s = [92, 45] \<longleftrightarrow> s = [45]" for s
    using dash [of s] by (cases "s = []"; cases "s = [45]") (auto simp: escape_field_def)
  show ?thesis
  proof (cases "s = [] \<or> s = [45]")
    case True
    then show ?thesis using nil [of s] lone [of s] nil [of s'] lone [of s'] assms by metis
  next
    case False
    then have "\<not> (s' = [] \<or> s' = [45])" using nil [of s] lone [of s] nil [of s'] lone [of s'] assms by metis
    then show ?thesis using False assms escape_chars_inj [of s s'] by (simp add: escape_field_def)
  qed
qed

text \<open>Every field is free of control characters, tabs and newlines among them.\<close>

definition clean :: "utext \<Rightarrow> bool" where
  "clean f \<longleftrightarrow> (\<forall>c \<in> set f. \<not> is_control c)"

lemma clean_simps [simp]: "clean []" "clean (c # f) \<longleftrightarrow> \<not> is_control c \<and> clean f" "clean (f @ g) \<longleftrightarrow> clean f \<and> clean g"
  by (auto simp: clean_def)

lemma clean_hex_digit: "n < 16 \<Longrightarrow> \<not> is_control (hex_digit n)"
  by (simp add: hex_digit_def is_control_def)

lemma clean_escape_char: "clean (escape_char c)"
proof -
  have "clean (hex_pad 4 c)" if "c < 65536"
    using that clean_hex_digit by (simp add: hex_four)
  then show ?thesis by (auto simp: escape_char_def is_control_def)
qed

lemma clean_escape: "clean (escape_field s)"
proof -
  have "clean (concat (map escape_char s))" by (induction s) (simp_all add: clean_escape_char)
  then show ?thesis by (simp add: escape_field_def is_control_def)
qed

lemma clean_decimal: "clean (decimal n)"
proof (induction n rule: decimal.induct)
  case (1 n)
  have "n mod 10 < 10" by simp
  then show ?case using 1 by (subst decimal.simps) (auto simp: is_control_def)
qed

lemma clean_key_field: "clean (key_field k)"
proof -
  have b: "unat b < 256" for b :: u8 using unsigned_less [of b] by simp
  have "clean (concat (map (\<lambda>b. hex_pad 2 (unat b)) bs))" for bs :: bytes
  proof (induction bs)
    case (Cons x bs)
    then show ?case using b [of x] clean_hex_digit by (simp add: hex_two)
  qed simp
  then show ?thesis by (simp add: key_field_def Let_def is_control_def split: option.splits)
qed

lemma clean_outcome: "clean (outcome_name x)"
  by (cases x) (simp_all add: outcome_name_def ascii_def is_control_def)

text \<open>Splitting a line at its tabs gives the fields back.\<close>

fun tab_split :: "utext \<Rightarrow> utext list" where
  "tab_split [] = [[]]"
| "tab_split (c # s) = (if c = 9 then [] # tab_split s else case tab_split s of [] \<Rightarrow> [[c]] | f # fs \<Rightarrow> (c # f) # fs)"

lemma tab_split_ne: "tab_split s \<noteq> []"
  by (induction s) (auto split: list.splits)

lemma tab_split_field: "9 \<notin> set f \<Longrightarrow> tab_split f = [f]" "9 \<notin> set f \<Longrightarrow> tab_split (f @ 9 # s) = f # tab_split s"
  by (induction f) auto

lemma tab_split_join: "fs \<noteq> [] \<Longrightarrow> \<forall>f \<in> set fs. 9 \<notin> set f \<Longrightarrow> tab_split (tab_join fs) = fs"
  by (induction fs rule: tab_join.induct) (simp_all add: tab_split_field)

lemma clean_no_tab: "clean f \<Longrightarrow> 9 \<notin> set f" "clean f \<Longrightarrow> 10 \<notin> set f"
  by (auto simp: clean_def is_control_def)

definition line_fields :: "audit_record \<Rightarrow> utext list" where
  "line_fields r =
     [decimal (au_timestamp_ms r), outcome_name (au_outcome r), escape_field (au_user_id r),
      escape_field (au_action r), key_field (au_key r), escape_field (au_source r), escape_field (au_detail r)]"

lemma split_encode: "tab_split (audit_encode r) = line_fields r"
  unfolding audit_encode_def line_fields_def
  by (rule tab_split_join) (simp_all add: clean_no_tab clean_escape clean_decimal clean_key_field clean_outcome)

lemma tab_join_chars: "c \<in> set (tab_join fs) \<Longrightarrow> c = 9 \<or> (\<exists>f \<in> set fs. c \<in> set f)"
  by (induction fs rule: tab_join.induct) auto

lemma encode_one_line: "10 \<notin> set (audit_encode r)"
proof
  assume "10 \<in> set (audit_encode r)"
  then have "\<exists>f \<in> set (line_fields r). 10 \<in> set f" using tab_join_chars unfolding audit_encode_def line_fields_def by fastforce
  then show False
    unfolding line_fields_def using clean_no_tab(2) clean_escape clean_decimal clean_key_field clean_outcome by auto
qed

fun decimal_value :: "utext \<Rightarrow> nat \<Rightarrow> nat" where
  "decimal_value [] n = n"
| "decimal_value (c # s) n = decimal_value s (n * 10 + (c - 48))"

lemma decimal_value_append: "decimal_value (s @ s') n = decimal_value s' (decimal_value s n)"
  by (induction s arbitrary: n) auto

lemma decimal_value_decimal: "decimal_value (decimal n) 0 = n"
proof (induction n rule: decimal.induct)
  case (1 n)
  show ?case
  proof (cases "n < 10")
    case False
    then have "decimal_value (decimal n) 0 = n div 10 * 10 + n mod 10"
      using 1 by (subst decimal.simps) (simp add: decimal_value_append)
    then show ?thesis by simp
  qed (simp add: decimal.simps)
qed

lemma decimal_inj: "decimal a = decimal b \<Longrightarrow> a = b"
  by (metis decimal_value_decimal)

lemma outcome_inj: "outcome_name a = outcome_name b \<Longrightarrow> a = b"
  by (cases a; cases b) (simp_all add: outcome_name_def ascii_def)


text \<open>Of the key, the first 64 bytes can be read back, and whether there are more.\<close>

definition shown_key :: "bytes option \<Rightarrow> (bytes \<times> bool) option" where
  "shown_key key = map_option (\<lambda>k. (take MAX_LOGGED_KEY_BYTES k, length k > MAX_LOGGED_KEY_BYTES)) key"

fun hex_bytes :: "bytes \<Rightarrow> utext" where
  "hex_bytes [] = []"
| "hex_bytes (b # bs) = hex_digit (unat b div 16) # hex_digit (unat b mod 16) # hex_bytes bs"

lemma hex_bytes_concat: "concat (map (\<lambda>b. hex_pad 2 (unat b)) bs) = hex_bytes bs"
  by (induction bs) (simp_all add: hex_two unat_u8_less)

lemma hex_digit_range: "n < 16 \<Longrightarrow> hex_digit n \<noteq> 126 \<and> hex_digit n \<noteq> 45 \<and> hex_digit n < 128"
  by (simp add: hex_digit_def)

lemma hex_bytes_chars: "c \<in> set (hex_bytes bs) \<Longrightarrow> c \<noteq> 126 \<and> c \<noteq> 45 \<and> c < 128"
proof (induction bs)
  case (Cons b bs)
  have "unat b div 16 < 16" "unat b mod 16 < 16" using unat_u8_less [of b] by auto
  note this [THEN hex_digit_range]
  then show ?case using Cons by auto
qed simp

lemma hex_bytes_inj: "hex_bytes bs = hex_bytes bs' \<Longrightarrow> bs = bs'"
proof (induction bs arbitrary: bs')
  case Nil
  then show ?case by (cases bs') simp_all
next
  case (Cons b bs)
  then obtain b' t where bs': "bs' = b' # t" by (cases bs') simp_all
  have eq: "hex_digit (unat b div 16) = hex_digit (unat b' div 16)" "hex_digit (unat b mod 16) = hex_digit (unat b' mod 16)" "hex_bytes bs = hex_bytes t"
    using Cons.prems unfolding bs' by auto
  have "unat b div 16 = unat b' div 16" "unat b mod 16 = unat b' mod 16"
    using hex_digit_inj [OF _ _ eq(1)] hex_digit_inj [OF _ _ eq(2)] unat_u8_less [of b] unat_u8_less [of b'] by auto
  then have "unat b = unat b'" by (metis div_mult_mod_eq)
  then show ?case using Cons.IH [OF eq(3)] bs' by (simp add: unsigned_word_eqI)
qed

lemma key_field_form:
  "key_field None = [45]"
  "key_field (Some k) = hex_bytes (take MAX_LOGGED_KEY_BYTES k) @ (if length k > MAX_LOGGED_KEY_BYTES then [126] else [])"
  by (auto simp: key_field_def Let_def min_def hex_bytes_concat)

lemma key_field_shown:
  assumes "key_field k = key_field k'"
  shows "shown_key k = shown_key k'"
proof -
  have dash: "key_field (Some x) \<noteq> [45]" for x
  proof
    assume "key_field (Some x) = [45]"
    then have "45 \<in> set (key_field (Some x))" by simp
    then show False using hex_bytes_chars [of 45] unfolding key_field_form by (auto split: if_splits)
  qed
  have tilde: "126 \<in> set (key_field (Some x)) \<longleftrightarrow> length x > MAX_LOGGED_KEY_BYTES" for x
    unfolding key_field_form using hex_bytes_chars [of 126] by auto
  show ?thesis
  proof (cases k; cases k')
    fix x x'
    assume k: "k = Some x" "k' = Some x'"
    have more: "length x > MAX_LOGGED_KEY_BYTES \<longleftrightarrow> length x' > MAX_LOGGED_KEY_BYTES"
      using tilde [of x] tilde [of x'] assms unfolding k by metis
    then have "hex_bytes (take MAX_LOGGED_KEY_BYTES x) = hex_bytes (take MAX_LOGGED_KEY_BYTES x')"
      using assms unfolding k key_field_form by (auto split: if_splits)
    then show ?thesis using more hex_bytes_inj by (simp add: k shown_key_def)
  qed (use assms dash dash [THEN not_sym] in \<open>auto simp: key_field_form(1) shown_key_def\<close>)
qed

section \<open>Lines of the file\<close>

fun file_lines :: "bytes \<Rightarrow> bytes list" where
  "file_lines [] = []"
| "file_lines (b # bs) = (if b = 10 then [] # file_lines bs else case file_lines bs of [] \<Rightarrow> [[b]] | l # ls \<Rightarrow> (b # l) # ls)"

text \<open>Nothing is left of a torn record: the next one starts a line of its own.\<close>

definition settled :: "bytes \<Rightarrow> bool" where
  "settled bs \<longleftrightarrow> bs = [] \<or> last bs = 10"

lemma file_lines_Nil_iff: "file_lines bs = [] \<longleftrightarrow> bs = []"
  by (cases bs) (auto split: list.splits)

lemma file_lines_append: "settled a \<Longrightarrow> file_lines (a @ b) = file_lines a @ file_lines b"
proof (induction a)
  case (Cons x a)
  show ?case
  proof (cases "a = []")
    case True
    then show ?thesis using Cons.prems by (simp add: settled_def)
  next
    case False
    then have "settled a" using Cons.prems by (simp add: settled_def)
    moreover have "file_lines a \<noteq> []" using False by (simp add: file_lines_Nil_iff)
    ultimately show ?thesis using Cons.IH by (auto split: list.splits)
  qed
qed simp

lemma file_lines_open: "10 \<notin> set l \<Longrightarrow> file_lines l = (if l = [] then [] else [l])"
  by (induction l) auto

lemma file_lines_closed: "10 \<notin> set l \<Longrightarrow> file_lines (l @ [10]) = [l]"
  by (induction l) auto

lemma file_lines_settle: "bs \<noteq> [] \<Longrightarrow> last bs \<noteq> 10 \<Longrightarrow> file_lines (bs @ [10]) = file_lines bs"
proof (induction bs)
  case (Cons b bs)
  then show ?case by (cases "bs = []") (auto simp: file_lines_Nil_iff)
qed simp

lemma utf8_newline: "c < 0x110000 \<Longrightarrow> 10 \<in> set (utf8 c) \<Longrightarrow> c = 10"
proof -
  assume c: "c < 0x110000" and m: "10 \<in> set (utf8 c)"
  have small: "n = 10" if "of_nat n = (10 :: u8)" "n < 256" for n
  proof -
    have "unat (of_nat n :: u8) = unat (10 :: u8)" using that(1) by simp
    then show ?thesis using that(2) by (simp add: unat_of_nat)
  qed
  let ?ns = "if c < 0x80 then [c] else if c < 0x800 then [0xC0 + c div 64, 0x80 + c mod 64]
      else if c < 0x10000 then [0xE0 + c div 4096, 0x80 + c div 64 mod 64, 0x80 + c mod 64]
      else [0xF0 + c div 262144, 0x80 + c div 4096 mod 64, 0x80 + c div 64 mod 64, 0x80 + c mod 64]"
  have "c mod 64 < 64" "c div 64 mod 64 < 64" "c div 4096 mod 64 < 64" by simp_all
  moreover have "c < 0x800 \<Longrightarrow> c div 64 < 32" "c < 0x10000 \<Longrightarrow> c div 4096 < 16" "c div 262144 < 5" using c by linarith+
  ultimately have r: "n < 256 \<and> (128 \<le> n \<or> n = c)" if "n \<in> set ?ns" for n
    using that by (auto split: if_splits)
  have "(10 :: u8) \<in> of_nat ` set ?ns" using m unfolding utf8_def set_map .
  then obtain n where n: "of_nat n = (10 :: u8)" "n \<in> set ?ns" by (elim imageE) simp
  then have "n = 10" using small [OF n(1)] r [OF n(2)] by blast
  then show "c = 10" using r [OF n(2)] by simp
qed

text \<open>The code points of a record are Unicode scalar values.\<close>

definition scalars :: "audit_record \<Rightarrow> bool" where
  "scalars r \<longleftrightarrow> (\<forall>c \<in> set (au_user_id r @ au_action r @ au_source r @ au_detail r). c < 0x110000)"

lemma escape_char_range: "c \<in> set (escape_char d) \<Longrightarrow> c = d \<or> c < 0x110000"
proof -
  have "c < 128" if "c \<in> set (hex_pad 4 d)" "d < 65536"
  proof -
    have "d div 4096 < 16" using that(2) by simp
    then show ?thesis using that hex_digit_range by (auto simp: hex_four)
  qed
  then show "c \<in> set (escape_char d) \<Longrightarrow> c = d \<or> c < 0x110000"
    by (auto simp: escape_char_def is_control_def split: if_splits)
qed

lemma escape_field_range: "c \<in> set (escape_field s) \<Longrightarrow> c \<in> set s \<or> c < 0x110000"
  using escape_char_range by (fastforce simp: escape_field_def split: if_splits)

lemma decimal_range: "c \<in> set (decimal n) \<Longrightarrow> c < 0x110000"
proof (induction n rule: decimal.induct)
  case (1 n)
  have "n mod 10 < 10" by simp
  then show ?case using 1 by (cases "n < 10") (auto simp: decimal.simps [of n])
qed

lemma key_field_range: "c \<in> set (key_field k) \<Longrightarrow> c < 0x110000"
  by (cases k) (auto simp: key_field_form split: if_splits dest!: hex_bytes_chars)

lemma encode_bytes_one_line:
  assumes "scalars r"
  shows "10 \<notin> set (into_bytes (audit_encode r))"
proof
  assume "10 \<in> set (into_bytes (audit_encode r))"
  then obtain c where c: "c \<in> set (audit_encode r)" "10 \<in> set (utf8 c)" by (auto simp: into_bytes_def)
  have out: "d \<in> set (outcome_name x) \<Longrightarrow> d < 0x110000" for d x by (cases x) (auto simp: outcome_name_def ascii_def)
  have "c < 0x110000"
    using c(1) tab_join_chars [of c "line_fields r"] assms escape_field_range decimal_range key_field_range out
    unfolding audit_encode_def line_fields_def scalars_def by fastforce
  then have "c = 10" using utf8_newline c(2) by blast
  then show False using c(1) encode_one_line by simp
qed


lemma append_effect:
  assumes "settled (al_file l)" "scalars r" "audit_append r l = (res, l')"
  shows "settled (al_file l') \<and> file_lines (al_file l') = file_lines (al_file l) @ [into_bytes (audit_encode r)] \<or>
     res = Inl Io \<and> (\<exists>k. file_lines (al_file l') = file_lines (al_file l) @ filter (\<lambda>x. x \<noteq> []) [take k (into_bytes (audit_encode r))])"
proof -
  let ?line = "into_bytes (audit_encode r)"
  have nl: "10 \<notin> set ?line" by (rule encode_bytes_one_line [OF assms(2)])
  obtain rw l1 where w: "al_write (?line @ [10]) l = (rw, l1)" by (cases "al_write (?line @ [10]) l")
  have full: "settled (al_file l') \<and> file_lines (al_file l') = file_lines (al_file l) @ [?line]" if "al_file l' = al_file l @ ?line @ [10]"
    using file_lines_append [OF assms(1), of "?line @ [10]"] file_lines_closed [OF nl] by (simp add: that settled_def)
  show ?thesis
  proof (cases rw)
    case (Inr u)
    have "al_file l1 = al_file l @ ?line @ [10]" using w Inr by (auto simp: al_write_def al_next_def split: list.splits option.splits prod.splits)
    moreover have "al_file l' = al_file l1"
      using assms(3) w Inr by (auto simp: audit_append_def sbind_def audit_sync_def al_call_def al_next_def split: if_splits list.splits option.splits prod.splits sum.splits)
    ultimately show ?thesis using full by simp
  next
    case (Inl err)
    then obtain k where k: "al_file l1 = al_file l @ take k (?line @ [10])" "err = Io"
      using w by (auto simp: al_write_def al_next_def split: list.splits option.splits prod.splits)
    have l': "l' = l1" "res = Inl Io" using assms(3) w Inl k(2) by (auto simp: audit_append_def sbind_def)
    show ?thesis
    proof (cases "k \<le> length ?line")
      case False
      then show ?thesis using full k(1) l'(1) by simp
    next
      case True
      then have "file_lines (al_file l') = file_lines (al_file l) @ file_lines (take k ?line)"
        using file_lines_append [OF assms(1)] k(1) l'(1) by simp
      moreover have "10 \<notin> set (take k ?line)" using nl by (meson in_set_takeD)
      then have "file_lines (take k ?line) = filter (\<lambda>x. x \<noteq> []) [take k ?line]" using file_lines_open by simp
      ultimately show ?thesis using l'(2) by auto
    qed
  qed
qed

lemma open_effect:
  assumes "audit_open sync_each l = (Inr (), l')"
  shows "settled (al_file l')" "file_lines (al_file l') = file_lines (al_file l)"
proof -
  have "al_file l' = (if al_file l = [] \<or> last (al_file l) = 10 then al_file l else al_file l @ [10])"
    using assms
    by (auto simp: audit_open_def sbind_def al_call_def al_write_def al_next_def split: if_splits list.splits option.splits prod.splits sum.splits)
  then show "settled (al_file l')" "file_lines (al_file l') = file_lines (al_file l)"
    using file_lines_settle [of "al_file l"] by (auto simp: settled_def)
qed



end
