(* ===== verification/Encryption.thy ===== *)
theory Encryption
  imports Bloom Memtable
begin

text \<open>
  Encryption at rest (\<open>security/encryption.rs\<close>). The cipher (\<open>aes-gcm\<close>) is third-party code: its two
  functions are parameters, and what a property relies on is stated as \<open>aead_contract\<close>.
\<close>

definition KEY_LEN :: nat where
  "KEY_LEN = 32"

definition NONCE_LEN :: nat where
  "NONCE_LEN = 12"

definition TAG_LEN :: nat where
  "TAG_LEN = 16"

section \<open>Key derivation\<close>

definition kdf_step :: "u8 \<Rightarrow> u64 \<Rightarrow> u64" where
  "kdf_step b h = (h XOR ucast b) * 0x00000100000001b3"

text \<open>\<open>b"phoenixdb-kdf-v2"\<close>\<close>

definition KDF_DOMAIN :: bytes where
  "KDF_DOMAIN = [112, 104, 111, 101, 110, 105, 120, 100, 98, 45, 107, 100, 102, 45, 118, 50]"

definition kdf_input :: "bytes \<Rightarrow> bytes \<Rightarrow> bytes" where
  "kdf_input passphrase salt =
     concat [KDF_DOMAIN, to_le 8 (length salt), salt, to_le 8 (length passphrase), passphrase]"

definition kdf_lane :: "bytes \<Rightarrow> nat \<Rightarrow> u64" where
  "kdf_lane inp lane =
     (let h = fold kdf_step inp (0xcbf29ce484222325 XOR (of_nat lane * 0x9E3779B9));
          z = h + 0x9E3779B97F4A7C15;
          z = (z XOR drop_bit 30 z) * 0xBF58476D1CE4E5B9;
          z = (z XOR drop_bit 27 z) * 0x94D049BB133111EB
      in z XOR drop_bit 31 z)"

definition derive_insecure_from_passphrase :: "bytes \<Rightarrow> bytes \<Rightarrow> bytes" where
  "derive_insecure_from_passphrase passphrase salt =
     concat (map (\<lambda>lane. to_le 8 (unat (kdf_lane (kdf_input passphrase salt) lane))) [0..<4])"

section \<open>Pages\<close>

definition page_nonce :: "u32 \<Rightarrow> u64 \<Rightarrow> bytes" where
  "page_nonce page_id version = to_le 4 (unat page_id) @ to_le 8 (unat version)"

text \<open>\<open>enc\<close> and \<open>dec\<close>: key, nonce, additional data, message.\<close>

type_synonym aead_fun = "bytes \<Rightarrow> bytes \<Rightarrow> bytes \<Rightarrow> bytes \<Rightarrow> bytes option"

definition cipher_new :: "bytes \<Rightarrow> bytes res" where
  "cipher_new key = (if length key = KEY_LEN then Inr key else Inl InvalidArgument)"

definition encrypt_page :: "aead_fun \<Rightarrow> bytes \<Rightarrow> u32 \<Rightarrow> u64 \<Rightarrow> bytes \<Rightarrow> bytes res" where
  "encrypt_page enc key page_id version plaintext =
     (case enc key (page_nonce page_id version) (to_le 4 (unat page_id)) plaintext of
        Some c \<Rightarrow> Inr c
      | None \<Rightarrow> Inl Corruption)"

definition decrypt_page :: "aead_fun \<Rightarrow> bytes \<Rightarrow> u32 \<Rightarrow> u64 \<Rightarrow> bytes \<Rightarrow> bytes res" where
  "decrypt_page dec key page_id version ciphertext =
     (if length ciphertext < TAG_LEN then Inl Corruption
      else
        case dec key (page_nonce page_id version) (to_le 4 (unat page_id)) ciphertext of
          Some p \<Rightarrow> Inr p
        | None \<Rightarrow> Inl Corruption)"

section \<open>The nonce tracker\<close>

type_synonym nonce_tracker = "u32 \<rightharpoonup> u64"

definition tracker_new :: nonce_tracker where
  "tracker_new = Map.empty"

definition tracker_record :: "u32 \<Rightarrow> u64 \<Rightarrow> (nonce_tracker, unit) sres" where
  "tracker_record page_id version t =
     (case t page_id of
        Some previous \<Rightarrow>
          if version \<le> previous then (Inl InvalidArgument, t) else (Inr (), t(page_id \<mapsto> version))
      | None \<Rightarrow> (Inr (), t(page_id \<mapsto> version)))"

definition version_of :: "nonce_tracker \<Rightarrow> u32 \<Rightarrow> u64 option" where
  "version_of t page_id = t page_id"

section \<open>No nonce is used twice\<close>

lemma page_nonce_inj: "page_nonce p v = page_nonce p' v' \<longleftrightarrow> p = p' \<and> v = v'"
proof
  assume "page_nonce p v = page_nonce p' v'"
  then have "to_le 4 (unat p) = to_le 4 (unat p')" "to_le 8 (unat v) = to_le 8 (unat v')"
    by (simp_all add: page_nonce_def)
  moreover have "unat p < 256 ^ 4" "unat p' < 256 ^ 4" "unat v < 256 ^ 8" "unat v' < 256 ^ 8"
    using unsigned_less [of p] unsigned_less [of p'] unsigned_less [of v] unsigned_less [of v'] by simp_all
  ultimately have "unat p = unat p'" "unat v = unat v'" by (auto dest: to_le_inj)
  then show "p = p' \<and> v = v'" by (simp add: unsigned_word_eqI)
qed simp

text \<open>A run of the tracker over a list of requests: the accepted ones, in order.\<close>

fun accepted :: "(u32 \<times> u64) list \<Rightarrow> nonce_tracker \<Rightarrow> (u32 \<times> u64) list" where
  "accepted [] t = []"
| "accepted ((p, v) # rs) t =
     (case tracker_record p v t of
        (Inr _, t') \<Rightarrow> (p, v) # accepted rs t'
      | (Inl _, t') \<Rightarrow> accepted rs t')"

lemma accepted_above: "(p, v) \<in> set (accepted rs t) \<Longrightarrow> t p = Some w \<Longrightarrow> w < v"
proof (induction rs arbitrary: t w)
  case (Cons r rs)
  obtain p' v' where r: "r = (p', v')" by (cases r)
  show ?case
  proof (cases "\<exists>u. t p' = Some u \<and> v' \<le> u")
    case True
    then show ?thesis using Cons by (auto simp: r tracker_record_def)
  next
    case False
    then have acc: "accepted (r # rs) t = (p', v') # accepted rs (t(p' \<mapsto> v'))"
      by (auto simp: r tracker_record_def split: option.splits)
    show ?thesis
    proof (cases "(p, v) = (p', v')")
      case True
      then show ?thesis using False Cons.prems(2) by force
    next
      case neq: False
      then have mem: "(p, v) \<in> set (accepted rs (t(p' \<mapsto> v')))" using Cons.prems(1) acc by auto
      show ?thesis
      proof (cases "p = p'")
        case True
        then have "v' < v" using Cons.IH [OF mem] by simp
        then show ?thesis using False Cons.prems(2) True by (meson less_trans not_le)
      next
        case False
        then show ?thesis using Cons.IH [OF mem] Cons.prems(2) by simp
      qed
    qed
  qed
qed simp

lemma accepted_distinct: "distinct (accepted rs t)"
proof (induction rs arbitrary: t)
  case (Cons r rs)
  obtain p v where r: "r = (p, v)" by (cases r)
  have "(p, v) \<notin> set (accepted rs (t(p \<mapsto> v)))" using accepted_above [of p v rs "t(p \<mapsto> v)" v] by auto
  then show ?case using Cons by (auto simp: r tracker_record_def split: option.splits)
qed simp

section \<open>The contract of the cipher\<close>

text \<open>
  What authenticated encryption documents: decryption succeeds exactly on what encryption produces
  under the same key, nonce and additional data, and a ciphertext is longer than its message by the tag.
\<close>

definition aead_contract :: "aead_fun \<Rightarrow> aead_fun \<Rightarrow> bool" where
  "aead_contract enc dec \<longleftrightarrow>
     (\<forall>k n a m c. dec k n a c = Some m \<longleftrightarrow> enc k n a m = Some c) \<and>
     (\<forall>k n a m c. enc k n a m = Some c \<longrightarrow> length c = length m + TAG_LEN)"


text \<open>A cipher that satisfies the contract: the message followed by a tag of zeros.\<close>

definition zero_tag_enc :: aead_fun where
  "zero_tag_enc k n a m = Some (m @ replicate TAG_LEN 0)"

definition zero_tag_dec :: aead_fun where
  "zero_tag_dec k n a c =
     (if length c \<ge> TAG_LEN \<and> drop (length c - TAG_LEN) c = replicate TAG_LEN 0 then Some (take (length c - TAG_LEN) c) else None)"

lemma zero_tag_contract: "aead_contract zero_tag_enc zero_tag_dec"
proof -
  have "zero_tag_dec k n a c = Some m \<longleftrightarrow> zero_tag_enc k n a m = Some c" for k n a m c
  proof
    assume "zero_tag_dec k n a c = Some m"
    then have "length c \<ge> TAG_LEN" "drop (length c - TAG_LEN) c = replicate TAG_LEN 0" "take (length c - TAG_LEN) c = m"
      by (auto simp: zero_tag_dec_def split: if_splits)
    then show "zero_tag_enc k n a m = Some c" unfolding zero_tag_enc_def by (metis append_take_drop_id)
  qed (auto simp: zero_tag_dec_def zero_tag_enc_def)
  then show ?thesis by (auto simp: aead_contract_def zero_tag_enc_def)
qed


end
