(* ===== verification/Sql_Lexer.thy ===== *)
theory Sql_Lexer
  imports Errors
begin

text \<open>
  The SQL tokenizer (\<open>sql/lexer.rs\<close>) on the bytes of the statement. Floating-point literals are of
  an abstract type: \<open>parse_f64\<close> (\<open>str::parse::<f64>\<close>) and \<open>is_finite\<close> are parameters.
\<close>

datatype 'f token_kind =
    TIdent bytes
  | TQuotedIdent bytes
  | TString bytes
  | TInteger int
  | TFloat 'f
  | TParam "nat option"
  | TLParen | TRParen | TComma | TSemicolon | TStar | TDot
  | TEq | TNotEq | TLt | TLtEq | TGt | TGtEq

datatype 'f token = Token (tk_kind: "'f token_kind") (tk_offset: nat)

section \<open>Characters\<close>

definition is_space :: "u8 \<Rightarrow> bool" where
  "is_space b \<longleftrightarrow> b \<in> {9, 10, 12, 13, 32}"

definition is_digit :: "u8 \<Rightarrow> bool" where
  "is_digit b \<longleftrightarrow> 48 \<le> b \<and> b \<le> 57"

definition is_alpha :: "u8 \<Rightarrow> bool" where
  "is_alpha b \<longleftrightarrow> (65 \<le> b \<and> b \<le> 90) \<or> (97 \<le> b \<and> b \<le> 122)"

definition is_word :: "u8 \<Rightarrow> bool" where
  "is_word b \<longleftrightarrow> is_alpha b \<or> is_digit b \<or> b = 95"

definition to_lower :: "u8 \<Rightarrow> u8" where
  "to_lower b = (if 65 \<le> b \<and> b \<le> 90 then b + 32 else b)"

definition to_upper :: "u8 \<Rightarrow> u8" where
  "to_upper b = (if 97 \<le> b \<and> b \<le> 122 then b - 32 else b)"

definition kw :: "string \<Rightarrow> bytes" where
  "kw s = map of_char s"

definition eq_ignore_ascii_case :: "bytes \<Rightarrow> bytes \<Rightarrow> bool" where
  "eq_ignore_ascii_case a b \<longleftrightarrow> map to_lower a = map to_lower b"

definition is_keyword :: "bytes \<Rightarrow> 'f token_kind \<Rightarrow> bool" where
  "is_keyword word k = (case k of TIdent s \<Rightarrow> eq_ignore_ascii_case s word | _ \<Rightarrow> False)"

text \<open>A control character in UTF-8: C0, DEL, or C1 as \<open>C2 80\<close> to \<open>C2 9F\<close>.\<close>

fun has_control :: "bytes \<Rightarrow> bool" where
  "has_control [] = False"
| "has_control (b # bs) =
     (b < 32 \<or> b = 127 \<or> (b = 0xC2 \<and> (case bs of c # _ \<Rightarrow> 0x80 \<le> c \<and> c \<le> 0x9F | [] \<Rightarrow> False)) \<or> has_control bs)"

section \<open>Scanners\<close>

text \<open>After the opening of a block comment: the rest behind \<open>*/\<close>.\<close>

fun skip_block :: "bytes \<Rightarrow> bytes option" where
  "skip_block (a # b # r) = (if a = 42 \<and> b = 47 then Some r else skip_block (b # r))"
| "skip_block _ = None"

text \<open>After an opening quote: the unescaped text and the rest behind the closing quote.\<close>

fun quoted :: "u8 \<Rightarrow> bytes \<Rightarrow> (bytes \<times> bytes) res" where
  "quoted q [] = Inl InvalidArgument"
| "quoted q (b # r) =
     (if b = q then
        (case r of
           c # r' \<Rightarrow>
             if c = q then rbind (quoted q r') (\<lambda>(v, rest). Inr (q # v, rest)) else Inr ([], r)
         | [] \<Rightarrow> Inr ([], r))
      else rbind (quoted q r) (\<lambda>(v, rest). Inr (b # v, rest)))"

fun digits_value :: "bytes \<Rightarrow> nat \<Rightarrow> nat" where
  "digits_value [] n = n"
| "digits_value (d # ds) n = digits_value ds (n * 10 + (unat d - 48))"

text \<open>\<open>str::parse::<i64>\<close> on an optional minus sign and digits.\<close>

definition parse_i64 :: "bytes \<Rightarrow> int option" where
  "parse_i64 s =
     (let (neg, ds) = (case s of c # r \<Rightarrow> if c = 45 then (True, r) else (False, s) | [] \<Rightarrow> (False, s));
          v = (if neg then - int (digits_value ds 0) else int (digits_value ds 0))
      in if ds \<noteq> [] \<and> - (2 ^ 63) \<le> v \<and> v < 2 ^ 63 then Some v else None)"

definition starts_digit :: "bytes \<Rightarrow> bool" where
  "starts_digit r = (case r of d # _ \<Rightarrow> is_digit d | [] \<Rightarrow> False)"

definition fraction :: "bytes \<Rightarrow> bool \<times> bytes" where
  "fraction r =
     (case r of
        c # r' \<Rightarrow>
          if c = 46 then (if starts_digit r' then (True, dropWhile is_digit r') else (True, r')) else (False, r)
      | [] \<Rightarrow> (False, r))"

definition skip_sign :: "bytes \<Rightarrow> bytes" where
  "skip_sign r = (case r of c # r' \<Rightarrow> if c = 43 \<or> c = 45 then r' else r | [] \<Rightarrow> r)"

definition exponent :: "bytes \<Rightarrow> bool \<times> bytes" where
  "exponent r =
     (case r of
        c # r' \<Rightarrow>
          if (c = 101 \<or> c = 69) \<and> starts_digit (skip_sign r') then (True, dropWhile is_digit (skip_sign r'))
          else (False, r)
      | [] \<Rightarrow> (False, r))"

definition number :: "(bytes \<Rightarrow> 'f option) \<Rightarrow> ('f \<Rightarrow> bool) \<Rightarrow> bytes \<Rightarrow> ('f token_kind \<times> bytes) res" where
  "number parse_f64 is_finite bs =
     (let r1 = dropWhile is_digit (skip_sign bs);
          (frac, r2) = fraction r1;
          (ex, r3) = exponent r2
      in
      if (case r3 of c # _ \<Rightarrow> is_word c | [] \<Rightarrow> False) then Inl InvalidArgument
      else
        let txt = take (length bs - length r3) bs;
            digits = (case txt of c # t \<Rightarrow> if c = 43 then t else txt | [] \<Rightarrow> txt)
        in
        if frac \<or> ex then
          (case parse_f64 digits of
             None \<Rightarrow> Inl InvalidArgument
           | Some v \<Rightarrow> if is_finite v then Inr (TFloat v, r3) else Inl InvalidArgument)
        else
          (case parse_i64 digits of None \<Rightarrow> Inl InvalidArgument | Some v \<Rightarrow> Inr (TInteger v, r3)))"

definition punctuation :: "u8 \<Rightarrow> bytes \<Rightarrow> ('f token_kind \<times> bytes) res" where
  "punctuation c r =
     (let next_is = (\<lambda>b. case r of d # _ \<Rightarrow> d = b | [] \<Rightarrow> False) in
      if c = 40 then Inr (TLParen, r)
      else if c = 41 then Inr (TRParen, r)
      else if c = 44 then Inr (TComma, r)
      else if c = 59 then Inr (TSemicolon, r)
      else if c = 42 then Inr (TStar, r)
      else if c = 46 then Inr (TDot, r)
      else if c = 61 then Inr (TEq, r)
      else if c = 60 \<and> next_is 62 then Inr (TNotEq, tl r)
      else if c = 60 \<and> next_is 61 then Inr (TLtEq, tl r)
      else if c = 60 then Inr (TLt, r)
      else if c = 62 \<and> next_is 61 then Inr (TGtEq, tl r)
      else if c = 62 then Inr (TGt, r)
      else if c = 33 \<and> next_is 61 then Inr (TNotEq, tl r)
      else Inl InvalidArgument)"

definition param_token :: "bytes \<Rightarrow> ('f token_kind \<times> bytes) res" where
  "param_token r =
     (let ds = takeWhile is_digit r; rest = dropWhile is_digit r in
      if ds = [] then Inr (TParam None, rest)
      else
        let n = digits_value ds 0 in
        if n = 0 \<or> n > 65535 then Inl InvalidArgument else Inr (TParam (Some n), rest))"

section \<open>The tokenizer\<close>

text \<open>One round of the loop: a token or nothing (whitespace, comments), and the rest.\<close>

definition starts_number :: "u8 \<Rightarrow> bytes \<Rightarrow> bool" where
  "starts_number c r \<longleftrightarrow>
     is_digit c \<or>
     (c = 45 \<or> c = 43) \<and> (starts_digit r \<or> (case r of d # r' \<Rightarrow> d = 46 \<and> starts_digit r' | [] \<Rightarrow> False)) \<or>
     c = 46 \<and> starts_digit r"

definition next_token ::
  "(bytes \<Rightarrow> 'f option) \<Rightarrow> ('f \<Rightarrow> bool) \<Rightarrow> u8 \<Rightarrow> bytes \<Rightarrow> ('f token_kind option \<times> bytes) res" where
  "next_token parse_f64 is_finite c r =
     (let token = (\<lambda>x. rbind x (\<lambda>(k, rest). Inr (Some k, rest))) in
      if is_space c then Inr (None, r)
      else if c = 45 \<and> (case r of d # _ \<Rightarrow> d = 45 | [] \<Rightarrow> False) then Inr (None, dropWhile (\<lambda>b. b \<noteq> 10) r)
      else if c = 47 \<and> (case r of d # _ \<Rightarrow> d = 42 | [] \<Rightarrow> False) then
        (case skip_block (tl r) of None \<Rightarrow> Inl InvalidArgument | Some rest \<Rightarrow> Inr (None, rest))
      else if c = 39 then rbind (quoted 39 r) (\<lambda>(v, rest). Inr (Some (TString v), rest))
      else if c = 34 then
        rbind (quoted 34 r) (\<lambda>(v, rest). if has_control v then Inl InvalidArgument else Inr (Some (TQuotedIdent v), rest))
      else if starts_number c r then token (number parse_f64 is_finite (c # r))
      else if is_alpha c \<or> c = 95 then
        Inr (Some (TIdent (c # takeWhile is_word r)), dropWhile is_word r)
      else if c = 63 then token (param_token r)
      else token (punctuation c r))"

lemma skip_block_shorter: "skip_block bs = Some r \<Longrightarrow> length r < length bs"
  by (induction bs rule: skip_block.induct) (auto split: if_splits)

lemma quoted_shorter: "quoted q bs = Inr (v, r) \<Longrightarrow> length r < length bs"
proof (induction q bs arbitrary: v r rule: quoted.induct)
  case (2 q b bs)
  then show ?case
    by (cases "b = q"; cases bs) (fastforce simp: rbind_Inr_iff split: if_splits)+
qed simp

lemma dropWhile_shorter: "length (dropWhile P xs) \<le> length xs"
  by (rule length_dropWhile_le)

lemma fraction_shorter: "fraction r = (f, r') \<Longrightarrow> length r' \<le> length r"
  using dropWhile_shorter [of is_digit] by (fastforce simp: fraction_def split: list.splits if_splits intro: le_SucI)

lemma skip_sign_shorter: "length (skip_sign r) \<le> length r"
  by (simp add: skip_sign_def split: list.splits)

lemma exponent_shorter: "exponent r = (f, r') \<Longrightarrow> length r' \<le> length r"
proof -
  assume e: "exponent r = (f, r')"
  have "length (dropWhile is_digit (skip_sign s)) \<le> length s" for s
    using dropWhile_shorter [of is_digit "skip_sign s"] skip_sign_shorter [of s] by linarith
  then show ?thesis using e by (auto simp: exponent_def le_SucI split: list.splits if_splits)
qed

lemma number_shorter:
  assumes "number parse_f64 is_finite (c # r) = Inr (k, rest)" "starts_number c r"
  shows "length rest \<le> length r"
proof -
  let ?r1 = "dropWhile is_digit (skip_sign (c # r))"
  obtain f r2 where f: "fraction ?r1 = (f, r2)" by (cases "fraction ?r1")
  obtain x r3 where x: "exponent r2 = (x, r3)" by (cases "exponent r2")
  have "rest = r3"
    using assms(1) f x by (auto simp: number_def Let_def split: if_splits option.splits list.splits)
  then have le: "length rest \<le> length r2" using exponent_shorter [OF x] by simp
  show ?thesis
  proof (cases "is_digit c \<or> c = 43 \<or> c = 45")
    case True
    have nd: "\<not> is_digit 43" "\<not> is_digit 45" by (simp_all add: is_digit_def)
    have "length ?r1 \<le> length r"
      using True nd dropWhile_shorter [of is_digit r] by (auto simp: skip_sign_def)
    then show ?thesis using le fraction_shorter [OF f] by linarith
  next
    case False
    then have "c = 46" "starts_digit r" using assms(2) by (auto simp: starts_number_def)
    then have "r2 = dropWhile is_digit r" using f False by (simp add: skip_sign_def fraction_def is_digit_def)
    then show ?thesis using le dropWhile_shorter [of is_digit r] by simp
  qed
qed

lemma next_token_shorter:
  assumes "next_token parse_f64 is_finite c r = Inr (k, rest)"
  shows "length rest \<le> length r"
proof -
  have "length (tl r) \<le> length r" by simp
  moreover have "skip_block (tl r) = Some rest \<Longrightarrow> length rest \<le> length r" using skip_block_shorter [of "tl r" rest] by simp
  ultimately show ?thesis
    using assms dropWhile_shorter [of "\<lambda>b. b \<noteq> 10" r] dropWhile_shorter [of is_word r] dropWhile_shorter [of is_digit r]
      quoted_shorter [of _ r _ rest] number_shorter [of parse_f64 is_finite c r _ rest]
    by (auto simp: next_token_def Let_def rbind_Inr_iff punctuation_def param_token_def
        split: if_splits option.splits prod.splits dest!: less_imp_le)
qed


function tokenize_loop :: "(bytes \<Rightarrow> 'f option) \<Rightarrow> ('f \<Rightarrow> bool) \<Rightarrow> nat \<Rightarrow> bytes \<Rightarrow> 'f token list res" where
  "tokenize_loop parse_f64 is_finite off [] = Inr []"
| "tokenize_loop parse_f64 is_finite off (c # r) =
     (case next_token parse_f64 is_finite c r of
        Inl e \<Rightarrow> Inl e
      | Inr (k, rest) \<Rightarrow>
          rbind (tokenize_loop parse_f64 is_finite (off + 1 + length r - length rest) rest) (\<lambda>ts.
          Inr (case k of None \<Rightarrow> ts | Some kind \<Rightarrow> Token kind off # ts)))"
  by pat_completeness auto
termination
  by (relation "measure (\<lambda>(_, _, _, bs). length bs)") (auto dest!: next_token_shorter)

definition tokenize :: "(bytes \<Rightarrow> 'f option) \<Rightarrow> ('f \<Rightarrow> bool) \<Rightarrow> bytes \<Rightarrow> 'f token list res" where
  "tokenize parse_f64 is_finite sql = tokenize_loop parse_f64 is_finite 0 sql"

lemma next_token_error: "next_token parse_f64 is_finite c r = Inl e \<Longrightarrow> e = InvalidArgument"
proof -
  have "quoted q bs = Inl e \<Longrightarrow> e = InvalidArgument" for q bs
    by (induction q bs rule: quoted.induct) (auto simp: rbind_Inl_iff split: if_splits list.splits)
  then show "next_token parse_f64 is_finite c r = Inl e \<Longrightarrow> e = InvalidArgument"
    by (auto simp: next_token_def Let_def rbind_Inl_iff number_def param_token_def punctuation_def split: if_splits option.splits prod.splits)
qed

lemma tokenize_error: "tokenize parse_f64 is_finite sql = Inl e \<Longrightarrow> e = InvalidArgument"
proof -
  have "tokenize_loop parse_f64 is_finite off bs = Inl e \<Longrightarrow> e = InvalidArgument" for off bs
    by (induction parse_f64 is_finite off bs rule: tokenize_loop.induct)
      (auto simp: rbind_Inl_iff dest: next_token_error split: sum.splits prod.splits)
  then show "tokenize parse_f64 is_finite sql = Inl e \<Longrightarrow> e = InvalidArgument" by (simp add: tokenize_def)
qed

section \<open>Every token can be written\<close>

fun dec :: "nat \<Rightarrow> bytes" where
  "dec n = (if n < 10 then [of_nat (48 + n)] else dec (n div 10) @ [of_nat (48 + n mod 10)])"

declare dec.simps [simp del]

fun double_quote :: "u8 \<Rightarrow> bytes \<Rightarrow> bytes" where
  "double_quote q [] = []"
| "double_quote q (b # bs) = (if b = q then q # q # double_quote q bs else b # double_quote q bs)"

fun render :: "'f token_kind \<Rightarrow> bytes" where
  "render (TIdent s) = s"
| "render (TQuotedIdent s) = 34 # double_quote 34 s @ [34]"
| "render (TString s) = 39 # double_quote 39 s @ [39]"
| "render (TInteger i) = (if i < 0 then 45 # dec (nat (- i)) else dec (nat i))"
| "render (TFloat f) = []"
| "render (TParam None) = [63]"
| "render (TParam (Some n)) = 63 # dec n"
| "render TLParen = [40]" | "render TRParen = [41]" | "render TComma = [44]" | "render TSemicolon = [59]"
| "render TStar = [42]" | "render TDot = [46]" | "render TEq = [61]" | "render TNotEq = [60, 62]"
| "render TLt = [60]" | "render TLtEq = [60, 61]" | "render TGt = [62]" | "render TGtEq = [62, 61]"

text \<open>The tokens that have a spelling; that of a float is left to the formatter.\<close>

definition writable :: "'f token_kind \<Rightarrow> bool" where
  "writable k =
     (case k of
        TIdent s \<Rightarrow> s \<noteq> [] \<and> (is_alpha (hd s) \<or> hd s = 95) \<and> (\<forall>b \<in> set s. is_word b)
      | TQuotedIdent s \<Rightarrow> \<not> has_control s
      | TInteger i \<Rightarrow> - (2 ^ 63) \<le> i \<and> i < 2 ^ 63
      | TFloat _ \<Rightarrow> False
      | TParam (Some n) \<Rightarrow> 0 < n \<and> n \<le> 65535
      | _ \<Rightarrow> True)"

lemma quoted_double: "(case r of [] \<Rightarrow> True | c # _ \<Rightarrow> c \<noteq> q) \<Longrightarrow> quoted q (double_quote q s @ q # r) = Inr (s, r)"
  by (induction q s rule: double_quote.induct) (auto split: list.splits)

lemma is_digit_of_nat: "n < 10 \<Longrightarrow> is_digit (of_nat (48 + n))" "n < 10 \<Longrightarrow> unat (of_nat (48 + n) :: u8) = 48 + n"
proof -
  show u: "unat (of_nat (48 + n) :: u8) = 48 + n" if "n < 10" for n
    using that by (simp add: unat_of_nat del: of_nat_add)
  show "n < 10 \<Longrightarrow> is_digit (of_nat (48 + n))"
    using u by (simp add: is_digit_def word_le_nat_alt del: of_nat_add)
qed

lemma dec_digits: "\<forall>b \<in> set (dec n). is_digit b"
proof (induction n rule: dec.induct)
  case (1 n)
  then show ?case
    using is_digit_of_nat(1) [of n] is_digit_of_nat(1) [of "n mod 10"] by (subst dec.simps) (auto simp del: of_nat_add)
qed

lemma dec_nonempty: "dec n \<noteq> []"
  by (subst dec.simps) simp

lemma digits_value_append: "digits_value (a @ b) n = digits_value b (digits_value a n)"
  by (induction a arbitrary: n) auto

lemma digits_value_dec: "digits_value (dec n) 0 = n"
proof (induction n rule: dec.induct)
  case (1 n)
  show ?case
  proof (cases "n < 10")
    case True
    then show ?thesis using is_digit_of_nat(2) [of n] by (subst dec.simps) (simp del: of_nat_add)
  next
    case False
    have "n mod 10 < 10" by simp
    then show ?thesis
      using False 1 is_digit_of_nat(2) [of "n mod 10"] by (subst dec.simps) (simp add: digits_value_append del: of_nat_add)
  qed
qed

lemma takeWhile_digits:
  assumes "\<forall>b \<in> set ds. P b" "\<not> P 32"
  shows "takeWhile P (ds @ 32 # r) = ds" "dropWhile P (ds @ 32 # r) = 32 # r"
  using assms by (simp_all add: takeWhile_append dropWhile_append3 takeWhile_append2 dropWhile_append2)

lemma char_facts:
  "\<not> is_digit 32" "\<not> is_word 32" "\<not> is_digit 45" "\<not> is_digit 43" "\<not> is_digit 39" "\<not> is_digit 34" "\<not> is_digit 63"
  "\<not> is_digit 40" "\<not> is_digit 41" "\<not> is_digit 44" "\<not> is_digit 59" "\<not> is_digit 42" "\<not> is_digit 46" "\<not> is_digit 61" "\<not> is_digit 60" "\<not> is_digit 62"
  "\<not> is_alpha 40" "\<not> is_alpha 41" "\<not> is_alpha 44" "\<not> is_alpha 59" "\<not> is_alpha 42" "\<not> is_alpha 46" "\<not> is_alpha 61" "\<not> is_alpha 60" "\<not> is_alpha 62" "\<not> is_alpha 63"
  by (simp_all add: is_digit_def is_word_def is_alpha_def)


lemma digit_facts: "is_digit d \<Longrightarrow> \<not> is_space d \<and> d \<noteq> 45 \<and> d \<noteq> 43 \<and> d \<noteq> 47 \<and> d \<noteq> 39 \<and> d \<noteq> 34 \<and> d \<noteq> 46"
  by (auto simp: is_digit_def is_space_def)

lemma alpha_facts: "is_alpha d \<or> d = 95 \<Longrightarrow> \<not> is_space d \<and> d \<noteq> 45 \<and> d \<noteq> 43 \<and> d \<noteq> 47 \<and> d \<noteq> 39 \<and> d \<noteq> 34 \<and> d \<noteq> 46 \<and> \<not> is_digit d"
  by (auto simp: is_alpha_def is_digit_def is_space_def word_le_nat_alt)

lemma number_integer:
  assumes "\<forall>b \<in> set ds. is_digit b" "ds \<noteq> []" "sg = [] \<or> sg = [45]" "parse_i64 (sg @ ds) = Some v"
  shows "number parse_f64 is_finite (sg @ ds @ 32 # r) = Inr (TInteger v, 32 # r)"
proof -
  obtain d t where ds: "ds = d # t" using assms(2) by (cases ds) auto
  then have d: "d \<noteq> 43" "d \<noteq> 45" using assms(1) digit_facts by auto
  have r1: "dropWhile is_digit (skip_sign (sg @ ds @ 32 # r)) = 32 # r"
    using assms(3) d ds takeWhile_digits(2) [of ds is_digit r] assms(1) char_facts(1) by (auto simp: skip_sign_def)
  have text_eq: "(case sg @ ds of c # t \<Rightarrow> if c = 43 then t else sg @ ds | [] \<Rightarrow> sg @ ds) = sg @ ds"
    using assms(3) ds d by auto
  show ?thesis
    unfolding number_def r1 using assms(4) text_eq
    by (simp add: fraction_def exponent_def char_facts)
qed

lemma next_token_digits:
  assumes "writable (TInteger i)"
  shows "\<exists>c t. render (TInteger i) = c # t \<and> next_token parse_f64 is_finite c (t @ 32 # r) = Inr (Some (TInteger i), 32 # r)"
proof -
  define sg where "sg = (if i < 0 then [45 :: u8] else [])"
  define ds where "ds = dec (nat \<bar>i\<bar>)"
  have ds: "\<forall>b \<in> set ds. is_digit b" "ds \<noteq> []" by (simp_all add: ds_def dec_digits dec_nonempty)
  then obtain d ds' where d: "ds = d # ds'" "is_digit d" by (cases ds) auto
  have ren: "render (TInteger i) = sg @ ds" by (simp add: sg_def ds_def)
  have "parse_i64 (sg @ ds) = Some i"
    using assms d digit_facts [of d] digits_value_dec [of "nat \<bar>i\<bar>"]
    by (auto simp: parse_i64_def sg_def ds_def [symmetric] writable_def)
  then have n: "number parse_f64 is_finite (sg @ ds @ 32 # r) = Inr (TInteger i, 32 # r)"
    by (intro number_integer) (use ds in \<open>auto simp: sg_def\<close>)
  show ?thesis
  proof (cases "i < 0")
    case True
    then have sg: "sg = [45]" by (simp add: sg_def)
    have "next_token parse_f64 is_finite 45 (ds @ 32 # r) = Inr (Some (TInteger i), 32 # r)"
      using n d digit_facts [OF d(2)] unfolding next_token_def
      by (simp add: sg is_space_def starts_number_def starts_digit_def)
    then show ?thesis using ren sg by simp
  next
    case False
    then have sg: "sg = []" by (simp add: sg_def)
    have "next_token parse_f64 is_finite d (ds' @ 32 # r) = Inr (Some (TInteger i), 32 # r)"
      using n d digit_facts [OF d(2)] unfolding next_token_def by (simp add: sg starts_number_def)
    then show ?thesis using ren sg d(1) by simp
  qed
qed

lemma next_token_render:
  assumes "writable k"
  shows "\<exists>c t. render k = c # t \<and> next_token parse_f64 is_finite c (t @ 32 # r) = Inr (Some k, 32 # r)"
proof (cases k)
  case (TIdent s)
  then obtain c t where s: "s = c # t" "is_alpha c \<or> c = 95" "\<forall>b \<in> set t. is_word b"
    using assms by (cases s) (auto simp: writable_def)
  then show ?thesis
    using alpha_facts [OF s(2)] takeWhile_digits [of t is_word r] char_facts(2)
    by (simp add: TIdent next_token_def starts_number_def)
next
  case (TInteger i)
  then show ?thesis using next_token_digits assms by blast
next
  case (TParam p)
  show ?thesis
  proof (cases p)
    case None
    then show ?thesis
      by (simp add: TParam next_token_def param_token_def starts_number_def char_facts is_space_def)
  next
    case (Some n)
    then have "0 < n" "n \<le> 65535" using assms TParam by (auto simp: writable_def)
    then show ?thesis
      using takeWhile_digits [OF dec_digits char_facts(1), of n r] digits_value_dec [of n] dec_nonempty [of n]
      by (simp add: TParam Some next_token_def param_token_def starts_number_def char_facts is_space_def Let_def)
  qed
qed (use assms in \<open>simp_all add: next_token_def starts_number_def starts_digit_def char_facts is_space_def quoted_double writable_def punctuation_def Let_def\<close>)

definition render_all :: "'f token_kind list \<Rightarrow> bytes" where
  "render_all ks = concat (map (\<lambda>k. render k @ [32]) ks)"

lemma tokenize_render:
  assumes "\<forall>k \<in> set ks. writable k"
  shows "\<exists>ts. tokenize_loop parse_f64 is_finite off (render_all ks) = Inr ts \<and> map tk_kind ts = ks"
  using assms
proof (induction ks arbitrary: off)
  case (Cons k ks)
  obtain c t where ct: "render k = c # t" "next_token parse_f64 is_finite c (t @ 32 # render_all ks) = Inr (Some k, 32 # render_all ks)"
    using next_token_render Cons.prems by (metis list.set_intros(1))
  have sp: "next_token parse_f64 is_finite 32 x = Inr (None, x)" for x by (simp add: next_token_def is_space_def)
  have all: "render_all (k # ks) = c # t @ 32 # render_all ks" by (simp add: render_all_def ct(1))
  from Cons obtain ts where "tokenize_loop parse_f64 is_finite (off + 1 + length (t @ 32 # render_all ks) - length (32 # render_all ks) + 1 +
      length (render_all ks) - length (render_all ks)) (render_all ks) = Inr ts" "map tk_kind ts = ks" by (metis list.set_intros(2))
  then show ?case unfolding all by (simp add: ct(2) sp)
qed (simp add: render_all_def)

text \<open>The tokenizer reads back every token. A list of tokens written out (strings and quoted names
  with their quotes doubled, whatever bytes they contain) and separated by blanks is tokenized to
  exactly that list: no text inside a literal can end it early or start another token. All errors of
  the tokenizer are \<open>InvalidArgument\<close>.\<close>

lemma tokens_roundtrip:
  assumes "\<forall>k \<in> set ks. writable k"
  shows "(\<exists>ts. tokenize parse_f64 is_finite (render_all ks) = Inr ts \<and> map tk_kind ts = ks) \<and>
     (\<forall>sql e. tokenize parse_f64 is_finite sql = Inl e \<longrightarrow> e = InvalidArgument)"
  using tokenize_render [OF assms] tokenize_error unfolding tokenize_def by blast

end
