(* ===== verification/Sql_Ast.thy ===== *)
theory Sql_Ast
  imports Sql_Lexer
begin

text \<open>
  The SQL syntax tree (\<open>sql/ast.rs\<close>). Texts are their UTF-8 bytes; the floating-point type is a
  parameter \<open>'f\<close>, with its printers as arguments of the functions that use them.
\<close>

datatype 'f sql_value = VText bytes | VInteger int | VFloat 'f | VNull

definition type_name :: "'f sql_value \<Rightarrow> string" where
  "type_name v = (case v of VText _ \<Rightarrow> ''text'' | VInteger _ \<Rightarrow> ''integer'' | VFloat _ \<Rightarrow> ''float'' | VNull \<Rightarrow> ''null'')"

text \<open>\<open>i64::to_string\<close>.\<close>

definition int_string :: "int \<Rightarrow> bytes" where
  "int_string i = (if i < 0 then 45 # dec (nat (- i)) else dec (nat i))"

definition to_storage_string :: "('f \<Rightarrow> bytes) \<Rightarrow> 'f sql_value \<Rightarrow> bytes" where
  "to_storage_string display_f64 v =
     (case v of VText s \<Rightarrow> s | VInteger i \<Rightarrow> int_string i | VFloat f \<Rightarrow> display_f64 f | VNull \<Rightarrow> [])"

definition value_display :: "('f \<Rightarrow> bytes) \<Rightarrow> 'f sql_value \<Rightarrow> bytes" where
  "value_display debug_f64 v =
     (case v of
        VText s \<Rightarrow> 39 # double_quote 39 s @ [39]
      | VInteger i \<Rightarrow> int_string i
      | VFloat f \<Rightarrow> debug_f64 f
      | VNull \<Rightarrow> kw ''NULL'')"

datatype comparison_op = OpEq | OpNotEq | OpLt | OpLtEq | OpGt | OpGtEq

definition op_symbol :: "comparison_op \<Rightarrow> string" where
  "op_symbol op = (case op of OpEq \<Rightarrow> ''='' | OpNotEq \<Rightarrow> ''<>'' | OpLt \<Rightarrow> ''<'' | OpLtEq \<Rightarrow> ''<='' | OpGt \<Rightarrow> ''>'' | OpGtEq \<Rightarrow> ''>='')"

datatype 'f expr =
    Literal "'f sql_value"
  | Column bytes
  | Param nat
  | Compare "'f expr" comparison_op "'f expr"
  | AndE "'f expr" "'f expr"
  | OrE "'f expr" "'f expr"
  | NotE "'f expr"
  | IsNull "'f expr" bool
  | InList "'f expr" "'f expr list" bool
  | Between "'f expr" "'f expr" "'f expr" bool
  | Like "'f expr" "'f expr" bool bool

text \<open>The columns are pushed onto the list \<open>out\<close>.\<close>

fun expr_columns :: "'f expr \<Rightarrow> bytes list \<Rightarrow> bytes list" where
  "expr_columns (Column c) out = out @ [c]"
| "expr_columns (Literal _) out = out"
| "expr_columns (Param _) out = out"
| "expr_columns (Compare l _ r) out = expr_columns r (expr_columns l out)"
| "expr_columns (AndE l r) out = expr_columns r (expr_columns l out)"
| "expr_columns (OrE l r) out = expr_columns r (expr_columns l out)"
| "expr_columns (NotE e) out = expr_columns e out"
| "expr_columns (IsNull e _) out = expr_columns e out"
| "expr_columns (InList e es _) out = fold expr_columns es (expr_columns e out)"
| "expr_columns (Between e l h _) out = expr_columns h (expr_columns l (expr_columns e out))"
| "expr_columns (Like e p _ _) out = expr_columns p (expr_columns e out)"

datatype agg_func = AggCount | AggSum | AggAvg | AggMin | AggMax

definition agg_name :: "agg_func \<Rightarrow> string" where
  "agg_name f = (case f of AggCount \<Rightarrow> ''count'' | AggSum \<Rightarrow> ''sum'' | AggAvg \<Rightarrow> ''avg'' | AggMin \<Rightarrow> ''min'' | AggMax \<Rightarrow> ''max'')"

datatype select_item =
    Wildcard
  | ColumnItem bytes "bytes option"
  | Aggregate agg_func "bytes option" bool "bytes option"

datatype order_item = OrderItem (oi_column: bytes) (oi_desc: bool)

record column_def =
  cd_name :: bytes
  cd_data_type :: bytes
  cd_primary_key :: bool
  cd_not_null :: bool

datatype 'f statement =
    CreateTable bytes "column_def list" bool
  | DropTable bytes bool
  | Insert bytes "bytes list" "'f expr list list"
  | Select bytes "select_item list" "'f expr option" "bytes list" "order_item list" "nat option" "nat option"
  | Update bytes "(bytes \<times> 'f expr) list" "'f expr option"
  | Delete bytes "'f expr option"

definition statement_table :: "'f statement \<Rightarrow> bytes" where
  "statement_table st =
     (case st of CreateTable t _ _ \<Rightarrow> t | DropTable t _ \<Rightarrow> t | Insert t _ _ \<Rightarrow> t
      | Select t _ _ _ _ _ _ \<Rightarrow> t | Update t _ _ \<Rightarrow> t | Delete t _ \<Rightarrow> t)"

definition is_mutation :: "'f statement \<Rightarrow> bool" where
  "is_mutation st = (case st of Select _ _ _ _ _ _ _ \<Rightarrow> False | _ \<Rightarrow> True)"

definition kind_name :: "'f statement \<Rightarrow> string" where
  "kind_name st =
     (case st of CreateTable _ _ _ \<Rightarrow> ''create_table'' | DropTable _ _ \<Rightarrow> ''drop_table'' | Insert _ _ _ \<Rightarrow> ''insert''
      | Select _ _ _ _ _ _ _ \<Rightarrow> ''select'' | Update _ _ _ \<Rightarrow> ''update'' | Delete _ _ \<Rightarrow> ''delete'')"

end
