(* ===== verification/Sql_Parser.thy ===== *)
theory Sql_Parser
  imports Sql_Ast
begin

text \<open>
  The recursive-descent parser (\<open>sql/parser.rs\<close>). The parser state keeps the tokens from the
  current position on (\<open>tokens[pos..]\<close>; the tokens before it only serve messages). The \<open>while\<close> loops
  run on fuel, one more than the number of tokens left, and a loop that exceeds it is \<open>Diverge\<close>, which
  is shown not to happen. \<open>lower\<close> is \<open>str::to_lowercase\<close>.
\<close>

record 'f parser =
  p_rest :: "'f token list"
  p_next_param :: nat
  p_param_count :: nat

type_synonym ('f, 'a) parse = "('f parser, 'a) sres"

definition MAX_IDENT_LEN :: nat where
  "MAX_IDENT_LEN = 128"

definition RESERVED :: "bytes list" where
  "RESERVED = map kw
     [''select'', ''from'', ''where'', ''and'', ''or'', ''not'', ''insert'', ''into'', ''values'', ''update'', ''set'',
      ''delete'', ''create'', ''table'', ''drop'', ''order'', ''group'', ''by'', ''limit'', ''offset'', ''null'', ''is'',
      ''in'', ''between'', ''like'', ''ilike'', ''as'']"

section \<open>Token helpers\<close>

definition peek_at :: "nat \<Rightarrow> 'f parser \<Rightarrow> 'f token_kind option" where
  "peek_at ahead p = (if ahead < length (p_rest p) then Some (tk_kind (p_rest p ! ahead)) else None)"

definition peek :: "'f parser \<Rightarrow> 'f token_kind option" where
  "peek = peek_at 0"

text \<open>\<open>self.pos += n\<close>.\<close>

definition advance :: "nat \<Rightarrow> ('f, unit) parse" where
  "advance n = smod (\<lambda>p. p\<lparr>p_rest := drop n (p_rest p)\<rparr>)"

definition next_tok :: "('f, 'f token_kind option) parse" where
  "next_tok p = (Inr (peek p), p\<lparr>p_rest := drop 1 (p_rest p)\<rparr>)"

definition take_tok :: "('f, 'f token_kind) parse" where
  "take_tok = sbind next_tok (\<lambda>t. case t of Some k \<Rightarrow> sret k | None \<Rightarrow> serr InvalidArgument)"

definition peek_keyword :: "string \<Rightarrow> 'f parser \<Rightarrow> bool" where
  "peek_keyword word p = (case peek p of Some k \<Rightarrow> is_keyword (kw word) k | None \<Rightarrow> False)"

definition accept_keyword :: "string \<Rightarrow> ('f, bool) parse" where
  "accept_keyword word p = (if peek_keyword word p then (Inr True, p\<lparr>p_rest := drop 1 (p_rest p)\<rparr>) else (Inr False, p))"

definition accept_kind :: "'f token_kind \<Rightarrow> ('f, bool) parse" where
  "accept_kind k p = (if peek p = Some k then (Inr True, p\<lparr>p_rest := drop 1 (p_rest p)\<rparr>) else (Inr False, p))"

definition expect_keyword :: "string \<Rightarrow> ('f, unit) parse" where
  "expect_keyword word = sbind take_tok (\<lambda>k. if is_keyword (kw word) k then sret () else serr InvalidArgument)"

definition expect_kind :: "'f token_kind \<Rightarrow> ('f, unit) parse" where
  "expect_kind kind = sbind take_tok (\<lambda>k. if k = kind then sret () else serr InvalidArgument)"

text \<open>\<open>while\<close> a test that consumes a token succeeds, do the body.\<close>

fun while_accept :: "nat \<Rightarrow> ('s, bool) sres \<Rightarrow> ('a \<Rightarrow> ('s, 'a) sres) \<Rightarrow> 'a \<Rightarrow> ('s, 'a) sres" where
  "while_accept 0 test body x = serr Diverge"
| "while_accept (Suc n) test body x =
     sbind test (\<lambda>b. if b then sbind (body x) (while_accept n test body) else sret x)"

definition ploop :: "('f, bool) parse \<Rightarrow> ('a \<Rightarrow> ('f, 'a) parse) \<Rightarrow> 'a \<Rightarrow> ('f, 'a) parse" where
  "ploop test body x p = while_accept (Suc (length (p_rest p))) test body x p"

definition comma_separated :: "('f, 'a) parse \<Rightarrow> ('f, 'a list) parse" where
  "comma_separated item =
     sbind item (\<lambda>x. ploop (accept_kind TComma) (\<lambda>out. sbind item (\<lambda>y. sret (out @ [y]))) [x])"

definition expect_ident :: "('f, bytes) parse" where
  "expect_ident =
     sbind take_tok (\<lambda>k.
     sbind (case k of
        TIdent name \<Rightarrow> if map to_lower name \<in> set RESERVED then serr InvalidArgument else sret name
      | TQuotedIdent name \<Rightarrow> sret name
      | _ \<Rightarrow> serr InvalidArgument) (\<lambda>name.
     if name = [] \<or> length name > MAX_IDENT_LEN then serr InvalidArgument else sret name))"

definition param :: "nat option \<Rightarrow> ('f, nat) parse" where
  "param explicit p =
     (case explicit of
        Some n \<Rightarrow>
          if n = 0 then (Inl Panic, p)
          else (Inr (n - 1), p\<lparr>p_param_count := max (p_param_count p) (n - 1 + 1)\<rparr>)
      | None \<Rightarrow>
          (let i = p_next_param p in
           (Inr i, p\<lparr>p_next_param := p_next_param p + 1, p_param_count := max (p_param_count p) (i + 1)\<rparr>)))"

definition expect_value :: "('f, 'f expr) parse" where
  "expect_value =
     sbind take_tok (\<lambda>k.
     case k of
       TString s \<Rightarrow> sret (Literal (VText s))
     | TInteger i \<Rightarrow> sret (Literal (VInteger i))
     | TFloat f \<Rightarrow> sret (Literal (VFloat f))
     | TParam n \<Rightarrow> sbind (param n) (\<lambda>i. sret (Param i))
     | TIdent w \<Rightarrow> if eq_ignore_ascii_case w (kw ''null'') then sret (Literal VNull) else serr InvalidArgument
     | _ \<Rightarrow> serr InvalidArgument)"

section \<open>Expressions\<close>

definition parse_operand :: "('f, 'f expr) parse" where
  "parse_operand p =
     (case peek p of
        None \<Rightarrow> (Inl InvalidArgument, p)
      | Some (TIdent w) \<Rightarrow>
          if eq_ignore_ascii_case w (kw ''null'') then sbind (advance 1) (\<lambda>_. sret (Literal VNull)) p
          else sbind expect_ident (\<lambda>c. sret (Column c)) p
      | Some (TQuotedIdent _) \<Rightarrow> sbind expect_ident (\<lambda>c. sret (Column c)) p
      | _ \<Rightarrow> expect_value p)"

definition guard_depth :: "nat \<Rightarrow> unit res" where
  "guard_depth depth = (if depth > 256 then Inl InvalidArgument else Inr ())"

definition comparison_of :: "'f token_kind \<Rightarrow> comparison_op option" where
  "comparison_of k = (case k of TEq \<Rightarrow> Some OpEq | TNotEq \<Rightarrow> Some OpNotEq | TLt \<Rightarrow> Some OpLt | TLtEq \<Rightarrow> Some OpLtEq
     | TGt \<Rightarrow> Some OpGt | TGtEq \<Rightarrow> Some OpGtEq | _ \<Rightarrow> None)"

definition comparison_tail :: "'f expr \<Rightarrow> ('f, 'f expr) parse" where
  "comparison_tail left =
     sbind next_tok (\<lambda>t.
     sbind (case t of
        None \<Rightarrow> serr InvalidArgument
      | Some k \<Rightarrow> (case comparison_of k of None \<Rightarrow> serr InvalidArgument | Some op \<Rightarrow> sret op)) (\<lambda>op.
     sbind parse_operand (\<lambda>right.
     if right = Literal VNull \<and> op = OpEq then sret (IsNull left False)
     else if right = Literal VNull \<and> op = OpNotEq then sret (IsNull left True)
     else sret (Compare left op right))))"

definition like_tail :: "'f expr \<Rightarrow> bool \<Rightarrow> ('f, 'f expr) parse" where
  "like_tail left negated =
     sbind (accept_keyword ''like'') (\<lambda>like.
     if like then sbind parse_operand (\<lambda>pattern. sret (Like left pattern negated False))
     else
       sbind (accept_keyword ''ilike'') (\<lambda>ilike.
       if ilike then sbind parse_operand (\<lambda>pattern. sret (Like left pattern negated True))
       else comparison_tail left))"

definition in_tail :: "'f expr \<Rightarrow> bool \<Rightarrow> ('f, 'f expr) parse" where
  "in_tail left negated =
     sbind (accept_keyword ''in'') (\<lambda>b.
     if b then
       sbind (expect_kind TLParen) (\<lambda>_.
       sbind (comma_separated parse_operand) (\<lambda>list.
       sbind (expect_kind TRParen) (\<lambda>_. sret (InList left list negated))))
     else
       sbind (accept_keyword ''between'') (\<lambda>b.
       if b then
         sbind parse_operand (\<lambda>low.
         sbind (expect_keyword ''and'') (\<lambda>_.
         sbind parse_operand (\<lambda>high. sret (Between left low high negated))))
       else like_tail left negated))"

definition negation_ahead :: "'f parser \<Rightarrow> bool" where
  "negation_ahead p =
     (peek_keyword ''not'' p \<and>
      (case peek_at 1 p of
         Some k \<Rightarrow> list_ex (\<lambda>w. is_keyword (kw w) k) [''in'', ''between'', ''like'', ''ilike'']
       | None \<Rightarrow> False))"

definition predicate_tail :: "'f expr \<Rightarrow> ('f, 'f expr) parse" where
  "predicate_tail left =
     sbind (accept_keyword ''is'') (\<lambda>b.
     if b then
       sbind (accept_keyword ''not'') (\<lambda>negated.
       sbind (expect_keyword ''null'') (\<lambda>_. sret (IsNull left negated)))
     else
       sbind sget (\<lambda>p.
       if negation_ahead p then sbind (advance 1) (\<lambda>_. in_tail left True) else in_tail left False))"

function parse_or :: "nat \<Rightarrow> ('f, 'f expr) parse"
  and parse_and :: "nat \<Rightarrow> ('f, 'f expr) parse"
  and parse_not :: "nat \<Rightarrow> ('f, 'f expr) parse"
  and parse_predicate :: "nat \<Rightarrow> ('f, 'f expr) parse" where
  "parse_or depth =
     (case guard_depth depth of
        Inl e \<Rightarrow> serr e
      | Inr _ \<Rightarrow>
        sbind (parse_and (depth + 1)) (\<lambda>left.
        ploop (accept_keyword ''or'') (\<lambda>left. sbind (parse_and (depth + 1)) (\<lambda>right. sret (OrE left right))) left))"
| "parse_and depth =
     (case guard_depth depth of
        Inl e \<Rightarrow> serr e
      | Inr _ \<Rightarrow>
        sbind (parse_not (depth + 1)) (\<lambda>left.
        ploop (accept_keyword ''and'') (\<lambda>left. sbind (parse_not (depth + 1)) (\<lambda>right. sret (AndE left right))) left))"
| "parse_not depth =
     (case guard_depth depth of
        Inl e \<Rightarrow> serr e
      | Inr _ \<Rightarrow>
        sbind (accept_keyword ''not'') (\<lambda>b.
        if b then sbind (parse_not (depth + 1)) (\<lambda>e. sret (NotE e)) else parse_predicate (depth + 1)))"
| "parse_predicate depth =
     (case guard_depth depth of
        Inl e \<Rightarrow> serr e
      | Inr _ \<Rightarrow>
        sbind (accept_kind TLParen) (\<lambda>b.
        if b then
          sbind (parse_or (depth + 1)) (\<lambda>inner.
          sbind (expect_kind TRParen) (\<lambda>_. sret inner))
        else sbind parse_operand predicate_tail))"
  by pat_completeness auto

termination
  by (relation "measure (case_sum (case_sum (\<lambda>d. 257 - d) (\<lambda>d. 257 - d)) (case_sum (\<lambda>d. 257 - d) (\<lambda>d. 257 - d)))")
    (auto simp: guard_depth_def split: if_splits)

declare parse_or.simps [simp del] parse_and.simps [simp del] parse_not.simps [simp del] parse_predicate.simps [simp del]

definition parse_optional_where :: "('f, 'f expr option) parse" where
  "parse_optional_where =
     sbind (accept_keyword ''where'') (\<lambda>b. if \<not> b then sret None else sbind (parse_or 0) (\<lambda>e. sret (Some e)))"

section \<open>Statements\<close>

fun reject_duplicates_from :: "(bytes \<Rightarrow> bytes) \<Rightarrow> bytes list \<Rightarrow> bytes list \<Rightarrow> unit res" where
  "reject_duplicates_from lower earlier [] = Inr ()"
| "reject_duplicates_from lower earlier (name # names) =
     (if list_ex (\<lambda>n. lower n = lower name) earlier then Inl InvalidArgument
      else reject_duplicates_from lower (earlier @ [name]) names)"

definition reject_duplicates :: "(bytes \<Rightarrow> bytes) \<Rightarrow> bytes list \<Rightarrow> unit res" where
  "reject_duplicates lower names = reject_duplicates_from lower [] names"

definition expect_size :: "('f, bytes) parse" where
  "expect_size =
     sbind next_tok (\<lambda>t. case t of Some (TInteger n) \<Rightarrow> if n \<ge> 0 then sret (int_string n) else serr InvalidArgument | _ \<Rightarrow> serr InvalidArgument)"

text \<open>The size parameters of a type: the loop runs at most twice.\<close>

definition type_sizes :: "('f, bytes list) parse" where
  "type_sizes =
     sbind expect_size (\<lambda>a.
     sbind (accept_kind TComma) (\<lambda>more.
     if more then sbind expect_size (\<lambda>b. sret [a, b]) else sret [a]))"

fun join_comma :: "bytes list \<Rightarrow> bytes" where
  "join_comma [] = []"
| "join_comma [s] = s"
| "join_comma (s # ss) = s @ 44 # join_comma ss"

definition data_type_of :: "bytes \<Rightarrow> ('f, bytes) parse" where
  "data_type_of w =
     sbind (advance 1) (\<lambda>_.
     sbind (accept_kind TLParen) (\<lambda>b.
     if b then
       sbind type_sizes (\<lambda>sizes.
       sbind (expect_kind TRParen) (\<lambda>_. sret (map to_upper w @ 40 # join_comma sizes @ [41])))
     else sret (map to_upper w)))"

text \<open>One round of the loop over a column definition; \<open>None\<close> is \<open>break\<close>.\<close>

definition column_option :: "column_def \<Rightarrow> ('f, column_def option) parse" where
  "column_option d p =
     (case peek p of
        None \<Rightarrow> sret None p
      | Some (TIdent w) \<Rightarrow>
          if eq_ignore_ascii_case w (kw ''primary'') then
            sbind (advance 1) (\<lambda>_. sbind (expect_keyword ''key'') (\<lambda>_. sret (Some (d\<lparr>cd_primary_key := True\<rparr>)))) p
          else if eq_ignore_ascii_case w (kw ''not'') then
            sbind (advance 1) (\<lambda>_. sbind (expect_keyword ''null'') (\<lambda>_. sret (Some (d\<lparr>cd_not_null := True\<rparr>)))) p
          else if cd_data_type d = [] then
            sbind (data_type_of w) (\<lambda>t. sret (Some (d\<lparr>cd_data_type := t\<rparr>))) p
          else serr InvalidArgument p
      | Some TComma \<Rightarrow> sret None p
      | Some TRParen \<Rightarrow> sret None p
      | _ \<Rightarrow> serr InvalidArgument p)"

fun column_loop :: "nat \<Rightarrow> column_def \<Rightarrow> ('f, column_def) parse" where
  "column_loop 0 d = serr Diverge"
| "column_loop (Suc n) d =
     sbind (column_option d) (\<lambda>r. case r of None \<Rightarrow> sret d | Some d' \<Rightarrow> column_loop n d')"

definition parse_column_def :: "('f, column_def) parse" where
  "parse_column_def =
     sbind expect_ident (\<lambda>name.
     sbind sget (\<lambda>p.
     column_loop (Suc (length (p_rest p)))
       \<lparr>cd_name = name, cd_data_type = [], cd_primary_key = False, cd_not_null = False\<rparr>))"

definition parse_create :: "('f, 'f statement) parse" where
  "parse_create =
     sbind (expect_keyword ''create'') (\<lambda>_.
     sbind (expect_keyword ''table'') (\<lambda>_.
     sbind (accept_keyword ''if'') (\<lambda>if_not_exists.
     sbind (if if_not_exists then sbind (expect_keyword ''not'') (\<lambda>_. expect_keyword ''exists'') else sret ()) (\<lambda>_.
     sbind expect_ident (\<lambda>table.
     sbind (expect_kind TLParen) (\<lambda>_.
     sbind (comma_separated parse_column_def) (\<lambda>columns.
     sbind (expect_kind TRParen) (\<lambda>_.
     sret (CreateTable table columns if_not_exists)))))))))"

definition parse_drop :: "('f, 'f statement) parse" where
  "parse_drop =
     sbind (expect_keyword ''drop'') (\<lambda>_.
     sbind (expect_keyword ''table'') (\<lambda>_.
     sbind (accept_keyword ''if'') (\<lambda>if_exists.
     sbind (if if_exists then expect_keyword ''exists'' else sret ()) (\<lambda>_.
     sbind expect_ident (\<lambda>table. sret (DropTable table if_exists))))))"

definition parse_values_row :: "('f, 'f expr list) parse" where
  "parse_values_row =
     sbind (expect_kind TLParen) (\<lambda>_.
     sbind (comma_separated expect_value) (\<lambda>row.
     sbind (expect_kind TRParen) (\<lambda>_. sret row)))"

definition insert_columns :: "(bytes \<Rightarrow> bytes) \<Rightarrow> ('f, bytes list) parse" where
  "insert_columns lower =
     sbind (accept_kind TLParen) (\<lambda>b.
     if b then
       sbind (comma_separated expect_ident) (\<lambda>columns.
       sbind (expect_kind TRParen) (\<lambda>_.
       sbind (slift (reject_duplicates lower columns)) (\<lambda>_. sret columns)))
     else sret [])"

definition parse_insert :: "(bytes \<Rightarrow> bytes) \<Rightarrow> ('f, 'f statement) parse" where
  "parse_insert lower =
     sbind (expect_keyword ''insert'') (\<lambda>_.
     sbind (expect_keyword ''into'') (\<lambda>_.
     sbind expect_ident (\<lambda>table.
     sbind (insert_columns lower) (\<lambda>columns.
     sbind (expect_keyword ''values'') (\<lambda>_.
     sbind (comma_separated parse_values_row) (\<lambda>rows.
     if columns \<noteq> [] \<and> list_ex (\<lambda>r. length r \<noteq> length columns) rows then serr InvalidArgument
     else sret (Insert table columns rows)))))))"

definition parse_alias :: "('f, bytes option) parse" where
  "parse_alias =
     sbind (accept_keyword ''as'') (\<lambda>b. if b then sbind expect_ident (\<lambda>a. sret (Some a)) else sret None)"

definition agg_of :: "bytes \<Rightarrow> agg_func option" where
  "agg_of w =
     (let l = map to_lower w in
      if l = kw ''count'' then Some AggCount else if l = kw ''sum'' then Some AggSum
      else if l = kw ''avg'' then Some AggAvg else if l = kw ''min'' then Some AggMin
      else if l = kw ''max'' then Some AggMax else None)"

definition parse_aggregate :: "agg_func \<Rightarrow> ('f, select_item) parse" where
  "parse_aggregate func =
     sbind (advance 2) (\<lambda>_.
     sbind (accept_keyword ''distinct'') (\<lambda>distinct.
     sbind (accept_kind TStar) (\<lambda>star.
     sbind (if star then (if func \<noteq> AggCount \<or> distinct then serr InvalidArgument else sret None)
            else sbind expect_ident (\<lambda>c. sret (Some c))) (\<lambda>column.
     sbind (expect_kind TRParen) (\<lambda>_.
     sbind parse_alias (\<lambda>alias. sret (Aggregate func column distinct alias)))))))"

definition parse_select_item :: "('f, select_item) parse" where
  "parse_select_item p =
     (case (peek p, peek_at 1 p) of
        (Some (TIdent w), Some TLParen) \<Rightarrow>
          (case agg_of w of None \<Rightarrow> serr InvalidArgument p | Some func \<Rightarrow> parse_aggregate func p)
      | _ \<Rightarrow> sbind expect_ident (\<lambda>name. sbind parse_alias (\<lambda>alias. sret (ColumnItem name alias))) p)"

definition expect_count :: "('f, nat) parse" where
  "expect_count =
     sbind next_tok (\<lambda>t. case t of Some (TInteger n) \<Rightarrow> if n < 0 then serr InvalidArgument else sret (nat n) | _ \<Rightarrow> serr InvalidArgument)"

definition parse_order_item :: "('f, order_item) parse" where
  "parse_order_item =
     sbind expect_ident (\<lambda>column.
     sbind (accept_keyword ''desc'') (\<lambda>desc.
     if desc then sret (OrderItem column True)
     else sbind (accept_keyword ''asc'') (\<lambda>_. sret (OrderItem column False))))"

definition optional_count :: "string \<Rightarrow> ('f, nat option) parse" where
  "optional_count word = sbind (accept_keyword word) (\<lambda>b. if b then sbind expect_count (\<lambda>n. sret (Some n)) else sret None)"

definition optional_list :: "string \<Rightarrow> ('f, 'a) parse \<Rightarrow> ('f, 'a list) parse" where
  "optional_list word item =
     sbind (accept_keyword word) (\<lambda>b. if b then sbind (expect_keyword ''by'') (\<lambda>_. comma_separated item) else sret [])"

definition parse_select :: "('f, 'f statement) parse" where
  "parse_select =
     sbind (expect_keyword ''select'') (\<lambda>_.
     sbind (accept_kind TStar) (\<lambda>star.
     sbind (if star then sret [Wildcard] else comma_separated parse_select_item) (\<lambda>items.
     sbind (expect_keyword ''from'') (\<lambda>_.
     sbind expect_ident (\<lambda>table.
     sbind parse_optional_where (\<lambda>filter.
     sbind (optional_list ''group'' expect_ident) (\<lambda>group_by.
     sbind (optional_list ''order'' parse_order_item) (\<lambda>order_by.
     sbind (optional_count ''limit'') (\<lambda>limit.
     sbind (optional_count ''offset'') (\<lambda>offset.
     sret (Select table items filter group_by order_by limit offset)))))))))))"

definition parse_assignment :: "('f, bytes \<times> 'f expr) parse" where
  "parse_assignment =
     sbind expect_ident (\<lambda>column.
     sbind (expect_kind TEq) (\<lambda>_.
     sbind expect_value (\<lambda>v. sret (column, v))))"

definition parse_update :: "(bytes \<Rightarrow> bytes) \<Rightarrow> ('f, 'f statement) parse" where
  "parse_update lower =
     sbind (expect_keyword ''update'') (\<lambda>_.
     sbind expect_ident (\<lambda>table.
     sbind (expect_keyword ''set'') (\<lambda>_.
     sbind (comma_separated parse_assignment) (\<lambda>assignments.
     sbind (slift (reject_duplicates lower (map fst assignments))) (\<lambda>_.
     sbind parse_optional_where (\<lambda>filter. sret (Update table assignments filter)))))))"

definition parse_delete :: "('f, 'f statement) parse" where
  "parse_delete =
     sbind (expect_keyword ''delete'') (\<lambda>_.
     sbind (expect_keyword ''from'') (\<lambda>_.
     sbind expect_ident (\<lambda>table.
     sbind parse_optional_where (\<lambda>filter. sret (Delete table filter)))))"

definition parse_statement :: "(bytes \<Rightarrow> bytes) \<Rightarrow> ('f, 'f statement) parse" where
  "parse_statement lower p =
     (case peek p of
        Some (TIdent word) \<Rightarrow>
          (let w = map to_upper word in
           if w = kw ''CREATE'' then parse_create p
           else if w = kw ''DROP'' then parse_drop p
           else if w = kw ''INSERT'' then parse_insert lower p
           else if w = kw ''SELECT'' then parse_select p
           else if w = kw ''UPDATE'' then parse_update lower p
           else if w = kw ''DELETE'' then parse_delete p
           else (Inl InvalidArgument, p))
      | _ \<Rightarrow> (Inl InvalidArgument, p))"

definition parse_with_params ::
  "(bytes \<Rightarrow> 'f option) \<Rightarrow> ('f \<Rightarrow> bool) \<Rightarrow> (bytes \<Rightarrow> bytes) \<Rightarrow> bytes \<Rightarrow> ('f statement \<times> nat) res" where
  "parse_with_params parse_f64 is_finite lower sql =
     rbind (tokenize parse_f64 is_finite sql) (\<lambda>tokens.
     if tokens = [] then Inl InvalidArgument
     else
       fst (sbind (parse_statement lower) (\<lambda>st.
            sbind (accept_kind TSemicolon) (\<lambda>_.
            sbind sget (\<lambda>p.
            if peek p \<noteq> None then serr InvalidArgument else sret (st, p_param_count p))))
         \<lparr>p_rest = tokens, p_next_param = 0, p_param_count = 0\<rparr>))"

definition parse :: "(bytes \<Rightarrow> 'f option) \<Rightarrow> ('f \<Rightarrow> bool) \<Rightarrow> (bytes \<Rightarrow> bytes) \<Rightarrow> bytes \<Rightarrow> 'f statement res" where
  "parse parse_f64 is_finite lower sql = rbind (parse_with_params parse_f64 is_finite lower sql) (\<lambda>(st, _). Inr st)"

end
