(* ===== verification/Sql_Parse_Props.thy ===== *)
theory Sql_Parse_Props
  imports Sql_Parser
begin

text \<open>
  What the parser accepts: it always returns, its only error is \<open>InvalidArgument\<close>, the parameter count
  is exact, and the statements it builds are the ones the executor expects.
\<close>

section \<open>Well-formed statements\<close>

definition name_ok :: "bytes \<Rightarrow> bool" where
  "name_ok c \<longleftrightarrow> c \<noteq> [] \<and> length c \<le> MAX_IDENT_LEN"

fun wf_value :: "'f expr \<Rightarrow> bool" where
  "wf_value (Literal _) = True"
| "wf_value (Param _) = True"
| "wf_value _ = False"

fun wf_operand :: "'f expr \<Rightarrow> bool" where
  "wf_operand (Column c) = name_ok c"
| "wf_operand e = wf_value e"

fun wf_cond :: "'f expr \<Rightarrow> bool" where
  "wf_cond (Compare l op r) \<longleftrightarrow> wf_operand l \<and> wf_operand r \<and> (r = Literal VNull \<longrightarrow> op \<notin> {OpEq, OpNotEq})"
| "wf_cond (AndE a b) \<longleftrightarrow> wf_cond a \<and> wf_cond b"
| "wf_cond (OrE a b) \<longleftrightarrow> wf_cond a \<and> wf_cond b"
| "wf_cond (NotE a) \<longleftrightarrow> wf_cond a"
| "wf_cond (IsNull e _) \<longleftrightarrow> wf_operand e"
| "wf_cond (InList e es _) \<longleftrightarrow> wf_operand e \<and> es \<noteq> [] \<and> list_all wf_operand es"
| "wf_cond (Between e l h _) \<longleftrightarrow> wf_operand e \<and> wf_operand l \<and> wf_operand h"
| "wf_cond (Like e p _ _) \<longleftrightarrow> wf_operand e \<and> wf_operand p"
| "wf_cond _ \<longleftrightarrow> False"

fun expr_params :: "'f expr \<Rightarrow> nat set" where
  "expr_params (Literal _) = {}"
| "expr_params (Column _) = {}"
| "expr_params (Param i) = {i}"
| "expr_params (Compare l _ r) = expr_params l \<union> expr_params r"
| "expr_params (AndE l r) = expr_params l \<union> expr_params r"
| "expr_params (OrE l r) = expr_params l \<union> expr_params r"
| "expr_params (NotE e) = expr_params e"
| "expr_params (IsNull e _) = expr_params e"
| "expr_params (InList e es _) = expr_params e \<union> (\<Union>x \<in> set es. expr_params x)"
| "expr_params (Between e l h _) = expr_params e \<union> expr_params l \<union> expr_params h"
| "expr_params (Like e p _ _) = expr_params e \<union> expr_params p"

definition filter_params :: "'f expr option \<Rightarrow> nat set" where
  "filter_params f = (case f of None \<Rightarrow> {} | Some e \<Rightarrow> expr_params e)"

definition wf_filter :: "'f expr option \<Rightarrow> bool" where
  "wf_filter f = (case f of None \<Rightarrow> True | Some e \<Rightarrow> wf_cond e)"

definition statement_params :: "'f statement \<Rightarrow> nat set" where
  "statement_params st =
     (case st of
        Insert _ _ rows \<Rightarrow> (\<Union>row \<in> set rows. \<Union>e \<in> set row. expr_params e)
      | Select _ _ f _ _ _ _ \<Rightarrow> filter_params f
      | Update _ as f \<Rightarrow> (\<Union>a \<in> set as. expr_params (snd a)) \<union> filter_params f
      | Delete _ f \<Rightarrow> filter_params f
      | _ \<Rightarrow> {})"

definition wf_item :: "select_item \<Rightarrow> bool" where
  "wf_item i =
     (case i of
        Wildcard \<Rightarrow> False
      | ColumnItem n a \<Rightarrow> name_ok n \<and> pred_option name_ok a
      | Aggregate f c d a \<Rightarrow> pred_option name_ok c \<and> pred_option name_ok a \<and> (c = None \<longrightarrow> f = AggCount \<and> \<not> d))"

definition wf_statement :: "(bytes \<Rightarrow> bytes) \<Rightarrow> 'f statement \<Rightarrow> bool" where
  "wf_statement lower st \<longleftrightarrow>
     name_ok (statement_table st) \<and>
     (case st of
        CreateTable _ cs _ \<Rightarrow> cs \<noteq> [] \<and> list_all (\<lambda>c. name_ok (cd_name c)) cs
      | DropTable _ _ \<Rightarrow> True
      | Insert _ cs rows \<Rightarrow>
          list_all name_ok cs \<and> distinct (map lower cs) \<and> rows \<noteq> [] \<and>
          list_all (\<lambda>r. r \<noteq> [] \<and> list_all wf_value r \<and> (cs \<noteq> [] \<longrightarrow> length r = length cs)) rows
      | Select _ items f gs os _ _ \<Rightarrow>
          (items = [Wildcard] \<or> items \<noteq> [] \<and> list_all wf_item items) \<and> wf_filter f \<and>
          list_all name_ok gs \<and> list_all (name_ok \<circ> oi_column) os
      | Update _ as f \<Rightarrow>
          as \<noteq> [] \<and> list_all (\<lambda>(c, e). name_ok c \<and> wf_value e) as \<and> distinct (map (lower \<circ> fst) as) \<and> wf_filter f
      | Delete _ f \<Rightarrow> wf_filter f)"

section \<open>A logic for the parser\<close>

definition tok_ok :: "'f token_kind \<Rightarrow> bool" where
  "tok_ok k = (case k of TParam (Some n) \<Rightarrow> 0 < n | _ \<Rightarrow> True)"

text \<open>\<open>pspec m Q\<close>: on valid tokens, \<open>m\<close> fails with \<open>InvalidArgument\<close>, or consumes some tokens, counts the
  parameters of a set \<open>L\<close>, and its result satisfies \<open>Q\<close> with \<open>L\<close>.\<close>

definition toks_ok :: "'f parser \<Rightarrow> bool" where
  "toks_ok p \<longleftrightarrow> (\<forall>t \<in> set (p_rest p). tok_ok (tk_kind t))"

definition counted :: "'f parser \<Rightarrow> 'f parser \<Rightarrow> nat set \<Rightarrow> bool" where
  "counted p p' L \<longleftrightarrow> (\<exists>k. p_rest p' = drop k (p_rest p)) \<and> finite L \<and>
     p_param_count p' = Max (insert (p_param_count p) (Suc ` L))"

definition pspec :: "('f, 'a) parse \<Rightarrow> ('a \<Rightarrow> nat set \<Rightarrow> bool) \<Rightarrow> bool" where
  "pspec m Q \<longleftrightarrow>
     (\<forall>p e p'. toks_ok p \<and> m p = (Inl e, p') \<longrightarrow> e = InvalidArgument) \<and>
     (\<forall>p x p'. toks_ok p \<and> m p = (Inr x, p') \<longrightarrow> (\<exists>L. counted p p' L \<and> Q x L))"

lemma counted_refl: "counted p p {}"
  by (auto simp: counted_def intro: exI [of _ 0])

lemma counted_drop: "p_rest p' = drop k (p_rest p) \<Longrightarrow> p_param_count p' = p_param_count p \<Longrightarrow> counted p p' {}"
  by (auto simp: counted_def)

lemma counted_trans: "counted p q A \<Longrightarrow> counted q r B \<Longrightarrow> counted p r (A \<union> B)"
  unfolding counted_def
proof (intro conjI; elim conjE exE)
  fix k l assume r: "p_rest q = drop k (p_rest p)" "p_rest r = drop l (p_rest q)"
  then show "\<exists>k. p_rest r = drop k (p_rest p)" by (auto simp: drop_drop)
next
  fix k l assume "finite A" "finite B"
  then show "finite (A \<union> B)" by simp
next
  fix k l assume f: "finite A" "finite B" "p_param_count q = Max (insert (p_param_count p) (Suc ` A))"
    "p_param_count r = Max (insert (p_param_count q) (Suc ` B))"
  have "insert (p_param_count p) (Suc ` (A \<union> B)) = insert (p_param_count p) (Suc ` A) \<union> Suc ` B" by auto
  then show "p_param_count r = Max (insert (p_param_count p) (Suc ` (A \<union> B)))"
    using f by (cases "B = {}") (simp_all only: Max_Un Max_insert finite_imageI finite_insert image_is_empty insert_not_empty Max_singleton simp_thms, simp_all)
qed

lemma counted_toks: "counted p q L \<Longrightarrow> toks_ok p \<Longrightarrow> toks_ok q"
  unfolding counted_def toks_ok_def by (metis in_set_dropD)

lemma counted_length: "counted p q L \<Longrightarrow> length (p_rest q) \<le> length (p_rest p)"
  by (auto simp: counted_def)

lemma pspecD:
  assumes "pspec m Q" "toks_ok p" "m p = (Inr x, p')"
  obtains L where "counted p p' L" "Q x L"
  using assms unfolding pspec_def by blast

lemma pspecD_err: "pspec m Q \<Longrightarrow> toks_ok p \<Longrightarrow> m p = (Inl e, p') \<Longrightarrow> e = InvalidArgument"
  unfolding pspec_def by blast

lemma pspecI:
  assumes "\<And>p e p'. toks_ok p \<Longrightarrow> m p = (Inl e, p') \<Longrightarrow> e = InvalidArgument"
    and "\<And>p x p'. toks_ok p \<Longrightarrow> m p = (Inr x, p') \<Longrightarrow> \<exists>L. counted p p' L \<and> Q x L"
  shows "pspec m Q"
  using assms unfolding pspec_def by blast

lemma pspec_bind:
  assumes m: "pspec m Q1" and f: "\<And>x L. finite L \<Longrightarrow> Q1 x L \<Longrightarrow> pspec (f x) (\<lambda>y L'. Q y (L \<union> L'))"
  shows "pspec (sbind m f) Q"
proof (rule pspecI)
  fix p e p' assume ok: "toks_ok p" and "sbind m f p = (Inl e, p')"
  then consider "m p = (Inl e, p')" | x q where "m p = (Inr x, q)" "f x q = (Inl e, p')" by (auto simp: sbind_Inl_iff)
  then show "e = InvalidArgument"
  proof cases
    case 1 then show ?thesis by (rule pspecD_err [OF m ok])
  next
    case 2
    obtain L where "counted p q L" "Q1 x L" by (rule pspecD [OF m ok 2(1)])
    then have "toks_ok q" "finite L" using counted_toks ok by (blast, simp add: counted_def)
    then show ?thesis using pspecD_err [OF f _ 2(2)] \<open>Q1 x L\<close> by blast
  qed
next
  fix p y p' assume ok: "toks_ok p" and "sbind m f p = (Inr y, p')"
  then obtain x q where r: "m p = (Inr x, q)" "f x q = (Inr y, p')" by (auto simp: sbind_Inr_iff)
  obtain L where L: "counted p q L" "Q1 x L" by (rule pspecD [OF m ok r(1)])
  have "pspec (f x) (\<lambda>y L'. Q y (L \<union> L'))" using f L by (simp add: counted_def)
  then obtain L' where "counted q p' L'" "Q y (L \<union> L')" using counted_toks [OF L(1) ok] r(2) by (rule pspecD)
  then show "\<exists>L. counted p p' L \<and> Q y L" using counted_trans [OF L(1)] by blast
qed

lemma pspec_mono: "pspec m Q \<Longrightarrow> (\<And>x L. finite L \<Longrightarrow> Q x L \<Longrightarrow> Q' x L) \<Longrightarrow> pspec m Q'"
  unfolding pspec_def counted_def by blast

lemma pspec_ret [intro!]: "Q x {} \<Longrightarrow> pspec (sret x) Q"
  by (rule pspecI) (auto intro: counted_refl)

lemma pspec_err [intro!]: "pspec (serr InvalidArgument) Q"
  by (rule pspecI) auto

lemma pspec_get: "(\<And>p. pspec (f p) Q) \<Longrightarrow> pspec (sbind sget f) Q"
  unfolding pspec_def sbind_def by (simp add: sget_def) blast

lemma pspec_lift: "(\<And>e. r = Inl e \<Longrightarrow> e = InvalidArgument) \<Longrightarrow> (\<And>x. r = Inr x \<Longrightarrow> Q x {}) \<Longrightarrow> pspec (slift r) Q"
  by (rule pspecI) (auto intro: counted_refl)

section \<open>The token helpers\<close>

lemma advance_spec: "pspec (advance n) (\<lambda>_ L. L = {})"
  by (rule pspecI) (auto simp: advance_def intro!: counted_drop exI)

lemma peek_tok_ok: "toks_ok p \<Longrightarrow> peek p = Some k \<Longrightarrow> tok_ok k"
  by (auto simp: peek_def peek_at_def toks_ok_def split: if_splits)

lemma next_spec: "pspec next_tok (\<lambda>k L. L = {} \<and> pred_option tok_ok k)"
  by (rule pspecI) (auto simp: next_tok_def pred_option_def intro!: counted_drop dest: peek_tok_ok)

lemma take_spec: "pspec take_tok (\<lambda>k L. L = {} \<and> tok_ok k)"
  unfolding take_tok_def by (rule pspec_bind [OF next_spec]) (auto split: option.split)

lemma accept_keyword_spec: "pspec (accept_keyword w) (\<lambda>_ L. L = {})"
  by (rule pspecI) (auto simp: accept_keyword_def counted_refl counted_drop [of _ 1] split: if_splits)

lemma accept_kind_spec: "pspec (accept_kind k) (\<lambda>_ L. L = {})"
  by (rule pspecI) (auto simp: accept_kind_def counted_refl counted_drop [of _ 1] split: if_splits)

text \<open>A test of a loop that holds has consumed a token.\<close>

definition consuming :: "('f, bool) parse \<Rightarrow> bool" where
  "consuming t \<longleftrightarrow> pspec t (\<lambda>_ L. L = {}) \<and> (\<forall>p p'. t p = (Inr True, p') \<longrightarrow> length (p_rest p') < length (p_rest p))"

lemma consuming_accept: "consuming (accept_keyword w)" "consuming (accept_kind k)"
  by (auto simp: consuming_def accept_keyword_spec accept_kind_spec accept_keyword_def accept_kind_def peek_keyword_def
      peek_def peek_at_def split: if_splits option.splits)

lemma expect_keyword_spec: "pspec (expect_keyword w) (\<lambda>_ L. L = {})"
  unfolding expect_keyword_def by (rule pspec_bind [OF take_spec]) auto

lemma expect_kind_spec: "pspec (expect_kind k) (\<lambda>_ L. L = {})"
  unfolding expect_kind_def by (rule pspec_bind [OF take_spec]) auto

lemma while_accept_spec:
  assumes t: "consuming test" and b: "\<And>x L. finite L \<Longrightarrow> I x L \<Longrightarrow> pspec (body x) (\<lambda>y L'. I y (L \<union> L'))"
  shows "toks_ok p \<Longrightarrow> finite L \<Longrightarrow> I x L \<Longrightarrow> length (p_rest p) < n \<Longrightarrow> while_accept n test body x p = (r, p') \<Longrightarrow>
    (case r of Inl e \<Rightarrow> e = InvalidArgument | Inr y \<Rightarrow> \<exists>L'. counted p p' L' \<and> I y (L \<union> L'))"
proof (induction n arbitrary: p x L)
  case (Suc n)
  have ts: "pspec test (\<lambda>_ L. L = {})" and tc: "\<And>p p'. test p = (Inr True, p') \<Longrightarrow> length (p_rest p') < length (p_rest p)"
    using t by (auto simp: consuming_def)
  note bs = b [OF Suc.prems(2,3)]
  show ?case
  proof (cases "\<exists>e q. test p = (Inl e, q)")
    case True
    then show ?thesis using Suc.prems(5) pspecD_err [OF ts Suc.prems(1)] by (auto simp: sbind_def)
  next
    case False
    then obtain c q where q: "test p = (Inr c, q)" by (cases "test p"; cases "fst (test p)") auto
    then have cq: "counted p q {}" using pspecD [OF ts Suc.prems(1) q] by auto
    note ok = counted_toks [OF cq Suc.prems(1)]
    show ?thesis
    proof (cases "c \<and> (\<exists>y q'. body x q = (Inr y, q'))")
      case False
      then show ?thesis using Suc.prems(3,5) q cq pspecD_err [OF bs ok]
        by (cases "body x q"; cases "fst (body x q)") (auto simp: sbind_def split: if_splits intro!: exI [of _ "{}"])
    next
      case True
      then obtain y q' where y: "c" "body x q = (Inr y, q')" by blast
      obtain L' where L': "counted q q' L'" "I y (L \<union> L')" by (rule pspecD [OF bs ok y(2)])
      have len: "length (p_rest q') < n"
        using tc [of p q] counted_length [OF L'(1)] q y(1) Suc.prems(4) by simp
      have pq: "counted p q' L'" using counted_trans [OF cq L'(1)] by simp
      have fin: "finite (L \<union> L')" using Suc.prems(2) L'(1) by (simp add: counted_def)
      have "while_accept n test body y q' = (r, p')" using Suc.prems(5) q y by (simp add: sbind_def)
      from Suc.IH [OF counted_toks [OF L'(1) ok] fin L'(2) len this]
      show ?thesis using counted_trans [OF pq] by (auto split: sum.splits simp: Un_assoc)
    qed
  qed
qed simp

lemma ploop_spec:
  assumes "consuming test" "\<And>x L. finite L \<Longrightarrow> I x L \<Longrightarrow> pspec (body x) (\<lambda>y L'. I y (L \<union> L'))" "finite L" "I x L"
  shows "pspec (ploop test body x) (\<lambda>y L'. I y (L \<union> L'))"
proof (rule pspecI)
  fix p :: "'a parser"
  note W = while_accept_spec [of test I body p, OF assms(1,2) _ assms(3,4) lessI]
  show "e = InvalidArgument" if "toks_ok p" "ploop test body x p = (Inl e, p')" for e p'
    using W that unfolding ploop_def by fastforce
  show "\<exists>L'. counted p p' L' \<and> I y (L \<union> L')" if "toks_ok p" "ploop test body x p = (Inr y, p')" for y p'
    using W that unfolding ploop_def by fastforce
qed

text \<open>A list separated by commas, for a property of the items that determines their parameters.\<close>

lemma comma_separated_spec:
  assumes "pspec item (\<lambda>x L. P x \<and> L = g x)"
  shows "pspec (comma_separated item) (\<lambda>xs L. xs \<noteq> [] \<and> list_all P xs \<and> L = (\<Union>x \<in> set xs. g x))"
  unfolding comma_separated_def
proof (rule pspec_bind [OF assms], rule ploop_spec [OF consuming_accept(2)])
  show "pspec (sbind item (\<lambda>y. sret (out @ [y]))) (\<lambda>ys L'. ys \<noteq> [] \<and> list_all P ys \<and> L \<union> L' = (\<Union>x \<in> set ys. g x))"
    if "out \<noteq> [] \<and> list_all P out \<and> L = (\<Union>x \<in> set out. g x)" for out L
    using that by (auto intro!: pspec_bind [OF assms])
qed auto

lemmas pb = pspec_bind [OF take_spec] pspec_bind [OF next_spec] pspec_bind [OF accept_keyword_spec]
  pspec_bind [OF accept_kind_spec] pspec_bind [OF expect_keyword_spec] pspec_bind [OF expect_kind_spec]
  pspec_bind [OF advance_spec]

lemma expect_ident_spec: "pspec expect_ident (\<lambda>c L. name_ok c \<and> L = {})"
proof -
  have "pspec (case k of TIdent name \<Rightarrow> if map to_lower name \<in> set RESERVED then serr InvalidArgument else sret name
      | TQuotedIdent name \<Rightarrow> sret name | _ \<Rightarrow> serr InvalidArgument) (\<lambda>_ L. L = {})" for k :: "'a token_kind"
    by (cases k) auto
  then show ?thesis unfolding expect_ident_def
    by (intro pb pspec_bind [where ?Q1.0 = "\<lambda>_ L. L = {}"]) (auto simp: name_ok_def)
qed

lemma param_spec: "explicit \<noteq> Some 0 \<Longrightarrow> pspec (param explicit) (\<lambda>i L. L = {i})"
  by (rule pspecI)
    (auto simp: param_def counted_def Let_def max.commute split: option.splits if_splits intro!: exI [of _ 0])

lemma expect_value_spec: "pspec expect_value (\<lambda>e L. wf_value e \<and> L = expr_params e)"
  unfolding expect_value_def
proof (rule pspec_bind [OF take_spec])
  fix k :: "'a token_kind" and L :: "nat set" assume k: "L = {} \<and> tok_ok k"
  show "pspec (case k of TString s \<Rightarrow> sret (Literal (VText s)) | TInteger i \<Rightarrow> sret (Literal (VInteger i))
     | TFloat f \<Rightarrow> sret (Literal (VFloat f)) | TParam n \<Rightarrow> sbind (param n) (\<lambda>i. sret (Param i))
     | TIdent w \<Rightarrow> if eq_ignore_ascii_case w (kw ''null'') then sret (Literal VNull) else serr InvalidArgument
     | _ \<Rightarrow> serr InvalidArgument) (\<lambda>e L'. wf_value e \<and> L \<union> L' = expr_params e)"
  proof (cases k)
    case (TParam n)
    then have "n \<noteq> Some 0" using k by (auto simp: tok_ok_def)
    then show ?thesis using TParam k by (auto intro!: pspec_bind [OF param_spec])
  qed (use k in auto)
qed

lemma parse_operand_spec: "pspec parse_operand (\<lambda>e L. wf_operand e \<and> L = expr_params e)"
proof -
  let ?g = "(\<lambda>t. case t of None \<Rightarrow> serr InvalidArgument
      | Some (TIdent w) \<Rightarrow>
          if eq_ignore_ascii_case w (kw ''null'') then sbind (advance 1) (\<lambda>_. sret (Literal VNull))
          else sbind expect_ident (\<lambda>c. sret (Column c))
      | Some (TQuotedIdent _) \<Rightarrow> sbind expect_ident (\<lambda>c. sret (Column c))
      | _ \<Rightarrow> expect_value) :: 'a token_kind option \<Rightarrow> ('a, 'a expr) parse"
  have v: "pspec (expect_value :: ('a, 'a expr) parse) (\<lambda>e L. wf_operand e \<and> L = expr_params e)"
  proof (rule pspec_mono [OF expect_value_spec])
    show "wf_operand e \<and> L = expr_params e" if "wf_value e \<and> L = expr_params e" for e :: "'a expr" and L using that by (cases e) auto
  qed
  have c: "pspec (sbind expect_ident (\<lambda>c. sret (Column c)) :: ('a, 'a expr) parse) (\<lambda>e L. wf_operand e \<and> L = expr_params e)"
    by (auto intro!: pspec_bind [OF expect_ident_spec])
  have "pspec (?g t) (\<lambda>e L. wf_operand e \<and> L = expr_params e)" for t
    using v c by (auto intro!: pb split: option.split token_kind.split)
  then have "pspec (\<lambda>p. ?g (peek p) p) (\<lambda>e L. wf_operand e \<and> L = expr_params e)"
    unfolding pspec_def by blast
  moreover have "parse_operand = (\<lambda>p. ?g (peek p) p)"
    by (rule ext) (auto simp: parse_operand_def split: option.split token_kind.split)
  ultimately show ?thesis by simp
qed

lemmas pe = pb pspec_bind [OF expect_ident_spec] pspec_bind [OF expect_value_spec] pspec_bind [OF parse_operand_spec]
  pspec_bind [OF comma_separated_spec [OF parse_operand_spec]]

section \<open>Conditions\<close>

definition cond_spec :: "('f, 'f expr) parse \<Rightarrow> bool" where
  "cond_spec m \<longleftrightarrow> pspec m (\<lambda>e L. wf_cond e \<and> L = expr_params e)"

lemma comparison_tail_spec:
  "wf_operand left \<Longrightarrow> pspec (comparison_tail left) (\<lambda>e L'. wf_cond e \<and> expr_params left \<union> L' = expr_params e)"
  unfolding comparison_tail_def
  by (auto intro!: pe pspec_bind [where ?Q1.0 = "\<lambda>_ L. L = {}"] split: option.split)

lemma like_tail_spec:
  "wf_operand left \<Longrightarrow> pspec (like_tail left n) (\<lambda>e L'. wf_cond e \<and> expr_params left \<union> L' = expr_params e)"
  unfolding like_tail_def using comparison_tail_spec by (auto intro!: pe)

lemma in_tail_spec:
  "wf_operand left \<Longrightarrow> pspec (in_tail left n) (\<lambda>e L'. wf_cond e \<and> expr_params left \<union> L' = expr_params e)"
  unfolding in_tail_def using like_tail_spec by (auto intro!: pe)

lemma predicate_tail_spec:
  "wf_operand left \<Longrightarrow> pspec (predicate_tail left) (\<lambda>e L'. wf_cond e \<and> expr_params left \<union> L' = expr_params e)"
  unfolding predicate_tail_def using in_tail_spec by (auto intro!: pe pspec_get)

lemma guard_depth_spec: "(\<And>u. cond_spec (m u)) \<Longrightarrow> cond_spec (case guard_depth d of Inl e \<Rightarrow> serr e | Inr u \<Rightarrow> m u)"
  by (auto simp: guard_depth_def cond_spec_def)

lemma chain_spec:
  assumes m: "cond_spec m" and C: "\<And>a b. wf_cond a \<Longrightarrow> wf_cond b \<Longrightarrow> wf_cond (C a b)"
    "\<And>a b. expr_params (C a b) = expr_params a \<union> expr_params b"
  shows "cond_spec (sbind m (\<lambda>left. ploop (accept_keyword w) (\<lambda>left. sbind m (\<lambda>right. sret (C left right))) left))"
  unfolding cond_spec_def
proof (rule pspec_bind [OF m [unfolded cond_spec_def]], rule ploop_spec [OF consuming_accept(1)])
  show "pspec (sbind m (\<lambda>right. sret (C left right))) (\<lambda>e L'. wf_cond e \<and> L \<union> L' = expr_params e)"
    if "wf_cond left \<and> L = expr_params left" for left L
    using that by (auto intro!: pspec_bind [OF m [unfolded cond_spec_def]] C simp: C(2))
qed auto

lemma parse_cond_spec:
  fixes d :: nat
  shows "cond_spec (parse_or d :: ('f, 'f expr) parse) \<and> cond_spec (parse_and d :: ('f, 'f expr) parse) \<and>
    cond_spec (parse_not d :: ('f, 'f expr) parse) \<and> cond_spec (parse_predicate d :: ('f, 'f expr) parse)"
proof (induction "257 - d" arbitrary: d rule: less_induct)
  case less
  show ?case
  proof (cases "d > 256")
    case True
    then show ?thesis
      by (simp add: parse_or.simps [of d] parse_and.simps [of d] parse_not.simps [of d] parse_predicate.simps [of d]
          guard_depth_def cond_spec_def pspec_err)
  next
    case False
    then have g: "guard_depth d = Inr ()" and IH: "cond_spec (parse_or (Suc d) :: ('f, 'f expr) parse)"
      "cond_spec (parse_and (Suc d) :: ('f, 'f expr) parse)" "cond_spec (parse_not (Suc d) :: ('f, 'f expr) parse)"
      "cond_spec (parse_predicate (Suc d) :: ('f, 'f expr) parse)"
      using less by (auto simp: guard_depth_def)
    have "cond_spec (parse_or d :: ('f, 'f expr) parse)" "cond_spec (parse_and d :: ('f, 'f expr) parse)"
      unfolding parse_or.simps [of d] parse_and.simps [of d] g Suc_eq_plus1 [symmetric] using chain_spec [OF IH(2)] chain_spec [OF IH(3)] by simp_all
    moreover have "cond_spec (parse_not d :: ('f, 'f expr) parse)"
      unfolding parse_not.simps [of d] g Suc_eq_plus1 [symmetric] cond_spec_def using IH(4)
      by (auto intro!: pb pspec_bind [OF IH(3) [unfolded cond_spec_def]] simp: cond_spec_def)
    moreover have "cond_spec (parse_predicate d :: ('f, 'f expr) parse)"
      unfolding parse_predicate.simps [of d] g Suc_eq_plus1 [symmetric] cond_spec_def
      using predicate_tail_spec by (auto intro!: pe pspec_bind [OF IH(1) [unfolded cond_spec_def]])
    ultimately show ?thesis by blast
  qed
qed


lemma where_spec: "pspec parse_optional_where (\<lambda>f L. wf_filter f \<and> L = filter_params f)"
  unfolding parse_optional_where_def
  by (rule pb(3)) (auto simp: wf_filter_def filter_params_def intro!: pspec_bind [OF conjunct1 [OF parse_cond_spec, unfolded cond_spec_def]])

section \<open>Column definitions\<close>

lemma sbind_sret: "sbind (sret x) f = f x" "sbind (serr e) f = serr e"
  by (auto simp: sbind_def)

lemma expect_size_spec: "pspec expect_size (\<lambda>_ L. L = {})"
  unfolding expect_size_def by (rule pb(2)) (auto split: option.split token_kind.split)

lemma type_sizes_spec: "pspec type_sizes (\<lambda>_ L. L = {})"
  unfolding type_sizes_def by (auto intro!: pb pspec_bind [OF expect_size_spec])

definition data_type_rest :: "bytes \<Rightarrow> ('f, bytes) parse" where
  "data_type_rest w =
     sbind (accept_kind TLParen) (\<lambda>b.
     if b then
       sbind type_sizes (\<lambda>sizes.
       sbind (expect_kind TRParen) (\<lambda>_. sret (map to_upper w @ 40 # join_comma sizes @ [41])))
     else sret (map to_upper w))"

lemma data_type_rest_spec: "pspec (data_type_rest w) (\<lambda>_ L. L = {})"
  unfolding data_type_rest_def by (auto intro!: pb pspec_bind [OF type_sizes_spec])

lemma data_type_of_alt: "data_type_of w = sbind (advance 1) (\<lambda>_. data_type_rest w)"
  by (simp add: data_type_of_def data_type_rest_def)

definition option_rest :: "column_def \<Rightarrow> bytes \<Rightarrow> ('f, column_def option) parse" where
  "option_rest d w =
     (if eq_ignore_ascii_case w (kw ''primary'') then sbind (expect_keyword ''key'') (\<lambda>_. sret (Some (d\<lparr>cd_primary_key := True\<rparr>)))
      else if eq_ignore_ascii_case w (kw ''not'') then sbind (expect_keyword ''null'') (\<lambda>_. sret (Some (d\<lparr>cd_not_null := True\<rparr>)))
      else if cd_data_type d = [] then sbind (data_type_rest w) (\<lambda>t. sret (Some (d\<lparr>cd_data_type := t\<rparr>)))
      else serr InvalidArgument)"

lemma option_rest_spec: "pspec (option_rest d w) (\<lambda>r L. L = {} \<and> (\<exists>d'. r = Some d' \<and> cd_name d' = cd_name d))"
  unfolding option_rest_def by (auto intro!: pb pspec_bind [OF data_type_rest_spec])

lemma column_option_cases:
  assumes "toks_ok p" "column_option d p = (r, p')"
  shows "(case r of Inl e \<Rightarrow> e = InvalidArgument
    | Inr None \<Rightarrow> p' = p
    | Inr (Some d') \<Rightarrow> counted p p' {} \<and> length (p_rest p') < length (p_rest p) \<and> cd_name d' = cd_name d)"
proof (cases "\<exists>w. peek p = Some (TIdent w) \<and> fst (sbind (advance 1) (\<lambda>_. option_rest d w) p) = r \<and>
    (\<forall>d'. r = Inr (Some d') \<longrightarrow> snd (sbind (advance 1) (\<lambda>_. option_rest d w) p) = p') \<and> r \<noteq> Inr None")
  case True
  then obtain w where w: "peek p = Some (TIdent w)" "fst (sbind (advance 1) (\<lambda>_. option_rest d w) p) = r"
     "\<forall>d'. r = Inr (Some d') \<longrightarrow> snd (sbind (advance 1) (\<lambda>_. option_rest d w) p) = p'" "r \<noteq> Inr None" by blast
  let ?q = "p\<lparr>p_rest := drop 1 (p_rest p)\<rparr>"
  have cq: "counted p ?q {}" by (rule counted_drop [of _ 1]) simp_all
  have ne: "p_rest p \<noteq> []" using w(1) by (auto simp: peek_def peek_at_def)
  have ok: "toks_ok ?q" by (rule counted_toks [OF cq assms(1)])
  obtain r' p'' where rp: "option_rest d w ?q = (r', p'')" by (cases "option_rest d w ?q")
  then have e: "r' = r" "\<forall>d'. r = Inr (Some d') \<longrightarrow> p'' = p'" using w(2,3) by (auto simp: advance_def sbind_def)
  show ?thesis
  proof (cases r)
    case (Inl er)
    then show ?thesis using pspecD_err [OF option_rest_spec ok] rp e by simp
  next
    case (Inr o')
    then obtain d' where d: "o' = Some d'" using w(4) by (cases o') auto
    then have "option_rest d w ?q = (Inr (Some d'), p')" using rp e Inr by simp
    then obtain L where L: "counted ?q p' L" "L = {}" "cd_name d' = cd_name d" using pspecD [OF option_rest_spec ok] by blast
    then show ?thesis using Inr d counted_trans [OF cq L(1)] counted_length [OF L(1)] ne by (cases "p_rest p") auto
  qed
next
  case False
  then show ?thesis
    using assms(2) unfolding column_option_def
    by (auto simp: option_rest_def data_type_of_alt sbind_assoc sbind_Inr_iff split: option.splits token_kind.splits if_splits)
qed


lemma column_loop_spec:
  "toks_ok p \<Longrightarrow> length (p_rest p) < n \<Longrightarrow> column_loop n d p = (r, p') \<Longrightarrow>
    (case r of Inl e \<Rightarrow> e = InvalidArgument | Inr d' \<Rightarrow> counted p p' {} \<and> cd_name d' = cd_name d)"
proof (induction n arbitrary: p d)
  case (Suc n)
  obtain r1 p1 where c: "column_option d p = (r1, p1)" by (cases "column_option d p")
  note C = column_option_cases [OF Suc.prems(1) c]
  show ?case
  proof (cases "\<exists>d'. r1 = Inr (Some d')")
    case True
    then obtain d' where d: "r1 = Inr (Some d')" by blast
    with C have k: "counted p p1 {}" "length (p_rest p1) < n" "cd_name d' = cd_name d" using Suc.prems(2) by auto
    have "column_loop n d' p1 = (r, p')" using Suc.prems(3) c d by (simp add: sbind_def)
    from Suc.IH [OF counted_toks [OF k(1) Suc.prems(1)] k(2) this] show ?thesis
      using k(3) counted_trans [OF k(1), of p' "{}"] by (auto split: sum.splits)
  next
    case False
    then show ?thesis using C c Suc.prems(3) counted_refl
      by (auto simp: sbind_def split: sum.splits option.splits)
  qed
qed simp

lemma parse_column_def_spec: "pspec parse_column_def (\<lambda>d L. name_ok (cd_name d) \<and> L = {})"
  unfolding parse_column_def_def
proof (rule pspec_bind [OF expect_ident_spec])
  fix name and L :: "nat set" assume n: "name_ok name \<and> L = {}"
  let ?d = "\<lparr>cd_name = name, cd_data_type = [], cd_primary_key = False, cd_not_null = False\<rparr>"
  show "pspec (sbind sget (\<lambda>p. column_loop (Suc (length (p_rest p))) ?d)) (\<lambda>d L'. name_ok (cd_name d) \<and> L \<union> L' = {})"
  proof (rule pspecI)
    fix p :: "'b parser"
    note W = column_loop_spec [of p "Suc (length (p_rest p))" ?d]
    show "e = InvalidArgument" if "toks_ok p" "sbind sget (\<lambda>p. column_loop (Suc (length (p_rest p))) ?d) p = (Inl e, p')" for e p'
      using W that by (fastforce simp: sbind_def)
    show "\<exists>L'. counted p p' L' \<and> name_ok (cd_name d) \<and> L \<union> L' = {}"
      if "toks_ok p" "sbind sget (\<lambda>p. column_loop (Suc (length (p_rest p))) ?d) p = (Inr d, p')" for d p'
      using W that n by (fastforce simp: sbind_def)
  qed
qed

section \<open>Statements\<close>

lemma reject_duplicates_from:
  "reject_duplicates_from lower earlier names = (if distinct (map lower names) \<and> lower ` set names \<inter> lower ` set earlier = {} then Inr () else Inl InvalidArgument)"
  by (induction lower earlier names rule: reject_duplicates_from.induct) (auto simp: list_ex_iff intro: rev_image_eqI)

lemma reject_duplicates_iff:
  "reject_duplicates lower names = (if distinct (map lower names) then Inr () else Inl InvalidArgument)"
  by (simp add: reject_duplicates_def reject_duplicates_from)

lemma duplicates_spec: "pspec (slift (reject_duplicates lower names)) (\<lambda>_ L. L = {} \<and> distinct (map lower names))"
  by (rule pspec_lift) (auto simp: reject_duplicates_iff split: if_splits)

definition statement_spec :: "(bytes \<Rightarrow> bytes) \<Rightarrow> ('f, 'f statement) parse \<Rightarrow> bool" where
  "statement_spec lower m \<longleftrightarrow> pspec m (\<lambda>st L. wf_statement lower st \<and> L = statement_params st)"

lemmas wf_simps = wf_statement_def statement_table_def statement_params_def

lemma create_spec: "statement_spec lower parse_create"
  unfolding statement_spec_def parse_create_def
  by (auto intro!: pe pspec_bind [where ?Q1.0 = "\<lambda>_ L. L = {}" and m = "if _ then _ else _"]
      pspec_bind [OF comma_separated_spec [OF parse_column_def_spec]] expect_keyword_spec simp: wf_simps)

lemma drop_spec: "statement_spec lower parse_drop"
  unfolding statement_spec_def parse_drop_def
  by (auto intro!: pe pspec_bind [where ?Q1.0 = "\<lambda>_ L. L = {}" and m = "if _ then _ else _"] expect_keyword_spec simp: wf_simps)

lemma values_row_spec: "pspec parse_values_row (\<lambda>r L. (r \<noteq> [] \<and> list_all wf_value r) \<and> L = (\<Union>e \<in> set r. expr_params e))"
  unfolding parse_values_row_def by (auto intro!: pe pspec_bind [OF comma_separated_spec [OF expect_value_spec]])

lemma insert_columns_spec: "pspec (insert_columns lower) (\<lambda>cs L. list_all name_ok cs \<and> distinct (map lower cs) \<and> L = {})"
  unfolding insert_columns_def
  by (auto intro!: pe pspec_bind [OF duplicates_spec] pspec_bind [OF comma_separated_spec [OF expect_ident_spec]])

lemma insert_spec: "statement_spec lower (parse_insert lower)"
  unfolding statement_spec_def parse_insert_def
  by (intro pe pspec_bind [OF insert_columns_spec] pspec_bind [OF comma_separated_spec [OF values_row_spec]])
    (auto simp: wf_simps list_ex_iff list_all_iff, blast+)

lemma alias_spec: "pspec parse_alias (\<lambda>a L. pred_option name_ok a \<and> L = {})"
  unfolding parse_alias_def by (auto intro!: pe)

lemma aggregate_spec: "pspec (parse_aggregate f) (\<lambda>i L. wf_item i \<and> L = {})"
  unfolding parse_aggregate_def
  by (auto intro!: pe pspec_bind [OF alias_spec] simp: wf_item_def sbind_assoc sbind_sret)

lemma select_item_spec: "pspec parse_select_item (\<lambda>i L. wf_item i \<and> L = {})"
proof -
  have a: "pspec (sbind expect_ident (\<lambda>name. sbind parse_alias (\<lambda>alias. sret (ColumnItem name alias))) :: ('a, select_item) parse)
      (\<lambda>i L. wf_item i \<and> L = {})"
    by (auto intro!: pe pspec_bind [OF alias_spec] simp: wf_item_def)
  have "\<exists>m. pspec m (\<lambda>i L. wf_item i \<and> L = {}) \<and> parse_select_item p = m p" for p :: "'a parser"
    using a aggregate_spec pspec_err unfolding parse_select_item_def
    by (auto split: option.split token_kind.split intro: exI [of _ "serr InvalidArgument"])
  then show ?thesis unfolding pspec_def by metis
qed

lemma count_spec: "pspec expect_count (\<lambda>_ L. L = {})"
  unfolding expect_count_def by (rule pb(2)) (auto split: option.split token_kind.split)

lemma order_item_spec: "pspec parse_order_item (\<lambda>i L. (name_ok \<circ> oi_column) i \<and> L = {})"
  unfolding parse_order_item_def by (auto intro!: pe)

lemma optional_count_spec: "pspec (optional_count w) (\<lambda>_ L. L = {})"
  unfolding optional_count_def by (auto intro!: pe pspec_bind [OF count_spec])

lemma optional_list_spec:
  assumes "pspec item (\<lambda>x L. P x \<and> L = {})"
  shows "pspec (optional_list w item) (\<lambda>xs L. list_all P xs \<and> L = {})"
  unfolding optional_list_def by (auto intro!: pe pspec_mono [OF comma_separated_spec [OF assms]])

lemma select_spec: "statement_spec lower parse_select"
  unfolding statement_spec_def parse_select_def
  apply (intro pe)
  apply (rule pspec_bind [where ?Q1.0 = "\<lambda>is L. L = {} \<and> (is = [Wildcard] \<or> is \<noteq> [] \<and> list_all wf_item is)"])
   apply (auto intro!: pspec_mono [OF comma_separated_spec [OF select_item_spec]])[1]
  apply (intro pe pspec_bind [OF where_spec] pspec_bind [OF optional_list_spec [OF expect_ident_spec]]
      pspec_bind [OF optional_list_spec [OF order_item_spec]] pspec_bind [OF optional_count_spec])
  apply (auto simp: wf_simps comp_def)
  done

lemma assignment_spec: "pspec parse_assignment (\<lambda>a L. (case a of (c, e) \<Rightarrow> name_ok c \<and> wf_value e) \<and> L = expr_params (snd a))"
  unfolding parse_assignment_def by (auto intro!: pe)

lemma update_spec: "statement_spec lower (parse_update lower)"
  unfolding statement_spec_def parse_update_def
  by (intro pe pspec_bind [OF comma_separated_spec [OF assignment_spec]] pspec_bind [OF duplicates_spec] pspec_bind [OF where_spec])
    (auto simp: wf_simps comp_def, force)

lemma delete_spec: "statement_spec lower parse_delete"
  unfolding statement_spec_def parse_delete_def by (auto intro!: pe pspec_bind [OF where_spec] simp: wf_simps)

lemma statement_spec: "statement_spec lower (parse_statement lower)"
proof -
  have "\<exists>m. statement_spec lower m \<and> parse_statement lower p = m p" for p :: "'a parser"
  proof -
    have "parse_statement lower p \<in> {parse_create p, parse_drop p, parse_insert lower p, parse_select p, parse_update lower p, parse_delete p, serr InvalidArgument p}"
      unfolding parse_statement_def by (auto simp: Let_def split: option.split token_kind.split)
    moreover have "statement_spec lower (serr InvalidArgument :: ('a, 'a statement) parse)"
      by (simp add: statement_spec_def pspec_err)
    ultimately show ?thesis
      using create_spec drop_spec insert_spec select_spec update_spec delete_spec by blast
  qed
  then show ?thesis unfolding statement_spec_def pspec_def by metis
qed


section \<open>The tokens of the tokenizer\<close>

lemma param_token_ok: "param_token r = Inr (k, rest) \<Longrightarrow> tok_ok k"
  by (auto simp: param_token_def Let_def tok_ok_def split: if_splits)

lemma number_ok: "number pf fin bs = Inr (k, rest) \<Longrightarrow> tok_ok k"
  by (auto simp: number_def Let_def tok_ok_def split: if_splits option.splits prod.splits)

lemma punctuation_ok: "punctuation c r = Inr (k, rest) \<Longrightarrow> tok_ok k"
  unfolding punctuation_def Let_def by (auto simp: tok_ok_def split: if_split_asm)

lemma next_token_ok: "next_token pf fin c r = Inr (Some k, rest) \<Longrightarrow> tok_ok k"
  unfolding next_token_def Let_def
  by (auto simp: rbind_Inr_iff tok_ok_def [of "TString _"] tok_ok_def [of "TQuotedIdent _"] tok_ok_def [of "TIdent _"]
      dest: param_token_ok number_ok punctuation_ok split: if_split_asm option.splits)

lemma tokenize_loop_ok: "tokenize_loop pf fin off bs = Inr ts \<Longrightarrow> \<forall>t \<in> set ts. tok_ok (tk_kind t)"
proof (induction pf fin off bs arbitrary: ts rule: tokenize_loop.induct)
  case (2 pf fin off c r)
  from 2(2) obtain k rest where n: "next_token pf fin c r = Inr (k, rest)" by (auto split: sum.splits)
  show ?case
    using 2 n next_token_ok [of pf fin c r _ rest] by (cases k) (auto simp: rbind_Inr_iff)
qed simp

lemma parse_sound:
  "case parse_with_params parse_f64 is_finite lower sql of
     Inl e \<Rightarrow> e = InvalidArgument
   | Inr (st, n) \<Rightarrow>
       wf_statement lower st \<and> finite (statement_params st) \<and> n = Max (insert 0 (Suc ` statement_params st))"
proof -
  let ?rest = "\<lambda>st. sbind (accept_kind TSemicolon) (\<lambda>_. sbind sget (\<lambda>p.
      if peek p \<noteq> None then serr InvalidArgument else sret (st, p_param_count p)))"
  let ?m = "sbind (parse_statement lower) ?rest"
  have "case r of Inl e \<Rightarrow> e = InvalidArgument
      | Inr (st, n) \<Rightarrow> wf_statement lower st \<and> finite (statement_params st) \<and> n = Max (insert 0 (Suc ` statement_params st))"
    if ts: "tokenize parse_f64 is_finite sql = Inr ts"
      and r: "?m \<lparr>p_rest = ts, p_next_param = 0, p_param_count = 0\<rparr> = (r, p')" for ts r p'
  proof -
    let ?p = "\<lparr>p_rest = ts, p_next_param = 0, p_param_count = 0\<rparr>"
    have ok: "toks_ok ?p" using tokenize_loop_ok [OF ts [unfolded tokenize_def]] by (simp add: toks_ok_def)
    obtain r1 p1 where s: "parse_statement lower ?p = (r1, p1)" by (cases "parse_statement lower ?p")
    note S = statement_spec [of lower, unfolded statement_spec_def]
    show ?thesis
    proof (cases r1)
      case (Inl e)
      then show ?thesis using r s pspecD_err [OF S ok] by (auto simp: sbind_def)
    next
      case (Inr st)
      obtain L where L: "counted ?p p1 L" "wf_statement lower st \<and> L = statement_params st"
        using s Inr by (auto intro: pspecD [OF S ok])
      then have "finite (statement_params st)" "p_param_count p1 = Max (insert 0 (Suc ` statement_params st))"
        by (auto simp: counted_def)
      then show ?thesis using r s Inr L(2)
        by (auto simp: sbind_def accept_kind_def split: if_splits)
    qed
  qed
  then show ?thesis
    using tokenize_error [of parse_f64 is_finite sql]
    unfolding parse_with_params_def
    by (cases "tokenize parse_f64 is_finite sql"; cases "?m \<lparr>p_rest = projr (tokenize parse_f64 is_finite sql), p_next_param = 0, p_param_count = 0\<rparr>")
      auto
qed

text \<open>C19. Parsing always ends, with a statement or with \<open>InvalidArgument\<close>: no input makes a loop of the parser
  run forever or a subtraction underflow. An accepted statement is one the executor can work with: its
  conditions have values or columns as operands, never a bare value where a condition is needed; rows
  of an \<open>INSERT\<close> have as many values as columns are named; names have 1 to 128 bytes and are not repeated.
  The reported number of parameters is exactly one more than the highest index used, so after
  \<open>check_param_count\<close> every parameter of the statement is bound.\<close>

theorem parse_total_and_sound:
  "case parse_with_params parse_f64 is_finite lower sql of
     Inl e \<Rightarrow> e = InvalidArgument
   | Inr (st, n) \<Rightarrow>
       wf_statement lower st \<and> finite (statement_params st) \<and> n = Max (insert 0 (Suc ` statement_params st))"
  by (rule parse_sound)

end
