(* ===== verification/Sql_Print.thy ===== *)
theory Sql_Print
  imports Sql_Parse_Props
begin

text \<open>
  Statements written as SQL text and parsed again. Names are quoted, conditions are parenthesised;
  the texts in literals and names are arbitrary.
\<close>

section \<open>Writing statements\<close>

definition kwt :: "string \<Rightarrow> 'f token_kind" where
  "kwt w = TIdent (kw w)"

fun print_operand :: "'f expr \<Rightarrow> 'f token_kind" where
  "print_operand (Literal (VText s)) = TString s"
| "print_operand (Literal (VInteger i)) = TInteger i"
| "print_operand (Literal (VFloat f)) = TFloat f"
| "print_operand (Literal VNull) = kwt ''null''"
| "print_operand (Column c) = TQuotedIdent c"
| "print_operand (Param i) = TParam (Some (i + 1))"
| "print_operand _ = TStar"

definition print_op :: "comparison_op \<Rightarrow> 'f token_kind" where
  "print_op op = (case op of OpEq \<Rightarrow> TEq | OpNotEq \<Rightarrow> TNotEq | OpLt \<Rightarrow> TLt | OpLtEq \<Rightarrow> TLtEq | OpGt \<Rightarrow> TGt | OpGtEq \<Rightarrow> TGtEq)"

fun commas :: "('a \<Rightarrow> 'f token_kind list) \<Rightarrow> 'a list \<Rightarrow> 'f token_kind list" where
  "commas pr [] = []"
| "commas pr [x] = pr x"
| "commas pr (x # xs) = pr x @ TComma # commas pr xs"

definition opt_not :: "bool \<Rightarrow> 'f token_kind list" where
  "opt_not b = (if b then [kwt ''not''] else [])"

fun print_cond :: "'f expr \<Rightarrow> 'f token_kind list" where
  "print_cond (Compare l op r) = [print_operand l, print_op op, print_operand r]"
| "print_cond (AndE a b) = TLParen # print_cond a @ [TRParen, kwt ''and'', TLParen] @ print_cond b @ [TRParen]"
| "print_cond (OrE a b) = TLParen # print_cond a @ [TRParen, kwt ''or'', TLParen] @ print_cond b @ [TRParen]"
| "print_cond (NotE a) = kwt ''not'' # TLParen # print_cond a @ [TRParen]"
| "print_cond (IsNull e n) = print_operand e # kwt ''is'' # opt_not n @ [kwt ''null'']"
| "print_cond (InList e es n) = print_operand e # opt_not n @ [kwt ''in'', TLParen] @ commas (\<lambda>x. [print_operand x]) es @ [TRParen]"
| "print_cond (Between e l h n) = print_operand e # opt_not n @ [kwt ''between'', print_operand l, kwt ''and'', print_operand h]"
| "print_cond (Like e p n ci) = print_operand e # opt_not n @ [kwt (if ci then ''ilike'' else ''like''), print_operand p]"
| "print_cond _ = []"

text \<open>The nesting of the parser's recursion on a printed condition.\<close>

fun nesting :: "'f expr \<Rightarrow> nat" where
  "nesting (AndE a b) = 4 + max (nesting a) (nesting b)"
| "nesting (OrE a b) = 4 + max (nesting a) (nesting b)"
| "nesting (NotE a) = 5 + nesting a"
| "nesting _ = 3"

definition print_name :: "bytes \<Rightarrow> 'f token_kind list" where
  "print_name c = [TQuotedIdent c]"

definition print_where :: "'f expr option \<Rightarrow> 'f token_kind list" where
  "print_where f = (case f of None \<Rightarrow> [] | Some e \<Rightarrow> kwt ''where'' # print_cond e)"

definition print_alias :: "bytes option \<Rightarrow> 'f token_kind list" where
  "print_alias a = (case a of None \<Rightarrow> [] | Some n \<Rightarrow> [kwt ''as'', TQuotedIdent n])"

definition print_item :: "select_item \<Rightarrow> 'f token_kind list" where
  "print_item i =
     (case i of
        Wildcard \<Rightarrow> [TStar]
      | ColumnItem n a \<Rightarrow> TQuotedIdent n # print_alias a
      | Aggregate f c d a \<Rightarrow>
          [kwt (agg_name f), TLParen] @ (if d then [kwt ''distinct''] else []) @
          [case c of None \<Rightarrow> TStar | Some n \<Rightarrow> TQuotedIdent n, TRParen] @ print_alias a)"

definition print_order :: "order_item \<Rightarrow> 'f token_kind list" where
  "print_order i = [TQuotedIdent (oi_column i), kwt (if oi_desc i then ''desc'' else ''asc'')]"

definition print_row :: "'f expr list \<Rightarrow> 'f token_kind list" where
  "print_row r = TLParen # commas (\<lambda>e. [print_operand e]) r @ [TRParen]"

definition print_by :: "string \<Rightarrow> ('a \<Rightarrow> 'f token_kind list) \<Rightarrow> 'a list \<Rightarrow> 'f token_kind list" where
  "print_by w pr xs = (if xs = [] then [] else kwt w # kwt ''by'' # commas pr xs)"

definition print_count :: "string \<Rightarrow> nat option \<Rightarrow> 'f token_kind list" where
  "print_count w n = (case n of None \<Rightarrow> [] | Some n \<Rightarrow> [kwt w, TInteger (int n)])"

definition print_column :: "column_def \<Rightarrow> 'f token_kind list" where
  "print_column c =
     TQuotedIdent (cd_name c) # (if cd_data_type c = [] then [] else [TIdent (cd_data_type c)]) @
     (if cd_primary_key c then [kwt ''primary'', kwt ''key''] else []) @ (if cd_not_null c then [kwt ''not'', kwt ''null''] else [])"

fun print_stmt :: "'f statement \<Rightarrow> 'f token_kind list" where
  "print_stmt (CreateTable t cs ine) =
     [kwt ''create'', kwt ''table''] @ (if ine then [kwt ''if'', kwt ''not'', kwt ''exists''] else []) @
     [TQuotedIdent t, TLParen] @ commas print_column cs @ [TRParen]"
| "print_stmt (DropTable t ie) =
     [kwt ''drop'', kwt ''table''] @ (if ie then [kwt ''if'', kwt ''exists''] else []) @ [TQuotedIdent t]"
| "print_stmt (Insert t cs rows) =
     [kwt ''insert'', kwt ''into'', TQuotedIdent t] @ (if cs = [] then [] else TLParen # commas print_name cs @ [TRParen]) @
     kwt ''values'' # commas print_row rows"
| "print_stmt (Select t items f gs os l off) =
     kwt ''select'' # commas print_item items @ [kwt ''from'', TQuotedIdent t] @ print_where f @
     print_by ''group'' print_name gs @ print_by ''order'' print_order os @ print_count ''limit'' l @ print_count ''offset'' off"
| "print_stmt (Update t as f) =
     [kwt ''update'', TQuotedIdent t, kwt ''set''] @ commas (\<lambda>(c, e). [TQuotedIdent c, TEq, print_operand e]) as @ print_where f"
| "print_stmt (Delete t f) = [kwt ''delete'', kwt ''from'', TQuotedIdent t] @ print_where f"

text \<open>What is left out: conditions nested too deeply, and column types with sizes or of other than upper-case words.\<close>

definition plain_type :: "bytes \<Rightarrow> bool" where
  "plain_type t \<longleftrightarrow> map to_upper t = t \<and> \<not> eq_ignore_ascii_case t (kw ''primary'') \<and> \<not> eq_ignore_ascii_case t (kw ''not'')"

definition shallow :: "'f expr option \<Rightarrow> bool" where
  "shallow f = (case f of None \<Rightarrow> True | Some e \<Rightarrow> nesting e \<le> 256)"

definition printable :: "'f statement \<Rightarrow> bool" where
  "printable st \<longleftrightarrow>
     list_all writable (print_stmt st) \<and>
     (case st of
        CreateTable _ cs _ \<Rightarrow> list_all (\<lambda>c. plain_type (cd_data_type c)) cs
      | Select _ _ f _ _ _ _ \<Rightarrow> shallow f
      | Update _ _ f \<Rightarrow> shallow f
      | Delete _ f \<Rightarrow> shallow f
      | _ \<Rightarrow> True)"

section \<open>A calculus of reading\<close>

text \<open>\<open>reads F m ks x\<close>: on tokens \<open>ks @ rest\<close> with \<open>F rest\<close>, \<open>m\<close> returns \<open>x\<close> and leaves \<open>rest\<close>.\<close>

definition reads :: "('f token_kind list \<Rightarrow> bool) \<Rightarrow> ('f, 'a) parse \<Rightarrow> 'f token_kind list \<Rightarrow> 'a \<Rightarrow> bool" where
  "reads F m ks x \<longleftrightarrow>
     (\<forall>p rest. map tk_kind (p_rest p) = ks @ rest \<and> F rest \<longrightarrow> (\<exists>p'. m p = (Inr x, p') \<and> map tk_kind (p_rest p') = rest))"

definition starts :: "string \<Rightarrow> 'f token_kind list \<Rightarrow> bool" where
  "starts w ks = (case ks of k # _ \<Rightarrow> is_keyword (kw w) k | [] \<Rightarrow> False)"

lemma readsI:
  "(\<And>p rest. map tk_kind (p_rest p) = ks @ rest \<Longrightarrow> F rest \<Longrightarrow> \<exists>p'. m p = (Inr x, p') \<and> map tk_kind (p_rest p') = rest) \<Longrightarrow> reads F m ks x"
  by (auto simp: reads_def)

lemma reads_bind:
  assumes "reads F1 m k1 x" "reads F (f x) k2 y" "\<And>rest. F rest \<Longrightarrow> F1 (k2 @ rest)"
  shows "reads F (sbind m f) (k1 @ k2) y"
proof (rule readsI)
  fix p :: "'a parser" and rest assume p: "map tk_kind (p_rest p) = (k1 @ k2) @ rest" "F rest"
  then obtain q where q: "m p = (Inr x, q)" "map tk_kind (p_rest q) = k2 @ rest"
    using assms(1,3) by (fastforce simp: reads_def)
  with p(2) obtain p' where "f x q = (Inr y, p')" "map tk_kind (p_rest p') = rest"
    using assms(2) by (fastforce simp: reads_def)
  with q show "\<exists>p'. sbind m f p = (Inr y, p') \<and> map tk_kind (p_rest p') = rest" by auto
qed

lemma reads_peeked:
  assumes "reads F1 m [] x" "\<And>rest. F rest \<Longrightarrow> F1 (ks @ rest)" "reads F (f x) ks y"
  shows "reads F (sbind m f) ks y"
  using reads_bind [of F1 m "[]" x F f ks y] assms by simp

lemma reads_mono: "reads F m ks x \<Longrightarrow> (\<And>rest. F' rest \<Longrightarrow> F rest) \<Longrightarrow> reads F' m ks x"
  by (auto simp: reads_def)

lemma reads_ret [simp]: "reads F (sret x) [] x"
  by (auto simp: reads_def)

lemma reads_pair [simp]: "reads F (Pair (Inr x)) [] x"
  by (auto simp: reads_def)

lemma reads_get: "(\<And>p rest. map tk_kind (p_rest p) = ks @ rest \<Longrightarrow> F rest \<Longrightarrow> f p = g) \<Longrightarrow> reads F g ks x \<Longrightarrow> reads F (sbind sget f) ks x"
  unfolding reads_def by (metis s_simps(3) sbind_simps(1))

lemma reads_advance: "reads F (advance 1) [k] ()"
  by (rule readsI) (auto simp: advance_def map_eq_Cons_conv)

section \<open>Keywords\<close>

lemma of_char_inj: "(of_char c :: u8) = of_char d \<longleftrightarrow> c = d"
proof
  assume "(of_char c :: u8) = of_char d"
  then have "(of_nat (of_char c) :: u8) = of_nat (of_char d)" by (simp only: of_nat_of_char)
  then have "unat (of_nat (of_char c) :: u8) = unat (of_nat (of_char d) :: u8)" by (rule arg_cong)
  then show "c = d" by (simp add: unat_of_nat)
qed simp

lemma kw_eq: "kw a = kw b \<longleftrightarrow> a = b"
proof -
  have "inj (of_char :: char \<Rightarrow> u8)" by (simp add: inj_def of_char_inj)
  then show ?thesis by (simp add: kw_def inj_map_eq_map)
qed

definition lowercase :: "string \<Rightarrow> bool" where
  "lowercase w = list_all (\<lambda>c. 97 \<le> (of_char c :: nat)) w"

lemma lower_kw: "lowercase w \<Longrightarrow> map to_lower (kw w) = kw w"
proof -
  assume w: "lowercase w"
  have "to_lower (of_char c) = of_char c" if "c \<in> set w" for c
  proof -
    have "unat (of_nat (of_char c) :: u8) = of_char c" by (simp add: unat_of_nat)
    then have u: "unat (of_char c :: u8) = of_char c" by (simp only: of_nat_of_char)
    have "97 \<le> (of_char c :: nat)" using w that by (auto simp: lowercase_def list_all_iff)
    then have "\<not> of_char c \<le> (90 :: u8)" by (simp add: word_le_nat_alt u)
    then show ?thesis by (simp add: to_lower_def)
  qed
  then show ?thesis by (simp add: kw_def)
qed

lemma is_keyword_kwt: "lowercase a \<Longrightarrow> lowercase b \<Longrightarrow> is_keyword (kw a) (kwt b) \<longleftrightarrow> b = a"
  by (simp add: is_keyword_def kwt_def eq_ignore_ascii_case_def lower_kw kw_eq)


lemma lowercase_eval [simp]: "lowercase []" "lowercase (c # w) \<longleftrightarrow> 97 \<le> (of_char c :: nat) \<and> lowercase w"
  by (simp_all add: lowercase_def)

lemma keyword_other [simp]:
  "\<not> is_keyword w TLParen" "\<not> is_keyword w TRParen" "\<not> is_keyword w TComma" "\<not> is_keyword w TSemicolon"
  "\<not> is_keyword w (TString s)" "\<not> is_keyword w (TQuotedIdent s)" "\<not> is_keyword w (TInteger i)"
  "\<not> is_keyword w (TFloat f)" "\<not> is_keyword w (TParam n)" "\<not> is_keyword w TEq" "\<not> is_keyword w TNotEq"
  "\<not> is_keyword w TLt" "\<not> is_keyword w TLtEq" "\<not> is_keyword w TGt" "\<not> is_keyword w TGtEq" "\<not> is_keyword w TStar"
  by (simp_all add: is_keyword_def)

lemma kwt_neq [simp]: "kwt w \<noteq> TLParen" "kwt w \<noteq> TRParen" "kwt w \<noteq> TComma" "kwt w \<noteq> TStar" "kwt w \<noteq> TSemicolon"
   "TLParen \<noteq> kwt w" "TRParen \<noteq> kwt w" "TComma \<noteq> kwt w"
  by (simp_all add: kwt_def)

lemma keyword_op [simp]: "\<not> is_keyword w (print_op op)"
  by (simp add: print_op_def split: comparison_op.split)

lemma keyword_self: "is_keyword (kw w) (kwt w)"
  by (simp add: is_keyword_def kwt_def eq_ignore_ascii_case_def)

lemma starts_simps [simp]: "starts w [] = False" "starts w (k # ks) = is_keyword (kw w) k"
  by (simp_all add: starts_def)

section \<open>Reading tokens\<close>

lemma peek_kinds: "map tk_kind (p_rest p) = ks \<Longrightarrow> peek p = (case ks of [] \<Rightarrow> None | k # _ \<Rightarrow> Some k)"
  by (cases "p_rest p") (auto simp: peek_def peek_at_def)

lemma peek1_kinds: "map tk_kind (p_rest p) = k # k' # ks \<Longrightarrow> peek_at 1 p = Some k'"
  by (auto simp: peek_at_def map_eq_Cons_conv)

lemma reads_take: "reads F take_tok [k] k"
  by (rule readsI) (auto simp: take_tok_def next_tok_def sbind_def peek_kinds map_eq_Cons_conv)

lemma reads_next: "reads F next_tok [k] (Some k)"
  by (rule readsI) (auto simp: next_tok_def peek_kinds map_eq_Cons_conv)

lemma reads_step:
  assumes "\<And>F. reads F m [k] x" "reads F (f x) ks y"
  shows "reads F (sbind m f) (k # ks) y"
  using reads_bind [of "\<lambda>_. True" m "[k]" x F f ks y] assms by simp

lemma reads_expect_keyword: "reads F (expect_keyword w) [kwt w] ()"
  unfolding expect_keyword_def by (rule reads_step [OF reads_take]) (simp add: keyword_self reads_ret)

lemma reads_expect_kind: "reads F (expect_kind k) [k] ()"
  unfolding expect_kind_def by (rule reads_step [OF reads_take]) (simp add: reads_ret)

lemma reads_accept_keyword: "reads F (accept_keyword w) [kwt w] True"
  by (rule readsI) (auto simp: accept_keyword_def peek_keyword_def peek_kinds map_eq_Cons_conv keyword_self)

lemma reads_accept_kind: "reads F (accept_kind k) [k] True"
  by (rule readsI) (auto simp: accept_kind_def peek_kinds map_eq_Cons_conv)

lemma reads_keyword_absent: "reads (\<lambda>r. \<not> starts w r) (accept_keyword w) [] False"
  by (rule readsI) (auto simp: accept_keyword_def peek_keyword_def peek_kinds starts_def split: list.splits)

lemma reads_no_keyword:
  assumes "\<And>rest. F rest \<Longrightarrow> \<not> starts w (ks @ rest)" "reads F (f False) ks y"
  shows "reads F (sbind (accept_keyword w) f) ks y"
  by (rule reads_peeked [OF reads_keyword_absent]) (use assms in auto)

lemma reads_no_kind:
  assumes "\<And>rest. F rest \<Longrightarrow> ks @ rest \<noteq> [] \<Longrightarrow> hd (ks @ rest) \<noteq> k" "reads F (f False) ks y"
  shows "reads F (sbind (accept_kind k) f) ks y"
proof (rule reads_peeked [of "\<lambda>r. r \<noteq> [] \<longrightarrow> hd r \<noteq> k" _ False])
  show "reads (\<lambda>r. r \<noteq> [] \<longrightarrow> hd r \<noteq> k) (accept_kind k) [] False"
    by (rule readsI) (auto simp: accept_kind_def peek_kinds split: list.splits)
qed (use assms in auto)

lemma reads_ident: "name_ok c \<Longrightarrow> reads F expect_ident [TQuotedIdent c] c"
  unfolding expect_ident_def
  by (rule reads_step [OF reads_take]) (auto simp: sbind_sret name_ok_def reads_ret)

lemma reads_param: "reads F (param (Some (Suc i))) [] i"
  by (rule readsI) (simp add: param_def)

lemma reads_value: "wf_value e \<Longrightarrow> reads F expect_value [print_operand e] e"
  unfolding expect_value_def
proof (rule reads_step [OF reads_take], cases e)
  case (Literal v)
  then show "reads F (case print_operand e of TString s \<Rightarrow> sret (Literal (VText s)) | TInteger i \<Rightarrow> sret (Literal (VInteger i))
     | TFloat f \<Rightarrow> sret (Literal (VFloat f)) | TParam n \<Rightarrow> sbind (param n) (\<lambda>i. sret (Param i))
     | TIdent w \<Rightarrow> if eq_ignore_ascii_case w (kw ''null'') then sret (Literal VNull) else serr InvalidArgument
     | _ \<Rightarrow> serr InvalidArgument) [] e"
    by (cases v) (auto simp: reads_ret kwt_def eq_ignore_ascii_case_def)
next
  case (Param i)
  then show "reads F (case print_operand e of TString s \<Rightarrow> sret (Literal (VText s)) | TInteger i \<Rightarrow> sret (Literal (VInteger i))
     | TFloat f \<Rightarrow> sret (Literal (VFloat f)) | TParam n \<Rightarrow> sbind (param n) (\<lambda>i. sret (Param i))
     | TIdent w \<Rightarrow> if eq_ignore_ascii_case w (kw ''null'') then sret (Literal VNull) else serr InvalidArgument
     | _ \<Rightarrow> serr InvalidArgument) [] e"
    by (auto intro!: reads_peeked [of "\<lambda>_. True" _ i] reads_param reads_ret)
qed auto

lemma reads_operand: "wf_operand e \<Longrightarrow> reads F parse_operand [print_operand e] e"
proof (rule readsI)
  fix p :: "'a parser" and rest assume e: "wf_operand e" and p: "map tk_kind (p_rest p) = [print_operand e] @ rest" "F rest"
  have pk: "peek p = Some (print_operand e)" using p(1) by (simp add: peek_kinds)
  show "\<exists>p'. parse_operand p = (Inr e, p') \<and> map tk_kind (p_rest p') = rest"
  proof (cases "\<exists>c. e = Column c")
    case True
    then obtain c where c: "e = Column c" by blast
    have "reads F (sbind expect_ident (\<lambda>c. sret (Column c))) [TQuotedIdent c] e"
      using e c by (auto intro!: reads_step [OF reads_ident] reads_ret)
    then show ?thesis using p pk c unfolding parse_operand_def reads_def by fastforce
  next
    case False
    then have "wf_value e" using e by (cases e) auto
    then have "reads F expect_value [print_operand e] e" by (rule reads_value)
    moreover have "parse_operand p = expect_value p \<or> e = Literal VNull"
      using False \<open>wf_value e\<close> pk by (cases e; cases "case e of Literal v \<Rightarrow> v") (auto simp: parse_operand_def)
    moreover have "\<exists>p'. parse_operand p = (Inr e, p') \<and> map tk_kind (p_rest p') = rest" if "e = Literal VNull"
      using that pk p(1) by (auto simp: parse_operand_def kwt_def eq_ignore_ascii_case_def advance_def sbind_def map_eq_Cons_conv)
    ultimately show ?thesis using p unfolding reads_def by fastforce
  qed
qed


section \<open>Lists\<close>

lemma while_reads:
  assumes "\<And>acc x. x \<in> set xs \<Longrightarrow> reads G (body acc) (pr x) (step acc x)" and t: "\<And>F. reads F test [t] True" "reads F test [] False"
    and G: "\<And>r. G (t # r)" "\<And>r. F r \<Longrightarrow> G r"
  shows "length xs < n \<Longrightarrow> reads F (while_accept n test body acc) (concat (map (\<lambda>x. t # pr x) xs)) (foldl step acc xs)"
  using assms(1)
proof (induction xs arbitrary: n acc)
  case Nil
  then obtain m where "n = Suc m" by (cases n) auto
  then show ?case using t(2) by (auto intro!: reads_peeked [of F _ False])
next
  case (Cons x xs)
  then obtain m where n: "n = Suc m" "length xs < m" by (cases n) auto
  let ?ks = "concat (map (\<lambda>x. t # pr x) xs)"
  have "reads F (while_accept m test body (step acc x)) ?ks (foldl step (step acc x) xs)"
    using Cons.IH [OF n(2)] Cons.prems(2) by simp
  moreover have "reads G (body acc) (pr x) (step acc x)" using Cons.prems(2) by simp
  moreover have "G (?ks @ rest)" if "F rest" for rest using that G by (cases xs) auto
  ultimately have "reads F (sbind (body acc) (while_accept m test body)) (pr x @ ?ks) (foldl step (step acc x) xs)"
    by (intro reads_bind)
  then show ?case using n by (auto intro!: reads_step [OF t(1)])
qed

lemma ploop_reads:
  fixes body :: "'a \<Rightarrow> ('f, 'a) parse"
  assumes "\<And>acc x. x \<in> set xs \<Longrightarrow> reads G (body acc) (pr x) (step acc x)" "\<And>F. reads F test [t] True" "reads F test [] False"
    "\<And>r. G (t # r)" "\<And>r. F r \<Longrightarrow> G r"
  shows "reads F (ploop test body acc) (concat (map (\<lambda>x. t # pr x) xs)) (foldl step acc xs)"
proof (rule readsI)
  let ?ks = "concat (map (\<lambda>x. t # pr x) xs)"
  fix p :: "'f parser" and rest assume p: "map tk_kind (p_rest p) = ?ks @ rest" "F rest"
  have "length xs \<le> length ?ks" by (induction xs) auto
  moreover have "length (p_rest p) = length ?ks + length rest" using p(1) by (metis length_append length_map)
  ultimately have "length xs < Suc (length (p_rest p))" by simp
  then have "reads F (while_accept (Suc (length (p_rest p))) test body acc) ?ks (foldl step acc xs)"
    using assms by (intro while_reads [where G = G]) auto
  then show "\<exists>p'. ploop test body acc p = (Inr (foldl step acc xs), p') \<and> map tk_kind (p_rest p') = rest"
    using p unfolding reads_def ploop_def by blast
qed

lemma commas_alt: "commas pr (x # xs) = pr x @ concat (map (\<lambda>x. TComma # pr x) xs)"
  by (induction xs arbitrary: x) auto

lemma foldl_snoc: "foldl (\<lambda>out y. out @ [y]) out xs = out @ xs"
  by (induction xs arbitrary: out) auto

lemma reads_commas:
  fixes item :: "('f, 'a) parse"
  assumes item: "\<And>x. x \<in> set xs \<Longrightarrow> reads G item (pr x) x" and G: "\<And>r. G (TComma # r)" "\<And>r. F r \<Longrightarrow> G r"
    and F: "\<And>r. F (TComma # r) \<Longrightarrow> False" and ne: "xs \<noteq> []"
  shows "reads F (comma_separated item) (commas pr xs) xs"
proof -
  obtain x ys where xs: "xs = x # ys" using ne by (cases xs) auto
  have body: "reads G (sbind item (\<lambda>y. sret (out @ [y]))) (pr z) (out @ [z])" if "z \<in> set ys" for z out
    using reads_bind [of G item "pr z" z G "\<lambda>y. sret (out @ [y])" "[]"] item xs that by (simp del: s_simps)
  have "reads F (accept_kind TComma) [] False"
  proof (rule readsI)
    fix p :: "'f parser" and rest assume "map tk_kind (p_rest p) = [] @ rest" "F rest"
    then show "\<exists>p'. accept_kind TComma p = (Inr False, p') \<and> map tk_kind (p_rest p') = rest"
      using F by (cases rest) (auto simp: accept_kind_def peek_kinds)
  qed
  from ploop_reads [where F = F and G = G and acc = "[x]" and xs = ys and pr = pr and step = "\<lambda>out y. out @ [y]", OF body reads_accept_kind this G]
  have "reads F (ploop (accept_kind TComma) (\<lambda>out. sbind item (\<lambda>y. sret (out @ [y]))) [x]) (concat (map (\<lambda>x. TComma # pr x) ys)) (x # ys)"
    by (simp add: foldl_snoc del: s_simps)
  moreover have "G (concat (map (\<lambda>x. TComma # pr x) ys) @ rest)" if "F rest" for rest using that G by (cases ys) auto
  ultimately show ?thesis
    unfolding comma_separated_def xs commas_alt using item [of x] xs by (auto intro!: reads_bind)
qed

section \<open>Conditions\<close>

lemma operand_not_keyword: "wf_operand e \<Longrightarrow> lowercase w \<Longrightarrow> w \<noteq> ''null'' \<Longrightarrow> \<not> is_keyword (kw w) (print_operand e)"
  by (cases e rule: print_operand.cases) (auto simp: is_keyword_kwt)

lemma operand_not_kind: "wf_operand e \<Longrightarrow> k \<in> {TLParen, TRParen, TComma, TStar} \<Longrightarrow> print_operand e \<noteq> k"
  by (cases e rule: print_operand.cases) auto

lemma negation_ahead_kinds:
  "map tk_kind (p_rest p) = kwt ''not'' # k # ks \<Longrightarrow> list_ex (\<lambda>w. is_keyword (kw w) k) [''in'', ''between'', ''like'', ''ilike''] \<Longrightarrow> negation_ahead p"
  by (simp add: negation_ahead_def peek_keyword_def peek_kinds peek1_kinds [of p _ k, simplified] keyword_self)

lemma reads_tail:
  assumes "reads F (in_tail left n) ks e" "ks \<noteq> []" "n \<Longrightarrow> list_ex (\<lambda>w. is_keyword (kw w) (hd ks)) [''in'', ''between'', ''like'', ''ilike'']"
    "\<not> n \<Longrightarrow> \<not> is_keyword (kw ''not'') (hd ks)" "\<not> is_keyword (kw ''is'') (hd ks)"
  shows "reads F (predicate_tail left) (opt_not n @ ks) e"
proof -
  obtain k ks' where k: "ks = k # ks'" using assms(2) by (cases ks) auto
  have "reads F (sbind sget (\<lambda>p. if negation_ahead p then sbind (advance 1) (\<lambda>_. in_tail left True) else in_tail left False)) (opt_not n @ ks) e"
  proof (cases n)
    case True
    show ?thesis
    proof (rule reads_get)
      show "reads F (sbind (advance 1) (\<lambda>_. in_tail left True)) (opt_not n @ ks) e"
        using assms(1) True by (auto simp: opt_not_def intro!: reads_step [OF reads_advance [simplified]])
      show "(if negation_ahead p then sbind (advance 1) (\<lambda>_. in_tail left True) else in_tail left False) = sbind (advance 1) (\<lambda>_. in_tail left True)"
        if "map tk_kind (p_rest p) = (opt_not n @ ks) @ rest" for p :: "'a parser" and rest
        using negation_ahead_kinds [of p k "ks' @ rest"] that assms(3) k True by (auto simp: opt_not_def)
    qed
  next
    case False
    show ?thesis
    proof (rule reads_get)
      show "reads F (in_tail left False) (opt_not n @ ks) e" using assms(1) False by (simp add: opt_not_def)
      show "(if negation_ahead p then sbind (advance 1) (\<lambda>_. in_tail left True) else in_tail left False) = in_tail left False"
        if "map tk_kind (p_rest p) = (opt_not n @ ks) @ rest" for p :: "'a parser" and rest
        using that False assms(4) k by (auto simp: negation_ahead_def peek_keyword_def peek_kinds opt_not_def)
    qed
  qed
  then show ?thesis
    unfolding predicate_tail_def using assms(5) k by (auto simp: opt_not_def is_keyword_kwt intro!: reads_no_keyword)
qed

lemma comparison_of_print: "comparison_of (print_op op) = Some op"
  by (cases op) (simp_all add: print_op_def comparison_of_def)

lemma reads_comparison:
  assumes "wf_cond (Compare l op r)"
  shows "reads F (comparison_tail l) [print_op op, print_operand r] (Compare l op r)"
  unfolding comparison_tail_def using assms
  by (auto simp: sbind_sret comparison_of_print intro!: reads_step [OF reads_next] reads_step [OF reads_operand])

lemma reads_predicate_tail:
  assumes "wf_cond e" "\<forall>a b. e \<noteq> AndE a b \<and> e \<noteq> OrE a b \<and> e \<noteq> NotE a"
  obtains l ks where "print_cond e = print_operand l # ks" "wf_operand l" "\<And>F. reads F (predicate_tail l) ks e"
proof (cases e)
  case (Compare l op r)
  have "reads F (in_tail l False) [print_op op, print_operand r] (Compare l op r)" for F
    unfolding in_tail_def like_tail_def using assms(1) Compare
    by (auto simp del: wf_cond.simps intro!: reads_no_keyword reads_comparison)
  then have "reads F (predicate_tail l) (opt_not False @ [print_op op, print_operand r]) (Compare l op r)" for F
    by (rule reads_tail) auto
  then show thesis using that [of l] assms(1) Compare by (auto simp: opt_not_def)
next
  case (IsNull l n)
  have "reads F (predicate_tail l) (kwt ''is'' # opt_not n @ [kwt ''null'']) e" for F
    unfolding predicate_tail_def IsNull
    by (cases n) (auto simp: opt_not_def is_keyword_kwt intro!: reads_step [OF reads_accept_keyword] reads_no_keyword reads_step [OF reads_expect_keyword])
  then show thesis using that [of l] assms(1) IsNull by auto
next
  case (InList l es n)
  have "reads (\<lambda>r. hd r = TRParen) (comma_separated parse_operand) (commas (\<lambda>x. [print_operand x]) es) es"
    using InList assms(1) by (intro reads_commas [where G = "\<lambda>_. True"] reads_operand) (auto simp: list_all_iff)
  then have "reads F (sbind (comma_separated parse_operand) (\<lambda>list. sbind (expect_kind TRParen) (\<lambda>_. sret (InList l list n))))
      (commas (\<lambda>x. [print_operand x]) es @ [TRParen]) (InList l es n)" for F
    by (rule reads_bind) (auto intro!: reads_step [OF reads_expect_kind])
  then have "reads F (in_tail l n) (kwt ''in'' # TLParen # commas (\<lambda>x. [print_operand x]) es @ [TRParen]) e" for F
    unfolding in_tail_def InList by (auto intro!: reads_step [OF reads_accept_keyword] reads_step [OF reads_expect_kind])
  then have "reads F (predicate_tail l) (opt_not n @ kwt ''in'' # TLParen # commas (\<lambda>x. [print_operand x]) es @ [TRParen]) e" for F
    by (rule reads_tail) (auto simp: is_keyword_kwt)
  then show thesis using that [of l] assms(1) InList by auto
next
  case (Between l lo hi n)
  have "reads F (in_tail l n) [kwt ''between'', print_operand lo, kwt ''and'', print_operand hi] e" for F
    unfolding in_tail_def using Between assms(1)
    by (auto intro!: reads_no_keyword reads_step [OF reads_accept_keyword] reads_step [OF reads_operand] reads_step [OF reads_expect_keyword] simp: is_keyword_kwt)
  then have "reads F (predicate_tail l) (opt_not n @ [kwt ''between'', print_operand lo, kwt ''and'', print_operand hi]) e" for F
    by (rule reads_tail) (auto simp: is_keyword_kwt)
  then show thesis using that [of l] assms(1) Between by auto
next
  case (Like l p n ci)
  have "reads F (in_tail l n) [kwt (if ci then ''ilike'' else ''like''), print_operand p] e" for F
    unfolding in_tail_def like_tail_def using Like assms(1)
    by (cases ci) (auto intro!: reads_no_keyword reads_step [OF reads_accept_keyword] reads_step [OF reads_operand] simp: is_keyword_kwt)
  then have "reads F (predicate_tail l) (opt_not n @ [kwt (if ci then ''ilike'' else ''like''), print_operand p]) e" for F
    by (rule reads_tail) (auto simp: is_keyword_kwt)
  then show thesis using that [of l] assms(1) Like by auto
qed (use assms in auto)


lemma reads_chain:
  fixes m :: "('f, 'f expr) parse"
  assumes m: "reads G m ka a" "\<And>x. x \<in> set bs \<Longrightarrow> reads G m (pr x) x" and G: "\<And>r. G (kwt w # r)" "\<And>r. F r \<Longrightarrow> G r"
    and F: "\<And>r. F r \<Longrightarrow> \<not> starts w r"
  shows "reads F (sbind m (\<lambda>left. ploop (accept_keyword w) (\<lambda>left. sbind m (\<lambda>right. sret (C left right))) left))
    (ka @ concat (map (\<lambda>x. kwt w # pr x) bs)) (foldl C a bs)"
proof -
  let ?ks = "concat (map (\<lambda>x. kwt w # pr x) bs) :: 'f token_kind list"
  have body: "reads G (sbind m (\<lambda>right. sret (C left right))) (pr x) (C left x)" if "x \<in> set bs" for x left
    using reads_bind [of G m "pr x" x G "\<lambda>right. sret (C left right)" "[]"] m(2) that by (simp del: s_simps)
  have stop: "reads F (accept_keyword w) [] False"
    by (rule reads_mono [OF reads_keyword_absent F])
  have "reads F (ploop (accept_keyword w) (\<lambda>left. sbind m (\<lambda>right. sret (C left right))) a) ?ks (foldl C a bs)"
    by (rule ploop_reads [where G = G, OF body reads_accept_keyword stop G])
  moreover have "G (?ks @ rest)" if "F rest" for rest using that G by (cases bs) auto
  ultimately show ?thesis by (intro reads_bind [OF m(1)])
qed

abbreviation after_cond :: "'f token_kind list \<Rightarrow> bool" where
  "after_cond r \<equiv> \<not> starts ''or'' r \<and> \<not> starts ''and'' r"

lemma guard_depth_ok: "d \<le> 256 \<Longrightarrow> guard_depth d = Inr ()"
  by (simp add: guard_depth_def)

lemma reads_paren:
  assumes "reads after_cond (parse_or (d + 1)) ks e" "d \<le> 256"
  shows "reads F (parse_predicate d) (TLParen # ks @ [TRParen]) e"
proof -
  have "reads F (sbind (expect_kind TRParen) (\<lambda>_. sret e)) [TRParen] e" by (auto intro!: reads_step [OF reads_expect_kind])
  then have "reads F (sbind (parse_or (d + 1)) (\<lambda>inner. sbind (expect_kind TRParen) (\<lambda>_. sret inner))) (ks @ [TRParen]) e"
    by (rule reads_bind [OF assms(1)]) simp
  then show ?thesis unfolding parse_predicate.simps [of d] guard_depth_ok [OF assms(2)]
    by (auto intro!: reads_step [OF reads_accept_kind])
qed

lemma reads_simple:
  assumes "wf_cond e" "\<forall>a b. e \<noteq> AndE a b \<and> e \<noteq> OrE a b \<and> e \<noteq> NotE a" "d \<le> 256"
  shows "reads F (parse_predicate d) (print_cond e) e" "\<not> is_keyword (kw ''not'') (hd (print_cond e))" "print_cond e \<noteq> []"
proof -
  obtain l ks where l: "print_cond e = print_operand l # ks" "wf_operand l" "\<And>F. reads F (predicate_tail l) ks e"
    using reads_predicate_tail assms(1,2) by blast
  show "\<not> is_keyword (kw ''not'') (hd (print_cond e))" "print_cond e \<noteq> []"
    using l(1) operand_not_keyword [OF l(2), of "''not''"] by simp_all
  show "reads F (parse_predicate d) (print_cond e) e"
    unfolding parse_predicate.simps [of d] guard_depth_ok [OF assms(3)] l(1)
    using l(2,3) operand_not_kind [OF l(2)] by (auto intro!: reads_no_kind reads_step [OF reads_operand])
qed

lemma reads_not:
  assumes "reads F (parse_predicate (d + 1)) ks e" "ks \<noteq> []" "\<not> is_keyword (kw ''not'') (hd ks)" "d \<le> 256"
  shows "reads F (parse_not d) ks e"
  unfolding parse_not.simps [of d] guard_depth_ok [OF assms(4)] using assms(1-3)
  by (cases ks) (auto intro!: reads_no_keyword)

lemma reads_and:
  assumes "reads (\<lambda>_. True) (parse_not (d + 1)) ka a" "\<And>x. x \<in> set bs \<Longrightarrow> reads (\<lambda>_. True) (parse_not (d + 1)) (pr x) x" "d \<le> 256"
  shows "reads (\<lambda>r. \<not> starts ''and'' r) (parse_and d) (ka @ concat (map (\<lambda>x. kwt ''and'' # pr x) bs)) (foldl AndE a bs)"
  unfolding parse_and.simps [of d] guard_depth_ok [OF assms(3)] using reads_chain [OF assms(1,2)] by simp

lemma reads_or:
  assumes "reads (\<lambda>r. \<not> starts ''and'' r) (parse_and (d + 1)) ka a"
    "\<And>x. x \<in> set bs \<Longrightarrow> reads (\<lambda>r. \<not> starts ''and'' r) (parse_and (d + 1)) (pr x) x" "d \<le> 256"
  shows "reads after_cond (parse_or d) (ka @ concat (map (\<lambda>x. kwt ''or'' # pr x) bs)) (foldl OrE a bs)"
proof -
  have "reads after_cond (sbind (parse_and (d + 1)) (\<lambda>left. ploop (accept_keyword ''or'') (\<lambda>left. sbind (parse_and (d + 1)) (\<lambda>right. sret (OrE left right))) left))
    (ka @ concat (map (\<lambda>x. kwt ''or'' # pr x) bs)) (foldl OrE a bs)"
    by (rule reads_chain [OF assms(1,2)]) (auto simp: is_keyword_kwt)
  then show ?thesis unfolding parse_or.simps [of d] guard_depth_ok [OF assms(3)] by simp
qed

lemma reads_single:
  assumes "reads (\<lambda>_. True) (parse_not (d + 2)) ks e" "d + 1 \<le> 256"
  shows "reads (\<lambda>r. \<not> starts ''and'' r) (parse_and (d + 1)) ks e" "reads after_cond (parse_or d) ks e"
proof -
  from assms(1) have "reads (\<lambda>_. True) (parse_not (d + 1 + 1)) ks e" by (simp add: add.commute)
  from reads_and [OF this, of "[]"] assms(2) show *: "reads (\<lambda>r. \<not> starts ''and'' r) (parse_and (d + 1)) ks e" by simp
  from reads_or [OF *, of "[]"] assms(2) show "reads after_cond (parse_or d) ks e" by simp
qed

lemma reads_paren_not:
  assumes "reads after_cond (parse_or (d + 2)) ks e" "d + 1 \<le> 256"
  shows "reads F (parse_not d) (TLParen # ks @ [TRParen]) e"
proof (rule reads_not)
  show "reads F (parse_predicate (d + 1)) (TLParen # ks @ [TRParen]) e"
    using assms by (intro reads_paren) (simp_all add: add.commute)
qed (use assms in auto)

lemma reads_simple_or:
  assumes "wf_cond e" "\<forall>a b. e \<noteq> AndE a b \<and> e \<noteq> OrE a b \<and> e \<noteq> NotE a" "d + 3 \<le> 256"
  shows "reads F (parse_not (d + 2)) (print_cond e) e" "reads after_cond (parse_or d) (print_cond e) e"
proof -
  show *: "reads F (parse_not (d + 2)) (print_cond e) e" for F
    using assms by (intro reads_not reads_simple) auto
  show "reads after_cond (parse_or d) (print_cond e) e" using assms(3) by (intro reads_single(2) *) auto
qed

lemma reads_cond: "wf_cond e \<Longrightarrow> d + nesting e \<le> 256 \<Longrightarrow> reads after_cond (parse_or d) (print_cond e) e"
proof (induction e arbitrary: d)
  case (AndE a b)
  have P: "reads F (parse_not (d + 2)) (TLParen # print_cond x @ [TRParen]) x" if "x \<in> {a, b}" for x F
    using AndE that by (intro reads_paren_not) auto
  have "reads (\<lambda>r. \<not> starts ''and'' r) (parse_and (d + 1)) ((TLParen # print_cond a @ [TRParen]) @
      concat (map (\<lambda>x. kwt ''and'' # TLParen # print_cond x @ [TRParen]) [b])) (foldl AndE a [b])"
    using P AndE.prems(2) by (intro reads_and) (auto simp: add.commute)
  from reads_or [of d _ _ "[]", OF this] AndE.prems(2) show ?case by simp
next
  case (OrE a b)
  have P: "reads (\<lambda>r. \<not> starts ''and'' r) (parse_and (d + 1)) (TLParen # print_cond x @ [TRParen]) x" if "x \<in> {a, b}" for x
    using OrE that by (intro reads_single(1) reads_paren_not) auto
  from reads_or [of d _ a "[b]" "\<lambda>x. TLParen # print_cond x @ [TRParen]", OF P P] OrE.prems(2) show ?case by simp
next
  case (NotE a)
  have "reads (\<lambda>_. True) (parse_not (d + 3)) (TLParen # print_cond a @ [TRParen]) a"
    using NotE by (intro reads_paren_not) auto
  then have "reads (\<lambda>_. True) (sbind (parse_not (d + 3)) (\<lambda>e. sret (NotE e))) ((TLParen # print_cond a @ [TRParen]) @ []) (NotE a)"
    by (rule reads_bind) auto
  then have "reads (\<lambda>_. True) (parse_not (d + 2)) (print_cond (NotE a)) (NotE a)"
    unfolding parse_not.simps [of "d + 2"] using NotE.prems(2)
    by (auto simp: guard_depth_ok eval_nat_numeral intro!: reads_step [OF reads_accept_keyword])
  then show ?case using NotE.prems(2) by (intro reads_single(2)) auto
qed (auto simp del: print_cond.simps intro!: reads_simple_or)


section \<open>Statements\<close>

lemma reads_end: "reads F (f x) [] y \<Longrightarrow> reads G m ks x \<Longrightarrow> (\<And>r. F r \<Longrightarrow> G r) \<Longrightarrow> reads F (sbind m f) ks y"
  using reads_bind [of G m ks x F f "[]" y] by simp

lemmas reads_steps = reads_step [OF reads_expect_keyword] reads_step [OF reads_expect_kind] reads_step [OF reads_accept_keyword]
  reads_step [OF reads_accept_kind] reads_step [OF reads_ident] reads_step [OF reads_value] reads_step [OF reads_next]

text \<open>The tokens that can follow the parts of a \<open>SELECT\<close>: nothing, a semicolon or one of the given keywords.\<close>

definition tail_of :: "string list \<Rightarrow> 'f token_kind list \<Rightarrow> bool" where
  "tail_of ws r \<longleftrightarrow> r = [] \<or> hd r = TSemicolon \<or> (\<exists>w \<in> set ws. hd r = kwt w)"

lemma tail_of_starts: "tail_of ws r \<Longrightarrow> list_all lowercase ws \<Longrightarrow> lowercase w \<Longrightarrow> w \<notin> set ws \<Longrightarrow> \<not> starts w r"
  by (cases r) (auto simp: tail_of_def is_keyword_kwt list_all_iff)

lemma tail_of_comma: "tail_of ws (TComma # r) \<Longrightarrow> False" "tail_of ws (TLParen # r) \<Longrightarrow> False"
  by (auto simp: tail_of_def)

lemma tail_of_append: "(ks = [] \<and> set ws \<subseteq> set ws') \<or> (\<exists>w ks'. ks = kwt w # ks' \<and> w \<in> set ws') \<Longrightarrow> tail_of ws r \<Longrightarrow> tail_of ws' (ks @ r)"
  by (auto simp: tail_of_def)

lemma reads_where:
  assumes "wf_filter f" "shallow f" "list_all lowercase ws" "set ws \<inter> {''where'', ''or'', ''and''} = {}"
  shows "reads (tail_of ws) parse_optional_where (print_where f) f"
proof (cases f)
  case None
  then show ?thesis
    unfolding parse_optional_where_def print_where_def using assms(3,4)
    by (auto intro!: reads_no_keyword dest: tail_of_starts [of ws _ "''where''"])
next
  case (Some e)
  have "reads (tail_of ws) (parse_or 0) (print_cond e) e"
    using assms Some
    by (auto intro!: reads_mono [OF reads_cond] simp: wf_filter_def shallow_def
        dest: tail_of_starts [of ws _ "''or''"] tail_of_starts [of ws _ "''and''"])
  then show ?thesis unfolding parse_optional_where_def Some print_where_def
    by (auto intro!: reads_steps reads_end [where G = "tail_of ws"] reads_ret)
qed

lemma reads_delete:
  assumes "wf_statement lower (Delete t f)" "shallow f"
  shows "reads (tail_of []) parse_delete (print_stmt (Delete t f)) (Delete t f)"
  unfolding parse_delete_def using assms
  by (auto intro!: reads_steps reads_end [OF _ reads_where [of f "[]"]] simp: wf_simps)

lemma reads_drop: "wf_statement lower (DropTable t ie) \<Longrightarrow> reads (tail_of []) parse_drop (print_stmt (DropTable t ie)) (DropTable t ie)"
  unfolding parse_drop_def
  by (cases ie) (auto intro!: reads_steps reads_no_keyword simp: wf_simps sbind_sret)

lemma reads_update:
  assumes "wf_statement lower (Update t as f)" "shallow f"
  shows "reads (tail_of []) (parse_update lower) (print_stmt (Update t as f)) (Update t as f)"
proof -
  have item: "reads G parse_assignment [TQuotedIdent c, TEq, print_operand e] (c, e)" if "(c, e) \<in> set as" for c e G
    unfolding parse_assignment_def using assms(1) that by (auto intro!: reads_steps simp: wf_simps list_all_iff)
  have "reads (tail_of [''where'']) (comma_separated parse_assignment) (commas (\<lambda>(c, e). [TQuotedIdent c, TEq, print_operand e]) as) as"
    using item assms(1) by (intro reads_commas [where G = "\<lambda>_. True"]) (auto simp: wf_simps dest: tail_of_comma)
  moreover have "reads (tail_of []) (sbind (slift (reject_duplicates lower (map fst as))) (\<lambda>_.
      sbind parse_optional_where (\<lambda>filter. sret (Update t as filter)))) (print_where f) (Update t as f)"
    using assms by (auto intro!: reads_peeked [of "\<lambda>_. True" _ "()"] reads_end [OF _ reads_where [of f "[]"]]
        simp: wf_simps reads_def [of _ "slift _"] reject_duplicates_iff comp_def)
  ultimately have "reads (tail_of []) (sbind (comma_separated parse_assignment) (\<lambda>assignments.
     sbind (slift (reject_duplicates lower (map fst assignments))) (\<lambda>_.
     sbind parse_optional_where (\<lambda>filter. sret (Update t assignments filter)))))
     (commas (\<lambda>(c, e). [TQuotedIdent c, TEq, print_operand e]) as @ print_where f) (Update t as f)"
    by (rule reads_bind) (auto simp: tail_of_def print_where_def split: option.splits)
  then show ?thesis unfolding parse_update_def using assms(1) by (auto intro!: reads_steps simp: wf_simps)
qed


lemma values_not_paren: "starts ''values'' r \<Longrightarrow> hd r \<noteq> TLParen"
  by (cases r) auto

lemma reads_insert:
  assumes "wf_statement lower (Insert t cs rows)"
  shows "reads (tail_of []) (parse_insert lower) (print_stmt (Insert t cs rows)) (Insert t cs rows)"
proof -
  have cols: "reads (\<lambda>r. starts ''values'' r) (insert_columns lower) (if cs = [] then [] else TLParen # commas print_name cs @ [TRParen]) cs"
  proof (cases "cs = []")
    case True
    then show ?thesis unfolding insert_columns_def by (auto intro!: reads_no_kind dest: values_not_paren)
  next
    case False
    have "reads (\<lambda>r. hd r = TRParen) (comma_separated expect_ident) (commas print_name cs) cs"
      using assms False by (intro reads_commas [where G = "\<lambda>_. True"]) (auto intro!: reads_ident simp: print_name_def wf_simps list_all_iff)
    then have "reads (\<lambda>r. starts ''values'' r) (sbind (comma_separated expect_ident) (\<lambda>columns. sbind (expect_kind TRParen) (\<lambda>_.
       sbind (slift (reject_duplicates lower columns)) (\<lambda>_. sret columns)))) (commas print_name cs @ [TRParen]) cs"
    proof (rule reads_bind)
      show "reads (\<lambda>r. starts ''values'' r) (sbind (expect_kind TRParen) (\<lambda>_. sbind (slift (reject_duplicates lower cs)) (\<lambda>_. sret cs))) [TRParen] cs"
        using assms by (auto intro!: reads_steps reads_peeked [of "\<lambda>_. True" _ "()"] simp: wf_simps reads_def [of _ "slift _"] reject_duplicates_iff)
    qed simp
    then show ?thesis using False unfolding insert_columns_def by (auto intro!: reads_steps)
  qed
  have row: "reads G parse_values_row (print_row r) r" if r: "r \<in> set rows" for r G
  proof -
    have w: "r \<noteq> []" "list_all wf_value r" using assms r by (auto simp: wf_simps list_all_iff)
    have "reads (\<lambda>r. hd r = TRParen) (comma_separated expect_value) (commas (\<lambda>e. [print_operand e]) r) r"
      using w by (intro reads_commas [where G = "\<lambda>_. True"]) (auto intro!: reads_value simp: list_all_iff)
    then have "reads G (sbind (comma_separated expect_value) (\<lambda>row. sbind (expect_kind TRParen) (\<lambda>_. sret row)))
      (commas (\<lambda>e. [print_operand e]) r @ [TRParen]) r"
      by (rule reads_bind) (auto intro!: reads_steps)
    then show ?thesis unfolding parse_values_row_def print_row_def by (auto intro!: reads_steps)
  qed
  have "reads (tail_of []) (comma_separated parse_values_row) (commas print_row rows) rows"
    using row assms by (intro reads_commas [where G = "\<lambda>_. True"]) (auto simp: wf_simps dest: tail_of_comma)
  then have "reads (tail_of []) (sbind (expect_keyword ''values'') (\<lambda>_. sbind (comma_separated parse_values_row) (\<lambda>rows.
     if cs \<noteq> [] \<and> list_ex (\<lambda>r. length r \<noteq> length cs) rows then serr InvalidArgument else sret (Insert t cs rows))))
     (kwt ''values'' # commas print_row rows) (Insert t cs rows)"
    using assms by (intro reads_steps reads_end [where G = "tail_of []" and x = rows]) (auto simp: wf_simps list_ex_iff list_all_iff)
  then have "reads (tail_of []) (sbind (insert_columns lower) (\<lambda>cs. sbind (expect_keyword ''values'') (\<lambda>_. sbind (comma_separated parse_values_row) (\<lambda>rows.
     if cs \<noteq> [] \<and> list_ex (\<lambda>r. length r \<noteq> length cs) rows then serr InvalidArgument else sret (Insert t cs rows)))))
     ((if cs = [] then [] else TLParen # commas print_name cs @ [TRParen]) @ kwt ''values'' # commas print_row rows) (Insert t cs rows)"
    by (rule reads_bind [OF cols]) (simp add: keyword_self)
  then show ?thesis unfolding parse_insert_def using assms by (auto intro!: reads_steps simp: wf_simps)
qed

lemma reads_alias:
  "pred_option name_ok a \<Longrightarrow> (\<And>r. F r \<Longrightarrow> \<not> starts ''as'' r) \<Longrightarrow> reads F parse_alias (print_alias a) a"
  unfolding parse_alias_def print_alias_def
  by (cases a) (auto intro!: reads_steps reads_no_keyword)

definition after_item :: "'f token_kind list \<Rightarrow> bool" where
  "after_item r \<longleftrightarrow> (\<exists>k ks. r = k # ks \<and> (k = TComma \<or> k = kwt ''from''))"

lemma after_item_as: "after_item r \<Longrightarrow> \<not> starts ''as'' r"
  by (auto simp: after_item_def is_keyword_kwt)

lemma agg_of_name: "agg_of (kw (agg_name f)) = Some f"
proof -
  have "lowercase (agg_name f)" by (cases f) (simp_all add: agg_name_def)
  then show ?thesis by (cases f) (simp_all add: agg_of_def lower_kw kw_eq agg_name_def)
qed

lemma reads_advance2: "reads F (advance 2) [k, k'] ()"
  by (rule readsI) (auto simp: advance_def map_eq_Cons_conv)

lemma reads_aggregate:
  assumes "wf_item (Aggregate f c d a)"
  shows "reads after_item (parse_aggregate f) (print_item (Aggregate f c d a)) (Aggregate f c d a)"
proof -
  have al: "reads after_item (sbind parse_alias (\<lambda>alias. sret (Aggregate f c d alias))) (print_alias a) (Aggregate f c d a)"
    using assms by (intro reads_end [OF _ reads_alias [where F = after_item]]) (auto simp: wf_item_def after_item_as)
  let ?body = "sbind (accept_keyword ''distinct'') (\<lambda>distinct.
     sbind (accept_kind TStar) (\<lambda>star.
     sbind (if star then (if f \<noteq> AggCount \<or> distinct then serr InvalidArgument else sret None)
            else sbind expect_ident (\<lambda>c. sret (Some c))) (\<lambda>column.
     sbind (expect_kind TRParen) (\<lambda>_.
     sbind parse_alias (\<lambda>alias. sret (Aggregate f column distinct alias))))))"
  have "reads after_item ?body ((if d then [kwt ''distinct''] else []) @ (case c of None \<Rightarrow> TStar | Some n \<Rightarrow> TQuotedIdent n) # TRParen # print_alias a) (Aggregate f c d a)"
  proof (cases c)
    case None
    then show ?thesis using al assms
      by (cases d) (auto simp: wf_item_def sbind_sret intro!: reads_no_keyword reads_steps)
  next
    case (Some n)
    then show ?thesis using al assms
      by (cases d) (auto simp: wf_item_def sbind_assoc sbind_sret intro!: reads_no_keyword reads_no_kind reads_steps)
  qed
  then have "reads after_item (parse_aggregate f) ([kwt (agg_name f), TLParen] @ (if d then [kwt ''distinct''] else []) @ (case c of None \<Rightarrow> TStar | Some n \<Rightarrow> TQuotedIdent n) # TRParen # print_alias a) (Aggregate f c d a)"
    unfolding parse_aggregate_def by (rule reads_bind [OF reads_advance2 [of "\<lambda>_. True"]]) simp
  then show ?thesis by (simp add: print_item_def)
qed

lemma reads_item:
  assumes "wf_item i"
  shows "reads after_item parse_select_item (print_item i) i"
proof (cases i)
  case (ColumnItem n a)
  have "reads after_item (sbind expect_ident (\<lambda>name. sbind parse_alias (\<lambda>alias. sret (ColumnItem name alias)))) (print_item i) i"
    unfolding ColumnItem print_item_def using assms ColumnItem
    by (auto intro!: reads_steps reads_end [OF _ reads_alias [where F = after_item]] simp: wf_item_def after_item_as)
  moreover have "peek p = Some (TQuotedIdent n)" if "map tk_kind (p_rest p) = print_item i @ rest" for p :: "'a parser" and rest
    using that ColumnItem by (simp add: print_item_def peek_kinds)
  ultimately show ?thesis unfolding reads_def parse_select_item_def by fastforce
next
  case (Aggregate f c d a)
  have "reads after_item (parse_aggregate f) (print_item i) i" using reads_aggregate assms Aggregate by blast
  moreover have "peek p = Some (TIdent (kw (agg_name f)))" "peek_at 1 p = Some TLParen"
    if "map tk_kind (p_rest p) = print_item i @ rest" for p :: "'a parser" and rest
    using that Aggregate peek1_kinds [of p "kwt (agg_name f)" TLParen] by (auto simp: print_item_def peek_kinds kwt_def)
  ultimately show ?thesis unfolding reads_def parse_select_item_def by (fastforce simp: agg_of_name)
qed (use assms in \<open>simp add: wf_item_def\<close>)


lemma reads_by:
  fixes item :: "('f, 'a) parse"
  assumes "\<And>x. x \<in> set xs \<Longrightarrow> reads (\<lambda>_. True) item (pr x) x" "list_all lowercase ws" "lowercase w" "w \<notin> set ws"
  shows "reads (tail_of ws) (optional_list w item) (print_by w pr xs) xs"
proof (cases "xs = []")
  case True
  then show ?thesis unfolding optional_list_def print_by_def using assms(2-4)
    by (auto intro!: reads_no_keyword dest: tail_of_starts [of ws _ w])
next
  case False
  have "reads (tail_of ws) (comma_separated item) (commas pr xs) xs"
    using assms(1) False by (intro reads_commas [where G = "\<lambda>_. True"]) (auto dest: tail_of_comma)
  then show ?thesis unfolding optional_list_def print_by_def using False by (auto intro!: reads_steps)
qed

lemma reads_count:
  assumes "list_all lowercase ws" "lowercase w" "w \<notin> set ws"
  shows "reads (tail_of ws) (optional_count w) (print_count w n) n"
proof (cases n)
  case None
  then show ?thesis unfolding optional_count_def print_count_def using assms
    by (auto intro!: reads_no_keyword dest: tail_of_starts [of ws _ w])
next
  case (Some m)
  then show ?thesis unfolding optional_count_def print_count_def expect_count_def
    by (auto simp: sbind_assoc sbind_sret intro!: reads_steps)
qed

lemma reads_order: "name_ok (oi_column i) \<Longrightarrow> reads F parse_order_item (print_order i) i"
  unfolding parse_order_item_def print_order_def
  by (cases i; cases "oi_desc i") (auto intro!: reads_steps reads_no_keyword reads_end [OF _ reads_accept_keyword] simp: is_keyword_kwt)

lemma tail_steps: "tail_of ws r \<Longrightarrow> tail_of (w # ws) (print_count w n @ r)" "tail_of ws r \<Longrightarrow> tail_of (w # ws) (print_by w pr xs @ r)"
  by (auto simp: tail_of_def print_count_def print_by_def split: option.splits)

lemma reads_clauses:
  assumes "wf_filter f" "shallow f" "list_all name_ok gs" "list_all (name_ok \<circ> oi_column) os"
  shows "reads (tail_of []) (sbind parse_optional_where (\<lambda>filter.
     sbind (optional_list ''group'' expect_ident) (\<lambda>group_by.
     sbind (optional_list ''order'' parse_order_item) (\<lambda>order_by.
     sbind (optional_count ''limit'') (\<lambda>limit.
     sbind (optional_count ''offset'') (\<lambda>offset.
     sret (Select t items filter group_by order_by limit offset)))))))
    (print_where f @ print_by ''group'' print_name gs @ print_by ''order'' print_order os @ print_count ''limit'' l @ print_count ''offset'' off @ [])
    (Select t items f gs os l off)"
proof (intro reads_bind)
  show "reads (tail_of [''group'', ''order'', ''limit'', ''offset'']) parse_optional_where (print_where f) f"
    using assms(1,2) by (rule reads_where) auto
  show "reads (tail_of [''order'', ''limit'', ''offset'']) (optional_list ''group'' expect_ident) (print_by ''group'' print_name gs) gs"
    using assms(3) by (intro reads_by) (auto simp: print_name_def list_all_iff intro!: reads_ident)
  show "reads (tail_of [''limit'', ''offset'']) (optional_list ''order'' parse_order_item) (print_by ''order'' print_order os) os"
    using assms(4) by (intro reads_by) (auto simp: list_all_iff intro!: reads_order)
  show "reads (tail_of [''offset'']) (optional_count ''limit'') (print_count ''limit'' l) l" by (rule reads_count) auto
  show "reads (tail_of []) (optional_count ''offset'') (print_count ''offset'' off) off" by (rule reads_count) auto
qed (auto intro!: tail_steps)

lemma item_not_star: "wf_item i \<Longrightarrow> hd (commas print_item (i # js) @ ks) \<noteq> TStar"
  by (cases i) (auto simp: commas_alt print_item_def wf_item_def)

lemma reads_select:
  assumes "wf_statement lower (Select t items f gs os l off)" "shallow f"
  shows "reads (tail_of []) parse_select (print_stmt (Select t items f gs os l off)) (Select t items f gs os l off)"
proof -
  let ?cl = "print_where f @ print_by ''group'' print_name gs @ print_by ''order'' print_order os @ print_count ''limit'' l @ print_count ''offset'' off"
  let ?rest = "\<lambda>items. sbind (expect_keyword ''from'') (\<lambda>_. sbind expect_ident (\<lambda>table. sbind parse_optional_where (\<lambda>filter.
     sbind (optional_list ''group'' expect_ident) (\<lambda>group_by.
     sbind (optional_list ''order'' parse_order_item) (\<lambda>order_by.
     sbind (optional_count ''limit'') (\<lambda>limit.
     sbind (optional_count ''offset'') (\<lambda>offset.
     sret (Select table items filter group_by order_by limit offset))))))))"
  have rest: "reads (tail_of []) (?rest items) (kwt ''from'' # TQuotedIdent t # ?cl) (Select t items f gs os l off)"
    using reads_clauses [of f gs os t items l off] assms by (auto intro!: reads_steps simp: wf_simps)
  show ?thesis
  proof (cases "items = [Wildcard]")
    case True
    then show ?thesis unfolding parse_select_def using rest by (auto simp: print_item_def sbind_sret intro!: reads_steps)
  next
    case False
    then have w: "items \<noteq> []" "list_all wf_item items" using assms(1) by (auto simp: wf_simps)
    have "reads (\<lambda>r. \<exists>ks. r = kwt ''from'' # ks) (comma_separated parse_select_item) (commas print_item items) items"
      using w by (intro reads_commas [where G = after_item] reads_item) (auto simp: after_item_def list_all_iff)
    then have "reads (tail_of []) (sbind (comma_separated parse_select_item) ?rest) (commas print_item items @ kwt ''from'' # TQuotedIdent t # ?cl) (Select t items f gs os l off)"
      using rest by (rule reads_bind) auto
    moreover obtain i js where i: "items = i # js" "wf_item i" using w by (cases items) auto
    ultimately show ?thesis unfolding parse_select_def
      by (auto simp: item_not_star simp del: commas.simps intro!: reads_steps reads_no_kind)
  qed
qed


section \<open>Column definitions\<close>

definition after_column :: "'f token_kind list \<Rightarrow> bool" where
  "after_column r \<longleftrightarrow> (\<exists>k ks. r = k # ks \<and> (k = TComma \<or> k = TRParen))"

lemma reads_option_word:
  assumes "reads F (option_rest d w) ks (Some d')"
  shows "reads F (column_option d) (TIdent w # ks) (Some d')"
proof (rule readsI)
  fix p :: "'a parser" and rest assume p: "map tk_kind (p_rest p) = (TIdent w # ks) @ rest" "F rest"
  have "reads F (sbind (advance 1) (\<lambda>_. option_rest d w)) (TIdent w # ks) (Some d')"
    by (rule reads_step [OF reads_advance assms])
  then obtain p' where "sbind (advance 1) (\<lambda>_. option_rest d w) p = (Inr (Some d'), p')" "map tk_kind (p_rest p') = rest"
    using p unfolding reads_def by blast
  moreover have "peek p = Some (TIdent w)" using p(1) by (simp add: peek_kinds)
  ultimately show "\<exists>p'. column_option d p = (Inr (Some d'), p') \<and> map tk_kind (p_rest p') = rest"
    unfolding column_option_def option_rest_def data_type_of_alt sbind_assoc by (auto simp: sbind_def advance_def split: if_splits)
qed


lemma column_loop_stop: "reads after_column (column_loop (Suc n) d) [] d"
proof -
  have "reads after_column (column_option d) [] None"
    by (rule readsI) (auto simp: column_option_def peek_kinds after_column_def)
  then show ?thesis by (auto intro!: reads_peeked)
qed

lemma column_loop_step:
  "reads G (column_option d) ks (Some d1) \<Longrightarrow> reads F (column_loop n d1) ks' d' \<Longrightarrow> (\<And>r. F r \<Longrightarrow> G (ks' @ r)) \<Longrightarrow> reads F (column_loop (Suc n) d) (ks @ ks') d'"
  by (auto intro!: reads_bind)

lemma option_keyword:
  "reads F (column_option d) [kwt ''primary'', kwt ''key''] (Some (d\<lparr>cd_primary_key := True\<rparr>))"
  "reads F (column_option d) [kwt ''not'', kwt ''null''] (Some (d\<lparr>cd_not_null := True\<rparr>))"
proof -
  have e: "eq_ignore_ascii_case (kw a) (kw b) \<longleftrightarrow> a = b" if "lowercase a" "lowercase b" for a b
    using that by (simp add: eq_ignore_ascii_case_def lower_kw kw_eq)
  show "reads F (column_option d) [kwt ''primary'', kwt ''key''] (Some (d\<lparr>cd_primary_key := True\<rparr>))"
    unfolding kwt_def [of "''primary''"] by (rule reads_option_word) (auto simp: option_rest_def e intro!: reads_steps)
  show "reads F (column_option d) [kwt ''not'', kwt ''null''] (Some (d\<lparr>cd_not_null := True\<rparr>))"
    unfolding kwt_def [of "''not''"] by (rule reads_option_word) (auto simp: option_rest_def e intro!: reads_steps)
qed

lemma option_type:
  assumes "plain_type t" "cd_data_type d = []"
  shows "reads (\<lambda>r. r \<noteq> [] \<longrightarrow> hd r \<noteq> TLParen) (column_option d) [TIdent t] (Some (d\<lparr>cd_data_type := t\<rparr>))"
proof (rule reads_option_word)
  have "reads (\<lambda>r. r \<noteq> [] \<longrightarrow> hd r \<noteq> TLParen) (data_type_rest t) [] t"
    unfolding data_type_rest_def using assms(1) by (auto simp: plain_type_def intro!: reads_no_kind)
  then have "reads (\<lambda>r. r \<noteq> [] \<longrightarrow> hd r \<noteq> TLParen) (sbind (data_type_rest t) (\<lambda>t. sret (Some (d\<lparr>cd_data_type := t\<rparr>)))) [] (Some (d\<lparr>cd_data_type := t\<rparr>))"
    by (rule reads_peeked) auto
  then show "reads (\<lambda>r. r \<noteq> [] \<longrightarrow> hd r \<noteq> TLParen) (option_rest d t) [] (Some (d\<lparr>cd_data_type := t\<rparr>))"
    using assms by (simp add: option_rest_def plain_type_def del: s_simps)
qed

lemma reads_options:
  assumes "plain_type t" "n > (if t = [] then 0 else 1) + (if pk then 1 else 0) + (if nn then 1 else (0 :: nat))"
  shows "reads after_column (column_loop n \<lparr>cd_name = name, cd_data_type = [], cd_primary_key = False, cd_not_null = False\<rparr>)
    ((if t = [] then [] else [TIdent t]) @ (if pk then [kwt ''primary'', kwt ''key''] else []) @ (if nn then [kwt ''not'', kwt ''null''] else []))
    \<lparr>cd_name = name, cd_data_type = t, cd_primary_key = pk, cd_not_null = nn\<rparr>"
proof -
  have 1: "reads after_column (column_loop n \<lparr>cd_name = name, cd_data_type = t, cd_primary_key = p, cd_not_null = False\<rparr>)
      (if nn then [kwt ''not'', kwt ''null''] else []) \<lparr>cd_name = name, cd_data_type = t, cd_primary_key = p, cd_not_null = nn\<rparr>"
    if "n > (if nn then 1 else 0)" for n p t
  proof -
    from that obtain m where m: "n = Suc m" "nn \<Longrightarrow> m > 0" by (cases n) (auto split: if_splits)
    show ?thesis
    proof (cases nn)
      case True
      then obtain m' where "m = Suc m'" using m(2) by (cases m) auto
      with True m(1) show ?thesis
        using column_loop_step [OF option_keyword(2) [of "\<lambda>_. True" "\<lparr>cd_name = name, cd_data_type = t, cd_primary_key = p, cd_not_null = False\<rparr>"] column_loop_stop]
        by simp
    next
      case False
      with m(1) show ?thesis using column_loop_stop by auto
    qed
  qed
  have 2: "reads after_column (column_loop n \<lparr>cd_name = name, cd_data_type = t, cd_primary_key = False, cd_not_null = False\<rparr>)
      ((if pk then [kwt ''primary'', kwt ''key''] else []) @ (if nn then [kwt ''not'', kwt ''null''] else []))
      \<lparr>cd_name = name, cd_data_type = t, cd_primary_key = pk, cd_not_null = nn\<rparr>"
    if n: "n > (if pk then 1 else 0) + (if nn then 1 else 0)" for n t
  proof (cases pk)
    case True
    then obtain m where m: "n = Suc m" "m > (if nn then 1 else 0)" using n by (cases n) auto
    show ?thesis 
      using column_loop_step [OF option_keyword(1) [of "\<lambda>_. True" "\<lparr>cd_name = name, cd_data_type = t, cd_primary_key = False, cd_not_null = False\<rparr>"],
          simplified, OF 1 [OF m(2)]] True m(1) by simp
  next
    case False
    then show ?thesis using 1 [of n t False] n by (simp split del: if_split)
  qed
  show ?thesis
  proof (cases "t = []")
    case True
    then show ?thesis using 2 [of n "[]"] assms(2) by (simp split del: if_split)
  next
    case False
    then obtain m where m: "n = Suc m" "m > (if pk then 1 else 0) + (if nn then 1 else 0)" using assms(2) by (cases n) auto
    let ?d = "\<lparr>cd_name = name, cd_data_type = [], cd_primary_key = False, cd_not_null = False\<rparr>"
    have "reads after_column (column_loop (Suc m) ?d)
      ([TIdent t] @ ((if pk then [kwt ''primary'', kwt ''key''] else []) @ (if nn then [kwt ''not'', kwt ''null''] else [])))
      \<lparr>cd_name = name, cd_data_type = t, cd_primary_key = pk, cd_not_null = nn\<rparr>"
    proof (rule column_loop_step [OF option_type])
      show "reads after_column (column_loop m (?d\<lparr>cd_data_type := t\<rparr>))
          ((if pk then [kwt ''primary'', kwt ''key''] else []) @ (if nn then [kwt ''not'', kwt ''null''] else []))
          \<lparr>cd_name = name, cd_data_type = t, cd_primary_key = pk, cd_not_null = nn\<rparr>" using 2 [OF m(2), of t] by (simp split del: if_split)
    qed (use assms(1) in \<open>auto simp: after_column_def\<close>)
    then show ?thesis using False m(1) by (simp del: column_loop.simps split del: if_split)
  qed
qed


lemma column_def_eta: "\<lparr>cd_name = cd_name c, cd_data_type = cd_data_type c, cd_primary_key = cd_primary_key c, cd_not_null = cd_not_null c\<rparr> = c"
  by (cases c) simp

lemma reads_column:
  assumes "name_ok (cd_name c)" "plain_type (cd_data_type c)"
  shows "reads after_column parse_column_def (print_column c) c"
  unfolding parse_column_def_def print_column_def
proof (rule reads_step [OF reads_ident [OF assms(1)]], rule readsI)
  let ?ks = "(if cd_data_type c = [] then [] else [TIdent (cd_data_type c)]) @
     (if cd_primary_key c then [kwt ''primary'', kwt ''key''] else []) @ (if cd_not_null c then [kwt ''not'', kwt ''null''] else [])"
  fix p :: "'a parser" and rest assume p: "map tk_kind (p_rest p) = ?ks @ rest" "after_column rest"
  have "length (p_rest p) = length ?ks + length rest" using arg_cong [OF p(1), of length] by simp
  then have "reads after_column (column_loop (Suc (length (p_rest p))) \<lparr>cd_name = cd_name c, cd_data_type = [], cd_primary_key = False, cd_not_null = False\<rparr>) ?ks
      \<lparr>cd_name = cd_name c, cd_data_type = cd_data_type c, cd_primary_key = cd_primary_key c, cd_not_null = cd_not_null c\<rparr>"
    using p(2) by (intro reads_options assms(2)) (auto simp: after_column_def)
  then have "reads after_column (column_loop (Suc (length (p_rest p))) \<lparr>cd_name = cd_name c, cd_data_type = [], cd_primary_key = False, cd_not_null = False\<rparr>) ?ks c"
    by (simp only: column_def_eta)
  then obtain p' where "column_loop (Suc (length (p_rest p))) \<lparr>cd_name = cd_name c, cd_data_type = [], cd_primary_key = False, cd_not_null = False\<rparr> p = (Inr c, p')"
    "map tk_kind (p_rest p') = rest" using p unfolding reads_def by blast
  then show "\<exists>p'. sbind sget (\<lambda>p. column_loop (Suc (length (p_rest p))) \<lparr>cd_name = cd_name c, cd_data_type = [], cd_primary_key = False, cd_not_null = False\<rparr>) p = (Inr c, p') \<and> map tk_kind (p_rest p') = rest"
    by (simp add: sbind_def)
qed

lemma reads_create:
  assumes "wf_statement lower (CreateTable t cs ine)" "list_all (\<lambda>c. plain_type (cd_data_type c)) cs"
  shows "reads (tail_of []) parse_create (print_stmt (CreateTable t cs ine)) (CreateTable t cs ine)"
proof -
  have "reads (\<lambda>r. \<exists>ks. r = TRParen # ks) (comma_separated parse_column_def) (commas print_column cs) cs"
    using assms by (intro reads_commas [where G = after_column] reads_column) (auto simp: wf_simps list_all_iff after_column_def)
  then have "reads (tail_of []) (sbind (comma_separated parse_column_def) (\<lambda>columns. sbind (expect_kind TRParen) (\<lambda>_. sret (CreateTable t columns ine))))
      (commas print_column cs @ [TRParen]) (CreateTable t cs ine)"
    by (rule reads_bind) (auto intro!: reads_steps)
  then show ?thesis unfolding parse_create_def using assms(1)
    by (cases ine) (auto intro!: reads_steps reads_no_keyword simp: wf_simps sbind_sret sbind_assoc)
qed

section \<open>Whole statements\<close>

lemma dispatch:
  "map tk_kind (p_rest p) = kwt w # ks \<Longrightarrow>
   (w = ''create'' \<longrightarrow> parse_statement lower p = parse_create p) \<and> (w = ''drop'' \<longrightarrow> parse_statement lower p = parse_drop p) \<and>
   (w = ''insert'' \<longrightarrow> parse_statement lower p = parse_insert lower p) \<and> (w = ''select'' \<longrightarrow> parse_statement lower p = parse_select p) \<and>
   (w = ''update'' \<longrightarrow> parse_statement lower p = parse_update lower p) \<and> (w = ''delete'' \<longrightarrow> parse_statement lower p = parse_delete p)"
proof -
  assume p: "map tk_kind (p_rest p) = kwt w # ks"
  have up: "map to_upper (kw ''create'') = kw ''CREATE''" "map to_upper (kw ''drop'') = kw ''DROP''"
    "map to_upper (kw ''insert'') = kw ''INSERT''" "map to_upper (kw ''select'') = kw ''SELECT''"
    "map to_upper (kw ''update'') = kw ''UPDATE''" "map to_upper (kw ''delete'') = kw ''DELETE''"
    by code_simp+
  show ?thesis using peek_kinds [OF p] by (auto simp: parse_statement_def kwt_def up kw_eq)
qed

lemma reads_dispatch:
  assumes "reads F m ks st" "ks = kwt w # ks'" "\<And>p ks. map tk_kind (p_rest p) = kwt w # ks \<Longrightarrow> parse_statement lower p = m p"
  shows "reads F (parse_statement lower) ks st"
proof (rule readsI)
  fix p :: "'a parser" and rest assume p: "map tk_kind (p_rest p) = ks @ rest" "F rest"
  then have "parse_statement lower p = m p" using assms(2,3) by simp
  then show "\<exists>p'. parse_statement lower p = (Inr st, p') \<and> map tk_kind (p_rest p') = rest"
    using assms(1) p unfolding reads_def by auto
qed

lemma reads_statement:
  assumes "wf_statement lower st" "printable st"
  shows "reads (tail_of []) (parse_statement lower) (print_stmt st) st"
proof (cases st)
  case (CreateTable t cs ine)
  show ?thesis unfolding CreateTable using assms
    by (intro reads_dispatch [OF reads_create]) (auto simp: CreateTable printable_def dispatch)
next
  case (DropTable t ie)
  show ?thesis unfolding DropTable using assms
    by (intro reads_dispatch [OF reads_drop]) (auto simp: DropTable printable_def dispatch)
next
  case (Insert t cs rows)
  show ?thesis unfolding Insert using assms
    by (intro reads_dispatch [OF reads_insert]) (auto simp: Insert printable_def dispatch)
next
  case (Select t items f gs os l off)
  show ?thesis unfolding Select using assms
    by (intro reads_dispatch [OF reads_select]) (auto simp: Select printable_def dispatch)
next
  case (Update t as f)
  show ?thesis unfolding Update using assms
    by (intro reads_dispatch [OF reads_update]) (auto simp: Update printable_def dispatch)
next
  case (Delete t f)
  show ?thesis unfolding Delete using assms
    by (intro reads_dispatch [OF reads_delete]) (auto simp: Delete printable_def dispatch)
qed




section \<open>The depth guard\<close>

fun height :: "'f expr \<Rightarrow> nat" where
  "height (AndE a b) = Suc (max (height a) (height b))"
| "height (OrE a b) = Suc (max (height a) (height b))"
| "height (NotE a) = Suc (height a)"
| "height _ = 0"

lemma height_chain: "height (foldl AndE a (replicate n b)) \<ge> n"
proof -
  have "height (foldl AndE a (replicate n b)) \<ge> height a + n" 
  proof (induction n arbitrary: a)
    case (Suc n)
    show ?case using Suc.IH [of "AndE a b"] by simp
  qed simp
  then show ?thesis by simp
qed


end
