(* ===== verification/Sql_Value.thy ===== *)
theory Sql_Value
  imports Sql_Ast Bloom "HOL-Library.Product_Lexorder" "HOL-Library.Sublist"
begin

text \<open>
  Stored values and storage keys (\<open>sql/catalog.rs\<close>). A floating-point number is the 64 bits of its IEEE
  representation; every finite one is an integer multiple of \<open>2 ^ -1074\<close>, and \<open>f_val\<close> is that integer, so
  that comparisons of numbers are comparisons of integers. \<open>lower\<close> is \<open>str::to_lowercase\<close>.
\<close>

unbundle bit_operations_syntax

section \<open>Floating-point numbers\<close>

type_synonym f64 = u64

definition f_neg :: "f64 \<Rightarrow> bool" where
  "f_neg b \<longleftrightarrow> 2 ^ 63 \<le> unat b"

definition f_low :: "f64 \<Rightarrow> nat" where
  "f_low b = unat b mod 2 ^ 63"

text \<open>The magnitude from exponent and fraction bits; infinity continues the scale.\<close>

definition f_mag :: "nat \<Rightarrow> int" where
  "f_mag m =
     (let e = m div 2 ^ 52; f = int (m mod 2 ^ 52) in
      if e = 0 then f else (2 ^ 52 + f) * 2 ^ (e - 1))"

definition f_val :: "f64 \<Rightarrow> int" where
  "f_val b = (if f_neg b then - f_mag (f_low b) else f_mag (f_low b))"

definition is_nan :: "f64 \<Rightarrow> bool" where
  "is_nan b \<longleftrightarrow> 2047 * 2 ^ 52 < f_low b"

definition f_finite :: "f64 \<Rightarrow> bool" where
  "f_finite b \<longleftrightarrow> f_low b < 2047 * 2 ^ 52"

definition SCALE :: int where
  "SCALE = 2 ^ 1074"

definition f_trunc :: "f64 \<Rightarrow> int" where
  "f_trunc b = (if f_val b < 0 then - ((- f_val b) div SCALE) else f_val b div SCALE)"

datatype ordering = Less | Equal | Greater

definition cmp :: "'a :: linorder \<Rightarrow> 'a \<Rightarrow> ordering" where
  "cmp a b = (if a < b then Less else if a = b then Equal else Greater)"

definition reverse_ord :: "ordering \<Rightarrow> ordering" where
  "reverse_ord x = (case x of Less \<Rightarrow> Greater | Equal \<Rightarrow> Equal | Greater \<Rightarrow> Less)"

text \<open>\<open>f64::partial_cmp\<close> and \<open>f64::total_cmp\<close>.\<close>

definition f_partial_cmp :: "f64 \<Rightarrow> f64 \<Rightarrow> ordering option" where
  "f_partial_cmp a b = (if is_nan a \<or> is_nan b then None else Some (cmp (f_val a) (f_val b)))"

definition f_total_key :: "f64 \<Rightarrow> int" where
  "f_total_key b = (if f_neg b then - int (f_low b) - 1 else int (f_low b))"

definition f_total_cmp :: "f64 \<Rightarrow> f64 \<Rightarrow> ordering" where
  "f_total_cmp a b = cmp (f_total_key a) (f_total_key b)"

section \<open>Cells\<close>

datatype cell = CText bytes | CInteger int | CFloat f64 | CNull

definition cell_of_value :: "f64 sql_value \<Rightarrow> cell" where
  "cell_of_value v = (case v of VText s \<Rightarrow> CText s | VInteger i \<Rightarrow> CInteger i | VFloat f \<Rightarrow> CFloat f | VNull \<Rightarrow> CNull)"

definition cmp_int_float :: "int \<Rightarrow> f64 \<Rightarrow> ordering option" where
  "cmp_int_float i f =
     (if is_nan f then None
      else if 2 ^ 63 * SCALE \<le> f_val f then Some Less
      else if f_val f < - (2 ^ 63) * SCALE then Some Greater
      else
        let as_int = f_trunc f in
        case cmp i as_int of
          Equal \<Rightarrow>
            (let frac = f_val f - as_int * SCALE in
             Some (if frac > 0 then Less else if frac < 0 then Greater else Equal))
        | other \<Rightarrow> Some other)"

definition cell_display :: "(f64 \<Rightarrow> bytes) \<Rightarrow> cell \<Rightarrow> bytes" where
  "cell_display debug_f64 c =
     (case c of CText s \<Rightarrow> s | CInteger i \<Rightarrow> int_string i | CFloat f \<Rightarrow> debug_f64 f | CNull \<Rightarrow> kw ''NULL'')"

definition cell_rank :: "cell \<Rightarrow> nat" where
  "cell_rank c = (case c of CInteger _ \<Rightarrow> 0 | CFloat _ \<Rightarrow> 0 | CText _ \<Rightarrow> 1 | CNull \<Rightarrow> 2)"

definition total_cmp :: "cell \<Rightarrow> cell \<Rightarrow> ordering" where
  "total_cmp x y =
     (case (x, y) of
        (CInteger a, CInteger b) \<Rightarrow> cmp a b
      | (CFloat a, CFloat b) \<Rightarrow> f_total_cmp a b
      | (CInteger a, CFloat b) \<Rightarrow> (case cmp_int_float a b of Some r \<Rightarrow> r | None \<Rightarrow> Less)
      | (CFloat a, CInteger b) \<Rightarrow> (case cmp_int_float b a of Some r \<Rightarrow> reverse_ord r | None \<Rightarrow> Greater)
      | (CText a, CText b) \<Rightarrow> cmp a b
      | _ \<Rightarrow> cmp (cell_rank x) (cell_rank y))"

definition partial_compare :: "cell \<Rightarrow> cell \<Rightarrow> ordering option" where
  "partial_compare x y =
     (case (x, y) of
        (CNull, _) \<Rightarrow> None
      | (_, CNull) \<Rightarrow> None
      | (CInteger a, CInteger b) \<Rightarrow> Some (cmp a b)
      | (CText a, CText b) \<Rightarrow> Some (cmp a b)
      | (CFloat a, CFloat b) \<Rightarrow> f_partial_cmp a b
      | (CInteger a, CFloat b) \<Rightarrow> cmp_int_float a b
      | (CFloat a, CInteger b) \<Rightarrow> map_option reverse_ord (cmp_int_float b a)
      | _ \<Rightarrow> None)"

section \<open>Names, schemas and storage keys\<close>

definition SCHEMA_PREFIX :: bytes where
  "SCHEMA_PREFIX = 0 # kw ''schema'' @ [0]"

definition ROW_PREFIX :: bytes where
  "ROW_PREFIX = 1 # kw ''row'' @ [0]"

definition PK_PREFIX :: bytes where
  "PK_PREFIX = 2 # kw ''pk'' @ [0]"

definition PK_READY_PREFIX :: bytes where
  "PK_READY_PREFIX = 2 # kw ''pkready'' @ [0]"

definition SEP :: u8 where
  "SEP = 0"

definition validate_name :: "bytes \<Rightarrow> unit res" where
  "validate_name name =
     (if name = [] \<or> length name > 128 then Inl InvalidArgument
      else if has_control name then Inl InvalidArgument
      else Inr ())"

record table_schema =
  ts_name :: bytes
  ts_columns :: "bytes list"
  ts_types :: "bytes list"
  ts_primary_key :: "nat option"
  ts_not_null :: "nat list"
  ts_next_row_id :: nat

text \<open>One round of the loop of \<open>from_defs\<close>, for the definition with index \<open>i\<close>.\<close>

definition add_def :: "(bytes \<Rightarrow> bytes) \<Rightarrow> nat \<Rightarrow> column_def \<Rightarrow> table_schema \<Rightarrow> table_schema res" where
  "add_def lower i d s =
     rbind (validate_name (cd_name d)) (\<lambda>_.
     if list_ex (\<lambda>c. lower c = lower (cd_name d)) (ts_columns s) then Inl InvalidArgument
     else if cd_primary_key d \<and> ts_primary_key s \<noteq> None then Inl InvalidArgument
     else Inr (s\<lparr>ts_columns := ts_columns s @ [cd_name d], ts_types := ts_types s @ [cd_data_type d],
                 ts_primary_key := (if cd_primary_key d then Some i else ts_primary_key s),
                 ts_not_null := (if cd_not_null d \<or> cd_primary_key d then ts_not_null s @ [i] else ts_not_null s)\<rparr>))"

fun add_defs :: "(bytes \<Rightarrow> bytes) \<Rightarrow> nat \<Rightarrow> column_def list \<Rightarrow> table_schema \<Rightarrow> table_schema res" where
  "add_defs lower i [] s = Inr s"
| "add_defs lower i (d # ds) s = rbind (add_def lower i d s) (add_defs lower (i + 1) ds)"

definition from_defs :: "(bytes \<Rightarrow> bytes) \<Rightarrow> bytes \<Rightarrow> column_def list \<Rightarrow> table_schema res" where
  "from_defs lower name defs =
     rbind (validate_name name) (\<lambda>_.
     if defs = [] then Inl InvalidArgument
     else add_defs lower 0 defs
       \<lparr>ts_name = name, ts_columns = [], ts_types = [], ts_primary_key = None, ts_not_null = [], ts_next_row_id = 1\<rparr>)"

definition column_index :: "(bytes \<Rightarrow> bytes) \<Rightarrow> table_schema \<Rightarrow> bytes \<Rightarrow> nat res" where
  "column_index lower s column =
     (case find (\<lambda>i. lower (ts_columns s ! i) = lower column) [0..<length (ts_columns s)] of
        Some i \<Rightarrow> Inr i
      | None \<Rightarrow> Inl InvalidArgument)"

definition width :: "table_schema \<Rightarrow> nat" where
  "width s = length (ts_columns s)"

text \<open>\<open>u64::to_be_bytes\<close>.\<close>

definition be64 :: "nat \<Rightarrow> bytes" where
  "be64 n = rev (to_le 8 n)"

definition schema_key :: "(bytes \<Rightarrow> bytes) \<Rightarrow> bytes \<Rightarrow> bytes" where
  "schema_key lower table = SCHEMA_PREFIX @ lower table"

definition row_prefix :: "(bytes \<Rightarrow> bytes) \<Rightarrow> bytes \<Rightarrow> bytes" where
  "row_prefix lower table = ROW_PREFIX @ lower table @ [SEP]"

definition row_key :: "(bytes \<Rightarrow> bytes) \<Rightarrow> bytes \<Rightarrow> nat \<Rightarrow> bytes" where
  "row_key lower table row_id = row_prefix lower table @ be64 row_id"

definition pk_prefix :: "(bytes \<Rightarrow> bytes) \<Rightarrow> bytes \<Rightarrow> bytes" where
  "pk_prefix lower table = PK_PREFIX @ lower table @ [SEP]"

definition pk_ready_key :: "(bytes \<Rightarrow> bytes) \<Rightarrow> bytes \<Rightarrow> bytes" where
  "pk_ready_key lower table = PK_READY_PREFIX @ lower table"

definition TOP :: u64 where
  "TOP = push_bit 63 1"

definition int_key :: "int \<Rightarrow> bytes" where
  "int_key i = 0x10 # be64 (unat ((word_of_int i :: u64) XOR TOP))"

definition float_key :: "f64 \<Rightarrow> bytes" where
  "float_key f =
     (if f_finite f \<and> f_val f mod SCALE = 0 \<and> - (2 ^ 63) * SCALE \<le> f_val f \<and> f_val f < 2 ^ 63 * SCALE
      then int_key (f_trunc f)
      else 0x11 # be64 (unat (if bit f 63 then NOT f else f XOR TOP)))"

definition pk_key :: "(bytes \<Rightarrow> bytes) \<Rightarrow> bytes \<Rightarrow> cell \<Rightarrow> bytes res" where
  "pk_key lower table v =
     (case v of
        CNull \<Rightarrow> Inl InvalidArgument
      | CInteger i \<Rightarrow> Inr (pk_prefix lower table @ int_key i)
      | CFloat f \<Rightarrow> Inr (pk_prefix lower table @ float_key f)
      | CText s \<Rightarrow> Inr (pk_prefix lower table @ 0x20 # s))"

definition row_id_of :: "(bytes \<Rightarrow> bytes) \<Rightarrow> bytes \<Rightarrow> bytes \<Rightarrow> nat option" where
  "row_id_of lower table key =
     (let p = row_prefix lower table in
      if take (length p) key = p \<and> length key = length p + 8 then Some (from_le (rev (drop (length p) key))) else None)"

section \<open>The value of a number\<close>

lemma f_mag_zero [simp]: "f_mag 0 = 0"
  by (simp add: f_mag_def)

lemma f_mag_less: "m < n \<Longrightarrow> f_mag m < f_mag n"
proof -
  assume mn: "m < n"
  define e f e' f' where d: "e = m div 2 ^ 52" "f = int (m mod 2 ^ 52)" "e' = n div 2 ^ 52" "f' = int (n mod 2 ^ 52)"
  have fb: "0 \<le> f" "f < 2 ^ 52" "0 \<le> f'" "f' < 2 ^ 52" by (simp_all add: d zmod_int)
  have mag: "f_mag m = (if e = 0 then f else (2 ^ 52 + f) * 2 ^ (e - 1))" "f_mag n = (if e' = 0 then f' else (2 ^ 52 + f') * 2 ^ (e' - 1))"
    by (simp_all add: f_mag_def d Let_def)
  consider "e = e'" | "e < e'" using mn d(1,3) by (metis div_le_mono le_neq_implies_less less_imp_le_nat)
  then show ?thesis
  proof cases
    case 1
    then have "f < f'" using mn d by (metis div_mult_mod_eq nat_add_left_cancel_less of_nat_less_iff)
    with 1 show ?thesis by (simp add: mag)
  next
    case 2
    have "(2 ^ 52 :: int) * 2 ^ (e' - 1) \<le> f_mag n" using 2 fb by (simp add: mag)
    moreover have "f_mag m < 2 ^ 52 * 2 ^ (e' - 1)"
    proof (cases "e = 0")
      case True
      have "f < 2 ^ 52 * 1" using fb(2) by simp
      also have "\<dots> \<le> 2 ^ 52 * 2 ^ (e' - 1)" by (intro mult_left_mono) auto
      finally show ?thesis using True by (simp add: mag)
    next
      case False
      have "(2 ^ 52 + f) * 2 ^ (e - 1) < (2 ^ 52 + 2 ^ 52) * 2 ^ (e - 1)" using fb by (intro mult_strict_right_mono) auto
      also have "\<dots> = 2 ^ 52 * 2 ^ e" using False by (cases e) auto
      also have "\<dots> \<le> 2 ^ 52 * 2 ^ (e' - 1)" using 2 by (intro mult_left_mono power_increasing) auto
      finally show ?thesis using False by (simp add: mag)
    qed
    ultimately show ?thesis by simp
  qed
qed

lemma f_mag_less_iff: "f_mag m < f_mag n \<longleftrightarrow> m < n" and f_mag_eq_iff: "f_mag m = f_mag n \<longleftrightarrow> m = n"
  using f_mag_less [of m n] f_mag_less [of n m] by (cases m n rule: linorder_cases; force)+

lemma f_mag_nonneg: "0 \<le> f_mag m"
  using f_mag_less [of 0 m] by (cases "m = 0") auto

lemma bits_of_parts: "f_neg a = f_neg b \<Longrightarrow> f_low a = f_low b \<Longrightarrow> a = b"
proof -
  assume n: "f_neg a = f_neg b" and l: "f_low a = f_low b"
  have s: "unat x = (if f_neg x then 2 ^ 63 else 0) + f_low x" for x :: f64
  proof -
    have "unat x < 2 ^ LENGTH(64)" by (rule unsigned_less)
    then show ?thesis by (auto simp: f_neg_def f_low_def mod_if)
  qed
  show "a = b" using s [of a] s [of b] n l by (simp add: word_unat_eq_iff)
qed

text \<open>Equal values have equal bits, except for the two zeros.\<close>

lemma f_val_inj:
  assumes "f_val a = f_val b" "f_val a \<noteq> 0"
  shows "a = b"
proof (rule bits_of_parts)
  have nz: "f_mag (f_low a) > 0" "f_mag (f_low b) > 0"
    using assms f_mag_nonneg [of "f_low a"] f_mag_nonneg [of "f_low b"] by (auto simp: f_val_def split: if_splits)
  with assms(1) show n: "f_neg a = f_neg b" by (auto simp: f_val_def split: if_splits)
  from assms(1) n have "f_mag (f_low a) = f_mag (f_low b)" by (auto simp: f_val_def split: if_splits)
  then show "f_low a = f_low b" by (simp add: f_mag_eq_iff)
qed


lemma SCALE_pos: "0 < SCALE"
  by (simp add: SCALE_def)

lemma cmp_simps: "cmp a b = Less \<longleftrightarrow> a < b" "cmp a b = Equal \<longleftrightarrow> a = b" "cmp a b = Greater \<longleftrightarrow> b < a"
  by (auto simp: cmp_def)

lemma reverse_cmp: "reverse_ord (cmp a b) = cmp b a"
  by (auto simp: cmp_def reverse_ord_def)

definition is_i64 :: "int \<Rightarrow> bool" where
  "is_i64 i \<longleftrightarrow> - (2 ^ 63) \<le> i \<and> i < 2 ^ 63"

text \<open>The comparison of an integer with a float does not round.\<close>

lemma cmp_int_float_exact:
  assumes "is_i64 i" "\<not> is_nan f"
  shows "cmp_int_float i f = Some (cmp (i * SCALE) (f_val f))"
proof -
  let ?v = "f_val f"
  consider "2 ^ 63 * SCALE \<le> ?v" | "?v < - (2 ^ 63) * SCALE" | "?v < 2 ^ 63 * SCALE" "- (2 ^ 63) * SCALE \<le> ?v" by linarith
  then show ?thesis
  proof cases
    case 1
    have "i * SCALE < 2 ^ 63 * SCALE" using assms(1) SCALE_pos by (intro mult_strict_right_mono) (auto simp: is_i64_def)
    then show ?thesis using 1 assms(2) by (simp add: cmp_int_float_def cmp_def)
  next
    case 2
    have "- (2 ^ 63) * SCALE \<le> i * SCALE" using assms(1) SCALE_pos by (intro mult_right_mono) (auto simp: is_i64_def)
    then have "?v < i * SCALE" using 2 by linarith
    moreover have "- (2 ^ 63) * SCALE < 0" "0 < 2 ^ 63 * SCALE" using SCALE_pos by simp_all
    then have "?v < 2 ^ 63 * SCALE" using 2 by linarith
    ultimately show ?thesis using 2 assms(2) by (simp add: cmp_int_float_def cmp_def)
  next
    case 3
    define t where "t = f_trunc f"
    have t: "(0 \<le> ?v \<and> t * SCALE \<le> ?v \<and> ?v < t * SCALE + SCALE \<and> 0 \<le> t) \<or> (?v < 0 \<and> ?v \<le> t * SCALE \<and> t * SCALE - SCALE < ?v \<and> t \<le> 0)"
    proof (cases "?v < 0")
      case True
      let ?q = "(- ?v) div SCALE"
      have "?q * SCALE \<le> - ?v" "- ?v < ?q * SCALE + SCALE"
        using pos_mod_bound [of SCALE "- ?v"] pos_mod_sign [of SCALE "- ?v"] div_mult_mod_eq [of "- ?v" SCALE] SCALE_pos by linarith+
      moreover have "0 \<le> ?q" using True SCALE_pos by (simp add: pos_imp_zdiv_nonneg_iff)
      ultimately show ?thesis using True by (auto simp: t_def f_trunc_def)
    next
      case False
      have "?v div SCALE * SCALE \<le> ?v" "?v < ?v div SCALE * SCALE + SCALE"
        using pos_mod_bound [of SCALE "?v"] pos_mod_sign [of SCALE "?v"] div_mult_mod_eq [of "?v" SCALE] SCALE_pos by linarith+
      moreover have "0 \<le> ?v div SCALE" using False SCALE_pos by (simp add: pos_imp_zdiv_nonneg_iff)
      ultimately show ?thesis using False by (auto simp: t_def f_trunc_def)
    qed
    have def': "cmp_int_float i f = (case cmp i t of Equal \<Rightarrow> Some (if ?v - t * SCALE > 0 then Less else if ?v - t * SCALE < 0 then Greater else Equal) | other \<Rightarrow> Some other)"
      using 3 assms(2) by (auto simp: cmp_int_float_def t_def Let_def split: ordering.split)
    consider "i < t" | "i = t" | "t < i" by linarith
    then show ?thesis
    proof cases
      case 1
      then have "i * SCALE + SCALE \<le> t * SCALE" using SCALE_pos by (metis add1_zle_eq distrib_right mult_1 mult_right_mono less_imp_le)
      then have "i * SCALE < ?v" using t SCALE_pos 1 by (smt (verit) mult_right_mono)
      then show ?thesis using 1 by (simp add: def' cmp_def)
    next
      case 2
      then show ?thesis unfolding def' by (simp add: cmp_def)
    next
      case 3
      then have "t * SCALE + SCALE \<le> i * SCALE" using SCALE_pos by (metis add1_zle_eq distrib_right mult_1 mult_right_mono less_imp_le)
      then have "?v < i * SCALE" using t SCALE_pos 3 by (smt (verit) mult_right_mono)
      then show ?thesis using 3 by (simp add: def' cmp_def)
    qed
  qed
qed


section \<open>The order of cells\<close>

definition NEG_ZERO :: f64 where
  "NEG_ZERO = 0x8000000000000000"

definition cell_ok :: "cell \<Rightarrow> bool" where
  "cell_ok c = (case c of CInteger i \<Rightarrow> is_i64 i | CFloat f \<Rightarrow> \<not> is_nan f | _ \<Rightarrow> True)"

definition sort_key :: "cell \<Rightarrow> nat \<times> int \<times> bytes" where
  "sort_key c = (case c of CInteger i \<Rightarrow> (0, i * SCALE, []) | CFloat f \<Rightarrow> (0, f_val f, []) | CText s \<Rightarrow> (1, 0, s) | CNull \<Rightarrow> (2, 0, []))"

lemma neg_zero: "f_neg f \<Longrightarrow> f_low f = 0 \<Longrightarrow> f = NEG_ZERO"
  by (rule bits_of_parts) (simp_all add: NEG_ZERO_def f_neg_def f_low_def)

lemma f_total_cmp_val:
  assumes "f \<noteq> NEG_ZERO" "g \<noteq> NEG_ZERO"
  shows "f_total_cmp f g = cmp (f_val f) (f_val g)"
proof -
  have nz: "f_mag (f_low h) > 0" if "f_neg h" "h \<noteq> NEG_ZERO" for h
    using that neg_zero [of h] f_mag_less [of 0 "f_low h"] by auto
  show ?thesis
    using nz [of f] nz [of g] assms f_mag_nonneg [of "f_low f"] f_mag_nonneg [of "f_low g"]
    by (cases "f_neg f"; cases "f_neg g") (auto simp: f_total_cmp_def f_total_key_def f_val_def cmp_def f_mag_less_iff f_mag_eq_iff)
qed

lemma scaled_cmp: "cmp (a * SCALE) (b * SCALE) = cmp a b"
  using SCALE_pos by (simp add: cmp_def)

lemma total_cmp_key:
  assumes "cell_ok x" "cell_ok y" "x \<noteq> CFloat NEG_ZERO" "y \<noteq> CFloat NEG_ZERO"
  shows "total_cmp x y = cmp (sort_key x) (sort_key y)"
  using assms
  by (cases x; cases y)
    (auto simp: total_cmp_def sort_key_def cell_ok_def cell_rank_def cmp_int_float_exact f_total_cmp_val reverse_cmp cmp_def
      [of "_ :: nat \<times> int \<times> bytes"] cmp_def [of "_ :: int"] cmp_def [of "_ :: bytes"] cmp_def [of "_ :: nat"]
      reverse_ord_def SCALE_pos less_imp_neq [OF SCALE_pos, symmetric])

lemma partial_compare_key:
  assumes "cell_ok x" "cell_ok y"
  shows "partial_compare x y = (if fst (sort_key x) = fst (sort_key y) \<and> x \<noteq> CNull then Some (cmp (sort_key x) (sort_key y)) else None)"
  using assms
  by (cases x; cases y)
    (auto simp: partial_compare_def sort_key_def cell_ok_def cmp_int_float_exact f_partial_cmp_def cmp_def reverse_ord_def SCALE_pos less_imp_neq [OF SCALE_pos, symmetric])


section \<open>Primary keys\<close>

lemma be64_inj: "a < 2 ^ 64 \<Longrightarrow> b < 2 ^ 64 \<Longrightarrow> be64 a = be64 b \<longleftrightarrow> a = b"
  using to_le_inj [of 8 a b] by (auto simp: be64_def)

lemma be64_word: "be64 (unat a) = be64 (unat b) \<longleftrightarrow> a = b" for a b :: u64
proof -
  have "unat x < 2 ^ LENGTH(64)" for x :: u64 by (rule unsigned_less)
  then show ?thesis by (subst be64_inj) (simp_all add: word_unat_eq_iff)
qed

lemma xor_cancel: "a XOR c = b XOR c \<longleftrightarrow> a = b" for a b c :: u64
  by (metis (no_types) bit.xor_self xor.assoc xor.right_neutral)

lemma word_of_i64_inj: "is_i64 i \<Longrightarrow> is_i64 j \<Longrightarrow> (word_of_int i :: u64) = word_of_int j \<longleftrightarrow> i = j"
proof
  assume ij: "is_i64 i" "is_i64 j" and "(word_of_int i :: u64) = word_of_int j"
  then have "take_bit 64 i = take_bit 64 j" by (simp add: word_of_int_eq_iff)
  then have "(i - j) mod 2 ^ 64 = 0" by (simp add: take_bit_eq_mod mod_eq_dvd_iff)
  then obtain k where "i - j = 2 ^ 64 * k" by auto
  moreover have "\<bar>i - j\<bar> < 2 ^ 64" using ij by (simp add: is_i64_def) linarith
  ultimately have "2 ^ 64 * \<bar>k\<bar> < 2 ^ 64 * 1" by (simp add: abs_mult)
  then have "k = 0" by simp
  with \<open>i - j = 2 ^ 64 * k\<close> show "i = j" by simp
qed simp

lemma int_key_inj: "is_i64 i \<Longrightarrow> is_i64 j \<Longrightarrow> int_key i = int_key j \<longleftrightarrow> i = j"
  by (simp add: int_key_def be64_word xor_cancel word_of_i64_inj)

definition f_in_range :: "f64 \<Rightarrow> bool" where
  "f_in_range f \<longleftrightarrow> f_finite f \<and> f_val f mod SCALE = 0 \<and> - (2 ^ 63) * SCALE \<le> f_val f \<and> f_val f < 2 ^ 63 * SCALE"

lemma trunc_integral: "f_val f mod SCALE = 0 \<Longrightarrow> f_trunc f * SCALE = f_val f"
  using div_mult_mod_eq [of "f_val f" SCALE] div_mult_mod_eq [of "- f_val f" SCALE]
  by (auto simp: f_trunc_def zmod_zminus1_eq_if)

lemma in_range_i64: "f_in_range f \<Longrightarrow> is_i64 (f_trunc f)"
  using trunc_integral [of f] SCALE_pos unfolding f_in_range_def is_i64_def
  by (metis mult_le_cancel_right mult_less_cancel_right_pos not_less)

lemma small_finite:
  assumes "\<not> is_nan f" "- (2 ^ 63) * SCALE \<le> f_val f" "f_val f < 2 ^ 63 * SCALE"
  shows "f_finite f"
proof (rule ccontr)
  assume "\<not> f_finite f"
  then have "f_low f = 2047 * 2 ^ 52" using assms(1) by (simp add: f_finite_def is_nan_def)
  then have "f_val f = 2 ^ 2098 \<or> f_val f = - (2 ^ 2098)" by (simp add: f_val_def f_mag_def)
  then show False using assms(2,3) by (simp add: SCALE_def)
qed

lemma out_of_range_inj:
  assumes "\<not> f_in_range f" "\<not> f_in_range g"
  shows "float_key f = float_key g \<longleftrightarrow> f = g"
proof -
  have k: "float_key h = 0x11 # be64 (unat (if bit h 63 then NOT h else h XOR TOP))" if "\<not> f_in_range h" for h
    using that unfolding float_key_def f_in_range_def by (simp only: if_False)
  have b: "bit (if bit h 63 then NOT h else h XOR TOP) 63 \<longleftrightarrow> \<not> bit h 63" for h :: u64
    by (simp add: TOP_def bit_simps)
  have "(if bit f 63 then NOT f else f XOR TOP) = (if bit g 63 then NOT g else g XOR TOP) \<longleftrightarrow> f = g"
    using b [of f] b [of g] by (auto simp: xor_cancel split: if_splits)
  then show ?thesis by (simp add: k [OF assms(1)] k [OF assms(2)] be64_word)
qed

definition key_part :: "cell \<Rightarrow> bytes" where
  "key_part c = (case c of CInteger i \<Rightarrow> int_key i | CFloat f \<Rightarrow> float_key f | CText s \<Rightarrow> 0x20 # s | CNull \<Rightarrow> [])"

lemma pk_key_part: "c \<noteq> CNull \<Longrightarrow> pk_key lower t c = Inr (pk_prefix lower t @ key_part c)"
  by (cases c) (simp_all add: pk_key_def key_part_def)

lemma float_key_range: "float_key f = (if f_in_range f then int_key (f_trunc f) else 0x11 # tl (float_key f))"
  by (simp add: float_key_def f_in_range_def)

lemma zero_in_range: "f_val f = 0 \<Longrightarrow> \<not> is_nan f \<Longrightarrow> f_in_range f"
  using small_finite [of f] by (simp add: f_in_range_def SCALE_def)

lemma int_float_key:
  assumes "is_i64 i" "\<not> is_nan f"
  shows "int_key i = float_key f \<longleftrightarrow> i * SCALE = f_val f"
proof (cases "f_in_range f")
  case True
  then have "int_key i = float_key f \<longleftrightarrow> i = f_trunc f" using int_key_inj [OF assms(1) in_range_i64] by (subst float_key_range) simp
  also have "\<dots> \<longleftrightarrow> i * SCALE = f_trunc f * SCALE" using SCALE_pos by simp
  finally show ?thesis using trunc_integral [of f] True unfolding f_in_range_def by metis
next
  case False
  have "i * SCALE \<noteq> f_val f"
  proof
    assume e: "i * SCALE = f_val f"
    have "- (2 ^ 63) * SCALE \<le> i * SCALE" "i * SCALE < 2 ^ 63 * SCALE"
      using assms(1) SCALE_pos by (intro mult_right_mono mult_strict_right_mono; simp add: is_i64_def)+
    then have "f_in_range f" using small_finite [OF assms(2)] e unfolding f_in_range_def by (metis mod_mult_self2_is_0)
    with False show False by simp
  qed
  moreover have "int_key i \<noteq> float_key f" using False by (subst float_key_range) (simp add: int_key_def)
  ultimately show ?thesis by simp
qed

lemma float_float_key:
  assumes "\<not> is_nan f" "\<not> is_nan g"
  shows "float_key f = float_key g \<longleftrightarrow> f_val f = f_val g"
proof (cases "f_in_range f")
  case True
  then have "float_key f = int_key (f_trunc f)" by (subst float_key_range) simp
  moreover have "f_trunc f * SCALE = f_val f" using trunc_integral [of f] True by (simp only: f_in_range_def)
  ultimately show ?thesis using int_float_key [OF in_range_i64 [OF True] assms(2)] by simp
next
  case False
  show ?thesis
  proof (cases "f_in_range g")
    case True
    then have "float_key g = int_key (f_trunc g)" by (subst float_key_range) simp
    then have "float_key f = float_key g \<longleftrightarrow> f_trunc g * SCALE = f_val f"
      using int_float_key [OF in_range_i64 [OF True] assms(1)] by (simp add: eq_commute)
    moreover have "f_trunc g * SCALE = f_val g" using trunc_integral [of g] True by (simp only: f_in_range_def)
    ultimately show ?thesis by (metis)
  next
    case False': False
    show ?thesis using out_of_range_inj [OF False False'] f_val_inj [of f g] zero_in_range [OF _ assms(1)] False by metis
  qed
qed

lemma key_part_eq:
  assumes "cell_ok x" "cell_ok y" "x \<noteq> CNull" "y \<noteq> CNull"
  shows "key_part x = key_part y \<longleftrightarrow> sort_key x = sort_key y"
proof -
  have t: "int_key i \<noteq> 0x20 # s" "float_key f \<noteq> 0x20 # s" for i f s by (simp_all add: int_key_def float_key_def)
  show ?thesis
    using assms by (cases x; cases y) (auto simp: key_part_def sort_key_def cell_ok_def t t [symmetric] int_key_inj int_float_key float_float_key
        int_float_key [THEN trans [OF eq_commute]] less_imp_neq [OF SCALE_pos, symmetric])
qed


section \<open>Keys of different tables\<close>

lemma key_split: "0 \<notin> set a \<Longrightarrow> 0 \<notin> set b \<Longrightarrow> a @ (0 :: u8) # x = b @ 0 # y \<longleftrightarrow> a = b \<and> x = y"
proof (induction a arbitrary: b)
  case (Cons c a)
  then show ?case by (cases b) auto
qed (auto simp: Cons_eq_append_conv)

lemma length_be64 [simp]: "length (be64 n) = 8"
  by (simp add: be64_def)

lemma row_id_roundtrip: "n < 2 ^ 64 \<Longrightarrow> row_id_of lower t (row_key lower t n) = Some n"
  by (simp add: row_id_of_def row_key_def Let_def be64_def from_le_to_le)

lemma row_id_of_key: "row_id_of lower t k = Some n \<Longrightarrow> k = row_key lower t n \<and> n < 2 ^ 64"
proof -
  let ?p = "row_prefix lower t"
  assume "row_id_of lower t k = Some n"
  then have k: "take (length ?p) k = ?p" "length k = length ?p + 8" "n = from_le (rev (drop (length ?p) k))"
    by (auto simp: row_id_of_def Let_def split: if_splits)
  have "to_le 8 n = rev (drop (length ?p) k)" using to_le_from_le [of "rev (drop (length ?p) k)"] k(2,3) by simp
  then have "be64 n = drop (length ?p) k" by (simp add: be64_def)
  then have "k = row_key lower t n" using k(1) append_take_drop_id [of "length ?p" k] by (simp add: row_key_def)
  moreover have "n < 256 ^ 8" using from_le_bound [of "rev (drop (length ?p) k)"] k(2,3) by simp
  ultimately show ?thesis by simp
qed


definition folds :: "(bytes \<Rightarrow> bytes) \<Rightarrow> bool" where
  "folds lower \<longleftrightarrow> (\<forall>s. 0 \<notin> set s \<longrightarrow> 0 \<notin> set (lower s))"

lemma no_control_no_zero: "\<not> has_control s \<Longrightarrow> 0 \<notin> set s"
  by (induction s rule: has_control.induct) auto

lemma valid_name_no_zero: "validate_name t = Inr () \<Longrightarrow> folds lower \<Longrightarrow> 0 \<notin> set (lower t)"
  using no_control_no_zero by (auto simp: validate_name_def folds_def split: if_splits)

lemma kw_no_zero: "0 \<notin> set (kw ''schema'')" "0 \<notin> set (kw ''row'')" "0 \<notin> set (kw ''pk'')" "0 \<notin> set (kw ''pkready'')"
  by (simp_all add: kw_def)

lemma kw_differ: "kw ''pk'' \<noteq> kw ''pkready''"
  by (simp add: kw_def)

text \<open>C21. Comparisons of stored values are exact. Integers and floats are compared by their numeric values without
  rounding, text by its bytes, and nothing else is comparable. The order used for sorting is the total
  order of numbers before text before \<open>NULL\<close>, for all values but the negative zero, and it agrees with the
  comparison wherever that is defined.\<close>

theorem cell_comparison_exact:
  assumes "cell_ok x" "cell_ok y"
  shows "partial_compare x y =
       (if fst (sort_key x) = fst (sort_key y) \<and> x \<noteq> CNull then Some (cmp (sort_key x) (sort_key y)) else None) \<and>
     (x \<noteq> CFloat NEG_ZERO \<and> y \<noteq> CFloat NEG_ZERO \<longrightarrow> total_cmp x y = cmp (sort_key x) (sort_key y))"
  using partial_compare_key [OF assms] total_cmp_key [OF assms] by blast

theorem cell_comparison_exact_witness:
  "partial_compare (CInteger 9007199254740993) (CFloat 0x4340000000000000) = Some Greater"
proof -
  have ok: "cell_ok (CInteger 9007199254740993)" "cell_ok (CFloat 0x4340000000000000)"
    by (simp_all add: cell_ok_def is_i64_def is_nan_def f_low_def)
  have v: "f_val 0x4340000000000000 = 9007199254740992 * SCALE"
    by (simp add: f_val_def f_neg_def f_low_def f_mag_def SCALE_def)
  have "9007199254740992 * SCALE < 9007199254740993 * SCALE" using SCALE_pos by simp
  then show ?thesis using cell_comparison_exact [OF ok] by (simp add: sort_key_def v cmp_def)
qed


text \<open>C22. The primary-key index decides equality. Two values have the same index key exactly when they belong to the
  same table and SQL equality holds between them (so \<open>1\<close> and \<open>1.0\<close> collide, and no two different values do);
  \<open>NULL\<close> has none.\<close>

theorem primary_keys_decide_equality:
  assumes "folds lower" "validate_name t = Inr ()" "validate_name u = Inr ()" "cell_ok x" "cell_ok y"
  shows "pk_key lower t CNull = Inl InvalidArgument \<and>
     (x \<noteq> CNull \<and> y \<noteq> CNull \<longrightarrow>
       (\<exists>k l. pk_key lower t x = Inr k \<and> pk_key lower u y = Inr l \<and>
         (k = l \<longleftrightarrow> lower t = lower u \<and> partial_compare x y = Some Equal)))"
proof (intro conjI impI)
  show "pk_key lower t CNull = Inl InvalidArgument" by (simp add: pk_key_def)
  assume n: "x \<noteq> CNull \<and> y \<noteq> CNull"
  have "pk_prefix lower t @ key_part x = pk_prefix lower u @ key_part y \<longleftrightarrow> lower t = lower u \<and> key_part x = key_part y"
    using key_split [OF valid_name_no_zero [OF assms(2,1)] valid_name_no_zero [OF assms(3,1)]] by (simp add: pk_prefix_def SEP_def)
  moreover have "partial_compare x y = Some Equal \<longleftrightarrow> sort_key x = sort_key y"
    using n by (auto simp: partial_compare_key [OF assms(4,5)] cmp_simps)
  ultimately show "\<exists>k l. pk_key lower t x = Inr k \<and> pk_key lower u y = Inr l \<and>
         (k = l \<longleftrightarrow> lower t = lower u \<and> partial_compare x y = Some Equal)"
    using n key_part_eq [OF assms(4,5)] by (simp add: pk_key_part)
qed

theorem primary_keys_decide_equality_witness:
  "\<exists>k. pk_key id [116] (CInteger 1) = Inr k \<and> pk_key id [116] (CFloat 0x3FF0000000000000) = Inr k"
proof -
  have ok: "cell_ok (CInteger 1)" "cell_ok (CFloat 0x3FF0000000000000)" "validate_name [116] = Inr ()" "folds id"
    by (simp_all add: cell_ok_def is_i64_def is_nan_def f_low_def validate_name_def folds_def)
  have v: "f_val 0x3FF0000000000000 = SCALE" by (simp add: f_val_def f_neg_def f_low_def f_mag_def SCALE_def)
  have "partial_compare (CInteger 1) (CFloat 0x3FF0000000000000) = Some Equal"
    by (simp add: partial_compare_key [OF ok(1,2)] sort_key_def v cmp_def)
  then show ?thesis using primary_keys_decide_equality [OF ok(4,3,3,1,2)] by auto
qed



section \<open>Schemas\<close>

definition schema_ok :: "(bytes \<Rightarrow> bytes) \<Rightarrow> table_schema \<Rightarrow> bool" where
  "schema_ok lower s \<longleftrightarrow>
     distinct (map lower (ts_columns s)) \<and> length (ts_types s) = width s \<and> (\<forall>i \<in> set (ts_not_null s). i < width s) \<and>
     (\<forall>i. ts_primary_key s = Some i \<longrightarrow> i < width s \<and> i \<in> set (ts_not_null s))"

lemma add_def_ok:
  "add_def lower i d s = Inr s' \<Longrightarrow> schema_ok lower s \<Longrightarrow> i = width s \<Longrightarrow> schema_ok lower s' \<and> width s' = Suc i \<and> ts_name s' = ts_name s"
  by (auto simp: add_def_def schema_ok_def width_def rbind_Inr_iff list_ex_iff less_Suc_eq split: if_splits, (metis | blast)+)

lemma add_defs_ok:
  "add_defs lower i ds s = Inr s' \<Longrightarrow> schema_ok lower s \<Longrightarrow> i = width s \<Longrightarrow> schema_ok lower s' \<and> width s' = i + length ds \<and> ts_name s' = ts_name s"
proof (induction lower i ds s rule: add_defs.induct)
  case (2 lower i d ds s)
  from 2(2) obtain s1 where s1: "add_def lower i d s = Inr s1" "add_defs lower (i + 1) ds s1 = Inr s'" by (auto simp: rbind_Inr_iff)
  from add_def_ok [OF s1(1) 2(3,4)] 2(1) [OF s1] show ?case by auto
qed simp

lemma from_defs_ok:
  "from_defs lower name defs = Inr s \<Longrightarrow> schema_ok lower s \<and> width s = length defs \<and> ts_name s = name \<and> validate_name name = Inr ()"
  using add_defs_ok [of lower 0 defs] by (fastforce simp: from_defs_def rbind_Inr_iff schema_ok_def width_def split: if_splits)

lemma column_index_iff:
  assumes "schema_ok lower s"
  shows "column_index lower s c = Inr i \<longleftrightarrow> i < width s \<and> lower (ts_columns s ! i) = lower c"
proof -
  let ?P = "\<lambda>i. lower (ts_columns s ! i) = lower c"
  have u: "i = j" if "?P i" "?P j" "i < width s" "j < width s" for i j
    using that assms unfolding schema_ok_def width_def distinct_conv_nth by (metis length_map nth_map)
  show ?thesis
  proof (cases "find ?P [0..<length (ts_columns s)]")
    case None
    then have "\<forall>i < width s. \<not> ?P i" by (auto simp: find_None_iff width_def)
    then show ?thesis using None by (auto simp: column_index_def)
  next
    case (Some k)
    then have "?P k" "k < width s" by (auto simp: find_Some_iff width_def)
    then show ?thesis using Some u [of k i] by (auto simp: column_index_def)
  qed
qed

end
