(* ===== verification/Spec2Isabelle.thy ===== *)
theory Spec2Isabelle
  imports Page_Access Wal_Props Isolation Journal Scan_Merge Lsm_Compact Rbac Audit_Log Encryption Sql_Print Sql_Value
begin

text \<open>
  A verification development for PhoenixDB, an embedded transactional key-value store written
  in Rust (\<open>src/rust/src\<close>).

  \<^bold>\<open>The program.\<close> A database is one file of 4096-byte pages, a journal and a write-ahead log.
  Committed transactions are appended to the log (\<open>wal.rs\<close>) and kept in memory as version
  chains (\<open>txn.rs\<close>); a checkpoint merges versions that every snapshot agrees on into a B+tree
  (\<open>btree.rs\<close>) of slotted pages (\<open>page.rs\<close>), which the pager (\<open>pager.rs\<close>) stages in memory,
  writes to the journal, and then in place. Opening a database replays the journal, then the
  log. The engine (\<open>lib.rs\<close>) composes these parts, and a registry (\<open>watch.rs\<close>) tells
  subscribers about committed changes.

  \<^bold>\<open>The theories\<close>, in the order in which they build on each other:

  \<^item> \<open>Prelude\<close>, \<open>Errors\<close>, \<open>OrdMap\<close>: bytes and little-endian fields; the error enum of \<open>error.rs\<close>,
    results and the state-and-error monad in which the stateful code is written (a Rust panic
    is the error \<open>Panic\<close>, a loop that never ends \<open>Diverge\<close>); \<open>BTreeMap\<close> as sorted association
    lists, with the locale \<open>ordered_map\<close> as their interface.
  \<^item> \<open>Security\<close>: constant-time comparison and the boundary checks of \<open>security/mod.rs\<close>.
  \<^item> \<open>Page\<close>, \<open>Page_Props\<close>, \<open>Page_Access\<close>: the slotted page as the list of its 4096 bytes, every
    accessor and editor of \<open>page.rs\<close>. The lemmas show that the editors refine list operations on
    the cells and that validated pages never make an accessor panic.
  \<^item> \<open>Frames\<close>, \<open>Wal\<close>, \<open>Wal_Props\<close>: the log as bytes, appending, syncing and resetting with failing
    system calls, the two passes of recovery.
  \<^item> \<open>Txn\<close>, \<open>Txn_Props\<close>, \<open>Isolation\<close>: the version store and its refinement of a history of
    commits: snapshot isolation with first-committer-wins.
  \<^item> \<open>Pager\<close>, \<open>Pager_Props\<close>, \<open>Journal\<close>: cache, mapping, staged pages, free list, journal. The disk
    is a record with a schedule of outcomes for the system calls, so that every call can fail or
    be the last one before a crash. \<open>Journal\<close> shows that a flush is atomic.
  \<^item> \<open>BTree\<close>, \<open>BTree_Check\<close>: the tree operations and the structural check.
  \<^item> \<open>Heap\<close>, \<open>Overflow\<close>, \<open>BTree_Shape\<close>, \<open>BTree_Node\<close>, \<open>BTree_Get\<close>, \<open>BTree_Split\<close>, \<open>BTree_Insert\<close>,
    \<open>BTree_Leaf\<close>, \<open>BTree_Grow\<close>, \<open>BTree_Zip\<close>, \<open>BTree_Path\<close>, \<open>BTree_Delete\<close>, \<open>BTree_Remove\<close>: functional
    correctness of the tree over the pager, with a weakest-precondition calculus and an abstract
    tree that says which page holds what. \<open>Tree_Store\<close> concludes that the pages determine the
    tree, interprets the version store's interface \<open>tree_ops\<close> on it and states what insertion,
    deletion, lookup and whole runs of transactions do.
  \<^item> \<open>Watch\<close>, \<open>Database\<close>: the change feed and the engine.
  \<^item> \<open>Scan\<close>, \<open>Scan_Merge\<close>: scans visit the entries of a range in order; the engine's scans and point
    reads deliver the state a transaction sees, whatever part of it is in memory or in the tree.
  \<^item> \<open>Bloom\<close>, \<open>Memtable\<close>, \<open>Sstable\<close>, \<open>Levels\<close>, \<open>Level_Inv\<close>, \<open>Lsm_Manifest\<close>, \<open>Lsm_Engine\<close>: the LSM engine of
    \<open>lsm/\<close>, part by part. \<open>Lsm_Reads\<close>, \<open>Lsm_Writes\<close>, \<open>Lsm_Swap\<close> and \<open>Lsm_Compact\<close> show what lookups, writes,
    flushes and compactions mean in terms of the list of versions the engine holds.
  \<^item> \<open>Rbac\<close>, \<open>Audit_Log\<close>, \<open>Encryption\<close>: the services of \<open>security/\<close>: role checks, the append-only audit file,
    page encryption with an abstract cipher.
  \<^item> \<open>Sql_Lexer\<close>, \<open>Sql_Ast\<close>, \<open>Sql_Parser\<close>: the front end of \<open>sql/\<close>: the tokenizer on bytes, the syntax tree,
    the recursive-descent parser over the remaining tokens. The loops of the parser have one unit of
    fuel more than there are tokens left, which is enough because every round consumes one.
    \<open>Sql_Parse_Props\<close> has a logic for the parser and shows that it always returns and what it accepts;
    \<open>Sql_Print\<close> writes statements as text and shows that they are parsed back.
  \<^item> \<open>Sql_Value\<close>: the stored values, storage keys and schemas of \<open>sql/catalog.rs\<close>. A float is its 64 bits, and
    comparisons are over its exact value.

  \<^bold>\<open>Not modelled\<close>: the SQL executor, collections, the vector index, offline repair, the C
  interface and observability; the notes of the manifest say why. The checksum (\<open>crc32fast\<close>) and the record
  encoding (\<open>bincode\<close>) are third-party code and are parameters of the definitions.
\<close>

end
